(* ===== verification/Prelude.thy ===== *)
theory Prelude
  imports Main "HOL-Library.Word"
begin

text \<open>
  Shared ground of the development: C strings and the parts of \<open>string.h\<close>, \<open>ctype.h\<close> and
  \<open>stdio.h\<close> the modelled sources call, with the list lemmas the component theories use.

  A C string is a \<^typ>\<open>string\<close> without its terminator; a pointer into it is an offset. A buffer
  of \<open>n\<close> bytes filled by \<open>strncpy\<close> and terminated at \<open>n - 1\<close>, or by \<open>snprintf\<close>, holds
  \<open>take (n - 1)\<close> of the text. The character classes are those of the C locale, in which no
  byte above 127 is a letter, a digit, a space or a printable character.
\<close>

named_theorems cstr \<open>rewrite rules for C string operations\<close>
named_theorems ctype \<open>definitions of the character classes\<close>

type_synonym cstring = string

section \<open>Character classes\<close>

definition ord_of :: "char \<Rightarrow> nat" where
  "ord_of c = of_char c"

definition isspace :: "char \<Rightarrow> bool" where
  "isspace c \<longleftrightarrow> (let n = ord_of c in n = 32 \<or> (9 \<le> n \<and> n \<le> 13))"

definition isdigit :: "char \<Rightarrow> bool" where
  "isdigit c \<longleftrightarrow> (let n = ord_of c in 48 \<le> n \<and> n \<le> 57)"

definition isupper :: "char \<Rightarrow> bool" where
  "isupper c \<longleftrightarrow> (let n = ord_of c in 65 \<le> n \<and> n \<le> 90)"

definition islower :: "char \<Rightarrow> bool" where
  "islower c \<longleftrightarrow> (let n = ord_of c in 97 \<le> n \<and> n \<le> 122)"

definition isalpha :: "char \<Rightarrow> bool" where
  "isalpha c \<longleftrightarrow> isupper c \<or> islower c"

definition isalnum :: "char \<Rightarrow> bool" where
  "isalnum c \<longleftrightarrow> isalpha c \<or> isdigit c"

definition isxdigit :: "char \<Rightarrow> bool" where
  "isxdigit c \<longleftrightarrow> isdigit c \<or> (let n = ord_of c in (65 \<le> n \<and> n \<le> 70) \<or> (97 \<le> n \<and> n \<le> 102))"

definition isgraph :: "char \<Rightarrow> bool" where
  "isgraph c \<longleftrightarrow> (let n = ord_of c in 33 \<le> n \<and> n \<le> 126)"

definition tolower :: "char \<Rightarrow> char" where
  "tolower c = (if isupper c then char_of (ord_of c + 32) else c)"

lemmas ctype_defs [ctype] = isspace_def isdigit_def isupper_def islower_def isalpha_def isalnum_def
  isxdigit_def isgraph_def Let_def

lemma ord_of_less [simp]: "ord_of c < 256"
  by (simp add: ord_of_def)

lemma ord_of_char_of [simp]: "n < 256 \<Longrightarrow> ord_of (char_of n) = n"
  by (simp add: ord_of_def)

lemma ord_of_eq_iff: "ord_of c = ord_of d \<longleftrightarrow> c = d"
  by (simp add: ord_of_def)

lemma tolower_idem [simp]: "tolower (tolower c) = tolower c"
proof (cases "isupper c")
  case True
  then have "ord_of (tolower c) = ord_of c + 32" "65 \<le> ord_of c" "ord_of c \<le> 90"
    by (auto simp: tolower_def isupper_def Let_def)
  then have "\<not> isupper (tolower c)" by (simp add: isupper_def Let_def)
  then show ?thesis by (simp add: tolower_def)
next
  case False
  then show ?thesis by (simp add: tolower_def)
qed

lemma isspace_tolower [simp]: "isspace (tolower c) = isspace c"
proof (cases "isupper c")
  case True
  then have "ord_of (tolower c) = ord_of c + 32" "65 \<le> ord_of c" "ord_of c \<le> 90"
    by (auto simp: tolower_def isupper_def Let_def)
  then show ?thesis by (simp add: isspace_def Let_def)
next
  case False
  then show ?thesis by (simp add: tolower_def)
qed

section \<open>String operations\<close>

abbreviation "NUL \<equiv> CHR 0x00"
abbreviation "LF \<equiv> CHR 0x0A"

text \<open>\<open>strncmp (a, b, n) == 0\<close>.\<close>

definition strneq :: "nat \<Rightarrow> cstring \<Rightarrow> cstring \<Rightarrow> bool" where
  "strneq n a b \<longleftrightarrow> take n a = take n b"

text \<open>The text a buffer of \<open>n\<close> bytes holds after a terminated \<open>strncpy\<close> or an \<open>snprintf\<close>.\<close>

definition bounded :: "nat \<Rightarrow> cstring \<Rightarrow> cstring" where
  "bounded n s = take (n - 1) s"

definition strchr :: "cstring \<Rightarrow> char \<Rightarrow> nat option" where
  "strchr s c = (if c \<in> set s then Some (length (takeWhile (\<lambda>x. x \<noteq> c) s)) else None)"

definition strrchr :: "cstring \<Rightarrow> char \<Rightarrow> nat option" where
  "strrchr s c = (if c \<in> set s
     then Some (length s - 1 - length (takeWhile (\<lambda>x. x \<noteq> c) (rev s))) else None)"

definition rstrip :: "(char \<Rightarrow> bool) \<Rightarrow> cstring \<Rightarrow> cstring" where
  "rstrip P s = rev (dropWhile P (rev s))"

lemma bounded_short [simp]: "length s < n \<Longrightarrow> bounded n s = s"
  by (simp add: bounded_def)

lemma bounded_length: "0 < n \<Longrightarrow> length (bounded n s) < n"
  by (simp add: bounded_def)

lemma bounded_idem [simp]: "bounded n (bounded n s) = bounded n s"
  by (simp add: bounded_def)

lemma set_bounded: "set (bounded n s) \<subseteq> set s"
  by (simp add: bounded_def set_take_subset)

text \<open>A stored text of less than \<open>n\<close> bytes compares equal under the bound \<open>n\<close> to itself only.\<close>

lemma strneq_stored:
  assumes a: "length a < n"
  shows "strneq n a b \<longleftrightarrow> a = b"
proof
  assume "strneq n a b"
  with a have "a = take n b" by (simp add: strneq_def)
  with a show "a = b" by (metis length_take min_def nat_neq_iff take_all_iff)
qed (simp add: strneq_def)

lemma strneq_refl [simp]: "strneq n a a"
  by (simp add: strneq_def)

lemma strchr_None [simp]: "strchr s c = None \<longleftrightarrow> c \<notin> set s"
  by (simp add: strchr_def)

lemma takeWhile_append_first: "c \<notin> set a \<Longrightarrow> takeWhile (\<lambda>x. x \<noteq> c) (a @ c # b) = a"
  by (induction a) auto

lemma first_split: "c \<notin> set a \<Longrightarrow> c \<notin> set b \<Longrightarrow> a @ c # r = b @ c # s \<Longrightarrow> a = b \<and> r = s"
proof (induction a arbitrary: b)
  case Nil
  then show ?case by (cases b) auto
next
  case (Cons x a)
  then show ?case by (cases b) auto
qed

lemma strchr_append [cstr]: "c \<notin> set a \<Longrightarrow> strchr (a @ c # b) c = Some (length a)"
  by (simp add: strchr_def takeWhile_append_first)

lemma strchr_append_not: "c \<notin> set a \<Longrightarrow> strchr (a @ b) c = map_option (\<lambda>i. length a + i) (strchr b c)"
  by (induction a) (auto simp: strchr_def)

lemma strchr_SomeD:
  assumes "strchr s c = Some i"
  shows "i < length s" "s ! i = c" "c \<notin> set (take i s)"
    "s = take i s @ c # drop (Suc i) s"
proof -
  let ?P = "\<lambda>x. x \<noteq> c"
  from assms have c: "c \<in> set s" and i: "i = length (takeWhile ?P s)"
    by (auto simp: strchr_def split: if_splits)
  have s: "s = takeWhile ?P s @ dropWhile ?P s" by simp
  from c have ne: "dropWhile ?P s \<noteq> []" by (auto simp: dropWhile_eq_Nil_conv)
  then have hd: "hd (dropWhile ?P s) = c" using hd_dropWhile [OF ne] by simp
  have tk: "take i s = takeWhile ?P s" by (simp add: i takeWhile_eq_take [symmetric])
  show lt: "i < length s"
    using ne i s by (metis append_Nil2 length_append length_greater_0_conv less_add_same_cancel1)
  show nth: "s ! i = c"
    using hd ne i by (metis hd_conv_nth nth_append_length_plus s add_0_right)
  show "c \<notin> set (take i s)"
    unfolding tk by (auto dest: set_takeWhileD)
  show "s = take i s @ c # drop (Suc i) s"
    using id_take_nth_drop [OF lt] nth by simp
qed

lemma strchr_Some_mem: "strchr s c = Some i \<Longrightarrow> c \<in> set s"
  by (auto simp: strchr_def split: if_splits)

lemma isgraph_not_space: "isgraph c \<Longrightarrow> \<not> isspace c"
  by (auto simp: isgraph_def isspace_def Let_def)

lemma strrchr_append [cstr]: "c \<notin> set b \<Longrightarrow> strrchr (a @ c # b) c = Some (length a)"
  by (simp add: strrchr_def takeWhile_append_first)

lemma strrchr_SomeD:
  assumes "strrchr s c = Some i"
  shows "i < length s" "s ! i = c"
proof -
  from assms have "c \<in> set s" by (auto simp: strrchr_def split: if_splits)
  then obtain a b where s: "s = a @ c # b" "c \<notin> set b" by (metis split_list_last)
  with assms have "i = length a" by (simp add: strrchr_append)
  with s show "i < length s" "s ! i = c" by simp_all
qed

lemma strrchr_None: "strrchr s c = None \<longleftrightarrow> c \<notin> set s"
  by (simp add: strrchr_def)

lemma strrchr_absent [simp]: "c \<notin> set s \<Longrightarrow> strrchr s c = None"
  by (simp add: strrchr_def)

lemma rstrip_Nil [simp]: "rstrip P [] = []"
  by (simp add: rstrip_def)

lemma rstrip_snoc [simp]: "rstrip P (s @ [c]) = (if P c then rstrip P s else s @ [c])"
  by (simp add: rstrip_def)

lemma rstrip_append_not: "xs \<noteq> [] \<Longrightarrow> \<not> P (last xs) \<Longrightarrow> rstrip P (s @ xs) = s @ xs"
  by (cases xs rule: rev_cases) (simp_all add: rstrip_def)

lemma rstrip_id: "s = [] \<or> \<not> P (last s) \<Longrightarrow> rstrip P s = s"
  by (cases s rule: rev_cases) auto

lemma dropWhile_id: "s = [] \<or> \<not> P (hd s) \<Longrightarrow> dropWhile P s = s"
  by (cases s) auto

section \<open>Decimal and hexadecimal text\<close>

definition digit_char :: "nat \<Rightarrow> char" where
  "digit_char n = char_of (48 + n)"

fun dec_digits :: "nat \<Rightarrow> cstring" where
  "dec_digits n = (if n < 10 then [digit_char n] else dec_digits (n div 10) @ [digit_char (n mod 10)])"

declare dec_digits.simps [simp del]

text \<open>\<open>snprintf ("%d")\<close>.\<close>

definition int_dec :: "int \<Rightarrow> cstring" where
  "int_dec i = (if i < 0 then CHR ''-'' # dec_digits (nat (- i)) else dec_digits (nat i))"

definition digits_val :: "cstring \<Rightarrow> nat" where
  "digits_val s = foldl (\<lambda>a c. 10 * a + (ord_of c - 48)) 0 s"

text \<open>\<open>atoi\<close> on text whose value the result type can hold.\<close>

definition atoi :: "cstring \<Rightarrow> int" where
  "atoi s = (case dropWhile isspace s of
       [] \<Rightarrow> 0
     | c # r \<Rightarrow> if c = CHR ''-'' then - int (digits_val (takeWhile isdigit r))
               else if c = CHR ''+'' then int (digits_val (takeWhile isdigit r))
               else int (digits_val (takeWhile isdigit (c # r))))"

lemma ord_digit_char [simp]: "n < 10 \<Longrightarrow> ord_of (digit_char n) = 48 + n"
  by (simp add: digit_char_def)

lemma isdigit_digit_char [simp]: "n < 10 \<Longrightarrow> isdigit (digit_char n)"
  by (simp add: isdigit_def Let_def)

lemma dec_digits_nonempty [simp]: "dec_digits n \<noteq> []"
  by (subst dec_digits.simps) simp

lemma dec_digits_isdigit: "c \<in> set (dec_digits n) \<Longrightarrow> isdigit c"
  by (induction n rule: dec_digits.induct)
    (subst (asm) (2) dec_digits.simps, auto split: if_splits)

lemma digits_val_snoc: "digits_val (s @ [c]) = 10 * digits_val s + (ord_of c - 48)"
  by (simp add: digits_val_def)

lemma digits_val_dec: "digits_val (dec_digits n) = n"
proof (induction n rule: dec_digits.induct)
  case (1 n)
  show ?case
  proof (cases "n < 10")
    case True
    then show ?thesis by (simp add: dec_digits.simps [of n] digits_val_def)
  next
    case False
    with 1 show ?thesis by (simp add: dec_digits.simps [of n] digits_val_snoc)
  qed
qed

lemma takeWhile_dec_digits [simp]: "takeWhile isdigit (dec_digits n) = dec_digits n"
  by (simp add: takeWhile_eq_all_conv dec_digits_isdigit)

lemma isdigit_not: "isdigit c \<Longrightarrow> \<not> isspace c \<and> c \<noteq> CHR ''-'' \<and> c \<noteq> CHR ''+''"
  by (auto simp: isdigit_def isspace_def Let_def ord_of_def)

lemma atoi_digits: "s \<noteq> [] \<Longrightarrow> (\<And>c. c \<in> set s \<Longrightarrow> isdigit c) \<Longrightarrow> atoi s = int (digits_val s)"
proof -
  assume ne: "s \<noteq> []" and d: "\<And>c. c \<in> set s \<Longrightarrow> isdigit c"
  then have tw: "takeWhile isdigit s = s" by (auto simp: takeWhile_eq_all_conv)
  from ne obtain a l where s: "s = a # l" by (cases s) auto
  with d have "\<not> isspace a \<and> a \<noteq> CHR ''-'' \<and> a \<noteq> CHR ''+''" by (simp add: isdigit_not)
  with s have "atoi s = int (digits_val (takeWhile isdigit s))" by (simp add: atoi_def)
  then show ?thesis by (simp only: tw)
qed

lemma atoi_int_dec: "atoi (int_dec i) = i"
proof (cases "i < 0")
  case True
  have "\<not> isspace (CHR ''-'')" by (simp add: isspace_def ord_of_def Let_def)
  with True show ?thesis by (simp add: int_dec_def atoi_def digits_val_dec)
next
  case False
  then have "atoi (dec_digits (nat i)) = int (digits_val (dec_digits (nat i)))"
    by (intro atoi_digits) (auto dest: dec_digits_isdigit)
  with False show ?thesis by (simp add: int_dec_def digits_val_dec)
qed

lemma dec_digits_length: "n < 10 ^ k \<Longrightarrow> 0 < k \<Longrightarrow> length (dec_digits n) \<le> k"
proof (induction k arbitrary: n)
  case 0
  then show ?case by simp
next
  case (Suc k)
  show ?case
  proof (cases "n < 10")
    case True
    then show ?thesis by (simp add: dec_digits.simps [of n])
  next
    case False
    with Suc.prems have "n div 10 < 10 ^ k" "0 < k" by (auto intro: gr0I)
    with Suc.IH have "length (dec_digits (n div 10)) \<le> k" by blast
    with False show ?thesis by (simp add: dec_digits.simps [of n])
  qed
qed

end
