(* ===== verification/Util.thy ===== *)
theory Util
  imports Prelude
begin

text \<open>
  The self-contained helpers of \<open>src/util.c\<close>: hexadecimal digits, path normalisation, error-code
  translation and the console-region state. The file buffers of the same source are in
  \<open>FileBuffer\<close>.
\<close>

section \<open>Hexadecimal digits\<close>

definition fromHex :: "char \<Rightarrow> int" where
  "fromHex digit =
     (let d = int (ord_of digit) in
      if 48 \<le> d \<and> d \<le> 57 then d - 48
      else if 65 \<le> d \<and> d \<le> 70 then d - 65 + 10
      else if 97 \<le> d \<and> d \<le> 102 then d - 97 + 10
      else -1)"

definition htab :: cstring where
  "htab = ''0123456789ABCDEF''"

text \<open>The index \<open>digit & 0x0F\<close> of a 32-bit \<open>int\<close>.\<close>

definition toHex :: "32 word \<Rightarrow> char" where
  "toHex digit = htab ! unat (take_bit 4 digit)"

text \<open>\<open>snprintf ("%02X")\<close> of a byte.\<close>

definition hex2 :: "8 word \<Rightarrow> cstring" where
  "hex2 b = [htab ! (unat b div 16), htab ! (unat b mod 16)]"

lemma fromHex_range: "-1 \<le> fromHex c \<and> fromHex c < 16"
  by (simp add: fromHex_def Let_def)

lemma fromHex_htab: "n < 16 \<Longrightarrow> fromHex (htab ! n) = int n"
proof -
  assume n: "n < 16"
  have "list_all (\<lambda>n. fromHex (htab ! n) = int n) [0..<16]" by code_simp
  with n show ?thesis by (simp add: list_all_iff)
qed

lemma fromHex_isxdigit: "fromHex c \<ge> 0 \<longleftrightarrow> isxdigit c"
  by (auto simp: fromHex_def isxdigit_def isdigit_def Let_def)

section \<open>Path prefixes\<close>

definition sanitizePrefix :: "cstring \<Rightarrow> cstring" where
  "sanitizePrefix prefix =
     (if prefix = [] then prefix
      else let p = map (\<lambda>c. if c = CHR 0x5C then CHR ''/'' else c) prefix;
               start = dropWhile (\<lambda>c. c = CHR ''/'') p
           in rstrip (\<lambda>c. c = CHR ''/'') start)"

definition ends_dir :: "cstring \<Rightarrow> bool" where
  "ends_dir d \<longleftrightarrow> d \<noteq> [] \<and> (last d = CHR ''/'' \<or> last d = CHR '':'')"

text \<open>\<open>buildIconPath\<close>: the text written to a buffer of \<open>sz\<close> bytes, and whether it fits.\<close>

definition buildIconPath :: "nat \<Rightarrow> cstring \<Rightarrow> cstring \<Rightarrow> cstring \<times> bool" where
  "buildIconPath sz dir name =
     (let sep = (if ends_dir dir then [] else ''/''); full = dir @ sep @ name
      in (bounded sz full, length full < sz))"

section \<open>Error codes of a failed mass-storage open\<close>

abbreviation "ENOENT \<equiv> (2::int)"
abbreviation "EIO \<equiv> (5::int)"
abbreviation "ENXIO \<equiv> (6::int)"
abbreviation "ENOMEM \<equiv> (12::int)"
abbreviation "EACCES \<equiv> (13::int)"
abbreviation "EINVAL \<equiv> (22::int)"
abbreviation "EROFS \<equiv> (30::int)"

definition bdmFatfsOpenErrno :: "cstring option \<Rightarrow> int \<Rightarrow> int" where
  "bdmFatfsOpenErrno path err =
     (case path of
        None \<Rightarrow> err
      | Some p \<Rightarrow>
          if \<not> strneq 4 p ''mass'' then err
          else if err = 4 \<or> err = 5 then ENOENT
          else if err = 7 then EACCES
          else if err = 10 then EROFS
          else if err = 11 \<or> err = 12 \<or> err = 13 then ENXIO
          else err)"

section \<open>Console region\<close>

datatype console_region =
  CONSOLE_REGION_INVALID | CONSOLE_REGION_JAPAN | CONSOLE_REGION_USA | CONSOLE_REGION_EUROPE
  | CONSOLE_REGION_CHINA

record region_state =
  ConsoleRegion :: console_region
  SystemDataFolderPath :: cstring
  SystemFolderLetter :: char

definition region_init :: region_state where
  "region_init = \<lparr>ConsoleRegion = CONSOLE_REGION_INVALID, SystemDataFolderPath = ''BRDATA-SYSTEM'',
     SystemFolderLetter = CHR ''R''\<rparr>"

text \<open>
  The table \<open>regions\<close> is indexed by a valid region only: \<open>InitConsoleRegionData\<close> stores one
  before it calls \<open>UpdateSystemPaths\<close>, so the last equation is never used.
\<close>

fun region_letter :: "console_region \<Rightarrow> char" where
  "region_letter CONSOLE_REGION_JAPAN = CHR ''I''"
| "region_letter CONSOLE_REGION_USA = CHR ''A''"
| "region_letter CONSOLE_REGION_EUROPE = CHR ''E''"
| "region_letter CONSOLE_REGION_CHINA = CHR ''C''"
| "region_letter CONSOLE_REGION_INVALID = CHR ''R''"

definition UpdateSystemPaths :: "region_state \<Rightarrow> region_state" where
  "UpdateSystemPaths s =
     (let l = region_letter (ConsoleRegion s) in
      s\<lparr>SystemFolderLetter := l, SystemDataFolderPath := (SystemDataFolderPath s)[1 := l]\<rparr>)"

text \<open>\<open>romver4\<close> is the fifth character of the ROM version string read from the console.\<close>

definition region_of_romver :: "char \<Rightarrow> console_region" where
  "region_of_romver c =
     (if c = CHR ''C'' then CONSOLE_REGION_CHINA
      else if c = CHR ''E'' then CONSOLE_REGION_EUROPE
      else if c = CHR ''H'' \<or> c = CHR ''A'' then CONSOLE_REGION_USA
      else CONSOLE_REGION_JAPAN)"

definition InitConsoleRegionData :: "char \<Rightarrow> region_state \<Rightarrow> region_state \<times> console_region" where
  "InitConsoleRegionData romver4 s =
     (if ConsoleRegion s = CONSOLE_REGION_INVALID
      then let s' = UpdateSystemPaths (s\<lparr>ConsoleRegion := region_of_romver romver4\<rparr>)
           in (s', ConsoleRegion s')
      else (s, ConsoleRegion s))"

section \<open>Facts\<close>

lemma hd_rstrip: "rstrip P s \<noteq> [] \<Longrightarrow> hd (rstrip P s) = hd s"
  by (induction s rule: rev_induct) (auto split: if_splits simp: hd_append)

lemma set_rstrip: "set (rstrip P s) \<subseteq> set s"
  by (metis rev_rev_ident rstrip_def set_dropWhileD set_rev subsetI)

lemma last_rstrip: "rstrip P s \<noteq> [] \<Longrightarrow> \<not> P (last (rstrip P s))"
  by (induction s rule: rev_induct) (auto split: if_splits)

lemma sanitizePrefix_shape:
  assumes "sanitizePrefix p \<noteq> []"
  shows "hd (sanitizePrefix p) \<noteq> CHR ''/''" "last (sanitizePrefix p) \<noteq> CHR ''/''"
    "CHR 0x5C \<notin> set (sanitizePrefix p)"
proof -
  define m where "m = map (\<lambda>c. if c = CHR 0x5C then CHR ''/'' else c) p"
  define d where "d = dropWhile (\<lambda>c. c = CHR ''/'') m"
  have p: "p \<noteq> []" using assms by (auto simp: sanitizePrefix_def)
  have eq: "sanitizePrefix p = rstrip (\<lambda>c. c = CHR ''/'') d"
    using p by (simp add: sanitizePrefix_def Let_def d_def m_def)
  have dn: "d \<noteq> []" using assms eq by auto
  show "hd (sanitizePrefix p) \<noteq> CHR ''/''"
    using hd_rstrip [of "\<lambda>c. c = CHR ''/''" d] hd_dropWhile [OF dn [unfolded d_def]] assms eq by (simp add: d_def)
  show "last (sanitizePrefix p) \<noteq> CHR ''/''"
    using last_rstrip [of "\<lambda>c. c = CHR ''/''" d] assms eq by simp
  have "CHR 0x5C \<notin> set m" by (auto simp: m_def)
  then have "CHR 0x5C \<notin> set d" unfolding d_def by (metis set_dropWhileD)
  then show "CHR 0x5C \<notin> set (sanitizePrefix p)"
    unfolding eq using set_rstrip by blast
qed

lemma InitConsoleRegionData_once:
  "InitConsoleRegionData c2 (fst (InitConsoleRegionData c1 s)) =
     (fst (InitConsoleRegionData c1 s), snd (InitConsoleRegionData c1 s))"
  by (auto simp: InitConsoleRegionData_def UpdateSystemPaths_def Let_def region_of_romver_def)

end
