(* ===== verification/KVSpec.thy ===== *)
theory KVSpec
  imports Prelude
begin

text \<open>
  The interface the clients of the configuration store rely on, as locales. \<open>kv_store\<close> is a map
  with a store, a lookup and a removal, in which only keys satisfying \<open>kok\<close> can be addressed and
  a stored value is kept as \<open>norm\<close> of what was given. \<open>numbered_store\<close> adds a family of numbered
  keys, under which a list is saved and read back until the first key that is absent.
  \<open>ConfigStore\<close> and \<open>CheatConfig\<close> interpret them on the model of \<open>src/config.c\<close>.
\<close>

fun put_all :: "('k \<Rightarrow> 'v \<Rightarrow> 's \<Rightarrow> 's) \<Rightarrow> ('k \<times> 'v) list \<Rightarrow> 's \<Rightarrow> 's" where
  "put_all put [] s = s"
| "put_all put ((k, v) # kvs) s = put_all put kvs (put k v s)"

fun del_all :: "('k \<Rightarrow> 's \<Rightarrow> 's) \<Rightarrow> 'k list \<Rightarrow> 's \<Rightarrow> 's" where
  "del_all del [] s = s"
| "del_all del (k # ks) s = del_all del ks (del k s)"

fun load_numbered :: "(nat \<Rightarrow> 'v option) \<Rightarrow> nat \<Rightarrow> nat \<Rightarrow> 'v list" where
  "load_numbered look i 0 = []"
| "load_numbered look i (Suc fuel) =
     (case look i of None \<Rightarrow> [] | Some v \<Rightarrow> v # load_numbered look (Suc i) fuel)"

lemma load_numbered_prefix:
  assumes "\<And>j. j < length vs \<Longrightarrow> look (i + j) = Some (vs ! j)"
    and "length vs < fuel \<Longrightarrow> look (i + length vs) = None"
    and "length vs \<le> fuel"
  shows "load_numbered look i fuel = vs"
  using assms
proof (induction vs arbitrary: i fuel)
  case Nil
  then show ?case by (cases fuel) auto
next
  case (Cons v vs)
  then obtain f where f: "fuel = Suc f" by (cases fuel) auto
  have "load_numbered look (Suc i) f = vs"
  proof (rule Cons.IH)
    fix j assume "j < length vs"
    then show "look (Suc i + j) = Some (vs ! j)" using Cons.prems(1) [of "Suc j"] by simp
  qed (use Cons.prems f in auto)
  then show ?case using Cons.prems(1) [of 0] f by simp
qed

locale kv_store =
  fixes put :: "'k \<Rightarrow> 'v \<Rightarrow> 's \<Rightarrow> 's"
    and get :: "'s \<Rightarrow> 'k \<Rightarrow> 'v option"
    and del :: "'k \<Rightarrow> 's \<Rightarrow> 's"
    and kok :: "'k \<Rightarrow> bool"
    and norm :: "'v \<Rightarrow> 'v"
    and inv :: "'s \<Rightarrow> bool"
  assumes get_put: "inv s \<Longrightarrow> kok k \<Longrightarrow> kok k' \<Longrightarrow>
      get (put k v s) k' = (if k' = k then Some (norm v) else get s k')"
    and get_del: "inv s \<Longrightarrow> kok k \<Longrightarrow> kok k' \<Longrightarrow>
      get (del k s) k' = (if k' = k then None else get s k')"
    and inv_put: "inv s \<Longrightarrow> inv (put k v s)"
    and inv_del: "inv s \<Longrightarrow> inv (del k s)"
begin

lemma inv_put_all: "inv s \<Longrightarrow> inv (put_all put kvs s)"
  by (induction kvs arbitrary: s) (auto simp: inv_put)

lemma inv_del_all: "inv s \<Longrightarrow> inv (del_all del ks s)"
  by (induction ks arbitrary: s) (auto simp: inv_del)

lemma get_put_all:
  assumes "inv s" "\<forall>k \<in> fst ` set kvs. kok k" "kok k'" "distinct (map fst kvs)"
  shows "get (put_all put kvs s) k' = (case map_of kvs k' of None \<Rightarrow> get s k' | Some v \<Rightarrow> Some (norm v))"
  using assms
proof (induction kvs arbitrary: s)
  case Nil
  then show ?case by simp
next
  case (Cons kv kvs)
  obtain k v where kv: "kv = (k, v)" by (cases kv)
  have "map_of kvs k = None"
    using Cons.prems(4) kv by (simp add: map_of_eq_None_iff)
  with Cons kv show ?case
    by (auto simp: get_put inv_put split: option.splits)
qed

lemma get_del_all:
  "inv s \<Longrightarrow> \<forall>k \<in> set ks. kok k \<Longrightarrow> kok k' \<Longrightarrow>
    get (del_all del ks s) k' = (if k' \<in> set ks then None else get s k')"
  by (induction ks arbitrary: s) (auto simp: get_del inv_del)

lemma put_idem: "inv s \<Longrightarrow> kok k \<Longrightarrow> kok k' \<Longrightarrow> get (put k v (put k v s)) k' = get (put k v s) k'"
  by (simp add: get_put inv_put)

end

locale numbered_store = kv_store +
  fixes nkey :: "nat \<Rightarrow> 'k" and N :: nat
  assumes nkey_inj: "i < N \<Longrightarrow> j < N \<Longrightarrow> nkey i = nkey j \<Longrightarrow> i = j"
    and nkey_ok: "i < N \<Longrightarrow> kok (nkey i)"
begin

lemma map_of_numbered:
  assumes "length vs \<le> N" "i < N"
  shows "map_of (zip (map nkey [0..<length vs]) vs) (nkey i) = (if i < length vs then Some (vs ! i) else None)"
proof -
  have d: "distinct (map nkey [0..<length vs])"
    using assms(1) by (auto simp: distinct_map inj_on_def intro: nkey_inj)
  show ?thesis
  proof (cases "i < length vs")
    case True
    then have "(nkey i, vs ! i) \<in> set (zip (map nkey [0..<length vs]) vs)"
      by (auto simp: set_zip intro!: exI [of _ i])
    with d True show ?thesis by simp
  next
    case False
    have "nkey i \<noteq> nkey j" if "j < length vs" for j
      using that False assms nkey_inj [of i j] by auto
    then have "nkey i \<notin> fst ` set (zip (map nkey [0..<length vs]) vs)"
      unfolding set_zip by fastforce
    with False show ?thesis by (simp add: map_of_eq_None_iff)
  qed
qed

lemma load_saved:
  assumes "inv s" "length vs \<le> N"
  shows "load_numbered (\<lambda>i. get (put_all put (zip (map nkey [0..<length vs]) vs)
           (del_all del (map nkey [0..<N]) s)) (nkey i)) 0 N = map norm vs"
proof -
  define t where "t = del_all del (map nkey [0..<N]) s"
  have inv_t: "inv t" using assms(1) by (simp add: t_def inv_del_all)
  have t_none: "get t (nkey i) = None" if "i < N" for i
    using that assms(1) by (auto simp: t_def get_del_all nkey_ok)
  have look: "get (put_all put (zip (map nkey [0..<length vs]) vs) t) (nkey i) =
      (if i < length vs then Some (norm (vs ! i)) else None)" if "i < N" for i
  proof -
    have "distinct (map fst (zip (map nkey [0..<length vs]) vs))"
      using assms(2) by (auto simp: distinct_map inj_on_def intro: nkey_inj)
    moreover have "\<forall>k \<in> fst ` set (zip (map nkey [0..<length vs]) vs). kok k"
      using assms(2) by (auto simp: set_zip nkey_ok)
    ultimately show ?thesis
      using that by (simp add: get_put_all inv_t nkey_ok map_of_numbered assms(2) t_none)
  qed
  show ?thesis unfolding t_def [symmetric]
    by (rule load_numbered_prefix) (use look assms(2) in auto)
qed

end

end
