(* ===== verification/ConfigStore.thy ===== *)
theory ConfigStore
  imports Util KVSpec
begin

text \<open>
  The in-memory configuration sets of \<open>src/config.c\<close>: a \<open>config_set_t\<close> is a list of key/value
  nodes with a file name, a \<open>modified\<close> flag and the syntax of the file it came from. The linked
  list from \<open>head\<close> to \<open>tail\<close> is the list of its nodes in order, and a pointer to a node is its
  position. Every node allocation is a boolean argument \<open>mem\<close>: whether \<open>malloc\<close> succeeds.

  The locale \<open>kv_store\<close> states what the clients of the store rely on (a lookup after a store or a
  removal); it is interpreted on the model below and the clients use its facts.
\<close>

section \<open>Data\<close>

abbreviation "CONFIG_KEY_NAME_LEN \<equiv> (48::nat)"
abbreviation "CONFIG_KEY_VALUE_LEN \<equiv> (256::nat)"

datatype cfg_format = CFG_FMT_LEGACY | CFG_FMT_LIBCONFIG

type_synonym config_value = "cstring \<times> cstring"

record config_set =
  cs_type :: nat
  entries :: "config_value list"
  filename :: "cstring option"
  modified :: bool
  format :: cfg_format
  uid :: "32 word"

definition runtime_key :: "cstring \<Rightarrow> bool" where
  "runtime_key k \<longleftrightarrow> k \<noteq> [] \<and> hd k = CHR ''#''"

section \<open>Operations\<close>

definition configKeyValidate :: "cstring \<Rightarrow> bool" where
  "configKeyValidate key \<longleftrightarrow> key \<noteq> [] \<and> CHR ''='' \<notin> set key"

definition allocConfigItem :: "cstring \<Rightarrow> cstring \<Rightarrow> config_value" where
  "allocConfigItem key val = (bounded CONFIG_KEY_NAME_LEN key, bounded CONFIG_KEY_VALUE_LEN val)"

definition addConfigValue :: "bool \<Rightarrow> config_set \<Rightarrow> cstring \<Rightarrow> cstring \<Rightarrow> config_set \<times> bool" where
  "addConfigValue mem cs key val =
     (if mem then (cs\<lparr>entries := entries cs @ [allocConfigItem key val]\<rparr>, True) else (cs, False))"

fun item_index :: "cstring \<Rightarrow> config_value list \<Rightarrow> nat option" where
  "item_index name [] = None"
| "item_index name (it # its) =
     (if strneq CONFIG_KEY_NAME_LEN (fst it) name then Some 0
      else map_option Suc (item_index name its))"

definition getConfigItemForName :: "config_set \<Rightarrow> cstring \<Rightarrow> nat option" where
  "getConfigItemForName cs name = item_index name (entries cs)"

text \<open>\<open>configSetStr\<close> past its argument checks.\<close>

definition config_put :: "bool \<Rightarrow> config_set \<Rightarrow> cstring \<Rightarrow> cstring \<Rightarrow> config_set \<times> bool" where
  "config_put mem cs key value =
     (case getConfigItemForName cs key of
        Some i \<Rightarrow>
          (let (k, v) = entries cs ! i in
           if strneq CONFIG_KEY_VALUE_LEN v value then (cs, True)
           else (cs\<lparr>entries := (entries cs)[i := (k, bounded CONFIG_KEY_VALUE_LEN value)],
                    modified := modified cs \<or> \<not> runtime_key k\<rparr>, True))
      | None \<Rightarrow>
          (case addConfigValue mem cs key value of
             (cs', False) \<Rightarrow> (cs', False)
           | (cs', True) \<Rightarrow> (cs'\<lparr>modified := modified cs' \<or> \<not> runtime_key key\<rparr>, True)))"

definition configSetStr ::
  "bool \<Rightarrow> config_set option \<Rightarrow> cstring option \<Rightarrow> cstring option \<Rightarrow> config_set option \<times> bool" where
  "configSetStr mem configSet key value =
     (case (configSet, key, value) of
        (Some cs, Some k, Some v) \<Rightarrow>
          if configKeyValidate k then (case config_put mem cs k v of (cs', r) \<Rightarrow> (Some cs', r))
          else (configSet, False)
      | _ \<Rightarrow> (configSet, False))"

text \<open>\<open>configSetStr\<close> on a live set and non-null texts.\<close>

definition set_str :: "bool \<Rightarrow> cstring \<Rightarrow> cstring \<Rightarrow> config_set \<Rightarrow> config_set \<times> bool" where
  "set_str mem key value cs = (if configKeyValidate key then config_put mem cs key value else (cs, False))"

definition configGetStr :: "config_set option \<Rightarrow> cstring option \<Rightarrow> cstring option" where
  "configGetStr configSet key =
     (case (configSet, key) of
        (Some cs, Some k) \<Rightarrow>
          if configKeyValidate k
          then map_option (\<lambda>i. snd (entries cs ! i)) (getConfigItemForName cs k) else None
      | _ \<Rightarrow> None)"

definition get_str :: "config_set \<Rightarrow> cstring \<Rightarrow> cstring option" where
  "get_str cs key = configGetStr (Some cs) (Some key)"

text \<open>The caller's buffer of \<open>n\<close> bytes and the result.\<close>

definition configGetStrCopy :: "config_set option \<Rightarrow> cstring option \<Rightarrow> nat \<Rightarrow> cstring \<times> bool" where
  "configGetStrCopy configSet key n =
     (case configGetStr configSet key of
        Some v \<Rightarrow> (bounded n v, True)
      | None \<Rightarrow> ([], False))"

definition configSetInt :: "bool \<Rightarrow> cstring \<Rightarrow> 32 word \<Rightarrow> config_set \<Rightarrow> config_set \<times> bool" where
  "configSetInt mem key value cs = set_str mem key (bounded 12 (int_dec (sint value))) cs"

definition configGetInt :: "config_set option \<Rightarrow> cstring option \<Rightarrow> 32 word option" where
  "configGetInt configSet key = map_option (\<lambda>v. word_of_int (atoi v)) (configGetStr configSet key)"

subsection \<open>Colours and disc identifiers\<close>

fun color_loop :: "cstring \<Rightarrow> nat \<Rightarrow> nat \<Rightarrow> 8 word list \<Rightarrow> 8 word list" where
  "color_loop [] cnt n color = color"
| "color_loop (c # s) cnt n color =
     (let fh = fromHex c in
      if fh \<ge> 0 then
        if n \<ge> 3 then color
        else let color' = color[n := (color ! n) * 16 + word_of_int fh] in
             if cnt = 1 then color_loop s 0 (n + 1) color'
             else color_loop s (cnt + 1) n color'
      else color)"

text \<open>The three bytes of the caller's buffer afterwards, and the result.\<close>

definition strToColor :: "cstring option \<Rightarrow> 8 word list \<times> bool" where
  "strToColor str =
     (case str of
        Some (c # s) \<Rightarrow> if c = CHR ''#'' then (color_loop s 0 0 [0, 0, 0], True) else ([0, 0, 0], False)
      | _ \<Rightarrow> ([0, 0, 0], False))"

definition configSetColor :: "bool \<Rightarrow> cstring \<Rightarrow> 8 word \<times> 8 word \<times> 8 word \<Rightarrow> config_set \<Rightarrow> config_set \<times> bool" where
  "configSetColor mem key color cs =
     (case color of (r, g, b) \<Rightarrow> set_str mem key (bounded 8 (''#'' @ hex2 r @ hex2 g @ hex2 b)) cs)"

definition configGetColor :: "config_set option \<Rightarrow> cstring option \<Rightarrow> 8 word list option" where
  "configGetColor configSet key = map_option (\<lambda>v. fst (strToColor (Some v))) (configGetStr configSet key)"

fun disc_loop :: "cstring \<Rightarrow> nat \<Rightarrow> 8 word list \<Rightarrow> 8 word list" where
  "disc_loop [] p dst = dst"
| "disc_loop (c # gid) p dst =
     (if p \<ge> 10 then dst
      else let dv = fromHex c in
           if dv < 0 then disc_loop gid p dst
           else disc_loop gid (p + 1) (dst[p div 2 := (dst ! (p div 2)) * 16 + word_of_int dv]))"

definition CONFIG_ITEM_DNAS :: cstring where
  "CONFIG_ITEM_DNAS = ''$DNAS''"

definition configGetDiscIDBinary :: "config_set option \<Rightarrow> 8 word list" where
  "configGetDiscIDBinary configSet =
     (case configGetStr configSet (Some CONFIG_ITEM_DNAS) of
        Some gid \<Rightarrow> disc_loop gid 0 [0, 0, 0, 0, 0]
      | None \<Rightarrow> [0, 0, 0, 0, 0])"

subsection \<open>Removal, merging, allocation and copies\<close>

definition configRemoveKey :: "cstring \<Rightarrow> config_set \<Rightarrow> config_set \<times> bool" where
  "configRemoveKey key cs =
     (if configKeyValidate key then
        (let hit = (\<lambda>it. strneq CONFIG_KEY_NAME_LEN (fst it) key) in
         (cs\<lparr>entries := filter (\<lambda>it. \<not> hit it) (entries cs),
             modified := modified cs \<or> (list_ex hit (entries cs) \<and> \<not> runtime_key key)\<rparr>, True))
      else (cs, False))"

fun merge_entries :: "(nat \<Rightarrow> bool) \<Rightarrow> nat \<Rightarrow> config_value list \<Rightarrow> config_set \<Rightarrow> config_set" where
  "merge_entries mem n [] dest = dest"
| "merge_entries mem n ((k, v) # its) dest =
     merge_entries mem (Suc n) its (fst (set_str (mem n) k v dest))"

definition configMerge :: "(nat \<Rightarrow> bool) \<Rightarrow> config_set option \<Rightarrow> config_set option \<Rightarrow> config_set option" where
  "configMerge mem dest source =
     (case (dest, source) of
        (Some d, Some s) \<Rightarrow> Some (merge_entries mem 0 (entries s) d)
      | _ \<Rightarrow> dest)"

text \<open>
  \<open>configAlloc\<close>: \<open>slot\<close> is \<open>None\<close> when the caller passes a null set and one is allocated, the
  storage of a global set otherwise; \<open>mem_set\<close> and \<open>mem_name\<close> are the two allocations. The
  result is the new value of \<open>currentUID\<close>, the set's storage afterwards (\<open>None\<close> when there is none,
  or when it was freed again) and whether the returned pointer is non-null.
\<close>

definition configAlloc ::
  "bool \<Rightarrow> bool \<Rightarrow> 32 word \<Rightarrow> nat \<Rightarrow> config_set option \<Rightarrow> cstring option
    \<Rightarrow> 32 word \<times> config_set option \<times> bool" where
  "configAlloc mem_set mem_name currentUID type slot fileName =
     (if slot = None \<and> \<not> mem_set then (currentUID, None, False)
      else let u = currentUID + 1;
               fresh = \<lparr>cs_type = type, entries = [], filename = None, modified = False,
                        format = CFG_FMT_LEGACY, uid = u\<rparr>
        in (case fileName of
             Some f \<Rightarrow>
               if mem_name then (u, Some (fresh\<lparr>filename := Some f\<rparr>), True)
               else (u, map_option (\<lambda>s. fresh\<lparr>modified := modified s\<rparr>) slot, False)
           | None \<Rightarrow> (u, Some fresh, True)))"

definition configMove :: "bool \<Rightarrow> cstring option \<Rightarrow> config_set \<Rightarrow> config_set" where
  "configMove mem fileName cs =
     (case fileName of
        None \<Rightarrow> cs
      | Some f \<Rightarrow> if mem then cs\<lparr>filename := Some f\<rparr> else cs)"

fun clone_entries :: "(nat \<Rightarrow> bool) \<Rightarrow> nat \<Rightarrow> config_value list \<Rightarrow> config_set \<Rightarrow> config_set" where
  "clone_entries mem n [] dst = dst"
| "clone_entries mem n ((k, v) # its) dst =
     clone_entries mem (Suc n) its (fst (addConfigValue (mem n) dst k v))"

definition configClone ::
  "bool \<Rightarrow> bool \<Rightarrow> (nat \<Rightarrow> bool) \<Rightarrow> 32 word \<Rightarrow> config_set option \<Rightarrow> 32 word \<times> config_set option" where
  "configClone mem_set mem_name mem currentUID src =
     (case src of
        None \<Rightarrow> (currentUID, None)
      | Some s \<Rightarrow>
          (case configAlloc mem_set mem_name currentUID (cs_type s) None (filename s) of
             (u, Some d, True) \<Rightarrow> (u, Some ((clone_entries mem 0 (entries s) d)\<lparr>modified := False\<rparr>))
           | (u, _) \<Rightarrow> (u, None)))"

definition configClear :: "config_set \<Rightarrow> config_set" where
  "configClear cs = cs\<lparr>entries := [], modified := True\<rparr>"

definition configGetByType :: "config_set list \<Rightarrow> nat \<Rightarrow> config_set option" where
  "configGetByType configFiles type = find (\<lambda>cs. cs_type cs = type) configFiles"

subsection \<open>Virtual memory card keys\<close>

definition CONFIG_ITEM_VMC :: cstring where
  "CONFIG_ITEM_VMC = ''$VMC''"

definition CONFIG_ITEM_VMC_DISABLE :: cstring where
  "CONFIG_ITEM_VMC_DISABLE = ''$VMCDisable''"

definition slot_key :: "cstring \<Rightarrow> 32 word \<Rightarrow> cstring" where
  "slot_key item slot = bounded CONFIG_KEY_NAME_LEN (item @ ''_'' @ int_dec (sint slot))"

definition configGetVMC :: "config_set option \<Rightarrow> nat \<Rightarrow> 32 word \<Rightarrow> cstring" where
  "configGetVMC configSet n slot = fst (configGetStrCopy configSet (Some (slot_key CONFIG_ITEM_VMC slot)) n)"

definition configRemoveVMC :: "32 word \<Rightarrow> config_set \<Rightarrow> config_set" where
  "configRemoveVMC slot cs = fst (configRemoveKey (slot_key CONFIG_ITEM_VMC slot) cs)"

definition configSetVMC :: "bool \<Rightarrow> cstring \<Rightarrow> 32 word \<Rightarrow> config_set \<Rightarrow> config_set" where
  "configSetVMC mem vmc slot cs =
     (if vmc = [] then configRemoveVMC slot cs
      else fst (set_str mem (slot_key CONFIG_ITEM_VMC slot) vmc cs))"

text \<open>\<open>disabled\<close> is the caller's variable, left alone when the key is absent.\<close>

definition configGetVMCDisable :: "config_set option \<Rightarrow> 32 word \<Rightarrow> 32 word \<Rightarrow> 32 word" where
  "configGetVMCDisable configSet slot disabled =
     (case configGetInt configSet (Some (slot_key CONFIG_ITEM_VMC_DISABLE slot)) of
        Some d \<Rightarrow> d | None \<Rightarrow> disabled)"

definition configRemoveVMCDisable :: "32 word \<Rightarrow> config_set \<Rightarrow> config_set" where
  "configRemoveVMCDisable slot cs = fst (configRemoveKey (slot_key CONFIG_ITEM_VMC_DISABLE slot) cs)"

definition configSetVMCDisable :: "bool \<Rightarrow> 32 word \<Rightarrow> 32 word \<Rightarrow> config_set \<Rightarrow> config_set" where
  "configSetVMCDisable mem slot disabled cs =
     (if disabled = 0 then configRemoveVMCDisable slot cs
      else fst (configSetInt mem (slot_key CONFIG_ITEM_VMC_DISABLE slot) disabled cs))"

section \<open>Well-formed sets\<close>

definition item_ok :: "config_value \<Rightarrow> bool" where
  "item_ok it \<longleftrightarrow> configKeyValidate (fst it) \<and> length (fst it) < CONFIG_KEY_NAME_LEN
     \<and> length (snd it) < CONFIG_KEY_VALUE_LEN"

definition set_ok :: "config_set \<Rightarrow> bool" where
  "set_ok cs \<longleftrightarrow> list_all item_ok (entries cs)"

definition set_unique :: "config_set \<Rightarrow> bool" where
  "set_unique cs \<longleftrightarrow> set_ok cs \<and> distinct (map fst (entries cs))"

definition key_ok :: "cstring \<Rightarrow> bool" where
  "key_ok k \<longleftrightarrow> configKeyValidate k \<and> length k < CONFIG_KEY_NAME_LEN"

section \<open>Lookup, store and removal\<close>

lemma configKeyValidate_bounded:
  "configKeyValidate k \<Longrightarrow> 1 < n \<Longrightarrow> configKeyValidate (bounded n k)"
  by (auto simp: configKeyValidate_def bounded_def dest: in_set_takeD)

lemma allocConfigItem_ok: "configKeyValidate k \<Longrightarrow> item_ok (allocConfigItem k v)"
  using bounded_length [of 48 k] bounded_length [of 256 v]
  by (simp add: item_ok_def allocConfigItem_def configKeyValidate_bounded)

lemma item_index_Some:
  "item_index k its = Some i \<Longrightarrow> i < length its \<and> strneq 48 (fst (its ! i)) k"
  by (induction its arbitrary: i) (auto split: if_splits simp: nth_Cons split: nat.splits)

lemma item_index_map_of:
  "list_all item_ok its \<Longrightarrow> map_option (\<lambda>i. snd (its ! i)) (item_index k its) = map_of its k"
  by (induction its) (auto simp: item_ok_def strneq_stored option.map_comp comp_def)

lemma item_index_None: "list_all item_ok its \<Longrightarrow> item_index k its = None \<longleftrightarrow> map_of its k = None"
  by (metis item_index_map_of option.map_disc_iff)

lemma get_str_map_of:
  "set_ok cs \<Longrightarrow> get_str cs k = (if configKeyValidate k then map_of (entries cs) k else None)"
  by (simp add: get_str_def configGetStr_def getConfigItemForName_def set_ok_def item_index_map_of)

lemma map_of_update_first:
  "item_index k its = Some i \<Longrightarrow> list_all item_ok its \<Longrightarrow> length k < 48 \<Longrightarrow>
    map_of (its[i := (k, v)]) k' = (if k' = k then Some v else map_of its k')"
  by (induction its arbitrary: i) (auto simp: item_ok_def strneq_stored split: if_splits)

lemma item_index_key: "item_index k its = Some i \<Longrightarrow> list_all item_ok its \<Longrightarrow> fst (its ! i) = k"
  using item_index_Some [of k its i] by (auto simp: list_all_length item_ok_def strneq_stored)

lemma config_put_ok: "set_ok cs \<Longrightarrow> configKeyValidate k \<Longrightarrow> set_ok (fst (config_put mem cs k v))"
proof -
  assume ok: "set_ok cs" and k: "configKeyValidate k"
  show ?thesis
  proof (cases "item_index k (entries cs)")
    case None
    with ok k show ?thesis
      by (auto simp: config_put_def getConfigItemForName_def addConfigValue_def set_ok_def allocConfigItem_ok)
  next
    case (Some i)
    have "item_ok (fst (entries cs ! i), bounded 256 v)"
      using ok item_index_Some [OF Some] bounded_length [of 256 v]
      by (auto simp: set_ok_def list_all_length item_ok_def)
    then have "list_all item_ok ((entries cs)[i := (fst (entries cs ! i), bounded 256 v)])"
      using ok set_update_subset_insert [of "entries cs" i] by (fastforce simp: list_all_iff set_ok_def)
    then show ?thesis
      using ok Some by (auto simp: config_put_def getConfigItemForName_def set_ok_def split: prod.splits)
  qed
qed

lemma set_str_ok: "set_ok cs \<Longrightarrow> set_ok (fst (set_str mem k v cs))"
  by (simp add: set_str_def config_put_ok)

lemma get_config_put:
  assumes ok: "set_ok cs" and k: "key_ok k"
  shows "map_of (entries (fst (config_put True cs k v))) k' =
    (if k' = k then Some (bounded 256 v) else map_of (entries cs) k')"
proof (cases "item_index k (entries cs)")
  case None
  then have "map_of (entries cs) k = None" using ok by (simp add: set_ok_def item_index_None)
  with None k show ?thesis
    by (auto simp: config_put_def getConfigItemForName_def addConfigValue_def allocConfigItem_def
        key_ok_def map_add_def split: option.splits)
next
  case (Some i)
  have key: "fst (entries cs ! i) = k"
    using Some ok by (simp add: item_index_key set_ok_def)
  have len: "length (snd (entries cs ! i)) < 256"
    using ok item_index_Some [OF Some] by (auto simp: set_ok_def list_all_length item_ok_def)
  have now: "map_of (entries cs) k = Some (snd (entries cs ! i))"
    using item_index_map_of [of "entries cs" k] ok Some by (simp add: set_ok_def)
  show ?thesis
  proof (cases "strneq 256 (snd (entries cs ! i)) v")
    case True
    then have "snd (entries cs ! i) = v" using len by (simp add: strneq_stored)
    with True Some now len show ?thesis
      by (auto simp: config_put_def getConfigItemForName_def split: prod.splits)
  next
    case False
    with Some key k ok show ?thesis
      by (auto simp: config_put_def getConfigItemForName_def map_of_update_first set_ok_def key_ok_def
          split: prod.splits)
  qed
qed

lemma config_put_success: "snd (config_put True cs k v)"
  by (auto simp: config_put_def addConfigValue_def split: option.splits prod.splits)

lemma configRemoveKey_ok: "set_ok cs \<Longrightarrow> set_ok (fst (configRemoveKey k cs))"
  by (auto simp: configRemoveKey_def set_ok_def Let_def list_all_iff)

lemma map_of_filter_key:
  "list_all item_ok its \<Longrightarrow>
    map_of (filter (\<lambda>it. \<not> strneq 48 (fst it) k) its) k' = (if k' = k then None else map_of its k')"
  by (induction its) (auto simp: item_ok_def strneq_stored)

lemma get_str_remove:
  "set_ok cs \<Longrightarrow> key_ok k \<Longrightarrow>
    get_str (fst (configRemoveKey k cs)) k' = (if k' = k then None else get_str cs k')"
  by (simp add: get_str_map_of configRemoveKey_ok)
    (simp add: configRemoveKey_def Let_def key_ok_def map_of_filter_key set_ok_def)

text \<open>The model of \<open>src/config.c\<close> provides the interface \<open>kv_store\<close>.\<close>

interpretation cfg: kv_store
  "\<lambda>k v cs. fst (set_str True k v cs)" get_str "\<lambda>k cs. fst (configRemoveKey k cs)"
  key_ok "bounded 256" set_ok
proof unfold_locales
  fix cs k k' v assume "set_ok cs" "key_ok k" "key_ok k'"
  then show "get_str (fst (set_str True k v cs)) k' = (if k' = k then Some (bounded 256 v) else get_str cs k')"
    by (simp add: get_str_map_of set_str_ok) (simp add: set_str_def get_config_put key_ok_def)
qed (auto simp: set_str_ok configRemoveKey_ok get_str_remove)

section \<open>Properties of the store\<close>

lemma config_put_mem: "snd (config_put mem cs k v) \<Longrightarrow> config_put mem cs k v = config_put True cs k v"
  by (cases mem) (auto simp: config_put_def addConfigValue_def split: option.splits)

lemma configSetStr_Some:
  "configKeyValidate k \<Longrightarrow> configSetStr mem (Some cs) (Some k) (Some v) = (Some cs', True) \<Longrightarrow>
    cs' = fst (set_str True k v cs)"
  using config_put_mem [of mem cs k v]
  by (auto simp: configSetStr_def set_str_def case_prod_beta)

lemma get_str_invalid: "\<not> configKeyValidate k \<Longrightarrow> get_str cs k = None"
  by (simp add: get_str_def configGetStr_def)

lemma get_str_long: "set_ok cs \<Longrightarrow> 48 \<le> length k \<Longrightarrow> get_str cs k = None"
proof -
  assume ok: "set_ok cs" and k: "48 \<le> length k"
  have "k \<notin> fst ` set (entries cs)" using ok k by (auto simp: set_ok_def list_all_iff item_ok_def)
  then show ?thesis using ok by (simp add: get_str_map_of map_of_eq_None_iff)
qed

lemma get_str_put:
  assumes "set_ok cs" "key_ok k"
  shows "get_str (fst (set_str True k v cs)) k' = (if k' = k then Some (bounded 256 v) else get_str cs k')"
proof (cases "key_ok k'")
  case True
  with assms show ?thesis by (simp add: cfg.get_put)
next
  case False
  then have "get_str c k' = None" if "set_ok c" for c
    using that get_str_long get_str_invalid by (auto simp: key_ok_def not_less)
  moreover have "k' \<noteq> k" using assms False by auto
  ultimately show ?thesis using assms by (simp add: set_str_ok)
qed

text \<open>
  C19: a successful \<open>configSetStr\<close> with a key that fits the key buffer is read back by \<open>configGetStr\<close>,
  cut to the value buffer, leaves every other key as it was, and keeps the set well formed, whether
  or not the node allocation succeeded.
\<close>

theorem configSetStr_lookup:
  assumes "set_ok cs" "key_ok key"
    and "configSetStr mem (Some cs) (Some key) (Some v) = (Some cs', True)"
  shows "set_ok cs' \<and> configGetStr (Some cs') (Some key) = Some (bounded CONFIG_KEY_VALUE_LEN v)
    \<and> (\<forall>k'. k' \<noteq> key \<longrightarrow> configGetStr (Some cs') (Some k') = configGetStr (Some cs) (Some k'))"
proof -
  have "configKeyValidate key" using assms(2) by (simp add: key_ok_def)
  with assms(3) have cs': "cs' = fst (set_str True key v cs)" by (rule configSetStr_Some [rotated])
  show ?thesis
    using assms(1,2) get_str_put [of cs key v] unfolding cs' get_str_def [symmetric]
    by (simp add: set_str_ok)
qed

definition sample_set :: config_set where
  "sample_set = \<lparr>cs_type = 1, entries = [(''theme'', ''Korium''), (''vmode'', ''3'')],
     filename = Some ''mc0:OPL/settings_riptopl.cfg'', modified = False, format = CFG_FMT_LEGACY, uid = 1\<rparr>"

lemma sample_set_ok [simp]: "set_ok sample_set"
  by (simp add: sample_set_def set_ok_def item_ok_def configKeyValidate_def)

theorem configSetStr_lookup_witness:
  "configSetStr True (Some sample_set) (Some ''vmode'') (Some ''5'') =
     (Some (sample_set\<lparr>entries := [(''theme'', ''Korium''), (''vmode'', ''5'')], modified := True\<rparr>), True)
   \<and> configGetStr (Some (sample_set\<lparr>entries := [(''theme'', ''Korium''), (''vmode'', ''5'')], modified := True\<rparr>))
       (Some ''vmode'') = Some ''5''"
proof -
  have k: "key_ok ''vmode''" by (simp add: key_ok_def configKeyValidate_def)
  have e: "configSetStr True (Some sample_set) (Some ''vmode'') (Some ''5'') =
     (Some (sample_set\<lparr>entries := [(''theme'', ''Korium''), (''vmode'', ''5'')], modified := True\<rparr>), True)"
    by (simp add: configSetStr_def configKeyValidate_def config_put_def getConfigItemForName_def
        sample_set_def strneq_def runtime_key_def)
  show ?thesis using configSetStr_lookup [OF sample_set_ok k e] e by simp
qed

text \<open>
  \<open>configSetStr\<close> marks a set modified only when the text really changes and the key is not a
  runtime key, and storing the text a key already has changes nothing at all.
\<close>

theorem configSetStr_modified:
  assumes "set_ok cs" "key_ok key"
    and "configSetStr mem (Some cs) (Some key) (Some v) = (Some cs', True)"
  shows "(modified cs' \<longleftrightarrow> modified cs \<or> (configGetStr (Some cs) (Some key) \<noteq> Some v \<and> \<not> runtime_key key))
    \<and> (configGetStr (Some cs) (Some key) = Some v \<longrightarrow> cs' = cs)"
proof -
  have kv: "configKeyValidate key" and len: "length key < 48" using assms(2) by (auto simp: key_ok_def)
  with assms(3) have cs': "cs' = fst (config_put True cs key v)"
    using configSetStr_Some [of key mem cs v cs'] by (simp add: set_str_def)
  have get: "configGetStr (Some cs) (Some key) = map_of (entries cs) key"
    using get_str_map_of [OF assms(1), of key] kv by (simp add: get_str_def)
  have ok: "list_all item_ok (entries cs)" using assms(1) by (simp add: set_ok_def)
  have "modified cs' = (modified cs \<or> (map_of (entries cs) key \<noteq> Some v \<and> \<not> runtime_key key))
      \<and> (map_of (entries cs) key = Some v \<longrightarrow> cs' = cs)"
  proof (cases "item_index key (entries cs)")
    case None
    with ok have "map_of (entries cs) key = None" by (simp add: item_index_None)
    with None show ?thesis
      by (auto simp: cs' config_put_def getConfigItemForName_def addConfigValue_def)
  next
    case (Some i)
    with ok item_index_map_of [OF ok, of key]
    have now: "map_of (entries cs) key = Some (snd (entries cs ! i))" by simp
    have key: "fst (entries cs ! i) = key" using Some ok by (rule item_index_key)
    have "length (snd (entries cs ! i)) < 256"
      using ok item_index_Some [OF Some] by (auto simp: list_all_length item_ok_def)
    then have "strneq 256 (snd (entries cs ! i)) v \<longleftrightarrow> snd (entries cs ! i) = v"
      by (rule strneq_stored)
    with Some now key show ?thesis
      by (auto simp: cs' config_put_def getConfigItemForName_def split: prod.splits)
  qed
  then show ?thesis by (simp add: get)
qed

theorem configSetStr_modified_witness:
  "configSetStr False (Some sample_set) (Some ''theme'') (Some ''Korium'') = (Some sample_set, True)
   \<and> \<not> modified sample_set"
proof -
  have k: "key_ok ''theme''" by (simp add: key_ok_def configKeyValidate_def)
  have e: "configSetStr False (Some sample_set) (Some ''theme'') (Some ''Korium'') = (Some sample_set, True)"
    by (simp add: configSetStr_def configKeyValidate_def config_put_def getConfigItemForName_def
        sample_set_def strneq_def)
  have g: "configGetStr (Some sample_set) (Some ''theme'') = Some ''Korium''"
    by (simp add: configGetStr_def configKeyValidate_def getConfigItemForName_def sample_set_def strneq_def)
  show ?thesis using configSetStr_modified [OF sample_set_ok k e] e g
    by (simp add: sample_set_def)
qed

text \<open>
  A key of 48 characters or more is accepted by \<open>configSetStr\<close> (it returns 1 and appends a
  node) but can never be read back: the stored key is cut to 47 characters and the lookup
  compares 48. Repeating the call appends another node each time.
\<close>

theorem configSetStr_long_key_lost:
  assumes "set_ok cs" "configKeyValidate key" "CONFIG_KEY_NAME_LEN \<le> length key"
  shows "\<exists>cs'. configSetStr True (Some cs) (Some key) (Some v) = (Some cs', True)
    \<and> length (entries cs') = Suc (length (entries cs)) \<and> configGetStr (Some cs') (Some key) = None"
proof -
  have none: "item_index key (entries cs) = None"
    using get_str_long [OF assms(1,3)] assms(1,2)
    by (simp add: get_str_map_of item_index_None set_ok_def)
  let ?c = "fst (config_put True cs key v)"
  have "configSetStr True (Some cs) (Some key) (Some v) = (Some ?c, True)"
    using assms(2) config_put_success [of cs key v] by (simp add: configSetStr_def case_prod_beta)
  moreover have "length (entries ?c) = Suc (length (entries cs))"
    using none by (simp add: config_put_def getConfigItemForName_def addConfigValue_def)
  moreover have "configGetStr (Some ?c) (Some key) = None"
    using get_str_long [of ?c key] config_put_ok [OF assms(1,2)] assms(3) by (simp add: get_str_def)
  ultimately show ?thesis by blast
qed

theorem configSetStr_long_key_lost_witness:
  "\<exists>cs'. configSetStr True (Some sample_set) (Some (replicate 48 CHR ''k'')) (Some ''1'') = (Some cs', True)
    \<and> length (entries cs') = Suc (length (entries sample_set))
    \<and> configGetStr (Some cs') (Some (replicate 48 CHR ''k'')) = None"
  by (rule configSetStr_long_key_lost) (simp_all add: configKeyValidate_def)

section \<open>Numbers, colours and disc identifiers\<close>

lemma sint_dec_length:
  fixes w :: "32 word"
  shows "length (int_dec (sint w)) < 12"
proof -
  have lo: "- (2 ^ 31) \<le> sint w" and hi: "sint w < 2 ^ 31"
    using sint_ge [of w] sint_lt [of w] by simp_all
  show ?thesis
  proof (cases "sint w < 0")
    case True
    with lo have "nat (- sint w) < 10 ^ 10" by simp
    then have "length (dec_digits (nat (- sint w))) \<le> 10" by (rule dec_digits_length) simp
    with True show ?thesis by (simp add: int_dec_def)
  next
    case False
    with hi have "nat (sint w) < 10 ^ 10" by simp
    then have "length (dec_digits (nat (sint w))) \<le> 10" by (rule dec_digits_length) simp
    with False show ?thesis by (simp add: int_dec_def)
  qed
qed

text \<open>
  Every 32-bit integer stored with \<open>configSetInt\<close> is read back unchanged by \<open>configGetInt\<close>; the
  12-byte buffer always holds the whole decimal text.
\<close>

theorem configSetInt_roundtrip:
  assumes "set_ok cs" "key_ok key" "configSetInt mem key n cs = (cs', True)"
  shows "configGetInt (Some cs') (Some key) = Some n"
proof -
  have b: "bounded 12 (int_dec (sint n)) = int_dec (sint n)"
    using sint_dec_length [of n] by simp
  have kv: "configKeyValidate key" using assms(2) by (simp add: key_ok_def)
  from assms(3) kv b have "config_put mem cs key (int_dec (sint n)) = (cs', True)"
    by (simp add: configSetInt_def set_str_def)
  with config_put_mem [of mem cs key] have "cs' = fst (set_str True key (int_dec (sint n)) cs)"
    using kv by (simp add: set_str_def)
  then have "get_str cs' key = Some (int_dec (sint n))"
    using get_str_put [OF assms(1,2), of "int_dec (sint n)" key] sint_dec_length [of n] by simp
  then show ?thesis by (simp add: configGetInt_def get_str_def atoi_int_dec)
qed

theorem configSetInt_roundtrip_witness:
  "configGetInt (Some (fst (configSetInt True ''vmode'' (- 7) sample_set))) (Some ''vmode'') = Some (- 7)"
proof -
  have k: "key_ok ''vmode''" by (simp add: key_ok_def configKeyValidate_def)
  have "snd (configSetInt True ''vmode'' (- 7) sample_set)"
    using config_put_success k by (simp add: configSetInt_def set_str_def key_ok_def)
  then have e: "configSetInt True ''vmode'' (- 7) sample_set =
      (fst (configSetInt True ''vmode'' (- 7) sample_set), True)"
    by (metis prod.collapse)
  show ?thesis by (rule configSetInt_roundtrip [OF sample_set_ok k e])
qed

lemma nibbles: "word_of_int (int (unat b div 16)) * 16 + word_of_int (int (unat b mod 16)) = (b :: 8 word)"
proof -
  have "(of_nat (unat b div 16 * 16 + unat b mod 16) :: 8 word) = b"
    by (simp add: div_mult_mod_eq del: of_nat_add of_nat_mult)
  then show ?thesis by (simp only: of_nat_add of_nat_mult of_nat_numeral of_int_of_nat_eq)
qed

lemma unat_lt_256: "unat (b :: 8 word) < 256"
  using unsigned_less [of b] by simp

lemma color_loop_hex2:
  assumes "n < 3" "length color = 3" "color ! n = 0"
  shows "color_loop (hex2 b @ s) 0 n color = color_loop s 0 (n + 1) (color[n := b])"
proof -
  have u: "unat b div 16 < 16" using unat_lt_256 [of b] by simp
  show ?thesis
    using assms nibbles [of b] fromHex_htab [OF u] fromHex_htab [of "unat b mod 16"]
    by (simp add: hex2_def Let_def)
qed

text \<open>
  A colour stored with \<open>configSetColor\<close> is read back byte for byte by \<open>configGetColor\<close>.
\<close>

theorem configSetColor_roundtrip:
  assumes "set_ok cs" "key_ok key" "configSetColor mem key (r, g, b) cs = (cs', True)"
  shows "configGetColor (Some cs') (Some key) = Some [r, g, b]"
proof -
  let ?t = "''#'' @ hex2 r @ hex2 g @ hex2 b"
  have len: "length ?t = 7" by (simp add: hex2_def)
  have kv: "configKeyValidate key" using assms(2) by (simp add: key_ok_def)
  from assms(3) kv len have "config_put mem cs key ?t = (cs', True)"
    by (simp add: configSetColor_def set_str_def)
  with config_put_mem [of mem cs key] have "cs' = fst (set_str True key ?t cs)"
    using kv by (simp add: set_str_def)
  then have "get_str cs' key = Some ?t"
    using get_str_put [OF assms(1,2), of ?t key] len by simp
  moreover have "color_loop (hex2 r @ hex2 g @ hex2 b) 0 0 [0, 0, 0] = [r, g, b]"
    using color_loop_hex2 [of 2 "[r, g, 0]" b "[]"] by (simp add: color_loop_hex2 eval_nat_numeral)
  ultimately show ?thesis by (simp add: configGetColor_def get_str_def strToColor_def)
qed

theorem configSetColor_roundtrip_witness:
  "configGetColor (Some (fst (configSetColor True ''bg_color'' (0x1A, 0, 0xFF) sample_set))) (Some ''bg_color'')
     = Some [0x1A, 0, 0xFF]"
proof -
  have k: "key_ok ''bg_color''" by (simp add: key_ok_def configKeyValidate_def)
  have "snd (configSetColor True ''bg_color'' (0x1A, 0, 0xFF) sample_set)"
    using config_put_success k by (simp add: configSetColor_def set_str_def key_ok_def)
  then have e: "configSetColor True ''bg_color'' (0x1A, 0, 0xFF) sample_set =
      (fst (configSetColor True ''bg_color'' (0x1A, 0, 0xFF) sample_set), True)"
    by (metis prod.collapse)
  show ?thesis by (rule configSetColor_roundtrip [OF sample_set_ok k e])
qed

subsection \<open>Disc identifiers against a reference packing\<close>

fun pack_nibbles :: "8 word list \<Rightarrow> 8 word list" where
  "pack_nibbles (a # b # r) = (a * 16 + b) # pack_nibbles r"
| "pack_nibbles [a] = [a]"
| "pack_nibbles [] = []"

definition pad_zero :: "nat \<Rightarrow> 8 word list \<Rightarrow> 8 word list" where
  "pad_zero m xs = xs @ replicate (m - length xs) 0"

definition hex_nibbles :: "cstring \<Rightarrow> 8 word list" where
  "hex_nibbles s = map (\<lambda>c. word_of_int (fromHex c)) (filter isxdigit s)"

lemma pad_zero_Cons: "0 < m \<Longrightarrow> pad_zero m (x # xs) = x # pad_zero (m - 1) xs"
  by (simp add: pad_zero_def)

lemma pad_zero_step:
  "length ns < 2 * m \<Longrightarrow>
    (pad_zero m (pack_nibbles ns))[length ns div 2 := pad_zero m (pack_nibbles ns) ! (length ns div 2) * 16 + d]
    = pad_zero m (pack_nibbles (ns @ [d]))"
proof (induction ns arbitrary: m rule: pack_nibbles.induct)
  case (1 a b r)
  then have "0 < m" "length r < 2 * (m - 1)" by auto
  with 1 show ?case by (simp add: pad_zero_Cons)
next
  case 3
  then obtain k where "m = Suc k" by (cases m) auto
  then show ?case by (simp add: pad_zero_def)
next
  case (2 a)
  then show ?case by (simp add: pad_zero_def)
qed

lemma disc_loop_pack:
  "length ns \<le> 10 \<Longrightarrow>
    disc_loop s (length ns) (pad_zero 5 (pack_nibbles ns)) = pad_zero 5 (pack_nibbles (take 10 (ns @ hex_nibbles s)))"
proof (induction s arbitrary: ns)
  case Nil
  then show ?case by (simp add: hex_nibbles_def)
next
  case (Cons c s)
  consider "length ns = 10" | "length ns < 10" "fromHex c < 0" | "length ns < 10" "0 \<le> fromHex c"
    using Cons.prems by linarith
  then show ?case
  proof cases
    case 1
    then show ?thesis by simp
  next
    case 2
    then have "\<not> isxdigit c" using fromHex_isxdigit [of c] by simp
    with 2 Cons show ?thesis by (simp add: hex_nibbles_def)
  next
    case 3
    then have x: "isxdigit c" using fromHex_isxdigit [of c] by simp
    have "disc_loop (c # s) (length ns) (pad_zero 5 (pack_nibbles ns)) =
        disc_loop s (length (ns @ [word_of_int (fromHex c)])) (pad_zero 5 (pack_nibbles (ns @ [word_of_int (fromHex c)])))"
      using 3 pad_zero_step [of ns 5 "word_of_int (fromHex c)"] by (simp add: Let_def)
    also have "\<dots> = pad_zero 5 (pack_nibbles (take 10 ((ns @ [word_of_int (fromHex c)]) @ hex_nibbles s)))"
      using 3 by (intro Cons.IH) simp
    finally show ?thesis using x by (simp add: hex_nibbles_def)
  qed
qed

text \<open>
  \<open>configGetDiscIDBinary\<close> computes the first ten hexadecimal digits of the \<open>$DNAS\<close> text, two per
  byte, padded with zeros to exactly five bytes; anything else in the text is skipped and no write
  leaves the five-byte buffer.
\<close>

theorem configGetDiscIDBinary_packs:
  "configGetDiscIDBinary configSet =
     pad_zero 5 (pack_nibbles (take 10 (hex_nibbles
       (case configGetStr configSet (Some CONFIG_ITEM_DNAS) of None \<Rightarrow> [] | Some t \<Rightarrow> t))))
   \<and> length (configGetDiscIDBinary configSet) = 5"
proof -
  have len: "length (disc_loop s p dst) = length dst" for s p dst
    by (induction s p dst rule: disc_loop.induct) (auto simp: Let_def)
  have z: "pad_zero 5 (pack_nibbles []) = [0, 0, 0, 0, 0]" by (simp add: pad_zero_def eval_nat_numeral)
  have "length (configGetDiscIDBinary configSet) = 5"
    by (auto simp: configGetDiscIDBinary_def len split: option.splits)
  moreover have "disc_loop t 0 [0, 0, 0, 0, 0] = pad_zero 5 (pack_nibbles (take 10 (hex_nibbles t)))" for t
    using disc_loop_pack [of "[]" t] z by simp
  ultimately show ?thesis
    using z by (auto simp: configGetDiscIDBinary_def hex_nibbles_def split: option.splits)
qed

section \<open>Merging and copying sets\<close>

lemma merge_entries_ok: "set_ok d \<Longrightarrow> set_ok (merge_entries mem n its d)"
  by (induction mem n its d rule: merge_entries.induct) (auto simp: set_str_ok)

lemma merge_entries_lookup:
  assumes "set_ok d" "list_all item_ok its" "distinct (map fst its)"
  shows "get_str (merge_entries (\<lambda>_. True) n its d) k =
    (case map_of its k of Some v \<Rightarrow> Some v | None \<Rightarrow> get_str d k)"
  using assms
proof (induction its arbitrary: n d)
  case Nil
  then show ?case by simp
next
  case (Cons it its)
  obtain k0 v0 where it: "it = (k0, v0)" by (cases it)
  have ok: "key_ok k0" "length v0 < 256" and fresh: "map_of its k0 = None"
    using Cons.prems it by (auto simp: item_ok_def key_ok_def map_of_eq_None_iff)
  have "get_str (merge_entries (\<lambda>_. True) (Suc n) its (fst (set_str True k0 v0 d))) k =
      (case map_of its k of Some v \<Rightarrow> Some v | None \<Rightarrow> get_str (fst (set_str True k0 v0 d)) k)"
    using Cons.prems it by (intro Cons.IH) (auto simp: set_str_ok)
  then show ?case
    using Cons.prems(1) ok fresh it by (auto simp: get_str_put split: option.splits)
qed

text \<open>
  After \<open>configMerge\<close> every key of the source has the source's value and every other key keeps
  the destination's, for well-formed sets with unique keys.
\<close>

theorem configMerge_lookup:
  assumes "set_ok d" "set_unique s"
  shows "\<exists>d'. configMerge (\<lambda>_. True) (Some d) (Some s) = Some d' \<and> set_ok d' \<and>
    (\<forall>k. configGetStr (Some d') (Some k) =
       (case configGetStr (Some s) (Some k) of Some v \<Rightarrow> Some v | None \<Rightarrow> configGetStr (Some d) (Some k)))"
proof -
  have s: "set_ok s" "distinct (map fst (entries s))" "list_all item_ok (entries s)"
    using assms(2) by (auto simp: set_unique_def set_ok_def)
  have bad: "map_of (entries s) k = None" if "\<not> configKeyValidate k" for k
    using that s(3) by (auto simp: map_of_eq_None_iff list_all_iff item_ok_def)
  have "get_str (merge_entries (\<lambda>_. True) 0 (entries s) d) k =
      (case get_str s k of Some v \<Rightarrow> Some v | None \<Rightarrow> get_str d k)" for k
    using merge_entries_lookup [OF assms(1) s(3,2), of 0 k] s(1) bad [of k]
    by (auto simp: get_str_map_of)
  with assms(1) show ?thesis unfolding get_str_def by (simp add: configMerge_def merge_entries_ok)
qed

theorem configMerge_lookup_witness:
  "\<exists>d'. configMerge (\<lambda>_. True) (Some (configClear sample_set)) (Some sample_set) = Some d' \<and> set_ok d' \<and>
    (\<forall>k. configGetStr (Some d') (Some k) =
       (case configGetStr (Some sample_set) (Some k) of Some v \<Rightarrow> Some v
        | None \<Rightarrow> configGetStr (Some (configClear sample_set)) (Some k)))"
  by (rule configMerge_lookup)
    (simp_all add: set_unique_def configClear_def set_ok_def sample_set_def item_ok_def configKeyValidate_def)

lemma clone_entries_all:
  "list_all item_ok its \<Longrightarrow> clone_entries (\<lambda>_. True) n its d = d\<lparr>entries := entries d @ its\<rparr>"
  by (induction its arbitrary: n d)
    (auto simp: addConfigValue_def allocConfigItem_def item_ok_def)

text \<open>
  \<open>configClone\<close> copies every entry of a well-formed set, runtime keys included, with the type and
  file name of the source, a fresh identifier, the default syntax and a clean \<open>modified\<close> flag.
\<close>

theorem configClone_copies:
  assumes "set_ok s"
  shows "configClone True True (\<lambda>_. True) u (Some s) =
    (u + 1, Some (s\<lparr>modified := False, format := CFG_FMT_LEGACY, uid := u + 1\<rparr>))"
  using assms
  by (cases "filename s")
    (simp_all add: configClone_def configAlloc_def set_ok_def clone_entries_all Let_def)

theorem configClone_copies_witness:
  "configClone True True (\<lambda>_. True) 41 (Some sample_set) =
    (42, Some (sample_set\<lparr>modified := False, format := CFG_FMT_LEGACY, uid := 42\<rparr>))"
  using configClone_copies [OF sample_set_ok, of 41] by simp

end
