(* ===== verification/FileBuffer.thy ===== *)
theory FileBuffer
  imports Util
begin

text \<open>
  The buffered text files of \<open>src/util.c\<close>: the line reader \<open>readFileBuffer\<close>, the buffered writer
  \<open>writeFileBuffer\<close> and the close that reports the first failed write.

  \<open>fb_data\<close> is what the heap buffer holds in \<open>buffer[0 .. available)\<close>, \<open>fb_lastPtr\<close> the offset of
  \<open>lastPtr\<close> (\<open>None\<close> for the null pointer). A descriptor open for reading is the bytes still to be
  read, or a device whose next read fails. A read through a null pointer is the outcome \<open>RdFault\<close>.
  The terminators the reader writes into the buffer land on a line end it never looks at again,
  so the returned line is a value. Device writes are numbered, and the argument \<open>wr\<close> gives the
  count and \<open>errno\<close> each of them returns.
\<close>

section \<open>Data\<close>

datatype read_fd = FdClosed | FdOpen cstring | FdFail

record file_buffer =
  fb_fd :: read_fd
  fb_data :: cstring
  fb_size :: nat
  fb_lastPtr :: "nat option"

abbreviation "CR \<equiv> CHR 0x0D"

datatype rd_step =
    RdFault
  | RdEnd
  | RdSkip file_buffer nat
  | RdLine file_buffer cstring

section \<open>Reading lines\<close>

definition openFileBufferBuffer :: "cstring \<Rightarrow> file_buffer" where
  "openFileBufferBuffer buffer =
     \<lparr>fb_fd = FdClosed, fb_data = buffer, fb_size = length buffer, fb_lastPtr = Some 0\<rparr>"

text \<open>
  \<open>openFileBuffer\<close> in read mode on a file of the given content: the byte-order mark is skipped.
\<close>

definition utf8_bom :: cstring where
  "utf8_bom = [CHR 0xEF, CHR 0xBB, CHR 0xBF]"

definition openFileBuffer_read :: "nat \<Rightarrow> cstring \<Rightarrow> file_buffer" where
  "openFileBuffer_read sz content =
     \<lparr>fb_fd = FdOpen (if take 3 content = utf8_bom then drop 3 content else content),
      fb_data = [], fb_size = sz, fb_lastPtr = None\<rparr>"

text \<open>The second half of an iteration: \<open>q\<close> is \<open>lastPtr\<close>, \<open>ls\<close> the line size, \<open>pos\<close> the line feed.\<close>

definition strip_cr :: "cstring \<Rightarrow> cstring" where
  "strip_cr l = (if l \<noteq> [] \<and> last l = CR then butlast l else l)"

definition read_finish :: "file_buffer \<Rightarrow> nat \<Rightarrow> nat \<Rightarrow> nat option \<Rightarrow> rd_step" where
  "read_finish fb q ls pos =
     (let n = (case pos of Some i \<Rightarrow> i - q | None \<Rightarrow> ls);
          line = strip_cr (take n (drop q (fb_data fb)));
          nxt = fb\<lparr>fb_lastPtr := map_option Suc pos\<rparr>
      in if line = [] \<and> fb_data fb = [] \<and> fb_fd fb = FdClosed then RdEnd
         else if line \<noteq> [] \<and> hd line = CHR ''#'' then RdSkip nxt (length line)
         else RdLine nxt (takeWhile (\<lambda>c. c \<noteq> NUL) line))"

text \<open>\<open>strchr (buffer + q, '\n')\<close>: the first line feed at or after \<open>q\<close> and before a terminator.\<close>

definition lf_from :: "nat \<Rightarrow> cstring \<Rightarrow> nat option" where
  "lf_from q d = map_option (\<lambda>i. q + i) (strchr (takeWhile (\<lambda>c. c \<noteq> NUL) (drop q d)) LF)"

text \<open>One pass of the loop of \<open>readFileBuffer\<close>; \<open>ls0\<close> is \<open>lineSize\<close> as the previous pass left it.\<close>

definition read_iter :: "file_buffer \<Rightarrow> nat \<Rightarrow> rd_step" where
  "read_iter fb ls0 =
     (let ls = (case fb_lastPtr fb of Some q \<Rightarrow> length (fb_data fb) - q | None \<Rightarrow> ls0);
          pos = (case fb_lastPtr fb of Some q \<Rightarrow> lf_from q (fb_data fb) | None \<Rightarrow> None)
      in case pos of
           Some i \<Rightarrow> read_finish fb (the (fb_lastPtr fb)) ls pos
         | None \<Rightarrow>
             if ls \<noteq> 0 \<and> fb_lastPtr fb = None then RdFault
             else
               let keep = (case fb_lastPtr fb of Some q \<Rightarrow> drop q (fb_data fb) | None \<Rightarrow> [])
               in (case fb_fd fb of
                     FdClosed \<Rightarrow> read_finish (fb\<lparr>fb_data := keep, fb_lastPtr := Some 0\<rparr>) 0 (length keep) None
                   | FdFail \<Rightarrow>
                       read_finish (fb\<lparr>fb_data := keep, fb_lastPtr := Some 0, fb_fd := FdClosed\<rparr>) 0
                         (length keep) None
                   | FdOpen rest \<Rightarrow>
                       let len = fb_size fb - length keep - 1;
                           data = keep @ take len rest;
                           fd = (if fb_size fb \<noteq> length data + 1 then FdClosed else FdOpen (drop len rest))
                       in read_finish (fb\<lparr>fb_data := data, fb_lastPtr := Some 0, fb_fd := fd\<rparr>) 0
                            (length data) (lf_from (length keep) data)))"

text \<open>
  \<open>while (readFileBuffer (fileBuffer, &line))\<close>: the lines handed to the caller. \<open>None\<close> is out of
  fuel, \<open>Some (Inl ())\<close> the read through the null pointer.
\<close>

fun read_all :: "nat \<Rightarrow> file_buffer \<Rightarrow> nat \<Rightarrow> (unit + cstring list) option" where
  "read_all 0 fb ls = None"
| "read_all (Suc fuel) fb ls =
     (case read_iter fb ls of
        RdFault \<Rightarrow> Some (Inl ())
      | RdEnd \<Rightarrow> Some (Inr [])
      | RdSkip fb' ls' \<Rightarrow> read_all fuel fb' ls'
      | RdLine fb' l \<Rightarrow> map_option (map_sum id (\<lambda>ls. l # ls)) (read_all fuel fb' 0))"

section \<open>What the lines of a text are\<close>

function text_lines :: "cstring \<Rightarrow> cstring list" where
  "text_lines t =
     (if t = [] then []
      else case strchr t LF of
             None \<Rightarrow> [t]
           | Some i \<Rightarrow> take i t # text_lines (drop (Suc i) t))"
  by pat_completeness auto
termination
  by (relation "measure length") (auto dest: strchr_SomeD(1))

declare text_lines.simps [simp del]

definition comment_line :: "cstring \<Rightarrow> bool" where
  "comment_line l \<longleftrightarrow> l \<noteq> [] \<and> hd l = CHR ''#''"

definition kept_lines :: "cstring \<Rightarrow> cstring list" where
  "kept_lines t = filter (\<lambda>l. \<not> comment_line l) (map strip_cr (text_lines t))"

text \<open>The text ends in a comment that no line feed terminates.\<close>

definition open_comment :: "cstring \<Rightarrow> bool" where
  "open_comment t \<longleftrightarrow> t \<noteq> [] \<and> last t \<noteq> LF \<and> comment_line (last (text_lines t))"

section \<open>Buffered writing\<close>

record write_buffer =
  wb_data :: cstring
  wb_size :: nat
  wb_writeError :: int
  wb_totalQueued :: nat
  wb_calls :: nat
  wb_device :: cstring

text \<open>
  One \<open>write (fd, data, n)\<close>: \<open>wr\<close> gives the count returned and \<open>errno\<close>; the bytes counted are on
  the device. The recorded error is the first one.
\<close>

definition device_write :: "(nat \<Rightarrow> nat \<Rightarrow> int \<times> int) \<Rightarrow> cstring \<Rightarrow> write_buffer \<Rightarrow> write_buffer" where
  "device_write wr data wb =
     (case wr (wb_calls wb) (length data) of (written, errno) \<Rightarrow>
        wb\<lparr>wb_calls := Suc (wb_calls wb),
           wb_device := wb_device wb @ take (nat written) data,
           wb_writeError :=
             (if written \<noteq> int (length data) \<and> wb_writeError wb = 0
              then (if written < 0 \<and> errno \<noteq> 0 then errno else EIO)
              else wb_writeError wb)\<rparr>)"

definition writeFileBuffer :: "(nat \<Rightarrow> nat \<Rightarrow> int \<times> int) \<Rightarrow> cstring \<Rightarrow> write_buffer \<Rightarrow> write_buffer" where
  "writeFileBuffer wr inBuf wb =
     (if inBuf = [] then wb
      else
        let wb1 = wb\<lparr>wb_totalQueued := wb_totalQueued wb + length inBuf\<rparr>;
            wb2 = (if wb_data wb1 \<noteq> [] \<and> wb_size wb1 < length (wb_data wb1) + length inBuf
                   then (device_write wr (wb_data wb1) wb1)\<lparr>wb_data := []\<rparr> else wb1)
        in if wb_size wb2 < length inBuf then device_write wr inBuf wb2
           else wb2\<lparr>wb_data := wb_data wb2 @ inBuf\<rparr>)"

text \<open>
  \<open>closeFileBuffer\<close> on a writable buffer: the final flush, the close with its result and \<open>errno\<close>,
  and the reported error (\<open>None\<close> for the return value 0).
\<close>

definition closeFileBuffer ::
  "(nat \<Rightarrow> nat \<Rightarrow> int \<times> int) \<Rightarrow> int \<times> int \<Rightarrow> write_buffer \<Rightarrow> cstring \<times> int option" where
  "closeFileBuffer wr cl wb =
     (let wb' = (if wb_data wb \<noteq> [] then device_write wr (wb_data wb) wb else wb);
          err = (if fst cl < 0 \<and> wb_writeError wb' = 0 then (if snd cl \<noteq> 0 then snd cl else EIO)
                 else wb_writeError wb')
      in (wb_device wb', if err = 0 then None else Some err))"

definition openFileBuffer_write :: "nat \<Rightarrow> write_buffer" where
  "openFileBuffer_write sz =
     \<lparr>wb_data = [], wb_size = sz, wb_writeError = 0, wb_totalQueued = 0, wb_calls = 0, wb_device = []\<rparr>"

definition write_chunks :: "(nat \<Rightarrow> nat \<Rightarrow> int \<times> int) \<Rightarrow> cstring list \<Rightarrow> write_buffer \<Rightarrow> write_buffer" where
  "write_chunks wr cs wb = foldl (\<lambda>w c. writeFileBuffer wr c w) wb cs"

section \<open>The reader on a buffer in memory\<close>

lemma text_lines_Nil [simp]: "text_lines [] = []"
  by (simp add: text_lines.simps)

lemma text_lines_LF: "LF \<notin> set l \<Longrightarrow> text_lines (l @ LF # t) = l # text_lines t"
  by (subst text_lines.simps) (simp add: strchr_append)

lemma text_lines_last: "LF \<notin> set l \<Longrightarrow> l \<noteq> [] \<Longrightarrow> text_lines l = [l]"
  by (subst text_lines.simps) (simp add: strchr_def)

lemma takeWhile_NUL [simp]: "NUL \<notin> set t \<Longrightarrow> takeWhile (\<lambda>c. c \<noteq> NUL) t = t"
  by (auto simp: takeWhile_eq_all_conv)

lemma set_strip_cr: "set (strip_cr l) \<subseteq> set l"
  by (auto simp: strip_cr_def dest: in_set_butlastD)

lemma strip_cr_comment: "comment_line (strip_cr l) \<longleftrightarrow> comment_line l"
  by (cases l; cases "tl l") (auto simp: comment_line_def strip_cr_def)

lemma text_lines_nonempty: "t \<noteq> [] \<Longrightarrow> text_lines t \<noteq> []"
  by (subst text_lines.simps) (simp split: option.splits)

lemma text_cases [case_names Nil Last Line]:
  assumes "t = [] \<Longrightarrow> P" and "t \<noteq> [] \<Longrightarrow> LF \<notin> set t \<Longrightarrow> P"
    and "\<And>l r. t = l @ LF # r \<Longrightarrow> LF \<notin> set l \<Longrightarrow> P"
  shows P
  using assms by (metis split_list_first)

lemma open_comment_LF:
  assumes "LF \<notin> set l"
  shows "open_comment (l @ LF # r) = open_comment r"
  using assms text_lines_nonempty [of r] by (auto simp: open_comment_def text_lines_LF)

lemma kept_lines_LF:
  assumes "LF \<notin> set l"
  shows "kept_lines (l @ LF # r) = (if comment_line l then kept_lines r else strip_cr l # kept_lines r)"
  using assms by (simp add: kept_lines_def text_lines_LF strip_cr_comment)

lemma lf_from_line:
  assumes "drop q d = l @ LF # r" "LF \<notin> set l" "NUL \<notin> set d"
  shows "lf_from q d = Some (q + length l)"
proof -
  have "NUL \<notin> set (drop q d)" using assms(3) by (meson in_set_dropD)
  then show ?thesis using assms(1,2) by (simp add: lf_from_def strchr_append)
qed

lemma lf_from_none: "LF \<notin> set (drop q d) \<Longrightarrow> lf_from q d = None"
  by (auto simp: lf_from_def dest: set_takeWhileD)

lemma read_iter_line:
  assumes "fb_lastPtr fb = Some q" "drop q (fb_data fb) = l @ LF # r" "LF \<notin> set l" "NUL \<notin> set (fb_data fb)"
  shows "read_iter fb ls =
    (let nxt = fb\<lparr>fb_lastPtr := Some (q + length l + 1)\<rparr>
     in if comment_line l then RdSkip nxt (length (strip_cr l)) else RdLine nxt (strip_cr l))"
proof -
  have ne: "fb_data fb \<noteq> []" using assms(2) by auto
  have "NUL \<notin> set (drop q (fb_data fb))" using assms(4) by (meson in_set_dropD)
  then have "NUL \<notin> set (strip_cr l)" using assms(2) set_strip_cr [of l] by auto
  with assms ne strip_cr_comment [of l] show ?thesis
    by (auto simp: read_iter_def read_finish_def lf_from_line comment_line_def Let_def)
qed

lemma read_iter_last:
  assumes "fb_lastPtr fb = Some q" "drop q (fb_data fb) = t" "t \<noteq> []" "LF \<notin> set t"
    "NUL \<notin> set (fb_data fb)" "fb_fd fb = FdClosed"
  shows "read_iter fb ls =
    (let nxt = fb\<lparr>fb_data := t, fb_lastPtr := None\<rparr>
     in if comment_line t then RdSkip nxt (length (strip_cr t)) else RdLine nxt (strip_cr t))"
proof -
  have "NUL \<notin> set t" using assms(2,5) by (metis in_set_dropD)
  then have "NUL \<notin> set (strip_cr t)" using set_strip_cr [of t] by auto
  with assms lf_from_none [of q "fb_data fb"] strip_cr_comment [of t] show ?thesis
    by (auto simp: read_iter_def read_finish_def comment_line_def Let_def)
qed

lemma read_iter_end:
  assumes "fb_lastPtr fb = Some q" "drop q (fb_data fb) = []" "fb_fd fb = FdClosed"
  shows "read_iter fb ls = RdEnd"
  using assms lf_from_none [of q "fb_data fb"]
  by (auto simp: read_iter_def read_finish_def strip_cr_def Let_def)

lemma read_iter_null:
  assumes "fb_lastPtr fb = None" "fb_fd fb = FdClosed"
  shows "read_iter fb ls = (if ls = 0 then RdEnd else RdFault)"
  using assms by (auto simp: read_iter_def read_finish_def strip_cr_def Let_def)

lemma read_all_memory:
  assumes "fb_lastPtr fb = Some q" "drop q (fb_data fb) = t" "NUL \<notin> set (fb_data fb)"
    "fb_fd fb = FdClosed" "Suc (length t) < fuel"
  shows "read_all fuel fb ls = Some (if open_comment t then Inl () else Inr (kept_lines t))"
  using assms
proof (induction fuel arbitrary: fb q t ls)
  case 0
  then show ?case by simp
next
  case (Suc fuel)
  obtain f where f: "fuel = Suc f" using Suc.prems(5) by (cases fuel) auto
  show ?case
  proof (cases t rule: text_cases)
    case Nil
    with Suc.prems show ?thesis
      by (simp add: read_iter_end open_comment_def kept_lines_def)
  next
    case Last
    then have "last t \<noteq> LF" by (metis last_in_set)
    with Last have "open_comment t \<longleftrightarrow> comment_line t"
      by (simp add: open_comment_def text_lines_last)
    moreover have "comment_line t \<Longrightarrow> strip_cr t \<noteq> []"
      using strip_cr_comment [of t] by (auto simp: comment_line_def)
    ultimately show ?thesis
      using Last Suc.prems f
      by (simp add: read_iter_last read_iter_null Let_def kept_lines_def text_lines_last strip_cr_comment)
  next
    case (Line l r)
    let ?fb = "fb\<lparr>fb_lastPtr := Some (q + length l + 1)\<rparr>"
    have r: "drop (q + length l + 1) (fb_data fb) = r"
      using Suc.prems(2) Line(1) by (metis Suc_eq_plus1 add.assoc add.commute drop_drop drop_Suc_Cons append_eq_conv_conj drop0 list.sel(3) drop_Suc tl_drop)
    have "read_all fuel ?fb ls' = Some (if open_comment r then Inl () else Inr (kept_lines r))" for ls'
      using Suc.prems Line r by (intro Suc.IH [of ?fb "q + length l + 1"]) auto
    then show ?thesis
      using Suc.prems Line
      by (simp add: read_iter_line Let_def open_comment_LF kept_lines_LF)
  qed
qed

lemma lines_of_memory:
  "NUL \<notin> set t \<Longrightarrow>
    read_all (length t + 2) (openFileBufferBuffer t) 0 = Some (if open_comment t then Inl () else Inr (kept_lines t))"
  by (rule read_all_memory [of _ 0 t]) (simp_all add: openFileBufferBuffer_def)

text \<open>
  C33: the lines \<open>readFileBuffer\<close> returns from a text in memory are exactly the lines of the text
  between line feeds, each without a trailing carriage return and without the comment lines, for
  every text that does not end in an unterminated comment.
\<close>

theorem readFileBuffer_lines:
  assumes "NUL \<notin> set t" "\<not> open_comment t"
  shows "read_all (length t + 2) (openFileBufferBuffer t) 0 = Some (Inr (kept_lines t))"
  using assms lines_of_memory [of t] by simp

definition two_lines :: cstring where
  "two_lines = ''# head'' @ [CR, LF] @ ''theme=Korium'' @ [CR, LF] @ ''vmode=3''"

theorem readFileBuffer_lines_witness:
  "read_all (length two_lines + 2) (openFileBufferBuffer two_lines) 0 = Some (Inr [''theme=Korium'', ''vmode=3''])"
proof -
  have k: "kept_lines two_lines = [''theme=Korium'', ''vmode=3'']" by code_simp
  have "\<not> open_comment two_lines" by code_simp
  moreover have "NUL \<notin> set two_lines" by (simp add: two_lines_def)
  ultimately show ?thesis using readFileBuffer_lines [of two_lines] k by simp
qed

text \<open>
  On a text whose last line is a comment with no line feed after it, \<open>readFileBuffer\<close> copies
  from the null pointer: the loop sets \<open>lastPtr\<close> to null, keeps \<open>lineSize\<close>, and the next pass moves
  \<open>lineSize\<close> bytes from \<open>lastPtr\<close>.
\<close>

theorem readFileBuffer_open_comment_faults:
  assumes "NUL \<notin> set t" "open_comment t"
  shows "read_all (length t + 2) (openFileBufferBuffer t) 0 = Some (Inl ())"
  using assms lines_of_memory [of t] by simp

theorem readFileBuffer_open_comment_faults_witness:
  "read_all 15 (openFileBufferBuffer (''vmode=3'' @ [LF] @ ''# end'')) 0 = Some (Inl ())"
proof -
  let ?t = "''vmode=3'' @ [LF] @ ''# end''"
  have "open_comment ?t" by code_simp
  then have "read_all (length ?t + 2) (openFileBufferBuffer ?t) 0 = Some (Inl ())"
    by (intro readFileBuffer_open_comment_faults) simp_all
  moreover have "length ?t + 2 = 15" by simp
  ultimately show ?thesis by (simp only:)
qed

section \<open>The writer\<close>

definition pending :: "write_buffer \<Rightarrow> cstring" where
  "pending wb = wb_device wb @ wb_data wb"

lemma device_write_error: "wb_writeError wb \<noteq> 0 \<Longrightarrow> wb_writeError (device_write wr d wb) \<noteq> 0"
  by (auto simp: device_write_def split: prod.splits)

lemma device_write_clean:
  "wb_writeError (device_write wr d wb) = 0 \<Longrightarrow>
    wb_writeError wb = 0 \<and> wb_device (device_write wr d wb) = wb_device wb @ d"
  by (auto simp: device_write_def split: prod.splits if_splits)

lemma device_write_frame [simp]:
  "wb_data (device_write wr d w) = wb_data w" "wb_size (device_write wr d w) = wb_size w"
  by (simp_all add: device_write_def split: prod.splits)

lemma device_write_pending:
  assumes "wb_writeError (device_write wr d wb) = 0" "wb_data wb = []"
  shows "wb_writeError wb = 0" "pending (device_write wr d wb) = pending wb @ d"
  using device_write_clean [OF assms(1)] assms(2) by (simp_all add: pending_def)

lemma flush_pending:
  assumes "wb_writeError (device_write wr (wb_data wb) wb) = 0"
  shows "wb_writeError wb = 0" "pending ((device_write wr (wb_data wb) wb)\<lparr>wb_data := []\<rparr>) = pending wb"
  using device_write_clean [OF assms] by (simp_all add: pending_def)

lemma writeFileBuffer_clean:
  assumes clean: "wb_writeError (writeFileBuffer wr c wb) = 0"
  shows "wb_writeError wb = 0 \<and> pending (writeFileBuffer wr c wb) = pending wb @ c"
proof (cases "c = []")
  case True
  with clean show ?thesis by (simp add: writeFileBuffer_def)
next
  case False
  define w1 where "w1 = wb\<lparr>wb_totalQueued := wb_totalQueued wb + length c\<rparr>"
  define w2 where "w2 = (if wb_data w1 \<noteq> [] \<and> wb_size w1 < length (wb_data w1) + length c
      then (device_write wr (wb_data w1) w1)\<lparr>wb_data := []\<rparr> else w1)"
  have res: "writeFileBuffer wr c wb =
      (if wb_size w2 < length c then device_write wr c w2 else w2\<lparr>wb_data := wb_data w2 @ c\<rparr>)"
    using False by (simp add: writeFileBuffer_def Let_def w1_def w2_def)
  have big: "wb_size w2 < length c \<Longrightarrow> wb_data w2 = []"
    by (auto simp: w2_def)
  have step2: "wb_writeError w2 = 0 \<and> pending (writeFileBuffer wr c wb) = pending w2 @ c"
    using clean device_write_pending [of wr c w2] big
    by (simp add: res pending_def split: if_splits)
  have "wb_writeError w1 = 0 \<and> pending w2 = pending w1"
  proof (cases "wb_data w1 \<noteq> [] \<and> wb_size w1 < length (wb_data w1) + length c")
    case True
    then have w2: "w2 = (device_write wr (wb_data w1) w1)\<lparr>wb_data := []\<rparr>" by (simp add: w2_def)
    with step2 have "wb_writeError (device_write wr (wb_data w1) w1) = 0" by simp
    from flush_pending [OF this] show ?thesis by (simp only: w2 conj_absorb simp_thms)
  next
    case False
    then have "w2 = w1" unfolding w2_def by (rule if_not_P)
    with step2 show ?thesis by simp
  qed
  with step2 show ?thesis by (simp add: w1_def pending_def)
qed

lemma write_chunks_clean:
  "wb_writeError (write_chunks wr cs wb) = 0 \<Longrightarrow>
    wb_writeError wb = 0 \<and> pending (write_chunks wr cs wb) = pending wb @ concat cs"
  by (induction cs arbitrary: wb) (auto simp: write_chunks_def dest!: writeFileBuffer_clean)

lemma close_complete:
  assumes "closeFileBuffer wr cl (write_chunks wr chunks (openFileBuffer_write sz)) = (device, None)"
  shows "device = concat chunks"
proof -
  let ?w = "write_chunks wr chunks (openFileBuffer_write sz)"
  have "wb_writeError (if wb_data ?w \<noteq> [] then device_write wr (wb_data ?w) ?w else ?w) = 0"
    using assms by (auto simp: closeFileBuffer_def Let_def split: if_splits)
  then have e: "wb_writeError ?w = 0" and d: "device = pending ?w"
    using assms device_write_clean [of wr "wb_data ?w" ?w]
    by (auto simp: closeFileBuffer_def pending_def Let_def split: if_splits)
  from write_chunks_clean [OF e] d show ?thesis
    by (simp add: pending_def openFileBuffer_write_def)
qed

text \<open>
  C35: if \<open>closeFileBuffer\<close> reports success after any sequence of \<open>writeFileBuffer\<close> calls, the device
  holds exactly the concatenation of what was written, whatever the buffer size: a short or
  failed write anywhere in between cannot be followed by a success report.
\<close>

theorem closeFileBuffer_success_complete:
  assumes "closeFileBuffer wr cl (write_chunks wr chunks (openFileBuffer_write sz)) = (device, None)"
  shows "device = concat chunks"
  using assms by (rule close_complete)

theorem closeFileBuffer_success_complete_witness:
  "closeFileBuffer (\<lambda>_ n. (int n, 0)) (0, 0)
     (write_chunks (\<lambda>_ n. (int n, 0)) [''theme=A'' @ [LF], ''vmode=3'' @ [LF]] (openFileBuffer_write 12))
   = (''theme=A'' @ [LF] @ ''vmode=3'' @ [LF], None)"
proof -
  let ?c = "closeFileBuffer (\<lambda>_ n. (int n, 0)) (0, 0)
     (write_chunks (\<lambda>_ n. (int n, 0)) [''theme=A'' @ [LF], ''vmode=3'' @ [LF]] (openFileBuffer_write 12))"
  have "snd ?c = None"
    by (simp add: closeFileBuffer_def write_chunks_def writeFileBuffer_def device_write_def openFileBuffer_write_def Let_def)
  then have "?c = (fst ?c, None)" by (metis prod.collapse)
  then have "fst ?c = concat [''theme=A'' @ [LF], ''vmode=3'' @ [LF]]"
    by (rule closeFileBuffer_success_complete)
  with \<open>?c = (fst ?c, None)\<close> show ?thesis by simp
qed

end
