(* ===== verification/ConfigFormat.thy ===== *)
theory ConfigFormat
  imports ConfigStore FileBuffer
begin

text \<open>
  The two syntaxes of the settings files in \<open>src/config.c\<close>: the program's own \<open>key=value\<close> lines
  with \<open>name:\<close> section prefixes, and the libconfig syntax another loader writes. The reader settles
  the syntax on the first line that carries evidence and stores it in the set; the writer emits the
  syntax the set came in. A pointer into a line is the rest of the line, an end pointer cuts it.
\<close>

section \<open>Lines\<close>

definition isWS :: "char \<Rightarrow> bool" where
  "isWS c \<longleftrightarrow> c = CHR '' '' \<or> c = CHR 0x09"

datatype cfg_line = CFG_LINE_BLANK | CFG_LINE_COMMENT | CFG_LINE_LEGACY | CFG_LINE_LIBCONFIG

definition cfgIsLibconfigIdent :: "cstring \<Rightarrow> bool" where
  "cfgIsLibconfigIdent s \<longleftrightarrow>
     (case s of
        [] \<Rightarrow> False
      | c # r \<Rightarrow> (isalpha c \<or> c = CHR ''*'')
               \<and> list_all (\<lambda>x. isalnum x \<or> x = CHR ''_'' \<or> x = CHR ''-'' \<or> x = CHR ''*'') r)"

definition slash_comment :: "cstring \<Rightarrow> bool" where
  "slash_comment p \<longleftrightarrow>
     (case p of a # b # _ \<Rightarrow> a = CHR ''/'' \<and> (b = CHR ''/'' \<or> b = CHR ''*'') | _ \<Rightarrow> False)"

definition cfgClassifyLine :: "cstring \<Rightarrow> cfg_line" where
  "cfgClassifyLine line =
     (let p = dropWhile isWS line in
      if p = [] then CFG_LINE_BLANK
      else if hd p = CHR ''#'' then CFG_LINE_COMMENT
      else if slash_comment p then CFG_LINE_COMMENT
      else
        let body = rstrip isWS p in
        case strchr p (CHR ''='') of
          None \<Rightarrow> CFG_LINE_LEGACY
        | Some eq \<Rightarrow>
            if eq \<ge> length body then CFG_LINE_LEGACY
            else if eq > 0 \<and> isWS (p ! (eq - 1)) \<and> last body = CHR '';''
                    \<and> cfgIsLibconfigIdent (rstrip isWS (take eq p))
            then CFG_LINE_LIBCONFIG else CFG_LINE_LEGACY)"

definition splitAssignment :: "cstring \<Rightarrow> nat \<Rightarrow> nat \<Rightarrow> (cstring \<times> cstring) option" where
  "splitAssignment line keymax valmax =
     (let p = dropWhile isWS line in
      case strchr p (CHR ''='') of
        None \<Rightarrow> None
      | Some eq \<Rightarrow> Some (take (min (keymax - 1) eq) p,
                       take (min (valmax - 1) (length p - Suc eq)) (drop (Suc eq) p)))"

text \<open>The new prefix, or \<open>None\<close> when the line has none and the old one stays.\<close>

definition parsePrefix :: "cstring \<Rightarrow> nat \<Rightarrow> cstring option" where
  "parsePrefix line prefixSize =
     (case strchr line (CHR '':'') of
        None \<Rightarrow> None
      | Some n \<Rightarrow>
          if n = 0 then None
          else if prefixSize = 0 then None
          else Some (take (if n \<ge> prefixSize then prefixSize - 1 else n) line))"

section \<open>Key names of the other loader\<close>

definition cfgWoplPerGameKeys :: "(cstring \<times> cstring) list" where
  "cfgWoplPerGameKeys =
    [(''compat'', ''$Compatibility''),
     (''dma'', ''$DMA''),
     (''core_loader'', ''$CoreLoader''),
     (''dnas'', ''$DNAS''),
     (''alt_startup'', ''$AltStartup''),
     (''vmc1'', ''$VMC_0''),
     (''vmc2'', ''$VMC_1''),
     (''gsm_source'', ''$GSMSource''),
     (''gsm_enable'', ''$EnableGSM''),
     (''gsm_vmode'', ''$GSMVMode''),
     (''gsm_x_offset'', ''$GSMXOffset''),
     (''gsm_y_offset'', ''$GSMYOffset''),
     (''gsm_field_fix'', ''$GSMFIELDFix''),
     (''cheat_source'', ''$CheatsSource''),
     (''cheat_enable'', ''$EnableCheat''),
     (''cheat_mode'', ''$CheatMode''),
     (''cheat_enable_image'', ''$EnableImage''),
     (''pademu_source'', ''$PADEMUSource''),
     (''pademu_enable'', ''$EnablePadEmu''),
     (''pademu_settings'', ''$PadEmuSettings''),
     (''padmacro_source'', ''$PadMacroSource''),
     (''padmacro_settings'', ''$PadMacroSettings''),
     (''osd_source'', ''$CustomLanguageSource''),
     (''osd_enable'', ''$OSDSettingsEnable''),
     (''osd_lang_id'', ''$CustomLanguageValue''),
     (''osd_tv_aspect'', ''$OSDAspectRatio''),
     (''osd_vmode'', ''$OSDVideoMode'')]"

definition cfgWoplToOurs :: "cstring \<Rightarrow> cstring option" where
  "cfgWoplToOurs key = map_option snd (find (\<lambda>e. key = fst e) cfgWoplPerGameKeys)"

definition cfgOursToWopl :: "cstring \<Rightarrow> cstring option" where
  "cfgOursToWopl key = map_option fst (find (\<lambda>e. key = snd e) cfgWoplPerGameKeys)"

section \<open>Reading a libconfig line\<close>

abbreviation "BSL \<equiv> CHR 0x5C"
abbreviation "DQ \<equiv> CHR 0x22"

text \<open>The copy loop of a quoted value: \<open>n\<close> characters still fit.\<close>

fun unescape :: "nat \<Rightarrow> cstring \<Rightarrow> cstring" where
  "unescape 0 s = []"
| "unescape (Suc n) [] = []"
| "unescape (Suc n) (c # s) =
     (if c = BSL \<and> s \<noteq> [] \<and> (hd s = BSL \<or> hd s = DQ) then hd s # unescape n (tl s)
      else c # unescape n s)"

definition bool_text :: "cstring \<Rightarrow> cstring" where
  "bool_text v = (if v = ''true'' then ''1'' else if v = ''false'' then ''0'' else v)"

text \<open>The text after \<open>=\<close>, its terminator already dropped: the value stored, \<open>None\<close> when it is empty.\<close>

definition libconfig_value :: "cstring \<Rightarrow> cstring option" where
  "libconfig_value t =
     (let v = dropWhile isWS t in
      case v of
        [] \<Rightarrow> None
      | c # r \<Rightarrow>
          if c = DQ then
            let q = (if r \<noteq> [] \<and> last r = DQ then butlast r else r)
            in if q = [] then None else Some (bool_text (unescape (CONFIG_KEY_VALUE_LEN - 1) q))
          else Some (bool_text (take (CONFIG_KEY_VALUE_LEN - 1) v)))"

definition cfgReadLibconfigLine ::
  "bool \<Rightarrow> cstring \<Rightarrow> cstring \<Rightarrow> config_set \<Rightarrow> cstring \<times> config_set" where
  "cfgReadLibconfigLine mem line grp cs =
     (let p = dropWhile isWS line in
      if p = [] \<or> hd p = CHR ''#'' \<or> slash_comment p then (grp, cs)
      else if hd p = CHR ''}'' then ([], cs)
      else if hd p = CHR ''{'' then (grp, cs)
      else
        let e1 = rstrip isWS p;
            e2 = (if e1 \<noteq> [] \<and> last e1 = CHR '';'' then butlast e1 else e1);
            body = rstrip isWS e2;
            eq = strchr p (CHR ''='');
            colon = strchr p (CHR '':'')
        in if eq = None \<or> (colon \<noteq> None \<and> the colon < the eq) then
             (case colon of
                None \<Rightarrow> (grp, cs)
              | Some c \<Rightarrow>
                  let name = rstrip isWS (take c p)
                  in (if name \<noteq> [] \<and> length name < CONFIG_KEY_NAME_LEN then name else grp, cs))
           else
             let key = rstrip isWS (take (the eq) p) in
             if key = [] \<or> length key \<ge> CONFIG_KEY_NAME_LEN then (grp, cs)
             else (case libconfig_value (drop (Suc (the eq)) body) of
                     None \<Rightarrow> (grp, cs)
                   | Some val \<Rightarrow>
                       let composed = bounded (2 * CONFIG_KEY_NAME_LEN)
                             (if grp \<noteq> [] then grp @ ''_'' @ key else key)
                       in (grp, fst (set_str mem
                            (case cfgWoplToOurs composed of Some k \<Rightarrow> k | None \<Rightarrow> composed) val cs))))"

section \<open>Writing\<close>

definition cfgValueIsBareScalar :: "cstring \<Rightarrow> bool" where
  "cfgValueIsBareScalar v \<longleftrightarrow>
     v = ''true'' \<or> v = ''false''
     \<or> (let p = (if v \<noteq> [] \<and> hd v = CHR ''-'' then tl v else v)
         in p \<noteq> [] \<and> list_all isdigit p)"

text \<open>The escape loop: \<open>i\<close> characters of the 512-byte buffer are used.\<close>

fun escape :: "nat \<Rightarrow> cstring \<Rightarrow> cstring" where
  "escape i [] = []"
| "escape i (c # s) =
     (if i + 2 < CONFIG_KEY_VALUE_LEN * 2 then
        if c = BSL \<or> c = DQ then BSL # c # escape (i + 2) s else c # escape (i + 1) s
      else [])"

definition cfgWriteLibconfigLine :: "cstring \<Rightarrow> cstring \<Rightarrow> cstring \<Rightarrow> cstring" where
  "cfgWriteLibconfigLine indent key val =
     bounded (CONFIG_KEY_NAME_LEN + CONFIG_KEY_VALUE_LEN * 2 + 16)
       (if cfgValueIsBareScalar val then indent @ key @ '' = '' @ val @ '';'' @ [LF]
        else indent @ key @ '' = '' @ [DQ] @ escape 0 val @ [DQ] @ '';'' @ [LF])"

definition cfgLibconfigGroups :: "cstring list" where
  "cfgLibconfigGroups = [''gsm'', ''cheat'', ''pademu'', ''padmacro'', ''osd'']"

definition cfgMatchGroup :: "cstring \<Rightarrow> (cstring \<times> nat) option" where
  "cfgMatchGroup key =
     map_option (\<lambda>g. (g, length g + 1))
       (find (\<lambda>g. strneq (length g) key g \<and> length g + 1 < length key \<and> key ! length g = CHR ''_'')
          cfgLibconfigGroups)"

definition emitted :: "config_value \<Rightarrow> bool" where
  "emitted it \<longleftrightarrow> fst it \<noteq> [] \<and> hd (fst it) \<noteq> CHR ''#''"

text \<open>The group of the other loader's schema an entry of the set belongs to.\<close>

definition wopl_group :: "cstring \<Rightarrow> cstring option" where
  "wopl_group key = (case cfgOursToWopl key of None \<Rightarrow> None | Some w \<Rightarrow> map_option fst (cfgMatchGroup w))"

definition root_chunk :: "config_value \<Rightarrow> cstring" where
  "root_chunk it =
     cfgWriteLibconfigLine [] (case cfgOursToWopl (fst it) of Some w \<Rightarrow> w | None \<Rightarrow> fst it) (snd it)"

definition group_chunk :: "config_value \<Rightarrow> cstring" where
  "group_chunk it =
     (case cfgOursToWopl (fst it) of
        None \<Rightarrow> []
      | Some w \<Rightarrow>
          (case cfgMatchGroup w of
             None \<Rightarrow> []
           | Some (_, off) \<Rightarrow> cfgWriteLibconfigLine ''  '' (drop off w) (snd it)))"

definition group_block :: "config_value list \<Rightarrow> cstring \<Rightarrow> cstring list" where
  "group_block its g =
     (let mine = filter (\<lambda>it. emitted it \<and> wopl_group (fst it) = Some g) its
      in if mine = [] then []
         else bounded 128 (g @ '' :'' @ [LF] @ ''{'' @ [LF])
                # map group_chunk mine @ [bounded 128 (''};'' @ [LF])])"

text \<open>The texts handed to \<open>writeFileBuffer\<close>, in order.\<close>

definition cfgWriteLibconfig :: "config_set \<Rightarrow> cstring list" where
  "cfgWriteLibconfig cs =
     map root_chunk (filter (\<lambda>it. emitted it \<and> wopl_group (fst it) = None) (entries cs))
     @ concat (map (group_block (entries cs)) cfgLibconfigGroups)"

definition legacy_line :: "config_value \<Rightarrow> cstring" where
  "legacy_line it = bounded 512 (fst it @ ''='' @ snd it @ [LF])"

definition cfgWriteLegacy :: "config_set \<Rightarrow> cstring list" where
  "cfgWriteLegacy cs = map legacy_line (filter emitted (entries cs))"

definition config_chunks :: "config_set \<Rightarrow> cstring list" where
  "config_chunks cs =
     (case format cs of CFG_FMT_LIBCONFIG \<Rightarrow> cfgWriteLibconfig cs | CFG_FMT_LEGACY \<Rightarrow> cfgWriteLegacy cs)"

section \<open>Reading a file\<close>

record reader_state =
  rs_fmt :: cfg_format
  rs_latched :: bool
  rs_prefix :: cstring
  rs_group :: cstring
  rs_set :: config_set

definition reader_init :: "config_set \<Rightarrow> reader_state" where
  "reader_init cs = \<lparr>rs_fmt = CFG_FMT_LEGACY, rs_latched = False, rs_prefix = [], rs_group = [], rs_set = cs\<rparr>"

definition read_legacy_line :: "bool \<Rightarrow> cstring \<Rightarrow> reader_state \<Rightarrow> reader_state" where
  "read_legacy_line mem line st =
     (case splitAssignment line CONFIG_KEY_NAME_LEN CONFIG_KEY_VALUE_LEN of
        Some (key, val) \<Rightarrow>
          let prefix = (if line \<noteq> [] \<and> isWS (hd line) then rs_prefix st else []);
              k = (if prefix \<noteq> [] then bounded (2 * CONFIG_KEY_NAME_LEN) (prefix @ ''_'' @ key) else key)
          in st\<lparr>rs_prefix := prefix, rs_set := fst (set_str mem k val (rs_set st))\<rparr>
      | None \<Rightarrow>
          (case parsePrefix line CONFIG_KEY_NAME_LEN of
             Some pre \<Rightarrow> st\<lparr>rs_prefix := pre\<rparr>
           | None \<Rightarrow> st))"

definition read_cfg_line :: "bool \<Rightarrow> cstring \<Rightarrow> reader_state \<Rightarrow> reader_state" where
  "read_cfg_line mem line st =
     (let c = cfgClassifyLine line in
      if c = CFG_LINE_BLANK \<or> c = CFG_LINE_COMMENT then st
      else
        let fmt = (if rs_latched st then rs_fmt st
                   else if c = CFG_LINE_LIBCONFIG then CFG_FMT_LIBCONFIG else CFG_FMT_LEGACY);
            st1 = (if rs_latched st then st
                   else st\<lparr>rs_fmt := fmt, rs_latched := True, rs_set := (rs_set st)\<lparr>format := fmt\<rparr>\<rparr>)
        in (case fmt of
              CFG_FMT_LIBCONFIG \<Rightarrow>
                let r = cfgReadLibconfigLine mem line (rs_group st1) (rs_set st1)
                in st1\<lparr>rs_group := fst r, rs_set := snd r\<rparr>
            | CFG_FMT_LEGACY \<Rightarrow> read_legacy_line mem line st1))"

text \<open>The lines of a file in order; \<open>mem n\<close> says whether the allocation of line \<open>n\<close> succeeds.\<close>

fun read_cfg_lines :: "(nat \<Rightarrow> bool) \<Rightarrow> nat \<Rightarrow> cstring list \<Rightarrow> reader_state \<Rightarrow> reader_state" where
  "read_cfg_lines mem lineno [] st = st"
| "read_cfg_lines mem lineno (l # ls) st =
     read_cfg_lines mem (Suc lineno) ls (read_cfg_line (mem (Suc lineno)) l st)"

definition configReadFileBuffer :: "(nat \<Rightarrow> bool) \<Rightarrow> cstring list \<Rightarrow> config_set \<Rightarrow> config_set \<times> bool" where
  "configReadFileBuffer mem lines cs =
     ((rs_set (read_cfg_lines mem 0 lines (reader_init cs)))\<lparr>modified := False\<rparr>, True)"

text \<open>
  \<open>configReadBuffer\<close> on the bytes of a file in memory; \<open>mem_fb\<close> is the allocation of the file buffer.
  The line loop has the fuel \<open>readFileBuffer_lines\<close> shows to be enough; \<open>Inl\<close> is a read through a
  null pointer.
\<close>

definition configReadBuffer ::
  "bool \<Rightarrow> (nat \<Rightarrow> bool) \<Rightarrow> config_set option \<Rightarrow> cstring \<Rightarrow> (unit + config_set option \<times> bool) option" where
  "configReadBuffer mem_fb mem configSet buffer =
     (case configSet of
        None \<Rightarrow> Some (Inr (None, False))
      | Some cs \<Rightarrow>
          if \<not> mem_fb then Some (Inr (Some (cs\<lparr>modified := False\<rparr>), False))
          else map_option (map_sum id (\<lambda>lines. map_prod Some id (configReadFileBuffer mem lines cs)))
                 (read_all (length buffer + 2) (openFileBufferBuffer buffer) 0))"

section \<open>From text to lines\<close>

lemma read_cfg_lines_fold:
  "read_cfg_lines (\<lambda>_. True) n ls st = fold (read_cfg_line True) ls st"
  by (induction ls arbitrary: n st) simp_all

definition plain_line :: "cstring \<Rightarrow> bool" where
  "plain_line l \<longleftrightarrow> LF \<notin> set l \<and> NUL \<notin> set l \<and> l \<noteq> [] \<and> last l \<noteq> CR \<and> \<not> comment_line l"

definition unlines :: "cstring list \<Rightarrow> cstring" where
  "unlines ls = concat (map (\<lambda>l. l @ [LF]) ls)"

lemma unlines_simps [simp]:
  "unlines [] = []" "unlines (l # ls) = l @ LF # unlines ls" "unlines (ls @ ms) = unlines ls @ unlines ms"
  by (simp_all add: unlines_def)

lemma strip_cr_plain: "plain_line l \<Longrightarrow> strip_cr l = l"
  by (simp add: plain_line_def strip_cr_def)

lemma text_lines_unlines: "list_all plain_line ls \<Longrightarrow> text_lines (unlines ls) = ls"
  by (induction ls) (simp_all add: text_lines_LF plain_line_def)

lemma kept_lines_unlines: "list_all plain_line ls \<Longrightarrow> kept_lines (unlines ls) = ls"
proof -
  assume ls: "list_all plain_line ls"
  then have "map strip_cr ls = ls" by (auto simp: list_all_iff strip_cr_plain intro: map_idI)
  with ls show ?thesis
    by (auto simp: kept_lines_def text_lines_unlines list_all_iff plain_line_def)
qed

lemma unlines_closed: "list_all plain_line ls \<Longrightarrow> \<not> open_comment (unlines ls)"
  by (cases ls rule: rev_cases) (simp_all add: open_comment_def)

lemma NUL_unlines: "list_all plain_line ls \<Longrightarrow> NUL \<notin> set (unlines ls)"
  by (induction ls) (simp_all add: plain_line_def)

text \<open>Reading a text of plain lines back runs the line reader over those lines.\<close>

lemma configReadBuffer_unlines:
  assumes "list_all plain_line ls"
  shows "configReadBuffer True (\<lambda>_. True) (Some cs) (unlines ls) =
    Some (Inr (Some ((rs_set (fold (read_cfg_line True) ls (reader_init cs)))\<lparr>modified := False\<rparr>), True))"
  using assms lines_of_memory [of "unlines ls"]
  by (simp add: configReadBuffer_def configReadFileBuffer_def read_cfg_lines_fold
      kept_lines_unlines unlines_closed NUL_unlines)

lemma set_str_fresh:
  assumes "item_ok (k, v)" "set_ok cs" "k \<notin> fst ` set (entries cs)"
  shows "fst (set_str True k v cs) =
    cs\<lparr>entries := entries cs @ [(k, v)], modified := modified cs \<or> \<not> runtime_key k\<rparr>"
proof -
  have "item_index k (entries cs) = None"
    using assms by (simp add: item_index_None set_ok_def map_of_eq_None_iff)
  with assms(1) show ?thesis
    by (simp add: set_str_def config_put_def getConfigItemForName_def addConfigValue_def
        allocConfigItem_def item_ok_def)
qed

section \<open>The program's own syntax\<close>

text \<open>What an entry needs for its \<open>key=value\<close> line to be read back as it is.\<close>

definition legacy_safe :: "config_value \<Rightarrow> bool" where
  "legacy_safe it \<longleftrightarrow>
     (let k = fst it; v = snd it in
      item_ok it \<and> \<not> isWS (hd k) \<and> \<not> isWS (last k) \<and> hd k \<noteq> CHR ''#'' \<and> \<not> slash_comment k
      \<and> LF \<notin> set k \<and> NUL \<notin> set k \<and> LF \<notin> set v \<and> NUL \<notin> set v \<and> (v = [] \<or> last v \<noteq> CR))"

definition assign :: "config_value \<Rightarrow> cstring" where
  "assign it = fst it @ ''='' @ snd it"

lemma legacy_line_complete: "item_ok it \<Longrightarrow> legacy_line it = assign it @ [LF]"
  by (simp add: legacy_line_def item_ok_def assign_def)

lemma slash_comment_append: "slash_comment (k @ CHR ''='' # v) \<longleftrightarrow> slash_comment k"
  by (auto simp: slash_comment_def split: list.splits)

lemma legacy_safe_nonempty: "legacy_safe it \<Longrightarrow> fst it \<noteq> []"
  by (auto simp: legacy_safe_def item_ok_def configKeyValidate_def Let_def)

lemma legacy_safe_plain: "legacy_safe it \<Longrightarrow> plain_line (assign it)"
  using legacy_safe_nonempty [of it]
  by (auto simp: legacy_safe_def plain_line_def comment_line_def assign_def Let_def)

lemma dropWhile_assign: "legacy_safe it \<Longrightarrow> dropWhile isWS (assign it) = assign it"
  using legacy_safe_nonempty [of it]
  by (intro dropWhile_id) (auto simp: legacy_safe_def assign_def Let_def)

lemma strchr_assign: "item_ok it \<Longrightarrow> strchr (assign it) (CHR ''='') = Some (length (fst it))"
  by (simp add: assign_def item_ok_def configKeyValidate_def strchr_append)

lemma classify_assign:
  assumes "legacy_safe it"
  shows "cfgClassifyLine (assign it) = CFG_LINE_LEGACY"
proof -
  have ne: "fst it \<noteq> []" using assms by (rule legacy_safe_nonempty)
  have s: "strchr (assign it) (CHR ''='') = Some (length (fst it))"
    using assms by (simp add: strchr_assign legacy_safe_def Let_def)
  have "assign it ! (length (fst it) - 1) = last (fst it)"
    using ne by (simp add: assign_def nth_append last_conv_nth)
  then have "\<not> isWS (assign it ! (length (fst it) - 1))"
    using assms by (simp add: legacy_safe_def Let_def)
  moreover have "assign it \<noteq> []" "hd (assign it) \<noteq> CHR ''#''" "\<not> slash_comment (assign it)"
    using ne assms by (simp_all add: assign_def legacy_safe_def Let_def slash_comment_append)
  ultimately show ?thesis
    using s by (simp add: cfgClassifyLine_def dropWhile_assign [OF assms] Let_def)
qed

lemma split_assign:
  assumes "legacy_safe it"
  shows "splitAssignment (assign it) CONFIG_KEY_NAME_LEN CONFIG_KEY_VALUE_LEN = Some it"
proof -
  have i: "item_ok it" using assms by (simp add: legacy_safe_def Let_def)
  have d: "drop (Suc (length (fst it))) (assign it) = snd it" by (simp add: assign_def)
  have l: "length (assign it) - Suc (length (fst it)) = length (snd it)" by (simp add: assign_def)
  have "take (length (fst it)) (assign it) = fst it" by (simp add: assign_def)
  with i show ?thesis
    unfolding splitAssignment_def dropWhile_assign [OF assms] Let_def strchr_assign [OF i]
    by (simp add: d l item_ok_def min_absorb2)
qed

lemma read_legacy_assign:
  assumes "legacy_safe it"
  shows "read_legacy_line True (assign it) st =
    st\<lparr>rs_prefix := [], rs_set := fst (set_str True (fst it) (snd it) (rs_set st))\<rparr>"
proof -
  have nows: "(assign it \<noteq> [] \<and> isWS (hd (assign it))) = False"
    using assms legacy_safe_nonempty [OF assms] by (auto simp: legacy_safe_def assign_def Let_def)
  show ?thesis
    unfolding read_legacy_line_def split_assign [OF assms] nows by (simp add: case_prod_beta)
qed

lemma read_assign:
  assumes "legacy_safe it" "rs_latched st \<longrightarrow> rs_fmt st = CFG_FMT_LEGACY"
  shows "read_cfg_line True (assign it) st =
    st\<lparr>rs_fmt := CFG_FMT_LEGACY, rs_latched := True, rs_prefix := [],
       rs_set := fst (set_str True (fst it) (snd it)
         (if rs_latched st then rs_set st else (rs_set st)\<lparr>format := CFG_FMT_LEGACY\<rparr>))\<rparr>"
  using assms(2)
  by (cases st) (simp add: read_cfg_line_def classify_assign [OF assms(1)] read_legacy_assign [OF assms(1)] Let_def)

lemma read_assigns:
  assumes "list_all legacy_safe its" "distinct (map fst its)" "set_ok (rs_set st)"
    "fst ` set its \<inter> fst ` set (entries (rs_set st)) = {}"
    "rs_fmt st = CFG_FMT_LEGACY" "format (rs_set st) = CFG_FMT_LEGACY"
  shows "(rs_set (fold (read_cfg_line True) (map assign its) st))\<lparr>modified := False\<rparr> =
    (rs_set st)\<lparr>entries := entries (rs_set st) @ its, modified := False\<rparr>"
  using assms
proof (induction its arbitrary: st)
  case Nil
  then show ?case by simp
next
  case (Cons it its)
  obtain k v where it: "it = (k, v)" by (cases it)
  have safe: "legacy_safe it" using Cons.prems by simp
  let ?st = "read_cfg_line True (assign it) st"
  have same: "(if rs_latched st then rs_set st else (rs_set st)\<lparr>format := CFG_FMT_LEGACY\<rparr>) = rs_set st"
    using Cons.prems(6) by simp
  have iok: "item_ok (k, v)" using safe it by (simp add: legacy_safe_def Let_def)
  have set: "rs_set ?st = (rs_set st)\<lparr>entries := entries (rs_set st) @ [it],
      modified := modified (rs_set st) \<or> \<not> runtime_key k\<rparr>"
  proof -
    have "rs_set ?st = fst (set_str True (fst it) (snd it) (rs_set st))"
      using Cons.prems(5) by (simp add: read_assign [OF safe] same)
    with Cons.prems iok it show ?thesis by (simp add: set_str_fresh)
  qed
  have "(rs_set (fold (read_cfg_line True) (map assign its) ?st))\<lparr>modified := False\<rparr> =
      (rs_set ?st)\<lparr>entries := entries (rs_set ?st) @ its, modified := False\<rparr>"
  proof (rule Cons.IH)
    show "set_ok (rs_set ?st)" using Cons.prems(3) safe unfolding set by (simp add: set_ok_def legacy_safe_def Let_def)
    show "rs_fmt ?st = CFG_FMT_LEGACY" using Cons.prems(5) by (simp add: read_assign [OF safe])
    show "format (rs_set ?st) = CFG_FMT_LEGACY" using Cons.prems(6) by (simp add: set)
    show "fst ` set its \<inter> fst ` set (entries (rs_set ?st)) = {}"
      using Cons.prems(2,4) by (simp only: set) auto
  qed (use Cons.prems in simp_all)
  then show ?case by (simp add: set)
qed

lemma legacy_reread:
  assumes "set_unique cs" "format cs = CFG_FMT_LEGACY" "list_all legacy_safe (filter emitted (entries cs))"
    and "entries cs0 = []" "format cs0 = CFG_FMT_LEGACY"
  shows "configReadBuffer True (\<lambda>_. True) (Some cs0) (concat (config_chunks cs)) =
    Some (Inr (Some (cs0\<lparr>entries := filter emitted (entries cs), modified := False\<rparr>), True))"
proof -
  let ?its = "filter emitted (entries cs)"
  have safe: "list_all legacy_safe ?its" by (rule assms(3))
  have m: "map legacy_line ?its = map (\<lambda>it. assign it @ [LF]) ?its"
    using safe by (intro map_cong) (auto simp: list_all_iff legacy_safe_def Let_def legacy_line_complete)
  have chunks: "concat (config_chunks cs) = unlines (map assign ?its)"
    by (simp only: config_chunks_def assms(2) cfg_format.case cfgWriteLegacy_def unlines_def map_map comp_def m)
  have plain: "list_all plain_line (map assign ?its)"
    using safe by (auto simp: list_all_iff legacy_safe_plain)
  have "distinct (map fst ?its)"
    using assms(1) by (auto simp: set_unique_def distinct_map inj_on_def)
  with assms safe
  have "(rs_set (fold (read_cfg_line True) (map assign ?its) (reader_init cs0)))\<lparr>modified := False\<rparr>
      = cs0\<lparr>entries := ?its, modified := False\<rparr>"
    by (subst read_assigns) (auto simp: reader_init_def set_ok_def)
  then show ?thesis unfolding chunks by (simp add: configReadBuffer_unlines [OF plain])
qed

text \<open>
  C20: a set in the program's own syntax that is written by \<open>configWrite\<close>'s line loop and read back by
  \<open>configReadBuffer\<close> into an empty set gives the same entries in the same order, runtime keys left
  out, with a clean \<open>modified\<close> flag. No line is cut by the 512-byte line buffer, and no line is taken
  for the other syntax.
\<close>

theorem legacy_write_read:
  assumes "set_unique cs" "format cs = CFG_FMT_LEGACY" "list_all legacy_safe (filter emitted (entries cs))"
    and "entries cs0 = []" "format cs0 = CFG_FMT_LEGACY"
  shows "configReadBuffer True (\<lambda>_. True) (Some cs0) (concat (config_chunks cs)) =
    Some (Inr (Some (cs0\<lparr>entries := filter emitted (entries cs), modified := False\<rparr>), True))"
  using assms by (rule legacy_reread)

theorem legacy_write_read_witness:
  "configReadBuffer True (\<lambda>_. True) (Some (sample_set\<lparr>entries := []\<rparr>)) (concat (config_chunks sample_set)) =
    Some (Inr (Some (sample_set\<lparr>entries := [(''theme'', ''Korium''), (''vmode'', ''3'')], modified := False\<rparr>), True))"
proof -
  have f: "filter emitted (entries sample_set) = [(''theme'', ''Korium''), (''vmode'', ''3'')]"
    by (simp add: sample_set_def emitted_def)
  have "configReadBuffer True (\<lambda>_. True) (Some (sample_set\<lparr>entries := []\<rparr>)) (concat (config_chunks sample_set)) =
    Some (Inr (Some (sample_set\<lparr>entries := []\<rparr>\<lparr>entries := filter emitted (entries sample_set), modified := False\<rparr>), True))"
    by (rule legacy_write_read)
      (simp_all add: f, simp_all add: sample_set_def set_unique_def set_ok_def item_ok_def configKeyValidate_def
        legacy_safe_def isWS_def slash_comment_def Let_def)
  then show ?thesis by (simp add: f)
qed

end
