(* ===== verification/ConfigLibconfig.thy ===== *)
theory ConfigLibconfig
  imports ConfigFormat
begin

text \<open>
  The libconfig side of \<open>src/config.c\<close>: escaping, complete lines, the key table of the other loader
  and the round trip of a whole set through \<open>cfgWriteLibconfig\<close> and the line reader, with the
  condition on the first line under which it holds.
\<close>

section \<open>Escaping and complete lines\<close>

definition escape_all :: "cstring \<Rightarrow> cstring" where
  "escape_all s = concat (map (\<lambda>c. if c = BSL \<or> c = DQ then [BSL, c] else [c]) s)"

lemma escape_all_simps [simp]:
  "escape_all [] = []"
  "escape_all (c # s) = (if c = BSL \<or> c = DQ then BSL # c # escape_all s else c # escape_all s)"
  by (simp_all add: escape_all_def)

lemma escape_complete: "i + 2 * length s < 512 \<Longrightarrow> escape i s = escape_all s"
  by (induction i s rule: escape.induct) auto

lemma escape_all_length: "length (escape_all s) \<le> 2 * length s"
  by (induction s) auto

lemma unescape_escape: "length s \<le> n \<Longrightarrow> unescape n (escape_all s) = s"
proof (induction s arbitrary: n)
  case Nil
  then show ?case by (cases n) simp_all
next
  case (Cons c s)
  then obtain m where "n = Suc m" by (cases n) auto
  with Cons show ?case by auto
qed

lemma escape_all_Nil_iff [simp]: "escape_all s = [] \<longleftrightarrow> s = []"
  by (cases s) auto

lemma set_escape_all: "set (escape_all s) \<subseteq> insert BSL (set s)"
  by (induction s) auto

text \<open>The value as the writer prints it, and the whole statement.\<close>

definition scalar_text :: "cstring \<Rightarrow> cstring" where
  "scalar_text v = (if cfgValueIsBareScalar v then v else DQ # escape_all v @ [DQ])"

definition statement :: "cstring \<Rightarrow> cstring \<Rightarrow> cstring \<Rightarrow> cstring" where
  "statement indent key v = indent @ key @ '' = '' @ scalar_text v @ '';''"

lemma writeLine_statement:
  assumes "length indent \<le> 2" "length key < CONFIG_KEY_NAME_LEN" "length v < CONFIG_KEY_VALUE_LEN"
  shows "cfgWriteLibconfigLine indent key v = statement indent key v @ [LF]"
proof -
  have e: "escape 0 v = escape_all v" using assms(3) by (intro escape_complete) simp
  have l: "length (escape_all v) \<le> 510" using escape_all_length [of v] assms(3) by simp
  have "length (statement indent key v @ [LF]) < 576"
    using assms l by (simp add: statement_def scalar_text_def)
  moreover have "cfgWriteLibconfigLine indent key v = bounded 576 (statement indent key v @ [LF])"
    by (simp add: cfgWriteLibconfigLine_def statement_def scalar_text_def e)
  ultimately show ?thesis by simp
qed

lemma bare_chars:
  assumes "cfgValueIsBareScalar v"
  shows "v \<noteq> []" "\<not> isWS (hd v)" "hd v \<noteq> DQ" "\<not> isWS (last v)"
proof -
  have dg: "\<not> isWS c \<and> c \<noteq> DQ" if "isdigit c" for c
    using that by (auto simp: isdigit_def isWS_def ord_of_def Let_def)
  consider "v = ''true''" | "v = ''false''" | "v \<noteq> []" "hd v = CHR ''-''" "tl v \<noteq> []" "list_all isdigit (tl v)"
    | "v \<noteq> []" "list_all isdigit v"
    using assms by (auto simp: cfgValueIsBareScalar_def Let_def split: if_splits)
  then have "v \<noteq> [] \<and> \<not> isWS (hd v) \<and> hd v \<noteq> DQ \<and> \<not> isWS (last v)"
  proof cases
    case 3
    then have "last v \<in> set (tl v)" by (metis last_in_set last_tl)
    with 3 dg show ?thesis by (auto simp: list_all_iff isWS_def)
  next
    case 4
    then show ?thesis using dg by (auto simp: list_all_iff)
  qed (simp_all add: isWS_def)
  then show "v \<noteq> []" "\<not> isWS (hd v)" "hd v \<noteq> DQ" "\<not> isWS (last v)" by auto
qed

lemma scalar_last: "scalar_text v \<noteq> [] \<and> \<not> isWS (last (scalar_text v))"
  using bare_chars [of v] by (auto simp: scalar_text_def isWS_def)

lemma libconfig_value_scalar:
  assumes "v \<noteq> []" "length v < CONFIG_KEY_VALUE_LEN"
  shows "libconfig_value (CHR '' '' # scalar_text v) = Some (bool_text v)"
proof (cases "cfgValueIsBareScalar v")
  case True
  then obtain c r where v: "v = c # r" and c: "\<not> isWS c" "c \<noteq> DQ"
    using bare_chars [OF True] by (cases v) auto
  have s: "scalar_text v = c # r" using True v by (simp add: scalar_text_def)
  have sp: "isWS (CHR '' '')" by (simp add: isWS_def)
  have "take 255 (c # r) = v" using assms(2) v by simp
  then show ?thesis using c sp by (simp add: s libconfig_value_def)
next
  case False
  have "dropWhile isWS (CHR '' '' # scalar_text v) = DQ # escape_all v @ [DQ]"
    using False by (simp add: scalar_text_def isWS_def)
  moreover have "unescape 255 (escape_all v) = v" using assms(2) by (intro unescape_escape) simp
  ultimately show ?thesis using assms(1) by (simp add: libconfig_value_def)
qed

text \<open>
  For a stored key and value the libconfig writer prints the whole statement, never cut by its
  576-byte line or 512-byte escape buffer, and the value parser recovers the value from it; only the
  words \<open>true\<close> and \<open>false\<close> come back as \<open>1\<close> and \<open>0\<close>, and an empty value as absent.
\<close>

theorem cfgWriteLibconfigLine_value:
  assumes "item_ok (key, v)" "length indent \<le> 2"
  shows "\<exists>txt. cfgWriteLibconfigLine indent key v = indent @ key @ '' ='' @ txt @ '';'' @ [LF]
    \<and> libconfig_value txt = (if v = [] then None else Some (bool_text v))"
proof -
  have len: "length key < 48" "length v < 256" using assms(1) by (simp_all add: item_ok_def)
  have "libconfig_value (CHR '' '' # scalar_text []) = None"
    by (simp add: libconfig_value_def scalar_text_def cfgValueIsBareScalar_def isWS_def)
  with len assms(2) show ?thesis
    by (intro exI [of _ "CHR '' '' # scalar_text v"])
      (auto simp: writeLine_statement statement_def libconfig_value_scalar)
qed

theorem cfgWriteLibconfigLine_value_witness:
  "\<exists>txt. cfgWriteLibconfigLine [] ''title'' (''a'' @ [DQ] @ ''b'') = ''title'' @ '' ='' @ txt @ '';'' @ [LF]
    \<and> libconfig_value txt = Some (''a'' @ [DQ] @ ''b'')"
  using cfgWriteLibconfigLine_value [of "''title''" "''a'' @ [DQ] @ ''b''" "[]"]
  by (simp add: item_ok_def configKeyValidate_def bool_text_def)

section \<open>The key table\<close>

lemma find_inverse:
  assumes "distinct (map fst xs)" "distinct (map snd xs)"
  shows "map_option snd (find (\<lambda>e. a = fst e) xs) = Some b \<longleftrightarrow> map_option fst (find (\<lambda>e. b = snd e) xs) = Some a"
  using assms by (induction xs) (auto simp: find_Some_iff image_iff)

lemma table_distinct:
  "distinct (map fst cfgWoplPerGameKeys)" "distinct (map snd cfgWoplPerGameKeys)"
  by (code_simp, code_simp)

lemma wopl_inverse: "cfgWoplToOurs w = Some k \<longleftrightarrow> cfgOursToWopl k = Some w"
  unfolding cfgWoplToOurs_def cfgOursToWopl_def by (rule find_inverse [OF table_distinct])

text \<open>
  The two directions of the key table are inverse to each other, so a key translated on read is
  translated back on write and the other way round.
\<close>

theorem cfgWopl_table_inverse:
  "cfgWoplToOurs w = Some k \<longleftrightarrow> cfgOursToWopl k = Some w"
  by (rule wopl_inverse)

text \<open>Every row of the table: the written name, its group if it has one, and lengths.\<close>

definition row_ok :: "cstring \<Rightarrow> bool" where
  "row_ok w \<longleftrightarrow> length w < CONFIG_KEY_NAME_LEN \<and> cfgIsLibconfigIdent w
     \<and> (case cfgMatchGroup w of
          None \<Rightarrow> True
        | Some (g, off) \<Rightarrow> g @ ''_'' @ drop off w = w \<and> cfgIsLibconfigIdent (drop off w) \<and> g \<in> set cfgLibconfigGroups)"

definition lower_bits :: "char \<Rightarrow> bool" where
  "lower_bits c = (case c of Char b0 b1 b2 b3 b4 b5 b6 b7 \<Rightarrow>
     \<not> b7 \<and> b6 \<and> b5 \<and> (b0 \<or> b1 \<or> b2 \<or> b3 \<or> b4) \<and> \<not> (b4 \<and> b3 \<and> (b2 \<or> b1 \<and> b0)))"

definition simple_ident :: "cstring \<Rightarrow> bool" where
  "simple_ident s \<longleftrightarrow> s \<noteq> [] \<and> lower_bits (hd s)
     \<and> list_all (\<lambda>c. lower_bits c \<or> c = CHR ''_'' \<or> c = CHR ''1'' \<or> c = CHR ''2'') s"

lemma lower_bits_isalpha: "lower_bits c \<Longrightarrow> isalpha c"
  by (cases c) (auto simp: lower_bits_def isalpha_def islower_def ord_of_def of_bool_def Let_def)

lemma simple_ident_ident: "simple_ident s \<Longrightarrow> cfgIsLibconfigIdent s"
proof -
  assume s: "simple_ident s"
  have "isdigit (CHR ''1'')" "isdigit (CHR ''2'')" by (simp_all add: isdigit_def ord_of_def)
  with s lower_bits_isalpha show ?thesis
    by (cases s) (auto simp: simple_ident_def cfgIsLibconfigIdent_def list_all_iff isalnum_def)
qed

definition simple_row :: "cstring \<Rightarrow> bool" where
  "simple_row w \<longleftrightarrow> length w < CONFIG_KEY_NAME_LEN \<and> simple_ident w
     \<and> (case cfgMatchGroup w of
          None \<Rightarrow> True
        | Some (g, off) \<Rightarrow> g @ ''_'' @ drop off w = w \<and> simple_ident (drop off w) \<and> List.member cfgLibconfigGroups g)"

lemma table_rows: "list_all (\<lambda>e. row_ok (fst e)) cfgWoplPerGameKeys"
proof -
  have "list_all (\<lambda>e. simple_row (fst e)) cfgWoplPerGameKeys" by code_simp
  moreover have "simple_row w \<Longrightarrow> row_ok w" for w
    by (auto simp: simple_row_def row_ok_def simple_ident_ident split: option.splits)
  ultimately show ?thesis by (simp add: list_all_iff)
qed

lemma wopl_row: "cfgOursToWopl k = Some w \<Longrightarrow> row_ok w"
  using table_rows unfolding cfgOursToWopl_def list_all_length
  by (auto simp: find_Some_iff) (metis fst_conv)

section \<open>Reading one statement\<close>

text \<open>A key the line parser takes whole.\<close>

definition name_ok :: "cstring \<Rightarrow> bool" where
  "name_ok k \<longleftrightarrow> k \<noteq> [] \<and> length k < CONFIG_KEY_NAME_LEN \<and> CHR ''='' \<notin> set k \<and> CHR '':'' \<notin> set k
     \<and> LF \<notin> set k \<and> NUL \<notin> set k \<and> \<not> isWS (hd k) \<and> \<not> isWS (last k)
     \<and> hd k \<noteq> CHR ''#'' \<and> hd k \<noteq> CHR ''{'' \<and> hd k \<noteq> CHR ''}'' \<and> \<not> slash_comment k"

lemma slash_comment_append_space: "slash_comment (k @ CHR '' '' # v) \<longleftrightarrow> slash_comment k"
  by (auto simp: slash_comment_def split: list.splits)

lemma ident_chars: "cfgIsLibconfigIdent k \<Longrightarrow> c \<in> set k \<Longrightarrow>
   isalnum c \<or> c = CHR ''_'' \<or> c = CHR ''-'' \<or> c = CHR ''*''"
  by (auto simp: cfgIsLibconfigIdent_def isalnum_def list_all_iff split: list.splits)

lemma ident_name: "cfgIsLibconfigIdent k \<Longrightarrow> length k < CONFIG_KEY_NAME_LEN \<Longrightarrow> name_ok k"
proof -
  assume id: "cfgIsLibconfigIdent k" and len: "length k < CONFIG_KEY_NAME_LEN"
  let ?ok = "\<lambda>c. isalnum c \<or> c = CHR ''_'' \<or> c = CHR ''-'' \<or> c = CHR ''*''"
  have bad: "\<not> ?ok (CHR ''='')" "\<not> ?ok (CHR '':'')" "\<not> ?ok LF" "\<not> ?ok NUL" "\<not> ?ok (CHR '' '')"
    "\<not> ?ok (CHR 0x09)" "\<not> ?ok (CHR ''#'')" "\<not> ?ok (CHR ''{'')" "\<not> ?ok (CHR ''}'')" "\<not> ?ok (CHR ''/'')"
    by (simp_all add: isalnum_def isalpha_def isupper_def islower_def isdigit_def ord_of_def)
  have no: "x \<notin> set k" if "\<not> ?ok x" for x using ident_chars [OF id, of x] that by blast
  have ne: "k \<noteq> []" using id by (auto simp: cfgIsLibconfigIdent_def)
  then have h: "hd k \<noteq> x" "last k \<noteq> x" if "\<not> ?ok x" for x
    using no [OF that] hd_in_set [OF ne] last_in_set [OF ne] by metis+
  have "\<not> slash_comment k"
    using h(1) [OF bad(10)] by (auto simp: slash_comment_def split: list.splits)
  with h no bad len ne show ?thesis by (simp add: name_ok_def isWS_def)
qed

lemma statement_body:
  fixes v :: cstring
  assumes "name_ok key" "list_all isWS indent"
  shows "dropWhile isWS (statement indent key v) = key @ '' = '' @ scalar_text v @ '';''"
    and "strchr (key @ '' = '' @ scalar_text v @ '';'') (CHR ''='') = Some (Suc (length key))"
    and "rstrip isWS (key @ '' = '' @ scalar_text v @ '';'') = key @ '' = '' @ scalar_text v @ '';''"
    and "rstrip isWS (key @ '' = '' @ scalar_text v) = key @ '' = '' @ scalar_text v"
    and "rstrip isWS (key @ '' '') = key"
proof -
  have "dropWhile isWS (statement indent key v) = dropWhile isWS (key @ '' = '' @ scalar_text v @ '';'')"
    using assms(2) by (simp add: statement_def dropWhile_append2 list_all_iff)
  then show "dropWhile isWS (statement indent key v) = key @ '' = '' @ scalar_text v @ '';''"
    using assms(1) by (simp add: dropWhile_id name_ok_def)
  show "strchr (key @ '' = '' @ scalar_text v @ '';'') (CHR ''='') = Some (Suc (length key))"
    using strchr_append [of "CHR ''=''" "key @ '' ''" "CHR '' '' # scalar_text v @ '';''"] assms(1)
    by (simp add: name_ok_def)
  show "rstrip isWS (key @ '' = '' @ scalar_text v @ '';'') = key @ '' = '' @ scalar_text v @ '';''"
    using rstrip_append_not [of "'' = '' @ scalar_text v @ '';''" isWS key] by (simp add: isWS_def)
  show "rstrip isWS (key @ '' = '' @ scalar_text v) = key @ '' = '' @ scalar_text v"
    using rstrip_append_not [of "'' = '' @ scalar_text v" isWS key] scalar_last [of v] by simp
  show "rstrip isWS (key @ '' '') = key"
    using assms(1) by (simp add: isWS_def rstrip_id name_ok_def)
qed

lemma classify_statement:
  assumes "name_ok key" "list_all isWS indent"
  shows "cfgClassifyLine (statement indent key v) =
    (if cfgIsLibconfigIdent key then CFG_LINE_LIBCONFIG else CFG_LINE_LEGACY)"
proof -
  let ?p = "key @ '' = '' @ scalar_text v @ '';''"
  have "?p ! (Suc (length key) - 1) = CHR '' ''" by (simp add: nth_append)
  moreover have "take (Suc (length key)) ?p = key @ '' ''" by simp
  moreover have "\<not> slash_comment ?p"
    using assms(1) slash_comment_append_space [of key] by (simp add: name_ok_def)
  moreover have "?p \<noteq> []" "hd ?p \<noteq> CHR ''#''" "last ?p = CHR '';''" "Suc (length key) < length ?p"
    using assms(1) by (simp_all add: name_ok_def)
  moreover have "isWS (CHR '' '')" by (simp add: isWS_def)
  moreover have "rstrip isWS key = key" using assms(1) by (simp add: rstrip_id name_ok_def)
  ultimately show ?thesis
    unfolding cfgClassifyLine_def statement_body(1) [OF assms] Let_def statement_body(2-) [OF assms]
    by (simp del: append_Cons append.append_Cons add: statement_body [OF assms])
qed

definition composed :: "cstring \<Rightarrow> cstring \<Rightarrow> cstring" where
  "composed grp key = (if grp \<noteq> [] then grp @ ''_'' @ key else key)"

definition translated :: "cstring \<Rightarrow> cstring" where
  "translated k = (case cfgWoplToOurs k of Some k' \<Rightarrow> k' | None \<Rightarrow> k)"

lemma read_statement:
  assumes "name_ok key" "list_all isWS indent" "v \<noteq> []" "length v < CONFIG_KEY_VALUE_LEN"
    "length grp < CONFIG_KEY_NAME_LEN"
  shows "cfgReadLibconfigLine True (statement indent key v) grp cs =
    (grp, fst (set_str True (translated (composed grp key)) (bool_text v) cs))"
proof -
  define p where "p = key @ '' = '' @ scalar_text v @ '';''"
  note b1 = statement_body(1) [OF assms(1,2), of v, folded p_def]
    and b2 = statement_body(2) [OF assms(1,2), of v, folded p_def]
    and b3 = statement_body(3) [OF assms(1,2), of v, folded p_def]
    and b4 = statement_body(4) [OF assms(1,2), of v]
    and b5 = statement_body(5) [OF assms(1,2)]
  have hd: "p \<noteq> []" "hd p \<noteq> CHR ''#''" "hd p \<noteq> CHR ''{''" "hd p \<noteq> CHR ''}''"
    using assms(1) by (simp_all add: p_def name_ok_def)
  have slash: "\<not> slash_comment p"
    using assms(1) slash_comment_append_space [of key] by (simp add: p_def name_ok_def)
  have last: "last p = CHR '';''" "butlast p = key @ '' = '' @ scalar_text v"
    by (simp_all add: p_def butlast_append)
  have colon: "\<not> (strchr p (CHR '':'') \<noteq> None \<and> the (strchr p (CHR '':'')) < Suc (length key))"
    using strchr_append_not [of "CHR '':''" "key @ '' =''" "CHR '' '' # scalar_text v @ '';''"] assms(1)
    by (cases "strchr (CHR '' '' # scalar_text v @ '';'') (CHR '':'')") (auto simp: p_def name_ok_def)
  have tk: "rstrip isWS (take (Suc (length key)) p) = key" using b5 by (simp add: p_def)
  have kl: "\<not> (key = [] \<or> length key \<ge> CONFIG_KEY_NAME_LEN)" using assms(1) by (auto simp: name_ok_def)
  have val: "libconfig_value (drop (Suc (Suc (length key))) (key @ '' = '' @ scalar_text v)) = Some (bool_text v)"
    using libconfig_value_scalar [OF assms(3,4)] by simp
  have cl: "bounded (2 * CONFIG_KEY_NAME_LEN) (composed grp key) = composed grp key"
    using assms(1,5) by (simp add: composed_def name_ok_def)
  have "cfgReadLibconfigLine True (statement indent key v) grp cs =
    (grp, fst (set_str True (translated (bounded (2 * CONFIG_KEY_NAME_LEN) (composed grp key))) (bool_text v) cs))"
    unfolding cfgReadLibconfigLine_def b1 Let_def
    using hd slash last colon kl
    by (simp only: b2 b3 last if_False if_True b4 tk val option.case option.sel simp_thms
        option.distinct translated_def composed_def)
  then show ?thesis by (simp only: cl)
qed

section \<open>The whole file\<close>

abbreviation read_lines :: "cstring list \<Rightarrow> reader_state \<Rightarrow> reader_state" where
  "read_lines \<equiv> fold (read_cfg_line True)"

definition lib_state :: "cstring \<Rightarrow> config_set \<Rightarrow> reader_state" where
  "lib_state grp cs = \<lparr>rs_fmt = CFG_FMT_LIBCONFIG, rs_latched = True, rs_prefix = [], rs_group = grp, rs_set = cs\<rparr>"

definition content_line :: "cstring \<Rightarrow> bool" where
  "content_line l \<longleftrightarrow> cfgClassifyLine l \<noteq> CFG_LINE_BLANK \<and> cfgClassifyLine l \<noteq> CFG_LINE_COMMENT"

lemma read_lib_line:
  "content_line l \<Longrightarrow> read_cfg_line True l (lib_state grp cs) =
    (case cfgReadLibconfigLine True l grp cs of (g, c) \<Rightarrow> lib_state g c)"
  by (simp add: read_cfg_line_def content_line_def lib_state_def Let_def case_prod_beta)

lemma read_first_line:
  "cfgClassifyLine l = CFG_LINE_LIBCONFIG \<Longrightarrow>
    read_cfg_line True l (reader_init cs) = read_cfg_line True l (lib_state [] (cs\<lparr>format := CFG_FMT_LIBCONFIG\<rparr>))"
  by (simp add: read_cfg_line_def reader_init_def lib_state_def Let_def)

definition append_items :: "config_value list \<Rightarrow> config_set \<Rightarrow> config_set" where
  "append_items its cs = cs\<lparr>entries := entries cs @ its, modified := modified cs \<or> its \<noteq> []\<rparr>"

lemma append_items_simps [simp]:
  "append_items [] cs = cs" "append_items b (append_items a cs) = append_items (a @ b) cs" "entries (append_items a cs) = entries cs @ a"
  by (simp_all add: append_items_def)

text \<open>A block of lines each of which stores its entry leaves the set extended by those entries.\<close>

lemma read_block:
  assumes "\<And>it. it \<in> set its \<Longrightarrow> content_line (line it) \<and> emitted it \<and> item_ok it"
    and "\<And>it cs. it \<in> set its \<Longrightarrow>
      cfgReadLibconfigLine True (line it) grp cs = (grp, fst (set_str True (fst it) (snd it) cs))"
    and "set_ok cs" "distinct (map fst its)" "fst ` set its \<inter> fst ` set (entries cs) = {}"
  shows "read_lines (map line its) (lib_state grp cs) = lib_state grp (append_items its cs)"
  using assms
proof (induction its arbitrary: cs)
  case Nil
  then show ?case by simp
next
  case (Cons it its)
  have it: "content_line (line it)" "emitted it" "item_ok it" using Cons.prems(1) by simp_all
  have fresh: "fst (set_str True (fst it) (snd it) cs) = append_items [it] cs"
    using set_str_fresh [of "fst it" "snd it" cs] Cons.prems(3,5) it
    by (simp add: append_items_def emitted_def runtime_key_def)
  have "read_lines (map line its) (lib_state grp (append_items [it] cs)) = lib_state grp (append_items its (append_items [it] cs))"
  proof (rule Cons.IH)
    show "set_ok (append_items [it] cs)" using Cons.prems(3) it(3) by (simp add: set_ok_def)
    show "fst ` set its \<inter> fst ` set (entries (append_items [it] cs)) = {}" using Cons.prems(4,5) by auto
  qed (use Cons.prems in simp_all)
  then show ?case
    by (simp add: read_lib_line it(1) Cons.prems(2) fresh)
qed

text \<open>What an entry needs for its libconfig statement to be read back as it is.\<close>

definition lib_safe :: "config_value \<Rightarrow> bool" where
  "lib_safe it \<longleftrightarrow>
     item_ok it \<and> snd it \<noteq> [] \<and> snd it \<noteq> ''true'' \<and> snd it \<noteq> ''false'' \<and> LF \<notin> set (snd it) \<and> NUL \<notin> set (snd it)
     \<and> (cfgOursToWopl (fst it) = None \<longrightarrow> name_ok (fst it) \<and> cfgWoplToOurs (fst it) = None)"

definition root_name :: "config_value \<Rightarrow> cstring" where
  "root_name it = (case cfgOursToWopl (fst it) of Some w \<Rightarrow> w | None \<Rightarrow> fst it)"

definition root_line :: "config_value \<Rightarrow> cstring" where
  "root_line it = statement [] (root_name it) (snd it)"

definition member_name :: "config_value \<Rightarrow> cstring" where
  "member_name it = (let w = the (cfgOursToWopl (fst it)) in drop (snd (the (cfgMatchGroup w))) w)"

definition member_line :: "config_value \<Rightarrow> cstring" where
  "member_line it = statement ''  '' (member_name it) (snd it)"

definition members :: "config_value list \<Rightarrow> cstring \<Rightarrow> config_value list" where
  "members its g = filter (\<lambda>it. emitted it \<and> wopl_group (fst it) = Some g) its"

definition roots :: "config_value list \<Rightarrow> config_value list" where
  "roots its = filter (\<lambda>it. emitted it \<and> wopl_group (fst it) = None) its"

definition group_lines :: "config_value list \<Rightarrow> cstring \<Rightarrow> cstring list" where
  "group_lines its g =
     (if members its g = [] then []
      else [g @ '' :'', ''{''] @ map member_line (members its g) @ [''};''])"

lemma root_name_ok:
  assumes "lib_safe it"
  shows "name_ok (root_name it)" "translated (composed [] (root_name it)) = fst it"
proof -
  have "name_ok (root_name it) \<and> translated (root_name it) = fst it"
  proof (cases "cfgOursToWopl (fst it)")
    case None
    with assms show ?thesis by (simp add: root_name_def lib_safe_def translated_def)
  next
    case (Some w)
    then have "cfgWoplToOurs w = Some (fst it)" by (simp add: wopl_inverse)
    with Some wopl_row [OF Some] show ?thesis
      by (simp add: root_name_def translated_def row_ok_def ident_name)
  qed
  then show "name_ok (root_name it)" "translated (composed [] (root_name it)) = fst it"
    by (simp_all add: composed_def)
qed

lemma member_ok:
  assumes "wopl_group (fst it) = Some g"
  obtains w where "cfgOursToWopl (fst it) = Some w" "cfgMatchGroup w = Some (g, length g + 1)"
    "g \<in> set cfgLibconfigGroups" "name_ok (member_name it)" "translated (composed g (member_name it)) = fst it"
proof -
  from assms obtain w off where w: "cfgOursToWopl (fst it) = Some w" "cfgMatchGroup w = Some (g, off)"
    by (auto simp: wopl_group_def split: option.splits)
  have off: "off = length g + 1" using w(2) by (auto simp: cfgMatchGroup_def)
  have row: "g @ ''_'' @ drop off w = w" "cfgIsLibconfigIdent (drop off w)" "g \<in> set cfgLibconfigGroups"
    "length w < CONFIG_KEY_NAME_LEN"
    using wopl_row [OF w(1)] w(2) by (simp_all add: row_ok_def)
  have m: "member_name it = drop off w" using w by (simp add: member_name_def)
  have "g \<noteq> []" using row(3) by (auto simp: cfgLibconfigGroups_def)
  then have "composed g (member_name it) = w" using row(1) by (simp add: m composed_def)
  moreover have "cfgWoplToOurs w = Some (fst it)" using w(1) by (simp add: wopl_inverse)
  ultimately have "translated (composed g (member_name it)) = fst it" by (simp add: translated_def)
  moreover have "name_ok (member_name it)" unfolding m by (rule ident_name [OF row(2)]) (use row(4) in simp)
  ultimately show ?thesis using that w off row(3) by blast
qed

lemma statement_content: "name_ok key \<Longrightarrow> list_all isWS indent \<Longrightarrow> content_line (statement indent key v)"
  by (simp add: content_line_def classify_statement)

lemma statement_plain:
  assumes "name_ok key" "list_all isWS indent" "LF \<notin> set v" "NUL \<notin> set v"
  shows "plain_line (statement indent key v)"
proof -
  have "LF \<notin> set (scalar_text v)" "NUL \<notin> set (scalar_text v)"
    using assms(3,4) set_escape_all [of v] by (auto simp: scalar_text_def)
  moreover have "LF \<notin> set indent" "NUL \<notin> set indent"
  proof -
    have "\<not> isWS LF" "\<not> isWS NUL" by (simp_all add: isWS_def)
    with assms(2) show "LF \<notin> set indent" "NUL \<notin> set indent" by (auto simp: list_all_iff)
  qed
  moreover have "\<not> comment_line (statement indent key v)"
    using assms(1,2) by (cases indent) (auto simp: comment_line_def statement_def name_ok_def isWS_def)
  ultimately show ?thesis using assms(1) by (simp add: plain_line_def statement_def name_ok_def)
qed

lemma bool_text_id: "lib_safe it \<Longrightarrow> bool_text (snd it) = snd it"
  by (simp add: lib_safe_def bool_text_def)

lemma read_root_line:
  "lib_safe it \<Longrightarrow> cfgReadLibconfigLine True (root_line it) [] cs = ([], fst (set_str True (fst it) (snd it) cs))"
  using read_statement [of "root_name it" "[]" "snd it" "[]" cs] root_name_ok [of it] bool_text_id [of it]
  by (simp add: root_line_def lib_safe_def item_ok_def)

lemma read_member_line:
  assumes "lib_safe it" "wopl_group (fst it) = Some g"
  shows "cfgReadLibconfigLine True (member_line it) g cs = (g, fst (set_str True (fst it) (snd it) cs))"
proof -
  obtain w where "g \<in> set cfgLibconfigGroups" "name_ok (member_name it)" "translated (composed g (member_name it)) = fst it"
    using member_ok [OF assms(2)] by metis
  moreover from this have "length g < 48" by (auto simp: cfgLibconfigGroups_def)
  ultimately show ?thesis
    using read_statement [of "member_name it" "''  ''" "snd it" g cs] bool_text_id [OF assms(1)] assms(1)
    by (simp add: member_line_def lib_safe_def item_ok_def isWS_def)
qed

lemma read_braces:
  assumes "g \<in> set cfgLibconfigGroups"
  shows "read_lines [g @ '' :'', ''{''] (lib_state [] cs) = lib_state g cs"
    and "read_lines [''};''] (lib_state g cs) = lib_state [] cs"
    and "list_all plain_line [g @ '' :'', ''{'', ''};'']"
proof -
  have c: "content_line (g @ '' :'')" "content_line ''{''" "content_line ''};''"
    using assms
    by (auto simp: cfgLibconfigGroups_def content_line_def cfgClassifyLine_def isWS_def slash_comment_def strchr_def)
  have h: "cfgReadLibconfigLine True (g @ '' :'') [] cs = (g, cs)"
    using assms by (auto simp: cfgLibconfigGroups_def cfgReadLibconfigLine_def isWS_def slash_comment_def strchr_def rstrip_def)
  have b: "cfgReadLibconfigLine True ''{'' g cs = (g, cs)" "cfgReadLibconfigLine True ''};'' g cs = ([], cs)"
    by (simp_all add: cfgReadLibconfigLine_def isWS_def slash_comment_def)
  show "read_lines [g @ '' :'', ''{''] (lib_state [] cs) = lib_state g cs"
    using c h b by (simp add: read_lib_line)
  show "read_lines [''};''] (lib_state g cs) = lib_state [] cs"
    using c b by (simp add: read_lib_line)
  show "list_all plain_line [g @ '' :'', ''{'', ''};'']"
    using assms by (auto simp: cfgLibconfigGroups_def plain_line_def comment_line_def)
qed

lemma members_props:
  "it \<in> set (members its g) \<Longrightarrow> it \<in> set its \<and> emitted it \<and> wopl_group (fst it) = Some g"
  by (simp add: members_def)

lemma group_lines_plain:
  assumes "list_all lib_safe its" "g \<in> set cfgLibconfigGroups"
  shows "list_all plain_line (group_lines its g)" "unlines (group_lines its g) = concat (group_block its g)"
proof -
  have m: "plain_line (member_line it) \<and> group_chunk it = member_line it @ [LF]" if it: "it \<in> set (members its g)" for it
  proof -
    have p: "lib_safe it" "wopl_group (fst it) = Some g"
      using assms(1) members_props [OF it] by (auto simp: list_all_iff)
    then obtain w where w: "cfgOursToWopl (fst it) = Some w" "cfgMatchGroup w = Some (g, length g + 1)" "name_ok (member_name it)"
      using member_ok by metis
    have "group_chunk it = cfgWriteLibconfigLine ''  '' (member_name it) (snd it)"
      using w by (simp add: group_chunk_def member_name_def)
    moreover have "length (member_name it) < 48" using w(3) by (simp add: name_ok_def)
    ultimately show ?thesis
      using p w(3) statement_plain [of "member_name it" "''  ''" "snd it"]
      by (simp add: member_line_def writeLine_statement lib_safe_def item_ok_def isWS_def)
  qed
  have "list_all plain_line (map member_line (members its g))" using m by (auto simp: list_all_iff)
  then show "list_all plain_line (group_lines its g)"
    using read_braces(3) [OF assms(2)] by (simp add: group_lines_def)
  have c: "concat (map group_chunk (members its g)) = unlines (map member_line (members its g))"
    unfolding unlines_def map_map comp_def using m by (intro arg_cong [of _ _ concat] map_cong) auto
  have "length g < 100" using assms(2) by (auto simp: cfgLibconfigGroups_def)
  then show "unlines (group_lines its g) = concat (group_block its g)"
    using c by (simp add: group_lines_def group_block_def members_def)
qed

lemma read_group:
  assumes "list_all lib_safe its" "g \<in> set cfgLibconfigGroups" "distinct (map fst its)" "set_ok cs"
    "fst ` set (members its g) \<inter> fst ` set (entries cs) = {}"
  shows "read_lines (group_lines its g) (lib_state [] cs) = lib_state [] (append_items (members its g) cs)"
proof -
  have "read_lines (map member_line (members its g)) (lib_state g cs) = lib_state g (append_items (members its g) cs)"
  proof (rule read_block)
    fix it assume "it \<in> set (members its g)"
    then have p: "lib_safe it" "emitted it" "wopl_group (fst it) = Some g"
      using assms(1) members_props by (auto simp: list_all_iff)
    then have "name_ok (member_name it)" using member_ok by metis
    with p show "content_line (member_line it) \<and> emitted it \<and> item_ok it"
      by (simp add: member_line_def statement_content isWS_def lib_safe_def)
    show "cfgReadLibconfigLine True (member_line it) g c = (g, fst (set_str True (fst it) (snd it) c))" for c
      using p by (simp add: read_member_line)
  qed (use assms in \<open>simp_all add: members_def distinct_map_filter\<close>)
  then have "read_lines ([g @ '' :'', ''{''] @ map member_line (members its g) @ [''};'']) (lib_state [] cs)
      = lib_state [] (append_items (members its g) cs)"
    by (simp only: fold_append comp_def read_braces(1,2) [OF assms(2)])
  then show ?thesis by (simp only: group_lines_def split: if_split) simp
qed

definition all_members :: "config_value list \<Rightarrow> cstring list \<Rightarrow> config_value list" where
  "all_members its gs = concat (map (members its) gs)"

lemma all_members_Cons: "set (all_members its (g # gs)) = set (members its g) \<union> set (all_members its gs)"
  by (simp add: all_members_def)

lemma read_groups:
  assumes "list_all lib_safe its" "set gs \<subseteq> set cfgLibconfigGroups" "distinct gs" "distinct (map fst its)" "set_ok cs"
    "fst ` set (all_members its gs) \<inter> fst ` set (entries cs) = {}"
  shows "read_lines (concat (map (group_lines its) gs)) (lib_state [] cs) = lib_state [] (append_items (all_members its gs) cs)"
  using assms
proof (induction gs arbitrary: cs)
  case Nil
  then show ?case by (simp add: all_members_def)
next
  case (Cons g gs)
  have ok: "set_ok (append_items (members its g) cs)"
    using Cons.prems(1,5) members_props by (auto simp: set_ok_def list_all_iff lib_safe_def)
  have "fst ` set (all_members its gs) \<inter> fst ` set (members its g) = {}"
  proof -
    have "wopl_group k \<noteq> Some g" if "k \<in> fst ` set (all_members its gs)" for k
      using that Cons.prems(3) by (auto simp: all_members_def members_def)
    moreover have "wopl_group k = Some g" if "k \<in> fst ` set (members its g)" for k
      using that by (auto simp: members_def)
    ultimately show ?thesis by blast
  qed
  with Cons.prems(6) have dis: "fst ` set (all_members its gs) \<inter> fst ` set (entries (append_items (members its g) cs)) = {}"
    unfolding all_members_Cons append_items_simps set_append image_Un by blast
  have "read_lines (group_lines its g) (lib_state [] cs) = lib_state [] (append_items (members its g) cs)"
    using Cons.prems by (intro read_group) (auto simp: all_members_def)
  with Cons.IH [OF Cons.prems(1) _ _ Cons.prems(4) ok dis] Cons.prems(2,3)
  show ?case by (simp add: all_members_def)
qed

lemma read_roots:
  assumes "list_all lib_safe its" "distinct (map fst its)" "set_ok cs" "entries cs = []"
    "roots its = it # rest" "cfgIsLibconfigIdent (root_name it)"
  shows "read_lines (map root_line (roots its)) (reader_init cs) =
    lib_state [] (append_items (roots its) (cs\<lparr>format := CFG_FMT_LIBCONFIG\<rparr>))"
proof -
  have safe: "lib_safe r \<and> emitted r" if "r \<in> set (roots its)" for r
    using that assms(1) by (auto simp: roots_def list_all_iff)
  have "lib_safe it" using safe assms(5) by simp
  then have "cfgClassifyLine (root_line it) = CFG_LINE_LIBCONFIG"
    using assms(6) root_name_ok [of it] by (simp add: root_line_def classify_statement)
  then have "read_lines (map root_line (roots its)) (reader_init cs) =
      read_lines (map root_line (roots its)) (lib_state [] (cs\<lparr>format := CFG_FMT_LIBCONFIG\<rparr>))"
    by (simp add: assms(5) read_first_line)
  also have "\<dots> = lib_state [] (append_items (roots its) (cs\<lparr>format := CFG_FMT_LIBCONFIG\<rparr>))"
  proof (rule read_block)
    fix r assume "r \<in> set (roots its)"
    with safe have r: "lib_safe r" "emitted r" by auto
    with root_name_ok [OF r(1)] show "content_line (root_line r) \<and> emitted r \<and> item_ok r"
      by (simp add: root_line_def statement_content lib_safe_def)
    show "cfgReadLibconfigLine True (root_line r) [] c = ([], fst (set_str True (fst r) (snd r) c))" for c
      using r by (simp add: read_root_line)
  next
    show "distinct (map fst (roots its))" unfolding roots_def by (rule distinct_map_filter [OF assms(2)])
  qed (use assms(3,4) in \<open>simp_all add: set_ok_def\<close>)
  finally show ?thesis .
qed

lemma roots_plain:
  assumes "list_all lib_safe its"
  shows "list_all plain_line (map root_line (roots its))"
    "unlines (map root_line (roots its)) = concat (map root_chunk (roots its))"
proof -
  have r: "plain_line (root_line it) \<and> root_chunk it = root_line it @ [LF]" if "it \<in> set (roots its)" for it
  proof -
    have s: "lib_safe it" using that assms by (auto simp: roots_def list_all_iff)
    have "root_chunk it = cfgWriteLibconfigLine [] (root_name it) (snd it)"
      by (simp add: root_chunk_def root_name_def)
    with s root_name_ok(1) [OF s] show ?thesis
      by (simp add: root_line_def statement_plain writeLine_statement lib_safe_def item_ok_def name_ok_def)
  qed
  then show "list_all plain_line (map root_line (roots its))" by (auto simp: list_all_iff)
  show "unlines (map root_line (roots its)) = concat (map root_chunk (roots its))"
    unfolding unlines_def map_map comp_def using r by (intro arg_cong [of _ _ concat] map_cong) auto
qed

definition lib_order :: "config_value list \<Rightarrow> config_value list" where
  "lib_order its = roots its @ all_members its cfgLibconfigGroups"

lemma set_lib_order: "set (lib_order its) = set (filter emitted its)"
proof -
  have "wopl_group k = None \<or> (\<exists>g \<in> set cfgLibconfigGroups. wopl_group k = Some g)" for k
  proof (cases "wopl_group k")
    case (Some g)
    with member_ok [of "(k, [])" g] show ?thesis by auto
  qed simp
  then show ?thesis by (auto simp: lib_order_def roots_def all_members_def members_def)
qed

lemma lib_text:
  assumes "format cs = CFG_FMT_LIBCONFIG" "list_all lib_safe (entries cs)"
  defines "lines \<equiv> map root_line (roots (entries cs)) @ concat (map (group_lines (entries cs)) cfgLibconfigGroups)"
  shows "concat (config_chunks cs) = unlines lines" "list_all plain_line lines"
proof -
  have groups: "list_all plain_line (concat (map (group_lines (entries cs)) gs)) \<and>
      unlines (concat (map (group_lines (entries cs)) gs)) = concat (concat (map (group_block (entries cs)) gs))"
    if "set gs \<subseteq> set cfgLibconfigGroups" for gs
    using that group_lines_plain [OF assms(2)] by (induction gs) auto
  show "concat (config_chunks cs) = unlines lines"
    using assms(1) groups [of cfgLibconfigGroups] roots_plain(2) [OF assms(2)]
    by (simp add: config_chunks_def cfgWriteLibconfig_def roots_def lines_def)
  show "list_all plain_line lines"
    using groups [of cfgLibconfigGroups] roots_plain(1) [OF assms(2)] by (simp add: lines_def)
qed

lemma libconfig_write_read_order:
  assumes "set_unique cs" "format cs = CFG_FMT_LIBCONFIG" "list_all lib_safe (entries cs)"
    and "roots (entries cs) = it # rest" "cfgIsLibconfigIdent (root_name it)"
    and "entries cs0 = []"
  shows "configReadBuffer True (\<lambda>_. True) (Some cs0) (concat (config_chunks cs)) =
    Some (Inr (Some (cs0\<lparr>entries := lib_order (entries cs), format := CFG_FMT_LIBCONFIG, modified := False\<rparr>), True))"
proof -
  let ?its = "entries cs" and ?c1 = "cs0\<lparr>format := CFG_FMT_LIBCONFIG\<rparr>"
  let ?lines = "map root_line (roots ?its) @ concat (map (group_lines ?its) cfgLibconfigGroups)"
  have dist: "distinct (map fst ?its)" using assms(1) by (simp add: set_unique_def)
  note whole = lib_text(1) [OF assms(2,3)] and plain = lib_text(2) [OF assms(2,3)]
  have roots: "read_lines (map root_line (roots ?its)) (reader_init cs0) = lib_state [] (append_items (roots ?its) ?c1)"
    using assms dist by (intro read_roots) (simp_all add: set_ok_def)
  have "fst ` set (all_members ?its cfgLibconfigGroups) \<inter> fst ` set (roots ?its) = {}"
    by (auto simp: all_members_def members_def roots_def)
  then have "read_lines (concat (map (group_lines ?its) cfgLibconfigGroups)) (lib_state [] (append_items (roots ?its) ?c1))
      = lib_state [] (append_items (lib_order ?its) ?c1)"
    using assms(3,6) dist
    by (subst read_groups) (auto simp: cfgLibconfigGroups_def set_ok_def list_all_iff roots_def lib_safe_def lib_order_def)
  with roots have "read_lines ?lines (reader_init cs0) = lib_state [] (append_items (lib_order ?its) ?c1)"
    by simp
  then show ?thesis
    unfolding whole configReadBuffer_unlines [OF plain]
    by (simp add: lib_state_def append_items_def assms(6))
qed







text \<open>
  What the comment above \<open>cfgClassifyLine\<close> claims of the two writers: a \<open>key=value\<close> line is never
  classified as libconfig, and a libconfig statement whose key is a libconfig identifier always is.
  A statement with any other key, which the writer emits for the program's own \<open>$\<close> keys, is
  classified as the program's own syntax.
\<close>

theorem cfgClassifyLine_writers:
  assumes "legacy_safe (k, v)" "name_ok key" "length w < CONFIG_KEY_VALUE_LEN"
  shows "legacy_line (k, v) = k @ ''='' @ v @ [LF] \<and> cfgClassifyLine (k @ ''='' @ v) = CFG_LINE_LEGACY
    \<and> (\<exists>l. cfgWriteLibconfigLine [] key w = l @ [LF]
        \<and> cfgClassifyLine l = (if cfgIsLibconfigIdent key then CFG_LINE_LIBCONFIG else CFG_LINE_LEGACY))"
proof -
  have "item_ok (k, v)" using assms(1) by (simp add: legacy_safe_def Let_def)
  then have "legacy_line (k, v) = k @ ''='' @ v @ [LF]" by (simp add: legacy_line_complete assign_def)
  moreover have "cfgClassifyLine (k @ ''='' @ v) = CFG_LINE_LEGACY"
    using classify_assign [OF assms(1)] by (simp add: assign_def)
  moreover have "cfgWriteLibconfigLine [] key w = statement [] key w @ [LF]"
    using assms(2,3) by (intro writeLine_statement) (simp_all add: name_ok_def)
  ultimately show ?thesis using classify_statement [OF assms(2), of "[]" w] by auto
qed

theorem cfgClassifyLine_writers_witness:
  "cfgClassifyLine (''theme'' @ ''='' @ ''a = b;'') = CFG_LINE_LEGACY
    \<and> (\<exists>l. cfgWriteLibconfigLine [] ''$ILinkID'' ''12'' = l @ [LF] \<and> cfgClassifyLine l = CFG_LINE_LEGACY)"
  using cfgClassifyLine_writers [of "''theme''" "''a = b;''" "''$ILinkID''" "''12''"]
  by (simp add: legacy_safe_def item_ok_def configKeyValidate_def name_ok_def isWS_def slash_comment_def
      cfgIsLibconfigIdent_def isalpha_def isupper_def islower_def ord_of_def)

section \<open>When the syntax is lost\<close>

lemma set_str_format [simp]: "format (fst (set_str mem k v cs)) = format cs"
  by (auto simp: set_str_def config_put_def addConfigValue_def case_prod_beta split: option.splits)

lemma read_legacy_line_frame:
  "rs_latched (read_legacy_line mem l st) = rs_latched st" "rs_fmt (read_legacy_line mem l st) = rs_fmt st"
  "format (rs_set (read_legacy_line mem l st)) = format (rs_set st)"
  by (auto simp: read_legacy_line_def Let_def split: option.splits)

lemma read_latched:
  assumes "rs_latched st" "rs_fmt st = CFG_FMT_LEGACY" "format (rs_set st) = CFG_FMT_LEGACY"
  shows "format (rs_set (read_lines ls st)) = CFG_FMT_LEGACY"
  using assms
proof (induction ls arbitrary: st)
  case (Cons l ls)
  have "read_cfg_line True l st = st \<or> read_cfg_line True l st = read_legacy_line True l st"
    using Cons.prems by (simp add: read_cfg_line_def Let_def)
  with Cons show ?case by (auto simp: read_legacy_line_frame)
qed simp

lemma read_legacy_first:
  assumes "cfgClassifyLine l = CFG_LINE_LEGACY"
  shows "format (rs_set (read_lines (l # ls) (reader_init cs))) = CFG_FMT_LEGACY"
  using assms
  by (simp add: read_cfg_line_def reader_init_def read_latched read_legacy_line_frame)

lemma group_header_legacy: "g \<in> set cfgLibconfigGroups \<Longrightarrow> cfgClassifyLine (g @ '' :'') = CFG_LINE_LEGACY"
  by (auto simp: cfgLibconfigGroups_def cfgClassifyLine_def isWS_def slash_comment_def strchr_def)

lemma lib_first_line:
  assumes "list_all lib_safe its" "filter emitted its \<noteq> []"
    and "\<not> (roots its \<noteq> [] \<and> cfgIsLibconfigIdent (root_name (hd (roots its))))"
  shows "\<exists>l ls. map root_line (roots its) @ concat (map (group_lines its) cfgLibconfigGroups) = l # ls
    \<and> cfgClassifyLine l = CFG_LINE_LEGACY"
proof (cases "roots its")
  case (Cons it rest)
  have "set (roots its) \<subseteq> set its" by (auto simp: roots_def)
  with Cons assms(1) have "lib_safe it" by (auto simp: list_all_iff)
  then have "cfgClassifyLine (root_line it) = CFG_LINE_LEGACY"
    using assms(3) Cons root_name_ok(1) by (simp add: root_line_def classify_statement)
  with Cons show ?thesis by simp
next
  case Nil
  then have "all_members its cfgLibconfigGroups \<noteq> []"
    using assms(2) set_lib_order [of its] by (metis append_Nil lib_order_def set_empty)
  then obtain g where g: "g \<in> set cfgLibconfigGroups" "members its g \<noteq> []" by (auto simp: all_members_def)
  have "\<exists>l ls. concat (map (group_lines its) gs) = l # ls \<and> cfgClassifyLine l = CFG_LINE_LEGACY"
    if "g \<in> set gs" "set gs \<subseteq> set cfgLibconfigGroups" for gs
    using that
  proof (induction gs)
    case (Cons h gs)
    show ?case
    proof (cases "members its h = []")
      case True
      with Cons g(2) have "g \<in> set gs" by auto
      with Cons True show ?thesis by (simp add: group_lines_def)
    next
      case False
      then show ?thesis using Cons.prems(2) group_header_legacy [of h] by (simp add: group_lines_def)
    qed
  qed simp
  from this [of cfgLibconfigGroups] g(1) Nil show ?thesis by simp
qed

text \<open>
  A libconfig set keeps its syntax through a save and a load exactly when its first root statement
  exists and has a libconfig identifier as key. Otherwise the first line read is a group header or a
  statement of a \<open>$\<close> key, the file is taken for the program's own syntax, and (as the witness shows)
  the stored settings are not found again.
\<close>

theorem libconfig_syntax_kept_iff:
  assumes "set_unique cs" "format cs = CFG_FMT_LIBCONFIG" "list_all lib_safe (entries cs)"
    and "filter emitted (entries cs) \<noteq> []" "entries cs0 = []"
    and "configReadBuffer True (\<lambda>_. True) (Some cs0) (concat (config_chunks cs)) = Some (Inr (Some cs', True))"
  shows "format cs' = CFG_FMT_LIBCONFIG \<longleftrightarrow>
    roots (entries cs) \<noteq> [] \<and> cfgIsLibconfigIdent (root_name (hd (roots (entries cs))))"
proof (cases "roots (entries cs) \<noteq> [] \<and> cfgIsLibconfigIdent (root_name (hd (roots (entries cs))))")
  case True
  then obtain it rest where "roots (entries cs) = it # rest" "cfgIsLibconfigIdent (root_name it)"
    by (cases "roots (entries cs)") auto
  from libconfig_write_read_order [OF assms(1-3) this assms(5)] assms(6) True
  show ?thesis by auto
next
  case False
  let ?its = "entries cs"
  let ?lines = "map root_line (roots ?its) @ concat (map (group_lines ?its) cfgLibconfigGroups)"
  obtain l ls where l: "?lines = l # ls" "cfgClassifyLine l = CFG_LINE_LEGACY"
    using lib_first_line [OF assms(3,4) False] by blast
  have "list_all plain_line ?lines" "concat (config_chunks cs) = unlines ?lines"
    using lib_text [OF assms(2,3)] by simp_all
  then have "cs' = (rs_set (read_lines ?lines (reader_init cs0)))\<lparr>modified := False\<rparr>"
    using configReadBuffer_unlines [of ?lines cs0] assms(6) by simp
  then have "format cs' = CFG_FMT_LEGACY" using read_legacy_first [OF l(2), of ls cs0] l(1) by simp
  with False show ?thesis by simp
qed

definition gsm_only :: config_set where
  "gsm_only = sample_set\<lparr>format := CFG_FMT_LIBCONFIG, entries := [(''$EnableGSM'', ''1'')]\<rparr>"

definition gsm_reread :: config_set where
  "gsm_reread = sample_set\<lparr>format := CFG_FMT_LEGACY, entries := [(''gsm _enable '', '' 1;'')], modified := False\<rparr>"

theorem libconfig_syntax_kept_iff_witness:
  "configReadBuffer True (\<lambda>_. True) (Some (sample_set\<lparr>entries := []\<rparr>)) (concat (config_chunks gsm_only))
     = Some (Inr (Some gsm_reread, True))
   \<and> format gsm_reread \<noteq> CFG_FMT_LIBCONFIG \<and> roots (entries gsm_only) = []
   \<and> configGetStr (Some gsm_only) (Some ''$EnableGSM'') = Some ''1''
   \<and> configGetStr (Some gsm_reread) (Some ''$EnableGSM'') = None"
proof -
  have w: "cfgOursToWopl ''$EnableGSM'' = Some ''gsm_enable''"
    by (simp add: cfgOursToWopl_def cfgWoplPerGameKeys_def)
  have g: "wopl_group ''$EnableGSM'' = Some ''gsm''"
    by (simp add: wopl_group_def w cfgMatchGroup_def cfgLibconfigGroups_def strneq_def)
  have r: "roots (entries gsm_only) = []" by (simp add: roots_def gsm_only_def g)
  have rd: "configReadBuffer True (\<lambda>_. True) (Some (sample_set\<lparr>entries := []\<rparr>)) (concat (config_chunks gsm_only))
     = Some (Inr (Some gsm_reread, True))" by code_simp
  have "format gsm_reread = CFG_FMT_LIBCONFIG \<longleftrightarrow>
      roots (entries gsm_only) \<noteq> [] \<and> cfgIsLibconfigIdent (root_name (hd (roots (entries gsm_only))))"
    by (rule libconfig_syntax_kept_iff [OF _ _ _ _ _ rd])
      (simp_all add: gsm_only_def sample_set_def set_unique_def set_ok_def item_ok_def configKeyValidate_def
        lib_safe_def w emitted_def)
  moreover have "configGetStr (Some gsm_only) (Some ''$EnableGSM'') = Some ''1''"
    "configGetStr (Some gsm_reread) (Some ''$EnableGSM'') = None"
    by (simp_all add: configGetStr_def gsm_only_def gsm_reread_def configKeyValidate_def getConfigItemForName_def strneq_def)
  ultimately show ?thesis using r rd by simp
qed

end
