(* ===== verification/ConfigPaths.thy ===== *)
theory ConfigPaths
  imports ConfigStore
begin

text \<open>
  Path composition and the device rules of \<open>src/config.c\<close>: where a set's file lives, what its sibling
  and fallback names are, which paths may never be opened, and the home of the global sets.
\<close>

section \<open>Paths\<close>

definition CONFIG_OPL_FILENAME :: cstring where
  "CONFIG_OPL_FILENAME = ''settings_riptopl.cfg''"

definition CONFIG_OPL_FILENAME_LEGACY :: cstring where
  "CONFIG_OPL_FILENAME_LEGACY = ''conf_riptopl.cfg''"

definition configFilenames :: "cstring list" where
  "configFilenames = [CONFIG_OPL_FILENAME, ''conf_last.cfg'', ''conf_apps.cfg'', ''conf_network.cfg'', ''conf_game.cfg'']"

definition configBuildPath :: "nat \<Rightarrow> cstring option \<Rightarrow> cstring \<Rightarrow> cstring" where
  "configBuildPath outSize prefix fname =
     bounded outSize
       (case prefix of
          None \<Rightarrow> fname
        | Some p \<Rightarrow>
            if p = [] then fname
            else if last p = CHR ''/'' \<or> last p = CHR '':'' then p @ fname
            else p @ ''/'' @ fname)"

text \<open>The offset of the last character of the directory part.\<close>

definition configPathDirEnd :: "cstring \<Rightarrow> nat option" where
  "configPathDirEnd path =
     (let slash = strrchr path (CHR ''/''); colon = strrchr path (CHR '':'') in
      if colon \<noteq> None \<and> (slash = None \<or> the colon > the slash) then colon else slash)"

definition configBuildSiblingPath :: "cstring \<Rightarrow> cstring \<Rightarrow> nat \<Rightarrow> cstring" where
  "configBuildSiblingPath path name outSize =
     bounded outSize (case configPathDirEnd path of Some d \<Rightarrow> take (d + 1) path @ name | None \<Rightarrow> name)"

definition configBuildLegacyOplPath :: "cstring \<Rightarrow> nat \<Rightarrow> cstring" where
  "configBuildLegacyOplPath path outSize = configBuildSiblingPath path CONFIG_OPL_FILENAME_LEGACY outSize"

definition wopl_names :: "(cstring \<times> cstring) list" where
  "wopl_names = [(''conf_theme.cfg'', ''wopl_theme.cfg''), (''conf_network.cfg'', ''wopl_network.cfg''),
     (''conf_game.cfg'', ''wopl_global_game.cfg'')]"

definition configBuildWoplPath :: "cstring option \<Rightarrow> nat \<Rightarrow> cstring option" where
  "configBuildWoplPath path outSize =
     (case path of
        None \<Rightarrow> None
      | Some p \<Rightarrow>
          let dirLen = (case configPathDirEnd p of Some d \<Rightarrow> d + 1 | None \<Rightarrow> 0)
          in (case find (\<lambda>e. drop dirLen p = fst e) wopl_names of
                None \<Rightarrow> None
              | Some e \<Rightarrow> if dirLen + length (snd e) + 1 > outSize then None else Some (take dirLen p @ snd e)))"

text \<open>\<open>hdd<digit>:\<close>, the raw partition namespace.\<close>

definition configPathIsRawApa :: "cstring option \<Rightarrow> bool" where
  "configPathIsRawApa path =
     (case path of
        None \<Rightarrow> False
      | Some p \<Rightarrow> strneq 3 p ''hdd'' \<and> 4 < length p \<and> isdigit (p ! 3) \<and> p ! 4 = CHR '':'')"

definition configOpenFailureIsAbsent :: "cstring option \<Rightarrow> int \<Rightarrow> bool" where
  "configOpenFailureIsAbsent path err =
     (case path of
        None \<Rightarrow> False
      | Some p \<Rightarrow>
          if strneq 2 p ''mc'' \<and> 2 < length p \<and> p ! 2 = CHR ''?'' then False
          else if strneq 4 p ''mass'' then err = 4 \<or> err = 5
          else err = ENOENT)"

section \<open>Device names for the notifications\<close>

definition configPrepareDevice :: "nat \<Rightarrow> cstring option \<Rightarrow> cstring" where
  "configPrepareDevice deviceSize prefix =
     (let d = bounded deviceSize (case prefix of None \<Rightarrow> [] | Some p \<Rightarrow> p)
      in case strchr d (CHR '':'') of None \<Rightarrow> d | Some c \<Rightarrow> take (c + 1) d)"

text \<open>The wildcard slot of \<open>mc?:\<close> replaced by the digit of the card found (\<open>None\<close>: no card).\<close>

definition resolve_mc :: "char option \<Rightarrow> cstring \<Rightarrow> cstring" where
  "resolve_mc mcID d =
     (case mcID of
        Some c \<Rightarrow> if strneq 2 d ''mc'' \<and> 2 < length d \<and> d ! 2 = CHR ''?'' then d[2 := c] else d
      | None \<Rightarrow> d)"

record config_home =
  ch_files :: "config_set list"
  ch_cfgDevice :: cstring
  ch_cfgLoadDevice :: cstring
  ch_cfgHomePath :: cstring
  ch_legacyNet :: cstring
  ch_currentUID :: "32 word"

definition configGetDir :: "char option \<Rightarrow> config_home \<Rightarrow> config_home \<times> cstring" where
  "configGetDir mcID h = (let d = resolve_mc mcID (ch_cfgDevice h) in (h\<lparr>ch_cfgDevice := d\<rparr>, d))"

definition configGetLoadDir :: "char option \<Rightarrow> config_home \<Rightarrow> config_home \<times> cstring" where
  "configGetLoadDir mcID h =
     (let d = resolve_mc mcID (ch_cfgLoadDevice h)
      in (h\<lparr>ch_cfgLoadDevice := d\<rparr>, if d \<noteq> [] then d else ch_cfgDevice h))"

definition configGetHomePath :: "char option \<Rightarrow> config_home \<Rightarrow> config_home \<times> cstring" where
  "configGetHomePath mcID h = (let d = resolve_mc mcID (ch_cfgHomePath h) in (h\<lparr>ch_cfgHomePath := d\<rparr>, d))"

definition configPrepareNotifications :: "cstring \<Rightarrow> config_home \<Rightarrow> config_home" where
  "configPrepareNotifications prefix h = h\<lparr>ch_cfgDevice := configPrepareDevice 8 (Some prefix)\<rparr>"

definition configPrepareLoadNotification :: "cstring \<Rightarrow> cstring option \<Rightarrow> config_home \<Rightarrow> config_home" where
  "configPrepareLoadNotification gOPLPart path h =
     h\<lparr>ch_cfgLoadDevice := configPrepareDevice 8
        (case path of
           Some p \<Rightarrow> if strneq 5 p ''pfs0:'' \<and> gOPLPart \<noteq> [] then Some gOPLPart else path
         | None \<Rightarrow> None)\<rparr>"

text \<open>
  \<open>configInit\<close> and \<open>configSetMove\<close> after the default prefix is chosen; \<open>mem i\<close> is the allocation of the
  file name of set \<open>i\<close>. A set whose name cannot be allocated stays without one.
\<close>

fun init_sets :: "(nat \<Rightarrow> bool) \<Rightarrow> nat \<Rightarrow> cstring \<Rightarrow> cstring list \<Rightarrow> config_set list \<Rightarrow> 32 word \<Rightarrow> config_set list \<times> 32 word" where
  "init_sets mem i prefix (f # fs) (cs # css) u =
     (case configAlloc True (mem i) u (2 ^ i) (Some cs) (Some (configBuildPath 256 (Some prefix) f)) of
        (u', slot, _) \<Rightarrow>
          (case init_sets mem (Suc i) prefix fs css u' of
             (css', u'') \<Rightarrow> ((case slot of Some c \<Rightarrow> c | None \<Rightarrow> cs) # css', u'')))"
| "init_sets mem i prefix fs css u = (css, u)"

definition configInit :: "(nat \<Rightarrow> bool) \<Rightarrow> cstring \<Rightarrow> cstring option \<Rightarrow> config_home \<Rightarrow> config_home" where
  "configInit mem gBaseMCDir prefix h =
     (let p = (case prefix of Some q \<Rightarrow> q | None \<Rightarrow> gBaseMCDir);
          (css, u) = init_sets mem 0 p configFilenames (ch_files h) (ch_currentUID h)
      in configPrepareNotifications p
           (h\<lparr>ch_legacyNet := configBuildPath 256 (Some p) ''IPCONFIG.DAT'',
              ch_files := css, ch_currentUID := u, ch_cfgHomePath := bounded 256 p\<rparr>))"

definition configSetMove :: "(nat \<Rightarrow> bool) \<Rightarrow> cstring \<Rightarrow> cstring option \<Rightarrow> config_home \<Rightarrow> config_home" where
  "configSetMove mem gBaseMCDir prefix h =
     (let p = (case prefix of Some q \<Rightarrow> q | None \<Rightarrow> gBaseMCDir)
      in configPrepareNotifications p
           (h\<lparr>ch_legacyNet := configBuildPath 256 (Some p) ''IPCONFIG.DAT'',
              ch_files := map (\<lambda>(i, f, cs). configMove (mem i) (Some (configBuildPath 256 (Some p) f)) cs)
                            (zip [0..<5] (zip configFilenames (ch_files h))),
              ch_cfgHomePath := bounded 256 p\<rparr>))"

definition configEnd :: "config_home \<Rightarrow> config_home" where
  "configEnd h = h\<lparr>ch_files := map (\<lambda>cs. (configClear cs)\<lparr>filename := None\<rparr>) (ch_files h)\<rparr>"

section \<open>Siblings of a built path\<close>

definition plain_name :: "cstring \<Rightarrow> bool" where
  "plain_name f \<longleftrightarrow> CHR ''/'' \<notin> set f \<and> CHR '':'' \<notin> set f"

lemma dir_end_other:
  assumes "strrchr (D @ c # f) c' = Some i" "c' \<noteq> c" "c' \<notin> set f"
  shows "i < length D"
proof (rule ccontr)
  assume "\<not> i < length D"
  with strrchr_SomeD [OF assms(1)] have "(c # f) ! (i - length D) = c'" "i - length D < Suc (length f)"
    by (auto simp: nth_append)
  with assms(2,3) show False by (cases "i - length D") auto
qed

lemma dir_end_of:
  assumes "D \<noteq> []" "last D = CHR ''/'' \<or> last D = CHR '':''" "plain_name f"
  shows "configPathDirEnd (D @ f) = Some (length D - 1)"
proof -
  from assms(1) obtain D' c where D: "D = D' @ [c]" by (cases D rule: rev_cases) auto
  with assms(2) have c: "c = CHR ''/'' \<or> c = CHR '':''" by simp
  have hit: "strrchr (D' @ c # f) c = Some (length D')"
    using c assms(3) by (intro strrchr_append) (auto simp: plain_name_def)
  show ?thesis
  proof (cases "c = CHR '':''")
    case True
    have "strrchr (D' @ c # f) (CHR ''/'') = None \<or> the (strrchr (D' @ c # f) (CHR ''/'')) < length D'"
      using dir_end_other [of D' c f "CHR ''/''"] True assms(3)
      by (cases "strrchr (D' @ c # f) (CHR ''/'')") (auto simp: plain_name_def)
    with hit True show ?thesis by (auto simp: D configPathDirEnd_def Let_def)
  next
    case False
    with c have cs: "c = CHR ''/''" by simp
    have "strrchr (D' @ c # f) (CHR '':'') = None \<or> the (strrchr (D' @ c # f) (CHR '':'')) < length D'"
      using dir_end_other [of D' c f "CHR '':''"] cs assms(3)
      by (cases "strrchr (D' @ c # f) (CHR '':'')") (auto simp: plain_name_def)
    with hit cs show ?thesis by (auto simp: D configPathDirEnd_def Let_def)
  qed
qed

lemma built_path:
  "\<exists>D. (\<forall>f. configBuildPath n (Some p) f = bounded n (D @ f)) \<and> length D \<le> Suc (length p)
    \<and> (D = [] \<or> last D = CHR ''/'' \<or> last D = CHR '':'')"
proof -
  let ?D = "if p = [] then [] else if last p = CHR ''/'' \<or> last p = CHR '':'' then p else p @ ''/''"
  have "configBuildPath n (Some p) f = bounded n (?D @ f)" for f
    by (simp add: configBuildPath_def)
  then show ?thesis by (intro exI [of _ ?D]) simp
qed

lemma dir_end_built:
  assumes "D = [] \<or> last D = CHR ''/'' \<or> last D = CHR '':''" "plain_name f"
  shows "(case configPathDirEnd (D @ f) of Some d \<Rightarrow> d + 1 | None \<Rightarrow> 0) = length D"
proof (cases "D = []")
  case True
  with assms(2) show ?thesis by (simp add: configPathDirEnd_def plain_name_def Let_def)
next
  case False
  with assms dir_end_of [OF False _ assms(2)] show ?thesis by simp
qed

lemma take_dir:
  "(case x of Some d \<Rightarrow> take (d + 1) s @ name | None \<Rightarrow> name) = take (case x of Some d \<Rightarrow> d + 1 | None \<Rightarrow> 0) s @ name"
  by (cases x) simp_all

lemma sibling_built:
  assumes "plain_name f" "length p + length f + 2 \<le> 256" "length p + length g + 2 \<le> 256"
  shows "configBuildSiblingPath (configBuildPath 256 (Some p) f) g 256 = configBuildPath 256 (Some p) g"
proof -
  obtain D where D: "\<And>h. configBuildPath 256 (Some p) h = bounded 256 (D @ h)" "length D \<le> Suc (length p)"
    "D = [] \<or> last D = CHR ''/'' \<or> last D = CHR '':''"
    using built_path [of 256 p] by blast
  have fg: "configBuildPath 256 (Some p) f = D @ f" "configBuildPath 256 (Some p) g = D @ g"
    using D(1,2) assms(2,3) by simp_all
  show ?thesis
    unfolding fg configBuildSiblingPath_def take_dir dir_end_built [OF D(3) assms(1)]
    using D(2) assms(3) by simp
qed

text \<open>
  The fallback names of a settings file are looked for beside it, in every kind of home: under a
  directory, a directory with a trailing slash, or a bare device root such as \<open>mass0:\<close>. The sibling
  of a path built for one name is the path built for the other, and the counterpart of the other
  loader is the one its table names.
\<close>

theorem fallback_paths_beside:
  assumes "plain_name f" "length p + length f + 2 \<le> 256" "length p + length g + 2 \<le> 256"
  shows "configBuildSiblingPath (configBuildPath 256 (Some p) f) g 256 = configBuildPath 256 (Some p) g
    \<and> ((f, g) \<in> set wopl_names \<longrightarrow>
        configBuildWoplPath (Some (configBuildPath 256 (Some p) f)) 256 = Some (configBuildPath 256 (Some p) g))"
proof -
  obtain D where D: "\<And>h. configBuildPath 256 (Some p) h = bounded 256 (D @ h)" "length D \<le> Suc (length p)"
    "D = [] \<or> last D = CHR ''/'' \<or> last D = CHR '':''"
    using built_path [of 256 p] by blast
  have f: "configBuildPath 256 (Some p) f = D @ f" and g: "configBuildPath 256 (Some p) g = D @ g"
    using D(1,2) assms(2,3) by simp_all
  note d = dir_end_built [OF D(3) assms(1)]
  have "configBuildWoplPath (Some (D @ f)) 256 = Some (D @ g)" if "(f, g) \<in> set wopl_names"
  proof -
    have "find (\<lambda>e. f = fst e) wopl_names = Some (f, g)" using that by (auto simp: wopl_names_def)
    then show ?thesis
      unfolding configBuildWoplPath_def option.case d Let_def using D(2) assms(3) by simp
  qed
  then show ?thesis using sibling_built [OF assms] by (simp only: f g) simp
qed

theorem fallback_paths_beside_witness:
  "configBuildSiblingPath (configBuildPath 256 (Some ''mass0:'') ''settings_riptopl.cfg'') ''conf_riptopl.cfg'' 256
     = ''mass0:conf_riptopl.cfg''"
proof -
  have "configBuildPath 256 (Some ''mass0:'') ''conf_riptopl.cfg'' = ''mass0:conf_riptopl.cfg''"
    by (simp add: configBuildPath_def)
  then show ?thesis
    using fallback_paths_beside [of "''settings_riptopl.cfg''" "''mass0:''" "''conf_riptopl.cfg''"]
    by (simp add: plain_name_def)
qed

end
