(* ===== verification/BufferedRead.thy ===== *)
theory BufferedRead
  imports FileBuffer
begin

text \<open>
  The line reader of \<open>src/util.c\<close> on a file: the buffer is refilled from the descriptor whenever no
  line feed is left in it. For files whose lines fit the buffer the refills are invisible: the
  lines are those of the text, as when the whole text is in memory.
\<close>

section \<open>One pass of the loop\<close>

text \<open>The text the reader has not consumed: the rest of the buffer and the rest of the file.\<close>

definition kept :: "file_buffer \<Rightarrow> cstring" where
  "kept fb = (case fb_lastPtr fb of Some q \<Rightarrow> drop q (fb_data fb) | None \<Rightarrow> [])"

definition rest_of :: "file_buffer \<Rightarrow> cstring" where
  "rest_of fb = (case fb_fd fb of FdOpen r \<Rightarrow> r | _ \<Rightarrow> [])"

definition unread :: "file_buffer \<Rightarrow> cstring" where
  "unread fb = kept fb @ rest_of fb"

definition buffer_ok :: "file_buffer \<Rightarrow> bool" where
  "buffer_ok fb \<longleftrightarrow> fb_fd fb \<noteq> FdFail \<and> 2 \<le> fb_size fb \<and> NUL \<notin> set (fb_data fb) \<and> NUL \<notin> set (rest_of fb)"

text \<open>The refilled buffer: as many bytes as fit, and the descriptor closed on a short read.\<close>

definition refill :: "file_buffer \<Rightarrow> file_buffer" where
  "refill fb =
     (let len = fb_size fb - length (kept fb) - 1; data = kept fb @ take len (rest_of fb)
      in fb\<lparr>fb_data := data, fb_lastPtr := Some 0,
            fb_fd := (case fb_fd fb of
                        FdOpen r \<Rightarrow> if fb_size fb \<noteq> length data + 1 then FdClosed else FdOpen (drop len r)
                      | _ \<Rightarrow> FdClosed)\<rparr>)"

lemma read_iter_refill:
  assumes "LF \<notin> set (kept fb)" "fb_lastPtr fb = None \<longrightarrow> ls = 0" "fb_fd fb \<noteq> FdFail"
  shows "read_iter fb ls = read_finish (refill fb) 0 (length (fb_data (refill fb)))
    (lf_from (length (kept fb)) (fb_data (refill fb)))"
proof -
  have pos: "(case fb_lastPtr fb of Some q \<Rightarrow> lf_from q (fb_data fb) | None \<Rightarrow> None) = None"
    using assms(1) by (auto simp: kept_def lf_from_none split: option.splits)
  have no: "\<not> ((case fb_lastPtr fb of Some q \<Rightarrow> length (fb_data fb) - q | None \<Rightarrow> ls) \<noteq> 0 \<and> fb_lastPtr fb = None)"
    using assms(2) by auto
  have nolf: "lf_from (length (kept fb)) (kept fb) = None" by (simp add: lf_from_none)
  have closed: "refill fb = fb\<lparr>fb_data := kept fb, fb_lastPtr := Some 0\<rparr>" if "fb_fd fb = FdClosed"
    using that by (cases fb) (simp add: refill_def rest_of_def)
  show ?thesis
  proof (cases "fb_fd fb = FdClosed")
    case True
    then show ?thesis
      unfolding read_iter_def Let_def pos option.case if_not_P [OF no] closed [OF True]
      using nolf by (simp add: kept_def [symmetric])
  next
    case False
    then show ?thesis
      unfolding read_iter_def Let_def pos option.case if_not_P [OF no]
      using assms(3) by (cases "fb_fd fb") (simp_all add: refill_def rest_of_def Let_def kept_def [symmetric])
  qed
qed

lemma refill_text:
  assumes "fb_fd fb \<noteq> FdFail" "length (kept fb) < fb_size fb"
  shows "fb_data (refill fb) @ rest_of (refill fb) = unread fb"
proof (cases "fb_fd fb")
  case (FdOpen r)
  let ?len = "fb_size fb - length (kept fb) - 1"
  have "length r < ?len \<Longrightarrow> drop ?len r = []" by simp
  moreover have "fb_size fb \<noteq> length (kept fb @ take ?len r) + 1 \<longleftrightarrow> length r < ?len"
    using assms(2) by auto
  ultimately show ?thesis
    using FdOpen by (auto simp: refill_def rest_of_def unread_def Let_def)
qed (use assms in \<open>simp_all add: refill_def rest_of_def unread_def\<close>)

lemma refill_ok: "buffer_ok fb \<Longrightarrow> buffer_ok (refill fb)"
  by (auto simp: buffer_ok_def refill_def rest_of_def kept_def Let_def
      split: read_fd.splits option.splits dest: in_set_takeD in_set_dropD)

lemma read_finish_pos:
  assumes "fb_data fb = l @ LF # d" "NUL \<notin> set l"
  shows "read_finish fb 0 ls (Some (length l)) =
    (let nxt = fb\<lparr>fb_lastPtr := Some (Suc (length l))\<rparr>
     in if comment_line l then RdSkip nxt (length (strip_cr l)) else RdLine nxt (strip_cr l))"
proof -
  have "NUL \<notin> set (strip_cr l)" using assms(2) set_strip_cr [of l] by auto
  then show ?thesis
    using assms strip_cr_comment [of l] by (auto simp: read_finish_def Let_def comment_line_def)
qed

lemma read_finish_none:
  assumes "fb_data fb = l" "l \<noteq> []" "NUL \<notin> set l"
  shows "read_finish fb 0 (length l) None =
    (let nxt = fb\<lparr>fb_lastPtr := None\<rparr>
     in if comment_line l then RdSkip nxt (length (strip_cr l)) else RdLine nxt (strip_cr l))"
proof -
  have "NUL \<notin> set (strip_cr l)" using assms(3) set_strip_cr [of l] by auto
  then show ?thesis
    using assms strip_cr_comment [of l] by (auto simp: read_finish_def Let_def comment_line_def)
qed

text \<open>The three kinds of pass: a whole line, the last line without a line feed, the end.\<close>

definition line_step :: "file_buffer \<Rightarrow> cstring \<Rightarrow> rd_step" where
  "line_step nxt l = (if comment_line l then RdSkip nxt (length (strip_cr l)) else RdLine nxt (strip_cr l))"

lemma step_line:
  assumes "buffer_ok fb" "unread fb = l @ LF # r" "LF \<notin> set l" "length l + 2 \<le> fb_size fb"
    and "fb_lastPtr fb = None \<longrightarrow> ls = 0"
  shows "\<exists>fb'. read_iter fb ls = line_step fb' l \<and> unread fb' = r \<and> buffer_ok fb'
    \<and> fb_lastPtr fb' \<noteq> None \<and> fb_size fb' = fb_size fb"
proof (cases "LF \<in> set (kept fb)")
  case True
  then obtain q where q: "fb_lastPtr fb = Some q" by (cases "fb_lastPtr fb") (auto simp: kept_def)
  from True obtain l' r' where k: "kept fb = l' @ LF # r'" "LF \<notin> set l'" by (metis split_list_first)
  then have "l' @ LF # (r' @ rest_of fb) = l @ LF # r" using assms(2) by (simp add: unread_def)
  then have l: "l' = l" "r' @ rest_of fb = r"
    using first_split [OF k(2) assms(3)] by blast+
  have d: "drop q (fb_data fb) = l @ LF # r'" using q k l by (simp add: kept_def)
  let ?f = "fb\<lparr>fb_lastPtr := Some (q + length l + 1)\<rparr>"
  have "drop (q + length l + 1) (fb_data fb) = drop (length l + 1) (drop q (fb_data fb))"
    by (simp add: drop_drop add.commute add.left_commute)
  then have "kept ?f = r'" using d by (simp add: kept_def)
  then have u: "unread ?f = r" using l(2) by (simp add: unread_def rest_of_def)
  have "read_iter fb ls = line_step ?f l"
    using read_iter_line [OF q d assms(3)] assms(1) by (simp add: line_step_def buffer_ok_def Let_def)
  moreover have "buffer_ok ?f" using assms(1) by (simp add: buffer_ok_def rest_of_def)
  ultimately show ?thesis using u by (intro exI [of _ ?f]) simp
next
  case False
  from assms(1) have nf: "fb_fd fb \<noteq> FdFail" by (simp add: buffer_ok_def)
  have pre: "\<exists>l'. l = kept fb @ l' \<and> rest_of fb = l' @ LF # r"
  proof -
    from assms(2) have "kept fb @ rest_of fb = l @ LF # r" by (simp add: unread_def)
    then consider us where "kept fb = l @ us" "us @ rest_of fb = LF # r" | us where "kept fb @ us = l" "rest_of fb = us @ LF # r"
      by (auto simp: append_eq_append_conv2)
    then show ?thesis
    proof cases
      case 1
      with False show ?thesis by (cases us) auto
    qed auto
  qed
  then obtain l' where l': "l = kept fb @ l'" "rest_of fb = l' @ LF # r" by blast
  let ?len = "fb_size fb - length (kept fb) - 1"
  have "take ?len (l' @ LF # r) = l' @ LF # take (?len - length l' - 1) r"
    using assms(4) l'(1) by (simp add: take_Cons')
  then have data: "fb_data (refill fb) = l @ LF # take (?len - length l' - 1) r"
    using l' by (simp add: refill_def Let_def)
  have "lf_from (length (kept fb)) (fb_data (refill fb)) = Some (length (kept fb) + length l')"
  proof (rule lf_from_line)
    show "drop (length (kept fb)) (fb_data (refill fb)) = l' @ LF # take (?len - length l' - 1) r"
      by (simp add: data l'(1))
    show "LF \<notin> set l'" using assms(3) l'(1) by simp
    show "NUL \<notin> set (fb_data (refill fb))" using refill_ok [OF assms(1)] by (simp add: buffer_ok_def)
  qed
  then have pos: "lf_from (length (kept fb)) (fb_data (refill fb)) = Some (length l)" by (simp add: l'(1))
  let ?f = "(refill fb)\<lparr>fb_lastPtr := Some (Suc (length l))\<rparr>"
  have nul: "NUL \<notin> set l" using refill_ok [OF assms(1)] data by (simp add: buffer_ok_def)
  have "read_iter fb ls = line_step ?f l"
    using read_finish_pos [OF data nul] read_iter_refill [OF False assms(5) nf] pos
    by (simp add: line_step_def Let_def)
  moreover have "unread ?f = r"
  proof -
    have "length (kept fb) < fb_size fb" using assms(4) l'(1) by simp
    from refill_text [OF nf this] have "fb_data (refill fb) @ rest_of (refill fb) = l @ LF # r" using assms(2) by simp
    then show ?thesis using data by (simp add: unread_def kept_def rest_of_def)
  qed
  moreover have "buffer_ok ?f" using refill_ok [OF assms(1)] by (simp add: buffer_ok_def rest_of_def)
  moreover have "fb_size ?f = fb_size fb" by (simp add: refill_def Let_def)
  ultimately show ?thesis by (intro exI [of _ ?f]) simp
qed

lemma step_last:
  assumes "buffer_ok fb" "unread fb = l" "l \<noteq> []" "LF \<notin> set l" "length l < fb_size fb"
    and "fb_lastPtr fb = None \<longrightarrow> ls = 0"
  shows "\<exists>fb'. read_iter fb ls = line_step fb' l \<and> unread fb' = [] \<and> buffer_ok fb'
    \<and> fb_lastPtr fb' = None \<and> fb_size fb' = fb_size fb"
proof -
  from assms(1) have nf: "fb_fd fb \<noteq> FdFail" by (simp add: buffer_ok_def)
  have lf: "LF \<notin> set (kept fb)" "LF \<notin> set (rest_of fb)" using assms(2,4) by (auto simp: unread_def)
  have data: "fb_data (refill fb) = l" using assms(2,5) by (auto simp: refill_def unread_def Let_def)
  have "length (kept fb) < fb_size fb" using assms(2,5) by (auto simp: unread_def)
  from refill_text [OF nf this] have rest: "rest_of (refill fb) = []" using assms(2) data by simp
  have pos: "lf_from (length (kept fb)) (fb_data (refill fb)) = None"
    using assms(4) data by (intro lf_from_none) (auto dest: in_set_dropD)
  have nul: "NUL \<notin> set l" using refill_ok [OF assms(1)] data by (simp add: buffer_ok_def)
  let ?f = "(refill fb)\<lparr>fb_lastPtr := None\<rparr>"
  have "read_iter fb ls = line_step ?f l"
    using read_finish_none [OF data assms(3) nul] read_iter_refill [OF lf(1) assms(6) nf] pos data
    by (simp add: line_step_def Let_def)
  moreover have "unread ?f = []" using rest by (simp add: unread_def kept_def rest_of_def)
  moreover have "buffer_ok ?f" using refill_ok [OF assms(1)] by (simp add: buffer_ok_def rest_of_def)
  moreover have "fb_size ?f = fb_size fb" by (simp add: refill_def Let_def)
  ultimately show ?thesis by (intro exI [of _ ?f]) simp
qed

lemma step_end:
  assumes "buffer_ok fb" "unread fb = []" "fb_lastPtr fb = None \<longrightarrow> ls = 0"
  shows "read_iter fb ls = RdEnd"
proof -
  from assms(1) have nf: "fb_fd fb \<noteq> FdFail" and sz: "2 \<le> fb_size fb" by (simp_all add: buffer_ok_def)
  have k: "kept fb = []" "rest_of fb = []" using assms(2) by (simp_all add: unread_def)
  then have "fb_data (refill fb) = []" "fb_fd (refill fb) = FdClosed"
    using sz by (auto simp: refill_def Let_def split: read_fd.splits)
  moreover have "lf_from 0 [] = None" by (simp add: lf_from_none)
  ultimately show ?thesis
    using read_iter_refill [of fb ls] assms(3) nf k by (simp add: read_finish_def strip_cr_def Let_def)
qed

lemma step_open_comment: "fb_lastPtr fb = None \<Longrightarrow> ls \<noteq> 0 \<Longrightarrow> read_iter fb ls = RdFault"
  by (simp add: read_iter_def Let_def)

section \<open>The whole file\<close>

definition lines_fit :: "nat \<Rightarrow> cstring \<Rightarrow> bool" where
  "lines_fit sz t \<longleftrightarrow> list_all (\<lambda>l. length l + 2 \<le> sz) (text_lines t)"

lemma read_all_buffered:
  assumes "buffer_ok fb" "unread fb = t" "lines_fit (fb_size fb) t"
    and "fb_lastPtr fb = None \<longrightarrow> ls = 0" "Suc (length t) < fuel"
  shows "read_all fuel fb ls = Some (if open_comment t then Inl () else Inr (kept_lines t))"
  using assms
proof (induction fuel arbitrary: fb t ls)
  case 0
  then show ?case by simp
next
  case (Suc fuel)
  obtain f where f: "fuel = Suc f" using Suc.prems(5) by (cases fuel) auto
  show ?case
  proof (cases t rule: text_cases)
    case Nil
    with Suc.prems step_end [of fb ls] show ?thesis by (simp add: open_comment_def kept_lines_def)
  next
    case Last
    with Suc.prems have "length t < fb_size fb" by (simp add: lines_fit_def text_lines_last)
    with step_last [OF Suc.prems(1,2) Last _ Suc.prems(4)] obtain fb' where
      it: "read_iter fb ls = line_step fb' t" and fb': "unread fb' = []" "buffer_ok fb'" "fb_lastPtr fb' = None" by blast
    have "last t \<noteq> LF" using Last by (metis last_in_set)
    with Last have oc: "open_comment t \<longleftrightarrow> comment_line t" by (simp add: open_comment_def text_lines_last)
    have "comment_line t \<Longrightarrow> length (strip_cr t) \<noteq> 0"
      using strip_cr_comment [of t] by (auto simp: comment_line_def)
    then show ?thesis
      using it oc Last f step_open_comment [OF fb'(3)] step_end [OF fb'(2,1), of 0]
      by (simp add: line_step_def kept_lines_def text_lines_last strip_cr_comment)
  next
    case (Line l r)
    with Suc.prems have fit: "length l + 2 \<le> fb_size fb" "lines_fit (fb_size fb) r"
      by (simp_all add: lines_fit_def text_lines_LF)
    with step_line [OF Suc.prems(1) _ Line(2) _ Suc.prems(4)] Suc.prems(2) Line(1) obtain fb' where
      it: "read_iter fb ls = line_step fb' l" and fb': "buffer_ok fb'" "unread fb' = r" "fb_lastPtr fb' \<noteq> None"
        "fb_size fb' = fb_size fb" by metis
    have "read_all fuel fb' ls' = Some (if open_comment r then Inl () else Inr (kept_lines r))" for ls'
      using Suc.prems(5) Line(1) fit fb' by (intro Suc.IH) auto
    then show ?thesis
      using it Line by (simp add: line_step_def open_comment_LF kept_lines_LF)
  qed
qed

definition without_bom :: "cstring \<Rightarrow> cstring" where
  "without_bom content = (if take 3 content = utf8_bom then drop 3 content else content)"

lemma lines_of_file:
  assumes "NUL \<notin> set content" "lines_fit sz (without_bom content)" "2 \<le> sz" "length content + 2 \<le> fuel"
  shows "read_all fuel (openFileBuffer_read sz content) 0 =
    Some (if open_comment (without_bom content) then Inl () else Inr (kept_lines (without_bom content)))"
proof (rule read_all_buffered)
  have "NUL \<notin> set (without_bom content)" using assms(1) by (auto simp: without_bom_def dest: in_set_dropD)
  with assms(3) show "buffer_ok (openFileBuffer_read sz content)"
    by (simp add: buffer_ok_def openFileBuffer_read_def rest_of_def without_bom_def)
  show "Suc (length (without_bom content)) < fuel" using assms(4) by (auto simp: without_bom_def)
qed (use assms in \<open>simp_all add: openFileBuffer_read_def unread_def kept_def rest_of_def without_bom_def\<close>)

text \<open>
  C34: reading a file through a buffer of any size its lines fit into gives the same lines as reading
  the whole text, without its byte-order mark, from memory: a refill never splits, repeats or drops
  a line, and the loop ends.
\<close>

theorem readFileBuffer_refill_invisible:
  assumes "NUL \<notin> set content" "lines_fit sz (without_bom content)" "2 \<le> sz"
  shows "read_all (length content + 2) (openFileBuffer_read sz content) 0 =
    read_all (length (without_bom content) + 2) (openFileBufferBuffer (without_bom content)) 0"
proof -
  have nul: "NUL \<notin> set (without_bom content)" using assms(1) by (auto simp: without_bom_def dest: in_set_dropD)
  show ?thesis by (simp only: lines_of_file [OF assms le_refl] lines_of_memory [OF nul])
qed

theorem readFileBuffer_refill_invisible_witness:
  "read_all (length two_lines + 2) (openFileBuffer_read 16 two_lines) 0 =
    read_all (length (without_bom two_lines) + 2) (openFileBufferBuffer (without_bom two_lines)) 0"
proof (rule readFileBuffer_refill_invisible)
  have "without_bom two_lines = two_lines" by (simp add: without_bom_def utf8_bom_def two_lines_def)
  moreover have "lines_fit 16 two_lines" by code_simp
  ultimately show "lines_fit 16 (without_bom two_lines)" by simp
qed (simp_all add: two_lines_def)

end
