(* ===== verification/ConfigIO.thy ===== *)
theory ConfigIO
  imports ConfigLibconfig ConfigPaths BufferedRead
begin

text \<open>
  Loading and saving a set: \<open>configRead\<close> with its chain of fallback names and \<open>configWrite\<close> with the
  snapshot, the read-back check and the restore (\<open>src/config.c\<close>).

  The devices are arguments. \<open>probe\<close> is what opening a path for reading and the calls on the
  descriptor return, in the order the code makes them; \<open>write_env\<close> is the same for one save. The
  text a failed save leaves on the device is an argument as well, so nothing is assumed of a device
  that reports an error.
\<close>

section \<open>Opening for reading\<close>

record probe =
  pr_content :: "cstring option"
  pr_errno :: int
  pr_size :: int
  pr_mem :: bool
  pr_read :: nat
  pr_fb_mem :: bool
  pr_retry :: "cstring option"

type_synonym read_dev = "cstring option \<Rightarrow> probe"

text \<open>The file buffer, if any, and \<open>*missing\<close>.\<close>

definition configOpenSingleShot :: "probe \<Rightarrow> cstring option \<Rightarrow> file_buffer option \<times> bool" where
  "configOpenSingleShot pr path =
     (case path of
        None \<Rightarrow> (None, False)
      | Some p \<Rightarrow>
          (case pr_content pr of
             None \<Rightarrow> (None, configOpenFailureIsAbsent path (pr_errno pr))
           | Some c \<Rightarrow>
               let sz = pr_size pr in
               if sz \<le> 0 \<or> sz > 4096 then (None, False)
               else if \<not> pr_mem pr then (None, False)
               else
                 let buf = take (min (pr_read pr) (nat sz)) c in
                 if int (length buf) \<noteq> sz then (None, False)
                 else (if pr_fb_mem pr
                       then Some (openFileBufferBuffer (if sz \<ge> 3 \<and> take 3 buf = utf8_bom then drop 3 buf else buf))
                       else None, False)))"

definition configOpenForRead :: "read_dev \<Rightarrow> cstring option \<Rightarrow> file_buffer option" where
  "configOpenForRead dev path =
     (case configOpenSingleShot (dev path) path of
        (Some fb, _) \<Rightarrow> Some fb
      | (None, missing) \<Rightarrow> if missing then None else map_option (openFileBuffer_read 4096) (pr_retry (dev path)))"

definition configOpenCarryOver :: "read_dev \<Rightarrow> cstring \<Rightarrow> cstring \<Rightarrow> file_buffer option" where
  "configOpenCarryOver dev carryDir name = configOpenForRead dev (Some (bounded 256 (carryDir @ name)))"

section \<open>Loading a set\<close>

abbreviation "CONFIG_OPL \<equiv> (1::nat)"

text \<open>
  The fallback chain: the file buffer the set is read from, the set with the name it then has, and
  whether the buffer is the carried-over master file. \<open>index\<close> is \<open>configGlobalIndex\<close>.
\<close>

definition config_source ::
  "read_dev \<Rightarrow> cstring \<Rightarrow> nat option \<Rightarrow> bool \<Rightarrow> config_set \<Rightarrow> file_buffer option \<times> config_set \<times> bool" where
  "config_source dev carryDir index mem_name cs =
     (let own = configOpenForRead dev (filename cs);
          (fb2, cs2) =
            (if own = None \<and> filename cs \<noteq> None then
               (case configBuildWoplPath (filename cs) 256 of
                  Some w \<Rightarrow>
                    (case configOpenForRead dev (Some w) of
                       Some fb \<Rightarrow> (Some fb, configMove mem_name (Some w) cs)
                     | None \<Rightarrow> (None, cs))
                | None \<Rightarrow> (None, cs))
             else (own, cs));
          fb3 = (if fb2 = None \<and> carryDir \<noteq> [] \<and> cs_type cs \<noteq> CONFIG_OPL then
                   (case index of Some i \<Rightarrow> configOpenCarryOver dev carryDir (configFilenames ! i) | None \<Rightarrow> None)
                 else fb2);
          fb4 = (if fb3 = None \<and> cs_type cs = CONFIG_OPL \<and> filename cs2 \<noteq> None then
                   configOpenForRead dev (Some (configBuildLegacyOplPath (the (filename cs2)) 256))
                 else fb3)
      in if fb4 = None \<and> cs_type cs = CONFIG_OPL \<and> filename cs2 \<noteq> None \<and> carryDir \<noteq> [] then
           let a = configOpenCarryOver dev carryDir CONFIG_OPL_FILENAME;
               b = (if a = None then configOpenCarryOver dev carryDir CONFIG_OPL_FILENAME_LEGACY else a)
           in (b, cs2, b \<noteq> None)
         else (fb4, cs2, False))"

text \<open>
  The set, the result and \<open>configOplCarryOver\<close> afterwards; \<open>Inl\<close> is the reader's null pointer, \<open>None\<close>
  that the line loop ran out of fuel.
\<close>

definition configRead ::
  "nat \<Rightarrow> (nat \<Rightarrow> bool) \<Rightarrow> bool \<Rightarrow> read_dev \<Rightarrow> cstring \<Rightarrow> nat option \<Rightarrow> config_set option \<Rightarrow> bool
    \<Rightarrow> (unit + config_set option \<times> bool \<times> bool) option" where
  "configRead fuel mem mem_name dev carryDir index configSet oplCarry =
     (case configSet of
        None \<Rightarrow> Some (Inr (None, False, oplCarry))
      | Some cs \<Rightarrow>
          let carry0 = (if cs_type cs = CONFIG_OPL then False else oplCarry) in
          if configPathIsRawApa (filename cs) then Some (Inr (Some cs, False, carry0))
          else
            (case config_source dev carryDir index mem_name cs of
               (None, cs', _) \<Rightarrow> Some (Inr (Some (cs'\<lparr>modified := False\<rparr>), False, carry0))
             | (Some fb, cs', fromCarry) \<Rightarrow>
                 map_option
                   (map_sum id (\<lambda>lines. case configReadFileBuffer mem lines cs' of
                      (c, r) \<Rightarrow> (Some c, r, if fromCarry \<and> r then True else carry0)))
                   (read_all fuel fb 0)))"

section \<open>Saving a set\<close>

text \<open>
  One save: the answers of \<open>fileXioGetStat\<close>, of the snapshot read, of the two allocations and the open
  of the file buffer, of the writes and the close, of the read-back and of the restore. \<open>we_failed\<close>
  is what the file holds once a failed close returned.
\<close>

record write_env =
  we_stat :: bool
  we_snap_open :: bool
  we_snap_size :: int
  we_snap_mem :: bool
  we_snap_read :: cstring
  we_fb_mem :: bool
  we_open :: bool
  we_open_errno :: int
  we_wr :: "nat \<Rightarrow> nat \<Rightarrow> int \<times> int"
  we_close :: "int \<times> int"
  we_intend_mem :: bool
  we_failed :: cstring
  we_verify_open :: bool
  we_verify_mem :: bool
  we_verify_short :: bool
  we_cur_open :: bool
  we_restore_open :: bool
  we_restore_count :: nat

record save_result =
  sr_set :: config_set
  sr_ret :: bool
  sr_content :: "cstring option"
  sr_errno :: int

abbreviation "CONFIG_MAX_RESTORE_BYTES \<equiv> (256 * 1024 :: int)"

definition take_snapshot :: "write_env \<Rightarrow> bool \<Rightarrow> cstring option" where
  "take_snapshot env singleOpenDevice =
     (if \<not> singleOpenDevice \<and> we_snap_open env \<and> 0 < we_snap_size env
         \<and> we_snap_size env \<le> CONFIG_MAX_RESTORE_BYTES \<and> we_snap_mem env
         \<and> int (length (we_snap_read env)) = we_snap_size env
      then Some (we_snap_read env) else None)"

definition single_open :: "cstring \<Rightarrow> bool" where
  "single_open f \<longleftrightarrow> strneq 2 f ''mc''"

definition is_pfs :: "cstring \<Rightarrow> bool" where
  "is_pfs f \<longleftrightarrow> strneq 3 f ''pfs''"

text \<open>The write buffer once every line is queued.\<close>

definition queued :: "write_env \<Rightarrow> config_set \<Rightarrow> write_buffer" where
  "queued env cs = write_chunks (we_wr env) (config_chunks cs) (openFileBuffer_write 4096)"

definition capture_intent :: "write_env \<Rightarrow> cstring \<Rightarrow> write_buffer \<Rightarrow> cstring option" where
  "capture_intent env f wb =
     (if \<not> single_open f \<and> \<not> is_pfs f \<and> 0 < length (wb_data wb) \<and> wb_totalQueued wb = length (wb_data wb)
         \<and> we_intend_mem env
      then Some (wb_data wb) else None)"

text \<open>The read-back of a failed save: the file has exactly the intended bytes.\<close>

definition read_back_verifies :: "write_env \<Rightarrow> cstring option \<Rightarrow> bool" where
  "read_back_verifies env intended \<longleftrightarrow>
     (case intended of
        None \<Rightarrow> False
      | Some t \<Rightarrow> we_verify_open env \<and> length (we_failed env) = length t \<and> we_verify_mem env
                  \<and> \<not> we_verify_short env \<and> we_failed env = t)"

text \<open>The restore of a failed save: only when the file is now shorter than the snapshot.\<close>

definition restore_file :: "write_env \<Rightarrow> cstring option \<Rightarrow> cstring option \<Rightarrow> cstring option" where
  "restore_file env original content =
     (case original of
        None \<Rightarrow> content
      | Some t \<Rightarrow>
          let curLen = (case content of Some c \<Rightarrow> if we_cur_open env then length c else 0 | None \<Rightarrow> 0) in
          if curLen < length t \<and> we_restore_open env then Some (take (we_restore_count env) t) else content)"

text \<open>\<open>configWrite\<close> on a set that has to be written, with a name: content is the file before.\<close>

definition save_file :: "write_env \<Rightarrow> config_set \<Rightarrow> cstring \<Rightarrow> cstring option \<Rightarrow> int \<Rightarrow> save_result" where
  "save_file env cs f content lastErrno =
     (let original = take_snapshot env (single_open f) in
      if \<not> we_fb_mem env then
        \<lparr>sr_set = cs, sr_ret = False, sr_content = restore_file env original content, sr_errno = ENOMEM\<rparr>
      else if \<not> we_open env then
        \<lparr>sr_set = cs, sr_ret = False, sr_content = restore_file env original content,
         sr_errno = (if we_open_errno env \<noteq> 0 then bdmFatfsOpenErrno (Some f) (we_open_errno env) else EIO)\<rparr>
      else
        let wb = queued env cs;
            intended = capture_intent env f wb
        in (case closeFileBuffer (we_wr env) (we_close env) wb of
              (device, None) \<Rightarrow>
                \<lparr>sr_set = cs\<lparr>modified := False\<rparr>, sr_ret = True, sr_content = Some device, sr_errno = lastErrno\<rparr>
            | (device, Some err) \<Rightarrow>
                if read_back_verifies env intended then
                  \<lparr>sr_set = cs\<lparr>modified := False\<rparr>, sr_ret = True, sr_content = Some (we_failed env), sr_errno = 0\<rparr>
                else
                  \<lparr>sr_set = cs, sr_ret = False, sr_content = restore_file env original (Some (we_failed env)),
                   sr_errno = err\<rparr>))"

definition configWrite :: "write_env \<Rightarrow> config_set option \<Rightarrow> cstring option \<Rightarrow> int \<Rightarrow> save_result option" where
  "configWrite env configSet content lastErrno =
     (case configSet of
        None \<Rightarrow> None
      | Some cs \<Rightarrow>
          let cs1 = (if \<not> modified cs \<and> filename cs \<noteq> None \<and> entries cs \<noteq> [] \<and> \<not> we_stat env
                     then cs\<lparr>modified := True\<rparr> else cs)
          in if \<not> modified cs1 then
               Some \<lparr>sr_set = cs1, sr_ret = True, sr_content = content, sr_errno = lastErrno\<rparr>
             else (case filename cs1 of
                     None \<Rightarrow> Some \<lparr>sr_set = cs1, sr_ret = False, sr_content = content, sr_errno = lastErrno\<rparr>
                   | Some f \<Rightarrow>
                       if configPathIsRawApa (Some f) then
                         Some \<lparr>sr_set = cs1, sr_ret = False, sr_content = content, sr_errno = EACCES\<rparr>
                       else Some (save_file env cs1 f content lastErrno)))"

section \<open>A successful save\<close>

lemma writeFileBuffer_queue:
  assumes "t = p @ wb_data wb" "wb_totalQueued wb = length t"
  shows "\<exists>p'. t @ c = p' @ wb_data (writeFileBuffer wr c wb) \<and> wb_totalQueued (writeFileBuffer wr c wb) = length (t @ c)"
proof -
  have d: "wb_totalQueued (device_write wr x w) = wb_totalQueued w" for x w
    by (simp add: device_write_def case_prod_beta)
  show ?thesis
    using assms by (simp add: writeFileBuffer_def Let_def d)
qed

lemma write_chunks_queue:
  assumes "t = p @ wb_data wb" "wb_totalQueued wb = length t"
  shows "\<exists>p'. t @ concat cs = p' @ wb_data (write_chunks wr cs wb)
    \<and> wb_totalQueued (write_chunks wr cs wb) = length (t @ concat cs)"
  using assms
proof (induction cs arbitrary: t p wb)
  case Nil
  then show ?case by (auto simp: write_chunks_def)
next
  case (Cons c cs)
  from writeFileBuffer_queue [OF Cons.prems, of c wr] obtain p' where
    "t @ c = p' @ wb_data (writeFileBuffer wr c wb)" "wb_totalQueued (writeFileBuffer wr c wb) = length (t @ c)" by blast
  from Cons.IH [OF this] show ?case by (simp add: write_chunks_def)
qed

text \<open>A capture of the intent is the whole text.\<close>

lemma capture_is_whole:
  assumes "capture_intent env f (queued env cs) = Some t"
  shows "t = concat (config_chunks cs)"
proof -
  obtain p' where p': "concat (config_chunks cs) = p' @ wb_data (queued env cs)"
      "wb_totalQueued (queued env cs) = length (concat (config_chunks cs))"
    using write_chunks_queue [of "[]" "[]" "openFileBuffer_write 4096" "config_chunks cs" "we_wr env"]
    by (auto simp: queued_def openFileBuffer_write_def)
  from assms have "t = wb_data (queued env cs)" "wb_totalQueued (queued env cs) = length (wb_data (queued env cs))"
    by (auto simp: capture_intent_def split: if_splits)
  with p' show ?thesis by simp
qed

lemma save_file_success:
  assumes "sr_ret (save_file env cs f content e)"
  shows "sr_content (save_file env cs f content e) = Some (concat (config_chunks cs))"
    "sr_set (save_file env cs f content e) = cs\<lparr>modified := False\<rparr>"
proof -
  let ?wb = "queued env cs"
  from assms have io: "we_fb_mem env" "we_open env" by (auto simp: save_file_def Let_def split: if_splits)
  obtain device res where c: "closeFileBuffer (we_wr env) (we_close env) ?wb = (device, res)"
    by (metis surj_pair)
  have "sr_content (save_file env cs f content e) = Some (concat (config_chunks cs))
    \<and> sr_set (save_file env cs f content e) = cs\<lparr>modified := False\<rparr>"
  proof (cases res)
    case None
    with c io show ?thesis by (simp add: save_file_def Let_def close_complete [OF c [unfolded None queued_def]])
  next
    case (Some err)
    with assms c io have v: "read_back_verifies env (capture_intent env f ?wb)"
      by (simp add: save_file_def Let_def split: if_splits)
    then obtain t where "capture_intent env f ?wb = Some t" "we_failed env = t"
      by (auto simp: read_back_verifies_def split: option.splits)
    with v c io Some show ?thesis by (simp add: save_file_def Let_def capture_is_whole)
  qed
  then show "sr_content (save_file env cs f content e) = Some (concat (config_chunks cs))"
    "sr_set (save_file env cs f content e) = cs\<lparr>modified := False\<rparr>" by simp_all
qed

lemma configWrite_cases:
  assumes "configWrite env (Some cs) content e = Some r"
  obtains (unmodified) "\<not> modified cs" "sr_set r = cs" "sr_ret r" "sr_content r = content"
  | (refused) "sr_set r = cs\<lparr>modified := True\<rparr>" "\<not> sr_ret r" "sr_content r = content"
      "filename cs = None \<or> configPathIsRawApa (filename cs)"
  | (saved) f where "filename cs = Some f" "\<not> configPathIsRawApa (filename cs)" "r = save_file env (cs\<lparr>modified := True\<rparr>) f content e"
proof -
  have m: "modified cs \<Longrightarrow> cs\<lparr>modified := True\<rparr> = cs" by (cases cs) simp
  show ?thesis
    using assms that m by (cases "modified cs"; cases "filename cs") (auto simp: configWrite_def Let_def split: if_splits)
qed

lemma configWrite_total: "\<exists>r. configWrite env (Some cs) content e = Some r"
  by (auto simp: configWrite_def Let_def split: option.split)

lemma config_chunks_modified [simp]: "config_chunks (cs\<lparr>modified := b\<rparr>) = config_chunks cs"
  by (simp add: config_chunks_def cfgWriteLibconfig_def cfgWriteLegacy_def split: cfg_format.split)

lemma saved_content:
  assumes "configWrite env (Some cs) content e = Some r" "modified cs" "sr_ret r"
  shows "sr_content r = Some (concat (config_chunks cs)) \<and> sr_set r = cs\<lparr>modified := False\<rparr>"
  using assms(1)
proof (cases rule: configWrite_cases)
  case (saved f)
  with assms(3) save_file_success [of env "cs\<lparr>modified := True\<rparr>" f content e] show ?thesis by simp
qed (use assms in auto)

text \<open>
  C2: when \<open>configWrite\<close> reports that a modified set was saved, the file holds exactly the text of the
  set, whether the close reported success or the read-back proved it after a failed close, and the
  set is clean. No device behaviour is assumed.
\<close>

theorem configWrite_success_persisted:
  assumes "configWrite env (Some cs) content e = Some r" "modified cs" "sr_ret r"
  shows "sr_content r = Some (concat (config_chunks cs)) \<and> sr_set r = cs\<lparr>modified := False\<rparr>"
  using assms by (rule saved_content)

definition clean_env :: write_env where
  "clean_env = \<lparr>we_stat = True, we_snap_open = True, we_snap_size = 4, we_snap_mem = True, we_snap_read = ''a=1'' @ [LF],
     we_fb_mem = True, we_open = True, we_open_errno = 0, we_wr = (\<lambda>_ n. (int n, 0)), we_close = (0, 0),
     we_intend_mem = True, we_failed = [], we_verify_open = True, we_verify_mem = True, we_verify_short = False,
     we_cur_open = True, we_restore_open = True, we_restore_count = 4\<rparr>"

definition dirty_set :: config_set where
  "dirty_set = sample_set\<lparr>modified := True, filename := Some ''mass0:OPL/conf_game.cfg''\<rparr>"

text \<open>A device whose close fails though every byte landed.\<close>

definition junk_close_env :: write_env where
  "junk_close_env = clean_env\<lparr>we_close := (- 1, 5), we_failed := ''theme=Korium'' @ [LF] @ ''vmode=3'' @ [LF]\<rparr>"

lemma dirty_chunks: "config_chunks dirty_set = [''theme=Korium'' @ [LF], ''vmode=3'' @ [LF]]"
  by (simp add: dirty_set_def sample_set_def config_chunks_def cfgWriteLegacy_def legacy_line_def emitted_def)

lemma junk_close_saves: "sr_ret (the (configWrite junk_close_env (Some dirty_set) (Some ''a=1'') 0))"
proof -
  have p: "\<not> configPathIsRawApa (Some ''mass0:OPL/conf_game.cfg'')" by (simp add: configPathIsRawApa_def strneq_def)
  have "modified dirty_set" "filename dirty_set = Some ''mass0:OPL/conf_game.cfg''" by (simp_all add: dirty_set_def)
  then show ?thesis
    using p by (simp add: configWrite_def save_file_def queued_def dirty_chunks write_chunks_def writeFileBuffer_def
        openFileBuffer_write_def device_write_def closeFileBuffer_def capture_intent_def read_back_verifies_def
        single_open_def is_pfs_def strneq_def junk_close_env_def clean_env_def Let_def)
qed

theorem configWrite_success_persisted_witness:
  "\<exists>r. configWrite junk_close_env (Some dirty_set) (Some ''a=1'') 0 = Some r
    \<and> sr_content r = Some (concat (config_chunks dirty_set)) \<and> sr_set r = dirty_set\<lparr>modified := False\<rparr>"
proof -
  obtain r where r: "configWrite junk_close_env (Some dirty_set) (Some ''a=1'') 0 = Some r"
    using configWrite_total by blast
  have "sr_ret r" using junk_close_saves r by simp
  moreover have "modified dirty_set" by (simp add: dirty_set_def)
  ultimately show ?thesis using r configWrite_success_persisted [OF r] by blast
qed

section \<open>A failed save\<close>

lemma save_file_failure: "\<not> sr_ret (save_file env cs f content e) \<Longrightarrow> sr_set (save_file env cs f content e) = cs"
  by (auto simp: save_file_def Let_def split: if_splits option.splits prod.splits)

lemma save_file_failed_content:
  "\<not> sr_ret (save_file env cs f content e) \<Longrightarrow>
    sr_content (save_file env cs f content e) = restore_file env (take_snapshot env (single_open f)) content
    \<or> sr_content (save_file env cs f content e) = restore_file env (take_snapshot env (single_open f)) (Some (we_failed env))"
  by (auto simp: save_file_def Let_def split: if_splits option.splits prod.splits)

lemma restore_restores:
  assumes "we_restore_open env" "length c \<le> we_restore_count env" "0 < length c"
  shows "restore_file env (Some c) content = Some c
    \<or> restore_file env (Some c) content = content \<and> (\<exists>d. content = Some d \<and> length c \<le> length d)"
  using assms by (cases content) (auto simp: restore_file_def Let_def)

text \<open>
  C3: when \<open>configWrite\<close> reports failure the set keeps its contents and stays modified, so a later save
  retries; and if the old file had been read completely and the restore can be written, the file
  afterwards is the old file, or still has at least its length. The old settings are never left
  truncated.
\<close>

theorem configWrite_failure_restores:
  assumes "configWrite env (Some cs) (Some c) e = Some r" "\<not> sr_ret r"
    and "filename cs = Some f" "\<not> single_open f"
    and "we_snap_open env" "we_snap_mem env" "we_snap_read env = c" "we_snap_size env = int (length c)"
    and "0 < length c" "int (length c) \<le> CONFIG_MAX_RESTORE_BYTES"
    and "we_restore_open env" "length c \<le> we_restore_count env"
  shows "sr_set r = cs\<lparr>modified := True\<rparr>
    \<and> (sr_content r = Some c \<or> (\<exists>d. sr_content r = Some d \<and> length c \<le> length d))"
  using assms(1)
proof (cases rule: configWrite_cases)
  case unmodified
  with assms(2) show ?thesis by simp
next
  case refused
  then show ?thesis by simp
next
  case (saved f')
  then have f: "f' = f" using assms(3) by simp
  have snap: "take_snapshot env (single_open f) = Some c"
    using assms by (simp add: take_snapshot_def)
  have "sr_content r = restore_file env (Some c) (Some c) \<or> sr_content r = restore_file env (Some c) (Some (we_failed env))"
    using save_file_failed_content [of env "cs\<lparr>modified := True\<rparr>" f "Some c" e] assms(2) saved(3) snap f by simp
  then have "sr_content r = Some c \<or> (\<exists>d. sr_content r = Some d \<and> length c \<le> length d)"
    using restore_restores [OF assms(11,12,9)] by metis
  moreover have "sr_set r = cs\<lparr>modified := True\<rparr>"
    using save_file_failure assms(2) saved(3) by auto
  ultimately show ?thesis by simp
qed

definition wedged_env :: write_env where
  "wedged_env = clean_env\<lparr>we_wr := (\<lambda>_ _. (- 1, 5)), we_failed := []\<rparr>"

theorem configWrite_failure_restores_witness:
  "\<exists>r. configWrite wedged_env (Some dirty_set) (Some (''a=1'' @ [LF])) 0 = Some r
    \<and> sr_set r = dirty_set\<lparr>modified := True\<rparr>
    \<and> (sr_content r = Some (''a=1'' @ [LF]) \<or> (\<exists>d. sr_content r = Some d \<and> length (''a=1'' @ [LF]) \<le> length d))"
proof -
  obtain r where r: "configWrite wedged_env (Some dirty_set) (Some (''a=1'' @ [LF])) 0 = Some r"
    using configWrite_total by blast
  have p: "\<not> configPathIsRawApa (Some ''mass0:OPL/conf_game.cfg'')" by (simp add: configPathIsRawApa_def strneq_def)
  have "modified dirty_set" and f: "filename dirty_set = Some ''mass0:OPL/conf_game.cfg''" by (simp_all add: dirty_set_def)
  then have "\<not> sr_ret r"
    using r p by (auto simp: configWrite_def save_file_def queued_def dirty_chunks write_chunks_def writeFileBuffer_def
        openFileBuffer_write_def device_write_def closeFileBuffer_def capture_intent_def read_back_verifies_def
        single_open_def is_pfs_def strneq_def wedged_env_def clean_env_def Let_def)
  moreover have "\<not> single_open ''mass0:OPL/conf_game.cfg''" by (simp add: single_open_def strneq_def)
  ultimately show ?thesis
    using r configWrite_failure_restores [OF r _ f] by (simp add: wedged_env_def clean_env_def)
qed

section \<open>The raw partition namespace\<close>

text \<open>
  A set whose path is in the raw partition namespace \<open>hdd<digit>:\<close> is never read and never written:
  a load returns the set unchanged whatever the devices hold, and a save leaves every file as it was
  and, when there is something to save, fails with \<open>EACCES\<close>.
\<close>

theorem raw_apa_never_touched:
  assumes "configPathIsRawApa (filename cs)"
  shows "configRead fuel mem mem_name dev carryDir index (Some cs) oplCarry =
      Some (Inr (Some cs, False, if cs_type cs = CONFIG_OPL then False else oplCarry))
    \<and> (\<exists>r. configWrite env (Some cs) content e = Some r \<and> sr_content r = content
        \<and> (modified cs \<longrightarrow> \<not> sr_ret r \<and> sr_errno r = EACCES \<and> sr_set r = cs))"
proof -
  obtain f where f: "filename cs = Some f" using assms by (cases "filename cs") (auto simp: configPathIsRawApa_def)
  show ?thesis
    using assms f by (auto simp: configRead_def configWrite_def Let_def)
qed

theorem raw_apa_never_touched_witness:
  "\<exists>r. configWrite clean_env (Some (dirty_set\<lparr>filename := Some ''hdd0:__common/OPL/conf_game.cfg''\<rparr>)) None 0 = Some r
     \<and> sr_content r = None \<and> \<not> sr_ret r \<and> sr_errno r = EACCES"
proof -
  let ?cs = "dirty_set\<lparr>filename := Some ''hdd0:__common/OPL/conf_game.cfg''\<rparr>"
  have "isdigit (CHR ''0'')" by (simp add: isdigit_def ord_of_def)
  then have "configPathIsRawApa (filename ?cs)" by (simp add: configPathIsRawApa_def strneq_def)
  moreover have "modified ?cs" by (simp add: dirty_set_def)
  ultimately show ?thesis using raw_apa_never_touched [of ?cs] by blast
qed

section \<open>Loading\<close>

text \<open>A probe of a file that is there and can be read; the allocations may still fail.\<close>

definition good_probe :: "probe \<Rightarrow> cstring \<Rightarrow> bool" where
  "good_probe pr c \<longleftrightarrow> pr_content pr = Some c \<and> pr_size pr = int (length c) \<and> length c \<le> pr_read pr
     \<and> pr_retry pr = Some c \<and> NUL \<notin> set c \<and> lines_fit 4096 (without_bom c)"

lemma without_bom_NUL: "NUL \<notin> set c \<Longrightarrow> NUL \<notin> set (without_bom c)"
  by (auto simp: without_bom_def dest: in_set_dropD)

lemma single_shot_bom: "(if 3 \<le> length c \<and> take 3 c = utf8_bom then drop 3 c else c) = without_bom c"
  by (auto simp: without_bom_def utf8_bom_def dest: arg_cong [of _ _ length])

lemma open_good:
  assumes "good_probe (dev (Some f)) c"
  shows "\<exists>fb. configOpenForRead dev (Some f) = Some fb
    \<and> read_all (length c + 2) fb 0 = read_all (length (without_bom c) + 2) (openFileBufferBuffer (without_bom c)) 0"
proof -
  let ?pr = "dev (Some f)"
  have nul: "NUL \<notin> set (without_bom c)" using assms by (simp add: good_probe_def without_bom_NUL)
  have mem: "read_all (length c + 2) (openFileBufferBuffer (without_bom c)) 0 =
      read_all (length (without_bom c) + 2) (openFileBufferBuffer (without_bom c)) 0"
  proof -
    have "length (without_bom c) \<le> length c" by (simp add: without_bom_def)
    then have "read_all (length c + 2) (openFileBufferBuffer (without_bom c)) 0 =
        Some (if open_comment (without_bom c) then Inl () else Inr (kept_lines (without_bom c)))"
      using nul by (intro read_all_memory [of _ 0]) (simp_all add: openFileBufferBuffer_def)
    then show ?thesis by (simp only: lines_of_memory [OF nul])
  qed
  have buf: "read_all (length c + 2) (openFileBuffer_read 4096 c) 0 =
      read_all (length (without_bom c) + 2) (openFileBufferBuffer (without_bom c)) 0"
    using assms lines_of_file [of c 4096 "length c + 2"] by (simp only: lines_of_memory [OF nul]) (simp add: good_probe_def)
  have "configOpenSingleShot ?pr (Some f) = (None, False)
      \<or> configOpenSingleShot ?pr (Some f) = (Some (openFileBufferBuffer (without_bom c)), False)"
    using assms single_shot_bom [of c] by (auto simp: configOpenSingleShot_def good_probe_def Let_def)
  then show ?thesis
    using mem buf assms by (auto simp: configOpenForRead_def good_probe_def)
qed

lemma configRead_source:
  assumes "\<not> configPathIsRawApa (filename cs)" "config_source dev carryDir index mem_name cs = (Some fb, cs', from)"
    and "NUL \<notin> set t" "read_all fuel fb 0 = read_all (length t + 2) (openFileBufferBuffer t) 0"
  shows "configRead fuel mem mem_name dev carryDir index (Some cs) oplCarry =
    map_option (map_sum id (\<lambda>(c, r). (c, r, if from then True else (cs_type cs \<noteq> CONFIG_OPL \<and> oplCarry))))
      (configReadBuffer True mem (Some cs') t)"
proof -
  have "read_all fuel fb 0 = Some (if open_comment t then Inl () else Inr (kept_lines t))"
    by (simp only: assms(4) lines_of_memory [OF assms(3)])
  moreover have "read_all (Suc (Suc (length t))) (openFileBufferBuffer t) 0 =
      Some (if open_comment t then Inl () else Inr (kept_lines t))"
    using lines_of_memory [OF assms(3)] by (simp del: read_all.simps)
  ultimately show ?thesis using assms(1,2)
    by (simp del: read_all.simps add: configRead_def configReadBuffer_def configReadFileBuffer_def Let_def)
qed

lemma configRead_own:
  assumes "filename cs = Some f" "\<not> configPathIsRawApa (Some f)" "good_probe (dev (Some f)) c"
  shows "configRead (length c + 2) mem mem_name dev carryDir index (Some cs) oplCarry =
    map_option (map_sum id (\<lambda>(c, r). (c, r, cs_type cs \<noteq> CONFIG_OPL \<and> oplCarry)))
      (configReadBuffer True mem (Some cs) (without_bom c))"
proof -
  obtain fb where fb: "configOpenForRead dev (Some f) = Some fb"
    "read_all (length c + 2) fb 0 = read_all (length (without_bom c) + 2) (openFileBufferBuffer (without_bom c)) 0"
    using open_good [of dev f c] assms(3) by blast
  have "config_source dev carryDir index mem_name cs = (Some fb, cs, False)"
    using assms(1) fb(1) by (simp add: config_source_def)
  with fb(2) assms show ?thesis
    by (subst configRead_source [of cs dev carryDir index mem_name fb cs False "without_bom c"])
      (simp_all add: good_probe_def without_bom_NUL)
qed

text \<open>
  When the set's own file can be read, \<open>configRead\<close> reads exactly that file: the result is that of
  \<open>configReadBuffer\<close> on its text without the byte-order mark, no matter which other files exist,
  and no matter whether the single-shot or the buffered reader was used (small or large file,
  failed allocations).
\<close>

theorem configRead_own_file:
  assumes "filename cs = Some f" "\<not> configPathIsRawApa (Some f)" "good_probe (dev (Some f)) c"
  shows "configRead (length c + 2) mem mem_name dev carryDir index (Some cs) oplCarry =
    map_option (map_sum id (\<lambda>(c, r). (c, r, cs_type cs \<noteq> CONFIG_OPL \<and> oplCarry)))
      (configReadBuffer True mem (Some cs) (without_bom c))"
  using assms by (rule configRead_own)

definition sample_dev :: read_dev where
  "sample_dev p = \<lparr>pr_content = Some two_lines, pr_errno = 0, pr_size = int (length two_lines), pr_mem = False,
     pr_read = 100, pr_fb_mem = True, pr_retry = Some two_lines\<rparr>"

lemma two_lines_fit: "lines_fit 4096 (without_bom two_lines)"
proof -
  have "without_bom two_lines = two_lines" by (simp add: without_bom_def utf8_bom_def two_lines_def)
  moreover have "lines_fit 16 two_lines" by code_simp
  ultimately show ?thesis by (auto simp: lines_fit_def list_all_iff)
qed

lemma sample_probe: "good_probe (sample_dev p) two_lines"
  using two_lines_fit by (simp add: good_probe_def sample_dev_def two_lines_def)

theorem configRead_own_file_witness:
  "configRead (length two_lines + 2) (\<lambda>_. True) True sample_dev ''pfs0:'' None (Some dirty_set) True =
    map_option (map_sum id (\<lambda>(c, r). (c, r, cs_type dirty_set \<noteq> CONFIG_OPL \<and> True)))
      (configReadBuffer True (\<lambda>_. True) (Some dirty_set) (without_bom two_lines))"
proof (rule configRead_own_file)
  show "filename dirty_set = Some ''mass0:OPL/conf_game.cfg''" by (simp add: dirty_set_def)
  show "\<not> configPathIsRawApa (Some ''mass0:OPL/conf_game.cfg'')" by (simp add: configPathIsRawApa_def strneq_def)
qed (rule sample_probe)

definition absent_probe :: "cstring \<Rightarrow> probe \<Rightarrow> bool" where
  "absent_probe p pr \<longleftrightarrow> pr_content pr = None \<and> (configOpenFailureIsAbsent (Some p) (pr_errno pr) \<or> pr_retry pr = None)"

lemma open_absent: "absent_probe p (dev (Some p)) \<Longrightarrow> configOpenForRead dev (Some p) = None"
  by (auto simp: absent_probe_def configOpenForRead_def configOpenSingleShot_def)

lemma no_wopl_master:
  assumes "length p + 24 \<le> 256"
  shows "configBuildWoplPath (Some (configBuildPath 256 (Some p) CONFIG_OPL_FILENAME)) n = None"
proof -
  obtain D where D: "\<And>h. configBuildPath 256 (Some p) h = bounded 256 (D @ h)" "length D \<le> Suc (length p)"
    "D = [] \<or> last D = CHR ''/'' \<or> last D = CHR '':''"
    using built_path [of 256 p] by blast
  have f: "configBuildPath 256 (Some p) CONFIG_OPL_FILENAME = D @ CONFIG_OPL_FILENAME"
    using D(1,2) assms by (simp add: CONFIG_OPL_FILENAME_def)
  have "plain_name CONFIG_OPL_FILENAME" by (simp add: plain_name_def CONFIG_OPL_FILENAME_def)
  note d = dir_end_built [OF D(3) this]
  have "find (\<lambda>e. CONFIG_OPL_FILENAME = fst e) wopl_names = None"
    by (simp add: wopl_names_def CONFIG_OPL_FILENAME_def)
  then show ?thesis unfolding configBuildWoplPath_def option.case f d Let_def by simp
qed

text \<open>
  An install that still has the master file under its old name loses nothing: with the new name
  absent, \<open>configRead\<close> reads the old file from the same directory and keeps the new name in the set,
  so the next save writes the new name. The carried-over home is not consulted.
\<close>

theorem configRead_legacy_migration:
  assumes "cs_type cs = CONFIG_OPL" "length p + 24 \<le> 256"
    and "filename cs = Some (configBuildPath 256 (Some p) CONFIG_OPL_FILENAME)"
    and "\<not> configPathIsRawApa (filename cs)"
    and "absent_probe (configBuildPath 256 (Some p) CONFIG_OPL_FILENAME)
           (dev (Some (configBuildPath 256 (Some p) CONFIG_OPL_FILENAME)))"
    and "good_probe (dev (Some (configBuildPath 256 (Some p) CONFIG_OPL_FILENAME_LEGACY))) c"
  shows "configRead (length c + 2) mem mem_name dev carryDir index (Some cs) oplCarry =
    map_option (map_sum id (\<lambda>(c, r). (c, r, False))) (configReadBuffer True mem (Some cs) (without_bom c))"
proof -
  let ?old = "configBuildPath 256 (Some p) CONFIG_OPL_FILENAME_LEGACY"
  let ?new = "configBuildPath 256 (Some p) CONFIG_OPL_FILENAME"
  obtain fb where fb: "configOpenForRead dev (Some ?old) = Some fb"
    "read_all (length c + 2) fb 0 = read_all (length (without_bom c) + 2) (openFileBufferBuffer (without_bom c)) 0"
    using open_good [of dev ?old c] assms(6) by blast
  have own: "configOpenForRead dev (Some ?new) = None" using assms(5) by (rule open_absent)
  have wopl: "configBuildWoplPath (Some ?new) 256 = None" by (rule no_wopl_master [OF assms(2)])
  have sib: "configBuildLegacyOplPath ?new 256 = ?old"
    unfolding configBuildLegacyOplPath_def
    by (rule sibling_built) (use assms(2) in \<open>simp_all add: plain_name_def CONFIG_OPL_FILENAME_def CONFIG_OPL_FILENAME_LEGACY_def\<close>)
  have "config_source dev carryDir index mem_name cs = (Some fb, cs, False)"
    using own wopl sib fb(1) assms(1,3) by (simp add: config_source_def)
  with fb(2) assms show ?thesis
    by (subst configRead_source [of cs dev carryDir index mem_name fb cs False "without_bom c"])
      (simp_all add: good_probe_def without_bom_NUL)
qed

definition old_name_dev :: read_dev where
  "old_name_dev p = (if p = Some ''mass0:conf_riptopl.cfg'' then sample_dev p
     else (sample_dev p)\<lparr>pr_content := None, pr_errno := 4\<rparr>)"

definition master_set :: config_set where
  "master_set = sample_set\<lparr>filename := Some ''mass0:settings_riptopl.cfg''\<rparr>"

theorem configRead_legacy_migration_witness:
  "configRead (length two_lines + 2) (\<lambda>_. True) True old_name_dev ''pfs0:'' (Some 0) (Some master_set) True =
    map_option (map_sum id (\<lambda>(c, r). (c, r, False)))
      (configReadBuffer True (\<lambda>_. True) (Some master_set) (without_bom two_lines))"
proof (rule configRead_legacy_migration)
  have new: "configBuildPath 256 (Some ''mass0:'') CONFIG_OPL_FILENAME = ''mass0:settings_riptopl.cfg''"
    and old: "configBuildPath 256 (Some ''mass0:'') CONFIG_OPL_FILENAME_LEGACY = ''mass0:conf_riptopl.cfg''"
    by (simp_all add: configBuildPath_def CONFIG_OPL_FILENAME_def CONFIG_OPL_FILENAME_LEGACY_def)
  show "filename master_set = Some (configBuildPath 256 (Some ''mass0:'') CONFIG_OPL_FILENAME)"
    by (simp only: new) (simp add: master_set_def)
  have "\<not> configPathIsRawApa (Some ''mass0:settings_riptopl.cfg'')" by (simp add: configPathIsRawApa_def strneq_def)
  then show "\<not> configPathIsRawApa (filename master_set)" by (simp add: master_set_def)
  have "configOpenFailureIsAbsent (Some ''mass0:settings_riptopl.cfg'') 4"
    by (simp add: configOpenFailureIsAbsent_def strneq_def)
  then show "absent_probe (configBuildPath 256 (Some ''mass0:'') CONFIG_OPL_FILENAME)
      (old_name_dev (Some (configBuildPath 256 (Some ''mass0:'') CONFIG_OPL_FILENAME)))"
    by (simp only: new) (simp add: absent_probe_def old_name_dev_def)
  show "good_probe (old_name_dev (Some (configBuildPath 256 (Some ''mass0:'') CONFIG_OPL_FILENAME_LEGACY))) two_lines"
    using sample_probe by (simp add: old old_name_dev_def)
qed (simp_all add: master_set_def sample_set_def)

end
