(* ===== verification/QueueSpec.thy ===== *)
theory QueueSpec
  imports Prelude
begin

text \<open>
  What a client of a request queue relies on: a store of requests with a list of contents, where an
  accepted request goes to the end and the worker takes the first. The cell a new request is stored
  in comes from the allocator, which promises a cell that is not in use.
\<close>

datatype ('a, 'r) queue_op = Push 'a 'r | Pop

fun pushed :: "('a, 'r) queue_op list \<Rightarrow> 'r list" where
  "pushed [] = []"
| "pushed (Push a r # ops) = r # pushed ops"
| "pushed (Pop # ops) = pushed ops"

locale request_queue =
  fixes contents :: "'s \<Rightarrow> 'r list"
    and inv :: "'s \<Rightarrow> bool"
    and unused :: "'s \<Rightarrow> 'a \<Rightarrow> bool"
    and push :: "'a \<Rightarrow> 'r \<Rightarrow> 's \<Rightarrow> 's"
    and pop :: "'s \<Rightarrow> 's"
  assumes push_inv: "inv s \<Longrightarrow> unused s a \<Longrightarrow> inv (push a r s)"
    and push_contents: "inv s \<Longrightarrow> unused s a \<Longrightarrow> contents (push a r s) = contents s @ [r]"
    and pop_inv: "inv s \<Longrightarrow> contents s \<noteq> [] \<Longrightarrow> inv (pop s)"
    and pop_contents: "inv s \<Longrightarrow> contents s \<noteq> [] \<Longrightarrow> contents (pop s) = tl (contents s)"
begin

fun exec :: "('a, 'r) queue_op list \<Rightarrow> 's \<Rightarrow> 'r list \<times> 's" where
  "exec [] s = ([], s)"
| "exec (Push a r # ops) s = exec ops (push a r s)"
| "exec (Pop # ops) s = (case exec ops (pop s) of (out, s') \<Rightarrow> (hd (contents s) # out, s'))"

fun legal :: "('a, 'r) queue_op list \<Rightarrow> 's \<Rightarrow> bool" where
  "legal [] s \<longleftrightarrow> True"
| "legal (Push a r # ops) s \<longleftrightarrow> unused s a \<and> legal ops (push a r s)"
| "legal (Pop # ops) s \<longleftrightarrow> contents s \<noteq> [] \<and> legal ops (pop s)"

lemma exec_inv: "inv s \<Longrightarrow> legal ops s \<Longrightarrow> inv (snd (exec ops s))"
  by (induction ops s rule: exec.induct) (auto simp: push_inv pop_inv case_prod_beta)

text \<open>First in, first out: what came out and what is left is what was there and what came in.\<close>

lemma fifo:
  "inv s \<Longrightarrow> legal ops s \<Longrightarrow> fst (exec ops s) @ contents (snd (exec ops s)) = contents s @ pushed ops"
proof (induction ops s rule: exec.induct)
  case (2 a r ops s)
  then show ?case by (simp add: push_inv push_contents)
next
  case (3 ops s)
  then show ?case by (simp add: pop_inv pop_contents case_prod_beta)
qed simp

end

end
