(* ===== verification/IoQueue.thy ===== *)
theory IoQueue
  imports QueueSpec
begin

text \<open>
  The input/output manager of \<open>src/ioman.c\<close>: the table of request handlers, the linked queue of
  requests with its tail pointer and its per-type counters, and the worker thread.

  Request nodes live in an explicit heap, a map from addresses to nodes; \<open>free\<close> removes a node, so a
  pointer to a freed node is an address outside the map. An operation that would write through such
  a pointer is \<open>None\<close>. \<open>malloc\<close> is the argument \<open>mem\<close>: the address it returns, or \<open>None\<close>. A handler and
  a data pointer are numbers. Each section the code runs under \<open>gEndSemaId\<close> is one step.
\<close>

section \<open>Data\<close>

abbreviation "IO_OK \<equiv> (0::int)"
abbreviation "IO_ERR_TOO_MANY_HANDLERS \<equiv> (- 2::int)"
abbreviation "IO_ERR_DUPLICIT_HANDLER \<equiv> (- 3::int)"
abbreviation "IO_ERR_INVALID_HANDLER \<equiv> (- 4::int)"
abbreviation "IO_ERR_IO_BLOCKED \<equiv> (- 5::int)"
abbreviation "IO_ERR_TOO_MANY_REQUESTS \<equiv> (- 6::int)"
abbreviation "IO_CUSTOM_SIMPLEACTION \<equiv> (1::int)"
abbreviation "IO_REQ_TYPE_COUNT \<equiv> (4::nat)"
abbreviation "MAX_IO_HANDLERS \<equiv> (64::nat)"

type_synonym addr = nat

record io_request =
  rq_type :: int
  rq_data :: nat
  rq_next :: "addr option"

type_synonym io_heap = "addr \<rightharpoonup> io_request"

record io_state =
  io_heap :: io_heap
  gReqList :: "addr option"
  gReqEnd :: "addr option"
  gReqRunning :: "addr option"
  gRequestHandlers :: "(int \<times> nat) list"
  gIoPending :: "int list"
  gIoTotal :: "32 word list"
  isIOBlocked :: bool
  gIOTerminate :: bool
  isIORunning :: bool

section \<open>Handlers\<close>

definition ioRegisterHandler :: "int \<Rightarrow> nat option \<Rightarrow> io_state \<Rightarrow> io_state \<times> int" where
  "ioRegisterHandler type handler s =
     (case handler of
        None \<Rightarrow> (s, IO_ERR_INVALID_HANDLER)
      | Some h \<Rightarrow>
          if length (gRequestHandlers s) \<ge> MAX_IO_HANDLERS then (s, IO_ERR_TOO_MANY_HANDLERS)
          else if list_ex (\<lambda>e. fst e = type) (gRequestHandlers s) then (s, IO_ERR_DUPLICIT_HANDLER)
          else (s\<lparr>gRequestHandlers := gRequestHandlers s @ [(type, h)]\<rparr>, IO_OK))"

definition ioGetHandler :: "int \<Rightarrow> io_state \<Rightarrow> nat option" where
  "ioGetHandler type s = map_option snd (find (\<lambda>e. fst e = type) (gRequestHandlers s))"

section \<open>Queueing\<close>

definition counted :: "int \<Rightarrow> bool" where
  "counted type \<longleftrightarrow> 0 < type \<and> type < int IO_REQ_TYPE_COUNT"

definition ioGetPending :: "int \<Rightarrow> io_state \<Rightarrow> int" where
  "ioGetPending type s = (if counted type then gIoPending s ! nat type else 0)"

definition count_request :: "int \<Rightarrow> io_state \<Rightarrow> io_state" where
  "count_request type s =
     (if counted type then
        s\<lparr>gIoPending := (gIoPending s)[nat type := gIoPending s ! nat type + 1],
          gIoTotal := (gIoTotal s)[nat type := gIoTotal s ! nat type + 1]\<rparr>
      else s)"

definition link_request :: "addr \<Rightarrow> int \<Rightarrow> nat \<Rightarrow> io_state \<Rightarrow> io_state" where
  "link_request req type data s =
     count_request type
       (s\<lparr>gReqEnd := Some req,
          io_heap := (io_heap s)(req \<mapsto> \<lparr>rq_type = type, rq_data = data, rq_next = None\<rparr>)\<rparr>)"

definition ioAppendLocked :: "addr option \<Rightarrow> int \<Rightarrow> nat \<Rightarrow> io_state \<Rightarrow> (io_state \<times> int) option" where
  "ioAppendLocked mem type data s =
     (case mem of
        None \<Rightarrow> Some (s, IO_ERR_TOO_MANY_REQUESTS)
      | Some req \<Rightarrow>
          (case gReqEnd s of
             None \<Rightarrow> Some (link_request req type data (s\<lparr>gReqList := Some req\<rparr>), IO_OK)
           | Some e \<Rightarrow>
               (case io_heap s e of
                  None \<Rightarrow> None
                | Some n \<Rightarrow>
                    Some (link_request req type data (s\<lparr>io_heap := (io_heap s)(e \<mapsto> n\<lparr>rq_next := Some req\<rparr>)\<rparr>), IO_OK))))"

definition ioPutRequest :: "addr option \<Rightarrow> int \<Rightarrow> nat \<Rightarrow> io_state \<Rightarrow> (io_state \<times> int) option" where
  "ioPutRequest mem type data s =
     (if isIOBlocked s then Some (s, IO_ERR_IO_BLOCKED)
      else if ioGetHandler type s = None then Some (s, IO_ERR_INVALID_HANDLER)
      else ioAppendLocked mem type data s)"

text \<open>The scan for a request that has not started; \<open>None\<close> when it follows a freed node or never ends.\<close>

partial_function (option) waiting_scan :: "io_heap \<Rightarrow> addr option \<Rightarrow> int \<Rightarrow> nat \<Rightarrow> addr option \<Rightarrow> bool option" where
  "waiting_scan h running type data p =
     (case p of
        None \<Rightarrow> Some False
      | Some a \<Rightarrow>
          (case h a of
             None \<Rightarrow> None
           | Some r \<Rightarrow>
               if Some a \<noteq> running \<and> rq_type r = type \<and> rq_data r = data then Some True
               else waiting_scan h running type data (rq_next r)))"

definition ioPutRequestUnlessWaiting :: "addr option \<Rightarrow> int \<Rightarrow> nat \<Rightarrow> io_state \<Rightarrow> (io_state \<times> int) option" where
  "ioPutRequestUnlessWaiting mem type data s =
     (if isIOBlocked s then Some (s, IO_ERR_IO_BLOCKED)
      else if ioGetHandler type s = None then Some (s, IO_ERR_INVALID_HANDLER)
      else (case waiting_scan (io_heap s) (gReqRunning s) type data (gReqList s) of
              None \<Rightarrow> None
            | Some True \<Rightarrow> Some (s, IO_OK)
            | Some False \<Rightarrow> ioAppendLocked mem type data s))"

partial_function (option) count_loop :: "io_heap \<Rightarrow> nat \<Rightarrow> addr option \<Rightarrow> nat option" where
  "count_loop h n p =
     (case p of
        None \<Rightarrow> Some n
      | Some a \<Rightarrow> (case h a of None \<Rightarrow> None | Some r \<Rightarrow> count_loop h (Suc n) (rq_next r)))"

definition ioGetPendingRequestCount :: "io_state \<Rightarrow> nat option" where
  "ioGetPendingRequestCount s = count_loop (io_heap s) 0 (gReqList s)"

definition ioHasPendingRequests :: "io_state \<Rightarrow> bool" where
  "ioHasPendingRequests s \<longleftrightarrow> gReqList s \<noteq> None"

section \<open>The worker\<close>

text \<open>\<open>ioProcessRequest\<close>: the handler it calls, if there is one.\<close>

definition ioProcessRequest :: "io_request \<Rightarrow> io_state \<Rightarrow> (nat \<times> nat) option" where
  "ioProcessRequest req s = map_option (\<lambda>h. (h, rq_data req)) (ioGetHandler (rq_type req) s)"

text \<open>The section under \<open>gEndSemaId\<close> after the handler returned: the head node is unlinked and freed.\<close>

definition unlink_request :: "addr \<Rightarrow> io_request \<Rightarrow> io_state \<Rightarrow> io_state" where
  "unlink_request a r s =
     (let s1 = s\<lparr>gReqRunning := None,
                 gIoPending := (if counted (rq_type r) \<and> gIoPending s ! nat (rq_type r) > 0
                   then (gIoPending s)[nat (rq_type r) := gIoPending s ! nat (rq_type r) - 1] else gIoPending s),
                 gReqList := rq_next r,
                 io_heap := (io_heap s)(a := None)\<rparr>
      in if rq_next r = None then s1\<lparr>gReqEnd := None\<rparr> else s1)"

text \<open>The exit of the worker: every node is freed, the tail pointer and the counters stay as they are.\<close>

definition worker_exit :: "io_state \<Rightarrow> io_state" where
  "worker_exit s = s\<lparr>gReqList := None, io_heap := Map.empty, isIORunning := False\<rparr>"

definition ioEnd :: "io_state \<Rightarrow> io_state" where
  "ioEnd s = s\<lparr>gIOTerminate := True\<rparr>"

text \<open>\<open>ioInit\<close> once the previous worker has left; \<open>simple\<close> is \<open>ioSimpleActionHandler\<close>.\<close>

definition ioInit :: "nat \<Rightarrow> io_state \<Rightarrow> io_state" where
  "ioInit simple s =
     (let s1 = s\<lparr>isIOBlocked := False, gIOTerminate := False, gRequestHandlers := [], gReqList := None,
                 gReqEnd := None, gReqRunning := None\<rparr>
      in (fst (ioRegisterHandler IO_CUSTOM_SIMPLEACTION (Some simple) s1))\<lparr>isIORunning := True\<rparr>)"

text \<open>\<open>ioBlockOpsTimed\<close> apart from its wait: blocking sets the flag before it waits.\<close>

definition ioBlockOps_flag :: "bool \<Rightarrow> io_state \<Rightarrow> io_state" where
  "ioBlockOps_flag block s = s\<lparr>isIOBlocked := block\<rparr>"

text \<open>
  The wait of \<open>ioBlockOpsTimed\<close>: \<open>pending i\<close> is what \<open>ioHasPendingRequests\<close> answers at tick \<open>i\<close>, and the
  result is the tick at which the loop ends, if it does.
\<close>

partial_function (option) block_wait :: "(nat \<Rightarrow> bool) \<Rightarrow> nat \<Rightarrow> int \<Rightarrow> nat option" where
  "block_wait pending i timeoutTicks =
     (if \<not> pending i then Some i
      else if timeoutTicks = 0 then Some i
      else block_wait pending (Suc i) (if timeoutTicks > 0 then timeoutTicks - 1 else timeoutTicks))"

definition static_io :: io_state where
  "static_io = \<lparr>io_heap = Map.empty, gReqList = None, gReqEnd = None, gReqRunning = None, gRequestHandlers = [],
     gIoPending = replicate IO_REQ_TYPE_COUNT 0, gIoTotal = replicate IO_REQ_TYPE_COUNT 0,
     isIOBlocked = False, gIOTerminate = False, isIORunning = False\<rparr>"

section \<open>The linked queue as a list\<close>

primrec qpath :: "io_heap \<Rightarrow> addr option \<Rightarrow> addr list \<Rightarrow> bool" where
  "qpath h p [] \<longleftrightarrow> p = None"
| "qpath h p (a # as) \<longleftrightarrow> p = Some a \<and> (\<exists>n. h a = Some n \<and> qpath h (rq_next n) as)"

partial_function (option) req_addrs :: "io_heap \<Rightarrow> addr option \<Rightarrow> addr list option" where
  "req_addrs h p =
     (case p of
        None \<Rightarrow> Some []
      | Some a \<Rightarrow>
          (case h a of
             None \<Rightarrow> None
           | Some r \<Rightarrow> Option.bind (req_addrs h (rq_next r)) (\<lambda>as. Some (a # as))))"

definition node_req :: "io_heap \<Rightarrow> addr \<Rightarrow> int \<times> nat" where
  "node_req h a = (case h a of Some r \<Rightarrow> (rq_type r, rq_data r) | None \<Rightarrow> (0, 0))"

text \<open>The requests in the queue, oldest first.\<close>

definition requests :: "io_state \<Rightarrow> (int \<times> nat) list" where
  "requests s = (case req_addrs (io_heap s) (gReqList s) of Some as \<Rightarrow> map (node_req (io_heap s)) as | None \<Rightarrow> [])"

text \<open>Well-formed: the nodes form one list, the tail pointer is its last node, nothing else is allocated.\<close>

definition queue_list :: "io_state \<Rightarrow> addr list \<Rightarrow> bool" where
  "queue_list s as \<longleftrightarrow> qpath (io_heap s) (gReqList s) as \<and> distinct as \<and> dom (io_heap s) = set as
     \<and> gReqEnd s = (if as = [] then None else Some (last as))"

definition queue_ok :: "io_state \<Rightarrow> bool" where
  "queue_ok s \<longleftrightarrow> (\<exists>as. queue_list s as)"

lemma qpath_unique: "qpath h p as \<Longrightarrow> qpath h p bs \<Longrightarrow> as = bs"
proof (induction as arbitrary: p bs)
  case Nil
  then show ?case by (cases bs) auto
next
  case (Cons a as)
  then show ?case by (cases bs) auto
qed

lemma qpath_frame: "a \<notin> set as \<Longrightarrow> qpath (h(a := x)) p as = qpath h p as"
  by (induction as arbitrary: p) auto

lemma qpath_snoc:
  assumes "qpath h p (bs @ [e])" "distinct (bs @ [e])" "a \<notin> set (bs @ [e])" "h e = Some n"
  shows "qpath (h(e \<mapsto> n\<lparr>rq_next := Some a\<rparr>, a \<mapsto> \<lparr>rq_type = ty, rq_data = d, rq_next = None\<rparr>)) p (bs @ [e, a])"
  using assms by (induction bs arbitrary: p) auto

lemma req_addrs_path: "qpath h p as \<Longrightarrow> req_addrs h p = Some as"
  by (induction as arbitrary: p) (auto simp: req_addrs.simps)

lemma requests_list: "queue_list s as \<Longrightarrow> requests s = map (node_req (io_heap s)) as"
  using req_addrs_path [of "io_heap s" "gReqList s" as] by (simp add: queue_list_def requests_def)

lemma count_request_frame [simp]:
  "io_heap (count_request ty s) = io_heap s" "gReqList (count_request ty s) = gReqList s"
  "gReqEnd (count_request ty s) = gReqEnd s" "gReqRunning (count_request ty s) = gReqRunning s"
  "gRequestHandlers (count_request ty s) = gRequestHandlers s" "isIOBlocked (count_request ty s) = isIOBlocked s"
  "gIOTerminate (count_request ty s) = gIOTerminate s" "isIORunning (count_request ty s) = isIORunning s"
  by (simp_all add: count_request_def)

text \<open>On a well-formed queue an append never goes through a freed node, and it appends.\<close>

lemma append_list:
  assumes "queue_list s as" "io_heap s a = None"
  shows "\<exists>s'. ioAppendLocked (Some a) ty d s = Some (s', IO_OK) \<and> queue_list s' (as @ [a])
    \<and> requests s' = requests s @ [(ty, d)] \<and> gReqRunning s' = gReqRunning s
    \<and> gIoPending s' = gIoPending (count_request ty s) \<and> gRequestHandlers s' = gRequestHandlers s
    \<and> gIOTerminate s' = gIOTerminate s \<and> isIOBlocked s' = isIOBlocked s \<and> (as \<noteq> [] \<longrightarrow> gReqList s' = gReqList s)"
proof (cases as rule: rev_cases)
  case Nil
  let ?s = "link_request a ty d (s\<lparr>gReqList := Some a\<rparr>)"
  from assms Nil have e: "gReqEnd s = None" "io_heap s = Map.empty" by (simp_all add: queue_list_def)
  have q: "queue_list ?s (as @ [a])" using Nil e by (simp add: queue_list_def link_request_def)
  have "ioAppendLocked (Some a) ty d s = Some (?s, IO_OK)" using e by (simp add: ioAppendLocked_def)
  moreover have "requests ?s = requests s @ [(ty, d)]"
    using requests_list [OF q] requests_list [OF assms(1)] Nil by (simp add: node_req_def link_request_def)
  ultimately show ?thesis using q Nil by (auto simp: link_request_def count_request_def)
next
  case (snoc bs e)
  let ?new = "\<lparr>rq_type = ty, rq_data = d, rq_next = None\<rparr>"
  from assms snoc have q: "qpath (io_heap s) (gReqList s) (bs @ [e])" "distinct (bs @ [e])" "gReqEnd s = Some e"
    and dm: "dom (io_heap s) = insert e (set bs)" by (auto simp: queue_list_def)
  from dm obtain n where n: "io_heap s e = Some n" by blast
  have fresh: "a \<notin> set (bs @ [e])" using assms(2) dm domIff [of a "io_heap s"] by auto
  let ?s = "link_request a ty d (s\<lparr>io_heap := (io_heap s)(e \<mapsto> n\<lparr>rq_next := Some a\<rparr>)\<rparr>)"
  have ql: "queue_list ?s (as @ [a])"
    using qpath_snoc [OF q(1,2) fresh n, of ty d] q fresh dm snoc
    by (auto simp: queue_list_def link_request_def)
  have "ioAppendLocked (Some a) ty d s = Some (?s, IO_OK)" using q(3) n by (simp add: ioAppendLocked_def)
  moreover have "requests ?s = requests s @ [(ty, d)]"
    unfolding requests_list [OF ql] requests_list [OF assms(1)]
    using fresh n snoc by (auto simp: node_req_def link_request_def)
  ultimately show ?thesis using ql by (auto simp: link_request_def count_request_def)
qed

lemma unlink_frame [simp]:
  "gReqRunning (unlink_request a r s) = None" "gRequestHandlers (unlink_request a r s) = gRequestHandlers s"
  "gIOTerminate (unlink_request a r s) = gIOTerminate s" "isIOBlocked (unlink_request a r s) = isIOBlocked s"
  by (simp_all add: unlink_request_def Let_def)

lemma unlink_list:
  assumes "queue_list s (a # as)" "io_heap s a = Some r"
  shows "queue_list (unlink_request a r s) as" "requests (unlink_request a r s) = tl (requests s)"
    "hd (requests s) = (rq_type r, rq_data r)"
proof -
  from assms have q: "qpath (io_heap s) (rq_next r) as" "a \<notin> set as" "distinct as" "dom (io_heap s) = insert a (set as)"
    "gReqEnd s = Some (last (a # as))" by (auto simp: queue_list_def)
  have nxt: "rq_next r = None \<longleftrightarrow> as = []" using q(1) by (cases as) auto
  show u: "queue_list (unlink_request a r s) as"
    using q nxt by (auto simp: queue_list_def unlink_request_def qpath_frame Let_def)
  show "requests (unlink_request a r s) = tl (requests s)"
    unfolding requests_list [OF u] requests_list [OF assms(1)] using q(2)
    by (auto simp: node_req_def unlink_request_def Let_def)
  show "hd (requests s) = (rq_type r, rq_data r)"
    unfolding requests_list [OF assms(1)] using assms(2) by (simp add: node_req_def)
qed

definition push_req :: "addr \<Rightarrow> int \<times> nat \<Rightarrow> io_state \<Rightarrow> io_state" where
  "push_req a r s = fst (the (ioAppendLocked (Some a) (fst r) (snd r) s))"

definition pop_req :: "io_state \<Rightarrow> io_state" where
  "pop_req s = (case gReqList s of Some a \<Rightarrow> unlink_request a (the (io_heap s a)) s | None \<Rightarrow> s)"

lemma pop_req_list:
  assumes "queue_list s as" "requests s \<noteq> []"
  shows "\<exists>a bs r. as = a # bs \<and> io_heap s a = Some r \<and> pop_req s = unlink_request a r s"
proof -
  from assms obtain a bs where "as = a # bs" by (cases as) (auto simp: requests_list)
  with assms(1) show ?thesis by (auto simp: queue_list_def pop_req_def)
qed

interpretation ioq: request_queue requests queue_ok "\<lambda>s a. io_heap s a = None" push_req pop_req
proof unfold_locales
  fix s a r assume "queue_ok s" "io_heap s a = None"
  then obtain as where "queue_list s as" by (auto simp: queue_ok_def)
  from append_list [OF this \<open>io_heap s a = None\<close>, of "fst r" "snd r"]
  show "queue_ok (push_req a r s)" "requests (push_req a r s) = requests s @ [r]"
    by (auto simp: push_req_def queue_ok_def)
next
  fix s assume "queue_ok s" "requests s \<noteq> []"
  then obtain as where as: "queue_list s as" by (auto simp: queue_ok_def)
  from pop_req_list [OF as \<open>requests s \<noteq> []\<close>] obtain a bs r where
    "as = a # bs" "io_heap s a = Some r" "pop_req s = unlink_request a r s" by blast
  with unlink_list [of s a bs r] as show "queue_ok (pop_req s)" "requests (pop_req s) = tl (requests s)"
    by (auto simp: queue_ok_def)
qed

end
