(* ===== verification/IoWorker.thy ===== *)
theory IoWorker
  imports IoQueue
begin

text \<open>
  The worker thread of \<open>src/ioman.c\<close> interleaved with the threads that post requests. The worker
  sleeps, drains the queue under \<open>gProcSemaId\<close> with the head request still linked while its handler
  runs, unlinks it under \<open>gEndSemaId\<close>, and exits on the termination flag. A step of another thread
  may fall between any two steps of the worker; a handler that posts is such a step.
\<close>

section \<open>Steps\<close>

datatype worker = WSleep | WDrain | WRun addr | WExited

text \<open>The manager with the history of accepted and of started requests and of handler calls.\<close>

record io_sys =
  sys_io :: io_state
  sys_pc :: worker
  sys_accepted :: "(int \<times> nat) list"
  sys_started :: "(int \<times> nat) list"
  sys_calls :: "(nat \<times> nat) list"

definition fresh_cell :: "addr option \<Rightarrow> io_state \<Rightarrow> bool" where
  "fresh_cell mem io \<longleftrightarrow> (case mem of Some a \<Rightarrow> io_heap io a = None | None \<Rightarrow> True)"

definition boot :: "nat \<Rightarrow> io_sys" where
  "boot simple = \<lparr>sys_io = ioInit simple static_io, sys_pc = WSleep, sys_accepted = [], sys_started = [], sys_calls = []\<rparr>"

inductive io_step :: "io_sys \<Rightarrow> io_sys \<Rightarrow> bool" where
  put: "sys_pc s \<noteq> WExited \<Longrightarrow> fresh_cell mem (sys_io s) \<Longrightarrow> ioPutRequest mem ty d (sys_io s) = Some (io', r) \<Longrightarrow>
    io_step s (s\<lparr>sys_io := io', sys_accepted := sys_accepted s @ (if r = IO_OK then [(ty, d)] else [])\<rparr>)"
| put_unless: "sys_pc s \<noteq> WExited \<Longrightarrow> fresh_cell mem (sys_io s) \<Longrightarrow>
    ioPutRequestUnlessWaiting mem ty d (sys_io s) = Some (io', r) \<Longrightarrow>
    io_step s (s\<lparr>sys_io := io', sys_accepted := sys_accepted s @
      (if r = IO_OK \<and> waiting_scan (io_heap (sys_io s)) (gReqRunning (sys_io s)) ty d (gReqList (sys_io s)) = Some False
       then [(ty, d)] else [])\<rparr>)"
| register: "sys_pc s = WSleep \<Longrightarrow> io_step s (s\<lparr>sys_io := fst (ioRegisterHandler ty h (sys_io s))\<rparr>)"
| block: "io_step s (s\<lparr>sys_io := ioBlockOps_flag b (sys_io s)\<rparr>)"
| terminate: "io_step s (s\<lparr>sys_io := ioEnd (sys_io s)\<rparr>)"
| wake: "sys_pc s = WSleep \<Longrightarrow> \<not> gIOTerminate (sys_io s) \<Longrightarrow> io_step s (s\<lparr>sys_pc := WDrain\<rparr>)"
| start: "sys_pc s = WDrain \<Longrightarrow> \<not> gIOTerminate (sys_io s) \<Longrightarrow> gReqList (sys_io s) = Some a \<Longrightarrow>
    io_heap (sys_io s) a = Some r \<Longrightarrow>
    io_step s (s\<lparr>sys_io := (sys_io s)\<lparr>gReqRunning := Some a\<rparr>, sys_pc := WRun a,
      sys_started := sys_started s @ [(rq_type r, rq_data r)],
      sys_calls := sys_calls s @ (case ioProcessRequest r (sys_io s) of Some c \<Rightarrow> [c] | None \<Rightarrow> [])\<rparr>)"
| finish: "sys_pc s = WRun a \<Longrightarrow> io_heap (sys_io s) a = Some r \<Longrightarrow>
    io_step s (s\<lparr>sys_io := unlink_request a r (sys_io s), sys_pc := WDrain\<rparr>)"
| drained: "sys_pc s = WDrain \<Longrightarrow> gReqList (sys_io s) = None \<Longrightarrow> io_step s (s\<lparr>sys_pc := WSleep\<rparr>)"
| quit: "sys_pc s = WSleep \<or> sys_pc s = WDrain \<Longrightarrow> gIOTerminate (sys_io s) \<Longrightarrow>
    io_step s (s\<lparr>sys_io := worker_exit (sys_io s), sys_pc := WExited\<rparr>)"

inductive_cases io_stepE: "io_step s s'"

section \<open>The invariant\<close>

definition counts_ok :: "io_state \<Rightarrow> bool" where
  "counts_ok io \<longleftrightarrow> length (gIoPending io) = IO_REQ_TYPE_COUNT
     \<and> (\<forall>ty. counted ty \<longrightarrow> gIoPending io ! nat ty = int (length (filter (\<lambda>r. fst r = ty) (requests io))))"

definition running_ok :: "worker \<Rightarrow> io_state \<Rightarrow> bool" where
  "running_ok pc io \<longleftrightarrow>
     (case pc of WRun a \<Rightarrow> gReqRunning io = Some a \<and> gReqList io = Some a | _ \<Rightarrow> gReqRunning io = None)"

text \<open>The requests no handler has been called for.\<close>

definition waiting :: "io_sys \<Rightarrow> (int \<times> nat) list" where
  "waiting s = (case sys_pc s of WRun _ \<Rightarrow> tl (requests (sys_io s)) | _ \<Rightarrow> requests (sys_io s))"

definition sys_ok :: "io_sys \<Rightarrow> bool" where
  "sys_ok s \<longleftrightarrow> sys_pc s = WExited \<or>
     (queue_ok (sys_io s) \<and> counts_ok (sys_io s) \<and> running_ok (sys_pc s) (sys_io s)
      \<and> sys_started s @ waiting s = sys_accepted s)"

lemma requests_frame: "io_heap t = io_heap s \<Longrightarrow> gReqList t = gReqList s \<Longrightarrow> requests t = requests s"
  by (simp add: requests_def split: option.split)

lemma queue_ok_frame: "io_heap t = io_heap s \<Longrightarrow> gReqList t = gReqList s \<Longrightarrow> gReqEnd t = gReqEnd s \<Longrightarrow>
    queue_ok t = queue_ok s"
  by (simp add: queue_ok_def queue_list_def)

lemma counts_append:
  assumes "counts_ok io" "requests io' = requests io @ [(ty, d)]" "gIoPending io' = gIoPending (count_request ty io)"
  shows "counts_ok io'"
  using assms by (auto simp: counts_ok_def count_request_def nth_list_update counted_def)

lemma counts_unlink:
  assumes "counts_ok io" "queue_list io (a # as)" "io_heap io a = Some r"
  shows "counts_ok (unlink_request a r io)"
proof -
  let ?io = "unlink_request a r io"
  have "requests io = (rq_type r, rq_data r) # requests ?io"
    using unlink_list [OF assms(2,3)] requests_list [OF assms(2)] by (metis list.collapse list.map_disc_iff list.distinct(1))
  moreover have "gIoPending ?io = (if counted (rq_type r) \<and> gIoPending io ! nat (rq_type r) > 0
       then (gIoPending io)[nat (rq_type r) := gIoPending io ! nat (rq_type r) - 1] else gIoPending io)"
    by (simp add: unlink_request_def Let_def)
  ultimately show ?thesis
    using assms(1) by (auto simp: counts_ok_def nth_list_update counted_def)
qed

lemma tl_append: "xs \<noteq> [] \<Longrightarrow> tl (xs @ ys) = tl xs @ ys"
  by (cases xs) simp_all

lemma running_nonempty:
  assumes "queue_ok io" "gReqList io = Some a"
  shows "requests io \<noteq> []"
proof -
  obtain as where as: "queue_list io as" using assms(1) by (auto simp: queue_ok_def)
  with assms(2) have "as \<noteq> []" by (auto simp: queue_list_def)
  then show ?thesis by (simp add: requests_list [OF as])
qed

definition runs :: "worker \<Rightarrow> bool" where
  "runs pc = (case pc of WRun _ \<Rightarrow> True | _ \<Rightarrow> False)"

lemma runs_simps [simp]: "runs (WRun a)" "\<not> runs WSleep" "\<not> runs WDrain" "\<not> runs WExited"
  by (simp_all add: runs_def)

lemma waiting_if: "waiting s = (if runs (sys_pc s) then tl (requests (sys_io s)) else requests (sys_io s))"
  by (simp add: waiting_def runs_def split: worker.split)

lemma runs_head: "runs pc \<Longrightarrow> running_ok pc io \<Longrightarrow> \<exists>a. gReqList io = Some a"
  by (auto simp: runs_def running_ok_def split: worker.splits)

text \<open>What an append does to a well-formed manager.\<close>

lemma append_result:
  assumes "queue_ok io" "fresh_cell mem io" "ioAppendLocked mem ty d io = Some (io', r)"
  obtains (appended) "r = IO_OK" "queue_ok io'" "requests io' = requests io @ [(ty, d)]"
      "gIoPending io' = gIoPending (count_request ty io)" "gReqRunning io' = gReqRunning io"
      "gReqList io \<noteq> None \<longrightarrow> gReqList io' = gReqList io"
  | (nomem) "r = IO_ERR_TOO_MANY_REQUESTS" "io' = io"
proof (cases mem)
  case None
  with assms(3) that(2) show ?thesis by (simp add: ioAppendLocked_def)
next
  case (Some a)
  obtain as where as: "queue_list io as" using assms(1) by (auto simp: queue_ok_def)
  have a: "io_heap io a = None" using assms(2) Some by (simp add: fresh_cell_def)
  have ne: "as \<noteq> [] \<longleftrightarrow> gReqList io \<noteq> None" using as by (cases as) (auto simp: queue_list_def)
  show ?thesis
    using append_list [OF as a, of ty d] assms(3) Some ne that(1) by (auto simp: queue_ok_def)
qed

lemma sys_ok_append:
  assumes "sys_ok s" "sys_pc s \<noteq> WExited" "fresh_cell mem (sys_io s)"
    and "ioAppendLocked mem ty d (sys_io s) = Some (io', r)"
  shows "sys_ok (s\<lparr>sys_io := io', sys_accepted := sys_accepted s @ (if r = IO_OK then [(ty, d)] else [])\<rparr>)"
proof -
  have q: "queue_ok (sys_io s)" and c: "counts_ok (sys_io s)" and rn: "running_ok (sys_pc s) (sys_io s)"
    and h: "sys_started s @ waiting s = sys_accepted s"
    using assms(1,2) by (auto simp: sys_ok_def)
  from q assms(3,4) show ?thesis
  proof (cases rule: append_result)
    case appended
    have "running_ok (sys_pc s) io'" using rn appended by (auto simp: running_ok_def split: worker.splits)
    moreover have "counts_ok io'" using counts_append [OF c appended(3,4)] .
    moreover have "waiting (s\<lparr>sys_io := io', sys_accepted := sys_accepted s @ [(ty, d)]\<rparr>) = waiting s @ [(ty, d)]"
      using appended(3) runs_head [OF _ rn] running_nonempty [OF q] by (auto simp: waiting_if tl_append)
    ultimately show ?thesis using appended h by (simp add: sys_ok_def)
  next
    case nomem
    then show ?thesis using assms(1) by (simp add: sys_ok_def waiting_if)
  qed
qed

lemma sys_ok_frame:
  assumes "sys_ok s" "io_heap io' = io_heap (sys_io s)" "gReqList io' = gReqList (sys_io s)" "gReqEnd io' = gReqEnd (sys_io s)"
    "gReqRunning io' = gReqRunning (sys_io s)" "gIoPending io' = gIoPending (sys_io s)"
  shows "sys_ok (s\<lparr>sys_io := io'\<rparr>)"
  using assms requests_frame [OF assms(2,3)] queue_ok_frame [OF assms(2-4)]
  by (auto simp: sys_ok_def counts_ok_def running_ok_def waiting_if split: worker.splits)

lemma sys_ok_unchanged: "sys_ok s \<Longrightarrow> sys_ok (s\<lparr>sys_io := sys_io s, sys_accepted := sys_accepted s @ []\<rparr>)"
  by (simp add: sys_ok_def waiting_if)

lemma io_step_ok: "io_step s s' \<Longrightarrow> sys_ok s \<Longrightarrow> sys_ok s'"
proof (induction rule: io_step.induct)
  case (put s mem ty d io' r)
  show ?case
  proof (cases "isIOBlocked (sys_io s) \<or> ioGetHandler ty (sys_io s) = None")
    case True
    with put show ?thesis by (auto simp: ioPutRequest_def sys_ok_def waiting_if split: if_splits)
  next
    case False
    with put.hyps(3) have "ioAppendLocked mem ty d (sys_io s) = Some (io', r)" by (auto simp: ioPutRequest_def split: if_splits)
    from sys_ok_append [OF put.prems put.hyps(1,2) this] show ?thesis .
  qed
next
  case (put_unless s mem ty d io' r)
  let ?scan = "waiting_scan (io_heap (sys_io s)) (gReqRunning (sys_io s)) ty d (gReqList (sys_io s))"
  show ?case
  proof (cases "isIOBlocked (sys_io s) \<or> ioGetHandler ty (sys_io s) = None \<or> ?scan = Some True")
    case True
    with put_unless show ?thesis by (auto simp: ioPutRequestUnlessWaiting_def sys_ok_def waiting_if split: if_splits)
  next
    case False
    with put_unless.hyps(3) have "?scan = Some False \<and> ioAppendLocked mem ty d (sys_io s) = Some (io', r)"
      by (auto simp: ioPutRequestUnlessWaiting_def split: option.splits bool.splits)
    with sys_ok_append [OF put_unless.prems put_unless.hyps(1,2)] show ?thesis by simp
  qed
next
  case (register s ty h)
  then show ?case by (intro sys_ok_frame) (auto simp: ioRegisterHandler_def split: option.splits)
next
  case (block s b)
  then show ?case by (intro sys_ok_frame) (auto simp: ioBlockOps_flag_def)
next
  case (terminate s)
  then show ?case by (intro sys_ok_frame) (auto simp: ioEnd_def)
next
  case (wake s)
  then show ?case by (auto simp: sys_ok_def running_ok_def waiting_if)
next
  case (start s a r)
  then obtain as where q: "queue_list (sys_io s) as" by (auto simp: sys_ok_def queue_ok_def)
  with start.hyps(3) obtain bs where as: "as = a # bs" by (cases as) (auto simp: queue_list_def)
  let ?io = "(sys_io s)\<lparr>gReqRunning := Some a\<rparr>"
  have rq: "requests ?io = requests (sys_io s)" by (rule requests_frame) simp_all
  have "queue_ok ?io = queue_ok (sys_io s)" by (rule queue_ok_frame) simp_all
  moreover have "requests (sys_io s) = (rq_type r, rq_data r) # tl (requests (sys_io s))"
    using unlink_list(3) [OF q [unfolded as] start.hyps(4)] requests_list [OF q] as by (metis list.collapse list.map_disc_iff list.distinct(1))
  ultimately show ?case
    using start rq by (auto simp: sys_ok_def running_ok_def waiting_if counts_ok_def)
next
  case (finish s a r)
  then have ok: "queue_ok (sys_io s)" "counts_ok (sys_io s)" "gReqList (sys_io s) = Some a"
    "sys_started s @ tl (requests (sys_io s)) = sys_accepted s"
    by (auto simp: sys_ok_def running_ok_def waiting_if)
  then obtain as where q: "queue_list (sys_io s) as" by (auto simp: queue_ok_def)
  with ok(3) obtain bs where as: "as = a # bs" by (cases as) (auto simp: queue_list_def)
  note u = unlink_list [OF q [unfolded as] finish.hyps(2)]
  have "counts_ok (unlink_request a r (sys_io s))"
    using counts_unlink [OF ok(2) q [unfolded as] finish.hyps(2)] .
  with u ok(4) show ?case by (auto simp: sys_ok_def running_ok_def waiting_if queue_ok_def)
next
  case (drained s)
  then show ?case by (auto simp: sys_ok_def running_ok_def waiting_if)
next
  case (quit s)
  then show ?case by (simp add: sys_ok_def)
qed

lemma boot_ok: "sys_ok (boot simple)"
proof -
  have "queue_list (ioInit simple static_io) []"
    by (simp add: queue_list_def ioInit_def static_io_def ioRegisterHandler_def)
  moreover from this have "requests (ioInit simple static_io) = []" by (simp add: requests_list)
  ultimately show ?thesis
    by (auto simp: sys_ok_def boot_def queue_ok_def counts_ok_def running_ok_def waiting_if ioInit_def static_io_def
        ioRegisterHandler_def counted_def)
qed

lemma reachable_ok: "io_step\<^sup>*\<^sup>* (boot simple) s \<Longrightarrow> sys_ok s"
  by (induction rule: rtranclp_induct) (auto simp: boot_ok io_step_ok)

section \<open>Properties\<close>

text \<open>
  C4: in every state the manager can reach before its worker exits, the requests whose handler was
  called, followed by those waiting, are exactly the accepted requests in the order they were
  accepted: none is lost, repeated or overtaken. The linked queue is well formed, its tail pointer
  is its last node, no node is leaked, and every per-type counter is the number of such requests
  in the queue.
\<close>

theorem io_worker_fifo:
  assumes "io_step\<^sup>*\<^sup>* (boot simple) s" "sys_pc s \<noteq> WExited"
  shows "sys_started s @ waiting s = sys_accepted s \<and> queue_ok (sys_io s)
    \<and> (\<forall>ty. counted ty \<longrightarrow> ioGetPending ty (sys_io s) = int (length (filter (\<lambda>r. fst r = ty) (requests (sys_io s)))))"
  using reachable_ok [OF assms(1)] assms(2) by (simp add: sys_ok_def counts_ok_def ioGetPending_def)

definition posted :: io_sys where
  "posted = (boot 9)\<lparr>sys_io := fst (the (ioPutRequest (Some 100) 1 7 (sys_io (boot 9)))), sys_accepted := [(1, 7)]\<rparr>"

lemma posted_put: "ioPutRequest (Some 100) 1 7 (sys_io (boot 9)) = Some (sys_io posted, IO_OK)"
  by (simp add: posted_def boot_def ioInit_def static_io_def ioRegisterHandler_def ioPutRequest_def ioGetHandler_def
      ioAppendLocked_def)

lemma posted_step: "io_step (boot 9) posted"
proof -
  have "io_step (boot 9) ((boot 9)\<lparr>sys_io := sys_io posted,
      sys_accepted := sys_accepted (boot 9) @ (if IO_OK = IO_OK then [(1, 7)] else [])\<rparr>)"
    by (rule io_step.put [OF _ _ posted_put])
      (simp_all add: boot_def fresh_cell_def ioInit_def static_io_def ioRegisterHandler_def)
  then show ?thesis by (simp add: posted_def boot_def)
qed

theorem io_worker_fifo_witness:
  "sys_started posted @ waiting posted = [(1, 7)] \<and> ioGetPending 1 (sys_io posted) = 1"
proof -
  have r: "io_step\<^sup>*\<^sup>* (boot 9) posted" using posted_step by blast
  have acc: "sys_accepted posted = [(1, 7)]" "sys_pc posted = WSleep" "sys_started posted = []"
    by (simp_all add: posted_def boot_def)
  then have w: "waiting posted = requests (sys_io posted)" by (simp add: waiting_if)
  have c: "counted 1" by (simp add: counted_def)
  from io_worker_fifo [OF r] acc c w show ?thesis by simp
qed





text \<open>
  C7: stopping the worker with requests in the queue frees the nodes but keeps the tail pointer and the
  counters. Until the next \<open>ioInit\<close> a post that passes its checks writes through the freed tail node,
  and \<open>ioInit\<close>, which empties the queue, keeps the counters of the requests that were dropped.
\<close>

theorem io_exit_leaves_stale:
  assumes "queue_ok io" "requests io \<noteq> []"
  shows "ioAppendLocked (Some a) ty d (worker_exit io) = None
    \<and> requests (ioInit simple (worker_exit io)) = []
    \<and> ioGetPending ty (ioInit simple (worker_exit io)) = ioGetPending ty io"
proof -
  obtain as where as: "queue_list io as" using assms(1) by (auto simp: queue_ok_def)
  with assms(2) have "as \<noteq> []" by (auto simp: requests_list)
  with as have e: "gReqEnd io = Some (last as)" by (simp add: queue_list_def)
  have "queue_list (ioInit simple (worker_exit io)) []"
    by (simp add: queue_list_def ioInit_def worker_exit_def ioRegisterHandler_def)
  then have "requests (ioInit simple (worker_exit io)) = []" by (simp add: requests_list)
  with e show ?thesis
    by (simp add: ioAppendLocked_def worker_exit_def ioGetPending_def ioInit_def ioRegisterHandler_def)
qed

theorem io_exit_leaves_stale_witness:
  "requests (ioInit 9 (worker_exit (sys_io posted))) = [] \<and> ioGetPending 1 (ioInit 9 (worker_exit (sys_io posted))) = 1"
proof -
  have r: "io_step\<^sup>*\<^sup>* (boot 9) posted" using posted_step by blast
  have "sys_ok posted" by (rule reachable_ok [OF r])
  moreover have pc: "sys_pc posted = WSleep" by (simp add: posted_def boot_def)
  moreover have "sys_started posted = []" "sys_accepted posted = [(1, 7)]" by (simp_all add: posted_def boot_def)
  ultimately have q: "queue_ok (sys_io posted)" "requests (sys_io posted) = [(1, 7)]" "counts_ok (sys_io posted)"
    by (simp_all add: sys_ok_def waiting_if)
  have "counted 1" by (simp add: counted_def)
  moreover from this q(3) have "gIoPending (sys_io posted) ! nat 1 = int (length (filter (\<lambda>r. fst r = 1) (requests (sys_io posted))))"
    unfolding counts_ok_def by blast
  ultimately have "ioGetPending 1 (sys_io posted) = 1" using q(2) by (simp add: ioGetPending_def)
  with io_exit_leaves_stale [OF q(1), of 0 1 0 9] q(2) show ?thesis by simp
qed

text \<open>
  C5: the linked queue with its tail pointer implements a first-in first-out list: for any sequence of
  appends into unused cells and of unlinks of the head, what was unlinked followed by what is left is
  what was there followed by what was appended.
\<close>

theorem io_queue_refines_fifo:
  assumes "queue_ok s" "ioq.legal ops s"
  shows "fst (ioq.exec ops s) @ requests (snd (ioq.exec ops s)) = requests s @ pushed ops
    \<and> queue_ok (snd (ioq.exec ops s))"
  using ioq.fifo [OF assms] ioq.exec_inv [OF assms] by simp

theorem io_queue_refines_fifo_witness:
  "fst (ioq.exec [Push 5 (1, 7), Push 6 (2, 8), Pop] (ioInit 9 static_io))
     @ requests (snd (ioq.exec [Push 5 (1, 7), Push 6 (2, 8), Pop] (ioInit 9 static_io))) = [(1, 7), (2, 8)]"
proof -
  let ?s = "ioInit 9 static_io"
  have q: "queue_list ?s []" by (simp add: queue_list_def ioInit_def static_io_def ioRegisterHandler_def)
  then have ok: "queue_ok ?s" "requests ?s = []" by (auto simp: queue_ok_def requests_list)
  have u: "io_heap ?s 5 = None" "io_heap (push_req 5 (1, 7) ?s) 6 = None"
    by (simp_all add: push_req_def ioAppendLocked_def link_request_def ioInit_def static_io_def ioRegisterHandler_def)
  have "requests (push_req 6 (2, 8) (push_req 5 (1, 7) ?s)) = [(1, 7), (2, 8)]"
    using ioq.push_contents [OF ioq.push_inv [OF ok(1) u(1)] u(2)] ioq.push_contents [OF ok(1) u(1)] ok(2) by simp
  then have "ioq.legal [Push 5 (1, 7), Push 6 (2, 8), Pop] ?s" using u by simp
  from io_queue_refines_fifo [OF ok(1) this] ok(2) show ?thesis by simp
qed

text \<open>The handler table.\<close>

definition handlers_ok :: "io_state \<Rightarrow> bool" where
  "handlers_ok s \<longleftrightarrow> length (gRequestHandlers s) \<le> MAX_IO_HANDLERS \<and> distinct (map fst (gRequestHandlers s))"

text \<open>
  Registering a handler keeps the table within its 64 slots and with one handler per type, never
  replaces a registered handler, and after a success the dispatch finds exactly the new handler; each
  refusal leaves the table as it was.
\<close>

theorem ioRegisterHandler_table:
  assumes "handlers_ok s" "ioRegisterHandler ty h s = (s', r)"
  shows "handlers_ok s' \<and> (r \<noteq> IO_OK \<longrightarrow> s' = s)
    \<and> (r = IO_OK \<longrightarrow> h \<noteq> None \<and> ioGetHandler ty s = None
        \<and> (\<forall>t. ioGetHandler t s' = (if t = ty then h else ioGetHandler t s)))"
proof -
  have f: "find (\<lambda>e. fst e = t) (xs @ [(ty, k)]) =
      (case find (\<lambda>e. fst e = t) xs of Some e \<Rightarrow> Some e | None \<Rightarrow> if ty = t then Some (ty, k) else None)"
    for t xs and k :: nat by (induction xs) auto
  have none: "find (\<lambda>e. fst e = t) xs = None" if "\<forall>e \<in> set xs. fst e \<noteq> t" for t and xs :: "(int \<times> nat) list"
    using that by (induction xs) auto
  show ?thesis
    using assms
    by (auto simp: ioRegisterHandler_def handlers_ok_def ioGetHandler_def f none list_ex_iff split: option.splits if_splits)
qed

theorem ioRegisterHandler_table_witness:
  "ioGetHandler 2 (fst (ioRegisterHandler 2 (Some 5) (ioInit 9 static_io))) = Some 5"
proof -
  have "handlers_ok (ioInit 9 static_io)"
    by (simp add: handlers_ok_def ioInit_def static_io_def ioRegisterHandler_def)
  moreover have "ioRegisterHandler 2 (Some 5) (ioInit 9 static_io) =
      (fst (ioRegisterHandler 2 (Some 5) (ioInit 9 static_io)), IO_OK)"
    by (simp add: ioInit_def static_io_def ioRegisterHandler_def)
  ultimately show ?thesis using ioRegisterHandler_table [of "ioInit 9 static_io" 2 "Some 5"] by fastforce
qed

text \<open>
  \<open>ioBlockOpsTimed\<close> with a bound waits at most that many ticks and stops at the first tick with an
  empty queue; without a bound it stops exactly when the queue is empty at some tick, and at the
  first such tick.
\<close>

theorem ioBlockOpsTimed_wait:
  "(0 \<le> timeout \<longrightarrow> (\<exists>k. block_wait pending i timeout = Some k \<and> i \<le> k \<and> int (k - i) \<le> timeout
        \<and> (\<not> pending k \<or> int (k - i) = timeout) \<and> (\<forall>j. i \<le> j \<and> j < k \<longrightarrow> pending j)))
   \<and> (timeout < 0 \<and> (\<exists>k \<ge> i. \<not> pending k) \<longrightarrow>
        (\<exists>k \<ge> i. block_wait pending i timeout = Some k \<and> \<not> pending k \<and> (\<forall>j. i \<le> j \<and> j < k \<longrightarrow> pending j)))"
proof (intro conjI impI)
  assume "0 \<le> timeout"
  then show "\<exists>k. block_wait pending i timeout = Some k \<and> i \<le> k \<and> int (k - i) \<le> timeout
        \<and> (\<not> pending k \<or> int (k - i) = timeout) \<and> (\<forall>j. i \<le> j \<and> j < k \<longrightarrow> pending j)"
  proof (induction "nat timeout" arbitrary: i timeout)
    case 0
    then show ?case by (subst block_wait.simps) (auto intro!: exI [of _ i])
  next
    case (Suc n)
    show ?case
    proof (cases "pending i")
      case False
      with Suc.prems show ?thesis by (subst block_wait.simps) (auto intro!: exI [of _ i])
    next
      case True
      have "n = nat (timeout - 1)" "0 \<le> timeout - 1" using Suc.hyps(2) by auto
      from Suc.hyps(1) [OF this, of "Suc i"] obtain k where k: "block_wait pending (Suc i) (timeout - 1) = Some k"
        "Suc i \<le> k" "int (k - Suc i) \<le> timeout - 1" "\<not> pending k \<or> int (k - Suc i) = timeout - 1"
        "\<forall>j. Suc i \<le> j \<and> j < k \<longrightarrow> pending j" by blast
      have "block_wait pending i timeout = Some k"
        using True Suc.hyps(2) k(1) by (subst block_wait.simps) auto
      moreover have "\<forall>j. i \<le> j \<and> j < k \<longrightarrow> pending j" using k(5) True by (metis Suc_leI le_neq_implies_less)
      ultimately show ?thesis using k(2-4) by (intro exI [of _ k]) auto
    qed
  qed
next
  assume a: "timeout < 0 \<and> (\<exists>k \<ge> i. \<not> pending k)"
  define k where "k = (LEAST k. i \<le> k \<and> \<not> pending k)"
  have k: "i \<le> k" "\<not> pending k" using a LeastI_ex [of "\<lambda>k. i \<le> k \<and> \<not> pending k"] by (auto simp: k_def)
  have less: "pending j" if "i \<le> j" "j < k" for j using that not_less_Least [of j "\<lambda>k. i \<le> k \<and> \<not> pending k"] by (auto simp: k_def)
  have "block_wait pending j timeout = Some k" if "i \<le> j" "j \<le> k" for j
    using that
  proof (induction "k - j" arbitrary: j)
    case 0
    then show ?case using k(2) by (subst block_wait.simps) simp
  next
    case (Suc n)
    then have "block_wait pending (Suc j) timeout = Some k" by (intro Suc.hyps(1)) auto
    then show ?case using a less [of j] Suc.prems Suc.hyps(2) by (subst block_wait.simps) auto
  qed
  then show "\<exists>k \<ge> i. block_wait pending i timeout = Some k \<and> \<not> pending k \<and> (\<forall>j. i \<le> j \<and> j < k \<longrightarrow> pending j)"
    using k less by blast
qed

theorem ioBlockOpsTimed_wait_witness:
  "\<exists>k. block_wait (\<lambda>j. j < 3) 0 10 = Some k \<and> \<not> k < 3 \<and> (\<forall>j. j < k \<longrightarrow> j < 3)"
proof -
  obtain k where k: "block_wait (\<lambda>j. j < 3) 0 10 = Some k" "int k \<le> 10" "\<not> k < 3 \<or> int k = 10" "\<forall>j. j < k \<longrightarrow> j < 3"
    using ioBlockOpsTimed_wait [of 10 "\<lambda>j. j < 3" 0] by auto
  then show ?thesis by auto
qed

end
