(* ===== verification/CheatNames.thy ===== *)
theory CheatNames
  imports Prelude
begin

text \<open>
  How \<open>src/cheatconfig.c\<close> compares cheat names: case and spacing are ignored. \<open>normalize_out\<close> is what
  the loop of \<open>cheatConfigNormalize\<close> stores in the caller's buffer before its NUL; the NUL goes to the
  index after it, so the write is inside the buffer exactly when the text is shorter than the buffer.
\<close>

abbreviation "CHEAT_NAME_MAX \<equiv> (128::nat)"
abbreviation "SPACE \<equiv> CHR '' ''"

fun normalize_out :: "nat \<Rightarrow> cstring \<Rightarrow> cstring \<Rightarrow> bool \<Rightarrow> cstring" where
  "normalize_out outSize [] out pendingSpace = out"
| "normalize_out outSize (c # source) out pendingSpace =
     (if length out + 1 < outSize then
        if isspace c then normalize_out outSize source out (length out > 0)
        else normalize_out outSize source (out @ (if pendingSpace then [SPACE] else []) @ [tolower c]) False
      else out)"

datatype normalized = Untouched | Text cstring | Overflow cstring

definition cheatConfigNormalize :: "cstring \<Rightarrow> nat \<Rightarrow> normalized" where
  "cheatConfigNormalize source outSize =
     (if outSize = 0 then Untouched
      else let out = normalize_out outSize (dropWhile isspace source) [] False
           in if length out < outSize then Text out else Overflow out)"

text \<open>The text in the buffer of \<open>CHEAT_NAME_MAX + 1\<close> bytes both callers use.\<close>

definition normal_name :: "cstring \<Rightarrow> cstring" where
  "normal_name s = normalize_out (CHEAT_NAME_MAX + 1) (dropWhile isspace s) [] False"

definition cheatConfigIsMasterCode :: "cstring option \<Rightarrow> bool" where
  "cheatConfigIsMasterCode name =
     (case name of
        None \<Rightarrow> False
      | Some n \<Rightarrow> normal_name n \<in> {''mastercode'', ''master code'', ''enable code (must be on)''})"

definition cheatConfigNamesMatch :: "cstring \<Rightarrow> cstring \<Rightarrow> bool" where
  "cheatConfigNamesMatch a b \<longleftrightarrow> normal_name a = normal_name b"

lemma normalize_out_length:
  "length out + of_bool p \<le> n \<Longrightarrow> length (normalize_out outSize s out p) \<le> n + length s"
proof (induction outSize s out p arbitrary: n rule: normalize_out.induct)
  case (2 outSize c s out p)
  show ?case
  proof (cases "isspace c")
    case True
    then show ?thesis using 2(1) [OF _ True, of "Suc n"] 2(3) by auto
  next
    case False
    then show ?thesis using 2(2) [OF _ False, of "Suc n"] 2(3) by auto
  qed
qed simp

lemma normalize_out_bound:
  "length out \<le> outSize \<Longrightarrow> length (normalize_out outSize s out p) \<le> outSize"
  by (induction outSize s out p rule: normalize_out.induct) auto

lemma normalize_name: "length s \<le> CHEAT_NAME_MAX \<Longrightarrow> cheatConfigNormalize s (CHEAT_NAME_MAX + 1) = Text (normal_name s)"
proof -
  assume "length s \<le> CHEAT_NAME_MAX"
  then have "length (dropWhile isspace s) \<le> CHEAT_NAME_MAX" using length_dropWhile_le [of isspace s] by linarith
  then have "length (normal_name s) \<le> CHEAT_NAME_MAX"
    using normalize_out_length [of "[]" False 0 "CHEAT_NAME_MAX + 1" "dropWhile isspace s"] by (simp add: normal_name_def)
  then show ?thesis by (simp add: cheatConfigNormalize_def normal_name_def)
qed

lemma normalize_out_letters:
  "\<not> isspace c \<Longrightarrow> length out + k < outSize \<Longrightarrow>
    normalize_out outSize (replicate k c @ r) out False = normalize_out outSize r (out @ replicate k (tolower c)) False"
proof (induction k arbitrary: out)
  case (Suc k)
  then show ?case using Suc.IH [of "out @ [tolower c]"] by simp
qed simp

text \<open>
  A cheat name (at most 128 characters) is normalised inside the buffer, but a longer text, as a
  hand-edited CFG value can be, is not: with 127 letters, a space and a letter the loop's last turn
  stores two characters and the NUL lands one byte past the 129-byte buffer.
\<close>

theorem cheatConfigNormalize_bounds:
  "(length s \<le> CHEAT_NAME_MAX \<longrightarrow> cheatConfigNormalize s (CHEAT_NAME_MAX + 1) = Text (normal_name s))
   \<and> (\<exists>out. length out = CHEAT_NAME_MAX + 1 \<and>
        cheatConfigNormalize (replicate 127 (CHR ''x'') @ '' x'') (CHEAT_NAME_MAX + 1) = Overflow out)"
proof -
  let ?s = "replicate 127 (CHR ''x'') @ '' x''"
  have x: "\<not> isspace (CHR ''x'')" "isspace (CHR '' '')" "tolower (CHR ''x'') = CHR ''x''"
    by (simp_all add: isspace_def tolower_def isupper_def ord_of_def)
  then have d: "dropWhile isspace ?s = ?s" by (intro dropWhile_id) (simp add: hd_append)
  have "normalize_out (CHEAT_NAME_MAX + 1) ?s [] False = replicate 127 (CHR ''x'') @ '' x''"
    by (subst normalize_out_letters) (use x in simp_all)
  then have "cheatConfigNormalize ?s (CHEAT_NAME_MAX + 1) = Overflow ?s"
    unfolding cheatConfigNormalize_def d by simp
  then show ?thesis using normalize_name by (intro conjI exI [of _ ?s]) simp_all
qed

theorem cheatConfigNormalize_bounds_witness:
  "length ''Infinite Health'' \<le> CHEAT_NAME_MAX
   \<and> cheatConfigNormalize ''Infinite Health'' (CHEAT_NAME_MAX + 1) = Text (normal_name ''Infinite Health'')"
  using cheatConfigNormalize_bounds [of "''Infinite Health''"] by simp

end
