(* ===== verification/CheatParser.thy ===== *)
theory CheatParser
  imports ConfigStore FileBuffer CheatNames
begin

text \<open>
  The cheat file parser of \<open>src/cheatman.c\<close>: lines that hold sixteen hexadecimal digits are codes,
  other lines are cheat names, \<open>//\<close> and \<open>#\<close> start comments. The table \<open>gCheats\<close> is the list of the
  entries in use (the rest of the zeroed table holds nothing), and an entry's \<open>codes\<close> array is the
  list of the codes stored in it, followed by zeros.
\<close>

section \<open>Data\<close>

abbreviation "MAX_HOOKS \<equiv> (5::nat)"
abbreviation "MAX_CODES \<equiv> (250::nat)"
abbreviation "MAX_CHEATLIST \<equiv> (510::nat)"
abbreviation "CODE_DIGITS \<equiv> (16::nat)"
abbreviation "CHEAT_LINE_MAX \<equiv> (255::nat)"

type_synonym code = "32 word \<times> 32 word"

record cheat_entry =
  ce_name :: cstring
  ce_codes :: "code list"
  ce_enabled :: bool

section \<open>Lines\<close>

text \<open>\<open>sscanf ("%08X")\<close> on hexadecimal digits.\<close>

definition hex_word :: "cstring \<Rightarrow> 32 word" where
  "hex_word s = foldl (\<lambda>a c. a * 16 + word_of_int (fromHex c)) 0 s"

definition make_code :: "cstring \<Rightarrow> code" where
  "make_code s =
     (let digits = take CODE_DIGITS (filter isxdigit s)
      in if length digits > 8 then (hex_word (take 8 digits), hex_word (take 8 (drop 8 digits))) else (0, 0))"

definition is_cheat_code :: "cstring \<Rightarrow> bool" where
  "is_cheat_code s \<longleftrightarrow>
     list_all (\<lambda>c. isxdigit c \<or> isspace c) s \<and> length (filter isxdigit s) = CODE_DIGITS"

definition parse_line :: "cstring \<Rightarrow> code" where
  "parse_line line = (if is_cheat_code line then make_code line else (0, 0))"

definition is_cmt_str :: "cstring \<Rightarrow> bool" where
  "is_cmt_str s \<longleftrightarrow> (length s \<ge> 2 \<and> strneq 2 s ''//'') \<or> (s \<noteq> [] \<and> hd s = CHR ''#'')"

fun term_str :: "cstring \<Rightarrow> cstring" where
  "term_str [] = []"
| "term_str (c # s) = (if is_cmt_str (c # s) then [] else c # term_str s)"

definition is_empty_str :: "cstring \<Rightarrow> bool" where
  "is_empty_str s \<longleftrightarrow> list_all (\<lambda>c. \<not> isgraph c) s"

text \<open>A text with no printable character is left as it is.\<close>

definition trim_str :: "cstring \<Rightarrow> cstring" where
  "trim_str s = (if is_empty_str s then s else rstrip isspace (dropWhile isspace s))"

section \<open>The buffer\<close>

record parse_state =
  ps_table :: "cheat_entry list"
  ps_name :: cstring
  ps_code_index :: nat

text \<open>\<open>gCheatMode\<close> is the argument \<open>mode\<close>.\<close>

definition store_code :: "code \<Rightarrow> parse_state \<Rightarrow> parse_state" where
  "store_code code st =
     (if ps_table st \<noteq> [] \<and> ps_code_index st < MAX_CHEATLIST then
        let e = last (ps_table st); i = ps_code_index st;
            codes = (if i < length (ce_codes e) then (ce_codes e)[i := code] else ce_codes e @ [code])
        in st\<lparr>ps_table := butlast (ps_table st) @ [e\<lparr>ce_codes := codes\<rparr>], ps_code_index := i + 1\<rparr>
      else st)"

definition open_cheat :: "int \<Rightarrow> parse_state \<Rightarrow> parse_state" where
  "open_cheat mode st =
     (let name = take CHEAT_NAME_MAX (ps_name st)
      in st\<lparr>ps_table := ps_table st @ [\<lparr>ce_name = name, ce_codes = [], ce_enabled = (mode = 0 \<or> cheatConfigIsMasterCode (Some name))\<rparr>],
            ps_name := []\<rparr>)"

text \<open>One line of at most 255 characters: the state after it, and whether the parser stops.\<close>

definition parse_buf_line :: "int \<Rightarrow> cstring \<Rightarrow> parse_state \<Rightarrow> parse_state \<times> bool" where
  "parse_buf_line mode raw st =
     (if is_empty_str raw then (st, False)
      else
        let line = trim_str (term_str raw) in
        if \<not> is_cheat_code line \<and> line \<noteq> [] then
          (st\<lparr>ps_name := take CHEAT_NAME_MAX line, ps_code_index := 0\<rparr>, False)
        else
          let code = parse_line line in
          if code = (0, 0) then (st, False)
          else if ps_name st \<noteq> [] then
            if length (ps_table st) \<ge> MAX_CODES then (st, True)
            else (store_code code (open_cheat mode st), False)
          else (store_code code st, False))"

function parse_loop :: "int \<Rightarrow> cstring \<Rightarrow> parse_state \<Rightarrow> parse_state" where
  "parse_loop mode buf st =
     (if buf = [] then st
      else
        let lfIdx = strchr buf LF;
            len = min CHEAT_LINE_MAX (case lfIdx of Some i \<Rightarrow> i | None \<Rightarrow> length buf);
            (st', stop) = parse_buf_line mode (take len buf) st
        in if stop then st'
           else parse_loop mode (drop (if lfIdx = None then len else len + 1) buf) st')"
  by pat_completeness auto
termination
  by (relation "measure (\<lambda>(_, buf, _). length buf)") (auto split: option.splits dest: strchr_Some_mem)

declare parse_loop.simps [simp del]

definition parse_init :: parse_state where
  "parse_init = \<lparr>ps_table = [], ps_name = [], ps_code_index = 0\<rparr>"

definition parse_buf :: "int \<Rightarrow> cstring \<Rightarrow> cheat_entry list" where
  "parse_buf mode buf = ps_table (parse_loop mode buf parse_init)"

text \<open>\<open>load_cheats_buf\<close>: \<open>mem\<close> is the allocation of the table; the table and the result.\<close>

definition load_cheats_buf ::
  "int \<Rightarrow> bool \<Rightarrow> cstring option \<Rightarrow> cheat_entry list option \<Rightarrow> cheat_entry list option \<times> int" where
  "load_cheats_buf mode mem buf table =
     (case buf of
        None \<Rightarrow> (table, - 1)
      | Some b \<Rightarrow>
          if table = None \<and> \<not> mem then (None, - 1)
          else (Some (parse_buf mode b), if mode = 0 then 0 else 1))"

section \<open>Which cheats apply\<close>

record cheats_config =
  cc_source :: "32 word"
  cc_enable :: "32 word"
  cc_mode :: "32 word"
  cc_fromGlobal :: bool
  cc_image :: "32 word"

definition get_or :: "config_set option \<Rightarrow> cstring \<Rightarrow> 32 word \<Rightarrow> 32 word" where
  "get_or cs key d = (case configGetInt cs (Some key) of Some v \<Rightarrow> v | None \<Rightarrow> d)"

definition InitCheatsConfig :: "config_set option \<Rightarrow> config_set option \<Rightarrow> cheat_entry list option
    \<Rightarrow> cheats_config \<times> cheat_entry list option" where
  "InitCheatsConfig configSet configGame table =
     (let c = (case configGetInt configSet (Some ''$CheatsSource'') of
                 Some src \<Rightarrow>
                   let en = get_or configSet ''$EnableCheat'' 0
                   in \<lparr>cc_source = src, cc_enable = en,
                       cc_mode = (if en \<noteq> 0 then get_or configSet ''$CheatMode'' 0 else 0),
                       cc_fromGlobal = False, cc_image = get_or configSet ''$EnableImage'' 0\<rparr>
               | None \<Rightarrow>
                   let en = get_or configGame ''$EnableCheat'' 0
                   in \<lparr>cc_source = 0, cc_enable = en,
                       cc_mode = (if en \<noteq> 0 then get_or configGame ''$CheatMode'' 0 else 0),
                       cc_fromGlobal = (en \<noteq> 0), cc_image = get_or configGame ''$EnableImage'' 0\<rparr>)
      in (c, if cc_enable c = 0 then None else table))"

section \<open>Codes as text\<close>

fun hexn :: "nat \<Rightarrow> nat \<Rightarrow> cstring" where
  "hexn 0 n = []"
| "hexn (Suc k) n = hexn k (n div 16) @ [htab ! (n mod 16)]"

definition hex8 :: "32 word \<Rightarrow> cstring" where
  "hex8 w = hexn 8 (unat w)"

definition print_code :: "code \<Rightarrow> cstring" where
  "print_code c = hex8 (fst c) @ '' '' @ hex8 (snd c)"

lemma length_hexn [simp]: "length (hexn k n) = k"
  by (induction k arbitrary: n) simp_all

lemma hexn_chars: "c \<in> set (hexn k n) \<Longrightarrow> c \<in> set htab"
proof (induction k arbitrary: n)
  case (Suc k)
  have "htab ! (n mod 16) \<in> set htab" by (rule nth_mem) (simp add: htab_def)
  with Suc show ?case by auto
qed simp

lemma htab_class: "c \<in> set htab \<Longrightarrow> isxdigit c \<and> isgraph c \<and> c \<noteq> CHR ''/'' \<and> c \<noteq> CHR ''#'' \<and> c \<noteq> LF \<and> c \<noteq> NUL"
proof -
  have "list_all (\<lambda>c. isxdigit c \<and> isgraph c \<and> c \<noteq> CHR ''/'' \<and> c \<noteq> CHR ''#'' \<and> c \<noteq> LF \<and> c \<noteq> NUL) htab"
    by (simp add: htab_def isxdigit_def isdigit_def isgraph_def ord_of_def)
  then show "c \<in> set htab \<Longrightarrow> ?thesis" by (simp add: list_all_iff)
qed

lemma hex_word_snoc: "hex_word (s @ [c]) = hex_word s * 16 + word_of_int (fromHex c)"
  by (simp add: hex_word_def)

lemma hex_word_hexn: "hex_word (hexn k n) = of_nat (n mod 16 ^ k)"
proof (induction k arbitrary: n)
  case 0
  then show ?case by (simp add: hex_word_def)
next
  case (Suc k)
  have "fromHex (htab ! (n mod 16)) = int (n mod 16)" by (rule fromHex_htab) simp
  then have "hex_word (hexn (Suc k) n) = of_nat ((n div 16) mod 16 ^ k * 16 + n mod 16)"
    using Suc.IH [of "n div 16"] by (simp only: hexn.simps hex_word_snoc of_nat_add of_nat_mult of_nat_numeral of_int_of_nat_eq)
  also have "(n div 16) mod 16 ^ k * 16 + n mod 16 = n mod 16 ^ Suc k"
    by (metis add.commute mod_mult2_eq mult.commute power_Suc)
  finally show ?case .
qed

lemma hex_word_hex8: "hex_word (hex8 w) = w"
proof -
  have "unat w < 16 ^ 8" using unsigned_less [of w] by simp
  then show ?thesis by (simp add: hex8_def hex_word_hexn)
qed

lemma hex8_chars: "c \<in> set (hex8 w) \<Longrightarrow> c \<in> set htab" and length_hex8 [simp]: "length (hex8 w) = 8"
  by (auto simp: hex8_def dest: hexn_chars)

lemma filter_hex8: "filter isxdigit (hex8 w) = hex8 w"
  using hex8_chars htab_class by (auto intro: filter_True)

lemma not_xdigit_space: "\<not> isxdigit (CHR '' '')" "isspace (CHR '' '')"
  by (simp_all add: isxdigit_def isdigit_def isspace_def ord_of_def)

lemma make_print_code: "make_code (print_code c) = c"
  by (simp add: make_code_def print_code_def filter_hex8 not_xdigit_space hex_word_hex8 Let_def)

lemma is_cheat_print_code: "is_cheat_code (print_code c)"
  using hex8_chars htab_class
  by (auto simp: is_cheat_code_def print_code_def filter_hex8 not_xdigit_space list_all_iff)

section \<open>Lines of a written file\<close>

lemma term_str_id: "CHR ''/'' \<notin> set s \<Longrightarrow> CHR ''#'' \<notin> set s \<Longrightarrow> term_str s = s"
proof (induction s)
  case (Cons c s)
  have "\<not> is_cmt_str (c # s)" using Cons.prems by (cases s) (auto simp: is_cmt_str_def strneq_def)
  with Cons show ?case by simp
qed simp

lemma trim_str_id: "s \<noteq> [] \<Longrightarrow> isgraph (hd s) \<Longrightarrow> isgraph (last s) \<Longrightarrow> trim_str s = s"
  by (simp add: trim_str_def dropWhile_id rstrip_id isgraph_not_space)

lemma not_empty_str: "s \<noteq> [] \<Longrightarrow> isgraph (hd s) \<Longrightarrow> \<not> is_empty_str s"
  by (cases s) (auto simp: is_empty_str_def)

lemma print_code_ends:
  "print_code c \<noteq> []" "isgraph (hd (print_code c))" "isgraph (last (print_code c))"
  "CHR ''/'' \<notin> set (print_code c)" "CHR ''#'' \<notin> set (print_code c)" "LF \<notin> set (print_code c)"
  "length (print_code c) = 17"
proof -
  have ne: "hex8 w \<noteq> []" for w by (metis length_hex8 list.size(3) zero_neq_numeral)
  have g: "x \<in> set (hex8 w) \<Longrightarrow> isgraph x \<and> x \<noteq> CHR ''/'' \<and> x \<noteq> CHR ''#'' \<and> x \<noteq> LF" for x w
    using hex8_chars htab_class by blast
  have "isgraph (hd (hex8 w))" "isgraph (last (hex8 w))" for w
    using g [OF hd_in_set [OF ne]] g [OF last_in_set [OF ne]] by blast+
  then show "isgraph (hd (print_code c))" "isgraph (last (print_code c))"
    using ne by (simp_all add: print_code_def)
  show "CHR ''/'' \<notin> set (print_code c)" "CHR ''#'' \<notin> set (print_code c)" "LF \<notin> set (print_code c)"
    using g by (auto simp: print_code_def)
qed (simp_all add: print_code_def)

lemma code_line:
  assumes "c \<noteq> (0, 0)" "ps_name st = []"
  shows "parse_buf_line mode (print_code c) st = (store_code c st, False)"
  using assms print_code_ends [of c] is_cheat_print_code [of c]
  by (simp add: parse_buf_line_def not_empty_str term_str_id trim_str_id parse_line_def make_print_code)

lemma first_code_line:
  assumes "c \<noteq> (0, 0)" "ps_name st \<noteq> []" "length (ps_table st) < MAX_CODES"
  shows "parse_buf_line mode (print_code c) st = (store_code c (open_cheat mode st), False)"
  using assms print_code_ends [of c] is_cheat_print_code [of c]
  by (simp add: parse_buf_line_def not_empty_str term_str_id trim_str_id parse_line_def make_print_code)

definition clean_name :: "cstring \<Rightarrow> bool" where
  "clean_name n \<longleftrightarrow> n \<noteq> [] \<and> length n \<le> CHEAT_NAME_MAX \<and> LF \<notin> set n \<and> term_str n = n
     \<and> isgraph (hd n) \<and> isgraph (last n) \<and> \<not> is_cheat_code n"

lemma name_line:
  "clean_name n \<Longrightarrow> parse_buf_line mode n st = (st\<lparr>ps_name := n, ps_code_index := 0\<rparr>, False)"
  by (simp add: clean_name_def parse_buf_line_def not_empty_str trim_str_id)

lemma parse_loop_line:
  assumes "LF \<notin> set l" "length l \<le> CHEAT_LINE_MAX" "parse_buf_line mode l st = (st', False)"
  shows "parse_loop mode (l @ LF # r) st = parse_loop mode r st'"
  using assms by (subst parse_loop.simps) (simp add: strchr_append)

lemma parse_loop_Nil [simp]: "parse_loop mode [] st = st"
  by (subst parse_loop.simps) simp

section \<open>Reading back a written file\<close>

definition print_cheat :: "cheat_entry \<Rightarrow> cstring" where
  "print_cheat e = ce_name e @ [LF] @ concat (map (\<lambda>c. print_code c @ [LF]) (ce_codes e))"

definition print_file :: "cheat_entry list \<Rightarrow> cstring" where
  "print_file es = concat (map print_cheat es)"

definition clean_cheat :: "cheat_entry \<Rightarrow> bool" where
  "clean_cheat e \<longleftrightarrow> clean_name (ce_name e) \<and> ce_codes e \<noteq> [] \<and> length (ce_codes e) \<le> MAX_CHEATLIST
     \<and> (0, 0) \<notin> set (ce_codes e)"

lemma store_code_append:
  assumes "ps_table st = T @ [e]" "ps_code_index st = length (ce_codes e)" "length (ce_codes e) < MAX_CHEATLIST"
  shows "store_code c st =
    st\<lparr>ps_table := T @ [e\<lparr>ce_codes := ce_codes e @ [c]\<rparr>], ps_code_index := Suc (length (ce_codes e))\<rparr>"
  using assms by (simp add: store_code_def Let_def)

lemma parse_state_id: "ps_table st = t \<Longrightarrow> ps_code_index st = i \<Longrightarrow> st\<lparr>ps_table := t, ps_code_index := i\<rparr> = st"
  by (cases st) simp

lemma cheat_entry_id [simp]: "e\<lparr>ce_codes := ce_codes e\<rparr> = e"
  by (cases e) simp

lemma parse_codes:
  assumes "ps_table st = T @ [e]" "ps_code_index st = length (ce_codes e)" "ps_name st = []"
    and "length (ce_codes e) + length cs \<le> MAX_CHEATLIST" "(0, 0) \<notin> set cs"
  shows "parse_loop mode (concat (map (\<lambda>c. print_code c @ [LF]) cs) @ r) st =
    parse_loop mode r
      (st\<lparr>ps_table := T @ [e\<lparr>ce_codes := ce_codes e @ cs\<rparr>], ps_code_index := length (ce_codes e) + length cs\<rparr>)"
  using assms
proof (induction cs arbitrary: st e)
  case Nil
  then show ?case by (simp add: parse_state_id)
next
  case (Cons c cs)
  let ?e = "e\<lparr>ce_codes := ce_codes e @ [c]\<rparr>"
  let ?st = "st\<lparr>ps_table := T @ [?e], ps_code_index := Suc (length (ce_codes e))\<rparr>"
  have "parse_buf_line mode (print_code c) st = (?st, False)"
    using Cons.prems code_line [of c st mode] store_code_append [OF Cons.prems(1,2), of c] by auto
  then have "parse_loop mode (print_code c @ LF # (concat (map (\<lambda>c. print_code c @ [LF]) cs) @ r)) st =
      parse_loop mode (concat (map (\<lambda>c. print_code c @ [LF]) cs) @ r) ?st"
    using print_code_ends [of c] by (intro parse_loop_line) simp_all
  moreover have "\<dots> = parse_loop mode r
      (?st\<lparr>ps_table := T @ [?e\<lparr>ce_codes := ce_codes ?e @ cs\<rparr>], ps_code_index := length (ce_codes ?e) + length cs\<rparr>)"
    using Cons.prems by (intro Cons.IH) simp_all
  ultimately show ?case by simp
qed

lemma parse_cheat:
  assumes "clean_cheat e" "length (ps_table st) < MAX_CODES"
  shows "parse_loop mode (print_cheat e @ r) st =
    parse_loop mode r
      (st\<lparr>ps_table := ps_table st @ [e\<lparr>ce_enabled := (mode = 0 \<or> cheatConfigIsMasterCode (Some (ce_name e)))\<rparr>], ps_name := [],
          ps_code_index := length (ce_codes e)\<rparr>)"
proof -
  obtain c cs where cs: "ce_codes e = c # cs" using assms(1) by (cases "ce_codes e") (auto simp: clean_cheat_def)
  have n: "clean_name (ce_name e)" "length (ce_name e) \<le> CHEAT_NAME_MAX" "ce_name e \<noteq> []" "LF \<notin> set (ce_name e)"
    and c: "c \<noteq> (0, 0)" "(0, 0) \<notin> set cs" "Suc (length cs) \<le> MAX_CHEATLIST"
    using assms(1) cs by (auto simp: clean_cheat_def clean_name_def)
  let ?body = "concat (map (\<lambda>c. print_code c @ [LF]) cs) @ r"
  let ?st1 = "st\<lparr>ps_name := ce_name e, ps_code_index := 0\<rparr>"
  let ?e1 = "\<lparr>ce_name = ce_name e, ce_codes = [c], ce_enabled = (mode = 0 \<or> cheatConfigIsMasterCode (Some (ce_name e)))\<rparr>"
  let ?st2 = "st\<lparr>ps_table := ps_table st @ [?e1], ps_name := [], ps_code_index := 1\<rparr>"
  have "parse_loop mode (ce_name e @ LF # (print_code c @ LF # ?body)) st =
      parse_loop mode (print_code c @ LF # ?body) ?st1"
    using n by (intro parse_loop_line) (simp_all add: name_line)
  also have "\<dots> = parse_loop mode ?body ?st2"
  proof (rule parse_loop_line)
    have "open_cheat mode ?st1 = st\<lparr>ps_table := ps_table st @ [?e1\<lparr>ce_codes := []\<rparr>], ps_name := [], ps_code_index := 0\<rparr>"
      using n by (simp add: open_cheat_def Let_def)
    then have "store_code c (open_cheat mode ?st1) = ?st2"
      using store_code_append [of "open_cheat mode ?st1" "ps_table st" "?e1\<lparr>ce_codes := []\<rparr>" c] by simp
    then show "parse_buf_line mode (print_code c) ?st1 = (?st2, False)"
      using first_code_line [of c ?st1 mode] c n assms(2) by simp
  qed (simp_all add: print_code_ends)
  also have "\<dots> = parse_loop mode r
      (?st2\<lparr>ps_table := ps_table st @ [?e1\<lparr>ce_codes := ce_codes ?e1 @ cs\<rparr>], ps_code_index := length (ce_codes ?e1) + length cs\<rparr>)"
    using c by (intro parse_codes) simp_all
  also have "?e1\<lparr>ce_codes := ce_codes ?e1 @ cs\<rparr> = e\<lparr>ce_enabled := (mode = 0 \<or> cheatConfigIsMasterCode (Some (ce_name e)))\<rparr>"
    using cs by (cases e) simp
  also have "?st2\<lparr>ps_table := ps_table st @ [e\<lparr>ce_enabled := (mode = 0 \<or> cheatConfigIsMasterCode (Some (ce_name e)))\<rparr>],
        ps_code_index := length (ce_codes ?e1) + length cs\<rparr> =
      st\<lparr>ps_table := ps_table st @ [e\<lparr>ce_enabled := (mode = 0 \<or> cheatConfigIsMasterCode (Some (ce_name e)))\<rparr>], ps_name := [],
          ps_code_index := length (ce_codes e)\<rparr>"
    using cs by (cases st) simp
  finally show ?thesis by (simp add: print_cheat_def cs)
qed

lemma parse_cheats:
  assumes "list_all clean_cheat es" "length (ps_table st) + length es \<le> MAX_CODES"
  shows "ps_table (parse_loop mode (print_file es) st) =
    ps_table st @ map (\<lambda>e. e\<lparr>ce_enabled := (mode = 0 \<or> cheatConfigIsMasterCode (Some (ce_name e)))\<rparr>) es"
  using assms
proof (induction es arbitrary: st)
  case Nil
  then show ?case by (simp add: print_file_def)
next
  case (Cons e es)
  then show ?case using parse_cheat [of e st mode "print_file es"] by (simp add: print_file_def)
qed

text \<open>
  C25: a cheat file written from a list of cheats (name line, then one line of two eight-digit numbers per
  code) is parsed back to exactly that list, up to the 250 entries and 510 codes per entry the table
  holds; every cheat is on in automatic mode, only the master codes in select mode.
\<close>

theorem parse_print_file:
  assumes "list_all clean_cheat es" "length es \<le> MAX_CODES"
  shows "parse_buf mode (print_file es) = map (\<lambda>e. e\<lparr>ce_enabled := (mode = 0 \<or> cheatConfigIsMasterCode (Some (ce_name e)))\<rparr>) es"
  using parse_cheats [of es parse_init mode] assms by (simp add: parse_buf_def parse_init_def)

definition sample_cheats :: "cheat_entry list" where
  "sample_cheats = [\<lparr>ce_name = ''Mastercode'', ce_codes = [(0x90208FA0, 0x0C081F66)], ce_enabled = True\<rparr>,
     \<lparr>ce_name = ''Infinite Health'', ce_codes = [(0x2034AABC, 0x3F), (0x2034AAC0, 1)], ce_enabled = True\<rparr>]"

lemma sample_cheats_clean: "list_all clean_cheat sample_cheats"
proof -
  have g: "isgraph (CHR ''M'')" "isgraph (CHR ''e'')" "isgraph (CHR ''I'')" "isgraph (CHR ''h'')"
    "\<not> isxdigit (CHR ''M'')" "\<not> isxdigit (CHR ''I'')" "\<not> isspace (CHR ''M'')" "\<not> isspace (CHR ''I'')"
    by (simp_all add: isgraph_def isxdigit_def isdigit_def isspace_def ord_of_def)
  have "term_str ''Mastercode'' = ''Mastercode''" "term_str ''Infinite Health'' = ''Infinite Health''"
    by (simp_all add: is_cmt_str_def strneq_def)
  with g show ?thesis by (simp add: sample_cheats_def clean_cheat_def clean_name_def is_cheat_code_def)
qed

theorem parse_print_file_witness:
  "parse_buf 0 (print_file sample_cheats) = sample_cheats"
proof -
  have "length sample_cheats \<le> MAX_CODES" by (simp add: sample_cheats_def)
  from parse_print_file [OF sample_cheats_clean this, of 0]
  show ?thesis by (simp add: sample_cheats_def)
qed

section \<open>Bounds and surprises\<close>

definition table_ok :: "cheat_entry list \<Rightarrow> bool" where
  "table_ok es \<longleftrightarrow> length es \<le> MAX_CODES
     \<and> list_all (\<lambda>e. length (ce_name e) \<le> CHEAT_NAME_MAX \<and> ce_name e \<noteq> [] \<and> length (ce_codes e) \<le> MAX_CHEATLIST
                    \<and> (0, 0) \<notin> set (ce_codes e)) es"

definition parse_ok :: "parse_state \<Rightarrow> bool" where
  "parse_ok st \<longleftrightarrow> table_ok (ps_table st) \<and> ps_code_index st \<le> MAX_CHEATLIST
     \<and> (ps_name st \<noteq> [] \<longrightarrow> ps_code_index st = 0)
     \<and> (ps_name st = [] \<and> ps_table st \<noteq> [] \<longrightarrow> ps_code_index st = length (ce_codes (last (ps_table st))))"

lemma store_code_ok:
  assumes "parse_ok st" "c \<noteq> (0, 0)" "ps_name st = []"
  shows "parse_ok (store_code c st)"
proof (cases "ps_table st = [] \<or> ps_code_index st \<ge> MAX_CHEATLIST")
  case True
  with assms(1) show ?thesis by (auto simp: store_code_def)
next
  case False
  then obtain T e where T: "ps_table st = T @ [e]" by (cases "ps_table st" rule: rev_cases) auto
  then have i: "ps_code_index st = length (ce_codes e)" using assms by (simp add: parse_ok_def)
  with False T have lt: "length (ce_codes e) < MAX_CHEATLIST" by simp
  have "store_code c st = st\<lparr>ps_table := T @ [e\<lparr>ce_codes := ce_codes e @ [c]\<rparr>], ps_code_index := Suc (length (ce_codes e))\<rparr>"
    by (rule store_code_append [OF T i lt])
  then show ?thesis using assms T lt by (auto simp: parse_ok_def table_ok_def)
qed

lemma parse_buf_line_ok:
  assumes "parse_ok st"
  shows "parse_ok (fst (parse_buf_line mode raw st))"
proof -
  let ?line = "trim_str (term_str raw)"
  consider "is_empty_str raw" | "\<not> is_empty_str raw" "\<not> is_cheat_code ?line \<and> ?line \<noteq> []"
    | "\<not> is_empty_str raw" "\<not> (\<not> is_cheat_code ?line \<and> ?line \<noteq> [])" by blast
  then show ?thesis
  proof cases
    case 2
    then show ?thesis using assms by (auto simp: parse_buf_line_def parse_ok_def Let_def)
  next
    case 3
    have "length (ps_table st) < MAX_CODES \<Longrightarrow> ps_name st \<noteq> [] \<Longrightarrow> parse_ok (open_cheat mode st)"
      using assms by (auto simp: parse_ok_def open_cheat_def table_ok_def Let_def)
    moreover have "ps_name (open_cheat mode st) = []" by (simp add: open_cheat_def Let_def)
    ultimately show ?thesis
      unfolding parse_buf_line_def Let_def if_not_P [OF 3(1)] if_not_P [OF 3(2)]
      using assms store_code_ok [of st "parse_line ?line"]
        store_code_ok [of "open_cheat mode st" "parse_line ?line"]
      by (simp add: not_le)
  qed (use assms in \<open>simp add: parse_buf_line_def\<close>)
qed

lemma parse_loop_ok: "parse_ok st \<Longrightarrow> parse_ok (parse_loop mode buf st)"
proof (induction mode buf st rule: parse_loop.induct)
  case (1 mode buf st)
  show ?case
  proof (cases "buf = []")
    case True
    with 1 show ?thesis by simp
  next
    case False
    let ?lf = "strchr buf LF"
    let ?len = "min CHEAT_LINE_MAX (case ?lf of Some i \<Rightarrow> i | None \<Rightarrow> length buf)"
    let ?p = "parse_buf_line mode (take ?len buf) st"
    have ok: "parse_ok (fst ?p)" using 1(2) by (rule parse_buf_line_ok)
    have "parse_loop mode buf st =
        (if snd ?p then fst ?p else parse_loop mode (drop (if ?lf = None then ?len else ?len + 1) buf) (fst ?p))"
      using False by (subst parse_loop.simps) (simp add: Let_def case_prod_beta)
    moreover have "\<not> snd ?p \<Longrightarrow> parse_ok (parse_loop mode (drop (if ?lf = None then ?len else ?len + 1) buf) (fst ?p))"
      by (rule 1(1) [OF False refl refl refl prod.collapse]) (use ok in simp_all)
    ultimately show ?thesis using ok by simp
  qed
qed

text \<open>
  C24: whatever bytes a cheat file holds, parsing it ends and fills the table within its bounds: at most
  250 entries, each with a non-empty name of at most 128 characters and at most 510 codes, none of
  them the all-zero code that would end the entry.
\<close>

theorem parse_buf_in_bounds: "table_ok (parse_buf mode buf)"
  using parse_loop_ok [of parse_init mode buf]
  by (simp add: parse_buf_def parse_ok_def parse_init_def table_ok_def)

text \<open>
  A comment line that is indented is not skipped. What is left of it is blanks, which are taken as
  the name of a new cheat, so the codes after it no longer belong to the cheat they follow. The
  same comment at the start of the line changes nothing.
\<close>

theorem indented_comment_splits_cheat:
  "parse_buf 0 (''Health'' @ [LF] @ print_code (1, 2) @ [LF] @ ''  // part two'' @ [LF] @ print_code (3, 4) @ [LF])
     = [\<lparr>ce_name = ''Health'', ce_codes = [(1, 2)], ce_enabled = True\<rparr>,
        \<lparr>ce_name = ''  '', ce_codes = [(3, 4)], ce_enabled = True\<rparr>]
   \<and> parse_buf 0 (''Health'' @ [LF] @ print_code (1, 2) @ [LF] @ ''// part two'' @ [LF] @ print_code (3, 4) @ [LF])
     = [\<lparr>ce_name = ''Health'', ce_codes = [(1, 2), (3, 4)], ce_enabled = True\<rparr>]"
proof -
  have g: "isgraph (CHR ''H'')" "isgraph (CHR ''h'')" "isgraph (CHR ''/'')" "\<not> isgraph (CHR '' '')" "\<not> isxdigit (CHR ''H'')"
    "\<not> isspace (CHR ''H'')" "isspace (CHR '' '')" "\<not> isxdigit (CHR '' '')"
    by (simp_all add: isgraph_def isxdigit_def isdigit_def isspace_def ord_of_def)
  have n: "clean_name ''Health''"
    using g by (simp add: clean_name_def is_cmt_str_def strneq_def is_cheat_code_def)
  have c1: "parse_buf_line 0 ''  // part two'' st = (st\<lparr>ps_name := ''  '', ps_code_index := 0\<rparr>, False)" for st
    using g by (simp add: parse_buf_line_def is_empty_str_def is_cmt_str_def strneq_def trim_str_def is_cheat_code_def)
  have c2: "parse_buf_line 0 ''// part two'' st = (st, False)" for st
    using g by (simp add: parse_buf_line_def is_empty_str_def is_cmt_str_def strneq_def trim_str_def is_cheat_code_def parse_line_def)
  have l1: "parse_loop 0 (''Health'' @ LF # r) st = parse_loop 0 r (st\<lparr>ps_name := ''Health'', ps_code_index := 0\<rparr>)" for r st
    by (rule parse_loop_line [OF _ _ name_line [OF n]]) simp_all
  have l2: "parse_loop 0 (''  // part two'' @ LF # r) st = parse_loop 0 r (st\<lparr>ps_name := ''  '', ps_code_index := 0\<rparr>)" for r st
    by (rule parse_loop_line [OF _ _ c1]) simp_all
  have l3: "parse_loop 0 (''// part two'' @ LF # r) st = parse_loop 0 r st" for r st
    by (rule parse_loop_line [OF _ _ c2]) simp_all
  have code: "parse_loop 0 (print_code c @ LF # r) st =
      parse_loop 0 r (store_code c (if ps_name st \<noteq> [] then open_cheat 0 st else st))"
    if "c \<noteq> (0, 0)" "length (ps_table st) < MAX_CODES" for c r st
    using that print_code_ends [of c] code_line [of c st 0] first_code_line [of c st 0]
    by (cases "ps_name st = []") (auto intro!: parse_loop_line)
  show ?thesis
    by (simp add: parse_buf_def l1 [simplified] l2 [simplified] l3 [simplified] code [simplified] parse_init_def open_cheat_def store_code_def Let_def)
qed

end
