(* ===== verification/CheatList.thy ===== *)
theory CheatList
  imports CheatParser
begin

unbundle bit_operations_syntax

text \<open>
  From the cheat table to what the in-game engine gets (\<open>src/cheatman.c\<close>, \<open>ee_core/include/igrcheats.h\<close>):
  the flat list of address/value words \<open>gCheatList\<close>, the packed page of the in-game menu and the list
  for a launch with that page. The page's rows and codes are lists; a row names its slice of the codes.
\<close>

section \<open>The list of a plain launch\<close>

text \<open>The code lines of an entry before the terminating zero address.\<close>

definition entry_codes :: "cheat_entry \<Rightarrow> code list" where
  "entry_codes e = takeWhile (\<lambda>c. fst c \<noteq> 0) (take MAX_CHEATLIST (ce_codes e))"

fun list_codes :: "code list \<Rightarrow> nat \<times> 32 word list \<Rightarrow> nat \<times> 32 word list" where
  "list_codes [] s = s"
| "list_codes ((a, v) # cs) (n, g) =
     (if n + 2 \<le> MAX_CHEATLIST then list_codes cs (n + 2, g[n := a, Suc n := v]) else (n, g))"

definition set_cheats_list :: "cheat_entry list option \<Rightarrow> 32 word list" where
  "set_cheats_list gCheats =
     (let zero = replicate MAX_CHEATLIST 0 in
      case gCheats of
        None \<Rightarrow> zero
      | Some table \<Rightarrow>
          let (n, g) = fold (\<lambda>e s. if ce_enabled e then list_codes (entry_codes e) s else s) (take MAX_CODES table) (0, zero)
          in if n < MAX_CHEATLIST then g[n := 0, Suc n := 0] else g[n - 2 := 0, n - 1 := 0])"

section \<open>The page of the in-game menu\<close>

abbreviation "IGR_CHEATS_MAX \<equiv> (64::nat)"
abbreviation "IGR_CHEAT_NAME \<equiv> (24::nat)"
abbreviation "IGR_CHEAT_CODES_MAX \<equiv> (512::nat)"
abbreviation "IGR_CHEAT_SET_CODES \<equiv> (250::nat)"

definition IGR_CHEATS_BYTES :: "nat \<Rightarrow> nat \<Rightarrow> nat" where
  "IGR_CHEATS_BYTES count pairs = 16 + 504 * 4 + count * 32 + pairs * 8"

text \<open>Whether a line is a hook, and \<open>prevCanHook\<close> after it.\<close>

definition cheatIsHook :: "code \<Rightarrow> bool \<Rightarrow> bool \<times> bool" where
  "cheatIsHook c prevCanHook =
     ((fst c AND 0xFE000000) = 0x90000000 \<and> prevCanHook,
      \<not> ((fst c AND 0xF0000000) = 0x40000000 \<or> (fst c AND 0xF0000000) = 0x30000000))"

fun hook_split :: "bool \<Rightarrow> code list \<Rightarrow> code list \<times> code list" where
  "hook_split can [] = ([], [])"
| "hook_split can (c # cs) =
     (case cheatIsHook c can of (hook, can') \<Rightarrow>
        (case hook_split can' cs of (hs, rs) \<Rightarrow> if hook then (c # hs, rs) else (hs, c # rs)))"

definition hook_codes :: "cheat_entry \<Rightarrow> code list" where
  "hook_codes e = fst (hook_split True (entry_codes e))"

definition real_codes :: "cheat_entry \<Rightarrow> code list" where
  "real_codes e = snd (hook_split True (entry_codes e))"

definition cheatRealCodes :: "cheat_entry \<Rightarrow> nat" where
  "cheatRealCodes e = length (real_codes e)"

definition igrRowFits :: "nat \<Rightarrow> nat \<Rightarrow> nat \<Rightarrow> nat \<Rightarrow> bool" where
  "igrRowFits count pairs n room \<longleftrightarrow>
     count < IGR_CHEATS_MAX \<and> n \<le> IGR_CHEAT_SET_CODES \<and> pairs + n \<le> IGR_CHEAT_CODES_MAX
     \<and> IGR_CHEATS_BYTES (count + 1) (pairs + n) \<le> room"

record igr_cheat =
  rw_first :: nat
  rw_count :: nat
  rw_on :: bool
  rw_name :: cstring

record igr_page =
  pg_rows :: "igr_cheat list"
  pg_codes :: "code list"

text \<open>The first walk: the number of rows and of codes that fit, \<open>None\<close> when a ticked cheat does not.\<close>

fun pack_select :: "nat \<Rightarrow> cheat_entry list \<Rightarrow> nat \<Rightarrow> nat \<Rightarrow> (nat \<times> nat) option" where
  "pack_select room [] count pairs = Some (count, pairs)"
| "pack_select room (e # es) count pairs =
     (let n = cheatRealCodes e in
      if n = 0 then pack_select room es count pairs
      else if \<not> igrRowFits count pairs n room then
        if ce_enabled e then None else pack_select room es count pairs
      else pack_select room es (count + 1) (pairs + n))"

text \<open>The second walk: the rows and their codes.\<close>

fun pack_rows :: "nat \<Rightarrow> nat \<Rightarrow> cheat_entry list \<Rightarrow> nat \<Rightarrow> nat \<Rightarrow> igr_cheat list \<times> code list" where
  "pack_rows room count [] r p = ([], [])"
| "pack_rows room count (e # es) r p =
     (if r \<ge> count then ([], [])
      else
        let n = cheatRealCodes e in
        if n = 0 \<or> \<not> igrRowFits r p n room then pack_rows room count es r p
        else (case pack_rows room count es (r + 1) (p + n) of (rows, codes) \<Rightarrow>
                (\<lparr>rw_first = p, rw_count = n, rw_on = ce_enabled e,
                  rw_name = bounded IGR_CHEAT_NAME (if ce_name e \<noteq> [] then ce_name e else ''CHEAT'')\<rparr> # rows,
                 real_codes e @ codes)))"

definition ticked_codes :: "igr_cheat list \<Rightarrow> nat" where
  "ticked_codes rows = sum_list (map rw_count (filter rw_on rows))"

text \<open>Ticks that do not fit one set come off, last first.\<close>

fun untick :: "nat \<Rightarrow> igr_cheat list \<Rightarrow> igr_cheat list" where
  "untick 0 rows = rows"
| "untick (Suc i) rows =
     (if ticked_codes rows \<le> IGR_CHEAT_SET_CODES then rows
      else untick i (rows[i := (rows ! i)\<lparr>rw_on := False\<rparr>]))"

text \<open>The page and the bytes it takes; \<open>None\<close> for the result 0.\<close>

definition igrCheatsPack :: "cheat_entry list option \<Rightarrow> bool \<Rightarrow> nat \<Rightarrow> (igr_page \<times> nat) option" where
  "igrCheatsPack gCheats dst room =
     (case gCheats of
        None \<Rightarrow> None
      | Some table \<Rightarrow>
          if \<not> dst \<or> room < IGR_CHEATS_BYTES 1 1 then None
          else (case pack_select room (take MAX_CODES table) 0 0 of
                  None \<Rightarrow> None
                | Some (count, pairs) \<Rightarrow>
                    if count = 0 then None
                    else (case pack_rows room count (take MAX_CODES table) 0 0 of (rows, codes) \<Rightarrow>
                            Some (\<lparr>pg_rows = untick count rows, pg_codes = codes\<rparr>, IGR_CHEATS_BYTES count pairs))))"

fun build_set :: "igr_cheat list \<Rightarrow> code list \<Rightarrow> nat \<Rightarrow> code list" where
  "build_set [] codes n = []"
| "build_set (row # rows) codes n =
     (if \<not> rw_on row \<or> n + rw_count row > IGR_CHEAT_SET_CODES \<or> rw_first row + rw_count row > length codes
      then build_set rows codes n
      else take (rw_count row) (drop (rw_first row) codes) @ build_set rows codes (n + rw_count row))"

definition igrCheatsBuild :: "igr_page \<Rightarrow> code list" where
  "igrCheatsBuild pg = build_set (pg_rows pg) (pg_codes pg) 0"

definition igrCheatsFit :: "igr_page \<Rightarrow> nat \<Rightarrow> bool" where
  "igrCheatsFit pg at \<longleftrightarrow>
     sum_list (map (\<lambda>(i, row). if rw_on row \<or> i = at then rw_count row else 0)
       (zip [0..<length (pg_rows pg)] (pg_rows pg))) \<le> IGR_CHEAT_SET_CODES"

section \<open>The list of a launch with the page\<close>

definition add_hook :: "code \<Rightarrow> code list \<Rightarrow> code list" where
  "add_hook c hooks = (if length hooks \<ge> MAX_HOOKS \<or> c \<in> set hooks then hooks else hooks @ [c])"

definition live_hooks :: "cheat_entry list \<Rightarrow> code list" where
  "live_hooks table =
     fold add_hook (concat (map hook_codes (filter ce_enabled table @ filter (\<lambda>e. \<not> ce_enabled e) table))) []"

definition set_cheats_list_live :: "cheat_entry list option \<Rightarrow> igr_page \<Rightarrow> 32 word list" where
  "set_cheats_list_live gCheats packed =
     (let zero = replicate MAX_CHEATLIST 0 in
      case gCheats of
        None \<Rightarrow> zero
      | Some table \<Rightarrow>
          snd (list_codes (igrCheatsBuild packed) (list_codes (live_hooks (take MAX_CODES table)) (0, zero))))"

section \<open>The layout of the list\<close>

definition flat :: "code list \<Rightarrow> 32 word list" where
  "flat ps = concat (map (\<lambda>c. [fst c, snd c]) ps)"

definition padded :: "32 word list \<Rightarrow> 32 word list" where
  "padded ws = ws @ replicate (MAX_CHEATLIST - length ws) 0"

text \<open>The list once the codes \<open>ps\<close> were stored, as far as they fit.\<close>

definition stored :: "code list \<Rightarrow> nat \<times> 32 word list" where
  "stored ps = (2 * min 255 (length ps), padded (flat (take 255 ps)))"

lemma length_flat [simp]: "length (flat ps) = 2 * length ps"
  by (induction ps) (simp_all add: flat_def)

lemma flat_snoc: "flat (ps @ [c]) = flat ps @ [fst c, snd c]"
  by (simp add: flat_def)

lemma padded_update:
  assumes "length ws + 2 \<le> MAX_CHEATLIST"
  shows "(padded ws)[length ws := a, Suc (length ws) := v] = padded (ws @ [a, v])"
proof -
  have k: "MAX_CHEATLIST - length ws = Suc (Suc (508 - length ws))" using assms by arith
  then have "MAX_CHEATLIST - length (ws @ [a, v]) = 508 - length ws" by simp
  with k show ?thesis by (simp add: padded_def list_update_append)
qed

lemma list_codes_stored: "list_codes cs (stored ps) = stored (ps @ cs)"
proof (induction cs arbitrary: ps)
  case Nil
  then show ?case by simp
next
  case (Cons c cs)
  obtain a v where c: "c = (a, v)" by (cases c)
  show ?case
  proof (cases "length ps < 255")
    case True
    then have st: "stored ps = (length (flat ps), padded (flat ps))" by (simp add: stored_def)
    have "length (flat ps) + 2 \<le> MAX_CHEATLIST" using True by simp
    then have "list_codes (c # cs) (stored ps) = list_codes cs (length (flat ps) + 2, padded (flat ps @ [a, v]))"
      using padded_update [of "flat ps" a v] by (simp add: st c)
    also have "(length (flat ps) + 2, padded (flat ps @ [a, v])) = stored (ps @ [c])"
      using True flat_snoc [of ps c] by (simp add: stored_def c)
    finally show ?thesis using Cons [of "ps @ [c]"] by simp
  next
    case False
    then show ?thesis by (simp add: stored_def c)
  qed
qed

definition enabled_codes :: "cheat_entry list \<Rightarrow> code list" where
  "enabled_codes table = concat (map entry_codes (filter ce_enabled (take MAX_CODES table)))"

lemma fold_stored:
  "fold (\<lambda>e s. if ce_enabled e then list_codes (entry_codes e) s else s) es (stored ps) =
    stored (ps @ concat (map entry_codes (filter ce_enabled es)))"
  by (induction es arbitrary: ps) (simp_all add: list_codes_stored)

lemma padded_zero: "length ws < MAX_CHEATLIST \<Longrightarrow> (padded ws)[length ws := 0, Suc (length ws) := 0] = padded ws"
proof -
  assume "length ws < MAX_CHEATLIST"
  then obtain k where "MAX_CHEATLIST - length ws = Suc k" by (metis Suc_diff_Suc)
  then show ?thesis by (cases k) (simp_all add: padded_def list_update_append)
qed

text \<open>
  The list handed to the in-game engine is exactly the codes of the enabled cheats, in file order and
  each up to its first zero address, flattened to address/value words, cut to 254 pairs and filled
  with zeros to 510 words: it is always terminated by a zero pair and never overrun.
\<close>

theorem set_cheats_list_layout:
  "set_cheats_list (Some table) = padded (flat (take 254 (enabled_codes table)))
   \<and> length (set_cheats_list (Some table)) = MAX_CHEATLIST
   \<and> set_cheats_list (Some table) ! 508 = 0 \<and> set_cheats_list (Some table) ! 509 = 0"
proof -
  let ?ps = "enabled_codes table"
  have z: "(0, replicate MAX_CHEATLIST 0) = stored []" by (simp add: stored_def padded_def flat_def)
  have f: "fold (\<lambda>e s. if ce_enabled e then list_codes (entry_codes e) s else s) (take MAX_CODES table) (0, replicate MAX_CHEATLIST 0) = stored ?ps"
    unfolding z fold_stored by (simp add: enabled_codes_def)
  have main: "set_cheats_list (Some table) = padded (flat (take 254 ?ps))"
  proof (cases "length ?ps < 255")
    case True
    then have "set_cheats_list (Some table) = (padded (flat ?ps))[length (flat ?ps) := 0, Suc (length (flat ?ps)) := 0]"
      unfolding set_cheats_list_def Let_def option.case f by (simp add: stored_def)
    with True show ?thesis using padded_zero [of "flat ?ps"] by simp
  next
    case False
    then have t: "take 255 ?ps = take 254 ?ps @ [?ps ! 254]"
      using take_Suc_conv_app_nth [of 254 ?ps] by simp
    let ?w = "flat (take 254 ?ps)"
    have lw: "length ?w = 508" using False by simp
    have "set_cheats_list (Some table) = (padded (flat (take 255 ?ps)))[508 := 0, 509 := 0]"
      using False unfolding set_cheats_list_def Let_def option.case f by (simp add: stored_def)
    also have "\<dots> = (?w @ [fst (?ps ! 254), snd (?ps ! 254)])[508 := 0, 509 := 0]"
      using lw by (simp add: t flat_snoc padded_def)
    also have "\<dots> = ?w @ [0, 0]" using lw by (simp add: list_update_append)
    also have "\<dots> = padded ?w" using lw by (simp add: padded_def numeral_2_eq_2)
    finally show ?thesis .
  qed
  moreover have "length (padded (flat (take 254 ?ps))) = MAX_CHEATLIST" by (simp add: padded_def)
  moreover have "padded (flat (take 254 ?ps)) ! i = 0" if "508 \<le> i" "i < MAX_CHEATLIST" for i
  proof -
    have "length (flat (take 254 ?ps)) \<le> i" "i < length (padded (flat (take 254 ?ps)))" using that by (simp_all add: padded_def)
    then show ?thesis by (simp add: padded_def nth_append)
  qed
  ultimately show ?thesis by simp
qed

section \<open>The packed page\<close>

text \<open>The cheats that get a row.\<close>

fun chosen :: "nat \<Rightarrow> cheat_entry list \<Rightarrow> nat \<Rightarrow> nat \<Rightarrow> cheat_entry list" where
  "chosen room [] count pairs = []"
| "chosen room (e # es) count pairs =
     (let n = cheatRealCodes e in
      if n = 0 \<or> \<not> igrRowFits count pairs n room then chosen room es count pairs
      else e # chosen room es (count + 1) (pairs + n))"

definition total_codes :: "cheat_entry list \<Rightarrow> nat" where
  "total_codes es = sum_list (map cheatRealCodes es)"

lemma total_codes_simps [simp]: "total_codes [] = 0" "total_codes (e # es) = cheatRealCodes e + total_codes es"
  by (simp_all add: total_codes_def)

lemma pack_select_chosen:
  "pack_select room es count pairs = Some (c, p) \<Longrightarrow>
    c = count + length (chosen room es count pairs) \<and> p = pairs + total_codes (chosen room es count pairs)
    \<and> (\<forall>e \<in> set es. ce_enabled e \<and> cheatRealCodes e \<noteq> 0 \<longrightarrow> e \<in> set (chosen room es count pairs))"
  by (induction room es count pairs rule: pack_select.induct) (auto simp: Let_def split: if_splits)

text \<open>The rows and codes of a list of cheats laid out from pair \<open>p\<close> on.\<close>

fun lay_rows :: "nat \<Rightarrow> cheat_entry list \<Rightarrow> igr_cheat list" where
  "lay_rows p [] = []"
| "lay_rows p (e # es) =
     \<lparr>rw_first = p, rw_count = cheatRealCodes e, rw_on = ce_enabled e,
      rw_name = bounded IGR_CHEAT_NAME (if ce_name e \<noteq> [] then ce_name e else ''CHEAT'')\<rparr>
     # lay_rows (p + cheatRealCodes e) es"

lemma pack_rows_chosen:
  "count = r + length (chosen room es r p) \<Longrightarrow>
    pack_rows room count es r p = (lay_rows p (chosen room es r p), concat (map real_codes (chosen room es r p)))"
proof (induction es arbitrary: r p)
  case Nil
  then show ?case by simp
next
  case (Cons e es)
  show ?case
  proof (cases "cheatRealCodes e = 0 \<or> \<not> igrRowFits r p (cheatRealCodes e) room")
    case True
    then have ch: "chosen room (e # es) r p = chosen room es r p" by (simp add: Let_def)
    show ?thesis
    proof (cases "r \<ge> count")
      case True
      with Cons.prems have "chosen room (e # es) r p = []" by simp
      with True show ?thesis by simp
    next
      case False
      with True Cons ch show ?thesis by (simp add: Let_def)
    qed
  next
    case False
    then have ch: "chosen room (e # es) r p = e # chosen room es (r + 1) (p + cheatRealCodes e)" by (simp add: Let_def)
    with Cons.prems have "pack_rows room count es (r + 1) (p + cheatRealCodes e) =
        (lay_rows (p + cheatRealCodes e) (chosen room es (r + 1) (p + cheatRealCodes e)),
         concat (map real_codes (chosen room es (r + 1) (p + cheatRealCodes e))))"
      by (intro Cons.IH) simp
    with False ch Cons.prems show ?thesis by (simp add: Let_def)
  qed
qed

lemma chosen_bounds:
  "count \<le> IGR_CHEATS_MAX \<Longrightarrow> pairs \<le> IGR_CHEAT_CODES_MAX \<Longrightarrow> IGR_CHEATS_BYTES count pairs \<le> room \<Longrightarrow>
    count + length (chosen room es count pairs) \<le> IGR_CHEATS_MAX
    \<and> pairs + total_codes (chosen room es count pairs) \<le> IGR_CHEAT_CODES_MAX
    \<and> IGR_CHEATS_BYTES (count + length (chosen room es count pairs)) (pairs + total_codes (chosen room es count pairs)) \<le> room"
proof (induction room es count pairs rule: chosen.induct)
  case (2 room e es count pairs)
  show ?case
  proof (cases "cheatRealCodes e = 0 \<or> \<not> igrRowFits count pairs (cheatRealCodes e) room")
    case True
    with 2 show ?thesis by (simp add: Let_def)
  next
    case False
    with 2(2) [of "cheatRealCodes e"] show ?thesis by (simp add: Let_def igrRowFits_def add.assoc)
  qed
qed simp

lemma map_untick:
  "(\<And>r. f (r\<lparr>rw_on := False\<rparr>) = f r) \<Longrightarrow> map f (rows[i := (rows ! i)\<lparr>rw_on := False\<rparr>]) = map f rows"
  by (cases "i < length rows") (simp_all add: map_update list_update_same_conv list_update_beyond)

lemma untick_frame:
  "length (untick i rows) = length rows \<and> map rw_first (untick i rows) = map rw_first rows
    \<and> map rw_count (untick i rows) = map rw_count rows \<and> map rw_name (untick i rows) = map rw_name rows"
proof (induction i arbitrary: rows)
  case (Suc i)
  have "map rw_first (rows[i := (rows ! i)\<lparr>rw_on := False\<rparr>]) = map rw_first rows"
    "map rw_count (rows[i := (rows ! i)\<lparr>rw_on := False\<rparr>]) = map rw_count rows"
    "map rw_name (rows[i := (rows ! i)\<lparr>rw_on := False\<rparr>]) = map rw_name rows"
    by (simp_all add: map_untick)
  with Suc show ?case by simp
qed simp

lemma untick_fits:
  assumes "i \<le> length rows" "\<And>k. i \<le> k \<Longrightarrow> k < length rows \<Longrightarrow> \<not> rw_on (rows ! k)"
  shows "ticked_codes (untick i rows) \<le> IGR_CHEAT_SET_CODES"
  using assms
proof (induction i arbitrary: rows)
  case 0
  then have "filter rw_on rows = []" by (auto simp: filter_empty_conv in_set_conv_nth)
  then show ?case by (simp add: ticked_codes_def)
next
  case (Suc i)
  have "ticked_codes (untick i (rows[i := (rows ! i)\<lparr>rw_on := False\<rparr>])) \<le> IGR_CHEAT_SET_CODES"
    using Suc.prems by (intro Suc.IH) (auto simp: nth_list_update)
  then show ?case by simp
qed

definition row_codes :: "code list \<Rightarrow> igr_cheat \<Rightarrow> code list" where
  "row_codes codes row = take (rw_count row) (drop (rw_first row) codes)"

lemma lay_rows_slices:
  "map (row_codes (pre @ concat (map real_codes es))) (lay_rows (length pre) es) = map real_codes es
   \<and> list_all (\<lambda>row. rw_first row + rw_count row \<le> length (pre @ concat (map real_codes es))) (lay_rows (length pre) es)"
proof (induction es arbitrary: pre)
  case (Cons e es)
  have "map (row_codes ((pre @ real_codes e) @ concat (map real_codes es))) (lay_rows (length (pre @ real_codes e)) es) = map real_codes es
   \<and> list_all (\<lambda>row. rw_first row + rw_count row \<le> length ((pre @ real_codes e) @ concat (map real_codes es)))
      (lay_rows (length (pre @ real_codes e)) es)" by (rule Cons.IH)
  moreover have "row_codes (pre @ real_codes e @ x) \<lparr>rw_first = length pre, rw_count = length (real_codes e), rw_on = b, rw_name = nm\<rparr>
      = real_codes e" for x b nm by (simp add: row_codes_def)
  ultimately show ?case by (simp add: cheatRealCodes_def add.assoc)
qed simp

lemma length_lay_rows [simp]: "length (lay_rows p es) = length es"
  by (induction es arbitrary: p) simp_all

lemma slices_same:
  assumes "map rw_first xs = map rw_first ys" "map rw_count xs = map rw_count ys"
  shows "map (row_codes codes) xs = map (row_codes codes) ys"
    "list_all (\<lambda>row. rw_first row + rw_count row \<le> m) xs = list_all (\<lambda>row. rw_first row + rw_count row \<le> m) ys"
proof -
  have len: "length xs = length ys" using assms(1) by (rule map_eq_imp_length_eq)
  have "rw_first (xs ! i) = rw_first (ys ! i)" "rw_count (xs ! i) = rw_count (ys ! i)" if "i < length ys" for i
    using that len assms by (metis nth_map)+
  with len show "map (row_codes codes) xs = map (row_codes codes) ys"
    "list_all (\<lambda>row. rw_first row + rw_count row \<le> m) xs = list_all (\<lambda>row. rw_first row + rw_count row \<le> m) ys"
    by (auto simp: row_codes_def list_all_length intro!: nth_equalityI)
qed

lemma build_all:
  assumes "list_all (\<lambda>row. rw_first row + rw_count row \<le> length codes) rows" "n + ticked_codes rows \<le> IGR_CHEAT_SET_CODES"
  shows "build_set rows codes n = concat (map (row_codes codes) (filter rw_on rows))"
  using assms by (induction rows arbitrary: n) (auto simp: ticked_codes_def row_codes_def)

lemma build_bound: "n \<le> IGR_CHEAT_SET_CODES \<Longrightarrow> n + length (build_set rows codes n) \<le> IGR_CHEAT_SET_CODES"
proof (induction rows codes n rule: build_set.induct)
  case (2 row rows codes n)
  then show ?case by (auto simp: min_def)
qed simp

lemma pack_page:
  assumes "igrCheatsPack (Some table) dst room = Some (pg, bytes)"
  defines "ch \<equiv> chosen room (take MAX_CODES table) 0 0"
  shows "bytes = IGR_CHEATS_BYTES (length ch) (total_codes ch)" "length ch \<noteq> 0" "IGR_CHEATS_BYTES 1 1 \<le> room"
    and "\<forall>e \<in> set (take MAX_CODES table). ce_enabled e \<and> cheatRealCodes e \<noteq> 0 \<longrightarrow> e \<in> set ch"
    and "pg = \<lparr>pg_rows = untick (length ch) (lay_rows 0 ch), pg_codes = concat (map real_codes ch)\<rparr>"
proof -
  obtain count pairs where sel: "pack_select room (take MAX_CODES table) 0 0 = Some (count, pairs)"
    using assms(1) by (auto simp: igrCheatsPack_def split: if_splits option.splits)
  note s = pack_select_chosen [OF sel]
  have rows: "pack_rows room count (take MAX_CODES table) 0 0 = (lay_rows 0 ch, concat (map real_codes ch))"
    using pack_rows_chosen [of count 0 room "take MAX_CODES table" 0] s by (simp add: ch_def)
  show "bytes = IGR_CHEATS_BYTES (length ch) (total_codes ch)" "length ch \<noteq> 0" "IGR_CHEATS_BYTES 1 1 \<le> room"
    "pg = \<lparr>pg_rows = untick (length ch) (lay_rows 0 ch), pg_codes = concat (map real_codes ch)\<rparr>"
    using assms(1) sel rows s by (auto simp: igrCheatsPack_def ch_def split: if_splits)
  show "\<forall>e \<in> set (take MAX_CODES table). ce_enabled e \<and> cheatRealCodes e \<noteq> 0 \<longrightarrow> e \<in> set ch"
    using s by (simp add: ch_def)
qed

lemma chosen_subset: "set (chosen room es c p) \<subseteq> set es"
  by (induction room es c p rule: chosen.induct) (auto simp: Let_def)

lemma length_real_codes: "length (concat (map real_codes es)) = total_codes es"
  by (induction es) (simp_all add: cheatRealCodes_def)

text \<open>
  C26: when \<open>igrCheatsPack\<close> returns a page, the page fits the room it was given and its own limits (64 rows,
  512 codes); every ticked cheat with codes of its own has a row; each row's slice of the codes is
  exactly its cheat's codes without the hooks; and the ticks left on fit one set of 250 codes, so
  \<open>igrCheatsBuild\<close> takes every ticked row whole.
\<close>

theorem igrCheatsPack_page:
  assumes "igrCheatsPack (Some table) dst room = Some (pg, bytes)"
  shows "bytes = IGR_CHEATS_BYTES (length (pg_rows pg)) (length (pg_codes pg)) \<and> bytes \<le> room
    \<and> length (pg_rows pg) \<le> IGR_CHEATS_MAX \<and> length (pg_codes pg) \<le> IGR_CHEAT_CODES_MAX
    \<and> ticked_codes (pg_rows pg) \<le> IGR_CHEAT_SET_CODES
    \<and> igrCheatsBuild pg = concat (map (row_codes (pg_codes pg)) (filter rw_on (pg_rows pg)))
    \<and> (\<exists>ch. set ch \<subseteq> set table \<and> map (row_codes (pg_codes pg)) (pg_rows pg) = map real_codes ch
        \<and> (\<forall>e \<in> set (take MAX_CODES table). ce_enabled e \<and> real_codes e \<noteq> [] \<longrightarrow> e \<in> set ch))"
proof -
  let ?ch = "chosen room (take MAX_CODES table) 0 0"
  let ?codes = "concat (map real_codes ?ch)" and ?rows = "untick (length ?ch) (lay_rows 0 ?ch)"
  note p = pack_page [OF assms]
  have len: "length (pg_rows pg) = length ?ch" "length (pg_codes pg) = total_codes ?ch"
    using p(5) untick_frame by (simp_all add: length_real_codes)
  have "IGR_CHEATS_BYTES 0 0 \<le> room" using p(3) by (simp add: IGR_CHEATS_BYTES_def)
  from chosen_bounds [OF _ _ this, of "take MAX_CODES table"] have b: "length ?ch \<le> IGR_CHEATS_MAX"
    "total_codes ?ch \<le> IGR_CHEAT_CODES_MAX" "IGR_CHEATS_BYTES (length ?ch) (total_codes ?ch) \<le> room" by auto
  have fit: "ticked_codes ?rows \<le> IGR_CHEAT_SET_CODES" by (rule untick_fits) simp_all
  note fr = untick_frame [of "length ?ch" "lay_rows 0 ?ch"]
  have sl: "map (row_codes ?codes) ?rows = map real_codes ?ch"
      "list_all (\<lambda>row. rw_first row + rw_count row \<le> length ?codes) ?rows"
    using slices_same [of ?rows "lay_rows 0 ?ch"] fr lay_rows_slices [of "[]" ?ch] by simp_all
  have bld: "igrCheatsBuild pg = concat (map (row_codes (pg_codes pg)) (filter rw_on (pg_rows pg)))"
    using build_all [OF sl(2), of 0] fit p(5) by (simp add: igrCheatsBuild_def)
  have sub: "set ?ch \<subseteq> set table" using chosen_subset [of room "take MAX_CODES table"] set_take_subset [of MAX_CODES table] by blast
  have "\<forall>e \<in> set (take MAX_CODES table). ce_enabled e \<and> real_codes e \<noteq> [] \<longrightarrow> e \<in> set ?ch"
    using p(4) by (simp add: cheatRealCodes_def)
  with sub sl(1) p(5) have "\<exists>ch. set ch \<subseteq> set table \<and> map (row_codes (pg_codes pg)) (pg_rows pg) = map real_codes ch
        \<and> (\<forall>e \<in> set (take MAX_CODES table). ce_enabled e \<and> real_codes e \<noteq> [] \<longrightarrow> e \<in> set ch)"
    by (intro exI [of _ ?ch]) simp
  then show ?thesis using p(1,5) len b fit bld by simp
qed

lemma sample_real_codes:
  "real_codes (sample_cheats ! 0) = []" "real_codes (sample_cheats ! 1) = [(0x2034AABC, 0x3F), (0x2034AAC0, 1)]"
  "hook_codes (sample_cheats ! 0) = [(0x90208FA0, 0x0C081F66)]"
  by (simp_all add: real_codes_def hook_codes_def entry_codes_def sample_cheats_def cheatIsHook_def)

theorem igrCheatsPack_page_witness:
  "\<exists>pg. igrCheatsPack (Some sample_cheats) True 4096 = Some (pg, 2080) \<and> length (pg_rows pg) = 1
    \<and> igrCheatsBuild pg = concat (map (row_codes (pg_codes pg)) (filter rw_on (pg_rows pg)))"
proof -
  have c: "sample_cheats = [sample_cheats ! 0, sample_cheats ! 1]" by (simp add: sample_cheats_def)
  have n: "cheatRealCodes (sample_cheats ! 0) = 0" "cheatRealCodes (sample_cheats ! 1) = 2"
    unfolding cheatRealCodes_def sample_real_codes by simp_all
  have fit: "igrRowFits 0 0 2 4096" by (simp add: igrRowFits_def IGR_CHEATS_BYTES_def)
  have sel: "pack_select 4096 (take MAX_CODES sample_cheats) 0 0 = Some (1, 2)"
    by (subst c) (simp add: n [unfolded One_nat_def] fit)
  then obtain pg where pg: "igrCheatsPack (Some sample_cheats) True 4096 = Some (pg, IGR_CHEATS_BYTES 1 2)"
    by (auto simp: igrCheatsPack_def IGR_CHEATS_BYTES_def case_prod_beta)
  have "length (chosen 4096 (take MAX_CODES sample_cheats) 0 0) = 1" using pack_select_chosen [OF sel] by simp
  then have "length (pg_rows pg) = 1" using pack_page(5) [OF pg] untick_frame by simp
  moreover have "IGR_CHEATS_BYTES 1 2 = 2080" by (simp add: IGR_CHEATS_BYTES_def)
  ultimately show ?thesis using pg igrCheatsPack_page [OF pg] by auto
qed

lemma add_hooks: "length hooks \<le> MAX_HOOKS \<Longrightarrow> distinct hooks \<Longrightarrow>
    length (fold add_hook cs hooks) \<le> MAX_HOOKS \<and> distinct (fold add_hook cs hooks)"
  by (induction cs arbitrary: hooks) (auto simp: add_hook_def)

text \<open>
  The list of a launch with the menu's page is the hooks (at most five, each once, those of the ticked
  cheats first) followed by the codes the menu itself would build from the same ticks, and zeros up
  to 510 words: it always fits, so the game starts with exactly the set the menu shows.
\<close>

theorem set_cheats_list_live_layout:
  "set_cheats_list_live (Some table) pg = padded (flat (live_hooks (take MAX_CODES table) @ igrCheatsBuild pg))
   \<and> length (live_hooks (take MAX_CODES table)) \<le> MAX_HOOKS \<and> distinct (live_hooks (take MAX_CODES table))
   \<and> length (igrCheatsBuild pg) \<le> IGR_CHEAT_SET_CODES
   \<and> length (set_cheats_list_live (Some table) pg) = MAX_CHEATLIST"
proof -
  let ?h = "live_hooks (take MAX_CODES table)" and ?b = "igrCheatsBuild pg"
  have h: "length ?h \<le> MAX_HOOKS \<and> distinct ?h" unfolding live_hooks_def by (rule add_hooks) simp_all
  have b: "length ?b \<le> IGR_CHEAT_SET_CODES" using build_bound [of 0] by (simp add: igrCheatsBuild_def)
  have z: "(0, replicate MAX_CHEATLIST 0) = stored []" by (simp add: stored_def padded_def flat_def)
  have "set_cheats_list_live (Some table) pg = snd (stored (?h @ ?b))"
    unfolding set_cheats_list_live_def Let_def option.case z list_codes_stored by simp
  moreover have "take CHEAT_LINE_MAX (?h @ ?b) = ?h @ ?b" using h b by (intro take_all) simp
  ultimately have e: "set_cheats_list_live (Some table) pg = padded (flat (?h @ ?b))" by (simp only: stored_def snd_conv)
  moreover have "length (padded (flat (?h @ ?b))) = MAX_CHEATLIST" using h b by (simp add: padded_def)
  ultimately show ?thesis using h b by simp
qed

end
