(* ===== verification/CheatConfig.thy ===== *)
theory CheatConfig
  imports CheatParser KVSpec
begin

text \<open>
  Remembered cheat picks, \<open>src/cheatconfig.c\<close>: the names of the enabled optional cheats are kept in
  the game's configuration set under the numbered keys \<open>$CheatSel000\<close> and up, and matched back by
  name. The numbered keys are an instance of \<open>numbered_store\<close> on the model of the configuration store.
\<close>

section \<open>Operations\<close>

text \<open>\<open>"%s%03d"\<close> with the prefix and a number below a thousand.\<close>

definition sel_key :: "nat \<Rightarrow> cstring" where
  "sel_key n = ''$CheatSel'' @ [digit_char (n div 100), digit_char (n div 10 mod 10), digit_char (n mod 10)]"

abbreviation is_master :: "cheat_entry \<Rightarrow> bool" where
  "is_master e \<equiv> cheatConfigIsMasterCode (Some (ce_name e))"

text \<open>The inner loop of a load: the first cheat of the saved name not already on.\<close>

fun restore_one :: "cstring \<Rightarrow> cheat_entry list \<Rightarrow> cheat_entry list" where
  "restore_one saved [] = []"
| "restore_one saved (e # es) =
     (if \<not> ce_enabled e \<and> \<not> is_master e \<and> cheatConfigNamesMatch (ce_name e) saved
      then e\<lparr>ce_enabled := True\<rparr> # es else e # restore_one saved es)"

fun restore_from :: "config_set option \<Rightarrow> nat \<Rightarrow> nat \<Rightarrow> cheat_entry list \<Rightarrow> cheat_entry list" where
  "restore_from cs n 0 table = table"
| "restore_from cs n (Suc left) table =
     (case configGetStrCopy cs (Some (sel_key n)) CONFIG_KEY_VALUE_LEN of
        (saved, True) \<Rightarrow> restore_from cs (n + 1) left (restore_one saved table)
      | (_, False) \<Rightarrow> table)"

definition cheatConfigLoadSelections :: "config_set option \<Rightarrow> cheat_entry list option \<Rightarrow> cheat_entry list option" where
  "cheatConfigLoadSelections configSet gCheats =
     (case gCheats of
        None \<Rightarrow> None
      | Some table \<Rightarrow>
          let table = map (\<lambda>e. e\<lparr>ce_enabled := is_master e\<rparr>) table
          in if configSet = None then Some table else Some (restore_from configSet 0 MAX_CODES table))"

fun clear_picks :: "nat \<Rightarrow> nat \<Rightarrow> config_set \<Rightarrow> config_set" where
  "clear_picks i 0 cs = cs"
| "clear_picks i (Suc left) cs = clear_picks (i + 1) left (fst (configRemoveKey (sel_key i) cs))"

text \<open>\<open>mem n\<close> is whether a new item for pick \<open>n\<close> could be allocated.\<close>

fun save_picks :: "(nat \<Rightarrow> bool) \<Rightarrow> nat \<Rightarrow> cheat_entry list \<Rightarrow> config_set \<Rightarrow> config_set" where
  "save_picks mem n [] cs = cs"
| "save_picks mem n (e # es) cs =
     (if ce_enabled e \<and> \<not> is_master e
      then save_picks mem (n + 1) es (fst (set_str (mem n) (sel_key n) (ce_name e) cs))
      else save_picks mem n es cs)"

definition cheatConfigSaveSelections ::
  "(nat \<Rightarrow> bool) \<Rightarrow> config_set option \<Rightarrow> cheat_entry list option \<Rightarrow> config_set option" where
  "cheatConfigSaveSelections mem configSet gCheats =
     (case (configSet, gCheats) of
        (Some cs, Some table) \<Rightarrow> Some (save_picks mem 0 table (clear_picks 0 MAX_CODES cs))
      | _ \<Rightarrow> configSet)"

section \<open>The numbered keys\<close>

lemma digit_char_inj: "i < 10 \<Longrightarrow> j < 10 \<Longrightarrow> digit_char i = digit_char j \<Longrightarrow> i = j"
  using ord_digit_char by (metis add_left_cancel)

lemma sel_key_inj:
  assumes "i < 250" "j < 250" "sel_key i = sel_key j"
  shows "i = j"
proof -
  have "digit_char (i div 100) = digit_char (j div 100)" "digit_char (i div 10 mod 10) = digit_char (j div 10 mod 10)"
    "digit_char (i mod 10) = digit_char (j mod 10)"
    using assms(3) unfolding sel_key_def by simp_all
  moreover have "i div 100 < 10" "j div 100 < 10" using assms(1,2) by (simp_all add: less_mult_imp_div_less)
  ultimately have d: "i div 100 = j div 100" "i div 10 mod 10 = j div 10 mod 10" "i mod 10 = j mod 10"
    by (auto intro: digit_char_inj)
  have "i div 10 = j div 10"
    using d(1,2) div_mult_mod_eq [of "i div 10" 10] div_mult_mod_eq [of "j div 10" 10]
    by (simp add: div_mult2_eq [symmetric])
  with d(3) show ?thesis by (metis div_mult_mod_eq)
qed

lemma digit_not_eq: "n < 10 \<Longrightarrow> digit_char n \<noteq> CHR ''=''"
  using ord_digit_char [of n] by (auto simp: ord_of_def)

lemma sel_key_ok: "n < 250 \<Longrightarrow> key_ok (sel_key n)"
  using digit_not_eq [of "n div 100"] digit_not_eq [of "n div 10 mod 10"] digit_not_eq [of "n mod 10"]
  by (simp add: sel_key_def key_ok_def configKeyValidate_def) (auto simp: less_mult_imp_div_less)

interpretation picks: numbered_store
  "\<lambda>k v cs. fst (set_str True k v cs)" get_str "\<lambda>k cs. fst (configRemoveKey k cs)"
  key_ok "bounded 256" set_ok sel_key 250
  by unfold_locales (auto intro: sel_key_inj sel_key_ok)

lemma clear_picks_del: "clear_picks i m cs = del_all (\<lambda>k cs. fst (configRemoveKey k cs)) (map sel_key [i..<i + m]) cs"
proof (induction i m cs rule: clear_picks.induct)
  case (2 i left cs)
  have "[i..<i + Suc left] = i # [i + 1..<i + 1 + left]" by (simp add: upt_conv_Cons del: upt_Suc)
  with 2 show ?case by (simp del: upt_Suc)
qed simp

definition pick_names :: "cheat_entry list \<Rightarrow> cstring list" where
  "pick_names table = map ce_name (filter (\<lambda>e. ce_enabled e \<and> \<not> is_master e) table)"

lemma save_picks_put:
  "save_picks (\<lambda>_. True) n es cs =
    put_all (\<lambda>k v cs. fst (set_str True k v cs)) (zip (map sel_key [n..<n + length (pick_names es)]) (pick_names es)) cs"
proof (induction es arbitrary: n cs)
  case (Cons e es)
  show ?case using Cons.IH by (simp add: pick_names_def upt_conv_Cons del: upt_Suc)
qed (simp add: pick_names_def)

lemma restore_from_numbered:
  assumes "set_ok cs"
  shows "restore_from (Some cs) n m table = fold restore_one (load_numbered (\<lambda>i. get_str cs (sel_key i)) n m) table"
proof (induction m arbitrary: n table)
  case (Suc m)
  have "bounded CONFIG_KEY_VALUE_LEN v = v" if "get_str cs (sel_key n) = Some v" for v
    using that assms by (auto simp: get_str_map_of set_ok_def list_all_iff item_ok_def dest!: map_of_SomeD split: if_splits)
  with Suc show ?case
    by (auto simp: configGetStrCopy_def get_str_def [symmetric] simp del: bounded_short split: option.split)
qed simp

lemma saved_names:
  assumes "set_ok cs" "length table \<le> MAX_CODES" "list_all (\<lambda>e. length (ce_name e) \<le> CHEAT_NAME_MAX) table"
  shows "load_numbered (\<lambda>i. get_str (save_picks (\<lambda>_. True) 0 table (clear_picks 0 MAX_CODES cs)) (sel_key i)) 0 MAX_CODES =
    pick_names table" and "set_ok (save_picks (\<lambda>_. True) 0 table (clear_picks 0 MAX_CODES cs))"
proof -
  have l: "length (pick_names table) \<le> MAX_CODES"
    using le_trans [OF length_filter_le assms(2)] by (simp add: pick_names_def)
  have "map (bounded 256) (pick_names table) = pick_names table"
    using assms(3) by (intro map_idI bounded_short) (auto simp: pick_names_def list_all_iff)
  then show "load_numbered (\<lambda>i. get_str (save_picks (\<lambda>_. True) 0 table (clear_picks 0 MAX_CODES cs)) (sel_key i)) 0 MAX_CODES =
      pick_names table"
    using picks.load_saved [OF assms(1) l] by (simp add: save_picks_put clear_picks_del)
  show "set_ok (save_picks (\<lambda>_. True) 0 table (clear_picks 0 MAX_CODES cs))"
    unfolding save_picks_put clear_picks_del
    by (intro cfg.inv_put_all cfg.inv_del_all assms(1))
qed

section \<open>Restoring by name\<close>

lemma restore_one_distinct:
  assumes "distinct (map (normal_name \<circ> ce_name) (filter (\<lambda>e. \<not> is_master e) es))"
  shows "restore_one saved es =
    map (\<lambda>e. if \<not> is_master e \<and> cheatConfigNamesMatch (ce_name e) saved then e\<lparr>ce_enabled := True\<rparr> else e) es"
  using assms
proof (induction es)
  case (Cons e es)
  show ?case
  proof (cases "\<not> is_master e \<and> cheatConfigNamesMatch (ce_name e) saved")
    case True
    have none: "\<not> (\<not> is_master x \<and> cheatConfigNamesMatch (ce_name x) saved)" if "x \<in> set es" for x
      using True that Cons.prems by (auto simp: cheatConfigNamesMatch_def image_iff split: if_splits)
    then have "map (\<lambda>e. if \<not> is_master e \<and> cheatConfigNamesMatch (ce_name e) saved then e\<lparr>ce_enabled := True\<rparr> else e) es = es"
      by (intro map_idI) auto
    moreover have "restore_one saved es = es" using none by (induction es) auto
    ultimately show ?thesis using True by (cases "ce_enabled e") auto
  next
    case False
    then show ?thesis using Cons by (auto split: if_splits)
  qed
qed simp

lemma restore_fold:
  assumes "distinct (map (normal_name \<circ> ce_name) (filter (\<lambda>e. \<not> is_master e) es))"
  shows "fold restore_one names es =
    map (\<lambda>e. if \<not> is_master e \<and> (\<exists>n \<in> set names. cheatConfigNamesMatch (ce_name e) n) then e\<lparr>ce_enabled := True\<rparr> else e) es"
  using assms
proof (induction names arbitrary: es)
  case (Cons n names)
  let ?f = "\<lambda>e. if \<not> is_master e \<and> cheatConfigNamesMatch (ce_name e) n then e\<lparr>ce_enabled := True\<rparr> else e"
  have nm: "ce_name (?f e) = ce_name e" for e by simp
  have "filter (\<lambda>e. \<not> is_master e) (map ?f es) = map ?f (filter (\<lambda>e. \<not> is_master e) es)"
    by (simp add: filter_map comp_def nm cong: filter_cong)
  then have "map (normal_name \<circ> ce_name) (filter (\<lambda>e. \<not> is_master e) (map ?f es)) =
      map (normal_name \<circ> ce_name) (filter (\<lambda>e. \<not> is_master e) es)" by (simp add: comp_def nm)
  then have "distinct (map (normal_name \<circ> ce_name) (filter (\<lambda>e. \<not> is_master e) (map ?f es)))" using Cons.prems by (simp only:)
  from Cons.IH [OF this] have "fold restore_one names (map ?f es) =
      map (\<lambda>e. if \<not> is_master e \<and> (\<exists>n \<in> set names. cheatConfigNamesMatch (ce_name e) n) then e\<lparr>ce_enabled := True\<rparr> else e) (map ?f es)" .
  then show ?case using restore_one_distinct [OF Cons.prems] by (auto simp: nm)
qed (simp add: map_idI)

text \<open>
  C28: the picks saved from one cheat table and loaded onto another one (the same file edited, reordered
  or extended) switch on exactly the master codes and the optional cheats whose name, up to case and
  spacing, was on when they were saved. It needs the optional names of the new table to differ, since
  a repeated name is restored on its first copies.
\<close>

theorem cheatConfig_save_load:
  assumes "set_ok cs" "table_ok table"
    and "distinct (map (normal_name \<circ> ce_name) (filter (\<lambda>e. \<not> is_master e) table'))"
  shows "cheatConfigLoadSelections (cheatConfigSaveSelections (\<lambda>_. True) (Some cs) (Some table)) (Some table') =
    Some (map (\<lambda>e'. e'\<lparr>ce_enabled := (is_master e' \<or>
      (\<exists>e \<in> set table. ce_enabled e \<and> \<not> is_master e \<and> cheatConfigNamesMatch (ce_name e') (ce_name e)))\<rparr>) table')"
proof -
  let ?cs = "save_picks (\<lambda>_. True) 0 table (clear_picks 0 MAX_CODES cs)"
  let ?t = "map (\<lambda>e. e\<lparr>ce_enabled := is_master e\<rparr>) table'"
  have "length table \<le> MAX_CODES" "list_all (\<lambda>e. length (ce_name e) \<le> CHEAT_NAME_MAX) table"
    using assms(2) by (auto simp: table_ok_def list_all_iff)
  note saved = saved_names [OF assms(1) this]
  have d: "distinct (map (normal_name \<circ> ce_name) (filter (\<lambda>e. \<not> is_master e) ?t))"
    using assms(3) by (simp add: filter_map comp_def)
  have "restore_from (Some ?cs) 0 MAX_CODES ?t = fold restore_one (pick_names table) ?t"
    using restore_from_numbered [OF saved(2), of 0 MAX_CODES ?t] unfolding saved(1) .
  then show ?thesis
    unfolding cheatConfigSaveSelections_def cheatConfigLoadSelections_def Let_def option.case prod.case restore_fold [OF d]
    by (auto simp: pick_names_def) (auto intro!: arg_cong [where f = "\<lambda>b. _\<lparr>ce_enabled := b\<rparr>"])
qed

theorem cheatConfig_save_load_witness:
  "\<exists>t. cheatConfigLoadSelections (cheatConfigSaveSelections (\<lambda>_. True) (Some sample_set) (Some sample_cheats))
     (Some [\<lparr>ce_name = ''INFINITE  health'', ce_codes = [], ce_enabled = False\<rparr>]) = Some t \<and> map ce_enabled t = [True]"
proof -
  let ?new = "\<lparr>ce_name = ''INFINITE  health'', ce_codes = [], ce_enabled = False\<rparr>"
  have ok: "table_ok sample_cheats" by (simp add: table_ok_def sample_cheats_def)
  have n: "normal_name ''INFINITE  health'' = ''infinite health''" "normal_name ''Infinite Health'' = ''infinite health''"
    by (simp_all add: normal_name_def isspace_def tolower_def isupper_def ord_of_def char_of_def bit_0)
  have "distinct (map (normal_name \<circ> ce_name) (filter (\<lambda>e. \<not> is_master e) [?new]))" by simp
  from cheatConfig_save_load [OF sample_set_ok ok this] show ?thesis
    by (simp add: sample_cheats_def cheatConfigIsMasterCode_def cheatConfigNamesMatch_def n)
qed

end
