(* ===== verification/Atlas.thy ===== *)
theory Atlas
  imports Prelude "HOL-Library.Word"
begin

text \<open>
  The texture atlas of \<open>src/atlas.c\<close>, which packs the glyphs of a font into one surface. An allocation
  is a rectangle; one with leaves is occupied and the leaves cover what its pixmap left free. Both
  leaves are created together, so a tree has none or two. The surface is its bytes; a copy outside of
  it is \<open>None\<close>. Sizes are 32-bit words where the code can wrap (\<open>width + 1\<close>); inside the tree they are
  bounded by the surface. Running out of memory in \<open>allocNew\<close>, which the code does not handle, is not
  modelled.
\<close>

section \<open>Allocations\<close>

datatype alloc =
    Free nat nat nat nat
  | Split nat nat nat nat alloc alloc

definition allocNew :: "nat \<Rightarrow> nat \<Rightarrow> nat \<Rightarrow> nat \<Rightarrow> alloc" where
  "allocNew x y width height = Free x y width height"

fun alloc_w :: "alloc \<Rightarrow> nat" where
  "alloc_w (Free x y w h) = w"
| "alloc_w (Split x y w h l1 l2) = w"

definition split_alloc :: "nat \<Rightarrow> nat \<Rightarrow> nat \<Rightarrow> nat \<Rightarrow> nat \<Rightarrow> nat \<Rightarrow> alloc" where
  "split_alloc x y w h width height =
     (let dx = w - width; dy = h - height in
      if dx < dy then Split x y w h (allocNew (x + width) y dx height) (allocNew x (y + height) w dy)
      else Split x y w h (allocNew x (y + height) width dy) (allocNew (x + width) y dx h))"

text \<open>The tree afterwards and the corner of the place found.\<close>

fun allocPlace :: "alloc \<Rightarrow> nat \<Rightarrow> nat \<Rightarrow> (alloc \<times> nat \<times> nat) option" where
  "allocPlace (Free x y w h) width height =
     (if w \<ge> width \<and> h \<ge> height then Some (split_alloc x y w h width height, x, y) else None)"
| "allocPlace (Split x y w h l1 l2) width height =
     (if w \<ge> width \<and> h \<ge> height then
        (case allocPlace l1 width height of
           Some (l1', p) \<Rightarrow> Some (Split x y w h l1' l2, p)
         | None \<Rightarrow>
             (case allocPlace l2 width height of
                Some (l2', p) \<Rightarrow> Some (Split x y w h l1 l2', p)
              | None \<Rightarrow> None))
      else None)"

section \<open>The surface\<close>

datatype psm = GS_PSM_CT32 | GS_PSM_CT24 | GS_PSM_CT16 | GS_PSM_CT16S | GS_PSM_T8 | Psm_other

fun pixelSize :: "psm \<Rightarrow> nat" where
  "pixelSize GS_PSM_CT32 = 4"
| "pixelSize GS_PSM_CT24 = 4"
| "pixelSize GS_PSM_CT16 = 2"
| "pixelSize GS_PSM_CT16S = 2"
| "pixelSize GS_PSM_T8 = 1"
| "pixelSize Psm_other = 0"

record atlas =
  allocation :: alloc
  surface_psm :: psm
  surface_mem :: "8 word list"

text \<open>\<open>txtsize\<close> is \<open>gsKit_texture_size\<close>; \<open>mem\<close> whether both allocations succeeded.\<close>

definition atlasNew :: "(nat \<Rightarrow> nat \<Rightarrow> psm \<Rightarrow> nat) \<Rightarrow> bool \<Rightarrow> nat \<Rightarrow> nat \<Rightarrow> psm \<Rightarrow> atlas option" where
  "atlasNew txtsize mem width height p =
     (if mem then Some \<lparr>allocation = allocNew 0 0 width height, surface_psm = p,
                        surface_mem = replicate (txtsize width height p) 0\<rparr>
      else None)"

definition memcpy_at :: "nat \<Rightarrow> 8 word list \<Rightarrow> 8 word list \<Rightarrow> 8 word list option" where
  "memcpy_at off row data =
     (if off + length row \<le> length data then Some (take off data @ row @ drop (off + length row) data) else None)"

fun copy_rows :: "nat \<Rightarrow> nat \<Rightarrow> nat \<Rightarrow> nat \<Rightarrow> 8 word list \<Rightarrow> 8 word list \<Rightarrow> 8 word list option" where
  "copy_rows stride rowsize 0 off src data = Some data"
| "copy_rows stride rowsize (Suc n) off src data =
     (case memcpy_at off (take rowsize src) data of
        None \<Rightarrow> None
      | Some data' \<Rightarrow> copy_rows stride rowsize n (off + stride) (drop rowsize src) data')"

definition atlasCopyData :: "atlas \<Rightarrow> nat \<times> nat \<Rightarrow> nat \<Rightarrow> nat \<Rightarrow> 8 word list \<Rightarrow> atlas option" where
  "atlasCopyData a p width height src =
     (case p of
        (x, y) \<Rightarrow>
          let ps = pixelSize (surface_psm a); w = alloc_w (allocation a) in
          if ps = 0 then Some a
          else map_option (\<lambda>d. a\<lparr>surface_mem := d\<rparr>)
                 (copy_rows (ps * w) (width * ps) height (ps * (y * w + x)) src (surface_mem a)))"

text \<open>The outer \<open>None\<close> is a write outside the surface, the inner one the null result.\<close>

definition atlasPlace :: "atlas \<Rightarrow> 32 word \<Rightarrow> 32 word \<Rightarrow> 8 word list option \<Rightarrow> (atlas \<times> (nat \<times> nat) option) option" where
  "atlasPlace a width height surface =
     (case surface of
        None \<Rightarrow> Some (a, None)
      | Some src \<Rightarrow>
          (case allocPlace (allocation a) (unat (width + 1)) (unat (height + 1)) of
             None \<Rightarrow> Some (a, None)
           | Some (t, p) \<Rightarrow>
               map_option (\<lambda>a'. (a', Some p))
                 (atlasCopyData (a\<lparr>allocation := t\<rparr>) p (unat width) (unat height) src)))"

section \<open>Regions\<close>

definition rect :: "nat \<Rightarrow> nat \<Rightarrow> nat \<Rightarrow> nat \<Rightarrow> (nat \<times> nat) set" where
  "rect x y w h = {x..<x + w} \<times> {y..<y + h}"

fun region :: "alloc \<Rightarrow> (nat \<times> nat) set" where
  "region (Free x y w h) = rect x y w h"
| "region (Split x y w h l1 l2) = rect x y w h"

fun used :: "alloc \<Rightarrow> (nat \<times> nat) set" where
  "used (Free x y w h) = {}"
| "used (Split x y w h l1 l2) = (rect x y w h - (region l1 \<union> region l2)) \<union> used l1 \<union> used l2"

fun tree_ok :: "alloc \<Rightarrow> bool" where
  "tree_ok (Free x y w h) \<longleftrightarrow> True"
| "tree_ok (Split x y w h l1 l2) \<longleftrightarrow> region l1 \<subseteq> rect x y w h \<and> region l2 \<subseteq> rect x y w h
     \<and> region l1 \<inter> region l2 = {} \<and> tree_ok l1 \<and> tree_ok l2"

lemma used_region: "tree_ok t \<Longrightarrow> used t \<subseteq> region t"
  by (induction t) auto

lemma split_alloc_ok:
  assumes "width \<le> w" "height \<le> h"
  shows "tree_ok (split_alloc x y w h width height)" "used (split_alloc x y w h width height) = rect x y width height"
    "region (split_alloc x y w h width height) = rect x y w h" "rect x y width height \<subseteq> rect x y w h"
  using assms by (auto simp: split_alloc_def allocNew_def rect_def Let_def)

lemma allocPlace_region: "allocPlace t width height = Some (t', p) \<Longrightarrow> region t' = region t \<and> alloc_w t' = alloc_w t"
  by (cases t) (auto simp: split_alloc_def allocNew_def Let_def split: if_splits option.splits)

lemma allocPlace_spec:
  assumes "tree_ok t" "allocPlace t width height = Some (t', x, y)"
  shows "tree_ok t' \<and> rect x y width height \<subseteq> region t - used t \<and> used t' = used t \<union> rect x y width height"
  using assms
proof (induction t arbitrary: t')
  case (Free a b w h)
  then show ?case using split_alloc_ok [of width w height h a b] by (auto split: if_splits)
next
  case (Split a b w h l1 l2)
  note sub = used_region [of l1] used_region [of l2]
  show ?case
  proof (cases "allocPlace l1 width height")
    case None
    with Split.prems(2) obtain l2' where l2: "allocPlace l2 width height = Some (l2', x, y)" and t': "t' = Split a b w h l1 l2'"
      by (auto split: if_splits option.splits)
    have "tree_ok l2' \<and> rect x y width height \<subseteq> region l2 - used l2 \<and> used l2' = used l2 \<union> rect x y width height"
      using Split.IH(2) [OF _ l2] Split.prems(1) by simp
    then show ?thesis using allocPlace_region [OF l2] Split.prems(1) sub t' by auto
  next
    case (Some r)
    with Split.prems(2) obtain l1' where l1: "allocPlace l1 width height = Some (l1', x, y)" and t': "t' = Split a b w h l1' l2"
      by (auto split: if_splits option.splits prod.splits)
    have "tree_ok l1' \<and> rect x y width height \<subseteq> region l1 - used l1 \<and> used l1' = used l1 \<union> rect x y width height"
      using Split.IH(1) [OF _ l1] Split.prems(1) by simp
    then show ?thesis using allocPlace_region [OF l1] Split.prems(1) sub t' by auto
  qed
qed

section \<open>Copies\<close>

lemma memcpy_at_Some:
  assumes "off + length row \<le> length data"
  shows "\<exists>d. memcpy_at off row data = Some d \<and> length d = length data
    \<and> (\<forall>i < length row. d ! (off + i) = row ! i) \<and> (\<forall>k < length data. k < off \<or> off + length row \<le> k \<longrightarrow> d ! k = data ! k)"
  using assms by (auto simp: memcpy_at_def nth_append min_def)

lemma copy_rows_Some:
  assumes "n = 0 \<or> off + (n - 1) * stride + rowsize \<le> length data" "rowsize \<le> stride" "n * rowsize \<le> length src"
  shows "\<exists>d. copy_rows stride rowsize n off src data = Some d \<and> length d = length data
    \<and> (\<forall>j < n. \<forall>i < rowsize. d ! (off + j * stride + i) = src ! (j * rowsize + i))
    \<and> (\<forall>k < length data. (\<forall>j < n. k < off + j * stride \<or> off + j * stride + rowsize \<le> k) \<longrightarrow> d ! k = data ! k)"
  using assms
proof (induction n arbitrary: off src data)
  case (Suc n)
  have len: "length (take rowsize src) = rowsize" using Suc.prems(3) by simp
  have "off + rowsize \<le> length data" using Suc.prems(1) by simp
  then obtain d1 where d1: "memcpy_at off (take rowsize src) data = Some d1" "length d1 = length data"
      "\<forall>i < rowsize. d1 ! (off + i) = src ! i" "\<forall>k < length data. k < off \<or> off + rowsize \<le> k \<longrightarrow> d1 ! k = data ! k"
    using memcpy_at_Some [of off "take rowsize src" data] len by auto
  have "n = 0 \<or> off + stride + (n - 1) * stride + rowsize \<le> length d1"
    using Suc.prems(1) d1(2) by (cases n) (auto simp: algebra_simps)
  moreover have "n * rowsize \<le> length (drop rowsize src)" using Suc.prems(3) by simp
  ultimately obtain d where d: "copy_rows stride rowsize n (off + stride) (drop rowsize src) d1 = Some d" "length d = length data"
      "\<forall>j < n. \<forall>i < rowsize. d ! (off + stride + j * stride + i) = drop rowsize src ! (j * rowsize + i)"
      "\<forall>k < length data. (\<forall>j < n. k < off + stride + j * stride \<or> off + stride + j * stride + rowsize \<le> k) \<longrightarrow> d ! k = d1 ! k"
    using Suc.IH [of "off + stride" d1 "drop rowsize src"] Suc.prems(2) d1(2) by auto
  have first: "d ! (off + i) = src ! i" if "i < rowsize" for i
    using d(4) d1(3) that Suc.prems(1,2) by (simp add: trans_less_add1 less_le_trans)
  have rows: "d ! (off + j * stride + i) = src ! (j * rowsize + i)" if "j < Suc n" "i < rowsize" for j i
  proof (cases j)
    case 0
    then show ?thesis using first that by simp
  next
    case (Suc m)
    then show ?thesis using d(3) that Suc.prems(3) by (simp add: algebra_simps)
  qed
  have frame: "d ! k = data ! k" if "k < length data"
      "\<forall>j < Suc n. k < off + j * stride \<or> off + j * stride + rowsize \<le> k" for k
  proof -
    have "\<forall>j < n. k < off + stride + j * stride \<or> off + stride + j * stride + rowsize \<le> k"
    proof (intro allI impI)
      fix j assume "j < n"
      with that(2) have "k < off + Suc j * stride \<or> off + Suc j * stride + rowsize \<le> k" by blast
      then show "k < off + stride + j * stride \<or> off + stride + j * stride + rowsize \<le> k" by (simp add: algebra_simps)
    qed
    with d(4) that(1) have "d ! k = d1 ! k" by blast
    moreover have "k < off \<or> off + rowsize \<le> k" using that(2) by force
    ultimately show ?thesis using d1(4) that(1) by simp
  qed
  show ?case using d1(1) d(1,2) rows frame by auto
qed simp

lemma pixel_between:
  fixes ps :: nat
  assumes "b < ps" "ps * A \<le> ps * m + b" "ps * m + b < ps * B"
  shows "A \<le> m \<and> m < B"
proof -
  have "\<not> m < A"
  proof
    assume "m < A"
    then have "ps * Suc m \<le> ps * A" by (intro mult_le_mono2) simp
    with assms(1,2) show False by simp
  qed
  moreover have "ps * m < ps * B" using assms(3) by linarith
  ultimately show ?thesis by simp
qed

lemma row_between:
  fixes W :: nat
  assumes "c < W" "x + w \<le> W" "R * W + x \<le> r * W + c" "r * W + c < R * W + x + w"
  shows "r = R \<and> x \<le> c \<and> c < x + w"
proof -
  have "\<not> r < R"
  proof
    assume "r < R"
    then have "Suc r * W \<le> R * W" by (intro mult_le_mono1) simp
    with assms show False by simp
  qed
  moreover have "\<not> R < r"
  proof
    assume "R < r"
    then have "Suc R * W \<le> r * W" by (intro mult_le_mono1) simp
    with assms show False by simp
  qed
  ultimately have "r = R" by simp
  with assms show ?thesis by simp
qed

section \<open>Placed pixmaps\<close>

record pixmap =
  pm_w :: "32 word"
  pm_h :: "32 word"
  pm_bytes :: "8 word list"

text \<open>A pixmap in the format of the surface, of a size the call can state.\<close>

definition pixmap_ok :: "psm \<Rightarrow> pixmap \<Rightarrow> bool" where
  "pixmap_ok p g \<longleftrightarrow> pm_w g \<noteq> - 1 \<and> pm_h g \<noteq> - 1 \<and> length (pm_bytes g) = unat (pm_h g) * (unat (pm_w g) * pixelSize p)"

definition atlas_ok :: "nat \<Rightarrow> nat \<Rightarrow> atlas \<Rightarrow> bool" where
  "atlas_ok W H a \<longleftrightarrow> tree_ok (allocation a) \<and> region (allocation a) = rect 0 0 W H \<and> alloc_w (allocation a) = W
     \<and> pixelSize (surface_psm a) * (W * H) \<le> length (surface_mem a)"

text \<open>The byte \<open>b\<close> of the pixel in column \<open>c\<close> and row \<open>r\<close>.\<close>

definition pixel_at :: "nat \<Rightarrow> nat \<Rightarrow> nat \<Rightarrow> nat \<Rightarrow> nat \<Rightarrow> nat" where
  "pixel_at ps W c r b = ps * (r * W + c) + b"

definition shows_at :: "nat \<Rightarrow> atlas \<Rightarrow> nat \<times> nat \<Rightarrow> pixmap \<Rightarrow> bool" where
  "shows_at W a pos g \<longleftrightarrow>
     (let ps = pixelSize (surface_psm a) in
      \<forall>j < unat (pm_h g). \<forall>i < unat (pm_w g). \<forall>b < ps.
        surface_mem a ! pixel_at ps W (fst pos + i) (snd pos + j) b = pm_bytes g ! (ps * (j * unat (pm_w g) + i) + b))"

definition glyph_rect :: "nat \<times> nat \<Rightarrow> pixmap \<Rightarrow> (nat \<times> nat) set" where
  "glyph_rect pos g = rect (fst pos) (snd pos) (unat (pm_w g)) (unat (pm_h g))"

lemma pixel_bound:
  assumes "c < W" "r < H" "b < ps"
  shows "pixel_at ps W c r b < ps * (W * H)"
proof -
  have "Suc r * W \<le> H * W" using assms(2) by (intro mult_le_mono1) simp
  then have "r * W + c + 1 \<le> W * H" using assms(1) by (simp add: mult.commute)
  then have "ps * (r * W + c + 1) \<le> ps * (W * H)" by (rule mult_le_mono2)
  with assms(3) show ?thesis by (simp add: pixel_at_def)
qed

lemma pixel_off_rows:
  assumes "c < W" "b < ps" "x + w \<le> W" "(c, r) \<notin> rect x y w h"
  shows "\<forall>j < h. pixel_at ps W c r b < ps * (y * W + x) + j * (ps * W) \<or>
    ps * (y * W + x) + j * (ps * W) + w * ps \<le> pixel_at ps W c r b"
proof (intro allI impI, rule ccontr)
  fix j assume j: "j < h"
    and "\<not> (pixel_at ps W c r b < ps * (y * W + x) + j * (ps * W) \<or>
      ps * (y * W + x) + j * (ps * W) + w * ps \<le> pixel_at ps W c r b)"
  then have "ps * ((y + j) * W + x) \<le> ps * (r * W + c) + b" "ps * (r * W + c) + b < ps * ((y + j) * W + x + w)"
    by (simp_all add: pixel_at_def algebra_simps)
  from pixel_between [OF assms(2) this] have "(y + j) * W + x \<le> r * W + c" "r * W + c < (y + j) * W + x + w" by simp_all
  from row_between [OF assms(1,3) this] j have "(c, r) \<in> rect x y w h" by (simp add: rect_def)
  with assms(4) show False by simp
qed

lemma copy_data:
  assumes ok: "atlas_ok W H a" and g: "pixmap_ok (surface_psm a) g"
    and inside: "glyph_rect (x, y) g \<subseteq> rect 0 0 W H" "x + unat (pm_w g) \<le> W" "y + unat (pm_h g) \<le> H"
  shows "\<exists>d. atlasCopyData a (x, y) (unat (pm_w g)) (unat (pm_h g)) (pm_bytes g) = Some (a\<lparr>surface_mem := d\<rparr>)
    \<and> length d = length (surface_mem a) \<and> shows_at W (a\<lparr>surface_mem := d\<rparr>) (x, y) g
    \<and> (\<forall>c < W. \<forall>r < H. \<forall>b < pixelSize (surface_psm a). (c, r) \<notin> glyph_rect (x, y) g \<longrightarrow>
          d ! pixel_at (pixelSize (surface_psm a)) W c r b = surface_mem a ! pixel_at (pixelSize (surface_psm a)) W c r b)"
proof (cases "pixelSize (surface_psm a) = 0")
  case True
  then show ?thesis
    by (intro exI [of _ "surface_mem a"]) (simp add: atlasCopyData_def shows_at_def)
next
  case False
  let ?ps = "pixelSize (surface_psm a)" and ?w = "unat (pm_w g)" and ?h = "unat (pm_h g)"
  have W: "alloc_w (allocation a) = W" and mem: "?ps * (W * H) \<le> length (surface_mem a)"
    using ok by (simp_all add: atlas_ok_def)
  have last: "?h = 0 \<or> ?ps * (y * W + x) + (?h - 1) * (?ps * W) + ?w * ?ps \<le> length (surface_mem a)"
  proof (cases ?h)
    case (Suc m)
    then have "(y + m) * W + W \<le> H * W" using inside(3) mult_le_mono1 [of "y + m + 1" H W] by simp
    then have "(y + m) * W + x + ?w \<le> W * H" using inside(2) by (simp add: mult.commute)
    then have "?ps * ((y + m) * W + x + ?w) \<le> ?ps * (W * H)" by (rule mult_le_mono2)
    with mem Suc show ?thesis by (simp add: algebra_simps)
  qed simp
  have "?w * ?ps \<le> ?ps * W" using inside(2) by (simp add: mult.commute)
  from copy_rows_Some [OF last this, of "pm_bytes g"] g
  obtain d where d: "copy_rows (?ps * W) (?w * ?ps) ?h (?ps * (y * W + x)) (pm_bytes g) (surface_mem a) = Some d"
      "length d = length (surface_mem a)"
      "\<And>j i. j < ?h \<Longrightarrow> i < ?w * ?ps \<Longrightarrow> d ! (?ps * (y * W + x) + j * (?ps * W) + i) = pm_bytes g ! (j * (?w * ?ps) + i)"
      "\<And>k. k < length (surface_mem a) \<Longrightarrow> \<forall>j < ?h. k < ?ps * (y * W + x) + j * (?ps * W) \<or>
          ?ps * (y * W + x) + j * (?ps * W) + ?w * ?ps \<le> k \<Longrightarrow> d ! k = surface_mem a ! k"
    by (auto simp: pixmap_ok_def)
  have cells: "d ! pixel_at ?ps W (x + i) (y + j) b = pm_bytes g ! (?ps * (j * ?w + i) + b)" if "j < ?h" "i < ?w" "b < ?ps" for i j b
  proof -
    have "Suc i * ?ps \<le> ?w * ?ps" using that(2) by (intro mult_le_mono1) simp
    then have "i * ?ps + b < ?w * ?ps" using that(3) by simp
    from d(3) [OF that(1) this] show ?thesis by (simp add: pixel_at_def algebra_simps)
  qed
  have frame: "d ! pixel_at ?ps W c r b = surface_mem a ! pixel_at ?ps W c r b"
    if k: "c < W" "r < H" "b < ?ps" "(c, r) \<notin> glyph_rect (x, y) g" for c r b
  proof (rule d(4))
    show "pixel_at ?ps W c r b < length (surface_mem a)" using pixel_bound [OF k(1-3)] mem by linarith
    show "\<forall>j < ?h. pixel_at ?ps W c r b < ?ps * (y * W + x) + j * (?ps * W) \<or>
        ?ps * (y * W + x) + j * (?ps * W) + ?w * ?ps \<le> pixel_at ?ps W c r b"
      using pixel_off_rows [OF k(1,3) inside(2)] k(4) by (simp add: glyph_rect_def)
  qed
  show ?thesis using d(1,2) cells frame False
    by (intro exI [of _ d]) (simp add: atlasCopyData_def W shows_at_def Let_def)
qed

lemma rect_inside: "rect x y (Suc w) (Suc h) \<subseteq> rect 0 0 W H \<Longrightarrow> x + w < W \<and> y + h < H"
proof -
  assume "rect x y (Suc w) (Suc h) \<subseteq> rect 0 0 W H"
  moreover have "(x + w, y + h) \<in> rect x y (Suc w) (Suc h)" by (simp add: rect_def)
  ultimately have "(x + w, y + h) \<in> rect 0 0 W H" by blast
  then show ?thesis by (simp add: rect_def)
qed

lemma unat_Suc: "(w :: 32 word) \<noteq> - 1 \<Longrightarrow> unat (w + 1) = Suc (unat w)"
proof -
  assume "w \<noteq> - 1"
  then have "1 + w \<noteq> 0" by (metis add_eq_0_iff minus_minus)
  from unatSuc [OF this] show ?thesis by (simp add: add.commute)
qed

text \<open>One placement: the pixmap is shown where it was put and no pixel in use before has changed.\<close>

lemma place_step:
  assumes ok: "atlas_ok W H a" and g: "pixmap_ok (surface_psm a) g"
  shows "\<exists>a' r. atlasPlace a (pm_w g) (pm_h g) (Some (pm_bytes g)) = Some (a', r) \<and> atlas_ok W H a'
    \<and> surface_psm a' = surface_psm a \<and> used (allocation a) \<subseteq> used (allocation a')
    \<and> (\<forall>pos. r = Some pos \<longrightarrow> shows_at W a' pos g \<and> glyph_rect pos g \<subseteq> used (allocation a') - used (allocation a))
    \<and> (\<forall>pos q. glyph_rect pos q \<subseteq> used (allocation a) \<longrightarrow> shows_at W a pos q \<longrightarrow> shows_at W a' pos q)"
proof (cases "allocPlace (allocation a) (unat (pm_w g + 1)) (unat (pm_h g + 1))")
  case None
  then show ?thesis using ok by (auto simp: atlasPlace_def)
next
  case (Some res)
  obtain t x y where t: "allocPlace (allocation a) (Suc (unat (pm_w g))) (Suc (unat (pm_h g))) = Some (t, x, y)"
    and res: "res = (t, x, y)"
    using Some g by (cases res) (auto simp: pixmap_ok_def unat_Suc)
  let ?a = "a\<lparr>allocation := t\<rparr>" and ?R = "rect x y (Suc (unat (pm_w g))) (Suc (unat (pm_h g)))"
  have spec: "tree_ok t" "?R \<subseteq> region (allocation a) - used (allocation a)" "used t = used (allocation a) \<union> ?R"
    using allocPlace_spec [OF _ t] ok by (simp_all add: atlas_ok_def)
  have ok': "atlas_ok W H ?a" using ok spec(1) allocPlace_region [OF t] by (simp add: atlas_ok_def)
  have sub: "?R \<subseteq> rect 0 0 W H" using spec(2) ok by (auto simp: atlas_ok_def)
  have gr: "glyph_rect (x, y) g \<subseteq> ?R" by (auto simp: glyph_rect_def rect_def)
  have "glyph_rect (x, y) g \<subseteq> rect 0 0 W H" "x + unat (pm_w g) \<le> W" "y + unat (pm_h g) \<le> H"
    using gr sub rect_inside [OF sub] by auto
  from copy_data [OF ok' _ this] g obtain d where
    d: "atlasCopyData ?a (x, y) (unat (pm_w g)) (unat (pm_h g)) (pm_bytes g) = Some (?a\<lparr>surface_mem := d\<rparr>)"
      "length d = length (surface_mem a)" "shows_at W (?a\<lparr>surface_mem := d\<rparr>) (x, y) g"
      "\<And>c r b. c < W \<Longrightarrow> r < H \<Longrightarrow> b < pixelSize (surface_psm a) \<Longrightarrow> (c, r) \<notin> glyph_rect (x, y) g \<Longrightarrow>
          d ! pixel_at (pixelSize (surface_psm a)) W c r b = surface_mem a ! pixel_at (pixelSize (surface_psm a)) W c r b"
    by auto
  have keep: "shows_at W (?a\<lparr>surface_mem := d\<rparr>) pos q" if q: "glyph_rect pos q \<subseteq> used (allocation a)" "shows_at W a pos q" for pos q
  proof -
    have "(fst pos + i, snd pos + j) \<in> used (allocation a)" if "i < unat (pm_w q)" "j < unat (pm_h q)" for i j
      using q(1) that by (auto simp: glyph_rect_def rect_def)
    moreover have "used (allocation a) \<subseteq> rect 0 0 W H" using used_region ok by (auto simp: atlas_ok_def)
    ultimately have "fst pos + i < W \<and> snd pos + j < H \<and> (fst pos + i, snd pos + j) \<notin> glyph_rect (x, y) g"
      if "i < unat (pm_w q)" "j < unat (pm_h q)" for i j
      using that gr spec(2) by (fastforce simp: rect_def)
    then show ?thesis using q(2) d(4) by (simp add: shows_at_def Let_def)
  qed
  have "atlasPlace a (pm_w g) (pm_h g) (Some (pm_bytes g)) = Some (?a\<lparr>surface_mem := d\<rparr>, Some (x, y))"
    using Some res d(1) by (simp add: atlasPlace_def)
  moreover have "atlas_ok W H (?a\<lparr>surface_mem := d\<rparr>)" using ok' d(2) by (simp add: atlas_ok_def)
  ultimately show ?thesis using spec gr d(3) keep by auto
qed

text \<open>The glyphs of a font one after the other: the results of the calls.\<close>

fun place_all :: "atlas \<Rightarrow> pixmap list \<Rightarrow> (atlas \<times> (nat \<times> nat) option list) option" where
  "place_all a [] = Some (a, [])"
| "place_all a (g # gs) =
     (case atlasPlace a (pm_w g) (pm_h g) (Some (pm_bytes g)) of
        None \<Rightarrow> None
      | Some (a', r) \<Rightarrow> map_option (\<lambda>(a'', rs). (a'', r # rs)) (place_all a' gs))"

lemma place_all_spec:
  assumes "atlas_ok W H a" "list_all (pixmap_ok (surface_psm a)) gs"
  shows "\<exists>a' rs. place_all a gs = Some (a', rs) \<and> length rs = length gs \<and> atlas_ok W H a' \<and> used (allocation a) \<subseteq> used (allocation a')
    \<and> (\<forall>pos q. glyph_rect pos q \<subseteq> used (allocation a) \<longrightarrow> shows_at W a pos q \<longrightarrow> shows_at W a' pos q)
    \<and> (\<forall>k < length gs. \<forall>pos. rs ! k = Some pos \<longrightarrow> shows_at W a' pos (gs ! k)
         \<and> glyph_rect pos (gs ! k) \<subseteq> used (allocation a') - used (allocation a))
    \<and> (\<forall>k < length gs. \<forall>l < k. \<forall>p q. rs ! k = Some p \<longrightarrow> rs ! l = Some q \<longrightarrow> glyph_rect p (gs ! k) \<inter> glyph_rect q (gs ! l) = {})"
  using assms
proof (induction gs arbitrary: a)
  case (Cons g gs)
  obtain a1 r where a1: "atlasPlace a (pm_w g) (pm_h g) (Some (pm_bytes g)) = Some (a1, r)" "atlas_ok W H a1"
      "surface_psm a1 = surface_psm a" "used (allocation a) \<subseteq> used (allocation a1)"
      "\<And>pos. r = Some pos \<Longrightarrow> shows_at W a1 pos g \<and> glyph_rect pos g \<subseteq> used (allocation a1) - used (allocation a)"
      "\<And>pos q. glyph_rect pos q \<subseteq> used (allocation a) \<Longrightarrow> shows_at W a pos q \<Longrightarrow> shows_at W a1 pos q"
    using place_step [OF Cons.prems(1), of g] Cons.prems(2) by auto
  obtain a2 rs where a2: "place_all a1 gs = Some (a2, rs)" "length rs = length gs" "atlas_ok W H a2"
      "used (allocation a1) \<subseteq> used (allocation a2)"
      "\<And>pos q. glyph_rect pos q \<subseteq> used (allocation a1) \<Longrightarrow> shows_at W a1 pos q \<Longrightarrow> shows_at W a2 pos q"
      "\<And>k pos. k < length gs \<Longrightarrow> rs ! k = Some pos \<Longrightarrow> shows_at W a2 pos (gs ! k)
         \<and> glyph_rect pos (gs ! k) \<subseteq> used (allocation a2) - used (allocation a1)"
      "\<And>k l p q. k < length gs \<Longrightarrow> l < k \<Longrightarrow> rs ! k = Some p \<Longrightarrow> rs ! l = Some q \<Longrightarrow>
         glyph_rect p (gs ! k) \<inter> glyph_rect q (gs ! l) = {}"
    using Cons.IH [OF a1(2)] Cons.prems(2) a1(3) by auto
  have shown: "shows_at W a2 pos ((g # gs) ! k) \<and> glyph_rect pos ((g # gs) ! k) \<subseteq> used (allocation a2) - used (allocation a)"
    if "k < length (g # gs)" "(r # rs) ! k = Some pos" for k pos
    using that a1(4) a1(5) [of pos] a2(4) a2(5) [of pos g] a2(6) [of "k - 1" pos] by (cases k) auto
  have apart: "glyph_rect p ((g # gs) ! k) \<inter> glyph_rect q ((g # gs) ! l) = {}"
    if "k < length (g # gs)" "l < k" "(r # rs) ! k = Some p" "(r # rs) ! l = Some q" for k l p q
    using that a1(5) [of q] a2(6) [of "k - 1" p] a2(7) [of "k - 1" "l - 1" p q] by (cases k; cases l) auto
  have "place_all a (g # gs) = Some (a2, r # rs)" using a1(1) a2(1) by simp
  moreover have "shows_at W a2 pos q" if "glyph_rect pos q \<subseteq> used (allocation a)" "shows_at W a pos q" for pos q
    using that a1(4,6) a2(5) by blast
  ultimately show ?case using a1(4) a2(2,3,4) shown apart by auto
qed auto

text \<open>
  C22: placing pixmaps one after the other in a new atlas never writes outside its surface, and at the
  end every pixmap that got a place is shown there byte for byte, inside the surface and apart from
  every other one, however many were placed after it. The surface must be as large as
  \<open>gsKit_texture_size\<close> documents.
\<close>

theorem atlas_glyphs_intact:
  assumes "\<And>w h p. pixelSize p * (w * h) \<le> txtsize w h p" and "list_all (pixmap_ok p) gs"
    and "atlasNew txtsize True W H p = Some a"
  shows "\<exists>a' rs. place_all a gs = Some (a', rs) \<and> length rs = length gs
    \<and> (\<forall>k < length gs. \<forall>pos. rs ! k = Some pos \<longrightarrow> shows_at W a' pos (gs ! k) \<and> glyph_rect pos (gs ! k) \<subseteq> rect 0 0 W H)
    \<and> (\<forall>k < length gs. \<forall>l < k. \<forall>p q. rs ! k = Some p \<longrightarrow> rs ! l = Some q \<longrightarrow> glyph_rect p (gs ! k) \<inter> glyph_rect q (gs ! l) = {})"
proof -
  have a: "atlas_ok W H a" "surface_psm a = p"
    using assms(1,3) by (auto simp: atlasNew_def atlas_ok_def allocNew_def)
  obtain a' rs where r: "place_all a gs = Some (a', rs)" "length rs = length gs" "atlas_ok W H a'"
      "\<And>k pos. k < length gs \<Longrightarrow> rs ! k = Some pos \<Longrightarrow> shows_at W a' pos (gs ! k)
         \<and> glyph_rect pos (gs ! k) \<subseteq> used (allocation a') - used (allocation a)"
      "\<forall>k < length gs. \<forall>l < k. \<forall>p q. rs ! k = Some p \<longrightarrow> rs ! l = Some q \<longrightarrow> glyph_rect p (gs ! k) \<inter> glyph_rect q (gs ! l) = {}"
    using place_all_spec [OF a(1), of gs] assms(2) a(2) by auto
  have "used (allocation a') \<subseteq> rect 0 0 W H" using used_region r(3) by (auto simp: atlas_ok_def)
  then have "shows_at W a' pos (gs ! k) \<and> glyph_rect pos (gs ! k) \<subseteq> rect 0 0 W H"
    if "k < length gs" "rs ! k = Some pos" for k pos
    using r(4) [OF that] by blast
  with r(1,2,5) show ?thesis by (intro exI [of _ a'] exI [of _ rs]) simp
qed

definition sample_glyphs :: "pixmap list" where
  "sample_glyphs = [\<lparr>pm_w = 2, pm_h = 1, pm_bytes = [1, 2]\<rparr>, \<lparr>pm_w = 1, pm_h = 1, pm_bytes = [3]\<rparr>]"

theorem atlas_glyphs_intact_witness:
  "\<exists>a a'. atlasNew (\<lambda>w h p. pixelSize p * (w * h)) True 4 4 GS_PSM_T8 = Some a
     \<and> place_all a sample_glyphs = Some (a', [Some (0, 0), Some (0, 2)]) \<and> shows_at 4 a' (0, 0) (sample_glyphs ! 0)"
proof -
  have g: "list_all (pixmap_ok GS_PSM_T8) sample_glyphs" by (simp add: sample_glyphs_def pixmap_ok_def)
  let ?a = "\<lparr>allocation = Free 0 0 4 4, surface_psm = GS_PSM_T8, surface_mem = replicate 16 0\<rparr>"
  have a: "atlasNew (\<lambda>w h p. pixelSize p * (w * h)) True 4 4 GS_PSM_T8 = Some ?a" by (simp add: atlasNew_def allocNew_def)
  have e: "map_option snd (place_all ?a sample_glyphs) = Some [Some (0, 0), Some (0, 2)]" by code_simp
  from atlas_glyphs_intact [OF _ g a] obtain a' rs where
    r: "place_all ?a sample_glyphs = Some (a', rs)" "\<forall>k < length sample_glyphs. \<forall>pos. rs ! k = Some pos \<longrightarrow> shows_at 4 a' pos (sample_glyphs ! k)"
    by auto
  then have rs: "rs = [Some (0, 0), Some (0, 2)]" using e by simp
  moreover have "0 < length sample_glyphs" by (simp add: sample_glyphs_def)
  ultimately have "shows_at 4 a' (0, 0) (sample_glyphs ! 0)" using r(2) by (metis nth_Cons_0)
  with a r(1) rs show ?thesis by blast
qed

end
