(* ===== verification/OsdHistory.thy ===== *)
theory OsdHistory
  imports Util "HOL-Library.Word"
begin

unbundle bit_operations_syntax

text \<open>
  The play history of the console's browser, \<open>src/OSDHistory.c\<close>: 21 records on the memory card, one
  of them updated or replaced at every launch. A file is the records it holds. \<open>rand\<close> is a sequence of
  numbers and the position reached in it; the loop that looks for an unused bit of a record's mask
  takes fuel, and it ends as soon as the sequence gives such a bit.
\<close>

section \<open>Records\<close>

abbreviation "MAX_HISTORY_ENTRIES \<equiv> (21::nat)"
abbreviation "SONY_SYSDATA_ICON_SYS_SIZE \<equiv> (1776::int)"
abbreviation "INT_MAX \<equiv> (0x7FFFFFFF::int)"

record history_entry =
  he_name :: "char list"
  he_launches :: "8 word"
  he_bitmask :: "8 word"
  he_shift :: "8 word"
  he_date :: "16 word"

definition blank_entry :: history_entry where
  "blank_entry = \<lparr>he_name = replicate 16 NUL, he_launches = 0, he_bitmask = 0, he_shift = 0, he_date = 0\<rparr>"

definition entry_name :: "history_entry \<Rightarrow> cstring" where
  "entry_name e = takeWhile (\<lambda>c. c \<noteq> NUL) (he_name e)"

definition OSD_HISTORY_SET_DATE :: "nat \<Rightarrow> nat \<Rightarrow> nat \<Rightarrow> 16 word" where
  "OSD_HISTORY_SET_DATE year month date =
     push_bit 9 (of_nat year) OR push_bit 5 (of_nat month AND 0xF) OR (of_nat date AND 0x1F)"

definition OSD_HISTORY_GET_YEAR :: "16 word \<Rightarrow> nat" where
  "OSD_HISTORY_GET_YEAR d = unat (drop_bit 9 d AND 0x7F)"

definition OSD_HISTORY_GET_MONTH :: "16 word \<Rightarrow> nat" where
  "OSD_HISTORY_GET_MONTH d = unat (drop_bit 5 d AND 0xF)"

definition OSD_HISTORY_GET_DATE :: "16 word \<Rightarrow> nat" where
  "OSD_HISTORY_GET_DATE d = unat (d AND 0x1F)"

text \<open>The clock's year, month and day in binary-coded decimal; \<open>btoi\<close> is the library's conversion.\<close>

definition GetTimestamp :: "(8 word \<Rightarrow> nat) \<Rightarrow> 8 word \<times> 8 word \<times> 8 word \<Rightarrow> 16 word" where
  "GetTimestamp btoi clock =
     (case clock of (year, month, day) \<Rightarrow> OSD_HISTORY_SET_DATE (btoi year) (btoi (month AND 0x7F)) (btoi day))"

section \<open>Files\<close>

text \<open>\<open>stored\<close> is whether the icon is there, \<open>fd\<close> the result of creating it, \<open>wr\<close> of writing it.\<close>

definition CreateSystemDataFolder :: "bool \<Rightarrow> int \<Rightarrow> int \<Rightarrow> char \<Rightarrow> char option \<times> int" where
  "CreateSystemDataFolder stored fd wr letter =
     (if stored then (None, 0)
      else if fd \<ge> 0 then
        (Some (if letter = CHR ''I'' then CHR ''J'' else if letter = CHR ''C'' then CHR ''C'' else CHR ''A''),
         if wr = SONY_SYSDATA_ICON_SYS_SIZE then 0 else - EIO)
      else (None, fd))"

datatype open_result = OpenFails int | Opens "history_entry list"

fun LoadHistoryFile :: "open_result \<Rightarrow> history_entry list \<times> int" where
  "LoadHistoryFile (OpenFails err) = ([], err)"
| "LoadHistoryFile (Opens es) = (take MAX_HISTORY_ENTRIES es, if length es \<ge> MAX_HISTORY_ENTRIES then 0 else - EIO)"

text \<open>\<open>wr\<close> is how many records reached the card.\<close>

definition SaveHistoryFile :: "int \<Rightarrow> nat \<Rightarrow> history_entry list \<Rightarrow> history_entry list option \<times> int" where
  "SaveHistoryFile fd wr es =
     (if fd \<ge> 0 then (Some (take wr es), if wr = MAX_HISTORY_ENTRIES then 0 else - EIO) else (None, fd))"

definition AddOldHistoryFileRecord :: "int \<Rightarrow> bool \<Rightarrow> history_entry \<Rightarrow> history_entry list \<Rightarrow> history_entry list \<times> int" where
  "AddOldHistoryFileRecord fd wr e old =
     (if fd \<ge> 0 then if wr then (old @ [e], 0) else (old, - EIO) else (old, fd))"

section \<open>One launch\<close>

fun pick_bit :: "(nat \<Rightarrow> nat) \<Rightarrow> nat \<Rightarrow> 8 word \<Rightarrow> nat \<Rightarrow> (nat \<times> nat) option" where
  "pick_bit rnd 0 bits pos = None"
| "pick_bit rnd (Suc fuel) bits pos =
     (let value = rnd pos mod 6 in if bit bits value then pick_bit rnd fuel bits (pos + 1) else Some (value, pos + 1))"

text \<open>\<open>NewLaunchCount\<close>.\<close>

definition next_count :: "8 word \<Rightarrow> nat" where
  "next_count launches = (if unat launches + 1 \<ge> 0x80 then 0x7F else unat launches + 1)"

definition touch_entry :: "(nat \<Rightarrow> nat) \<Rightarrow> nat \<Rightarrow> 16 word \<Rightarrow> history_entry \<Rightarrow> nat \<Rightarrow> (history_entry \<times> nat) option" where
  "touch_entry rnd fuel now e pos =
     (let e = e\<lparr>he_date := now\<rparr> in
      if he_bitmask e AND 0x3F \<noteq> 0x3F then
        let n = next_count (he_launches e)
        in if n \<ge> 14 \<and> (n - 14) mod 10 = 0 then
             (case pick_bit rnd fuel (he_bitmask e) pos of
                None \<Rightarrow> None
              | Some (value, pos') \<Rightarrow>
                  Some (e\<lparr>he_shift := of_nat value, he_bitmask := he_bitmask e OR push_bit value 1, he_launches := of_nat n\<rparr>, pos'))
           else Some (e\<lparr>he_launches := of_nat n\<rparr>, pos)
      else if he_launches e < 0x3F then Some (e\<lparr>he_launches := he_launches e + 1\<rparr>, pos)
      else Some (e\<lparr>he_launches := he_bitmask e AND 0x3F, he_shift := 7\<rparr>, pos))"

record hist_scan =
  hs_least :: nat
  hs_count :: int
  hs_time :: int
  hs_new :: bool
  hs_rand :: nat

definition scan_init :: "nat \<Rightarrow> hist_scan" where
  "scan_init pos = \<lparr>hs_least = 0, hs_count = INT_MAX, hs_time = INT_MAX, hs_new = True, hs_rand = pos\<rparr>"

definition least_step :: "nat \<Rightarrow> history_entry \<Rightarrow> hist_scan \<Rightarrow> hist_scan" where
  "least_step i e s =
     (let s = (if uint (he_launches e) < hs_count s then s\<lparr>hs_least := i, hs_count := uint (he_launches e)\<rparr> else s)
      in if hs_count s = uint (he_launches e) \<and> uint (he_date e) < hs_time s
         then s\<lparr>hs_time := uint (he_date e), hs_least := i\<rparr> else s)"

fun scan_entries ::
  "(nat \<Rightarrow> nat) \<Rightarrow> nat \<Rightarrow> 16 word \<Rightarrow> cstring \<Rightarrow> nat \<Rightarrow> history_entry list \<Rightarrow> hist_scan \<Rightarrow> (history_entry list \<times> hist_scan) option" where
  "scan_entries rnd fuel now name i [] s = Some ([], s)"
| "scan_entries rnd fuel now name i (e # es) s =
     (let s = least_step i e s in
      if strneq 16 (entry_name e) name then
        (case touch_entry rnd fuel now e (hs_rand s) of
           None \<Rightarrow> None
         | Some (e', pos) \<Rightarrow>
             map_option (\<lambda>(es', s'). (e' # es', s')) (scan_entries rnd fuel now name (i + 1) es (s\<lparr>hs_new := False, hs_rand := pos\<rparr>)))
      else map_option (\<lambda>(es', s'). (e # es', s')) (scan_entries rnd fuel now name (i + 1) es s))"

definition blank_slots :: "history_entry list \<Rightarrow> nat list" where
  "blank_slots es = filter (\<lambda>i. hd (he_name (es ! i)) = NUL) [0..<length es]"

definition slots_used :: "history_entry list \<Rightarrow> nat" where
  "slots_used es = length (filter (\<lambda>e. hd (he_name e) \<noteq> NUL \<and> he_shift e = 7) es)"

text \<open>\<open>strncpy\<close> into the first fifteen bytes, padded with NULs; the last byte stays.\<close>

definition store_name :: "cstring \<Rightarrow> char list \<Rightarrow> char list" where
  "store_name name cells = take 15 (name @ replicate 15 NUL) @ drop 15 cells"

definition new_entry :: "16 word \<Rightarrow> cstring \<Rightarrow> history_entry \<Rightarrow> history_entry" where
  "new_entry now name e = \<lparr>he_name = store_name name (he_name e), he_launches = 1, he_bitmask = 1, he_shift = 0, he_date = now\<rparr>"

text \<open>The records and \<open>history.old\<close> after a launch that found no record.\<close>

definition insert_record ::
  "(nat \<Rightarrow> nat) \<Rightarrow> int \<times> bool \<Rightarrow> 16 word \<Rightarrow> cstring \<Rightarrow> hist_scan \<Rightarrow> history_entry list \<Rightarrow> history_entry list
    \<Rightarrow> history_entry list \<times> history_entry list" where
  "insert_record rnd oldf now name s es old =
     (if slots_used es \<noteq> MAX_HISTORY_ENTRIES then
        if blank_slots es \<noteq> [] then
          let i = blank_slots es ! (rnd (hs_rand s) mod length (blank_slots es))
          in (es[i := new_entry now name (es ! i)], old)
        else
          (es[hs_least s := new_entry now name (es ! hs_least s)],
           fst (AddOldHistoryFileRecord (fst oldf) (snd oldf) (es ! hs_least s) old))
      else (es, old))"

definition update_history ::
  "(nat \<Rightarrow> nat) \<Rightarrow> nat \<Rightarrow> int \<times> bool \<Rightarrow> 16 word \<Rightarrow> cstring \<Rightarrow> history_entry list \<Rightarrow> history_entry list
    \<Rightarrow> (history_entry list \<times> history_entry list) option" where
  "update_history rnd fuel oldf now name es old =
     (case scan_entries rnd fuel now name 0 es (scan_init 0) of
        None \<Rightarrow> None
      | Some (es', s) \<Rightarrow> Some (if hs_new s then insert_record rnd oldf now name s es' old else (es', old)))"

record hist_env =
  hv_cards :: "(int \<times> int) list"
  hv_history :: open_result
  hv_letter :: char
  hv_icon :: "bool \<times> int \<times> int"
  hv_oldf :: "int \<times> bool"
  hv_save :: "int \<times> nat"
  hv_now :: "16 word"

record hist_result =
  hr_ret :: int
  hr_history :: "history_entry list option"
  hr_old :: "history_entry list"

abbreviation "sceMcTypePS2 \<equiv> (2::int)"
abbreviation "MC_FORMATTED \<equiv> (1::int)"

definition card_slot :: "(int \<times> int) list \<Rightarrow> nat option" where
  "card_slot cards =
     find (\<lambda>i. cards ! i = (sceMcTypePS2, MC_FORMATTED)) [0..<2]"

text \<open>
  \<open>AddHistoryRecord\<close>: \<open>hr_history\<close> is the history file when it was written. \<open>None\<close>: no unused bit within
  the fuel.
\<close>

definition AddHistoryRecord :: "(nat \<Rightarrow> nat) \<Rightarrow> nat \<Rightarrow> hist_env \<Rightarrow> history_entry list \<Rightarrow> cstring \<Rightarrow> hist_result option" where
  "AddHistoryRecord rnd fuel env old name =
     (if card_slot (hv_cards env) = None then Some \<lparr>hr_ret = - 1, hr_history = None, hr_old = old\<rparr>
      else
        let (loaded, err) = LoadHistoryFile (hv_history env);
            folder = (case hv_icon env of (stored, fd, wr) \<Rightarrow> snd (CreateSystemDataFolder stored fd wr (hv_letter env)))
        in if err \<noteq> 0 \<and> hv_letter env = CHR ''R'' then Some \<lparr>hr_ret = - 2, hr_history = None, hr_old = old\<rparr>
           else if err \<noteq> 0 \<and> folder \<noteq> 0 then Some \<lparr>hr_ret = folder, hr_history = None, hr_old = old\<rparr>
           else
             let es = (if err \<noteq> 0 then replicate MAX_HISTORY_ENTRIES blank_entry else loaded)
             in map_option
                  (\<lambda>(es', old'). case SaveHistoryFile (fst (hv_save env)) (snd (hv_save env)) es' of
                     (file, r) \<Rightarrow> \<lparr>hr_ret = r, hr_history = file, hr_old = old'\<rparr>)
                  (update_history rnd fuel (hv_oldf env) (hv_now env) name es old))"

section \<open>The name of a boot path\<close>

definition path_sep :: "char \<Rightarrow> bool" where
  "path_sep c \<longleftrightarrow> c = CHR 0x5C \<or> c = CHR '':'' \<or> c = CHR ''/''"

text \<open>The last separator at an index above 0.\<close>

fun last_sep :: "cstring \<Rightarrow> nat \<Rightarrow> nat option" where
  "last_sep p 0 = None"
| "last_sep p (Suc i) = (if Suc i < length p \<and> path_sep (p ! Suc i) then Some (Suc i) else last_sep p i)"

definition GetBootFilename :: "cstring \<Rightarrow> cstring" where
  "GetBootFilename bootpath =
     (let len = length bootpath in
      case last_sep bootpath len of
        Some i \<Rightarrow>
          let len = (if len > 2 \<and> bootpath ! (len - 1) = CHR ''1'' \<and> bootpath ! (len - 2) = CHR '';'' then len - 2 else len)
          in take (min 15 (len - (i + 1))) (drop (i + 1) bootpath)
      | None \<Rightarrow> take 15 bootpath)"

definition AddHistoryRecordUsingFullPath ::
  "(nat \<Rightarrow> nat) \<Rightarrow> nat \<Rightarrow> hist_env \<Rightarrow> history_entry list \<Rightarrow> cstring \<Rightarrow> hist_result option" where
  "AddHistoryRecordUsingFullPath rnd fuel env old path = AddHistoryRecord rnd fuel env old (GetBootFilename path)"

section \<open>Properties\<close>

text \<open>A well-formed history: terminated names that differ, counts of at most 127.\<close>

definition entry_ok :: "history_entry \<Rightarrow> bool" where
  "entry_ok e \<longleftrightarrow> length (he_name e) = 16 \<and> he_name e ! 15 = NUL \<and> he_launches e \<le> 0x7F"

definition hist_ok :: "history_entry list \<Rightarrow> bool" where
  "hist_ok es \<longleftrightarrow> length es = MAX_HISTORY_ENTRIES \<and> (\<forall>e \<in> set es. entry_ok e)
     \<and> (\<forall>i < length es. \<forall>j < length es. i \<noteq> j \<longrightarrow> entry_name (es ! i) \<noteq> [] \<longrightarrow> entry_name (es ! i) \<noteq> entry_name (es ! j))"

lemma full_mask: "(\<And>v. v < 6 \<Longrightarrow> bit m v) \<Longrightarrow> (m :: 8 word) AND 0x3F = 0x3F"
proof -
  assume "\<And>v. v < 6 \<Longrightarrow> bit m v"
  then have "m AND mask 6 = mask 6" by (auto intro!: bit_eqI simp: bit_simps)
  then show ?thesis by (simp add: mask_eq_exp_minus_1)
qed

lemma pick_bit_Some:
  assumes "j < fuel" "\<not> bit m (rnd (pos + j) mod 6)"
  shows "\<exists>v pos'. pick_bit rnd fuel m pos = Some (v, pos') \<and> v < 6 \<and> \<not> bit m v"
  using assms
proof (induction fuel arbitrary: pos j)
  case (Suc fuel)
  show ?case
  proof (cases "bit m (rnd pos mod 6)")
    case True
    then have "j \<noteq> 0" using Suc.prems(2) by (cases j) auto
    then show ?thesis using Suc.IH [of "j - 1" "pos + 1"] Suc.prems True by simp
  qed (simp add: Let_def)
qed simp

definition fair :: "(nat \<Rightarrow> nat) \<Rightarrow> nat \<Rightarrow> bool" where
  "fair rnd fuel \<longleftrightarrow> (\<forall>pos v. v < 6 \<longrightarrow> (\<exists>j < fuel. rnd (pos + j) mod 6 = v))"

lemma next_count_bounds:
  "of_nat (next_count w) \<le> (0x7F :: 8 word)" "w < 0x3F \<Longrightarrow> of_nat (next_count w) = w + 1"
proof -
  have "next_count w \<le> 127" by (simp add: next_count_def)
  moreover from this have "unat (of_nat (next_count w) :: 8 word) = next_count w" by (simp add: unat_of_nat)
  ultimately show "of_nat (next_count w) \<le> (0x7F :: 8 word)" by (simp add: word_le_nat_alt)
  show "w < 0x3F \<Longrightarrow> of_nat (next_count w) = w + 1" by (simp add: next_count_def word_less_nat_alt)
qed

lemma touch_entry_spec:
  assumes "fair rnd fuel" "he_launches e \<le> 0x7F"
  shows "\<exists>e' pos'. touch_entry rnd fuel now e pos = Some (e', pos') \<and> he_name e' = he_name e \<and> he_date e' = now
    \<and> he_launches e' \<le> 0x7F \<and> he_bitmask e' AND he_bitmask e = he_bitmask e
    \<and> (he_launches e < 0x3F \<longrightarrow> he_launches e' = he_launches e + 1)"
proof (cases "he_bitmask e AND 0x3F = 0x3F")
  case True
  have "he_launches e < 0x3F \<Longrightarrow> he_launches e + 1 \<le> 0x7F" by (simp add: word_le_nat_alt word_less_nat_alt unat_word_ariths)
  with True show ?thesis by (auto simp: touch_entry_def Let_def)
next
  case False
  then obtain v where v: "v < 6" "\<not> bit (he_bitmask e) v" using full_mask by blast
  then obtain j where "j < fuel" "rnd (pos + j) mod 6 = v" using assms(1) unfolding fair_def by blast
  with v obtain b pos' where b: "pick_bit rnd fuel (he_bitmask e) pos = Some (b, pos')"
    using pick_bit_Some [of j fuel "he_bitmask e" rnd pos] by auto
  have keep: "(he_bitmask e OR x) AND he_bitmask e = he_bitmask e" for x
    by (rule bit_eqI) (auto simp: bit_simps)
  show ?thesis using False b keep next_count_bounds [of "he_launches e"] by (simp add: touch_entry_def Let_def)
qed

fun least_from :: "nat \<Rightarrow> history_entry list \<Rightarrow> hist_scan \<Rightarrow> hist_scan" where
  "least_from i [] s = s"
| "least_from i (e # es) s = least_from (i + 1) es (least_step i e s)"

lemma least_step_frame [simp]: "hs_new (least_step i e s) = hs_new s" "hs_rand (least_step i e s) = hs_rand s"
  by (simp_all add: least_step_def Let_def)

lemma least_from_frame [simp]: "hs_new (least_from i es s) = hs_new s" "hs_rand (least_from i es s) = hs_rand s"
  by (induction i es s rule: least_from.induct) simp_all

lemma scan_unmatched:
  "\<forall>e \<in> set A. \<not> strneq 16 (entry_name e) name \<Longrightarrow>
    scan_entries rnd fuel now name i (A @ R) s =
      map_option (\<lambda>(es', s'). (A @ es', s')) (scan_entries rnd fuel now name (i + length A) R (least_from i A s))"
  by (induction A arbitrary: i s) (simp_all add: Let_def option.map_comp comp_def case_prod_unfold option.map_ident)

lemma scan_none:
  "\<forall>e \<in> set es. \<not> strneq 16 (entry_name e) name \<Longrightarrow>
    scan_entries rnd fuel now name i es s = Some (es, least_from i es s)"
  using scan_unmatched [of es name rnd fuel now i "[]" s] by simp

text \<open>The record the scan settles on is one with the fewest launches.\<close>

definition least_ok :: "history_entry list \<Rightarrow> hist_scan \<Rightarrow> bool" where
  "least_ok ps s \<longleftrightarrow> (if ps = [] then hs_count s = INT_MAX
     else hs_least s < length ps \<and> hs_count s = uint (he_launches (ps ! hs_least s))
       \<and> (\<forall>e \<in> set ps. hs_count s \<le> uint (he_launches e)))"

lemma least_step_ok:
  assumes "least_ok ps s"
  shows "least_ok (ps @ [e]) (least_step (length ps) e s)"
proof -
  have "uint (he_launches e) < 256" using uint_lt2p [of "he_launches e"] by simp
  then have lt: "uint (he_launches e) < INT_MAX" by simp
  show ?thesis
  proof (cases "uint (he_launches e) < hs_count s")
    case True
    then show ?thesis using assms lt by (auto simp: least_ok_def least_step_def Let_def nth_append split: if_splits)
  next
    case False
    then have "ps \<noteq> []" using assms lt by (auto simp: least_ok_def)
    with False assms show ?thesis by (auto simp: least_ok_def least_step_def Let_def nth_append)
  qed
qed

lemma least_from_ok: "least_ok ps s \<Longrightarrow> least_ok (ps @ es) (least_from (length ps) es s)"
proof (induction es arbitrary: ps s)
  case (Cons e es)
  from Cons.IH [OF least_step_ok [OF Cons.prems, of e]] show ?case by simp
qed simp

lemma hist_least:
  assumes "es \<noteq> []"
  shows "hs_least (least_from 0 es (scan_init pos)) < length es"
    "\<forall>e \<in> set es. he_launches (es ! hs_least (least_from 0 es (scan_init pos))) \<le> he_launches e"
proof -
  have "least_ok [] (scan_init pos)" by (simp add: least_ok_def scan_init_def)
  from least_from_ok [OF this, of es] assms
  show "hs_least (least_from 0 es (scan_init pos)) < length es"
    "\<forall>e \<in> set es. he_launches (es ! hs_least (least_from 0 es (scan_init pos))) \<le> he_launches e"
    by (auto simp: least_ok_def word_le_def)
qed

lemma scan_match:
  assumes "fair rnd fuel" "es = A @ e # B" "entry_ok e" "strneq 16 (entry_name e) name"
    and "\<forall>x \<in> set A \<union> set B. \<not> strneq 16 (entry_name x) name"
  shows "\<exists>e' s'. scan_entries rnd fuel now name 0 es (scan_init 0) = Some (A @ e' # B, s') \<and> \<not> hs_new s'
    \<and> he_name e' = he_name e \<and> he_date e' = now \<and> he_launches e' \<le> 0x7F
    \<and> (he_launches e < 0x3F \<longrightarrow> he_launches e' = he_launches e + 1)"
proof -
  let ?s = "least_from 0 A (scan_init 0)"
  obtain e' pos' where e': "touch_entry rnd fuel now e (hs_rand ?s) = Some (e', pos')" "he_name e' = he_name e" "he_date e' = now"
      "he_launches e' \<le> 0x7F" "he_launches e < 0x3F \<longrightarrow> he_launches e' = he_launches e + 1"
    using touch_entry_spec [OF assms(1)] assms(3) unfolding entry_ok_def by blast
  let ?s' = "least_from (Suc (length A)) B ((least_step (length A) e ?s)\<lparr>hs_new := False, hs_rand := pos'\<rparr>)"
  have "scan_entries rnd fuel now name (length A) (e # B) ?s = Some (e' # B, ?s')"
    using scan_none [of B name] assms(4,5) e'(1) by (simp add: Let_def)
  then have "scan_entries rnd fuel now name 0 es (scan_init 0) = Some (A @ e' # B, ?s')"
    using scan_unmatched [of A name rnd fuel now 0 "e # B"] assms(2,5) by simp
  with e' show ?thesis by auto
qed

lemma entry_name_length: "entry_ok e \<Longrightarrow> length (entry_name e) \<le> 15"
proof -
  assume e: "entry_ok e"
  then have "NUL \<in> set (he_name e)" using nth_mem [of 15 "he_name e"] by (simp add: entry_ok_def)
  then obtain a b where ab: "he_name e = a @ NUL # b" "NUL \<notin> set a" by (meson split_list_first)
  then show ?thesis using e takeWhile_append_first [OF ab(2), of b] by (simp add: entry_name_def entry_ok_def)
qed

lemma name_match: "entry_ok e \<Longrightarrow> length name \<le> 15 \<Longrightarrow> strneq 16 (entry_name e) name \<longleftrightarrow> entry_name e = name"
  using entry_name_length [of e] by (simp add: strneq_def)

lemma blank_iff: "entry_ok e \<Longrightarrow> hd (he_name e) = NUL \<longleftrightarrow> entry_name e = []"
  by (cases "he_name e") (auto simp: entry_name_def entry_ok_def)

lemma new_entry_ok:
  assumes "entry_ok e" "length name \<le> 15" "NUL \<notin> set name"
  shows "entry_ok (new_entry now name e)" "entry_name (new_entry now name e) = name"
proof -
  have d: "drop 15 (he_name e) = [NUL]"
    using assms(1) by (simp add: entry_ok_def list_eq_iff_nth_eq)
  have s: "store_name name (he_name e) = name @ replicate (16 - length name) NUL"
  proof -
    have "16 - length name = Suc (15 - length name)" using assms(2) by simp
    then show ?thesis using assms(2) d by (simp add: store_name_def replicate_append_same min_def)
  qed
  moreover have "length (name @ replicate (16 - length name) NUL) = 16" using assms(2) by simp
  moreover have "(name @ replicate (16 - length name) NUL) ! 15 = NUL" using assms(2) by (simp add: nth_append)
  ultimately show "entry_ok (new_entry now name e)" by (simp only: entry_ok_def new_entry_def history_entry.simps) simp
  have "takeWhile (\<lambda>c. c \<noteq> NUL) (name @ replicate (16 - length name) NUL) = name"
    using assms(3) by (subst takeWhile_append2) (auto simp: takeWhile_replicate)
  with s show "entry_name (new_entry now name e) = name" by (simp add: entry_name_def new_entry_def)
qed

lemma hist_ok_update:
  assumes "hist_ok es" "i < length es" "entry_ok e" "\<forall>j < length es. j \<noteq> i \<longrightarrow> entry_name (es ! j) \<noteq> entry_name e"
  shows "hist_ok (es[i := e])"
proof -
  have "\<forall>x \<in> set (es[i := e]). entry_ok x" using assms(1,3) set_update_subset_insert [of es i e] by (auto simp: hist_ok_def)
  moreover have "entry_name (es[i := e] ! k) \<noteq> entry_name (es[i := e] ! j)"
    if "k < length es" "j < length es" "k \<noteq> j" "entry_name (es[i := e] ! k) \<noteq> []" for k j
    using that assms(1,2) assms(4) [rule_format, of k] assms(4) [rule_format, of j]
    by (cases "k = i"; cases "j = i") (auto simp: hist_ok_def)
  ultimately show ?thesis using assms(1) by (simp add: hist_ok_def)
qed

lemma hist_okD:
  "hist_ok es \<Longrightarrow> i < length es \<Longrightarrow> j < length es \<Longrightarrow> i \<noteq> j \<Longrightarrow> entry_name (es ! i) \<noteq> [] \<Longrightarrow> entry_name (es ! i) \<noteq> entry_name (es ! j)"
  by (simp add: hist_ok_def)

lemma update_known:
  assumes "fair rnd fuel" "hist_ok es" "name \<noteq> []" "length name \<le> 15" "i < length es" "entry_name (es ! i) = name"
  shows "\<exists>e'. update_history rnd fuel oldf now name es old = Some (es[i := e'], old) \<and> hist_ok (es[i := e'])
    \<and> entry_name e' = name \<and> he_date e' = now \<and> (he_launches (es ! i) < 0x3F \<longrightarrow> he_launches e' = he_launches (es ! i) + 1)"
proof -
  have split: "es = take i es @ es ! i # drop (Suc i) es" using assms(5) by (simp add: id_take_nth_drop [symmetric])
  have other: "entry_name (es ! j) \<noteq> name" if "j < length es" "j \<noteq> i" for j
    using hist_okD [OF assms(2,5) that(1)] that(2) assms(3,6) by auto
  have all: "entry_ok e" if "e \<in> set es" for e using assms(2) that by (simp add: hist_ok_def)
  have "\<forall>x \<in> set (take i es) \<union> set (drop (Suc i) es). \<not> strneq 16 (entry_name x) name"
  proof
    fix x assume x: "x \<in> set (take i es) \<union> set (drop (Suc i) es)"
    then obtain j where j: "j < length es" "j \<noteq> i" "x = es ! j"
      by (auto simp: in_set_conv_nth) (metis add_Suc_right less_add_Suc1 less_diff_conv2 nat_less_le nth_drop add.commute Suc_leI assms(5) less_diff_conv)
    then show "\<not> strneq 16 (entry_name x) name" using other name_match [OF all assms(4)] by simp
  qed
  from scan_match [OF assms(1) split all _ this, of now] assms(4,5,6) obtain e' s' where
    e': "scan_entries rnd fuel now name 0 es (scan_init 0) = Some (take i es @ e' # drop (Suc i) es, s')" "\<not> hs_new s'"
      "he_name e' = he_name (es ! i)" "he_date e' = now" "he_launches e' \<le> 0x7F"
      "he_launches (es ! i) < 0x3F \<longrightarrow> he_launches e' = he_launches (es ! i) + 1"
    using name_match [OF all, of "es ! i"] by (auto simp: strneq_def)
  have u: "take i es @ e' # drop (Suc i) es = es[i := e']" using assms(5) by (simp add: upd_conv_take_nth_drop)
  have n: "entry_name e' = name" using e'(3) assms(6) by (simp add: entry_name_def)
  have "entry_ok e'" using all [of "es ! i"] assms(5) e'(3,5) by (simp add: entry_ok_def)
  then have "hist_ok (es[i := e'])" using hist_ok_update [OF assms(2,5)] other n by simp
  then show ?thesis using e' n u by (auto simp: update_history_def)
qed

lemma blank_slot:
  assumes "hist_ok es" "blank_slots es \<noteq> []"
  shows "blank_slots es ! (n mod length (blank_slots es)) < length es"
    "entry_name (es ! (blank_slots es ! (n mod length (blank_slots es)))) = []"
proof -
  let ?i = "blank_slots es ! (n mod length (blank_slots es))"
  have "?i \<in> set (blank_slots es)" using assms(2) by (intro nth_mem) simp
  then show "?i < length es" "entry_name (es ! ?i) = []"
    using assms(1) blank_iff [of "es ! ?i"] by (auto simp: blank_slots_def hist_ok_def)
qed

lemma no_blank:
  assumes "hist_ok es" "blank_slots es = []"
  shows "[] \<notin> entry_name ` set es"
proof
  assume "[] \<in> entry_name ` set es"
  then obtain i where i: "i < length es" "entry_name (es ! i) = []" by (auto simp: in_set_conv_nth)
  then have "i \<in> set (blank_slots es)" using assms(1) blank_iff [of "es ! i"] by (auto simp: blank_slots_def hist_ok_def)
  with assms(2) show False by simp
qed

lemma all_pinned:
  assumes "length es = MAX_HISTORY_ENTRIES" "slots_used es = MAX_HISTORY_ENTRIES"
  shows "\<forall>e \<in> set es. he_shift e = 7"
proof -
  have "length (filter (\<lambda>e. hd (he_name e) \<noteq> NUL \<and> he_shift e = 7) es) = length es" using assms by (simp add: slots_used_def)
  then show ?thesis using length_filter_less [of _ es "\<lambda>e. hd (he_name e) \<noteq> NUL \<and> he_shift e = 7"] by fastforce
qed

lemma update_new:
  assumes "hist_ok es" "name \<noteq> []" "length name \<le> 15" "NUL \<notin> set name" "name \<notin> entry_name ` set es" "slots_used es \<noteq> MAX_HISTORY_ENTRIES"
  shows "\<exists>i old'. i < length es \<and> update_history rnd fuel oldf now name es old = Some (es[i := new_entry now name (es ! i)], old')
    \<and> (entry_name (es ! i) = [] \<and> old' = old
       \<or> [] \<notin> entry_name ` set es \<and> (\<forall>e \<in> set es. he_launches (es ! i) \<le> he_launches e)
         \<and> old' = fst (AddOldHistoryFileRecord (fst oldf) (snd oldf) (es ! i) old))"
proof -
  have ok: "entry_ok e" if "e \<in> set es" for e using assms(1) that by (simp add: hist_ok_def)
  have ne: "es \<noteq> []" using assms(1) by (auto simp: hist_ok_def)
  have "\<forall>e \<in> set es. \<not> strneq 16 (entry_name e) name" using name_match [OF ok assms(3)] assms(5) by auto
  note scan = scan_none [OF this, of rnd fuel now 0 "scan_init 0"]
  let ?s = "least_from 0 es (scan_init 0)"
  have new: "hs_new ?s" by (simp add: scan_init_def)
  show ?thesis
  proof (cases "blank_slots es = []")
    case True
    then show ?thesis using hist_least [OF ne, of 0] no_blank [OF assms(1)] scan new assms(6)
      by (intro exI [of _ "hs_least ?s"]) (simp add: update_history_def insert_record_def)
  next
    case False
    then show ?thesis using blank_slot [OF assms(1) False, of "rnd (hs_rand ?s)"] scan new assms(6)
      by (intro exI [of _ "blank_slots es ! (rnd (hs_rand ?s) mod length (blank_slots es))"])
        (simp add: update_history_def insert_record_def Let_def)
  qed
qed

text \<open>What one launch may do to a history, for the title \<open>name\<close>.\<close>

definition launch_recorded ::
  "int \<times> bool \<Rightarrow> 16 word \<Rightarrow> cstring \<Rightarrow> history_entry list \<Rightarrow> history_entry list \<Rightarrow> history_entry list \<Rightarrow> history_entry list \<Rightarrow> nat \<Rightarrow> bool" where
  "launch_recorded oldf now name es old es' old' i \<longleftrightarrow>
     i < length es \<and> es' = es[i := es' ! i] \<and> entry_name (es' ! i) = name \<and> he_date (es' ! i) = now
     \<and> (if name \<in> entry_name ` set es
        then entry_name (es ! i) = name \<and> old' = old
          \<and> (he_launches (es ! i) < 0x3F \<longrightarrow> he_launches (es' ! i) = he_launches (es ! i) + 1)
        else he_launches (es' ! i) = 1
          \<and> (entry_name (es ! i) = [] \<and> old' = old
             \<or> [] \<notin> entry_name ` set es \<and> (\<forall>e \<in> set es. he_launches (es ! i) \<le> he_launches e)
               \<and> old' = fst (AddOldHistoryFileRecord (fst oldf) (snd oldf) (es ! i) old)))"

text \<open>
  C23: a launch always finishes and keeps the history well formed. It changes exactly one record, which
  then has the title's name and the day's date: the title's own record, with one launch more, or for a
  new title a blank record or, when there is none, one with the fewest launches, whose old contents go
  to \<open>history.old\<close>. Only when the title is new and all 21 records are pinned does nothing change. The
  random numbers must give each of the six bits now and then, within the fuel.
\<close>

theorem history_update:
  assumes "fair rnd fuel" "hist_ok es" "name \<noteq> []" "length name \<le> 15" "NUL \<notin> set name"
  shows "\<exists>es' old'. update_history rnd fuel oldf now name es old = Some (es', old') \<and> hist_ok es'
    \<and> ((\<exists>i. launch_recorded oldf now name es old es' old' i)
       \<or> name \<notin> entry_name ` set es \<and> (\<forall>e \<in> set es. he_shift e = 7) \<and> es' = es \<and> old' = old)"
proof (cases "name \<in> entry_name ` set es")
  case True
  then obtain i where i: "i < length es" "entry_name (es ! i) = name" by (auto simp: in_set_conv_nth)
  from update_known [OF assms(1-4) i, of oldf now old] obtain e' where
    e': "update_history rnd fuel oldf now name es old = Some (es[i := e'], old)" "hist_ok (es[i := e'])"
      "entry_name e' = name" "he_date e' = now" "he_launches (es ! i) < 0x3F \<longrightarrow> he_launches e' = he_launches (es ! i) + 1" by blast
  then have "launch_recorded oldf now name es old (es[i := e']) old i" using True i by (simp add: launch_recorded_def)
  with e'(1,2) show ?thesis by blast
next
  case new: False
  show ?thesis
  proof (cases "slots_used es = MAX_HISTORY_ENTRIES")
    case True
    have "\<forall>e \<in> set es. \<not> strneq 16 (entry_name e) name" using name_match [OF _ assms(4)] assms(2) new by (auto simp: hist_ok_def)
    from scan_none [OF this] True have "update_history rnd fuel oldf now name es old = Some (es, old)"
      by (simp add: update_history_def insert_record_def scan_init_def)
    then show ?thesis using assms(2) new all_pinned [OF _ True] by (auto simp: hist_ok_def)
  next
    case False
    from update_new [OF assms(2-5) new False, of rnd fuel oldf now old] obtain i old' where i: "i < length es"
        "update_history rnd fuel oldf now name es old = Some (es[i := new_entry now name (es ! i)], old')"
        "entry_name (es ! i) = [] \<and> old' = old
           \<or> [] \<notin> entry_name ` set es \<and> (\<forall>e \<in> set es. he_launches (es ! i) \<le> he_launches e)
             \<and> old' = fst (AddOldHistoryFileRecord (fst oldf) (snd oldf) (es ! i) old)" by blast
    have "entry_ok (es ! i)" using assms(2) i(1) by (simp add: hist_ok_def)
    note ne = new_entry_ok [OF this assms(4,5), of now]
    have "hist_ok (es[i := new_entry now name (es ! i)])"
    proof (rule hist_ok_update [OF assms(2) i(1) ne(1)])
      show "\<forall>j < length es. j \<noteq> i \<longrightarrow> entry_name (es ! j) \<noteq> entry_name (new_entry now name (es ! i))"
        using new nth_mem unfolding ne(2) by blast
    qed
    moreover have "launch_recorded oldf now name es old (es[i := new_entry now name (es ! i)]) old' i"
      using i(1,3) ne(2) new by (simp add: launch_recorded_def new_entry_def)
    ultimately show ?thesis using i(2) by blast
  qed
qed

lemma boot_name_fits: "length (GetBootFilename path) \<le> 15" "set (GetBootFilename path) \<subseteq> set path"
  by (auto simp: GetBootFilename_def Let_def split: option.splits dest!: in_set_takeD in_set_dropD)

lemma blank_history_ok: "hist_ok (replicate MAX_HISTORY_ENTRIES blank_entry)"
proof -
  have b: "entry_ok blank_entry" "entry_name blank_entry = []" by (simp_all add: entry_ok_def blank_entry_def entry_name_def)
  then show ?thesis by (auto simp: hist_ok_def simp del: replicate.simps)
qed

lemma counting_fair: "fair (\<lambda>n. n) 6"
proof -
  have "\<exists>j < 6. (pos + j) mod 6 = v" if "v < (6::nat)" for pos v
  proof -
    have "(pos + (v + 6 - pos mod 6) mod 6) mod 6 = (pos mod 6 + (v + 6 - pos mod 6)) mod 6"
      by (metis mod_add_left_eq mod_add_right_eq)
    also have "pos mod 6 + (v + 6 - pos mod 6) = v + 6" using mod_less_divisor [of 6 pos] by linarith
    also have "(v + 6) mod 6 = v" using that by simp
    finally show ?thesis by (intro exI [of _ "(v + 6 - pos mod 6) mod 6"]) simp
  qed
  then show ?thesis by (simp add: fair_def)
qed

theorem history_update_witness:
  "\<exists>es' old'. update_history (\<lambda>n. n) 6 (0, True) 0x1A75 ''SLUS_200.62'' (replicate MAX_HISTORY_ENTRIES blank_entry) [] = Some (es', old')
     \<and> hist_ok es'"
  using history_update [OF counting_fair blank_history_ok, of "''SLUS_200.62''" "(0, True)" "0x1A75" "[]"] by auto

end
