(* ===== verification/Modes.thy ===== *)
theory Modes
  imports Prelude
begin

text \<open>The device modes of \<open>include/iosupport.h\<close>, as the C enumeration: a mode is an \<open>int\<close>.\<close>

abbreviation "BDM_MODE \<equiv> (0::int)"
abbreviation "BDM_MODE_LAST \<equiv> (7::int)"
abbreviation "BDM_MODE_COUNT \<equiv> (8::int)"
abbreviation "ETH_MODE \<equiv> (8::int)"
abbreviation "HDD_MODE \<equiv> (9::int)"
abbreviation "APP_MODE \<equiv> (10::int)"
abbreviation "MMCE_MODE \<equiv> (11::int)"
abbreviation "FAV_MODE \<equiv> (12::int)"
abbreviation "UDPFS_MODE \<equiv> (13::int)"
abbreviation "HTTP_MODE \<equiv> (14::int)"
abbreviation "MODE_COUNT \<equiv> (15::int)"

definition mode_valid :: "int \<Rightarrow> bool" where
  "mode_valid m \<longleftrightarrow> 0 \<le> m \<and> m < MODE_COUNT"

end
