(* ===== verification/Simulation.thy ===== *)
theory Simulation
  imports Main
begin

text \<open>
  Calls in sequence, and the interface of a component that implements a specification step by step.
  \<open>run\<close> makes the calls one after the other and collects what they return. In \<open>simulation\<close> a relation
  between the states is kept by every call that the callers may make, and both sides answer the same;
  then they answer the same over every sequence. \<open>FolderNav\<close> and \<open>LibView\<close> interpret it.
\<close>

fun run :: "('op \<Rightarrow> 's \<Rightarrow> 's \<times> 'r) \<Rightarrow> 'op list \<Rightarrow> 's \<Rightarrow> 's \<times> 'r list" where
  "run step [] s = (s, [])"
| "run step (op # ops) s = (case step op s of (s', r) \<Rightarrow> (case run step ops s' of (s'', rs) \<Rightarrow> (s'', r # rs)))"

locale simulation =
  fixes step :: "'op \<Rightarrow> 's \<Rightarrow> 's \<times> 'r"
    and spec :: "'op \<Rightarrow> 't \<Rightarrow> 't \<times> 'r"
    and rel :: "'s \<Rightarrow> 't \<Rightarrow> bool"
    and ok :: "'op \<Rightarrow> bool"
  assumes rel_step: "rel s t \<Longrightarrow> ok op \<Longrightarrow> rel (fst (step op s)) (fst (spec op t))"
    and same_answer: "rel s t \<Longrightarrow> ok op \<Longrightarrow> snd (step op s) = snd (spec op t)"
begin

lemma rel_run:
  "rel s t \<Longrightarrow> list_all ok ops \<Longrightarrow> rel (fst (run step ops s)) (fst (run spec ops t))"
  by (induction ops arbitrary: s t) (auto simp: case_prod_beta rel_step)

lemma same_answers:
  "rel s t \<Longrightarrow> list_all ok ops \<Longrightarrow> snd (run step ops s) = snd (run spec ops t)"
  by (induction ops arbitrary: s t) (auto simp: case_prod_beta rel_step same_answer)

end

text \<open>An invariant that every call keeps.\<close>

locale invariant =
  fixes step :: "'op \<Rightarrow> 's \<Rightarrow> 's \<times> 'r"
    and inv :: "'s \<Rightarrow> bool"
    and ok :: "'op \<Rightarrow> bool"
  assumes inv_step: "inv s \<Longrightarrow> ok op \<Longrightarrow> inv (fst (step op s))"
begin

lemma inv_run: "inv s \<Longrightarrow> list_all ok ops \<Longrightarrow> inv (fst (run step ops s))"
  by (induction ops arbitrary: s) (auto simp: case_prod_beta inv_step)

end

end
