(* ===== verification/FolderNav.thy ===== *)
theory FolderNav
  imports Modes Simulation
begin

text \<open>
  Folder navigation of the game list, \<open>src/folderbrowse.c\<close>: per device mode a joined subpath, its depth
  and a flag that asks for one rescan. The specification keeps the list of the folders entered instead
  of the joined text; \<open>folder_refines_stack\<close> relates the two over any sequence of calls.
\<close>

section \<open>The code\<close>

abbreviation "FOLDER_SUB_MAX \<equiv> (128::nat)"
abbreviation "FOLDER_DEPTH_MAX \<equiv> (8::nat)"

record folder_state =
  folderSub :: "int \<Rightarrow> cstring"
  folderDirtyFlag :: "int \<Rightarrow> bool"
  folderLevels :: "int \<Rightarrow> nat"

definition folder_init :: folder_state where
  "folder_init = \<lparr>folderSub = (\<lambda>_. []), folderDirtyFlag = (\<lambda>_. False), folderLevels = (\<lambda>_. 0)\<rparr>"

definition folderModeSupported :: "int \<Rightarrow> bool" where
  "folderModeSupported mode \<longleftrightarrow> (BDM_MODE \<le> mode \<and> mode \<le> BDM_MODE_LAST) \<or> mode = MMCE_MODE \<or> mode = UDPFS_MODE"

text \<open>The guard all four calls open with; \<open>en\<close> is \<open>gEnableFolderNav\<close>.\<close>

definition folder_on :: "bool \<Rightarrow> int \<Rightarrow> bool" where
  "folder_on en mode \<longleftrightarrow> en \<and> mode_valid mode \<and> folderModeSupported mode"

definition folderGetSub :: "bool \<Rightarrow> int \<Rightarrow> folder_state \<Rightarrow> cstring" where
  "folderGetSub en mode s = (if \<not> folder_on en mode then [] else folderSub s mode)"

definition folderDepth :: "bool \<Rightarrow> int \<Rightarrow> folder_state \<Rightarrow> nat" where
  "folderDepth en mode s = (if \<not> folder_on en mode then 0 else folderLevels s mode)"

definition folderDescend :: "bool \<Rightarrow> int \<Rightarrow> cstring option \<Rightarrow> folder_state \<Rightarrow> folder_state \<times> bool" where
  "folderDescend en mode name s =
     (if \<not> folder_on en mode then (s, False)
      else (case name of
              None \<Rightarrow> (s, False)
            | Some n \<Rightarrow>
                if n = [] \<or> folderLevels s mode \<ge> FOLDER_DEPTH_MAX then (s, False)
                else
                  let joined = (if folderSub s mode = [] then n else folderSub s mode @ ''/'' @ n) in
                  if length joined \<ge> FOLDER_SUB_MAX then (s, False)
                  else (s\<lparr>folderSub := (folderSub s)(mode := joined),
                          folderLevels := (folderLevels s)(mode := folderLevels s mode + 1),
                          folderDirtyFlag := (folderDirtyFlag s)(mode := True)\<rparr>, True)))"

definition folderAscend :: "bool \<Rightarrow> int \<Rightarrow> folder_state \<Rightarrow> folder_state \<times> bool" where
  "folderAscend en mode s =
     (if \<not> folder_on en mode then (s, False)
      else if folderLevels s mode = 0 then (s, False)
      else
        let sub = (case strrchr (folderSub s mode) (CHR ''/'') of
                     Some i \<Rightarrow> take i (folderSub s mode)
                   | None \<Rightarrow> [])
        in (s\<lparr>folderSub := (folderSub s)(mode := sub),
              folderLevels := (folderLevels s)(mode := folderLevels s mode - 1),
              folderDirtyFlag := (folderDirtyFlag s)(mode := True)\<rparr>, True))"

definition folderReset :: "int \<Rightarrow> folder_state \<Rightarrow> folder_state" where
  "folderReset mode s =
     (if \<not> mode_valid mode then s
      else if folderSub s mode \<noteq> [] \<or> folderLevels s mode \<noteq> 0 then
        s\<lparr>folderSub := (folderSub s)(mode := []), folderLevels := (folderLevels s)(mode := 0),
          folderDirtyFlag := (folderDirtyFlag s)(mode := True)\<rparr>
      else s)"

definition folderConsumeDirty :: "int \<Rightarrow> folder_state \<Rightarrow> folder_state \<times> bool" where
  "folderConsumeDirty mode s =
     (if \<not> mode_valid mode \<or> \<not> folderDirtyFlag s mode then (s, False)
      else (s\<lparr>folderDirtyFlag := (folderDirtyFlag s)(mode := False)\<rparr>, True))"

section \<open>Calls in sequence\<close>

datatype folder_op =
    Descend bool int "cstring option"
  | Ascend bool int
  | Reset int
  | ConsumeDirty int

fun folder_step :: "folder_op \<Rightarrow> folder_state \<Rightarrow> folder_state \<times> bool" where
  "folder_step (Descend en mode name) s = folderDescend en mode name s"
| "folder_step (Ascend en mode) s = folderAscend en mode s"
| "folder_step (Reset mode) s = (folderReset mode s, True)"
| "folder_step (ConsumeDirty mode) s = folderConsumeDirty mode s"

section \<open>The specification\<close>

text \<open>Per mode the folders entered, innermost last, and whether a rescan is due.\<close>

type_synonym nav = "(int \<Rightarrow> cstring list) \<times> (int \<Rightarrow> bool)"

fun join :: "cstring list \<Rightarrow> cstring" where
  "join [] = []"
| "join [n] = n"
| "join (n # m # ns) = n @ ''/'' @ join (m # ns)"

fun nav_step :: "folder_op \<Rightarrow> nav \<Rightarrow> nav \<times> bool" where
  "nav_step (Descend en mode name) (stk, d) =
     (case name of
        None \<Rightarrow> ((stk, d), False)
      | Some n \<Rightarrow>
          if folder_on en mode \<and> n \<noteq> [] \<and> length (stk mode) < FOLDER_DEPTH_MAX \<and> length (join (stk mode @ [n])) < FOLDER_SUB_MAX
          then ((stk(mode := stk mode @ [n]), d(mode := True)), True) else ((stk, d), False))"
| "nav_step (Ascend en mode) (stk, d) =
     (if folder_on en mode \<and> stk mode \<noteq> [] then ((stk(mode := butlast (stk mode)), d(mode := True)), True) else ((stk, d), False))"
| "nav_step (Reset mode) (stk, d) =
     (if mode_valid mode \<and> stk mode \<noteq> [] then ((stk(mode := []), d(mode := True)), True) else ((stk, d), True))"
| "nav_step (ConsumeDirty mode) (stk, d) =
     (if mode_valid mode \<and> d mode then ((stk, d(mode := False)), True) else ((stk, d), False))"

text \<open>Directory entries have no slash in their names.\<close>

fun op_ok :: "folder_op \<Rightarrow> bool" where
  "op_ok (Descend en mode (Some n)) \<longleftrightarrow> CHR ''/'' \<notin> set n"
| "op_ok _ \<longleftrightarrow> True"

definition stack_ok :: "cstring list \<Rightarrow> bool" where
  "stack_ok ns \<longleftrightarrow> length ns \<le> FOLDER_DEPTH_MAX \<and> length (join ns) < FOLDER_SUB_MAX
     \<and> list_all (\<lambda>n. n \<noteq> [] \<and> CHR ''/'' \<notin> set n) ns"

definition represents :: "folder_state \<Rightarrow> nav \<Rightarrow> bool" where
  "represents s n \<longleftrightarrow> (case n of (stk, d) \<Rightarrow>
     (\<forall>m. stack_ok (stk m) \<and> folderSub s m = join (stk m) \<and> folderLevels s m = length (stk m) \<and> folderDirtyFlag s m = d m))"

lemma join_snoc: "join (ns @ [n]) = (if ns = [] then n else join ns @ ''/'' @ n)"
  by (induction ns rule: join.induct) auto

lemma join_empty: "list_all (\<lambda>n. n \<noteq> [] \<and> P n) ns \<Longrightarrow> join ns = [] \<longleftrightarrow> ns = []"
  by (cases ns rule: join.cases) auto

lemma join_last:
  assumes "stack_ok ns" "ns \<noteq> []"
  shows "(case strrchr (join ns) (CHR ''/'') of Some i \<Rightarrow> take i (join ns) | None \<Rightarrow> []) = join (butlast ns)"
proof -
  obtain ms n where ns: "ns = ms @ [n]" using assms(2) by (cases ns rule: rev_cases) auto
  have n: "CHR ''/'' \<notin> set n" using assms(1) ns by (simp add: stack_ok_def)
  show ?thesis
  proof (cases "ms = []")
    case True
    then show ?thesis using n ns by simp
  next
    case False
    then have "join ns = join ms @ CHR ''/'' # n" using ns by (simp add: join_snoc)
    then show ?thesis using strrchr_append [OF n, of "join ms"] ns by simp
  qed
qed

lemma stack_ok_butlast: "stack_ok ns \<Longrightarrow> stack_ok (butlast ns)"
proof (cases ns rule: rev_cases)
  case (snoc ms n)
  assume "stack_ok ns"
  with snoc show ?thesis by (auto simp: stack_ok_def join_snoc split: if_splits)
qed simp

lemma step_represents:
  assumes "represents s n" "op_ok op"
  shows "represents (fst (folder_step op s)) (fst (nav_step op n)) \<and> snd (folder_step op s) = snd (nav_step op n)"
proof (cases op)
  case (Descend en mode name)
  obtain stk d where n: "n = (stk, d)" by (cases n)
  have "list_all (\<lambda>n. n \<noteq> [] \<and> CHR ''/'' \<notin> set n) (stk mode)" using assms(1) n by (simp add: represents_def stack_ok_def)
  then have emp: "join (stk mode) = [] \<longleftrightarrow> stk mode = []" by (rule join_empty)
  show ?thesis
    using assms Descend n emp
    by (auto simp: represents_def folderDescend_def join_snoc stack_ok_def Let_def split: option.splits)
next
  case (Ascend en mode)
  obtain stk d where n: "n = (stk, d)" by (cases n)
  have sub: "folderSub s mode = join (stk mode)" "stack_ok (stk mode)" using assms(1) n by (simp_all add: represents_def)
  then have "stk mode \<noteq> [] \<Longrightarrow> (case strrchr (folderSub s mode) (CHR ''/'') of Some i \<Rightarrow> take i (folderSub s mode) | None \<Rightarrow> []) =
      join (butlast (stk mode))" using join_last by (simp only: sub(1))
  with sub(2) show ?thesis using assms(1) Ascend n stack_ok_butlast
    by (simp add: represents_def folderAscend_def Let_def)
next
  case (Reset mode)
  obtain stk d where n: "n = (stk, d)" by (cases n)
  have "stack_ok []" by (simp add: stack_ok_def)
  then show ?thesis using assms(1) Reset n by (auto simp: represents_def folderReset_def)
next
  case (ConsumeDirty mode)
  then show ?thesis using assms(1) by (cases n) (auto simp: represents_def folderConsumeDirty_def)
qed

interpretation nav: simulation folder_step nav_step represents op_ok
  by unfold_locales (use step_represents in blast)+

text \<open>
  C29: whatever calls are made, the joined subpath of every mode is exactly the folders entered and not
  left, the depth is their number, and each call answers as on that list: a folder is entered unless
  the list is eight deep or the path would not fit, leaving drops the innermost one, and a rescan is
  asked for exactly once after a change.
\<close>

theorem folder_refines_stack:
  assumes "list_all op_ok ops" and "run folder_step ops folder_init = (s, rs)"
    and "run nav_step ops (\<lambda>_. [], \<lambda>_. False) = ((stk, d), rs')"
  shows "rs = rs' \<and> (\<forall>m. folderSub s m = join (stk m) \<and> folderLevels s m = length (stk m) \<and> folderDirtyFlag s m = d m
    \<and> length (folderSub s m) < FOLDER_SUB_MAX \<and> folderLevels s m \<le> FOLDER_DEPTH_MAX)"
proof -
  have "represents folder_init (\<lambda>_. [], \<lambda>_. False)" by (simp add: represents_def folder_init_def stack_ok_def)
  from nav.rel_run [OF this assms(1)] nav.same_answers [OF this assms(1)] show ?thesis
    unfolding assms(2,3) by (auto simp: represents_def stack_ok_def)
qed

theorem folder_refines_stack_witness:
  "folderSub (fst (run folder_step [Descend True 0 (Some ''RPG''), Descend True 0 (Some ''PAL''), Ascend True 0] folder_init)) 0 = ''RPG''"
proof -
  let ?ops = "[Descend True 0 (Some ''RPG''), Descend True 0 (Some ''PAL''), Ascend True 0]"
  have ok: "list_all op_ok ?ops" by simp
  obtain s rs where s: "run folder_step ?ops folder_init = (s, rs)" by (cases "run folder_step ?ops folder_init")
  obtain stk d rs' where n: "run nav_step ?ops (\<lambda>_. [], \<lambda>_. False) = ((stk, d), rs')" by (metis prod.exhaust)
  have "stk 0 = [''RPG'']" using n by (simp add: folder_on_def mode_valid_def folderModeSupported_def) auto
  then show ?thesis using folder_refines_stack [OF ok s n] s by simp
qed

end
