(* ===== verification/LibView.thy ===== *)
theory LibView
  imports Modes Simulation ConfigStore
begin

text \<open>
  The library views and the L3 ring of \<open>src/libview.c\<close>: which list a page shows, how a press stages the
  next one until the list has been rebuilt, and how the positions are remembered in the settings and
  follow a removable device from one slot to another. The per-mode arrays are functions; an index
  below \<open>MODE_COUNT\<close> is a mode, and \<open>MODE_COUNT + n\<close> the live position of the BDM page \<open>n\<close>.
\<close>

section \<open>Views and settings\<close>

abbreviation "LIB_VIEW_ISO \<equiv> (0::int)"
abbreviation "LIB_VIEW_PS1 \<equiv> (1::int)"
abbreviation "LIB_VIEW_ELF \<equiv> (2::int)"
abbreviation "LIB_VIEW_ALL \<equiv> (3::int)"
abbreviation "LIB_VIEW_MIXED \<equiv> (4::int)"
abbreviation "LIB_VIEW_PS1_ELF \<equiv> (5::int)"
abbreviation "LIB_VIEW_RECENT \<equiv> (6::int)"
abbreviation "LIB_VIEW_FAVS \<equiv> (7::int)"
abbreviation "LIB_VIEW_COUNT \<equiv> (8::int)"

datatype game_view = GAME_VIEW_BOTH | GAME_VIEW_ISO | GAME_VIEW_VCD | GAME_VIEW_MIXED

record view_settings =
  gAllGames :: bool
  gAppsSplit :: bool
  gDefaultGameView :: game_view

record view_state =
  retainedView :: "int \<Rightarrow> int"
  mixedView :: "int \<Rightarrow> int"
  mixedViewInitialized :: "int \<Rightarrow> bool"
  libDirty :: "int \<Rightarrow> bool"
  pendingView :: "int \<Rightarrow> int"
  pendingViewValid :: "int \<Rightarrow> bool"
  pendingViewUsesMixedRing :: "int \<Rightarrow> bool"
  bdmSlotType :: "int \<Rightarrow> int"

definition view_init :: view_state where
  "view_init = \<lparr>retainedView = (\<lambda>_. LIB_VIEW_ISO)(FAV_MODE := LIB_VIEW_ALL), mixedView = (\<lambda>_. 0),
     mixedViewInitialized = (\<lambda>_. False), libDirty = (\<lambda>_. False), pendingView = (\<lambda>_. 0),
     pendingViewValid = (\<lambda>_. False), pendingViewUsesMixedRing = (\<lambda>_. False), bdmSlotType = (\<lambda>_. 0)\<rparr>"

section \<open>Operations\<close>

definition libViewEntry :: "int \<Rightarrow> int" where
  "libViewEntry mode = (if BDM_MODE \<le> mode \<and> mode \<le> BDM_MODE_LAST then MODE_COUNT + mode - BDM_MODE else mode)"

definition libViewIsDeviceMode :: "int \<Rightarrow> bool" where
  "libViewIsDeviceMode mode \<longleftrightarrow>
     (BDM_MODE \<le> mode \<and> mode \<le> BDM_MODE_LAST) \<or> mode = MMCE_MODE \<or> mode = ETH_MODE \<or> mode = HDD_MODE \<or> mode = UDPFS_MODE"

definition libViewSupported :: "int \<Rightarrow> int \<Rightarrow> bool" where
  "libViewSupported mode view \<longleftrightarrow>
     (if \<not> mode_valid mode \<or> view < 0 \<or> view \<ge> LIB_VIEW_COUNT then False
      else if view = LIB_VIEW_ISO then True
      else if view = LIB_VIEW_PS1 then libViewIsDeviceMode mode \<or> mode = FAV_MODE
      else if view \<in> {LIB_VIEW_ELF, LIB_VIEW_ALL, LIB_VIEW_RECENT, LIB_VIEW_FAVS} then mode = FAV_MODE
      else if view = LIB_VIEW_MIXED then libViewIsDeviceMode mode \<or> mode = APP_MODE
      else mode = APP_MODE)"

definition libViewRingSize :: "view_settings \<Rightarrow> int \<Rightarrow> nat" where
  "libViewRingSize g mode =
     (if \<not> mode_valid mode then 1
      else if mode = FAV_MODE then if gAllGames g then 6 else 5
      else if mode = APP_MODE then if gAppsSplit g then 2 else 1
      else if \<not> libViewIsDeviceMode mode \<or> gAllGames g then 1
      else (case gDefaultGameView g of GAME_VIEW_BOTH \<Rightarrow> 2 | GAME_VIEW_MIXED \<Rightarrow> 3 | _ \<Rightarrow> 1))"

definition libViewMixedActive :: "int \<Rightarrow> view_state \<Rightarrow> view_state \<times> int" where
  "libViewMixedActive entry s =
     (let s = (if \<not> mixedViewInitialized s entry
               then s\<lparr>mixedView := (mixedView s)(entry := LIB_VIEW_MIXED),
                      mixedViewInitialized := (mixedViewInitialized s)(entry := True)\<rparr>
               else s)
      in (s, mixedView s entry))"

definition libViewActive :: "view_settings \<Rightarrow> int \<Rightarrow> view_state \<Rightarrow> view_state \<times> int" where
  "libViewActive g mode s =
     (if \<not> mode_valid mode then (s, LIB_VIEW_ISO)
      else if mode = FAV_MODE then
        (s, if \<not> gAllGames g \<and> retainedView s mode = LIB_VIEW_FAVS then LIB_VIEW_ALL else retainedView s mode)
      else if mode = APP_MODE then (s, if gAppsSplit g then retainedView s mode else LIB_VIEW_MIXED)
      else if \<not> libViewIsDeviceMode mode then (s, LIB_VIEW_ISO)
      else if gAllGames g then (s, LIB_VIEW_MIXED)
      else (case gDefaultGameView g of
              GAME_VIEW_ISO \<Rightarrow> (s, LIB_VIEW_ISO)
            | GAME_VIEW_VCD \<Rightarrow> (s, LIB_VIEW_PS1)
            | GAME_VIEW_MIXED \<Rightarrow> libViewMixedActive (libViewEntry mode) s
            | GAME_VIEW_BOTH \<Rightarrow> (s, if retainedView s (libViewEntry mode) = LIB_VIEW_PS1 then LIB_VIEW_PS1 else LIB_VIEW_ISO)))"

text \<open>A list of rows with its optional callbacks.\<close>

datatype view_override = ITEM_VIEW_NATIVE | ITEM_VIEW_FORCE_ISO | ITEM_VIEW_FORCE_PS1

record item_list =
  il_mode :: int
  il_viewOverride :: view_override
  il_itemGetView :: "(int \<Rightarrow> int) option"
  il_itemGetSourceId :: "(int \<Rightarrow> int) option"

definition libListViewActive :: "view_settings \<Rightarrow> item_list option \<Rightarrow> view_state \<Rightarrow> view_state \<times> int" where
  "libListViewActive g itemList s =
     (case itemList of
        None \<Rightarrow> (s, LIB_VIEW_ISO)
      | Some l \<Rightarrow>
          (case il_viewOverride l of
             ITEM_VIEW_FORCE_ISO \<Rightarrow> (s, LIB_VIEW_ISO)
           | ITEM_VIEW_FORCE_PS1 \<Rightarrow> (s, LIB_VIEW_PS1)
           | ITEM_VIEW_NATIVE \<Rightarrow> libViewActive g (il_mode l) s))"

definition libListRowView :: "view_settings \<Rightarrow> item_list option \<Rightarrow> int \<Rightarrow> view_state \<Rightarrow> view_state \<times> int" where
  "libListRowView g itemList row s =
     (case itemList of
        None \<Rightarrow> (s, LIB_VIEW_ISO)
      | Some l \<Rightarrow>
          (case il_itemGetView l of
             Some f \<Rightarrow> if 0 \<le> f row \<and> f row < LIB_VIEW_COUNT then (s, f row) else libListViewActive g itemList s
           | None \<Rightarrow> libListViewActive g itemList s))"

definition libListSourceId :: "item_list option \<Rightarrow> int \<Rightarrow> int" where
  "libListSourceId itemList row =
     (case itemList of
        Some l \<Rightarrow> (case il_itemGetSourceId l of Some f \<Rightarrow> f row | None \<Rightarrow> row)
      | None \<Rightarrow> row)"

definition libViewRingUsable :: "view_settings \<Rightarrow> int \<Rightarrow> bool" where
  "libViewRingUsable g mode \<longleftrightarrow> mode_valid mode \<and> libViewRingSize g mode > 1"

text \<open>The stop after \<open>cur\<close>.\<close>

definition next_view :: "view_settings \<Rightarrow> int \<Rightarrow> int \<Rightarrow> int" where
  "next_view g mode cur =
     (if mode = FAV_MODE \<and> gAllGames g then
        if cur = LIB_VIEW_ALL then LIB_VIEW_ISO else if cur = LIB_VIEW_ISO then LIB_VIEW_PS1
        else if cur = LIB_VIEW_PS1 then LIB_VIEW_ELF else if cur = LIB_VIEW_ELF then LIB_VIEW_FAVS
        else if cur = LIB_VIEW_FAVS then LIB_VIEW_RECENT else LIB_VIEW_ALL
      else if mode = FAV_MODE then
        if cur = LIB_VIEW_ISO then LIB_VIEW_PS1 else if cur = LIB_VIEW_PS1 then LIB_VIEW_ELF
        else if cur = LIB_VIEW_ELF then LIB_VIEW_ALL else if cur = LIB_VIEW_ALL then LIB_VIEW_RECENT else LIB_VIEW_ISO
      else if mode = APP_MODE then if cur = LIB_VIEW_PS1_ELF then LIB_VIEW_ISO else LIB_VIEW_PS1_ELF
      else if gDefaultGameView g = GAME_VIEW_MIXED then
        if cur = LIB_VIEW_MIXED then LIB_VIEW_ISO else if cur = LIB_VIEW_ISO then LIB_VIEW_PS1 else LIB_VIEW_MIXED
      else if cur = LIB_VIEW_PS1 then LIB_VIEW_ISO else LIB_VIEW_PS1)"

definition libViewStageAdvance :: "view_settings \<Rightarrow> int \<Rightarrow> view_state \<Rightarrow> view_state \<times> bool" where
  "libViewStageAdvance g mode s =
     (if \<not> libViewRingUsable g mode \<or> pendingViewValid s mode then (s, False)
      else (case libViewActive g mode s of
              (s1, cur) \<Rightarrow>
                (s1\<lparr>pendingView := (pendingView s1)(mode := next_view g mode cur),
                    pendingViewUsesMixedRing := (pendingViewUsesMixedRing s1)(mode :=
                      mode \<noteq> FAV_MODE \<and> mode \<noteq> APP_MODE \<and> gDefaultGameView g = GAME_VIEW_MIXED),
                    pendingViewValid := (pendingViewValid s1)(mode := True),
                    libDirty := (libDirty s1)(mode := True)\<rparr>, True)))"

definition libViewPending :: "int \<Rightarrow> view_state \<Rightarrow> bool" where
  "libViewPending mode s \<longleftrightarrow> mode_valid mode \<and> pendingViewValid s mode"

definition libViewPendingTarget :: "view_settings \<Rightarrow> int \<Rightarrow> view_state \<Rightarrow> view_state \<times> int" where
  "libViewPendingTarget g mode s = (if libViewPending mode s then (s, pendingView s mode) else libViewActive g mode s)"

definition saved_entry :: "int \<Rightarrow> view_state \<Rightarrow> int" where
  "saved_entry mode s =
     (if libViewEntry mode \<noteq> mode \<and> bdmSlotType s (mode - BDM_MODE) \<noteq> 0
      then BDM_MODE + bdmSlotType s (mode - BDM_MODE) - 1 else libViewEntry mode)"

definition libViewCommitPending :: "int \<Rightarrow> view_state \<Rightarrow> view_state" where
  "libViewCommitPending mode s =
     (if \<not> libViewPending mode s then s
      else
        let entry = libViewEntry mode; saved = saved_entry mode s in
        if pendingViewUsesMixedRing s mode then
          s\<lparr>mixedView := (mixedView s)(saved := pendingView s mode, entry := pendingView s mode),
            mixedViewInitialized := (mixedViewInitialized s)(saved := True)\<rparr>
        else s\<lparr>retainedView := (retainedView s)(saved := pendingView s mode, entry := pendingView s mode)\<rparr>)"

definition libViewFinishPending :: "int \<Rightarrow> view_state \<Rightarrow> view_state" where
  "libViewFinishPending mode s =
     (if mode_valid mode then s\<lparr>pendingViewValid := (pendingViewValid s)(mode := False)\<rparr> else s)"

definition libViewBdmAttach :: "int \<Rightarrow> int \<Rightarrow> view_state \<Rightarrow> view_state" where
  "libViewBdmAttach mode bdmType s =
     (let entry = libViewEntry mode; saved = BDM_MODE + bdmType; known = (0 \<le> bdmType \<and> bdmType < BDM_MODE_COUNT) in
      if entry = mode then s
      else s\<lparr>bdmSlotType := (bdmSlotType s)(mode - BDM_MODE := (if known then bdmType + 1 else 0)),
             retainedView := (retainedView s)(entry := (if known then retainedView s saved else LIB_VIEW_ISO)),
             mixedView := (mixedView s)(entry := (if known \<and> mixedViewInitialized s saved then mixedView s saved else LIB_VIEW_MIXED)),
             mixedViewInitialized := (mixedViewInitialized s)(entry := True)\<rparr>)"

definition libViewConsumeDirty :: "int \<Rightarrow> view_state \<Rightarrow> view_state \<times> bool" where
  "libViewConsumeDirty mode s =
     (if \<not> mode_valid mode \<or> \<not> libDirty s mode then (s, False)
      else (s\<lparr>libDirty := (libDirty s)(mode := False)\<rparr>, True))"

definition libViewMarkDirty :: "int \<Rightarrow> view_state \<Rightarrow> view_state" where
  "libViewMarkDirty mode s = (if mode_valid mode then s\<lparr>libDirty := (libDirty s)(mode := True)\<rparr> else s)"

definition libViewMarkAllDirty :: "view_state \<Rightarrow> view_state" where
  "libViewMarkAllDirty s = s\<lparr>libDirty := (\<lambda>m. mode_valid m \<or> libDirty s m)\<rparr>"

section \<open>Remembered positions\<close>

definition view_char :: "int \<Rightarrow> char" where
  "view_char v = char_of (nat (48 + v) mod 256)"

definition libViewEncodeRing :: "(int \<Rightarrow> int) \<Rightarrow> (int \<Rightarrow> bool) option \<Rightarrow> cstring" where
  "libViewEncodeRing view isset =
     map (\<lambda>mode. if (case isset of None \<Rightarrow> True | Some f \<Rightarrow> f mode) then view_char (view mode) else CHR ''-'') (map int [0..<15])"

fun decode_from :: "int \<Rightarrow> cstring \<Rightarrow> (int \<Rightarrow> int) \<times> (int \<Rightarrow> bool) \<Rightarrow> (int \<Rightarrow> int) \<times> (int \<Rightarrow> bool)" where
  "decode_from mode [] st = st"
| "decode_from mode (c # text) (view, isset) =
     (if mode \<ge> MODE_COUNT then (view, isset)
      else
        let v = int (ord_of c) - 48 in
        if v < 0 \<or> v \<ge> LIB_VIEW_COUNT \<or> \<not> libViewSupported mode v then decode_from (mode + 1) text (view, isset)
        else decode_from (mode + 1) text (view(mode := v), isset(mode := True)))"

definition libViewDecodeRing :: "cstring \<Rightarrow> (int \<Rightarrow> int) \<times> (int \<Rightarrow> bool) \<Rightarrow> (int \<Rightarrow> int) \<times> (int \<Rightarrow> bool)" where
  "libViewDecodeRing text st = decode_from 0 text st"

definition CONFIG_LAST_LIB_VIEW_RETAINED :: cstring where
  "CONFIG_LAST_LIB_VIEW_RETAINED = ''lib_view_retained''"

definition CONFIG_LAST_LIB_VIEW_MIXED :: cstring where
  "CONFIG_LAST_LIB_VIEW_MIXED = ''lib_view_mixed''"

definition libViewLoadFromConfig :: "config_set option \<Rightarrow> view_state \<Rightarrow> view_state" where
  "libViewLoadFromConfig configLast s =
     (case configLast of
        None \<Rightarrow> s
      | Some cs \<Rightarrow>
          let s = (case configGetStr (Some cs) (Some CONFIG_LAST_LIB_VIEW_RETAINED) of
                     Some t \<Rightarrow> s\<lparr>retainedView := fst (libViewDecodeRing t (retainedView s, \<lambda>_. False))\<rparr>
                   | None \<Rightarrow> s)
          in (case configGetStr (Some cs) (Some CONFIG_LAST_LIB_VIEW_MIXED) of
                Some t \<Rightarrow> (case libViewDecodeRing t (mixedView s, mixedViewInitialized s) of
                            (v, i) \<Rightarrow> s\<lparr>mixedView := v, mixedViewInitialized := i\<rparr>)
              | None \<Rightarrow> s))"

definition libViewStoreToConfig :: "bool \<Rightarrow> view_state \<Rightarrow> config_set option \<Rightarrow> config_set option" where
  "libViewStoreToConfig mem s configLast =
     (case configLast of
        None \<Rightarrow> None
      | Some cs \<Rightarrow>
          let cs1 = fst (set_str mem CONFIG_LAST_LIB_VIEW_RETAINED (libViewEncodeRing (retainedView s) None) cs)
          in Some (fst (set_str mem CONFIG_LAST_LIB_VIEW_MIXED (libViewEncodeRing (mixedView s) (Some (mixedViewInitialized s))) cs1)))"

section \<open>Every position is one the page can show\<close>

definition page_of :: "int \<Rightarrow> int" where
  "page_of e = (if e \<ge> MODE_COUNT then e - MODE_COUNT else e)"

definition view_ok :: "view_state \<Rightarrow> bool" where
  "view_ok s \<longleftrightarrow>
     (\<forall>e. 0 \<le> e \<and> e < 23 \<longrightarrow> libViewSupported (page_of e) (retainedView s e))
     \<and> (\<forall>e. 0 \<le> e \<and> e < 23 \<and> mixedViewInitialized s e \<longrightarrow> libViewSupported (page_of e) (mixedView s e))
     \<and> (\<forall>m. mode_valid m \<and> pendingViewValid s m \<longrightarrow> libViewSupported m (pendingView s m))
     \<and> (\<forall>n. 0 \<le> bdmSlotType s n \<and> bdmSlotType s n \<le> BDM_MODE_COUNT)"

lemma view_okD:
  assumes "view_ok s"
  shows "0 \<le> e \<Longrightarrow> e < 23 \<Longrightarrow> libViewSupported (page_of e) (retainedView s e)"
    "0 \<le> e \<Longrightarrow> e < 23 \<Longrightarrow> mixedViewInitialized s e \<Longrightarrow> libViewSupported (page_of e) (mixedView s e)"
    "mode_valid m \<Longrightarrow> pendingViewValid s m \<Longrightarrow> libViewSupported m (pendingView s m)"
    "0 \<le> bdmSlotType s n" "bdmSlotType s n \<le> BDM_MODE_COUNT"
  using assms by (simp_all add: view_ok_def)

lemma entry_range: "mode_valid m \<Longrightarrow> 0 \<le> libViewEntry m \<and> libViewEntry m < 23 \<and> page_of (libViewEntry m) = m"
  by (auto simp: libViewEntry_def page_of_def mode_valid_def)

lemma bdm_same: "0 \<le> m \<Longrightarrow> m \<le> 7 \<Longrightarrow> 0 \<le> m' \<Longrightarrow> m' \<le> 7 \<Longrightarrow> libViewSupported m v = libViewSupported m' v"
  by (simp add: libViewSupported_def libViewIsDeviceMode_def mode_valid_def)

lemma saved_range:
  assumes "view_ok s" "mode_valid m"
  shows "0 \<le> saved_entry m s \<and> saved_entry m s < 23 \<and> libViewSupported (page_of (saved_entry m s)) v = libViewSupported m v"
proof (cases "libViewEntry m \<noteq> m \<and> bdmSlotType s (m - BDM_MODE) \<noteq> 0")
  case True
  then have m: "0 \<le> m" "m \<le> 7" by (auto simp: libViewEntry_def split: if_splits)
  have "0 < bdmSlotType s m" "bdmSlotType s m \<le> 8" using view_okD(4,5) [OF assms(1), of m] True by auto
  then show ?thesis using True m bdm_same [of "bdmSlotType s m - 1" m v] by (simp add: saved_entry_def page_of_def)
next
  case False
  then have "saved_entry m s = libViewEntry m" unfolding saved_entry_def by (rule if_not_P)
  then show ?thesis using entry_range [OF assms(2)] by simp
qed

lemma page_supports:
  "libViewSupported m LIB_VIEW_ISO = mode_valid m"
  "libViewSupported m LIB_VIEW_PS1 = (mode_valid m \<and> (libViewIsDeviceMode m \<or> m = FAV_MODE))"
  "libViewSupported m LIB_VIEW_MIXED = (mode_valid m \<and> (libViewIsDeviceMode m \<or> m = APP_MODE))"
  "libViewSupported m LIB_VIEW_PS1_ELF = (mode_valid m \<and> m = APP_MODE)"
  "v \<in> {LIB_VIEW_ELF, LIB_VIEW_ALL, LIB_VIEW_RECENT, LIB_VIEW_FAVS} \<Longrightarrow> libViewSupported m v = (m = FAV_MODE)"
  by (auto simp: libViewSupported_def mode_valid_def)

lemma device_valid: "libViewIsDeviceMode m \<Longrightarrow> mode_valid m"
  by (auto simp: libViewIsDeviceMode_def mode_valid_def)

lemma mixed_active_ok:
  assumes "view_ok s" "libViewIsDeviceMode m" "libViewMixedActive (libViewEntry m) s = (s', v)"
  shows "view_ok s' \<and> libViewSupported m v"
proof -
  note e = entry_range [OF device_valid [OF assms(2)]]
  have mixed: "libViewSupported m LIB_VIEW_MIXED" using assms(2) device_valid by (simp add: page_supports)
  show ?thesis
  proof (cases "mixedViewInitialized s (libViewEntry m)")
    case True
    then show ?thesis using assms(1,3) view_okD(2) [OF assms(1), of "libViewEntry m"] e by (auto simp: libViewMixedActive_def)
  next
    case False
    then have "s' = s\<lparr>mixedView := (mixedView s)(libViewEntry m := LIB_VIEW_MIXED),
        mixedViewInitialized := (mixedViewInitialized s)(libViewEntry m := True)\<rparr>" "v = LIB_VIEW_MIXED"
      using assms(3) by (auto simp: libViewMixedActive_def)
    then show ?thesis using assms(1) e mixed by (auto simp: view_ok_def)
  qed
qed

lemma active_ok:
  assumes "view_ok s" "mode_valid m" "libViewActive g m s = (s', v)"
  shows "view_ok s' \<and> libViewSupported m v"
proof -
  have r: "m = FAV_MODE \<or> m = APP_MODE \<Longrightarrow> libViewSupported m (retainedView s m)"
    using view_okD(1) [OF assms(1), of m] by (auto simp: page_of_def)
  show ?thesis
    using assms r mixed_active_ok [OF assms(1), of m s' v]
    by (auto simp: libViewActive_def page_supports device_valid split: if_splits game_view.splits)
qed

lemma next_view_ok: "libViewRingUsable g m \<Longrightarrow> libViewSupported m (next_view g m cur)"
  by (auto simp: libViewRingUsable_def libViewRingSize_def next_view_def page_supports split: if_splits game_view.splits)

lemma stage_ok: "view_ok s \<Longrightarrow> view_ok (fst (libViewStageAdvance g m s))"
proof -
  assume ok: "view_ok s"
  obtain s1 cur where a: "libViewActive g m s = (s1, cur)" by (cases "libViewActive g m s")
  show ?thesis
  proof (cases "libViewRingUsable g m")
    case True
    then have m: "mode_valid m" by (simp add: libViewRingUsable_def)
    have "view_ok s1" using active_ok [OF ok m a] by simp
    then show ?thesis using a True next_view_ok [OF True, of cur] ok by (auto simp: libViewStageAdvance_def view_ok_def)
  qed (simp add: libViewStageAdvance_def ok)
qed

lemma commit_ok:
  assumes "view_ok s"
  shows "view_ok (libViewCommitPending m s)"
proof (cases "libViewPending m s")
  case True
  then have m: "mode_valid m" "libViewSupported m (pendingView s m)"
    using view_okD(3) [OF assms] by (simp_all add: libViewPending_def)
  note e = entry_range [OF m(1)] and sv = saved_range [OF assms m(1), of "pendingView s m"]
  show ?thesis using True m e sv assms by (auto simp: libViewCommitPending_def view_ok_def Let_def)
qed (simp add: libViewCommitPending_def assms)

lemma attach_ok:
  assumes "view_ok s"
  shows "view_ok (libViewBdmAttach m t s)"
proof (cases "0 \<le> m \<and> m \<le> 7")
  case True
  then have e: "libViewEntry m = 15 + m" by (simp add: libViewEntry_def)
  have known: "libViewSupported m (retainedView s t)" "mixedViewInitialized s t \<Longrightarrow> libViewSupported m (mixedView s t)"
    if "0 \<le> t" "t < 8"
    using that True view_okD(1,2) [OF assms, of t] bdm_same [of t m] by (simp_all add: page_of_def)
  have "libViewSupported m LIB_VIEW_ISO" "libViewSupported m LIB_VIEW_MIXED"
    using True by (simp_all add: page_supports mode_valid_def libViewIsDeviceMode_def)
  with True e known assms show ?thesis
    by (auto simp: libViewBdmAttach_def view_ok_def Let_def page_of_def)
next
  case False
  then have "libViewEntry m = m" by (auto simp: libViewEntry_def)
  then show ?thesis using assms by (simp add: libViewBdmAttach_def Let_def)
qed

lemma decode_changes:
  assumes "0 \<le> m"
  shows "(fst (decode_from m str st) e = fst st e \<and> snd (decode_from m str st) e = snd st e)
    \<or> (0 \<le> e \<and> e < MODE_COUNT \<and> libViewSupported e (fst (decode_from m str st) e) \<and> snd (decode_from m str st) e)"
  using assms
proof (induction str arbitrary: m st)
  case (Cons c str)
  obtain view isset where st: "st = (view, isset)" by (cases st)
  let ?v = "int (ord_of c) - 48"
  show ?case
  proof (cases "m \<ge> MODE_COUNT \<or> ?v < 0 \<or> ?v \<ge> LIB_VIEW_COUNT \<or> \<not> libViewSupported m ?v")
    case True
    then show ?thesis using Cons.IH [of "m + 1" st] Cons.prems st by (auto simp: Let_def)
  next
    case False
    then have "decode_from m (c # str) st = decode_from (m + 1) str (view(m := ?v), isset(m := True))" using st by (simp add: Let_def)
    then show ?thesis using Cons.IH [of "m + 1" "(view(m := ?v), isset(m := True))"] Cons.prems False st by (cases "e = m") auto
  qed
qed simp

lemma load_ok: "view_ok s \<Longrightarrow> view_ok (libViewLoadFromConfig c s)"
proof -
  assume ok: "view_ok s"
  have page: "page_of e = e" if "e < MODE_COUNT" for e using that by (simp add: page_of_def)
  have r: "view_ok (s\<lparr>retainedView := fst (libViewDecodeRing t (retainedView s, \<lambda>_. False))\<rparr>)" for t
  proof -
    have "libViewSupported (page_of e) (fst (decode_from 0 t (retainedView s, \<lambda>_. False)) e)" if "0 \<le> e" "e < 23" for e
      using decode_changes [of 0 t "(retainedView s, \<lambda>_. False)" e] view_okD(1) [OF ok that] page by auto
    then show ?thesis using ok by (simp add: view_ok_def libViewDecodeRing_def)
  qed
  have x: "view_ok (s'\<lparr>mixedView := v, mixedViewInitialized := i\<rparr>)"
    if s': "view_ok s'" and d: "libViewDecodeRing t (mixedView s', mixedViewInitialized s') = (v, i)" for s' t v i
  proof -
    have "libViewSupported (page_of e) (v e)" if "0 \<le> e" "e < 23" "i e" for e
      using decode_changes [of 0 t "(mixedView s', mixedViewInitialized s')" e] view_okD(2) [OF s' that(1,2)] that(3) page d
      by (auto simp: libViewDecodeRing_def)
    then show ?thesis using s' by (simp add: view_ok_def)
  qed
  show ?thesis using ok r x by (auto simp: libViewLoadFromConfig_def Let_def split: option.splits prod.splits)
qed

text \<open>Every call that changes the state.\<close>

datatype view_op =
    ViewQuery view_settings int
  | ViewStage view_settings int
  | ViewCommit int
  | ViewFinish int
  | ViewAttach int int
  | ViewLoad "config_set option"
  | ViewConsumeDirty int
  | ViewMarkDirty int

fun view_step :: "view_op \<Rightarrow> view_state \<Rightarrow> view_state \<times> unit" where
  "view_step (ViewQuery g m) s = (fst (libViewActive g m s), ())"
| "view_step (ViewStage g m) s = (fst (libViewStageAdvance g m s), ())"
| "view_step (ViewCommit m) s = (libViewCommitPending m s, ())"
| "view_step (ViewFinish m) s = (libViewFinishPending m s, ())"
| "view_step (ViewAttach m t) s = (libViewBdmAttach m t s, ())"
| "view_step (ViewLoad c) s = (libViewLoadFromConfig c s, ())"
| "view_step (ViewConsumeDirty m) s = (fst (libViewConsumeDirty m s), ())"
| "view_step (ViewMarkDirty m) s = (libViewMarkDirty m s, ())"

lemma query_ok: "view_ok s \<Longrightarrow> view_ok (fst (libViewActive g m s))"
proof (cases "mode_valid m")
  case True
  assume "view_ok s"
  then show ?thesis using active_ok [OF _ True] by (metis prod.collapse)
qed (simp add: libViewActive_def)

interpretation views: invariant view_step view_ok "\<lambda>_. True"
proof unfold_locales
  fix s op assume "view_ok s"
  then show "view_ok (fst (view_step op s))"
    by (cases op) (auto simp: query_ok stage_ok commit_ok attach_ok load_ok libViewFinishPending_def libViewConsumeDirty_def
        libViewMarkDirty_def view_ok_def [of "_\<lparr>pendingViewValid := _\<rparr>"] view_ok_def [of "_\<lparr>libDirty := _\<rparr>"] dest: view_okD)
qed

lemma view_init_ok: "view_ok view_init"
  by (auto simp: view_ok_def view_init_def page_of_def libViewSupported_def mode_valid_def)

text \<open>
  Whatever was pressed, attached, loaded (from a settings file with any text) or committed, and under
  whatever settings it is now shown, a page only ever shows a view it has a list for, and a staged
  target is such a view too.
\<close>

theorem libView_always_supported:
  assumes "mode_valid m" and "s = fst (run view_step ops view_init)"
  shows "libViewSupported m (snd (libViewActive g m s)) \<and> libViewSupported m (snd (libViewPendingTarget g m s))"
proof -
  have "view_ok s" using views.inv_run [OF view_init_ok, of ops] assms(2) by (simp add: list_all_iff)
  moreover from this have "libViewSupported m (snd (libViewActive g m s))"
    using active_ok [OF _ assms(1)] by (metis prod.collapse)
  ultimately show ?thesis using view_okD(3) assms(1) by (auto simp: libViewPendingTarget_def libViewPending_def)
qed

theorem libView_always_supported_witness:
  "mode_valid 0 \<and> libViewSupported 0 (snd (libViewActive \<lparr>gAllGames = False, gAppsSplit = False, gDefaultGameView = GAME_VIEW_BOTH\<rparr> 0
     (fst (run view_step [ViewAttach 0 2] view_init))))"
proof -
  have "mode_valid 0" by (simp add: mode_valid_def)
  from libView_always_supported [OF this refl] this show ?thesis by blast
qed

section \<open>The ring\<close>

text \<open>A press, the rebuild that commits it and the end of the rebuild.\<close>

definition press :: "view_settings \<Rightarrow> int \<Rightarrow> view_state \<Rightarrow> view_state" where
  "press g m s = libViewFinishPending m (libViewCommitPending m (fst (libViewStageAdvance g m s)))"

definition view_ring :: "view_settings \<Rightarrow> int \<Rightarrow> int list" where
  "view_ring g m =
     (if m = FAV_MODE then
        if gAllGames g then [LIB_VIEW_ALL, LIB_VIEW_ISO, LIB_VIEW_PS1, LIB_VIEW_ELF, LIB_VIEW_FAVS, LIB_VIEW_RECENT]
        else [LIB_VIEW_ISO, LIB_VIEW_PS1, LIB_VIEW_ELF, LIB_VIEW_ALL, LIB_VIEW_RECENT]
      else if m = APP_MODE then [LIB_VIEW_ISO, LIB_VIEW_PS1_ELF]
      else if gDefaultGameView g = GAME_VIEW_MIXED then [LIB_VIEW_MIXED, LIB_VIEW_ISO, LIB_VIEW_PS1]
      else [LIB_VIEW_ISO, LIB_VIEW_PS1])"

lemma active_frame:
  "libViewActive g m s = (s', v) \<Longrightarrow> retainedView s' = retainedView s \<and> pendingViewValid s' = pendingViewValid s \<and> bdmSlotType s' = bdmSlotType s
    \<and> (m \<noteq> FAV_MODE \<and> m \<noteq> APP_MODE \<and> libViewIsDeviceMode m \<and> \<not> gAllGames g \<and> gDefaultGameView g = GAME_VIEW_MIXED
       \<longrightarrow> mixedViewInitialized s' (libViewEntry m))"
  by (auto simp: libViewActive_def libViewMixedActive_def Let_def device_valid split: if_splits game_view.splits)

lemma entry_fixed: "m = FAV_MODE \<or> m = APP_MODE \<Longrightarrow> libViewEntry m = m"
  by (auto simp: libViewEntry_def)

lemma press_next:
  assumes "libViewRingUsable g m" "\<not> pendingViewValid s m"
  shows "snd (libViewActive g m (press g m s)) = next_view g m (snd (libViewActive g m s))"
proof -
  obtain s1 cur where a: "libViewActive g m s = (s1, cur)" by (cases "libViewActive g m s")
  note fr = active_frame [OF a]
  have m: "mode_valid m" using assms(1) by (simp add: libViewRingUsable_def)
  let ?x = "m \<noteq> FAV_MODE \<and> m \<noteq> APP_MODE \<and> gDefaultGameView g = GAME_VIEW_MIXED"
  let ?p = "press g m s" and ?e = "libViewEntry m" and ?n = "next_view g m cur"
  have st: "?x \<Longrightarrow> mixedView ?p ?e = ?n \<and> mixedViewInitialized ?p ?e = (mixedViewInitialized s1 ?e \<or> saved_entry m s1 = ?e)"
      "\<not> ?x \<Longrightarrow> retainedView ?p ?e = ?n"
    using assms a m
    by (auto simp: press_def libViewStageAdvance_def libViewFinishPending_def libViewCommitPending_def libViewPending_def Let_def
        saved_entry_def)
  show ?thesis
  proof (cases "m = FAV_MODE \<or> m = APP_MODE")
    case True
    then show ?thesis using st(2) a m assms(1) entry_fixed [OF True]
      by (auto simp: libViewActive_def libViewRingUsable_def libViewRingSize_def next_view_def split: if_splits)
  next
    case False
    with assms(1) have d: "libViewIsDeviceMode m" "\<not> gAllGames g" "gDefaultGameView g = GAME_VIEW_BOTH \<or> gDefaultGameView g = GAME_VIEW_MIXED"
      by (auto simp: libViewRingUsable_def libViewRingSize_def split: if_splits game_view.splits)
    then show ?thesis using st False a m fr
      by (auto simp: libViewActive_def libViewMixedActive_def Let_def next_view_def)
  qed
qed

lemma ring_next: "\<forall>i < length (view_ring g m). next_view g m (view_ring g m ! i) = view_ring g m ! (Suc i mod length (view_ring g m))"
  by (simp add: view_ring_def next_view_def All_less_Suc)

text \<open>
  The ring has as many different stops as \<open>libViewRingSize\<close> says, and each completed press moves the
  page to the next one, in the order the header gives, and from the last back to the first. On a page
  whose ring has one stop a press does nothing at all.
\<close>

theorem libView_ring:
  "(\<not> libViewRingUsable g m \<longrightarrow> libViewStageAdvance g m s = (s, False))
   \<and> (libViewRingUsable g m \<longrightarrow> length (view_ring g m) = libViewRingSize g m \<and> distinct (view_ring g m))
   \<and> (libViewRingUsable g m \<and> \<not> pendingViewValid s m \<longrightarrow>
       (\<forall>i < libViewRingSize g m. snd (libViewActive g m s) = view_ring g m ! i \<longrightarrow>
          snd (libViewActive g m (press g m s)) = view_ring g m ! (Suc i mod libViewRingSize g m)))"
proof (intro conjI impI allI)
  show "\<not> libViewRingUsable g m \<Longrightarrow> libViewStageAdvance g m s = (s, False)" by (simp add: libViewStageAdvance_def)
  assume u: "libViewRingUsable g m"
  then show len: "length (view_ring g m) = libViewRingSize g m" and "distinct (view_ring g m)"
    by (auto simp: libViewRingUsable_def libViewRingSize_def view_ring_def split: if_splits game_view.splits)
next
  fix i assume u: "libViewRingUsable g m \<and> \<not> pendingViewValid s m"
    and i: "i < libViewRingSize g m" "snd (libViewActive g m s) = view_ring g m ! i"
  have len: "libViewRingSize g m = length (view_ring g m)"
    using u by (auto simp: libViewRingUsable_def libViewRingSize_def view_ring_def split: if_splits game_view.splits)
  then show "snd (libViewActive g m (press g m s)) = view_ring g m ! (Suc i mod libViewRingSize g m)"
    using press_next [of g m s] ring_next [of g m] u i unfolding len by simp
qed

theorem libView_ring_witness:
  "let g = \<lparr>gAllGames = False, gAppsSplit = False, gDefaultGameView = GAME_VIEW_BOTH\<rparr> in
   libViewRingUsable g 0 \<and> snd (libViewActive g 0 (press g 0 view_init)) = view_ring g 0 ! 1"
proof -
  let ?g = "\<lparr>gAllGames = False, gAppsSplit = False, gDefaultGameView = GAME_VIEW_BOTH\<rparr>"
  have u: "libViewRingUsable ?g 0" "libViewRingSize ?g 0 = 2" "\<not> pendingViewValid view_init 0"
    by (simp_all add: libViewRingUsable_def libViewRingSize_def mode_valid_def libViewIsDeviceMode_def view_init_def)
  have "snd (libViewActive ?g 0 view_init) = view_ring ?g 0 ! 0"
    by (simp add: libViewActive_def mode_valid_def libViewIsDeviceMode_def view_init_def view_ring_def libViewEntry_def)
  moreover have "0 < libViewRingSize ?g 0" "Suc 0 mod libViewRingSize ?g 0 = 1" using u(2) by simp_all
  ultimately show ?thesis using libView_ring [of ?g 0 view_init] u(1,3) unfolding Let_def by metis
qed

section \<open>Positions across sessions\<close>

lemma view_char_value: "0 \<le> v \<Longrightarrow> v < LIB_VIEW_COUNT \<Longrightarrow> int (ord_of (view_char v)) - 48 = v"
  by (simp add: view_char_def)

lemma decode_encoded:
  assumes "\<And>e. 0 \<le> e \<Longrightarrow> e < MODE_COUNT \<Longrightarrow> P e \<Longrightarrow> libViewSupported e (view e)" "k \<le> 15"
  shows "decode_from (int k) (map (\<lambda>mode. if P mode then view_char (view mode) else CHR ''-'') (map int [k..<15])) (v, i) =
    (\<lambda>e. if int k \<le> e \<and> e < MODE_COUNT \<and> P e then view e else v e,
     \<lambda>e. if int k \<le> e \<and> e < MODE_COUNT \<and> P e then True else i e)"
  using assms(2)
proof (induction "15 - k" arbitrary: k v i)
  case 0
  then show ?case by (auto simp: fun_eq_iff)
next
  case (Suc n)
  then have k: "k < 15" by simp
  have u: "map int [k..<15] = int k # map int [Suc k..<15]" using k by (simp add: upt_conv_Cons)
  have dash: "int (ord_of (CHR ''-'')) - 48 = - 3" by (simp add: ord_of_def)
  show ?case
  proof (cases "P (int k)")
    case True
    then have sup: "libViewSupported (int k) (view (int k))" using assms(1) k by simp
    then have "0 \<le> view (int k)" "view (int k) < LIB_VIEW_COUNT" by (auto simp: libViewSupported_def split: if_splits)
    then show ?thesis using Suc.hyps(1) [of "Suc k" "v(int k := view (int k))" "i(int k := True)"] Suc.hyps(2) k True sup
      unfolding u by (auto simp: view_char_value Let_def add.commute fun_eq_iff)
  next
    case False
    let ?rest = "map (\<lambda>mode. if P mode then view_char (view mode) else CHR ''-'') (map int [Suc k..<15])"
    have "decode_from (int k) (CHR ''-'' # ?rest) (v, i) = decode_from (int (Suc k)) ?rest (v, i)"
      using dash by (simp add: add.commute Let_def)
    also have "\<dots> = (\<lambda>e. if int (Suc k) \<le> e \<and> e < MODE_COUNT \<and> P e then view e else v e,
        \<lambda>e. if int (Suc k) \<le> e \<and> e < MODE_COUNT \<and> P e then True else i e)"
      using Suc.hyps(2) k by (intro Suc.hyps(1)) simp_all
    also have "\<dots> = (\<lambda>e. if int k \<le> e \<and> e < MODE_COUNT \<and> P e then view e else v e,
        \<lambda>e. if int k \<le> e \<and> e < MODE_COUNT \<and> P e then True else i e)"
    proof -
      have "int (Suc k) \<le> e \<and> e < MODE_COUNT \<and> P e \<longleftrightarrow> int k \<le> e \<and> e < MODE_COUNT \<and> P e" for e
        using False by (cases "e = int k") auto
      then show ?thesis by presburger
    qed
    finally show ?thesis unfolding u using False by simp
  qed
qed

lemma encode_length: "length (libViewEncodeRing view isset) = 15"
  by (simp add: libViewEncodeRing_def)

lemma view_keys_ok: "key_ok CONFIG_LAST_LIB_VIEW_RETAINED" "key_ok CONFIG_LAST_LIB_VIEW_MIXED"
  "CONFIG_LAST_LIB_VIEW_RETAINED \<noteq> CONFIG_LAST_LIB_VIEW_MIXED"
  by (simp_all add: CONFIG_LAST_LIB_VIEW_RETAINED_def CONFIG_LAST_LIB_VIEW_MIXED_def key_ok_def configKeyValidate_def)

text \<open>A load in a fresh session of what was stored.\<close>

lemma load_stored:
  assumes "view_ok s" "set_ok cs"
  defines "l \<equiv> libViewLoadFromConfig (libViewStoreToConfig True s (Some cs)) view_init"
  shows "0 \<le> e \<Longrightarrow> e < MODE_COUNT \<Longrightarrow> retainedView l e = retainedView s e"
    "0 \<le> e \<Longrightarrow> e < MODE_COUNT \<Longrightarrow> mixedViewInitialized s e \<Longrightarrow> mixedViewInitialized l e \<and> mixedView l e = mixedView s e"
    "pendingViewValid l = (\<lambda>_. False)"
proof -
  let ?r = "libViewEncodeRing (retainedView s) None" and ?x = "libViewEncodeRing (mixedView s) (Some (mixedViewInitialized s))"
  let ?cs1 = "fst (set_str True CONFIG_LAST_LIB_VIEW_RETAINED ?r cs)"
  let ?cs2 = "fst (set_str True CONFIG_LAST_LIB_VIEW_MIXED ?x ?cs1)"
  have ok1: "set_ok ?cs1" using assms(2) by (rule set_str_ok)
  have g: "configGetStr (Some ?cs2) (Some CONFIG_LAST_LIB_VIEW_RETAINED) = Some ?r"
    "configGetStr (Some ?cs2) (Some CONFIG_LAST_LIB_VIEW_MIXED) = Some ?x"
    unfolding get_str_def [symmetric] using assms(2) ok1 view_keys_ok by (simp_all add: get_str_put encode_length)
  have sup: "libViewSupported e (retainedView s e)" "mixedViewInitialized s e \<Longrightarrow> libViewSupported e (mixedView s e)"
    if "0 \<le> e" "e < MODE_COUNT" for e
    using view_okD(1,2) [OF assms(1), of e] that by (simp_all add: page_of_def)
  have dr: "libViewDecodeRing ?r (v, i) = (\<lambda>e. if 0 \<le> e \<and> e < MODE_COUNT then retainedView s e else v e,
      \<lambda>e. if 0 \<le> e \<and> e < MODE_COUNT then True else i e)" for v i
    using decode_encoded [of "\<lambda>_. True" "retainedView s" 0 v i] sup(1) by (simp add: libViewDecodeRing_def libViewEncodeRing_def)
  have dx: "libViewDecodeRing ?x (v, i) = (\<lambda>e. if 0 \<le> e \<and> e < MODE_COUNT \<and> mixedViewInitialized s e then mixedView s e else v e,
      \<lambda>e. if 0 \<le> e \<and> e < MODE_COUNT \<and> mixedViewInitialized s e then True else i e)" for v i
    using decode_encoded [of "mixedViewInitialized s" "mixedView s" 0 v i] sup(2) by (simp add: libViewDecodeRing_def libViewEncodeRing_def)
  have l: "l = libViewLoadFromConfig (Some ?cs2) view_init" by (simp add: l_def libViewStoreToConfig_def Let_def)
  show "0 \<le> e \<Longrightarrow> e < MODE_COUNT \<Longrightarrow> retainedView l e = retainedView s e"
    "0 \<le> e \<Longrightarrow> e < MODE_COUNT \<Longrightarrow> mixedViewInitialized s e \<Longrightarrow> mixedViewInitialized l e \<and> mixedView l e = mixedView s e"
    "pendingViewValid l = (\<lambda>_. False)"
    unfolding l libViewLoadFromConfig_def option.case g by (simp_all add: dr dx Let_def view_init_def)
qed

lemma press_ok: "view_ok s \<Longrightarrow> view_ok (press g m s)"
proof -
  assume "view_ok s"
  then have "view_ok (libViewCommitPending m (fst (libViewStageAdvance g m s)))" by (intro commit_ok stage_ok)
  then show ?thesis using views.inv_step [of _ "ViewFinish m"] by (simp add: press_def)
qed

lemma saved_entry_cong: "bdmSlotType s = bdmSlotType s' \<Longrightarrow> saved_entry m s = saved_entry m s'"
  by (simp add: saved_entry_def)

lemma press_saved:
  assumes "libViewRingUsable g m" "\<not> pendingViewValid s m" "libViewIsDeviceMode m"
  defines "n \<equiv> next_view g m (snd (libViewActive g m s))" and "sv \<equiv> saved_entry m s"
  shows "gDefaultGameView g = GAME_VIEW_MIXED \<Longrightarrow> mixedView (press g m s) sv = n \<and> mixedViewInitialized (press g m s) sv"
    "gDefaultGameView g \<noteq> GAME_VIEW_MIXED \<Longrightarrow> retainedView (press g m s) sv = n"
proof -
  obtain s1 cur where a: "libViewActive g m s = (s1, cur)" by (cases "libViewActive g m s")
  have sv: "saved_entry m s1 = sv" using active_frame [OF a] by (simp add: saved_entry_def sv_def)
  have m: "mode_valid m" "m \<noteq> FAV_MODE" "m \<noteq> APP_MODE"
    using assms(1,3) by (auto simp: libViewRingUsable_def libViewIsDeviceMode_def)
  note defs = press_def libViewStageAdvance_def libViewFinishPending_def libViewCommitPending_def libViewPending_def Let_def
  have eq: "saved_entry m (s1\<lparr>pendingView := a1, pendingViewUsesMixedRing := a2, pendingViewValid := a3, libDirty := a4\<rparr>) = sv" for a1 a2 a3 a4
    unfolding sv [symmetric] by (rule saved_entry_cong) simp
  show "gDefaultGameView g = GAME_VIEW_MIXED \<Longrightarrow> mixedView (press g m s) sv = n \<and> mixedViewInitialized (press g m s) sv"
    using assms(1,2) a m eq by (simp add: defs n_def)
  show "gDefaultGameView g \<noteq> GAME_VIEW_MIXED \<Longrightarrow> retainedView (press g m s) sv = n"
    using assms(1,2) a m eq by (simp add: defs n_def)
qed

lemma device_ring:
  "libViewRingUsable g m \<Longrightarrow> libViewIsDeviceMode m \<Longrightarrow>
    \<not> gAllGames g \<and> (gDefaultGameView g = GAME_VIEW_BOTH \<or> gDefaultGameView g = GAME_VIEW_MIXED)"
  by (auto simp: libViewRingUsable_def libViewRingSize_def libViewIsDeviceMode_def split: if_splits game_view.splits)

text \<open>
  C30: the view a removable device was left on comes back with the device. After a press on the page the
  device is on and a store to the settings, a new session that loads them and finds a device of the
  same type on any of the eight pages shows that page on the view the press went to, under both kinds
  of ring.
\<close>

theorem libView_follows_device:
  assumes "s = fst (run view_step ops view_init)" "set_ok cs"
    and "libViewRingUsable g m" "\<not> pendingViewValid s m" "0 \<le> m" "m \<le> BDM_MODE_LAST" "0 \<le> m'" "m' \<le> BDM_MODE_LAST"
    and "0 \<le> t" "t < BDM_MODE_COUNT" "bdmSlotType s m = t + 1"
  shows "snd (libViewActive g m' (libViewBdmAttach m' t
           (libViewLoadFromConfig (libViewStoreToConfig True (press g m s) (Some cs)) view_init))) =
         snd (libViewActive g m (press g m s))"
proof -
  let ?p = "press g m s" and ?l = "libViewLoadFromConfig (libViewStoreToConfig True (press g m s) (Some cs)) view_init"
  have ok: "view_ok ?p" using views.inv_run [OF view_init_ok, of ops] assms(1) by (simp add: list_all_iff press_ok)
  have dev: "libViewIsDeviceMode m" "libViewIsDeviceMode m'" and e': "libViewEntry m' = 15 + m'" "libViewEntry m = 15 + m"
    using assms(5-8) by (simp_all add: libViewIsDeviceMode_def libViewEntry_def)
  have sv: "saved_entry m s = t" using assms(5,9,11) e'(2) by (simp add: saved_entry_def)
  note g = device_ring [OF assms(3) dev(1)]
  note saved = press_saved [OF assms(3,4) dev(1)] and l = load_stored(1,2) [OF ok assms(2), of t]
  have n: "snd (libViewActive g m ?p) = next_view g m (snd (libViewActive g m s))" by (rule press_next [OF assms(3,4)])
  have ring: "next_view g m c \<in> {LIB_VIEW_ISO, LIB_VIEW_PS1}" if "gDefaultGameView g = GAME_VIEW_BOTH" for c
    using that dev(1) assms(6) by (auto simp: next_view_def)
  show ?thesis
  proof (cases "gDefaultGameView g = GAME_VIEW_MIXED")
    case True
    then show ?thesis using saved(1) l(2) assms(7-10) dev(2) e'(1) g n sv device_valid [OF dev(2)]
      by (auto simp: libViewActive_def libViewBdmAttach_def libViewMixedActive_def Let_def)
  next
    case False
    then have b: "gDefaultGameView g = GAME_VIEW_BOTH" using g by blast
    then show ?thesis using saved(2) l(1) assms(7-10) dev(2) e'(1) g n sv device_valid [OF dev(2)] ring [OF b, of "snd (libViewActive g m s)"]
      by (auto simp: libViewActive_def libViewBdmAttach_def Let_def)
  qed
qed

theorem libView_follows_device_witness:
  "let g = \<lparr>gAllGames = False, gAppsSplit = False, gDefaultGameView = GAME_VIEW_BOTH\<rparr>;
       s = fst (run view_step [ViewAttach 0 2] view_init)
   in snd (libViewActive g 5 (libViewBdmAttach 5 2
           (libViewLoadFromConfig (libViewStoreToConfig True (press g 0 s) (Some sample_set)) view_init))) =
         snd (libViewActive g 0 (press g 0 s))"
proof -
  let ?g = "\<lparr>gAllGames = False, gAppsSplit = False, gDefaultGameView = GAME_VIEW_BOTH\<rparr>"
  let ?s = "fst (run view_step [ViewAttach 0 2] view_init)"
  have u: "libViewRingUsable ?g 0" by (simp add: libViewRingUsable_def libViewRingSize_def mode_valid_def libViewIsDeviceMode_def)
  have "\<not> pendingViewValid ?s 0" "bdmSlotType ?s 0 = 2 + 1"
    by (simp_all add: libViewBdmAttach_def libViewEntry_def view_init_def)
  from libView_follows_device [OF refl sample_set_ok u this(1), of 5 2] this(2) show ?thesis by (simp add: Let_def)
qed

end
