(* ===== verification/HttpCatalog.thy ===== *)
theory HttpCatalog
  imports Prelude
begin

text \<open>
  The \<open>games.csv\<close> parser of \<open>src/httpcatalog.c\<close>: splitting a line into at most four fields with
  quoting, the checks on each field and on the path that will be requested from the server. The parser
  works in place; the fields it terminates never overlap, so they are modelled as texts of their own.
\<close>

section \<open>Results\<close>

datatype http_reject =
    REJ_EMPTY_STARTUP | REJ_STARTUP_TOO_LONG | REJ_CONTROL_CHAR | REJ_TITLE_TOO_LONG | REJ_BAD_MEDIA
  | REJ_TOO_MANY_FIELDS | REJ_UNTERMINATED_QUOTE | REJ_TEXT_AFTER_QUOTE | REJ_EMPTY_PATH | REJ_PATH_TOO_LONG
  | REJ_ABSOLUTE_URL | REJ_ABSOLUTE_PATH | REJ_BACKSLASH | REJ_EMPTY_SEGMENT | REJ_PARENT_SEGMENT
  | REJ_UNKNOWN_EXTENSION

abbreviation "HTTP_CAT_STARTUP_MAX \<equiv> (12::nat)"
abbreviation "HTTP_CAT_TITLE_MAX \<equiv> (160::nat)"
abbreviation "HTTP_CAT_PATH_MAX \<equiv> (255::nat)"
abbreviation "HTTP_CSV_MAX_FIELDS \<equiv> (4::nat)"
abbreviation "HTTP_CAT_MEDIA_CD \<equiv> (0x12::nat)"
abbreviation "HTTP_CAT_MEDIA_DVD \<equiv> (0x14::nat)"
abbreviation "DQUOTE \<equiv> CHR 0x22"

record http_catalog_row =
  hr_startup :: cstring
  hr_title :: cstring
  hr_path :: cstring
  hr_extension :: cstring
  hr_media :: nat
  hr_supported :: bool

section \<open>Lines and fields\<close>

definition blank :: "char \<Rightarrow> bool" where
  "blank c \<longleftrightarrow> c = CHR '' '' \<or> c = CHR 0x09"

definition httpCatalogSkipBlankOrComment :: "cstring \<Rightarrow> cstring option" where
  "httpCatalogSkipBlankOrComment line =
     (let l = dropWhile blank line in if l = [] \<or> hd l = CHR ''#'' then None else Some l)"

text \<open>The rest of a quoted field: its text and what follows the closing quote.\<close>

fun quoted :: "cstring \<Rightarrow> cstring \<Rightarrow> (cstring \<times> cstring) option" where
  "quoted [] out = None"
| "quoted (c # p) out =
     (if c = DQUOTE then
        (case p of
           d # p' \<Rightarrow> if d = DQUOTE then quoted p' (out @ [DQUOTE]) else Some (out, p)
         | [] \<Rightarrow> Some (out, p))
      else quoted p (out @ [c]))"

text \<open>The field that starts here and what follows it.\<close>

definition next_field :: "cstring \<Rightarrow> http_reject + cstring \<times> cstring" where
  "next_field p =
     (if p \<noteq> [] \<and> hd p = DQUOTE then
        (case quoted (tl p) [] of
           None \<Rightarrow> Inl REJ_UNTERMINATED_QUOTE
         | Some (t, r) \<Rightarrow> if r \<noteq> [] \<and> hd r \<noteq> CHR '','' then Inl REJ_TEXT_AFTER_QUOTE else Inr (t, r))
      else Inr (takeWhile (\<lambda>c. c \<noteq> CHR '','') p, dropWhile (\<lambda>c. c \<noteq> CHR '','') p))"

function httpSplitFields :: "nat \<Rightarrow> cstring \<Rightarrow> http_reject + cstring list" where
  "httpSplitFields count p =
     (if count \<ge> HTTP_CSV_MAX_FIELDS then Inl REJ_TOO_MANY_FIELDS
      else
        (case next_field p of
              Inl e \<Rightarrow> Inl e
            | Inr (t, r) \<Rightarrow>
                if r = [] then Inr [t]
                else if tl r = [] then
                  if count + 1 \<ge> HTTP_CSV_MAX_FIELDS then Inl REJ_TOO_MANY_FIELDS else Inr [t, []]
                else map_sum id (\<lambda>fs. t # fs) (httpSplitFields (count + 1) (tl r))))"
  by pat_completeness auto
termination
  by (relation "measure (\<lambda>(count, p). HTTP_CSV_MAX_FIELDS - count)") auto

declare httpSplitFields.simps [simp del]

definition httpTrim :: "cstring \<Rightarrow> cstring" where
  "httpTrim s = rstrip blank (dropWhile blank s)"

definition httpHasControlChars :: "cstring \<Rightarrow> bool" where
  "httpHasControlChars s \<longleftrightarrow> list_ex (\<lambda>c. ord_of c < 0x20 \<or> ord_of c = 0x7F) s"

definition httpEndsWithNoCase :: "cstring \<Rightarrow> cstring \<Rightarrow> bool" where
  "httpEndsWithNoCase s suffix \<longleftrightarrow>
     length s > length suffix \<and> map tolower (drop (length s - length suffix) s) = map tolower suffix"

section \<open>Paths\<close>

fun contains :: "cstring \<Rightarrow> cstring \<Rightarrow> bool" where
  "contains [] pat \<longleftrightarrow> pat = []"
| "contains (c # s) pat \<longleftrightarrow> take (length pat) (c # s) = pat \<or> contains s pat"

text \<open>The loop over the segments of a path.\<close>

function check_segments :: "cstring \<Rightarrow> http_reject option" where
  "check_segments seg =
     (let s = takeWhile (\<lambda>c. c \<noteq> CHR ''/'') seg in
      if s = [] \<or> s = ''.'' then Some REJ_EMPTY_SEGMENT
      else if s = ''..'' then Some REJ_PARENT_SEGMENT
      else if CHR ''/'' \<notin> set seg then None
      else check_segments (drop (length s + 1) seg))"
  by pat_completeness auto
termination
  by (relation "measure length") (auto simp: Let_def intro!: diff_less dest: length_pos_if_in_set)

declare check_segments.simps [simp del]

definition httpCheckPath :: "cstring \<Rightarrow> http_reject option" where
  "httpCheckPath path =
     (if path = [] then Some REJ_EMPTY_PATH
      else if httpHasControlChars path then Some REJ_CONTROL_CHAR
      else if length path > HTTP_CAT_PATH_MAX then Some REJ_PATH_TOO_LONG
      else if contains path ''://'' then Some REJ_ABSOLUTE_URL
      else if hd path = CHR ''/'' then Some REJ_ABSOLUTE_PATH
      else if CHR 0x5C \<in> set path then Some REJ_BACKSLASH
      else (case check_segments path of
              Some e \<Rightarrow> Some e
            | None \<Rightarrow>
                if \<not> httpEndsWithNoCase path ''.iso'' \<and> \<not> httpEndsWithNoCase path ''.zso''
                then Some REJ_UNKNOWN_EXTENSION else None))"

section \<open>One line\<close>

text \<open>The media of the third field: empty leaves the default.\<close>

definition media_token :: "cstring \<Rightarrow> nat option" where
  "media_token m =
     (if m = [] then Some HTTP_CAT_MEDIA_DVD
      else if map tolower m = ''cd'' then Some HTTP_CAT_MEDIA_CD
      else if map tolower m = ''dvd'' then Some HTTP_CAT_MEDIA_DVD
      else None)"

text \<open>Title, extension and path of a row without a fourth field.\<close>

definition derived_path :: "cstring \<Rightarrow> cstring \<times> cstring \<times> cstring" where
  "derived_path title =
     (let (t, e) =
        (if httpEndsWithNoCase title ''.iso'' \<or> httpEndsWithNoCase title ''.zso''
         then (take (length title - 4) title, hd (drop (length title - 4) title) # map tolower (tl (drop (length title - 4) title)))
         else (title, ''.iso''))
      in (t, e, bounded (HTTP_CAT_PATH_MAX + 1) (t @ e)))"

definition field :: "cstring list \<Rightarrow> nat \<Rightarrow> cstring" where
  "field fs n = (if n < length fs then httpTrim (fs ! n) else [])"

definition row_source :: "cstring list \<Rightarrow> cstring \<Rightarrow> cstring \<times> cstring \<times> cstring" where
  "row_source fs title =
     (if field fs 3 \<noteq> [] then
        (title, if httpEndsWithNoCase (field fs 3) ''.zso'' then ''.zso'' else ''.iso'', field fs 3)
      else derived_path title)"

definition httpCatalogParseLine :: "cstring \<Rightarrow> http_reject + http_catalog_row" where
  "httpCatalogParseLine line =
     (case httpSplitFields 0 line of
        Inl e \<Rightarrow> Inl e
      | Inr fs \<Rightarrow>
          let startup = field fs 0 in
          if startup = [] then Inl REJ_EMPTY_STARTUP
          else if httpHasControlChars startup then Inl REJ_CONTROL_CHAR
          else if length startup > HTTP_CAT_STARTUP_MAX then Inl REJ_STARTUP_TOO_LONG
          else
            let title = (if field fs 1 \<noteq> [] then field fs 1 else startup) in
            if httpHasControlChars title then Inl REJ_CONTROL_CHAR
            else if length title > HTTP_CAT_TITLE_MAX then Inl REJ_TITLE_TOO_LONG
            else (case media_token (field fs 2) of
                    None \<Rightarrow> Inl REJ_BAD_MEDIA
                  | Some media \<Rightarrow>
                      (case row_source fs title of
                         (t, e, path) \<Rightarrow>
                         (case httpCheckPath path of
                            Some err \<Rightarrow> Inl err
                          | None \<Rightarrow>
                              Inr \<lparr>hr_startup = bounded (HTTP_CAT_STARTUP_MAX + 1) startup, hr_title = bounded (HTTP_CAT_TITLE_MAX + 1) t,
                                   hr_path = bounded (HTTP_CAT_PATH_MAX + 1) path, hr_extension = bounded 5 e, hr_media = media,
                                   hr_supported = httpEndsWithNoCase path ''.iso''\<rparr>))))"

section \<open>Fields round trip\<close>

definition csv_escape :: "cstring \<Rightarrow> cstring" where
  "csv_escape f = concat (map (\<lambda>c. if c = DQUOTE then [DQUOTE, DQUOTE] else [c]) f)"

text \<open>A field as a catalogue writer puts it: quoted when it has a comma or opens with a quote.\<close>

definition csv_field :: "cstring \<Rightarrow> cstring" where
  "csv_field f = (if CHR '','' \<in> set f \<or> (f \<noteq> [] \<and> hd f = DQUOTE) then DQUOTE # csv_escape f @ [DQUOTE] else f)"

fun csv_line :: "cstring list \<Rightarrow> cstring" where
  "csv_line [] = []"
| "csv_line [f] = csv_field f"
| "csv_line (f # g # fs) = csv_field f @ '','' @ csv_line (g # fs)"

lemma quoted_escape: "r = [] \<or> hd r \<noteq> DQUOTE \<Longrightarrow> quoted (csv_escape f @ DQUOTE # r) out = Some (out @ f, r)"
proof (induction f arbitrary: out)
  case Nil
  then show ?case by (cases r) (auto simp: csv_escape_def)
next
  case (Cons c f)
  then show ?case by (simp add: csv_escape_def)
qed

lemma takeWhile_comma: "CHR '','' \<notin> set f \<Longrightarrow> r = [] \<or> hd r = CHR '','' \<Longrightarrow>
    takeWhile (\<lambda>c. c \<noteq> CHR '','') (f @ r) = f \<and> dropWhile (\<lambda>c. c \<noteq> CHR '','') (f @ r) = r"
  by (induction f) (cases r; auto)+

lemma next_csv_field:
  assumes "r = [] \<or> hd r = CHR '',''"
  shows "next_field (csv_field f @ r) = Inr (f, r)"
proof (cases "CHR '','' \<in> set f \<or> (f \<noteq> [] \<and> hd f = DQUOTE)")
  case True
  have "r = [] \<or> hd r \<noteq> DQUOTE" using assms by auto
  from quoted_escape [OF this, of f "[]"] True assms show ?thesis by (auto simp: csv_field_def next_field_def)
next
  case False
  then have "\<not> (f @ r \<noteq> [] \<and> hd (f @ r) = DQUOTE)" using assms by (cases f) auto
  with False takeWhile_comma [of f r] assms show ?thesis by (auto simp: csv_field_def next_field_def)
qed

lemma split_field:
  assumes "r = [] \<or> hd r = CHR '',''" "count < HTTP_CSV_MAX_FIELDS"
  shows "httpSplitFields count (csv_field f @ r) =
    (if r = [] then Inr [f]
     else if tl r = [] then if count + 1 \<ge> HTTP_CSV_MAX_FIELDS then Inl REJ_TOO_MANY_FIELDS else Inr [f, []]
     else map_sum id (\<lambda>fs. f # fs) (httpSplitFields (count + 1) (tl r)))"
  using assms(2) unfolding httpSplitFields.simps [of count "csv_field f @ r"] next_csv_field [OF assms(1)] by simp

lemma csv_line_empty: "csv_line (g # fs) = [] \<Longrightarrow> g = [] \<and> fs = []"
  by (cases fs) (auto simp: csv_field_def split: if_splits)

lemma split_line: "fs \<noteq> [] \<Longrightarrow> count + length fs \<le> HTTP_CSV_MAX_FIELDS \<Longrightarrow> httpSplitFields count (csv_line fs) = Inr fs"
proof (induction fs arbitrary: count rule: csv_line.induct)
  case (2 f)
  then show ?case using split_field [of "[]" count f] by simp
next
  case (3 f g fs)
  from 3 have c: "count < HTTP_CSV_MAX_FIELDS" "count + 1 < HTTP_CSV_MAX_FIELDS" by auto
  from split_field [of "CHR '','' # csv_line (g # fs)" count f] c
  have "httpSplitFields count (csv_line (f # g # fs)) =
      (if csv_line (g # fs) = [] then Inr [f, []] else map_sum id (\<lambda>fs. f # fs) (httpSplitFields (count + 1) (csv_line (g # fs))))"
    by simp
  then show ?case using 3 csv_line_empty [of g fs] by auto
qed simp

section \<open>Accepted paths\<close>

fun segments :: "cstring \<Rightarrow> cstring list" where
  "segments [] = [[]]"
| "segments (c # s) = (if c = CHR ''/'' then [] # segments s else (c # hd (segments s)) # tl (segments s))"

text \<open>How a server resolves the segments of a request below a base directory.\<close>

fun resolve :: "cstring list \<Rightarrow> cstring list \<Rightarrow> cstring list" where
  "resolve base [] = base"
| "resolve base (s # ss) =
     (if s = [] \<or> s = ''.'' then resolve base ss
      else if s = ''..'' then resolve (butlast base) ss
      else resolve (base @ [s]) ss)"

lemma segments_nonempty [simp]: "segments p \<noteq> []"
  by (cases p) auto

lemma segments_unfold:
  "segments p = takeWhile (\<lambda>c. c \<noteq> CHR ''/'') p #
    (if CHR ''/'' \<in> set p then segments (drop (length (takeWhile (\<lambda>c. c \<noteq> CHR ''/'') p) + 1) p) else [])"
  by (induction p) auto

lemma check_segments_spec:
  "check_segments p = None \<longleftrightarrow> list_all (\<lambda>s. s \<noteq> [] \<and> s \<noteq> ''.'' \<and> s \<noteq> ''..'') (segments p)"
proof (induction p rule: check_segments.induct)
  case (1 p)
  show ?case
  proof (cases "CHR ''/'' \<in> set p")
    case True
    with 1 show ?thesis by (subst check_segments.simps, subst segments_unfold) (auto simp: Let_def)
  next
    case False
    then show ?thesis by (subst check_segments.simps, subst segments_unfold) (auto simp: Let_def)
  qed
qed

lemma resolve_plain: "list_all (\<lambda>s. s \<noteq> [] \<and> s \<noteq> ''.'' \<and> s \<noteq> ''..'') ss \<Longrightarrow> resolve base ss = base @ ss"
  by (induction ss arbitrary: base) auto

lemma check_path_safe:
  assumes "httpCheckPath path = None"
  shows "resolve base (segments path) = base @ segments path" "\<not> httpHasControlChars path" "length path \<le> HTTP_CAT_PATH_MAX"
    "\<not> contains path ''://''" "CHR 0x5C \<notin> set path" "httpEndsWithNoCase path ''.iso'' \<or> httpEndsWithNoCase path ''.zso''"
    "path \<noteq> []" "hd path \<noteq> CHR ''/''"
  using assms resolve_plain check_segments_spec [of path]
  by (auto simp: httpCheckPath_def split: if_splits option.splits)

text \<open>
  C31: whatever a catalogue line says, a row that is accepted asks the server for an image below the
  configured base and nothing else: the path resolves to the base followed by its own segments, has no
  scheme, backslash or control character, names an ISO or ZSO file and is stored uncut; only an ISO is
  marked playable, and the startup name is not empty and at most twelve characters.
\<close>

theorem http_row_safe:
  assumes "httpCatalogParseLine line = Inr row"
  shows "resolve base (segments (hr_path row)) = base @ segments (hr_path row)
    \<and> \<not> httpHasControlChars (hr_path row) \<and> \<not> contains (hr_path row) ''://'' \<and> CHR 0x5C \<notin> set (hr_path row)
    \<and> (httpEndsWithNoCase (hr_path row) ''.iso'' \<or> httpEndsWithNoCase (hr_path row) ''.zso'')
    \<and> hr_supported row = httpEndsWithNoCase (hr_path row) ''.iso''
    \<and> hr_startup row \<noteq> [] \<and> length (hr_startup row) \<le> HTTP_CAT_STARTUP_MAX \<and> \<not> httpHasControlChars (hr_startup row)
    \<and> hr_media row \<in> {HTTP_CAT_MEDIA_CD, HTTP_CAT_MEDIA_DVD}"
proof -
  obtain fs where fs: "httpSplitFields 0 line = Inr fs" using assms by (cases "httpSplitFields 0 line") (auto simp: httpCatalogParseLine_def)
  let ?title = "if field fs 1 \<noteq> [] then field fs 1 else field fs 0"
  obtain t e path where src: "row_source fs ?title = (t, e, path)" by (cases "row_source fs ?title")
  note row = assms [unfolded httpCatalogParseLine_def fs sum.case Let_def src prod.case]
  obtain media where media: "media_token (field fs 2) = Some media" using row by (cases "media_token (field fs 2)") (auto split: if_splits)
  have r: "httpCheckPath path = None" "media_token (field fs 2) = Some media"
      "field fs 0 \<noteq> []" "\<not> httpHasControlChars (field fs 0)" "length (field fs 0) \<le> HTTP_CAT_STARTUP_MAX"
      "row = \<lparr>hr_startup = bounded (HTTP_CAT_STARTUP_MAX + 1) (field fs 0), hr_title = bounded (HTTP_CAT_TITLE_MAX + 1) t,
         hr_path = bounded (HTTP_CAT_PATH_MAX + 1) path, hr_extension = bounded 5 e, hr_media = media,
         hr_supported = httpEndsWithNoCase path ''.iso''\<rparr>"
    using row media by (auto split: if_splits option.splits)
  have p: "hr_path row = path" "hr_startup row = field fs 0" "hr_media row = media" "hr_supported row = httpEndsWithNoCase path ''.iso''"
    using r(5,6) check_path_safe(3) [OF r(1)] by simp_all
  have "media \<in> {HTTP_CAT_MEDIA_CD, HTTP_CAT_MEDIA_DVD}" using r(2) by (auto simp: media_token_def split: if_splits)
  then show ?thesis using check_path_safe [OF r(1)] r(3-5) unfolding p by blast
qed

text \<open>A field that survives trimming.\<close>

definition clean_field :: "cstring \<Rightarrow> bool" where
  "clean_field f \<longleftrightarrow> f \<noteq> [] \<and> \<not> blank (hd f) \<and> \<not> blank (last f) \<and> \<not> httpHasControlChars f"

lemma clean_trim: "clean_field f \<Longrightarrow> httpTrim f = f"
  by (simp add: clean_field_def httpTrim_def dropWhile_id rstrip_id)

text \<open>
  A row written as a four-field line, with quoting where it is needed, is read back exactly: the
  same startup name, title and path, whatever commas and quotes they hold.
\<close>

theorem http_line_roundtrip:
  assumes "clean_field startup" "clean_field title" "clean_field path" "length startup \<le> HTTP_CAT_STARTUP_MAX"
    and "length title \<le> HTTP_CAT_TITLE_MAX" "httpCheckPath path = None" "m \<in> {''CD'', ''DVD''}"
  shows "httpCatalogParseLine (csv_line [startup, title, m, path]) =
    Inr \<lparr>hr_startup = startup, hr_title = title, hr_path = path,
         hr_extension = (if httpEndsWithNoCase path ''.zso'' then ''.zso'' else ''.iso''),
         hr_media = (if m = ''CD'' then HTTP_CAT_MEDIA_CD else HTTP_CAT_MEDIA_DVD),
         hr_supported = httpEndsWithNoCase path ''.iso''\<rparr>"
proof -
  let ?fs = "[startup, title, m, path]"
  have split: "httpSplitFields 0 (csv_line ?fs) = Inr ?fs" by (rule split_line) simp_all
  have mt: "httpTrim m = m" "media_token m = Some (if m = ''CD'' then HTTP_CAT_MEDIA_CD else HTTP_CAT_MEDIA_DVD)"
    using assms(7) by (auto simp: httpTrim_def blank_def rstrip_def media_token_def tolower_def isupper_def ord_of_def char_of_def bit_0)
  have f: "field ?fs 0 = startup" "field ?fs 1 = title" "field ?fs 2 = m" "field ?fs 3 = path"
    using clean_trim assms(1-3) mt(1) by (simp_all add: field_def)
  have ne: "startup \<noteq> []" "title \<noteq> []" "path \<noteq> []" "\<not> httpHasControlChars startup" "\<not> httpHasControlChars title"
    using assms(1-3) by (simp_all add: clean_field_def)
  have len: "length path \<le> HTTP_CAT_PATH_MAX" using check_path_safe(3) [OF assms(6)] .
  show ?thesis unfolding httpCatalogParseLine_def split sum.case f Let_def mt(2)
    using ne assms(4-6) len by (simp add: row_source_def f)
qed

theorem http_line_roundtrip_witness:
  "httpCatalogParseLine (csv_line [''SLUS_200.62'', ''GTA, 3'', ''DVD'', ''DVD/gta3.iso'']) =
     Inr \<lparr>hr_startup = ''SLUS_200.62'', hr_title = ''GTA, 3'', hr_path = ''DVD/gta3.iso'', hr_extension = ''.iso'',
          hr_media = HTTP_CAT_MEDIA_DVD, hr_supported = True\<rparr>"
proof -
  note o = ord_of_def blank_def clean_field_def httpHasControlChars_def
  have c: "clean_field ''SLUS_200.62''" "clean_field ''GTA, 3''" "clean_field ''DVD/gta3.iso''" by (simp_all add: o)
  have e: "httpEndsWithNoCase ''DVD/gta3.iso'' ''.iso''" "\<not> httpEndsWithNoCase ''DVD/gta3.iso'' ''.zso''"
    by (simp_all add: httpEndsWithNoCase_def tolower_def isupper_def ord_of_def char_of_def bit_0)
  have s: "check_segments ''DVD/gta3.iso'' = None" by (simp add: check_segments_spec)
  have p: "httpCheckPath ''DVD/gta3.iso'' = None" using e s by (simp add: httpCheckPath_def httpHasControlChars_def ord_of_def)
  show ?thesis using http_line_roundtrip [OF c _ _ p, of "''DVD''"] e by simp
qed

theorem http_row_safe_witness:
  "\<exists>row. httpCatalogParseLine (csv_line [''SLUS_200.62'', ''GTA'', ''DVD'', ''DVD/gta3.iso'']) = Inr row
     \<and> resolve [''games''] (segments (hr_path row)) = [''games''] @ segments (hr_path row)"
proof -
  note o = ord_of_def blank_def clean_field_def httpHasControlChars_def
  have e: "httpEndsWithNoCase ''DVD/gta3.iso'' ''.iso''" by (simp add: httpEndsWithNoCase_def tolower_def isupper_def ord_of_def char_of_def bit_0)
  have sp: "httpSplitFields 0 (csv_line [''SLUS_200.62'', ''GTA'', ''DVD'', ''DVD/gta3.iso'']) =
      Inr [''SLUS_200.62'', ''GTA'', ''DVD'', ''DVD/gta3.iso'']" by (rule split_line) simp_all
  have s: "check_segments ''DVD/gta3.iso'' = None" by (simp add: check_segments_spec)
  have p: "httpCheckPath ''DVD/gta3.iso'' = None" using e s by (simp add: httpCheckPath_def httpHasControlChars_def ord_of_def)
  have "\<exists>row. httpCatalogParseLine (csv_line [''SLUS_200.62'', ''GTA'', ''DVD'', ''DVD/gta3.iso'']) = Inr row"
    unfolding httpCatalogParseLine_def sp sum.case
    by (simp add: row_source_def field_def httpTrim_def rstrip_def o p Let_def media_token_def tolower_def isupper_def char_of_def bit_0)
  then obtain row where r: "httpCatalogParseLine (csv_line [''SLUS_200.62'', ''GTA'', ''DVD'', ''DVD/gta3.iso'']) = Inr row" by blast
  show ?thesis using http_row_safe [OF r, of "[''games'']"] r by blast
qed

end
