(* ===== verification/Ps2Cnf.thy ===== *)
theory Ps2Cnf
  imports Util
begin

text \<open>
  The boot file of a disc: the \<open>SYSTEM.CNF\<close> parser of \<open>src/ps2cnf.c\<close> and the startup name and image
  names of \<open>src/supportbase.c\<close>. A pointer into the text is the rest of the text from there on; the
  text is followed by the NUL the code stores after it. The caller's buffer is the characters stored
  in it and whether a NUL was stored behind them.
\<close>

section \<open>Tokens\<close>

abbreviation "CNF_LEN_MAX \<equiv> (1024::nat)"
abbreviation "CNF_PATH_LEN_MAX \<equiv> (64::nat)"

datatype token = Eof | NoMatch | At cstring

fun match_key :: "cstring \<Rightarrow> cstring \<Rightarrow> token" where
  "match_key [] cnf = At cnf"
| "match_key (k # key) cnf =
     (case cnf of
        [] \<Rightarrow> Eof
      | c # rest \<Rightarrow> if c = NUL then Eof else if c \<noteq> k then NoMatch else match_key key rest)"

definition CNFGetToken :: "cstring \<Rightarrow> cstring \<Rightarrow> token" where
  "CNFGetToken cnf key = match_key key (dropWhile isspace cnf)"

definition CNFAdvanceLine :: "cstring \<Rightarrow> cstring option" where
  "CNFAdvanceLine start =
     (let rest = dropWhile (\<lambda>c. c \<noteq> LF) start in if length rest > 1 then Some (tl rest) else None)"

text \<open>The copy loop of \<open>CNFGetKey\<close>, \<open>n\<close> turns from its end: what it stores and whether it terminates it.\<close>

fun copy_key :: "nat \<Rightarrow> cstring \<Rightarrow> cstring \<times> bool" where
  "copy_key 0 line = ([], False)"
| "copy_key (Suc n) line =
     (case line of
        [] \<Rightarrow> ([], False)
      | c # rest \<Rightarrow>
          if isgraph c then (case copy_key n rest of (k, t) \<Rightarrow> (c # k, t))
          else if isspace c then ([], True)
          else copy_key n line)"

definition CNFGetKey :: "cstring \<Rightarrow> (cstring \<times> bool) option" where
  "CNFGetKey line =
     (let l = dropWhile isspace (takeWhile (\<lambda>c. c \<noteq> NUL) line) in
      if l = [] then None else Some (copy_key CNF_PATH_LEN_MAX l))"

section \<open>The boot file\<close>

function find_boot :: "cstring \<Rightarrow> token" where
  "find_boot cnf =
     (case CNFGetToken cnf ''BOOT2'' of
        NoMatch \<Rightarrow> (case CNFAdvanceLine cnf of None \<Rightarrow> Eof | Some next \<Rightarrow> find_boot next)
      | t \<Rightarrow> t)"
  by pat_completeness auto
termination
proof (relation "measure length", goal_cases)
  case (2 cnf rest)
  have "length (dropWhile (\<lambda>c. c \<noteq> LF) cnf) \<le> length cnf" by (rule length_dropWhile_le)
  with 2 show ?case by (auto simp: CNFAdvanceLine_def Let_def split: if_splits)
qed simp

declare find_boot.simps [simp del]

text \<open>
  \<open>ps2cnfGetBootFile\<close>: \<open>content\<close> is the file when it can be opened, \<open>got\<close> how many bytes the read returns;
  the result and the caller's buffer, when it was written.
\<close>

definition ps2cnfGetBootFile :: "cstring option \<Rightarrow> nat \<Rightarrow> int \<times> (cstring \<times> bool) option" where
  "ps2cnfGetBootFile content got =
     (case content of
        None \<Rightarrow> (ENOENT, None)
      | Some file \<Rightarrow>
          let size = (if length file \<ge> CNF_LEN_MAX then CNF_LEN_MAX - 1 else length file) in
          if got \<noteq> size then (EIO, None)
          else (case find_boot (take size file) of
                  At p \<Rightarrow>
                    (case CNFGetToken p ''='' of
                       At q \<Rightarrow> (case CNFGetKey q of Some key \<Rightarrow> (0, Some key) | None \<Rightarrow> (- 1, None))
                     | _ \<Rightarrow> (- 1, None))
                | _ \<Rightarrow> (- 1, None)))"

section \<open>Startup names and image names\<close>

text \<open>
  \<open>GetStartupExecName\<close>: the caller's buffer of \<open>ps2cnfGetBootFile\<close> was zeroed, so its text ends at the
  first NUL; 64 characters without one run past the buffer, which is \<open>None\<close>.
\<close>

definition GetStartupExecName :: "cstring option \<Rightarrow> nat \<Rightarrow> nat \<Rightarrow> (int \<times> cstring) option" where
  "GetStartupExecName content got maxlength =
     (case ps2cnfGetBootFile content got of
        (ret, None) \<Rightarrow> Some (ret, [])
      | (ret, Some (key, terminated)) \<Rightarrow>
          if length key \<ge> CNF_PATH_LEN_MAX then None
          else (case strchr key (CHR '':'') of
                  None \<Rightarrow> Some (- 1, [])
                | Some i \<Rightarrow>
                    let start = dropWhile (\<lambda>c. c = CHR 0x5C) (drop (i + 1) key);
                        name = take maxlength (takeWhile (\<lambda>c. c \<noteq> CHR '';'') start)
                    in if name = [] then Some (- 1, []) else Some (0, name)))"

datatype iso_format = NotAnImage | GAME_FORMAT_OLD_ISO nat | GAME_FORMAT_ISO nat

definition isValidIsoName :: "cstring \<Rightarrow> iso_format" where
  "isValidIsoName name =
     (let size = length name; ext = map tolower (drop (size - 4) name) in
      if size < 5 then NotAnImage
      else if ext = ''.iso'' \<or> ext = ''.zso'' then
        if size \<ge> 17 \<and> name ! 4 = CHR ''_'' \<and> name ! 8 = CHR ''.'' \<and> name ! 11 = CHR ''.''
        then GAME_FORMAT_OLD_ISO (size - 16) else GAME_FORMAT_ISO (size - 4)
      else NotAnImage)"

section \<open>What a disc's file gives\<close>

lemma match_key_append: "match_key key cnf = NoMatch \<Longrightarrow> match_key key (cnf @ r) = NoMatch"
  by (induction key cnf rule: match_key.induct) (auto split: list.splits if_splits)

lemma dropWhile_append_stop: "dropWhile P l \<noteq> [] \<Longrightarrow> dropWhile P (l @ r) = dropWhile P l @ r"
  by (induction l) auto

lemma token_append: "CNFGetToken l key = NoMatch \<Longrightarrow> CNFGetToken (l @ r) key = NoMatch"
proof -
  assume t: "CNFGetToken l key = NoMatch"
  have "match_key key [] \<noteq> NoMatch" by (cases key) simp_all
  with t have "dropWhile isspace l \<noteq> []" unfolding CNFGetToken_def by (metis (full_types))
  then show ?thesis using t match_key_append by (simp add: CNFGetToken_def dropWhile_append_stop)
qed

lemma advance_line: "LF \<notin> set l \<Longrightarrow> r \<noteq> [] \<Longrightarrow> CNFAdvanceLine (l @ LF # r) = Some r"
proof -
  assume l: "LF \<notin> set l" and r: "r \<noteq> []"
  then have "dropWhile (\<lambda>c. c \<noteq> LF) (l @ LF # r) = LF # r" by (subst dropWhile_append2) auto
  with r show ?thesis by (simp add: CNFAdvanceLine_def)
qed

text \<open>A line that is not the boot line.\<close>

definition other_line :: "cstring \<Rightarrow> bool" where
  "other_line l \<longleftrightarrow> LF \<notin> set l \<and> CNFGetToken l ''BOOT2'' = NoMatch"

lemma find_boot_skip:
  "list_all other_line ls \<Longrightarrow> r \<noteq> [] \<Longrightarrow> find_boot (concat (map (\<lambda>l. l @ [LF]) ls) @ r) = find_boot r"
proof (induction ls)
  case (Cons l ls)
  let ?rest = "concat (map (\<lambda>l. l @ [LF]) ls) @ r"
  have "CNFGetToken (l @ LF # ?rest) ''BOOT2'' = NoMatch" using Cons.prems by (simp add: other_line_def token_append)
  moreover have "CNFAdvanceLine (l @ LF # ?rest) = Some ?rest" using Cons.prems by (intro advance_line) (simp_all add: other_line_def)
  ultimately have "find_boot (l @ LF # ?rest) = find_boot ?rest" by (subst find_boot.simps) simp
  with Cons show ?case by simp
qed simp

lemma match_key_self: "NUL \<notin> set key \<Longrightarrow> match_key key (key @ r) = At r"
  by (induction key) auto

lemma spaces_drop: "list_all isspace sp \<Longrightarrow> r \<noteq> [] \<Longrightarrow> \<not> isspace (hd r) \<Longrightarrow> dropWhile isspace (sp @ r) = r"
  by (induction sp) (auto simp: dropWhile_id)

lemma token_self:
  assumes "list_all isspace sp" "key \<noteq> []" "\<not> isspace (hd key)" "NUL \<notin> set key"
  shows "CNFGetToken (sp @ key @ r) key = At r"
  using assms spaces_drop [of sp "key @ r"] by (simp add: CNFGetToken_def match_key_self)

lemma copy_key_graph:
  assumes "list_all isgraph key" "length key < n" "isspace c"
  shows "copy_key n (key @ c # r) = (key, True)"
  using assms(1,2)
proof (induction key arbitrary: n)
  case Nil
  then obtain m where "n = Suc m" by (cases n) auto
  then show ?case using assms(3) isgraph_not_space by auto
next
  case (Cons k key)
  then obtain m where "n = Suc m" by (cases n) auto
  then show ?case using Cons by simp
qed

lemma isspace_not_NUL: "isspace c \<Longrightarrow> c \<noteq> NUL" and isgraph_not_NUL: "isgraph c \<Longrightarrow> c \<noteq> NUL"
  by (auto simp: isspace_def isgraph_def ord_of_def)

lemma get_key:
  assumes "list_all isspace sp" "list_all isgraph key" "key \<noteq> []" "length key < CNF_PATH_LEN_MAX" "isspace c"
  shows "CNFGetKey (sp @ key @ c # r) = Some (key, True)"
proof -
  have nul: "NUL \<notin> set (sp @ key @ [c])" using assms(1,2,5) isspace_not_NUL isgraph_not_NUL by (auto simp: list_all_iff)
  let ?t = "takeWhile (\<lambda>c. c \<noteq> NUL) r"
  have "takeWhile (\<lambda>c. c \<noteq> NUL) ((sp @ key @ [c]) @ r) = (sp @ key @ [c]) @ ?t" using nul by (subst takeWhile_append2) auto
  then have tw: "takeWhile (\<lambda>c. c \<noteq> NUL) (sp @ key @ c # r) = sp @ key @ c # ?t" by simp
  have "\<not> isspace (hd key)" using assms(2,3) isgraph_not_space by (cases key) auto
  then have "dropWhile isspace (sp @ key @ c # ?t) = key @ c # ?t" using assms(1,3) spaces_drop [of sp "key @ c # ?t"] by simp
  then show ?thesis unfolding CNFGetKey_def tw Let_def using assms(2-5) copy_key_graph by simp
qed

text \<open>
  For a \<open>SYSTEM.CNF\<close> of less than a kilobyte with a boot line anywhere after other lines, with any
  blanks around the equals sign, the startup name is exactly the file name between the device (with its
  backslashes) and the version, cut to the caller's buffer.
\<close>

theorem startup_name_found:
  assumes "list_all other_line ls" "list_all isspace sp0" "list_all isspace sp1" "list_all isspace sp2"
    and "list_all isgraph (dev @ '':'' @ name @ ver)" "CHR '':'' \<notin> set dev" "CHR '';'' \<notin> set name" "ver = [] \<or> hd ver = CHR '';''"
    and "name \<noteq> []" "hd name \<noteq> CHR 0x5C" "list_all (\<lambda>c. c = CHR 0x5C) bs" "isspace c" "0 < maxlength"
    and "length (dev @ '':'' @ bs @ name @ ver) < CNF_PATH_LEN_MAX"
    and "file = concat (map (\<lambda>l. l @ [LF]) ls) @ sp0 @ ''BOOT2'' @ sp1 @ ''='' @ sp2 @ (dev @ '':'' @ bs @ name @ ver) @ c # rest"
    and "length file < CNF_LEN_MAX"
  shows "GetStartupExecName (Some file) (length file) maxlength = Some (0, take maxlength name)"
proof -
  let ?key = "dev @ '':'' @ bs @ name @ ver"
  let ?r = "sp1 @ ''='' @ sp2 @ ?key @ c # rest"
  have B: "\<not> isspace (CHR ''B'')" "\<not> isspace (CHR ''='')" "isgraph (CHR 0x5C)" by (simp_all add: isspace_def isgraph_def ord_of_def)
  have "CNFGetToken (sp0 @ ''BOOT2'' @ ?r) ''BOOT2'' = At ?r" using assms(2) B(1) by (intro token_self) auto
  then have "find_boot (sp0 @ ''BOOT2'' @ ?r) = At ?r" by (subst find_boot.simps) simp
  then have boot: "find_boot file = At ?r" using find_boot_skip [OF assms(1), of "sp0 @ ''BOOT2'' @ ?r"] assms(15) by simp
  have eq: "CNFGetToken ?r ''='' = At (sp2 @ ?key @ c # rest)" using assms(3) B(2) token_self [of sp1 "''=''"] by simp
  have "list_all isgraph bs" using assms(11) B(3) by (induction bs) auto
  then have g: "list_all isgraph ?key" using assms(5) by simp
  have key: "CNFGetKey (sp2 @ ?key @ c # rest) = Some (?key, True)" by (rule get_key [OF assms(4) g _ assms(14,12)]) simp
  have cnf: "ps2cnfGetBootFile (Some file) (length file) = (0, Some (?key, True))"
  proof -
    have sz: "(if CNF_LEN_MAX \<le> length file then CNF_LEN_MAX - 1 else length file) = length file" "take (length file) file = file"
      using assms(16) by simp_all
    show ?thesis unfolding ps2cnfGetBootFile_def option.case Let_def sz boot token.case eq key by simp
  qed
  have colon: "strchr ?key (CHR '':'') = Some (length dev)" using strchr_append [OF assms(6), of "bs @ name @ ver"] by simp
  have bs: "dropWhile (\<lambda>c. c = CHR 0x5C) (bs @ name @ ver) = name @ ver"
    using assms(9-11) by (induction bs) (auto simp: dropWhile_id)
  have semi: "takeWhile (\<lambda>c. c \<noteq> CHR '';'') (name @ ver) = name"
    using assms(7,8) by (subst takeWhile_append2) (auto simp: takeWhile_eq_Nil_iff)
  show ?thesis using cnf colon bs semi assms(9,13,14) by (simp add: GetStartupExecName_def Let_def)
qed

text \<open>
  A boot path of 64 characters fills the caller's buffer and is left without its NUL, so the search
  for the device's colon runs past the end of the buffer.
\<close>

theorem startup_name_overruns:
  "GetStartupExecName (Some (''BOOT2 = '' @ replicate 64 (CHR ''A'') @ [LF])) 73 12 = None"
proof -
  let ?key = "replicate 64 (CHR ''A'')"
  have c: "isspace (CHR '' '')" "\<not> isspace (CHR ''B'')" "\<not> isspace (CHR ''='')" "isgraph (CHR ''A'')" "\<not> isspace (CHR ''A'')"
    by (simp_all add: isspace_def isgraph_def ord_of_def)
  have copy: "copy_key n (replicate n (CHR ''A'') @ r) = (replicate n (CHR ''A''), False)" for n r
    using c by (induction n) auto
  have "find_boot (''BOOT2 = '' @ ?key @ [LF]) = At ('' = '' @ ?key @ [LF])"
    using token_self [of "[]" "''BOOT2''" "'' = '' @ ?key @ [LF]"] c by (subst find_boot.simps) simp
  moreover have "CNFGetToken ('' = '' @ ?key @ [LF]) ''='' = At ('' '' @ ?key @ [LF])"
    using token_self [of "'' ''" "''=''" "'' '' @ ?key @ [LF]"] c by simp
  moreover have "CNFGetKey ('' '' @ ?key @ [LF]) = Some (?key, False)"
  proof -
    have tw: "takeWhile (\<lambda>c. c \<noteq> NUL) ('' '' @ ?key @ [LF]) = '' '' @ ?key @ [LF]" by (intro takeWhile_eq_all_conv [THEN iffD2]) simp
    have dw: "dropWhile isspace ('' '' @ ?key @ [LF]) = ?key @ [LF]" using c by (intro spaces_drop) (simp_all add: hd_append)
    show ?thesis unfolding CNFGetKey_def tw Let_def dw copy by simp
  qed
  ultimately have "ps2cnfGetBootFile (Some (''BOOT2 = '' @ ?key @ [LF])) 73 = (0, Some (?key, False))"
    by (simp add: ps2cnfGetBootFile_def Let_def)
  then show ?thesis by (simp add: GetStartupExecName_def)
qed

theorem startup_name_found_witness:
  "GetStartupExecName (Some (''VER = 1.00'' @ [LF] @ ''BOOT2 = cdrom0:'' @ [CHR 0x5C] @ ''SLUS_200.62;1'' @ [LF])) 41 12 = Some (0, ''SLUS_200.62'')"
proof -
  have c: "isspace (CHR '' '')" "isspace LF" "\<not> isspace (CHR ''V'')" by (simp_all add: isspace_def ord_of_def)
  have o: "list_all other_line [''VER = 1.00'']" using c by (simp add: other_line_def CNFGetToken_def)
  have g: "list_all isgraph (''cdrom0'' @ '':'' @ ''SLUS_200.62'' @ '';1'')" by (simp add: isgraph_def ord_of_def)
  let ?file = "concat (map (\<lambda>l. l @ [LF]) [''VER = 1.00'']) @ [] @ ''BOOT2'' @ '' '' @ ''='' @ '' '' @
    (''cdrom0'' @ '':'' @ [CHR 0x5C] @ ''SLUS_200.62'' @ '';1'') @ LF # []"
  have "GetStartupExecName (Some ?file) (length ?file) 12 = Some (0, take 12 ''SLUS_200.62'')"
    by (rule startup_name_found [OF o _ _ _ g _ _ _ _ _ _ c(2) _ _ refl]) (use c in simp_all)
  moreover have len: "length ?file = 41" by simp
  ultimately show ?thesis unfolding len by simp
qed

end
