(* ===== verification/CfgTitle.thy ===== *)
theory CfgTitle
  imports Modes ConfigStore FolderNav
begin

unbundle bit_operations_syntax

text \<open>
  Titles of the per-game settings in the lists, \<open>src/cfgtitle.c\<close> (the default build): the strict UTF-8
  scanner, the cleaning of a title, and the table of kept titles of every list. A list is known by its
  address; what its callbacks answer and the allocations are arguments.
\<close>

section \<open>Text\<close>

definition ubyte :: "cstring \<Rightarrow> nat \<Rightarrow> nat" where
  "ubyte p i = ord_of (p ! i)"

definition lead_length :: "nat \<Rightarrow> nat" where
  "lead_length b =
     (if b < 0x80 then 1
      else if b AND 0xE0 = 0xC0 \<and> b \<ge> 0xC2 then 2
      else if b AND 0xF0 = 0xE0 then 3
      else if b AND 0xF8 = 0xF0 \<and> b \<le> 0xF4 then 4
      else 0)"

definition bad_second :: "nat \<Rightarrow> nat \<Rightarrow> bool" where
  "bad_second b0 b1 \<longleftrightarrow>
     (b0 = 0xC2 \<and> b1 < 0xA0) \<or> (b0 = 0xE0 \<and> b1 < 0xA0) \<or> (b0 = 0xED \<and> b1 > 0x9F)
     \<or> (b0 = 0xF0 \<and> b1 < 0x90) \<or> (b0 = 0xF4 \<and> b1 > 0x8F)"

definition utf8Length :: "cstring \<Rightarrow> nat" where
  "utf8Length p =
     (let len = lead_length (ubyte p 0) in
      if len = 0 \<or> len > length p then 0
      else if list_ex (\<lambda>i. ubyte p i AND 0xC0 \<noteq> 0x80) [1..<len] then 0
      else if len > 1 \<and> bad_second (ubyte p 0) (ubyte p 1) then 0
      else len)"

definition title_blank :: "char \<Rightarrow> bool" where
  "title_blank c \<longleftrightarrow> c = CHR '' '' \<or> c = CHR 0x09"

text \<open>The loop: \<open>None\<close> when the text is refused.\<close>

function clean_loop :: "nat \<Rightarrow> cstring \<Rightarrow> cstring \<Rightarrow> cstring option" where
  "clean_loop sz p out =
     (if p = [] then Some out
      else
        let n = utf8Length p in
        if n = 0 \<or> (n = 1 \<and> (ubyte p 0 < 0x20 \<or> ubyte p 0 = 0x7F)) then None
        else if length out + n > sz - 1 then Some out
        else clean_loop sz (drop n p) (out @ take n p))"
  by pat_completeness auto
termination
  by (relation "measure (\<lambda>(_, p, _). length p)") auto

declare clean_loop.simps [simp del]

text \<open>The usable title, if any; the caller's buffer has \<open>sz\<close> bytes.\<close>

definition cfgTitleClean :: "cstring option \<Rightarrow> nat \<Rightarrow> cstring option" where
  "cfgTitleClean title sz =
     (if sz < 2 then None
      else (case title of
              None \<Rightarrow> None
            | Some t \<Rightarrow>
                let p = rstrip title_blank (dropWhile title_blank t) in
                if p = [] then None
                else (case clean_loop sz p [] of
                        None \<Rightarrow> None
                      | Some out \<Rightarrow> if out = [] then None else Some out)))"

section \<open>Kept titles\<close>

abbreviation "CFG_TITLE_MAX \<equiv> (128::nat)"

record title_list =
  tl_addr :: nat
  tl_mode :: int
  tl_itemGet :: "(nat \<Rightarrow> bool option) option"
  tl_itemGetConfig :: "(nat \<Rightarrow> config_set option) option"

record title_slot =
  sl_support :: "nat option"
  sl_title :: "cstring option list option"

definition findSlot :: "nat option \<Rightarrow> title_slot list \<Rightarrow> nat option" where
  "findSlot support slots =
     (case support of
        None \<Rightarrow> None
      | Some a \<Rightarrow> find (\<lambda>i. sl_support (slots ! i) = Some a) [0..<length slots])"

definition claimSlot :: "nat \<Rightarrow> title_slot list \<Rightarrow> title_slot list \<times> nat option" where
  "claimSlot a slots =
     (case findSlot (Some a) slots of
        Some i \<Rightarrow> (slots, Some i)
      | None \<Rightarrow>
          (case find (\<lambda>i. sl_support (slots ! i) = None) [0..<length slots] of
             Some i \<Rightarrow> (slots[i := (slots ! i)\<lparr>sl_support := Some a\<rparr>], Some i)
           | None \<Rightarrow> (slots, None)))"

text \<open>A folder row: the entry the list returns is a folder.\<close>

definition isFolderRow :: "title_list \<Rightarrow> nat \<Rightarrow> bool" where
  "isFolderRow l i \<longleftrightarrow>
     folderModeSupported (tl_mode l) \<and> (case tl_itemGet l of None \<Rightarrow> False | Some get \<Rightarrow> get i = Some True)"

definition keepTitle :: "bool \<Rightarrow> cstring \<Rightarrow> cstring option" where
  "keepTitle mem clean = (if mem then Some clean else None)"

definition swapTable :: "nat \<Rightarrow> cstring option list option \<Rightarrow> title_slot list \<Rightarrow> title_slot list" where
  "swapTable i fresh slots = slots[i := (slots ! i)\<lparr>sl_title := fresh\<rparr>]"

definition cfgTitleForget :: "nat option \<Rightarrow> title_slot list \<Rightarrow> title_slot list" where
  "cfgTitleForget support slots =
     (case findSlot support slots of
        Some i \<Rightarrow> if sl_title (slots ! i) \<noteq> None then swapTable i None slots else slots
      | None \<Rightarrow> slots)"

text \<open>The title of one row; \<open>fav i\<close> is \<open>favGetItemSourceMode\<close>.\<close>

definition row_title :: "(nat \<Rightarrow> bool) \<Rightarrow> (nat \<Rightarrow> int) \<Rightarrow> title_list \<Rightarrow> nat \<Rightarrow> cstring option" where
  "row_title mem fav l i =
     (if isFolderRow l i then None
      else if tl_mode l = FAV_MODE \<and> fav i = APP_MODE then None
      else (case the (tl_itemGetConfig l) i of
              None \<Rightarrow> None
            | Some config \<Rightarrow>
                (case configGetStr (Some config) (Some ''Title'') of
                   None \<Rightarrow> None
                 | Some t \<Rightarrow>
                     (case cfgTitleClean (Some t) CFG_TITLE_MAX of
                        None \<Rightarrow> None
                      | Some clean \<Rightarrow> keepTitle (mem i) clean))))"

definition cfgTitleRefresh ::
  "bool \<Rightarrow> bool \<Rightarrow> (nat \<Rightarrow> bool) \<Rightarrow> (nat \<Rightarrow> int) \<Rightarrow> title_list option \<Rightarrow> nat \<Rightarrow> title_slot list \<Rightarrow> title_slot list" where
  "cfgTitleRefresh gCfgTitlesInLists mem_table mem fav support count slots =
     (case support of
        None \<Rightarrow> slots
      | Some l \<Rightarrow>
          (case claimSlot (tl_addr l) slots of
             (slots, None) \<Rightarrow> slots
           | (slots, Some i) \<Rightarrow>
               let fresh =
                 (if gCfgTitlesInLists \<and> tl_mode l \<noteq> APP_MODE \<and> tl_itemGetConfig l \<noteq> None \<and> count > 0 \<and> mem_table
                  then Some (map (row_title mem fav l) [0..<count]) else None)
               in swapTable i fresh slots))"

definition cfgTitleForRow :: "bool \<Rightarrow> title_slot list \<Rightarrow> nat option \<Rightarrow> int \<Rightarrow> cstring option" where
  "cfgTitleForRow gCfgTitlesInLists slots support row =
     (if \<not> gCfgTitlesInLists then None
      else (case findSlot support slots of
              None \<Rightarrow> None
            | Some i \<Rightarrow>
                (case sl_title (slots ! i) of
                   None \<Rightarrow> None
                 | Some ts \<Rightarrow> if row < 0 \<or> row \<ge> int (length ts) then None else ts ! nat row)))"

text \<open>\<open>shown\<close> is \<open>vcdDisplayNameForRow\<close> of the row; in this build both names are the same.\<close>

definition cfgTitleDisplayName :: "bool \<Rightarrow> title_slot list \<Rightarrow> nat option \<Rightarrow> int \<Rightarrow> cstring \<Rightarrow> cstring" where
  "cfgTitleDisplayName g slots support row shown = (case cfgTitleForRow g slots support row of Some t \<Rightarrow> t | None \<Rightarrow> shown)"

definition cfgTitleSortName :: "bool \<Rightarrow> title_slot list \<Rightarrow> nat option \<Rightarrow> int \<Rightarrow> cstring \<Rightarrow> cstring" where
  "cfgTitleSortName g slots support row shown = (case cfgTitleForRow g slots support row of Some t \<Rightarrow> t | None \<Rightarrow> shown)"

section \<open>UTF-8\<close>

text \<open>The reference: how a code point is encoded.\<close>

definition utf8_encode :: "nat \<Rightarrow> cstring" where
  "utf8_encode cp = map char_of
     (if cp < 0x80 then [cp]
      else if cp < 0x800 then [0xC0 + cp div 64, 0x80 + cp mod 64]
      else if cp < 0x10000 then [0xE0 + cp div 4096, 0x80 + cp div 64 mod 64, 0x80 + cp mod 64]
      else [0xF0 + cp div 262144, 0x80 + cp div 4096 mod 64, 0x80 + cp div 64 mod 64, 0x80 + cp mod 64])"

text \<open>Unicode scalar values without the C1 controls.\<close>

definition scalar :: "nat \<Rightarrow> bool" where
  "scalar cp \<longleftrightarrow> cp < 0x110000 \<and> \<not> (0xD800 \<le> cp \<and> cp < 0xE000) \<and> \<not> (0x80 \<le> cp \<and> cp < 0xA0)"

lemma high_bits:
  assumes "b < 256"
  shows "(b::nat) AND push_bit k (mask (8 - k)) = b div 2 ^ k * 2 ^ k"
proof -
  have "take_bit 8 b = b" using assms by (simp add: take_bit_nat_eq_self)
  then have "n < 8" if "bit b n" for n using that by (metis bit_take_bit_iff)
  then have "b AND push_bit k (mask (8 - k)) = push_bit k (drop_bit k b)"
    by (intro bit_eqI) (auto simp: bit_simps intro!: diff_less_mono)
  then show ?thesis by (simp add: push_bit_eq_mult drop_bit_eq_div)
qed

lemma div_block: "0 < k \<Longrightarrow> (b::nat) div k * k = q * k \<longleftrightarrow> q * k \<le> b \<and> b < q * k + k"
proof
  assume k: "0 < k" and "b div k * k = q * k"
  then show "q * k \<le> b \<and> b < q * k + k" using div_mult_mod_eq [of b k] mod_less_divisor [OF k, of b] by linarith
next
  assume "0 < k" "q * k \<le> b \<and> b < q * k + k"
  then have "b div k = q" by (intro div_nat_eqI) (simp_all add: mult.commute)
  then show "b div k * k = q * k" by simp
qed

lemma byte_masks:
  assumes "b < (256::nat)"
  shows "b AND 0xE0 = 0xC0 \<longleftrightarrow> 0xC0 \<le> b \<and> b < 0xE0" "b AND 0xF0 = 0xE0 \<longleftrightarrow> 0xE0 \<le> b \<and> b < 0xF0"
    "b AND 0xF8 = 0xF0 \<longleftrightarrow> 0xF0 \<le> b \<and> b < 0xF8" "b AND 0xC0 = 0x80 \<longleftrightarrow> 0x80 \<le> b \<and> b < 0xC0"
proof -
  have m: "b AND 0xE0 = b div 32 * 32" "b AND 0xF0 = b div 16 * 16" "b AND 0xF8 = b div 8 * 8" "b AND 0xC0 = b div 64 * 64"
  proof -
    have k: "push_bit 5 (mask (8 - 5)) = (0xE0::nat)" "push_bit 4 (mask (8 - 4)) = (0xF0::nat)"
      "push_bit 3 (mask (8 - 3)) = (0xF8::nat)" "push_bit 6 (mask (8 - 6)) = (0xC0::nat)"
      by (simp_all add: push_bit_eq_mult mask_eq_exp_minus_1)
    have p: "(2::nat) ^ 5 = 32" "(2::nat) ^ 4 = 16" "(2::nat) ^ 3 = 8" "(2::nat) ^ 6 = 64" by simp_all
    show "b AND 0xE0 = b div 32 * 32" using high_bits [OF assms, of 5] unfolding k(1) p .
    show "b AND 0xF0 = b div 16 * 16" using high_bits [OF assms, of 4] unfolding k(2) p .
    show "b AND 0xF8 = b div 8 * 8" using high_bits [OF assms, of 3] unfolding k(3) p .
    show "b AND 0xC0 = b div 64 * 64" using high_bits [OF assms, of 6] unfolding k(4) p .
  qed
  show "b AND 0xE0 = 0xC0 \<longleftrightarrow> 0xC0 \<le> b \<and> b < 0xE0" unfolding m(1) using div_block [of 32 b 6] by simp
  show "b AND 0xF0 = 0xE0 \<longleftrightarrow> 0xE0 \<le> b \<and> b < 0xF0" unfolding m(2) using div_block [of 16 b 14] by simp
  show "b AND 0xF8 = 0xF0 \<longleftrightarrow> 0xF0 \<le> b \<and> b < 0xF8" unfolding m(3) using div_block [of 8 b 30] by simp
  show "b AND 0xC0 = 0x80 \<longleftrightarrow> 0x80 \<le> b \<and> b < 0xC0" unfolding m(4) using div_block [of 64 b 2] by simp
qed

lemma lead_length_ranges:
  assumes "b < 256"
  shows "lead_length b = (if b < 0x80 then 1 else if 0xC2 \<le> b \<and> b < 0xE0 then 2
    else if 0xE0 \<le> b \<and> b < 0xF0 then 3 else if 0xF0 \<le> b \<and> b \<le> 0xF4 then 4 else 0)"
  using assms byte_masks [OF assms] by (auto simp: lead_length_def)

lemma all_shift: "(\<forall>n < m. Q (Suc n)) \<longleftrightarrow> (\<forall>i \<in> {1..<Suc m}. Q i)"
proof
  assume a: "\<forall>n < m. Q (Suc n)"
  show "\<forall>i \<in> {1..<Suc m}. Q i"
  proof
    fix i assume "i \<in> {1..<Suc m}"
    then show "Q i" using a by (cases i) auto
  qed
qed auto

lemma utf8Length_bytes:
  assumes "p = map char_of bs @ r" "\<forall>b \<in> set bs. b < 256" "bs \<noteq> []" "length bs = lead_length (hd bs)"
  shows "utf8Length p = (if \<not> list_all (\<lambda>b. 0x80 \<le> b \<and> b < 0xC0) (tl bs) then 0
    else if length bs > 1 \<and> bad_second (bs ! 0) (bs ! 1) then 0 else length bs)"
proof -
  have byte: "ubyte p i = bs ! i" if "i < length bs" for i
    using that assms(1,2) by (simp add: ubyte_def nth_append)
  have b0: "ubyte p 0 = hd bs" using byte [of 0] assms(3) by (simp add: hd_conv_nth)
  have cont: "ubyte p i AND 0xC0 \<noteq> 0x80 \<longleftrightarrow> \<not> (0x80 \<le> bs ! i \<and> bs ! i < 0xC0)" if "i < length bs" for i
    using byte [OF that] byte_masks(4) [of "bs ! i"] assms(2) that by simp
  have "list_ex (\<lambda>i. ubyte p i AND 0xC0 \<noteq> 0x80) [1..<length bs] \<longleftrightarrow> (\<exists>i \<in> {1..<length bs}. \<not> (0x80 \<le> bs ! i \<and> bs ! i < 0xC0))"
    unfolding list_ex_iff set_upt by (rule bex_cong) (use cont in auto)
  also have "\<dots> \<longleftrightarrow> \<not> list_all (\<lambda>b. 0x80 \<le> b \<and> b < 0xC0) (tl bs)"
  proof -
    obtain b bs' where bs: "bs = b # bs'" using assms(3) by (cases bs) auto
    show ?thesis using all_shift [of "length bs'" "\<lambda>i. 0x80 \<le> bs ! i \<and> bs ! i < 0xC0"] unfolding bs list_all_length by auto
  qed
  finally have "list_ex (\<lambda>i. ubyte p i AND 0xC0 \<noteq> 0x80) [1..<length bs] \<longleftrightarrow> \<not> list_all (\<lambda>b. 0x80 \<le> b \<and> b < 0xC0) (tl bs)" .
  moreover have "length bs > 1 \<Longrightarrow> ubyte p 1 = bs ! 1" using byte by simp
  ultimately show ?thesis using b0 byte [of 0] assms(1,3,4) by (auto simp: utf8Length_def Let_def)
qed

lemma utf8Length_ok:
  assumes "\<forall>b \<in> set bs. b < 256" "bs \<noteq> []" "length bs = lead_length (hd bs)" "list_all (\<lambda>b. 0x80 \<le> b \<and> b < 0xC0) (tl bs)"
    and "length bs > 1 \<Longrightarrow> \<not> bad_second (bs ! 0) (bs ! 1)"
  shows "utf8Length (map char_of bs @ r) = length (map char_of bs :: cstring)"
  using utf8Length_bytes [OF refl assms(1-3), of r] assms(4,5) by auto

lemma utf8Length_encode:
  assumes "scalar cp"
  shows "utf8Length (utf8_encode cp @ r) = length (utf8_encode cp)"
proof -
  note sc = assms [unfolded scalar_def]
  consider "cp < 0x80" | "0x80 \<le> cp" "cp < 0x800" | "0x800 \<le> cp" "cp < 0x10000" | "0x10000 \<le> cp" by linarith
  then show ?thesis
  proof cases
    case 1
    then have "utf8_encode cp = map char_of [cp]" by (simp add: utf8_encode_def)
    then show ?thesis using 1 by (simp only:) (rule utf8Length_ok, simp_all add: lead_length_def)
  next
    case 2
    let ?bs = "[0xC0 + cp div 64, 0x80 + cp mod 64]"
    have u: "utf8_encode cp = map char_of ?bs" using 2 by (simp add: utf8_encode_def)
    have q: "cp = cp div 64 * 64 + cp mod 64" "cp mod 64 < 64" by simp_all
    have "2 \<le> cp div 64" "cp div 64 < 32" using 2 q by linarith+
    moreover have "\<not> bad_second (0xC0 + cp div 64) (0x80 + cp mod 64)" using 2 sc q unfolding bad_second_def by linarith
    ultimately show ?thesis unfolding u using less_trans [OF q(2), of 128] by (intro utf8Length_ok) (simp_all add: lead_length_ranges)
  next
    case 3
    let ?bs = "[0xE0 + cp div 4096, 0x80 + cp div 64 mod 64, 0x80 + cp mod 64]"
    have u: "utf8_encode cp = map char_of ?bs" using 3 by (simp add: utf8_encode_def)
    have e: "cp div 4096 = cp div 64 div 64" using div_mult2_eq [of cp 64 64] by simp
    have q: "cp = cp div 64 * 64 + cp mod 64" "cp mod 64 < 64" "cp div 64 = cp div 4096 * 64 + cp div 64 mod 64" "cp div 64 mod 64 < 64"
      unfolding e by simp_all
    have "cp div 4096 < 16" using 3 q by linarith
    moreover have "\<not> bad_second (0xE0 + cp div 4096) (0x80 + cp div 64 mod 64)" using 3 sc q unfolding bad_second_def by linarith
    ultimately show ?thesis unfolding u using less_trans [OF q(2), of 128] less_trans [OF q(4), of 128] by (intro utf8Length_ok) (simp_all add: lead_length_ranges)
  next
    case 4
    let ?bs = "[0xF0 + cp div 262144, 0x80 + cp div 4096 mod 64, 0x80 + cp div 64 mod 64, 0x80 + cp mod 64]"
    have u: "utf8_encode cp = map char_of ?bs" using 4 by (simp add: utf8_encode_def)
    have q: "cp = cp div 4096 * 4096 + cp mod 4096" "cp mod 4096 < 4096" "cp div 4096 = cp div 262144 * 64 + cp div 4096 mod 64"
        "cp div 4096 mod 64 < 64" "cp div 64 mod 64 < 64" "cp mod 64 < 64"
      using div_mult2_eq [of cp 4096 64] by simp_all
    have "cp div 262144 \<le> 4" using sc q by linarith
    moreover have "\<not> bad_second (0xF0 + cp div 262144) (0x80 + cp div 4096 mod 64)" using 4 sc q unfolding bad_second_def by linarith
    ultimately show ?thesis unfolding u using less_trans [OF q(4), of 128] less_trans [OF q(5), of 128] less_trans [OF q(6), of 128] by (intro utf8Length_ok) (simp_all add: lead_length_ranges)
  qed
qed

lemma char_of_ubyte [simp]: "char_of (ubyte p i) = p ! i"
  by (simp add: ubyte_def ord_of_def)

lemma ubyte_less [simp]: "ubyte p i < 256"
  by (simp add: ubyte_def)

lemma utf8Length_parts:
  assumes "utf8Length p = n" "n \<noteq> 0"
  shows "lead_length (ubyte p 0) = n" "n \<le> length p" "\<And>i. 0 < i \<Longrightarrow> i < n \<Longrightarrow> 0x80 \<le> ubyte p i \<and> ubyte p i < 0xC0"
    "1 < n \<Longrightarrow> \<not> bad_second (ubyte p 0) (ubyte p 1)"
proof -
  show n: "lead_length (ubyte p 0) = n" and "n \<le> length p" and "1 < n \<Longrightarrow> \<not> bad_second (ubyte p 0) (ubyte p 1)"
    using assms by (auto simp: utf8Length_def Let_def split: if_splits)
  fix i assume i: "0 < i" "i < n"
  have "\<not> list_ex (\<lambda>i. ubyte p i AND 0xC0 \<noteq> 0x80) [1..<n]" using assms n by (auto simp: utf8Length_def Let_def split: if_splits)
  then have "ubyte p i AND 0xC0 = 0x80" using i by (auto simp: list_ex_iff)
  then show "0x80 \<le> ubyte p i \<and> ubyte p i < 0xC0" using byte_masks(4) [of "ubyte p i"] by simp
qed

lemma block_div: "(b::nat) < 64 \<Longrightarrow> (a * 64 + b) div 64 = a" and block_mod: "(b::nat) < 64 \<Longrightarrow> (a * 64 + b) mod 64 = b"
  by simp_all

lemma utf8_decode2:
  assumes "0xC2 \<le> b0" "b0 < 0xE0" "0x80 \<le> b1" "b1 < 0xC0" "\<not> bad_second b0 b1"
  shows "\<exists>cp. scalar cp \<and> utf8_encode cp = [char_of b0, char_of b1]"
proof -
  obtain x y where x: "b0 = 0xC0 + x" "b1 = 0x80 + y" using assms(1,3) by (intro that [of "b0 - 0xC0" "b1 - 0x80"]) simp_all
  let ?cp = "x * 64 + y"
  have y: "y < 64" "2 \<le> x" "x < 32" using x assms by simp_all
  have d: "?cp div 64 = x" "?cp mod 64 = y" using y by simp_all
  have r: "0x80 \<le> ?cp" "?cp < 0x800" using y by linarith+
  have "\<not> (x = 2 \<and> y < 32)" using assms(5) x by (simp add: bad_second_def)
  then have "0xA0 \<le> ?cp" using y by (cases "x = 2") linarith+
  then have "scalar ?cp" using r by (simp add: scalar_def)
  moreover have "utf8_encode ?cp = [char_of b0, char_of b1]" using r d x by (simp add: utf8_encode_def)
  ultimately show ?thesis by blast
qed

lemma utf8_decode3:
  fixes b0 b1 b2 :: nat
  assumes "0xE0 \<le> b0" "b0 < 0xF0" "0x80 \<le> b1" "b1 < 0xC0" "0x80 \<le> b2" "b2 < 0xC0" "\<not> bad_second b0 b1"
  shows "\<exists>cp. scalar cp \<and> utf8_encode cp = [char_of b0, char_of b1, char_of b2]"
proof -
  obtain x y z where x: "b0 = 0xE0 + x" "b1 = 0x80 + y" "b2 = 0x80 + z" using assms(1,3,5) by (auto simp: nat_le_iff_add)
  let ?cp = "(x * 64 + y) * 64 + z"
  have y: "y < 64" "z < 64" "x < 16" using x assms by simp_all
  have d: "?cp div 64 = x * 64 + y" "?cp mod 64 = z" "(x * 64 + y) mod 64 = y" "(x * 64 + y) div 64 = x"
    by (rule block_div block_mod, rule y)+
  have d': "?cp div 4096 = x" using div_mult2_eq [of ?cp 64 64] d by simp
  have b: "32 \<le> y \<or> 1 \<le> x" "x \<le> 12 \<or> 14 \<le> x \<or> x = 13 \<and> y \<le> 31" using assms(7) x by (auto simp: bad_second_def)
  have e: "?cp = x * 4096 + y * 64 + z" by (simp add: add_mult_distrib)
  have r: "0x800 \<le> ?cp" and r2: "?cp < 0x10000" unfolding e using y b(1) by linarith+
  have "?cp < 0xD800 \<or> 0xE000 \<le> ?cp" unfolding e using b(2) y by (elim disjE conjE) linarith+
  then have "scalar ?cp" using r r2 unfolding scalar_def by linarith
  moreover have "utf8_encode ?cp = [char_of b0, char_of b1, char_of b2]"
    using r r2 unfolding utf8_encode_def d' d(1-3) by (simp add: x)
  ultimately show ?thesis by blast
qed

lemma utf8_decode4:
  fixes b0 b1 b2 b3 :: nat
  assumes "0xF0 \<le> b0" "b0 \<le> 0xF4" "0x80 \<le> b1" "b1 < 0xC0" "0x80 \<le> b2" "b2 < 0xC0" "0x80 \<le> b3" "b3 < 0xC0" "\<not> bad_second b0 b1"
  shows "\<exists>cp. scalar cp \<and> utf8_encode cp = [char_of b0, char_of b1, char_of b2, char_of b3]"
proof -
  obtain x y z w where x: "b0 = 0xF0 + x" "b1 = 0x80 + y" "b2 = 0x80 + z" "b3 = 0x80 + w" using assms(1,3,5,7) by (auto simp: nat_le_iff_add)
  let ?m = "(x * 64 + y) * 64 + z"
  let ?cp = "?m * 64 + w"
  have y: "y < 64" "z < 64" "w < 64" "x \<le> 4" using x assms by simp_all
  have d: "?cp div 64 = ?m" "?cp mod 64 = w" "?m mod 64 = z" "?m div 64 = x * 64 + y" "(x * 64 + y) mod 64 = y" "(x * 64 + y) div 64 = x"
    by (rule block_div block_mod, rule y)+
  have d': "?cp div 4096 = x * 64 + y" using div_mult2_eq [of ?cp 64 64] d by simp
  have d2: "?cp div 262144 = x" using div_mult2_eq [of ?cp 4096 64] d' d(6) by simp
  have b: "16 \<le> y \<or> 1 \<le> x" "x \<le> 3 \<or> y \<le> 15" using assms(9) x y by (auto simp: bad_second_def)
  have e: "?cp = x * 262144 + y * 4096 + z * 64 + w" by (simp add: add_mult_distrib)
  have r: "0x10000 \<le> ?cp" and r2: "?cp < 0x110000" unfolding e using y b by linarith+
  have "scalar ?cp" using r r2 by (simp add: scalar_def)
  moreover have "utf8_encode ?cp = [char_of b0, char_of b1, char_of b2, char_of b3]"
    using r unfolding utf8_encode_def d2 d' d(1-3,5) by (simp add: x)
  ultimately show ?thesis by blast
qed

lemma take_cells:
  "2 \<le> length p \<Longrightarrow> take 2 p = [p ! 0, p ! 1]" "3 \<le> length p \<Longrightarrow> take 3 p = [p ! 0, p ! 1, p ! 2]"
  "4 \<le> length p \<Longrightarrow> take 4 p = [p ! 0, p ! 1, p ! 2, p ! 3]"
  by (simp_all add: list_eq_iff_nth_eq nth_Cons numeral_eq_Suc less_Suc_eq split: nat.split)

lemma utf8_decode:
  assumes "p \<noteq> []" "utf8Length p = n" "n \<noteq> 0"
  shows "\<exists>cp. scalar cp \<and> utf8_encode cp = take n p"
proof -
  note pt = utf8Length_parts [OF assms(2,3)]
  let ?b = "ubyte p"
  have r: "(n = 1 \<and> ?b 0 < 0x80) \<or> (n = 2 \<and> 0xC2 \<le> ?b 0 \<and> ?b 0 < 0xE0) \<or> (n = 3 \<and> 0xE0 \<le> ?b 0 \<and> ?b 0 < 0xF0)
      \<or> (n = 4 \<and> 0xF0 \<le> ?b 0 \<and> ?b 0 \<le> 0xF4)"
    using pt(1) assms(3) lead_length_ranges [of "?b 0"] by (auto split: if_splits)
  then consider "n = 1" "?b 0 < 0x80" | "n = 2" "0xC2 \<le> ?b 0" "?b 0 < 0xE0" | "n = 3" "0xE0 \<le> ?b 0" "?b 0 < 0xF0"
    | "n = 4" "0xF0 \<le> ?b 0" "?b 0 \<le> 0xF4" by blast
  then show ?thesis
  proof cases
    case 1
    have "take 1 p = [p ! 0]" using assms(1) by (cases p) auto
    with 1 show ?thesis by (intro exI [of _ "?b 0"]) (simp add: scalar_def utf8_encode_def)
  next
    case 2
    then show ?thesis using pt(3) [of 1] pt(2,4) utf8_decode2 [of "?b 0" "?b 1"] by (simp add: take_cells)
  next
    case 3
    then show ?thesis using pt(3) [of 1] pt(3) [of 2] pt(2,4) utf8_decode3 [of "?b 0" "?b 1" "?b 2"] by (simp add: take_cells)
  next
    case 4
    then show ?thesis using pt(3) [of 1] pt(3) [of 2] pt(3) [of 3] pt(2,4) utf8_decode4 [of "?b 0" "?b 1" "?b 2" "?b 3"]
      by (simp add: take_cells)
  qed
qed

text \<open>
  C32: the scanner accepts exactly the encodings of Unicode scalar values other than the C1 controls: it
  returns \<open>n\<close> for a text that starts with such an encoding of \<open>n\<close> bytes, and zero for every other text.
\<close>

theorem utf8Length_correct:
  "(scalar cp \<longrightarrow> utf8Length (utf8_encode cp @ r) = length (utf8_encode cp))
   \<and> (p \<noteq> [] \<and> utf8Length p \<noteq> 0 \<longrightarrow> (\<exists>cp. scalar cp \<and> utf8_encode cp = take (utf8Length p) p))"
  using utf8Length_encode utf8_decode by blast

theorem utf8Length_correct_witness:
  "scalar 0x3042 \<and> utf8Length (utf8_encode 0x3042 @ ''x'') = length (utf8_encode 0x3042)"
proof -
  have "scalar 0x3042" by (simp add: scalar_def)
  with utf8Length_correct [where cp = "0x3042" and r = "''x''"] show ?thesis by blast
qed

section \<open>Cleaning\<close>

text \<open>The characters a title may hold: no controls.\<close>

definition title_char :: "nat \<Rightarrow> bool" where
  "title_char cp \<longleftrightarrow> scalar cp \<and> 0x20 \<le> cp \<and> cp \<noteq> 0x7F"

abbreviation encoded :: "nat list \<Rightarrow> cstring" where
  "encoded cps \<equiv> concat (map utf8_encode cps)"

abbreviation trimmed :: "cstring \<Rightarrow> cstring" where
  "trimmed t \<equiv> rstrip title_blank (dropWhile title_blank t)"

lemma utf8_encode_not_Nil [simp]: "utf8_encode cp \<noteq> []"
  by (simp add: utf8_encode_def)

lemma utf8_encode_single:
  assumes "length (utf8_encode cp) = 1"
  shows "cp < 0x80" "ubyte (utf8_encode cp @ r) 0 = cp"
  using assms by (auto simp: utf8_encode_def ubyte_def split: if_splits)

lemma utf8_refused_iff:
  assumes "scalar cp"
  shows "(utf8Length (utf8_encode cp @ r) = 0
    \<or> utf8Length (utf8_encode cp @ r) = 1 \<and> (ubyte (utf8_encode cp @ r) 0 < 0x20 \<or> ubyte (utf8_encode cp @ r) 0 = 0x7F))
    \<longleftrightarrow> \<not> title_char cp"
proof (cases "length (utf8_encode cp) = 1")
  case True
  then show ?thesis using assms utf8_encode_single [OF True] utf8Length_encode [OF assms, of r] by (auto simp: title_char_def)
next
  case False
  then have "0x80 \<le> cp" by (auto simp: utf8_encode_def split: if_splits)
  then show ?thesis using False assms utf8Length_encode [OF assms, of r] by (simp add: title_char_def)
qed

lemma clean_loop_chars:
  assumes "clean_loop sz p out = Some res" "length out < sz"
  shows "\<exists>cps rest. res = out @ encoded cps \<and> list_all title_char cps \<and> p = encoded cps @ rest \<and> length res < sz"
  using assms
proof (induction sz p out rule: clean_loop.induct)
  case (1 sz p out)
  let ?n = "utf8Length p"
  show ?case
  proof (cases "p = [] \<or> length out + ?n > sz - 1")
    case True
    then have "res = out" using "1.prems"(1) by (subst (asm) clean_loop.simps) (auto simp: Let_def split: if_splits)
    then show ?thesis using "1.prems"(2) by (intro exI [of _ "[]"] exI [of _ p]) simp
  next
    case False
    then have n: "?n \<noteq> 0" "\<not> (?n = 1 \<and> (ubyte p 0 < 0x20 \<or> ubyte p 0 = 0x7F))" and
      step: "clean_loop sz (drop ?n p) (out @ take ?n p) = Some res"
      using "1.prems"(1) by (subst (asm) clean_loop.simps, auto simp: Let_def split: if_splits)+
    obtain cp where cp: "scalar cp" "utf8_encode cp = take ?n p" using utf8_decode [of p] False n by blast
    have p: "p = utf8_encode cp @ drop ?n p" using cp(2) by simp
    have "title_char cp" using utf8_refused_iff [OF cp(1), of "drop ?n p"] n p by metis
    moreover have "length (out @ take ?n p) < sz" using False "1.prems"(2) by (auto simp: min_def)
    then obtain cps rest where "res = out @ take ?n p @ encoded cps" "list_all title_char cps" "drop ?n p = encoded cps @ rest" "length res < sz"
      using "1.IH" [OF _ refl] False n step by fastforce
    ultimately show ?thesis using p cp(2) by (intro exI [of _ "cp # cps"] exI [of _ rest]) simp
  qed
qed

lemma clean_loop_whole:
  assumes "list_all title_char cps" "length (out @ encoded cps) < sz"
  shows "clean_loop sz (encoded cps) out = Some (out @ encoded cps)"
  using assms
proof (induction cps arbitrary: out)
  case Nil
  then show ?case by (simp add: clean_loop.simps)
next
  case (Cons cp cps)
  then have cp: "scalar cp" "title_char cp" by (simp_all add: title_char_def)
  have "clean_loop sz (encoded (cp # cps)) out = clean_loop sz (encoded cps) (out @ utf8_encode cp)"
    using utf8_refused_iff [OF cp(1), of "encoded cps"] cp(2) utf8Length_encode [OF cp(1), of "encoded cps"] Cons.prems(2)
    by (subst clean_loop.simps) (auto simp: Let_def)
  then show ?case using Cons by simp
qed

text \<open>
  A title that is taken over is a non-empty run of whole printable characters, a prefix of the title
  without the blanks around it, and fits the buffer with its terminator; a title of printable characters
  that fits is taken over unchanged.
\<close>

theorem cfgTitleClean_whole:
  "(cfgTitleClean (Some t) sz = Some out \<longrightarrow>
     (\<exists>cps rest. cps \<noteq> [] \<and> list_all title_char cps \<and> out = encoded cps \<and> trimmed t = out @ rest \<and> length out < sz))
   \<and> (cps \<noteq> [] \<and> list_all title_char cps \<and> trimmed t = encoded cps \<and> length (encoded cps) < sz
        \<longrightarrow> cfgTitleClean (Some t) sz = Some (encoded cps))"
proof (intro conjI impI)
  assume a: "cfgTitleClean (Some t) sz = Some out"
  then have c: "clean_loop sz (trimmed t) [] = Some out" "out \<noteq> []" "2 \<le> sz"
    by (auto simp: cfgTitleClean_def Let_def split: if_splits option.splits)
  then show "\<exists>cps rest. cps \<noteq> [] \<and> list_all title_char cps \<and> out = encoded cps \<and> trimmed t = out @ rest \<and> length out < sz"
    using clean_loop_chars [OF c(1)] by fastforce
next
  assume a: "cps \<noteq> [] \<and> list_all title_char cps \<and> trimmed t = encoded cps \<and> length (encoded cps) < sz"
  then have ne: "encoded cps \<noteq> []" by (cases cps) auto
  then have "2 \<le> sz" using a by (cases "encoded cps") auto
  then show "cfgTitleClean (Some t) sz = Some (encoded cps)"
    using a ne clean_loop_whole [of cps "[]" sz] by (simp add: cfgTitleClean_def)
qed

theorem cfgTitleClean_whole_witness:
  "cfgTitleClean (Some ''  Ico '') 128 = Some ''Ico''
   \<and> (\<exists>cps rest. cps \<noteq> [] \<and> list_all title_char cps \<and> ''Ico'' = encoded cps \<and> trimmed ''  Ico '' = ''Ico'' @ rest \<and> length ''Ico'' < 128)"
proof -
  have e: "encoded [0x49, 0x63, 0x6F] = ''Ico''" by code_simp
  then have "length (encoded [0x49, 0x63, 0x6F]) < 128" by (simp only:) simp
  moreover have "trimmed ''  Ico '' = ''Ico''" by (simp add: rstrip_def title_blank_def)
  moreover have "list_all title_char [0x49, 0x63, 0x6F]" by (simp add: title_char_def scalar_def)
  ultimately have "cfgTitleClean (Some ''  Ico '') 128 = Some ''Ico''"
    using cfgTitleClean_whole [of "''  Ico ''" 128 "[]" "[0x49, 0x63, 0x6F]"] unfolding e by blast
  then show ?thesis using cfgTitleClean_whole [of "''  Ico ''" 128 "''Ico''" "[]"] by blast
qed

section \<open>The table\<close>

lemma find_upt_Some:
  "find P [0..<n] = Some i \<longleftrightarrow> i < n \<and> P i \<and> (\<forall>j < i. \<not> P j)"
  by (auto simp: find_Some_iff)

lemma findSlot_Some:
  "findSlot (Some a) slots = Some i \<longleftrightarrow>
     i < length slots \<and> sl_support (slots ! i) = Some a \<and> (\<forall>j < i. sl_support (slots ! j) \<noteq> Some a)"
  by (simp add: findSlot_def find_upt_Some)

lemma findSlot_None: "findSlot (Some a) slots = None \<longleftrightarrow> (\<forall>j < length slots. sl_support (slots ! j) \<noteq> Some a)"
  by (auto simp: findSlot_def find_None_iff)

text \<open>Slots of the same owners have the same places.\<close>

lemma findSlot_cong:
  assumes "length slots' = length slots"
    and "\<And>j. j < length slots \<Longrightarrow> sl_support (slots' ! j) = Some b \<longleftrightarrow> sl_support (slots ! j) = Some b"
  shows "findSlot (Some b) slots' = findSlot (Some b) slots"
  using assms by (auto simp: findSlot_def intro!: find_cong)

lemma claimSlot_Some:
  assumes "claimSlot a slots = (slots', Some i)"
  shows "findSlot (Some a) slots' = Some i" "b \<noteq> a \<Longrightarrow> findSlot (Some b) slots' = findSlot (Some b) slots"
    "length slots' = length slots" "\<And>j. j \<noteq> i \<Longrightarrow> slots' ! j = slots ! j"
proof -
  consider (found) "slots' = slots" "findSlot (Some a) slots = Some i"
    | (free) "findSlot (Some a) slots = None" "i < length slots" "sl_support (slots ! i) = None"
        "slots' = slots[i := (slots ! i)\<lparr>sl_support := Some a\<rparr>]"
    using assms by (auto simp: claimSlot_def find_upt_Some split: option.splits)
  note claimed = this
  show len: "length slots' = length slots" and same: "\<And>j. j \<noteq> i \<Longrightarrow> slots' ! j = slots ! j"
    by (cases rule: claimed; simp)+
  show "findSlot (Some a) slots' = Some i"
    by (cases rule: claimed) (auto simp: findSlot_Some findSlot_None)
  assume "b \<noteq> a"
  then show "findSlot (Some b) slots' = findSlot (Some b) slots"
    by (cases rule: claimed) (auto intro!: findSlot_cong simp: nth_list_update split: if_splits)
qed

lemma findSlot_swapTable [simp]: "findSlot (Some b) (swapTable i fresh slots) = findSlot (Some b) slots"
  by (intro findSlot_cong; cases "i < length slots") (auto simp: swapTable_def nth_list_update split: if_splits)

lemma sl_title_swapTable:
  "i < length slots \<Longrightarrow> sl_title (swapTable i fresh slots ! j) = (if j = i then fresh else sl_title (slots ! j))"
  by (simp add: swapTable_def nth_list_update)

text \<open>A list has room when it owns a slot or one is free.\<close>

definition has_room :: "nat \<Rightarrow> title_slot list \<Rightarrow> bool" where
  "has_room a slots \<longleftrightarrow> list_ex (\<lambda>s. sl_support s = Some a \<or> sl_support s = None) slots"

lemma claimSlot_room:
  assumes "has_room a slots"
  obtains slots' i where "claimSlot a slots = (slots', Some i)"
proof (cases "findSlot (Some a) slots")
  case None
  then have "\<exists>i < length slots. sl_support (slots ! i) = None"
    using assms by (auto simp: has_room_def findSlot_None list_ex_iff in_set_conv_nth)
  then obtain i where "find (\<lambda>i. sl_support (slots ! i) = None) [0..<length slots] = Some i"
    by (cases "find (\<lambda>i. sl_support (slots ! i) = None) [0..<length slots]") (auto simp: find_None_iff)
  then show ?thesis using None that by (simp add: claimSlot_def)
next
  case (Some i)
  then show ?thesis using that by (simp add: claimSlot_def)
qed

text \<open>
  After a refresh of a list that has room in the table, a row of it has the title its settings give,
  a row out of range has none, and every other list keeps the titles it had; forgetting a list leaves its
  rows without titles and the other lists alone.
\<close>

theorem cfgTitle_table:
  assumes "has_room (tl_addr l) slots" "tl_mode l \<noteq> APP_MODE" "tl_itemGetConfig l \<noteq> None" "0 < count" "b \<noteq> tl_addr l"
    and s: "slots' = cfgTitleRefresh True True mem fav (Some l) count slots"
  shows "cfgTitleForRow True slots' (Some (tl_addr l)) row
      = (if 0 \<le> row \<and> row < int count then row_title mem fav l (nat row) else None)
    \<and> cfgTitleForRow g slots' (Some b) row = cfgTitleForRow g slots (Some b) row
    \<and> cfgTitleForRow g (cfgTitleForget (Some (tl_addr l)) slots') (Some (tl_addr l)) row = None
    \<and> cfgTitleForRow g (cfgTitleForget (Some (tl_addr l)) slots') (Some b) row = cfgTitleForRow g slots (Some b) row"
proof -
  obtain sl i where c: "claimSlot (tl_addr l) slots = (sl, Some i)" using claimSlot_room [OF assms(1)] .
  note cs = claimSlot_Some [OF c]
  define ts where "ts = map (row_title mem fav l) [0..<count]"
  have s': "slots' = swapTable i (Some ts) sl" using assms(2-4) c by (simp add: s cfgTitleRefresh_def Let_def ts_def)
  have i: "i < length sl" using cs(1) by (simp add: findSlot_Some)
  have f: "findSlot (Some (tl_addr l)) slots' = Some i" using cs(1) by (simp add: s')
  have t: "sl_title (slots' ! i) = Some ts" using i by (simp add: s' sl_title_swapTable)
  have fg: "cfgTitleForget (Some (tl_addr l)) slots' = swapTable i None slots'" using f t by (simp add: cfgTitleForget_def)
  have 1: "cfgTitleForRow True slots' (Some (tl_addr l)) row
      = (if 0 \<le> row \<and> row < int count then row_title mem fav l (nat row) else None)"
    using f t by (auto simp: cfgTitleForRow_def ts_def)
  have i': "i < length slots'" using i by (simp add: s' swapTable_def)
  have 2: "cfgTitleForRow g (swapTable i None slots') (Some (tl_addr l)) row = None"
    using f i' by (simp add: cfgTitleForRow_def sl_title_swapTable)
  have other: "sl_title (slots' ! j) = sl_title (slots ! j) \<and> sl_title (swapTable i None slots' ! j) = sl_title (slots ! j)"
    if "findSlot (Some b) slots = Some j" for j
  proof -
    have "j \<noteq> i" using that [folded cs(2) [OF assms(5)]] cs(1) assms(5) by (auto simp: findSlot_Some)
    then show ?thesis using i cs(4) by (simp add: s' swapTable_def)
  qed
  have 3: "cfgTitleForRow g slots' (Some b) row = cfgTitleForRow g slots (Some b) row"
    "cfgTitleForRow g (swapTable i None slots') (Some b) row = cfgTitleForRow g slots (Some b) row"
    using other cs(2) [OF assms(5)] by (auto simp: cfgTitleForRow_def s' split: option.splits)
  show ?thesis unfolding fg using 1 2 3 by simp
qed

definition sample_list :: title_list where
  "sample_list = \<lparr>tl_addr = 7, tl_mode = ETH_MODE, tl_itemGet = None, tl_itemGetConfig = Some (\<lambda>_. None)\<rparr>"

theorem cfgTitle_table_witness:
  "cfgTitleForRow True
     (cfgTitleRefresh True True (\<lambda>_. True) (\<lambda>_. 0) (Some sample_list) 3 (replicate 4 \<lparr>sl_support = None, sl_title = None\<rparr>))
     (Some 7) 1 = row_title (\<lambda>_. True) (\<lambda>_. 0) sample_list 1"
proof -
  have "has_room (tl_addr sample_list) (replicate 4 \<lparr>sl_support = None, sl_title = None\<rparr>)"
    by (simp add: has_room_def numeral_eq_Suc)
  moreover have "tl_addr sample_list = 7" "tl_mode sample_list \<noteq> APP_MODE" "tl_itemGetConfig sample_list \<noteq> None"
    by (simp_all add: sample_list_def)
  ultimately show ?thesis
    using cfgTitle_table [of sample_list _ 3 8 _ "\<lambda>_. True" "\<lambda>_. 0" 1 True, OF _ _ _ _ _ refl] by simp
qed

end
