(* ===== verification/LinkedList.thy ===== *)
theory LinkedList
  imports Prelude "HOL-Library.Monad_Syntax"
begin

text \<open>
  Doubly linked lists in a heap: a node has an item, a link back and a link on. A heap is a partial
  function, and following a pointer that is null or dangling makes an operation \<open>None\<close>. \<open>path\<close> follows the
  links on, \<open>backs\<close> checks the links back, and \<open>dll\<close> is a complete list. The menus use these.
\<close>

record 'a node =
  n_item :: 'a
  n_prev :: "nat option"
  n_next :: "nat option"

type_synonym 'a heap = "nat \<rightharpoonup> 'a node"

definition set_next :: "nat \<Rightarrow> nat option \<Rightarrow> 'a heap \<Rightarrow> 'a heap option" where
  "set_next a v h = do { n \<leftarrow> h a; Some (h(a \<mapsto> n\<lparr>n_next := v\<rparr>)) }"

definition set_prev :: "nat \<Rightarrow> nat option \<Rightarrow> 'a heap \<Rightarrow> 'a heap option" where
  "set_prev a v h = do { n \<leftarrow> h a; Some (h(a \<mapsto> n\<lparr>n_prev := v\<rparr>)) }"

section \<open>Links\<close>

primrec path :: "'a heap \<Rightarrow> nat option \<Rightarrow> nat list \<Rightarrow> nat option \<Rightarrow> bool" where
  "path h p [] q \<longleftrightarrow> p = q"
| "path h p (a # as) q \<longleftrightarrow> p = Some a \<and> (\<exists>n. h a = Some n \<and> path h (n_next n) as q)"

primrec backs :: "'a heap \<Rightarrow> nat option \<Rightarrow> nat list \<Rightarrow> bool" where
  "backs h p [] \<longleftrightarrow> True"
| "backs h p (a # as) \<longleftrightarrow> (\<exists>n. h a = Some n \<and> n_prev n = p \<and> backs h (Some a) as)"

definition dll :: "'a heap \<Rightarrow> nat option \<Rightarrow> nat list \<Rightarrow> bool" where
  "dll h p as \<longleftrightarrow> path h p as None \<and> backs h None as \<and> distinct as"

text \<open>The items along a list of addresses.\<close>

definition item_at :: "'a heap \<Rightarrow> nat \<Rightarrow> 'a" where
  "item_at h a = n_item (the (h a))"

abbreviation items :: "'a heap \<Rightarrow> nat list \<Rightarrow> 'a list" where
  "items h as \<equiv> map (item_at h) as"

lemma path_append: "path h p (as @ bs) q \<longleftrightarrow> (\<exists>r. path h p as r \<and> path h r bs q)"
  by (induction as arbitrary: p) auto

lemma backs_append:
  "backs h p (as @ bs) \<longleftrightarrow> backs h p as \<and> backs h (if as = [] then p else Some (last as)) bs"
  by (induction as arbitrary: p) auto

lemma path_cong: "(\<And>a. a \<in> set as \<Longrightarrow> map_option n_next (h' a) = map_option n_next (h a)) \<Longrightarrow> path h' p as q = path h p as q"
proof (induction as arbitrary: p)
  case (Cons a as)
  have "map_option n_next (h' a) = map_option n_next (h a)" by (simp add: Cons.prems)
  then show ?case using Cons.IH Cons.prems by (cases "h a"; cases "h' a") auto
qed simp

lemma backs_cong: "(\<And>a. a \<in> set as \<Longrightarrow> map_option n_prev (h' a) = map_option n_prev (h a)) \<Longrightarrow> backs h' p as = backs h p as"
proof (induction as arbitrary: p)
  case (Cons a as)
  have "map_option n_prev (h' a) = map_option n_prev (h a)" by (simp add: Cons.prems)
  then show ?case using Cons.IH Cons.prems by (cases "h a"; cases "h' a") auto
qed simp

lemma path_frame: "\<forall>x. x \<notin> A \<longrightarrow> h' x = h x \<Longrightarrow> set as \<inter> A = {} \<Longrightarrow> path h' p as q = path h p as q"
  by (rule path_cong) auto

lemma backs_frame: "\<forall>x. x \<notin> A \<longrightarrow> h' x = h x \<Longrightarrow> set as \<inter> A = {} \<Longrightarrow> backs h' p as = backs h p as"
  by (rule backs_cong) auto

lemma path_dom: "path h p as q \<Longrightarrow> a \<in> set as \<Longrightarrow> \<exists>n. h a = Some n"
  by (induction as arbitrary: p) auto

lemma path_unique: "path h p as None \<Longrightarrow> path h p bs None \<Longrightarrow> as = bs"
proof (induction as arbitrary: p bs)
  case Nil
  then show ?case by (cases bs) auto
next
  case (Cons a as)
  then show ?case by (cases bs) auto
qed

lemma path_head: "path h p as None \<Longrightarrow> p = (if as = [] then None else Some (hd as))"
  by (cases as) auto

lemma dll_path: "dll h p as \<Longrightarrow> path h p as None" "dll h p as \<Longrightarrow> distinct as"
  by (simp_all add: dll_def)

lemma dll_Nil [simp]: "dll h p [] \<longleftrightarrow> p = None"
  by (auto simp: dll_def)

text \<open>What the links of a place in a list are.\<close>

lemma dll_nth:
  assumes "dll h p as" "i < length as"
  obtains n where "h (as ! i) = Some n" "n_next n = (if Suc i < length as then Some (as ! Suc i) else None)"
    "n_prev n = (if i = 0 then None else Some (as ! (i - 1)))"
proof -
  let ?f = "take i as" and ?r = "drop (Suc i) as"
  have as: "as = ?f @ as ! i # ?r" using id_take_nth_drop [OF assms(2)] .
  obtain q where "path h q (as ! i # ?r) None" using assms(1) as path_append [of h p ?f "as ! i # ?r" None] by (auto simp: dll_def)
  then obtain n where n: "h (as ! i) = Some n" "path h (n_next n) ?r None" by auto
  have "n_next n = (if Suc i < length as then Some (as ! Suc i) else None)"
    using path_head [OF n(2)] by (auto simp: hd_drop_conv_nth)
  moreover have "backs h (if ?f = [] then None else Some (last ?f)) (as ! i # ?r)"
    using assms(1) as backs_append [of h None ?f "as ! i # ?r"] by (auto simp: dll_def)
  then have "n_prev n = (if ?f = [] then None else Some (last ?f))" using n(1) by simp
  then have "n_prev n = (if i = 0 then None else Some (as ! (i - 1)))"
    using assms(2) by (auto simp: last_conv_nth)
  ultimately show ?thesis using that n(1) by blast
qed

text \<open>The last node, as every appending loop finds it.\<close>

partial_function (option) last_of :: "'a heap \<Rightarrow> nat \<Rightarrow> nat option" where
  "last_of h a = do { n \<leftarrow> h a; case n_next n of None \<Rightarrow> Some a | Some b \<Rightarrow> last_of h b }"

lemma last_of_path: "path h (Some a) (a # as) None \<Longrightarrow> last_of h a = Some (last (a # as))"
proof (induction as arbitrary: a)
  case Nil
  then show ?case by (subst last_of.simps) auto
next
  case (Cons b as)
  then show ?case by (subst last_of.simps) auto
qed

end
