(* ===== verification/MergeSort.thy ===== *)
theory MergeSort
  imports LinkedList "HOL-Library.Multiset"
begin

text \<open>
  The bottom-up merge sort of \<open>submenuSort\<close> in \<open>src/menusys.c\<close>, first on lists, where it is the stable sort of
  the library, and then on linked nodes, where it only changes links and refines the sort on lists. The
  comparison \<open>le\<close> says that the left item is taken.
\<close>

section \<open>On lists\<close>

fun smerge :: "('a \<Rightarrow> 'a \<Rightarrow> bool) \<Rightarrow> 'a list \<Rightarrow> 'a list \<Rightarrow> 'a list" where
  "smerge le [] ys = ys"
| "smerge le xs [] = xs"
| "smerge le (x # xs) (y # ys) = (if le x y then x # smerge le xs (y # ys) else y # smerge le (x # xs) ys)"

lemma smerge_Nil2 [simp]: "smerge le xs [] = xs"
  by (cases xs) simp_all

lemma mset_smerge [simp]: "mset (smerge le xs ys) = mset xs + mset ys"
  by (induction le xs ys rule: smerge.induct) auto

lemma set_smerge [simp]: "set (smerge le xs ys) = set xs \<union> set ys"
  by (induction le xs ys rule: smerge.induct) auto

lemma length_smerge [simp]: "length (smerge le xs ys) = length xs + length ys"
  by (induction le xs ys rule: smerge.induct) auto

abbreviation by_key :: "('a \<Rightarrow> 'k::linorder) \<Rightarrow> 'a \<Rightarrow> 'a \<Rightarrow> bool" where
  "by_key f x y \<equiv> f x \<le> f y"

lemma sorted_smerge:
  "sorted (map f xs) \<Longrightarrow> sorted (map f ys) \<Longrightarrow> sorted (map f (smerge (by_key f) xs ys))"
  by (induction "by_key f" xs ys rule: smerge.induct) (auto simp: le_less_trans less_imp_le dest: order.trans)

lemma filter_smerge:
  "sorted (map f xs) \<Longrightarrow> filter (\<lambda>x. k = f x) (smerge (by_key f) xs ys) = filter (\<lambda>x. k = f x) (xs @ ys)"
proof (induction "by_key f" xs ys rule: smerge.induct)
  case (3 x xs y ys)
  show ?case
  proof (cases "f x \<le> f y")
    case True
    then show ?thesis using 3 by auto
  next
    case False
    then have "filter (\<lambda>z. f y = f z) (x # xs) = []" using "3.prems" by (auto simp: filter_empty_conv)
    then show ?thesis using 3 False by (cases "k = f y") auto
  qed
qed auto

text \<open>One pass over runs of \<open>k\<close>, and the passes with \<open>k\<close> doubling.\<close>

function mpass :: "('a \<Rightarrow> 'a \<Rightarrow> bool) \<Rightarrow> nat \<Rightarrow> 'a list \<Rightarrow> 'a list" where
  "mpass le k xs =
     (if xs = [] \<or> k = 0 then xs
      else smerge le (take k xs) (take k (drop k xs)) @ mpass le k (drop k (drop k xs)))"
  by pat_completeness auto
termination
  by (relation "measure (\<lambda>(_, _, xs). length xs)") auto

declare mpass.simps [simp del]

function msort_from :: "('a \<Rightarrow> 'a \<Rightarrow> bool) \<Rightarrow> nat \<Rightarrow> 'a list \<Rightarrow> 'a list" where
  "msort_from le k xs = (if length xs \<le> 2 * k \<or> k = 0 then mpass le k xs else msort_from le (2 * k) (mpass le k xs))"
  by pat_completeness auto

lemma mset_mpass [simp]: "mset (mpass le k xs) = mset xs"
proof (induction le k xs rule: mpass.induct)
  case (1 le k xs)
  show ?case
  proof (cases "xs = [] \<or> k = 0")
    case False
    have "mset xs = mset (take k xs) + mset (take k (drop k xs)) + mset (drop k (drop k xs))"
      by (metis append_take_drop_id mset_append union_assoc)
    with False 1 show ?thesis by (subst mpass.simps) simp
  qed (subst mpass.simps, simp)
qed

lemma length_mpass [simp]: "length (mpass le k xs) = length xs"
  using mset_mpass by (metis size_mset)

termination msort_from
  by (relation "measure (\<lambda>(_, k, xs). length xs - k)") auto

declare msort_from.simps [simp del]

function runs :: "('a \<Rightarrow> 'k::linorder) \<Rightarrow> nat \<Rightarrow> 'a list \<Rightarrow> bool" where
  "runs f k xs \<longleftrightarrow> (if xs = [] \<or> k = 0 then True else sorted (map f (take k xs)) \<and> runs f k (drop k xs))"
  by pat_completeness auto
termination
  by (relation "measure (\<lambda>(_, _, xs). length xs)") auto

declare runs.simps [simp del]

lemma runs_Nil [simp]: "runs f k []"
  by (subst runs.simps) simp

lemma mpass_Nil [simp]: "mpass le k [] = []"
  by (subst mpass.simps) simp

lemma runs_one: "runs f 1 xs"
proof (induction xs)
  case (Cons x xs)
  then show ?case by (subst runs.simps) simp
qed simp

lemma sorted_runs_head: "runs f k xs \<Longrightarrow> 0 < k \<Longrightarrow> sorted (map f (take k xs)) \<and> runs f k (drop k xs)"
  by (subst (asm) runs.simps) (auto split: if_splits)

lemma mpass_runs:
  assumes "runs f k xs" "0 < k"
  shows "runs f (2 * k) (mpass (by_key f) k xs)
    \<and> filter (\<lambda>x. y = f x) (mpass (by_key f) k xs) = filter (\<lambda>x. y = f x) xs"
  using assms
proof (induction "by_key f" k xs rule: mpass.induct)
  case (1 k xs)
  show ?case
  proof (cases "xs = []")
    case True
    then show ?thesis by simp
  next
    case False
    let ?a = "take k xs" and ?b = "take k (drop k xs)" and ?r = "drop k (drop k xs)"
    let ?m = "smerge (by_key f) ?a ?b"
    have s: "sorted (map f ?a)" "sorted (map f ?b)" "runs f k ?r"
      using sorted_runs_head [OF "1.prems"] sorted_runs_head [of f k "drop k xs"] "1.prems"(2) by auto
    have ih: "runs f (2 * k) (mpass (by_key f) k ?r)"
        "filter (\<lambda>x. y = f x) (mpass (by_key f) k ?r) = filter (\<lambda>x. y = f x) ?r"
      using "1.hyps" [OF _ s(3)] False "1.prems"(2) by auto
    have m: "mpass (by_key f) k xs = ?m @ mpass (by_key f) k ?r" using False "1.prems"(2) by (subst mpass.simps) simp
    have t: "take (2 * k) (?m @ mpass (by_key f) k ?r) = ?m" "drop (2 * k) (?m @ mpass (by_key f) k ?r) = mpass (by_key f) k ?r"
    proof (atomize (full), cases "2 * k \<le> length xs")
      case False
      then have "?r = []" by simp
      then show "take (2 * k) (?m @ mpass (by_key f) k ?r) = ?m \<and> drop (2 * k) (?m @ mpass (by_key f) k ?r) = mpass (by_key f) k ?r"
        using False by simp
    qed simp
    have "runs f (2 * k) (mpass (by_key f) k xs)"
      unfolding m by (subst runs.simps) (simp only: t sorted_smerge [OF s(1,2)] ih(1) simp_thms if_True if_cancel)
    moreover have "filter (\<lambda>x. y = f x) xs = filter (\<lambda>x. y = f x) (?a @ ?b) @ filter (\<lambda>x. y = f x) ?r"
      by (metis append_take_drop_id append_assoc filter_append)
    ultimately show ?thesis unfolding m using filter_smerge [OF s(1)] ih(2) by simp
  qed
qed

lemma msort_from_sort:
  assumes "runs f k xs" "0 < k"
  shows "msort_from (by_key f) k xs = sort_key f xs"
  using assms
proof (induction "by_key f" k xs rule: msort_from.induct)
  case (1 k xs)
  note p = mpass_runs [OF "1.prems"]
  let ?m = "mpass (by_key f) k xs"
  show ?case
  proof (cases "length xs \<le> 2 * k")
    case True
    then have "sorted (map f ?m)" using sorted_runs_head [of f "2 * k" ?m] p "1.prems"(2) by simp
    then have "sort_key f xs = ?m" using p by (intro properties_for_sort_key) auto
    then show ?thesis using True "1.prems"(2) by (subst msort_from.simps) simp
  next
    case False
    have "filter (\<lambda>x. y = f x) (sort_key f xs) = filter (\<lambda>x. y = f x) xs" for y
      using sort_key_stable [of f y xs] by (simp add: eq_commute)
    then have "sort_key f ?m = sort_key f xs" using p by (intro properties_for_sort_key) auto
    then show ?thesis using False "1.hyps" p "1.prems"(2) by (subst msort_from.simps) simp
  qed
qed

section \<open>On linked nodes\<close>

text \<open>The list under construction: its first node, its last node and the heap.\<close>

type_synonym 'a building = "nat option \<times> nat option \<times> 'a heap"

definition place :: "nat \<Rightarrow> 'a building \<Rightarrow> 'a building option" where
  "place e b =
     (case b of (list, tail, h) \<Rightarrow>
        do {
          h1 \<leftarrow> (case tail of Some t \<Rightarrow> set_next t (Some e) h | None \<Rightarrow> Some h);
          h2 \<leftarrow> set_prev e tail h1;
          Some (if tail = None then Some e else list, Some e, h2)
        })"

definition node_next :: "'a heap \<Rightarrow> nat \<Rightarrow> nat option option" where
  "node_next h a = map_option n_next (h a)"

text \<open>The run of at most \<open>n\<close> nodes: its length and where it ends.\<close>

primrec skip_run :: "'a heap \<Rightarrow> nat \<Rightarrow> nat option \<Rightarrow> (nat \<times> nat option) option" where
  "skip_run h 0 q = Some (0, q)"
| "skip_run h (Suc n) q =
     (case q of
        None \<Rightarrow> Some (0, None)
      | Some a \<Rightarrow> do { r \<leftarrow> node_next h a; (m, q') \<leftarrow> skip_run h n r; Some (Suc m, q') })"

text \<open>Whether the left node is taken: the other run is over, or the comparison says so.\<close>

definition take_left :: "('a \<Rightarrow> 'a \<Rightarrow> bool) \<Rightarrow> 'a heap \<Rightarrow> nat \<Rightarrow> nat \<Rightarrow> nat option \<Rightarrow> bool option" where
  "take_left le h p qsize q =
     (case q of
        None \<Rightarrow> Some True
      | Some b \<Rightarrow>
          if qsize = 0 then Some True else do { x \<leftarrow> h p; y \<leftarrow> h b; Some (le (n_item x) (n_item y)) })"

function merge_loop :: "('a \<Rightarrow> 'a \<Rightarrow> bool) \<Rightarrow> nat \<Rightarrow> nat option \<Rightarrow> nat \<Rightarrow> nat option \<Rightarrow> 'a building
    \<Rightarrow> ('a building \<times> nat option) option" where
  "merge_loop le psize p qsize q b =
     (if psize = 0 then
        (case q of
           None \<Rightarrow> Some (b, q)
         | Some e \<Rightarrow>
             if qsize = 0 then Some (b, q)
             else do { q' \<leftarrow> node_next (snd (snd b)) e; b' \<leftarrow> place e b; merge_loop le 0 p (qsize - 1) q' b' })
      else
        (case p of
           None \<Rightarrow> None
         | Some a \<Rightarrow>
             do {
               left \<leftarrow> take_left le (snd (snd b)) a qsize q;
               if left then do { p' \<leftarrow> node_next (snd (snd b)) a; b' \<leftarrow> place a b; merge_loop le (psize - 1) p' qsize q b' }
               else (case q of
                       None \<Rightarrow> None
                     | Some e \<Rightarrow>
                         if qsize = 0 then None
                         else do { q' \<leftarrow> node_next (snd (snd b)) e; b' \<leftarrow> place e b; merge_loop le psize p (qsize - 1) q' b' })
             }))"
  by pat_completeness auto
termination
  by (relation "measure (\<lambda>(_, psize, _, qsize, _). psize + qsize)") auto

declare merge_loop.simps [simp del]

partial_function (option) pass_loop ::
  "('a \<Rightarrow> 'a \<Rightarrow> bool) \<Rightarrow> nat \<Rightarrow> nat option \<Rightarrow> nat \<Rightarrow> 'a building \<Rightarrow> ('a building \<times> nat) option" where
  "pass_loop le insize p nmerges b =
     (if p = None then Some (b, nmerges)
      else do {
        (psize, q) \<leftarrow> skip_run (snd (snd b)) insize p;
        (b', p') \<leftarrow> merge_loop le psize p insize q b;
        pass_loop le insize p' (nmerges + 1) b'
      })"

partial_function (option) sort_loop ::
  "('a \<Rightarrow> 'a \<Rightarrow> bool) \<Rightarrow> nat \<Rightarrow> nat option \<Rightarrow> 'a heap \<Rightarrow> (nat option \<times> 'a heap) option" where
  "sort_loop le insize list h =
     do {
       ((list', tail, h'), nmerges) \<leftarrow> pass_loop le insize list 0 (None, None, h);
       t \<leftarrow> tail;
       h'' \<leftarrow> set_next t None h';
       if nmerges \<le> 1 then Some (list', h'') else sort_loop le (2 * insize) list' h''
     }"

text \<open>The list is in order already.\<close>

partial_function (option) in_order :: "('a \<Rightarrow> 'a \<Rightarrow> bool) \<Rightarrow> 'a heap \<Rightarrow> nat \<Rightarrow> bool option" where
  "in_order le h a =
     do {
       n \<leftarrow> h a;
       case n_next n of
         None \<Rightarrow> Some True
       | Some b \<Rightarrow> do { m \<leftarrow> h b; if le (n_item n) (n_item m) then in_order le h b else Some False }
     }"

definition sort_nodes :: "('a \<Rightarrow> 'a \<Rightarrow> bool) \<Rightarrow> nat option \<Rightarrow> 'a heap \<Rightarrow> (nat option \<times> 'a heap) option" where
  "sort_nodes le list h =
     (case list of
        None \<Rightarrow> Some (list, h)
      | Some a \<Rightarrow>
          do {
            r \<leftarrow> node_next h a;
            if r = None then Some (list, h)
            else do { ok \<leftarrow> in_order le h a; if ok then Some (list, h) else sort_loop le 1 list h }
          })"

section \<open>The links while sorting\<close>

definition placed :: "'a heap \<Rightarrow> nat option \<Rightarrow> nat option \<Rightarrow> nat list \<Rightarrow> bool" where
  "placed h list tail ds \<longleftrightarrow> backs h None ds
     \<and> (if ds = [] then list = None \<and> tail = None
        else list = Some (hd ds) \<and> tail = Some (last ds) \<and> path h list (butlast ds) tail)"

definition same_items :: "'a heap \<Rightarrow> 'a heap \<Rightarrow> bool" where
  "same_items h' h \<longleftrightarrow> (\<forall>a. map_option n_item (h' a) = map_option n_item (h a))"

lemma same_items_refl [simp]: "same_items h h"
  by (simp add: same_items_def)

lemma same_items_trans: "same_items h2 h1 \<Longrightarrow> same_items h1 h \<Longrightarrow> same_items h2 h"
  by (simp add: same_items_def)

lemma same_items_at: "same_items h' h \<Longrightarrow> h a = Some n \<Longrightarrow> item_at h' a = item_at h a \<and> (\<exists>n'. h' a = Some n' \<and> n_item n' = n_item n)"
  unfolding same_items_def item_at_def by (drule spec [of _ a]) (cases "h' a", auto)

lemma same_items_item: "same_items h h0 \<Longrightarrow> h a = Some n \<Longrightarrow> item_at h0 a = n_item n"
  unfolding same_items_def item_at_def by (drule spec [of _ a]) (cases "h0 a", auto)

lemma place_ok:
  assumes "placed h list tail ds" "distinct (ds @ [e])" "h e = Some n"
  shows "\<exists>h'. place e (list, tail, h) = Some (Some (hd (ds @ [e])), Some e, h')
    \<and> placed h' (Some (hd (ds @ [e]))) (Some e) (ds @ [e]) \<and> same_items h' h \<and> (\<forall>a. a \<notin> set (ds @ [e]) \<longrightarrow> h' a = h a)"
proof (cases "ds = []")
  case True
  then show ?thesis using assms by (simp add: placed_def place_def set_prev_def same_items_def)
next
  case False
  then obtain bs d where ds: "ds = bs @ [d]" by (cases ds rule: rev_cases) auto
  have b: "backs h None ds" and l: "list = Some (hd ds)" "tail = Some d" "path h list bs (Some d)"
    using assms(1) ds by (auto simp: placed_def)
  have last_ds: "last ds = d" using ds by simp
  obtain m where m: "h d = Some m" using b ds by (auto simp: backs_append)
  let ?h = "h(d \<mapsto> m\<lparr>n_next := Some e\<rparr>, e \<mapsto> n\<lparr>n_prev := Some d\<rparr>)"
  have "path ?h list bs (Some d)" using l(3) assms(2) ds path_frame [of "{d, e}" ?h h bs] by auto
  then have "path ?h list ds (Some e)" using ds assms(2) by (simp add: path_append)
  moreover have "backs ?h None ds" by (rule backs_cong [THEN iffD2, OF _ b]) (use assms(2) m ds in auto)
  ultimately have "placed ?h (Some (hd (ds @ [e]))) (Some e) (ds @ [e])"
    using False l(1) last_ds by (simp add: placed_def backs_append)
  moreover have "place e (list, tail, h) = Some (Some (hd (ds @ [e])), Some e, ?h)"
    using l m assms(2,3) ds False by (auto simp: place_def set_next_def set_prev_def hd_append)
  moreover have "same_items ?h h" using m assms(3) by (simp add: same_items_def)
  ultimately show ?thesis using ds by (intro exI [of _ ?h]) auto
qed

definition merging ::
  "'a heap \<Rightarrow> nat option \<Rightarrow> nat option \<Rightarrow> nat list \<Rightarrow> nat list \<Rightarrow> nat option \<Rightarrow> nat list \<Rightarrow> nat option \<Rightarrow> bool" where
  "merging h list tail ds ps p qs q \<longleftrightarrow>
     placed h list tail ds \<and> (\<exists>r. path h p ps r) \<and> path h q qs None \<and> distinct (ds @ ps @ qs)"

lemma merging_left:
  assumes "merging h list tail ds (a # ps) p qs q"
  obtains n h' where "h a = Some n" "p = Some a" "place a (list, tail, h) = Some (Some (hd (ds @ [a])), Some a, h')"
    "merging h' (Some (hd (ds @ [a]))) (Some a) (ds @ [a]) ps (n_next n) qs q" "same_items h' h" "\<forall>x. x \<notin> set (ds @ [a]) \<longrightarrow> h' x = h x"
proof -
  obtain n r where n: "h a = Some n" "p = Some a" "path h (n_next n) ps r" using assms by (auto simp: merging_def)
  obtain h' where h': "place a (list, tail, h) = Some (Some (hd (ds @ [a])), Some a, h')"
      "placed h' (Some (hd (ds @ [a]))) (Some a) (ds @ [a])" "same_items h' h" "\<forall>x. x \<notin> set (ds @ [a]) \<longrightarrow> h' x = h x"
    using place_ok [of h list tail ds a n] assms n(1) by (auto simp: merging_def)
  have dj: "set ps \<inter> set (ds @ [a]) = {}" "set qs \<inter> set (ds @ [a]) = {}" using assms by (auto simp: merging_def)
  have "path h' (n_next n) ps r" "path h' q qs None"
    using n(3) assms by (simp_all add: path_frame [OF h'(4) dj(1)] path_frame [OF h'(4) dj(2)] merging_def)
  then have "merging h' (Some (hd (ds @ [a]))) (Some a) (ds @ [a]) ps (n_next n) qs q"
    using assms h'(2) by (auto simp: merging_def)
  then show ?thesis using that n h' by blast
qed

lemma merging_right:
  assumes "merging h list tail ds ps p (a # qs) q"
  obtains n h' where "h a = Some n" "q = Some a" "place a (list, tail, h) = Some (Some (hd (ds @ [a])), Some a, h')"
    "merging h' (Some (hd (ds @ [a]))) (Some a) (ds @ [a]) ps p qs (n_next n)" "same_items h' h" "\<forall>x. x \<notin> set (ds @ [a]) \<longrightarrow> h' x = h x"
proof -
  obtain n where n: "h a = Some n" "q = Some a" "path h (n_next n) qs None" using assms by (auto simp: merging_def)
  obtain h' where h': "place a (list, tail, h) = Some (Some (hd (ds @ [a])), Some a, h')"
      "placed h' (Some (hd (ds @ [a]))) (Some a) (ds @ [a])" "same_items h' h" "\<forall>x. x \<notin> set (ds @ [a]) \<longrightarrow> h' x = h x"
    using place_ok [of h list tail ds a n] assms n(1) by (auto simp: merging_def)
  obtain r where r: "path h p ps r" using assms by (auto simp: merging_def)
  have dj: "set ps \<inter> set (ds @ [a]) = {}" "set qs \<inter> set (ds @ [a]) = {}" using assms by (auto simp: merging_def)
  have "path h' (n_next n) qs None" "path h' p ps r"
    using n(3) r by (simp_all add: path_frame [OF h'(4) dj(1)] path_frame [OF h'(4) dj(2)])
  then have "merging h' (Some (hd (ds @ [a]))) (Some a) (ds @ [a]) ps p qs (n_next n)"
    using assms h'(2) by (auto simp: merging_def)
  then show ?thesis using that n h' by blast
qed

text \<open>What the merge of two runs has to leave.\<close>

definition merges_to ::
  "('a \<Rightarrow> 'a \<Rightarrow> bool) \<Rightarrow> 'a heap \<Rightarrow> 'a heap \<Rightarrow> nat list \<Rightarrow> nat list \<Rightarrow> nat list \<Rightarrow> nat \<Rightarrow> ('a building \<times> nat option) option \<Rightarrow> bool" where
  "merges_to le h0 h ds ps qs qsize res \<longleftrightarrow>
     (\<exists>list' tail' h' q'. res = Some ((list', tail', h'), q')
       \<and> placed h' list' tail' (ds @ smerge (\<lambda>a b. le (item_at h0 a) (item_at h0 b)) ps (take qsize qs))
       \<and> path h' q' (drop qsize qs) None \<and> same_items h' h0 \<and> (\<forall>x. x \<notin> set (ds @ ps @ take qsize qs) \<longrightarrow> h' x = h x))"

lemma merges_to_step:
  assumes "merges_to le h0 h' (ds @ [e]) ps' qs' qsize' res" "\<forall>x. x \<notin> set (ds @ [e]) \<longrightarrow> h' x = h x"
    and "smerge (\<lambda>a b. le (item_at h0 a) (item_at h0 b)) ps (take qsize qs)
      = e # smerge (\<lambda>a b. le (item_at h0 a) (item_at h0 b)) ps' (take qsize' qs')"
    and "drop qsize' qs' = drop qsize qs" "set (ps @ take qsize qs) = insert e (set (ps' @ take qsize' qs'))"
  shows "merges_to le h0 h ds ps qs qsize res"
proof -
  have "set (ds @ ps @ take qsize qs) = set ((ds @ [e]) @ ps' @ take qsize' qs')" using assms(5) by auto
  then show ?thesis using assms(1-4) unfolding merges_to_def by auto
qed

lemma merge_loop_right:
  assumes "merging h list tail ds ps p (e # qs) q" "ps = [] \<or> take_left le h (hd ps) (Suc j) q = Some False"
  obtains p' b h' where "merge_loop le (length ps) p (Suc j) q (list, tail, h) = merge_loop le (length ps) p j p' (fst b, snd b, h')"
    "merging h' (fst b) (snd b) (ds @ [e]) ps p qs p'" "same_items h' h" "\<forall>x. x \<notin> set (ds @ [e]) \<longrightarrow> h' x = h x"
proof -
  obtain n h' where n: "h e = Some n" "q = Some e" "place e (list, tail, h) = Some (Some (hd (ds @ [e])), Some e, h')"
      "merging h' (Some (hd (ds @ [e]))) (Some e) (ds @ [e]) ps p qs (n_next n)" "same_items h' h" "\<forall>x. x \<notin> set (ds @ [e]) \<longrightarrow> h' x = h x"
    using merging_right [OF assms(1)] by metis
  have "merge_loop le (length ps) p (Suc j) q (list, tail, h) = merge_loop le (length ps) p j (n_next n) (Some (hd (ds @ [e])), Some e, h')"
    using assms n(1-3) by (subst merge_loop.simps, cases ps) (auto simp: merging_def node_next_def)
  then show ?thesis using that [of "n_next n" "(Some (hd (ds @ [e])), Some e)"] n(4-6) by simp
qed

lemma merge_loop_left:
  assumes "merging h list tail ds (a # ps) p qs q" "take_left le h a qsize q = Some True"
  obtains p' b h' where "merge_loop le (Suc (length ps)) p qsize q (list, tail, h) = merge_loop le (length ps) p' qsize q (fst b, snd b, h')"
    "merging h' (fst b) (snd b) (ds @ [a]) ps p' qs q" "same_items h' h" "\<forall>x. x \<notin> set (ds @ [a]) \<longrightarrow> h' x = h x"
proof -
  obtain n h' where n: "h a = Some n" "p = Some a" "place a (list, tail, h) = Some (Some (hd (ds @ [a])), Some a, h')"
      "merging h' (Some (hd (ds @ [a]))) (Some a) (ds @ [a]) ps (n_next n) qs q" "same_items h' h" "\<forall>x. x \<notin> set (ds @ [a]) \<longrightarrow> h' x = h x"
    using merging_left [OF assms(1)] by metis
  have "merge_loop le (Suc (length ps)) p qsize q (list, tail, h) = merge_loop le (length ps) (n_next n) qsize q (Some (hd (ds @ [a])), Some a, h')"
    using assms(2) n(1-3) by (subst merge_loop.simps) (auto simp: node_next_def)
  then show ?thesis using that [of "n_next n" "(Some (hd (ds @ [a])), Some a)"] n(4-6) by simp
qed

lemma merge_loop_ok:
  assumes "merging h list tail ds ps p qs q" "same_items h h0"
  shows "merges_to le h0 h ds ps qs qsize (merge_loop le (length ps) p qsize q (list, tail, h))"
  using assms
proof (induction "length ps + qsize" arbitrary: h list tail ds ps p qs q qsize)
  case (0 ps qsize)
  then show ?case by (subst merge_loop.simps) (auto simp: merging_def merges_to_def split: option.split)
next
  case (Suc k)
  let ?le = "\<lambda>a b. le (item_at h0 a) (item_at h0 b)"
  note m = Suc.prems(1) and it = same_items_item [OF Suc.prems(2)]
  consider (stop) "ps = []" "qs = [] \<or> qsize = 0"
    | (right) e qs' j where "qs = e # qs'" "qsize = Suc j" "ps = [] \<or> \<not> ?le (hd ps) e"
    | (left) a ps' where "ps = a # ps'" "qs = [] \<or> qsize = 0 \<or> ?le a (hd qs)"
    by (cases ps; cases qs; cases qsize) auto
  then show ?case
  proof cases
    case stop
    then show ?thesis using m Suc.prems(2) by (subst merge_loop.simps) (auto simp: merging_def merges_to_def split: option.split)
  next
    case right
    have t: "ps = [] \<or> take_left le h (hd ps) (Suc j) q = Some False"
      using right m it by (cases ps) (auto simp: take_left_def merging_def)
    obtain p' b h' where n: "merge_loop le (length ps) p (Suc j) q (list, tail, h) = merge_loop le (length ps) p j p' (fst b, snd b, h')"
        "merging h' (fst b) (snd b) (ds @ [e]) ps p qs' p'" "same_items h' h" "\<forall>x. x \<notin> set (ds @ [e]) \<longrightarrow> h' x = h x"
      using merge_loop_right [OF m [unfolded right(1)] t] .
    have "smerge ?le ps (take qsize qs) = e # smerge ?le ps (take j qs')" using right by (cases ps) auto
    moreover have "merges_to le h0 h' (ds @ [e]) ps qs' j (merge_loop le (length ps) p qsize q (list, tail, h))"
      using Suc.hyps(1) [OF _ n(2) same_items_trans [OF n(3) Suc.prems(2)], of j] Suc.hyps(2) right(2) n(1) by simp
    ultimately show ?thesis using n(4) right by (intro merges_to_step [of le h0 h' ds e ps qs' j]) auto
  next
    case left
    have "take_left le h a qsize q = Some True" using left m it by (cases qs) (auto simp: take_left_def merging_def)
    then obtain p' b h' where n: "merge_loop le (Suc (length ps')) p qsize q (list, tail, h) = merge_loop le (length ps') p' qsize q (fst b, snd b, h')"
        "merging h' (fst b) (snd b) (ds @ [a]) ps' p' qs q" "same_items h' h" "\<forall>x. x \<notin> set (ds @ [a]) \<longrightarrow> h' x = h x"
      using merge_loop_left [OF m [unfolded left(1)]] by metis
    have "smerge ?le ps (take qsize qs) = a # smerge ?le ps' (take qsize qs)" using left by (cases qs; cases qsize) auto
    moreover have "merges_to le h0 h' (ds @ [a]) ps' qs qsize (merge_loop le (length ps) p qsize q (list, tail, h))"
      using Suc.hyps(1) [OF _ n(2) same_items_trans [OF n(3) Suc.prems(2)], of qsize] Suc.hyps(2) left(1) n(1) by simp
    ultimately show ?thesis using n(4) left by (intro merges_to_step [of le h0 h' ds a ps' qs qsize]) auto
  qed
qed

section \<open>Passes\<close>

lemma skip_run_ok:
  assumes "path h q xs None"
  shows "\<exists>q'. skip_run h n q = Some (length (take n xs), q') \<and> path h q (take n xs) q' \<and> path h q' (drop n xs) None"
  using assms
proof (induction n arbitrary: q xs)
  case (Suc n)
  show ?case
  proof (cases xs)
    case (Cons a ys)
    then obtain m where m: "q = Some a" "h a = Some m" "path h (n_next m) ys None" using Suc.prems by auto
    from Suc.IH [OF m(3)] Cons m show ?thesis by (auto simp: node_next_def)
  qed (use Suc.prems in auto)
qed simp

lemma set_mpass [simp]: "set (mpass le k xs) = set xs"
  using mset_mpass by (metis set_mset_mset)

text \<open>The number of merges tells whether one sufficed.\<close>

lemma pass_loop_ok:
  assumes "placed h list tail ds" "path h p ps None" "distinct (ds @ ps)" "0 < k" "same_items h h0"
  shows "\<exists>list' tail' h' m. pass_loop le k p nm (list, tail, h) = Some ((list', tail', h'), nm + m)
    \<and> placed h' list' tail' (ds @ mpass (\<lambda>a b. le (item_at h0 a) (item_at h0 b)) k ps)
    \<and> (m = 0 \<longleftrightarrow> ps = []) \<and> (m \<le> 1 \<longleftrightarrow> length ps \<le> 2 * k)
    \<and> same_items h' h0 \<and> (\<forall>x. x \<notin> set (ds @ ps) \<longrightarrow> h' x = h x)"
  using assms
proof (induction "\<lambda>a b. le (item_at h0 a) (item_at h0 b)" k ps arbitrary: h list tail ds p nm rule: mpass.induct)
  case (1 k ps)
  let ?le = "\<lambda>a b. le (item_at h0 a) (item_at h0 b)"
  show ?case
  proof (cases "ps = []")
    case True
    then show ?thesis using 1 by (subst pass_loop.simps) auto
  next
    case False
    let ?a = "take k ps" and ?qs = "drop k ps"
    obtain q where q: "skip_run h k p = Some (length ?a, q)" "path h p ?a q" "path h q ?qs None" using skip_run_ok [OF "1.prems"(2)] by blast
    have "distinct (ds @ ?a @ ?qs)" using "1.prems"(3) by simp
    then have "merging h list tail ds ?a p ?qs q" using "1.prems"(1) q by (auto simp: merging_def)
    from merge_loop_ok [OF this "1.prems"(5), of le k] obtain l' t' h' q' where
      m: "merge_loop le (length ?a) p k q (list, tail, h) = Some ((l', t', h'), q')" "placed h' l' t' (ds @ smerge ?le ?a (take k ?qs))"
        "path h' q' (drop k ?qs) None" "same_items h' h0" "\<forall>x. x \<notin> set (ds @ ?a @ take k ?qs) \<longrightarrow> h' x = h x"
      by (auto simp: merges_to_def)
    have d: "distinct ((ds @ smerge ?le ?a (take k ?qs)) @ drop k ?qs)"
    proof -
      have e: "ps = ?a @ take k ?qs @ drop k ?qs" by (metis append_take_drop_id)
      then have "mset ((ds @ smerge ?le ?a (take k ?qs)) @ drop k ?qs) = mset (ds @ ps)" by (metis mset_append mset_smerge union_assoc)
      then show ?thesis using "1.prems"(3) mset_eq_imp_distinct_iff by blast
    qed
    from "1.hyps" [OF _ m(2,3) d "1.prems"(4) m(4), of "nm + 1"] False "1.prems"(4) obtain l2 t2 h2 c where
      r: "pass_loop le k q' (nm + 1) (l', t', h') = Some ((l2, t2, h2), nm + 1 + c)"
        "placed h2 l2 t2 ((ds @ smerge ?le ?a (take k ?qs)) @ mpass ?le k (drop k ?qs))" "c = 0 \<longleftrightarrow> drop k ?qs = []" "same_items h2 h0"
        "\<forall>x. x \<notin> set ((ds @ smerge ?le ?a (take k ?qs)) @ drop k ?qs) \<longrightarrow> h2 x = h' x"
      by auto
    have "p \<noteq> None" using "1.prems"(2) False by (cases ps) auto
    then have "pass_loop le k p nm (list, tail, h) = Some ((l2, t2, h2), nm + (1 + c))"
      using q(1) m(1) r(1) by (subst pass_loop.simps) simp
    moreover have "mpass ?le k ps = smerge ?le ?a (take k ?qs) @ mpass ?le k (drop k ?qs)" using False "1.prems"(4) by (subst mpass.simps) simp
    moreover have "set ps = set ?a \<union> set (take k ?qs) \<union> set (drop k ?qs)" by (metis append_take_drop_id set_append Un_assoc)
    ultimately show ?thesis using r(2-5) m(5) False by (intro exI [of _ l2] exI [of _ t2] exI [of _ h2] exI [of _ "1 + c"]) auto
  qed
qed

lemma placed_close:
  assumes "placed h list tail ds" "ds \<noteq> []" "distinct ds"
  shows "tail = Some (last ds) \<and> (\<exists>h'. set_next (last ds) None h = Some h' \<and> dll h' list ds \<and> same_items h' h
    \<and> (\<forall>x. x \<notin> set ds \<longrightarrow> h' x = h x))"
proof -
  obtain bs d where ds: "ds = bs @ [d]" using assms(2) by (cases ds rule: rev_cases) auto
  have p: "backs h None ds" "tail = Some d" "path h list bs (Some d)" using assms ds by (auto simp: placed_def)
  obtain n where n: "h d = Some n" using p(1) ds by (auto simp: backs_append)
  let ?h = "h(d \<mapsto> n\<lparr>n_next := None\<rparr>)"
  have "path ?h list bs (Some d)" using p(3) assms(3) ds path_frame [of "{d}" ?h h bs] by auto
  then have "path ?h list ds None" using ds by (simp add: path_append)
  moreover have "backs ?h None ds" by (rule backs_cong [THEN iffD2, OF _ p(1)]) (use n in auto)
  ultimately have "dll ?h list ds" using assms(3) by (simp add: dll_def)
  then show ?thesis using n p(2) ds by (intro conjI exI [of _ ?h]) (auto simp: set_next_def same_items_def)
qed

lemma sort_loop_ok:
  assumes "path h p xs None" "distinct xs" "xs \<noteq> []" "0 < k" "same_items h h0"
  shows "\<exists>p' h'. sort_loop le k p h = Some (p', h') \<and> dll h' p' (msort_from (\<lambda>a b. le (item_at h0 a) (item_at h0 b)) k xs)
    \<and> same_items h' h0 \<and> (\<forall>x. x \<notin> set xs \<longrightarrow> h' x = h x)"
  using assms
proof (induction "\<lambda>a b. le (item_at h0 a) (item_at h0 b)" k xs arbitrary: h p rule: msort_from.induct)
  case (1 k xs)
  let ?le = "\<lambda>a b. le (item_at h0 a) (item_at h0 b)"
  let ?ys = "mpass ?le k xs"
  have "placed h None None []" by (simp add: placed_def)
  from pass_loop_ok [OF this "1.prems"(1) _ "1.prems"(4,5), of le 0] "1.prems"(2) obtain l t h1 m where
    r: "pass_loop le k p 0 (None, None, h) = Some ((l, t, h1), m)" "placed h1 l t ?ys" "m \<le> 1 \<longleftrightarrow> length xs \<le> 2 * k"
      "same_items h1 h0" "\<forall>x. x \<notin> set xs \<longrightarrow> h1 x = h x" by auto
  have ys: "?ys \<noteq> []" "distinct ?ys"
    using "1.prems"(2,3) length_mpass [of ?le k xs] mset_mpass [of ?le k xs] by (auto simp del: length_mpass mset_mpass dest: mset_eq_imp_distinct_iff)
  obtain h2 where h2: "t = Some (last ?ys)" "set_next (last ?ys) None h1 = Some h2" "dll h2 l ?ys" "same_items h2 h1" "\<forall>x. x \<notin> set ?ys \<longrightarrow> h2 x = h1 x"
    using placed_close [OF r(2) ys] by blast
  have it: "same_items h2 h0" using same_items_trans [OF h2(4) r(4)] .
  have step: "sort_loop le k p h = (if length xs \<le> 2 * k then Some (l, h2) else sort_loop le (2 * k) l h2)"
    using r(1,3) h2(1,2) by (subst sort_loop.simps) simp
  show ?case
  proof (cases "length xs \<le> 2 * k")
    case True
    then show ?thesis using step h2(3,5) it r(5) by (subst msort_from.simps) auto
  next
    case False
    have "\<exists>p' h'. sort_loop le (2 * k) l h2 = Some (p', h') \<and> dll h' p' (msort_from ?le (2 * k) ?ys)
        \<and> same_items h' h0 \<and> (\<forall>x. x \<notin> set ?ys \<longrightarrow> h' x = h2 x)"
      using False "1.prems"(4) h2(3) ys it by (intro "1.hyps") (auto dest: dll_path)
    then show ?thesis using step False h2(5) r(5) "1.prems"(4) by (subst msort_from.simps) auto
  qed
qed

lemma in_order_ok:
  "path h (Some a) (a # as) None \<Longrightarrow> in_order le h a = Some (successively (\<lambda>a b. le (item_at h a) (item_at h b)) (a # as))"
proof (induction as arbitrary: a)
  case Nil
  then show ?case by (subst in_order.simps) auto
next
  case (Cons b as)
  then obtain n m where n: "h a = Some n" "n_next n = Some b" "h b = Some m" by auto
  then show ?case using Cons by (subst in_order.simps) (auto simp: item_at_def)
qed

text \<open>The sort on linked nodes is the stable sort of the library.\<close>

lemma sort_nodes_ok:
  assumes "dll h p as" "\<And>x y. le x y \<longleftrightarrow> f x \<le> f y"
  shows "\<exists>p' h'. sort_nodes le p h = Some (p', h') \<and> dll h' p' (sort_key (\<lambda>a. f (item_at h a)) as)
    \<and> same_items h' h \<and> (\<forall>x. x \<notin> set as \<longrightarrow> h' x = h x)"
proof (cases as)
  case Nil
  then show ?thesis using assms(1) by (simp add: sort_nodes_def)
next
  case (Cons a bs)
  let ?f = "\<lambda>a. f (item_at h a)"
  have p: "p = Some a" "path h (Some a) (a # bs) None" "distinct as" using assms(1) Cons by (auto simp: dll_def)
  have o: "in_order le h a = Some (sorted (map ?f as))"
  proof -
    have "transp (\<lambda>a b. ?f a \<le> ?f b)" by (auto intro: transpI)
    then show ?thesis using in_order_ok [OF p(2), of le] successively_conv_sorted_wrt [of "\<lambda>a b. ?f a \<le> ?f b" as]
      unfolding Cons assms(2) sorted_wrt_map by simp
  qed
  obtain n where n: "h a = Some n" "n_next n = (if bs = [] then None else Some (hd bs))" using p(2) path_head [of h _ bs] by auto
  show ?thesis
  proof (cases "bs = [] \<or> sorted (map ?f as)")
    case True
    then have "sorted (map ?f as)" using Cons by auto
    then have "sort_key ?f as = as" by (rule sort_key_id_if_sorted)
    then show ?thesis using True assms(1) p(1) n o by (auto simp: sort_nodes_def node_next_def)
  next
    case False
    then show ?thesis
      using sort_loop_ok [OF p(2) _ _ zero_less_one same_items_refl, of le] Cons p(1,3) n o msort_from_sort [OF runs_one, of ?f as]
      by (auto simp: sort_nodes_def node_next_def assms(2))
  qed
qed

end
