(* ===== verification/MenuRows.thy ===== *)
theory MenuRows
  imports MergeSort CfgTitle "HOL-Library.List_Lexorder" "HOL-Library.Product_Lexorder"
begin

text \<open>
  The rows of a menu page, \<open>src/menusys.c\<close>: a doubly linked list of items with its operations, and the
  comparison and the sort of the rows. Allocations are arguments: the address of the new node and whether
  the two arrays of the artwork cache could be had.
\<close>

section \<open>Rows\<close>

record submenu_item =
  icon_id :: int
  it_text :: "cstring option"
  text_id :: int
  it_id :: int
  cache_id :: "int list option"
  cache_uid :: "int list option"
  cache_count :: nat
  cache_gen :: nat
  favourited :: bool
  isFolder :: bool
  lastPlayed :: int

text \<open>The loaded theme: its number of caches and its generation.\<close>

record theme_caches =
  gameCacheCount :: int
  artGeneration :: nat

definition rebuild_row :: "theme_caches option \<Rightarrow> bool \<times> bool \<Rightarrow> submenu_item \<Rightarrow> submenu_item" where
  "rebuild_row theme mem r =
     (let count = (case theme of None \<Rightarrow> 0 | Some t \<Rightarrow> gameCacheCount t);
          ok = (0 < count \<and> count \<le> 0xFFFFFFFF div 4 \<and> fst mem \<and> snd mem);
          fresh = (if ok then Some (replicate (nat count) (-1)) else None)
      in r\<lparr>cache_id := fresh, cache_uid := fresh, cache_count := (if ok then nat count else 0),
           cache_gen := (case theme of None \<Rightarrow> 0 | Some t \<Rightarrow> if ok then artGeneration t else 0)\<rparr>)"

partial_function (option) submenuRebuildCache ::
  "theme_caches option \<Rightarrow> (nat \<Rightarrow> bool \<times> bool) \<Rightarrow> nat option \<Rightarrow> submenu_item heap \<Rightarrow> submenu_item heap option" where
  "submenuRebuildCache theme mem submenu h =
     (case submenu of
        None \<Rightarrow> Some h
      | Some a \<Rightarrow>
          do {
            n \<leftarrow> h a;
            submenuRebuildCache theme mem (n_next n) (h(a \<mapsto> n\<lparr>n_item := rebuild_row theme (mem a) (n_item n)\<rparr>))
          })"

definition submenuAllocItem :: "theme_caches option \<Rightarrow> bool \<times> bool \<Rightarrow> int \<Rightarrow> cstring option \<Rightarrow> int \<Rightarrow> int \<Rightarrow> submenu_item" where
  "submenuAllocItem theme mem icon txt i tid =
     rebuild_row theme mem
       \<lparr>icon_id = icon, it_text = txt, text_id = tid, it_id = i, cache_id = None, cache_uid = None, cache_count = 0,
        cache_gen = 0, favourited = False, isFolder = False, lastPlayed = 0\<rparr>"

text \<open>Returns the head, the heap and the new row.\<close>

definition submenuAppendItem ::
  "theme_caches option \<Rightarrow> nat option \<Rightarrow> bool \<times> bool \<Rightarrow> int \<Rightarrow> cstring option \<Rightarrow> int \<Rightarrow> int \<Rightarrow> nat option \<times> submenu_item heap
    \<Rightarrow> (nat option \<times> submenu_item heap \<times> nat option) option" where
  "submenuAppendItem theme node mem icon txt i tid s =
     (let (submenu, h) = s; item = submenuAllocItem theme mem icon txt i tid in
      case submenu of
        None \<Rightarrow>
          (case node of
             None \<Rightarrow> Some (None, h, None)
           | Some a \<Rightarrow> Some (Some a, h(a \<mapsto> \<lparr>n_item = item, n_prev = None, n_next = None\<rparr>), Some a))
      | Some first \<Rightarrow>
          do {
            cur \<leftarrow> last_of h first;
            case node of
              None \<Rightarrow> Some (submenu, h, None)
            | Some a \<Rightarrow>
                do {
                  h' \<leftarrow> set_next cur (Some a) (h(a \<mapsto> \<lparr>n_item = item, n_prev = Some cur, n_next = None\<rparr>));
                  Some (submenu, h', Some a)
                }
          })"

partial_function (option) submenuFindItemByIdAndText ::
  "submenu_item heap \<Rightarrow> nat option \<Rightarrow> int \<Rightarrow> cstring option \<Rightarrow> nat option option" where
  "submenuFindItemByIdAndText h submenu i txt =
     (case submenu of
        None \<Rightarrow> Some None
      | Some cur \<Rightarrow>
          do {
            n \<leftarrow> h cur;
            if it_id (n_item n) = i \<and> txt \<noteq> None \<and> it_text (n_item n) = txt then Some (Some cur)
            else submenuFindItemByIdAndText h (n_next n) i txt
          })"

partial_function (option) remove_rows ::
  "int \<Rightarrow> nat option \<Rightarrow> nat option \<Rightarrow> nat option \<Rightarrow> submenu_item heap \<Rightarrow> (nat option \<times> submenu_item heap) option" where
  "remove_rows i prev cur submenu h =
     (case cur of
        None \<Rightarrow> Some (submenu, h)
      | Some c \<Rightarrow>
          do {
            n \<leftarrow> h c;
            if it_id (n_item n) = i then
              do {
                h1 \<leftarrow> (case prev of None \<Rightarrow> Some h | Some p \<Rightarrow> set_next p (n_next n) h);
                h2 \<leftarrow> (case n_next n of None \<Rightarrow> Some h1 | Some x \<Rightarrow> set_prev x prev h1);
                remove_rows i prev (n_next n) (if submenu = Some c then n_next n else submenu) (h2(c := None))
              }
            else remove_rows i (Some c) (n_next n) submenu h
          })"

definition submenuRemoveItem :: "int \<Rightarrow> nat option \<times> submenu_item heap \<Rightarrow> (nat option \<times> submenu_item heap) option" where
  "submenuRemoveItem i s = remove_rows i None (fst s) (fst s) (snd s)"

partial_function (option) destroy_rows :: "nat option \<Rightarrow> submenu_item heap \<Rightarrow> submenu_item heap option" where
  "destroy_rows cur h =
     (case cur of
        None \<Rightarrow> Some h
      | Some c \<Rightarrow> do { n \<leftarrow> h c; destroy_rows (n_next n) (h(c := None)) })"

definition submenuDestroy :: "nat option \<times> submenu_item heap \<Rightarrow> (nat option \<times> submenu_item heap) option" where
  "submenuDestroy s = do { h \<leftarrow> destroy_rows (fst s) (snd s); Some (None, h) }"

section \<open>Sorting\<close>

text \<open>The C library's comparison without case.\<close>

definition low_byte :: "cstring \<Rightarrow> nat" where
  "low_byte s = (case s of [] \<Rightarrow> 0 | c # _ \<Rightarrow> ord_of (tolower c))"

function strcasecmp :: "cstring \<Rightarrow> cstring \<Rightarrow> int" where
  "strcasecmp s t =
     (if low_byte s \<noteq> low_byte t \<or> low_byte t = 0 then int (low_byte s) - int (low_byte t) else strcasecmp (tl s) (tl t))"
  by pat_completeness auto
termination
  by (relation "measure (\<lambda>(_, t). length t)") (auto simp: low_byte_def split: list.splits)

declare strcasecmp.simps [simp del]

datatype autosort = AUTOSORT_OFF | AUTOSORT_AZ | AUTOSORT_LAST_PLAYED

text \<open>
  What the comparison reads: the setting, the translations, the kept titles and, for the names of the
  first console's games, \<open>vcdDisplayNameForRow\<close>.
\<close>

record sort_env =
  gAutosort :: autosort
  se_lang :: "int \<Rightarrow> cstring"
  se_titles_on :: bool
  se_titles :: "title_slot list"
  se_vcd :: "nat option \<Rightarrow> int \<Rightarrow> cstring \<Rightarrow> cstring"

definition named :: "submenu_item \<Rightarrow> bool" where
  "named r \<longleftrightarrow> text_id r \<ge> 0 \<or> it_text r \<noteq> None"

definition row_text :: "sort_env \<Rightarrow> submenu_item \<Rightarrow> cstring" where
  "row_text env r = (if text_id r \<ge> 0 then se_lang env (text_id r) else (case it_text r of Some t \<Rightarrow> t | None \<Rightarrow> []))"

definition sort_text :: "sort_env \<Rightarrow> nat option \<Rightarrow> submenu_item \<Rightarrow> cstring" where
  "sort_text env support r =
     (if isFolder r then row_text env r
      else cfgTitleSortName (se_titles_on env) (se_titles env) support (it_id r) (se_vcd env support (it_id r) (row_text env r)))"

definition submenuSortCompare :: "sort_env \<Rightarrow> nat option \<Rightarrow> submenu_item \<Rightarrow> submenu_item \<Rightarrow> int" where
  "submenuSortCompare env support a b =
     (if isFolder a \<noteq> isFolder b then if isFolder a then -1 else 1
      else if gAutosort env = AUTOSORT_LAST_PLAYED \<and> \<not> isFolder a \<and> lastPlayed a \<noteq> lastPlayed b then
        if lastPlayed a = 0 \<or> lastPlayed b = 0 then if lastPlayed a = 0 then 1 else -1
        else lastPlayed a - lastPlayed b
      else strcasecmp (sort_text env support a) (sort_text env support b))"

text \<open>\<open>modules\<close> gives the list support of a mode that is loaded.\<close>

definition submenuSort :: "sort_env \<Rightarrow> (int \<Rightarrow> nat option) \<Rightarrow> int \<Rightarrow> nat option \<times> submenu_item heap \<Rightarrow> (nat option \<times> submenu_item heap) option" where
  "submenuSort env modules mode s =
     (let support = (if mode_valid mode then modules mode else None) in
      sort_nodes (\<lambda>a b. submenuSortCompare env support a b \<le> 0) (fst s) (snd s))"

subsection \<open>The order\<close>

definition case_key :: "cstring \<Rightarrow> nat list" where
  "case_key s = map (\<lambda>c. ord_of (tolower c)) (takeWhile (\<lambda>c. c \<noteq> NUL) s)"

lemma ord_tolower_0: "ord_of (tolower c) = 0 \<longleftrightarrow> c = NUL"
proof (cases "isupper c")
  case True
  moreover have "\<not> isupper NUL" by (simp add: isupper_def ord_of_def)
  ultimately show ?thesis by (auto simp: tolower_def isupper_def Let_def)
next
  case False
  then show ?thesis using ord_of_eq_iff [of c NUL] by (simp add: tolower_def ord_of_def)
qed

lemma case_key_byte: "case_key s = (if low_byte s = 0 then [] else low_byte s # case_key (tl s))"
  using ord_tolower_0 by (cases s) (auto simp: case_key_def low_byte_def)

lemma strcasecmp_key: "strcasecmp s t \<le> 0 \<longleftrightarrow> case_key s \<le> case_key t"
proof (induction s t rule: strcasecmp.induct)
  case (1 s t)
  show ?case
  proof (cases "low_byte s \<noteq> low_byte t \<or> low_byte t = 0")
    case True
    then show ?thesis by (subst strcasecmp.simps, subst case_key_byte [of s], subst case_key_byte [of t]) auto
  next
    case False
    then show ?thesis using 1 by (subst strcasecmp.simps, subst case_key_byte [of s], subst case_key_byte [of t]) simp
  qed
qed

text \<open>Folders first, then the recent games, newest first, when they lead, then the text.\<close>

definition row_key :: "sort_env \<Rightarrow> nat option \<Rightarrow> submenu_item \<Rightarrow> bool \<times> (bool \<times> int) \<times> nat list" where
  "row_key env support r =
     (\<not> isFolder r,
      (if gAutosort env = AUTOSORT_LAST_PLAYED \<and> \<not> isFolder r then (lastPlayed r = 0, lastPlayed r) else (False, 0)),
      case_key (sort_text env support r))"

lemma submenuSortCompare_key: "submenuSortCompare env support a b \<le> 0 \<longleftrightarrow> row_key env support a \<le> row_key env support b"
  using strcasecmp_key by (auto simp: submenuSortCompare_def row_key_def)

text \<open>
  C36: sorting a page relinks its nodes and changes nothing else: the list that results is complete in both
  directions, its rows are the rows there were, in the order of folders, recency and name, and rows that
  compare equal keep their order.
\<close>

theorem submenuSort_stable:
  assumes "dll h submenu as" "\<forall>a \<in> set as. named (item_at h a)"
  shows "\<exists>submenu' h' as'. submenuSort env modules mode (submenu, h) = Some (submenu', h') \<and> dll h' submenu' as'
    \<and> as' = sort_key (\<lambda>a. row_key env (if mode_valid mode then modules mode else None) (item_at h a)) as
    \<and> items h' as' = items h as' \<and> (\<forall>x. x \<notin> set as \<longrightarrow> h' x = h x)"
proof -
  let ?f = "row_key env (if mode_valid mode then modules mode else None)"
  have "\<exists>p' h'. submenuSort env modules mode (submenu, h) = Some (p', h') \<and> dll h' p' (sort_key (\<lambda>a. ?f (item_at h a)) as)
    \<and> same_items h' h \<and> (\<forall>x. x \<notin> set as \<longrightarrow> h' x = h x)"
    unfolding submenuSort_def Let_def fst_conv snd_conv by (rule sort_nodes_ok [OF assms(1)]) (rule submenuSortCompare_key)
  then show ?thesis using assms(1) path_dom [of h submenu as None]
    by (fastforce simp: dll_def dest: same_items_at)
qed

definition sample_row :: "cstring \<Rightarrow> submenu_item" where
  "sample_row t = submenuAllocItem None (True, True) 0 (Some t) 1 (-1)"

definition sample_rows :: "submenu_item heap" where
  "sample_rows = [1 \<mapsto> \<lparr>n_item = sample_row ''b'', n_prev = None, n_next = Some 2\<rparr>,
     2 \<mapsto> \<lparr>n_item = sample_row ''A'', n_prev = Some 1, n_next = None\<rparr>]"

definition sample_env :: sort_env where
  "sample_env = \<lparr>gAutosort = AUTOSORT_AZ, se_lang = (\<lambda>_. []), se_titles_on = False, se_titles = [], se_vcd = (\<lambda>_ _ t. t)\<rparr>"

theorem submenuSort_stable_witness:
  "dll sample_rows (Some 1) [1, 2]
   \<and> (\<exists>submenu' h'. submenuSort sample_env (\<lambda>_. None) 8 (Some 1, sample_rows) = Some (submenu', h') \<and> dll h' submenu' [2, 1])"
proof -
  have d: "dll sample_rows (Some 1) [1, 2]" by (simp add: dll_def sample_rows_def)
  have i: "item_at sample_rows 1 = sample_row ''b''" "item_at sample_rows 2 = sample_row ''A''"
    by (simp_all add: item_at_def sample_rows_def)
  have k: "row_key sample_env None (sample_row ''b'') = (True, (False, 0), [98])" "row_key sample_env None (sample_row ''A'') = (True, (False, 0), [97])"
    by (simp_all add: row_key_def sample_env_def sample_row_def submenuAllocItem_def rebuild_row_def sort_text_def row_text_def
        cfgTitleSortName_def cfgTitleForRow_def case_key_def tolower_def isupper_def ord_of_def)
  have "sort_key (\<lambda>a. row_key sample_env None (item_at sample_rows a)) [1, 2] = [2, 1]" by (simp add: i [simplified] k)
  moreover have "\<forall>a \<in> set [1, 2]. named (item_at sample_rows a)"
    by (simp add: i [simplified] named_def sample_row_def submenuAllocItem_def rebuild_row_def)
  ultimately show ?thesis using d submenuSort_stable [OF d, of sample_env "\<lambda>_. None" 8] by auto
qed

section \<open>The list operations\<close>

lemma dll_snoc:
  assumes "dll h p as" "as \<noteq> []" "a \<notin> set as"
  obtains h' where "set_next (last as) (Some a) (h(a \<mapsto> \<lparr>n_item = x, n_prev = Some (last as), n_next = None\<rparr>)) = Some h'"
    "dll h' p (as @ [a])" "items h' (as @ [a]) = items h as @ [x]" "\<And>y. y \<notin> set (as @ [a]) \<Longrightarrow> h' y = h y"
proof -
  obtain bs d where as: "as = bs @ [d]" using assms(2) by (cases as rule: rev_cases) auto
  obtain n where n: "h d = Some n" using assms(1) as by (auto simp: dll_def path_append)
  let ?x = "\<lparr>n_item = x, n_prev = Some d, n_next = None\<rparr>"
  let ?h = "h(a \<mapsto> ?x, d \<mapsto> n\<lparr>n_next := Some a\<rparr>)"
  have s: "set_next (last as) (Some a) (h(a \<mapsto> \<lparr>n_item = x, n_prev = Some (last as), n_next = None\<rparr>)) = Some ?h"
    using n as assms(3) by (simp add: set_next_def)
  have "path ?h p bs (Some d)"
    using assms(1,3) as path_frame [of "{a, d}" ?h h bs p "Some d"] by (auto simp: dll_def path_append)
  moreover have "backs ?h None as"
    by (rule backs_cong [THEN iffD2, of _ _ h]) (use assms(1,3) as n in \<open>auto simp: dll_def\<close>)
  ultimately have "dll ?h p (as @ [a])"
    using assms(1,3) as n by (auto simp: dll_def path_append backs_append)
  moreover have "items ?h (as @ [a]) = items h as @ [x]" using assms(3) as n by (auto simp: item_at_def)
  ultimately show ?thesis using that s as by simp
qed

lemma submenuAppendItem_ok:
  assumes "dll h submenu as" "a \<notin> set as"
  shows "\<exists>submenu' h'. submenuAppendItem theme (Some a) mem icon txt i tid (submenu, h) = Some (submenu', h', Some a)
    \<and> dll h' submenu' (as @ [a]) \<and> items h' (as @ [a]) = items h as @ [submenuAllocItem theme mem icon txt i tid]
    \<and> (\<forall>y. y \<notin> set (as @ [a]) \<longrightarrow> h' y = h y)"
proof (cases as)
  case Nil
  then show ?thesis using assms(1) by (auto simp: submenuAppendItem_def dll_def item_at_def)
next
  case (Cons f bs)
  then have f: "submenu = Some f" "last_of h f = Some (last as)" using assms(1) last_of_path [of h f bs] by (auto simp: dll_def)
  have ne: "as \<noteq> []" using Cons by simp
  show ?thesis using f by (rule_tac dll_snoc [OF assms(1) ne assms(2), of "submenuAllocItem theme mem icon txt i tid"]) (auto simp: submenuAppendItem_def)
qed

lemma submenuFind_ok:
  assumes "path h submenu as None"
  shows "submenuFindItemByIdAndText h submenu i txt
    = Some (find (\<lambda>a. it_id (item_at h a) = i \<and> txt \<noteq> None \<and> it_text (item_at h a) = txt) as)"
  using assms
proof (induction as arbitrary: submenu)
  case Nil
  then show ?case by (subst submenuFindItemByIdAndText.simps) simp
next
  case (Cons a as)
  then obtain n where "submenu = Some a" "h a = Some n" "path h (n_next n) as None" by auto
  then show ?case using Cons.IH by (subst submenuFindItemByIdAndText.simps) (auto simp: item_at_def)
qed

lemma set_next_ok:
  assumes "h b = Some n"
  obtains h' where "set_next b v h = Some h'" "h' b = Some (n\<lparr>n_next := v\<rparr>)" "\<And>y. y \<noteq> b \<Longrightarrow> h' y = h y" "same_items h' h"
  using assms that [of "h(b \<mapsto> n\<lparr>n_next := v\<rparr>)"] by (auto simp: set_next_def same_items_def)

lemma set_prev_ok:
  assumes "h b = Some n"
  obtains h' where "set_prev b v h = Some h'" "h' b = Some (n\<lparr>n_prev := v\<rparr>)" "\<And>y. y \<noteq> b \<Longrightarrow> h' y = h y" "same_items h' h"
  using assms that [of "h(b \<mapsto> n\<lparr>n_prev := v\<rparr>)"] by (auto simp: set_prev_def same_items_def)

text \<open>The link on of the node before, or the head, is redirected.\<close>

lemma unlink_next:
  assumes "path h p (ks @ c # as) None" "distinct (ks @ c # as)" "h c = Some n"
  obtains h1 where "(case if ks = [] then None else Some (last ks) of None \<Rightarrow> Some h | Some b \<Rightarrow> set_next b (n_next n) h) = Some h1"
    "path h1 (if p = Some c then n_next n else p) (ks @ as) None" "same_items h1 h"
    "\<And>y. map_option n_prev (h1 y) = map_option n_prev (h y)" "\<And>y. y \<notin> set ks \<Longrightarrow> h1 y = h y"
proof (cases ks rule: rev_cases)
  case Nil
  then show ?thesis using assms that [of h] by auto
next
  case (snoc bs b)
  have p: "path h p bs (Some b)" "path h (n_next n) as None" using assms snoc by (auto simp: path_append)
  obtain m where m: "h b = Some m" using assms snoc by (auto simp: path_append)
  obtain h1 where h1: "set_next b (n_next n) h = Some h1" "h1 b = Some (m\<lparr>n_next := n_next n\<rparr>)" "\<And>y. y \<noteq> b \<Longrightarrow> h1 y = h y" "same_items h1 h"
    using set_next_ok [of h b m "n_next n", OF m] by blast
  have "p \<noteq> Some c" using assms(1,2) snoc by (cases bs) auto
  moreover have "path h1 p bs (Some b)" "path h1 (n_next n) as None"
    using p assms(2) snoc h1(3) path_frame [of "{b}" h1 h bs] path_frame [of "{b}" h1 h as] by auto
  moreover have "map_option n_prev (h1 y) = map_option n_prev (h y)" for y using h1(2,3) m by (cases "y = b") auto
  ultimately show ?thesis using that [of h1] h1 snoc by (auto simp: path_append)
qed

text \<open>The link back of the node after is redirected.\<close>

lemma unlink_prev:
  assumes "path h q as None" "distinct (ks @ c # as)" "backs h None ks" "backs h (Some c) as"
  defines "prev \<equiv> (if ks = [] then None else Some (last ks))"
  obtains h2 where "(case q of None \<Rightarrow> Some h | Some x \<Rightarrow> set_prev x prev h) = Some h2"
    "backs h2 None (ks @ as)" "same_items h2 h" "\<And>y. map_option n_next (h2 y) = map_option n_next (h y)" "\<And>y. y \<notin> set as \<Longrightarrow> h2 y = h y"
proof (cases as)
  case Nil
  then show ?thesis using assms that [of h] by auto
next
  case (Cons x xs)
  obtain m where m: "h x = Some m" "q = Some x" using assms(1) Cons by auto
  obtain h2 where h2: "set_prev x prev h = Some h2" "h2 x = Some (m\<lparr>n_prev := prev\<rparr>)" "\<And>y. y \<noteq> x \<Longrightarrow> h2 y = h y" "same_items h2 h"
    using set_prev_ok [of h x m prev, OF m(1)] by blast
  have "backs h2 None ks" "backs h2 (Some x) xs"
    using assms(2-4) Cons h2(3) backs_frame [of "{x}" h2 h ks] backs_frame [of "{x}" h2 h xs] by auto
  then have "backs h2 None (ks @ as)" using h2(2) Cons by (simp add: backs_append prev_def)
  moreover have "map_option n_next (h2 y) = map_option n_next (h y)" for y using h2(2,3) m by (cases "y = x") auto
  ultimately show ?thesis using that [of h2] h2 m Cons by auto
qed

lemma dll_unlink:
  assumes "dll h p (ks @ c # as)" "h c = Some n"
  defines "prev \<equiv> (if ks = [] then None else Some (last ks))"
  obtains h1 h2 where "(case prev of None \<Rightarrow> Some h | Some b \<Rightarrow> set_next b (n_next n) h) = Some h1"
    "(case n_next n of None \<Rightarrow> Some h1 | Some x \<Rightarrow> set_prev x prev h1) = Some h2"
    "dll (h2(c := None)) (if p = Some c then n_next n else p) (ks @ as)"
    "same_items (h2(c := None)) (h(c := None))" "\<And>y. y \<notin> set (ks @ c # as) \<Longrightarrow> h2 y = h y"
proof -
  have d: "path h p (ks @ c # as) None" "distinct (ks @ c # as)" "backs h None ks" "backs h (Some c) as" "path h (n_next n) as None"
    using assms(1,2) by (auto simp: dll_def backs_append path_append)
  obtain h1 where h1: "(case prev of None \<Rightarrow> Some h | Some b \<Rightarrow> set_next b (n_next n) h) = Some h1"
      "path h1 (if p = Some c then n_next n else p) (ks @ as) None" "same_items h1 h"
      "\<And>y. map_option n_prev (h1 y) = map_option n_prev (h y)" "\<And>y. y \<notin> set ks \<Longrightarrow> h1 y = h y"
    using unlink_next [OF d(1,2) assms(2)] unfolding prev_def by blast
  have b: "backs h1 None ks" "backs h1 (Some c) as" using d(3,4) h1(4) backs_cong [of _ h1 h] by auto
  have q: "path h1 (n_next n) as None" using d(2,5) h1(5) path_frame [of "set ks" h1 h as] by auto
  obtain h2 where h2: "(case n_next n of None \<Rightarrow> Some h1 | Some x \<Rightarrow> set_prev x prev h1) = Some h2"
      "backs h2 None (ks @ as)" "same_items h2 h1" "\<And>y. map_option n_next (h2 y) = map_option n_next (h1 y)" "\<And>y. y \<notin> set as \<Longrightarrow> h2 y = h1 y"
    using unlink_prev [OF q d(2) b] unfolding prev_def by blast
  have "path h2 (if p = Some c then n_next n else p) (ks @ as) None" using h1(2) h2(4) path_cong [of _ h2 h1] by auto
  then have "dll (h2(c := None)) (if p = Some c then n_next n else p) (ks @ as)"
    using h2(2) d(2) path_frame [of "{c}" "h2(c := None)" h2 "ks @ as"] backs_frame [of "{c}" "h2(c := None)" h2 "ks @ as"]
    by (auto simp: dll_def)
  moreover have "same_items (h2(c := None)) (h(c := None))" using same_items_trans [OF h2(3) h1(3)] by (simp add: same_items_def)
  ultimately show ?thesis using that h1(1,5) h2(1,5) by auto
qed

lemma remove_rows_ok:
  assumes "dll h submenu (ks @ as)" "cur = (if as = [] then None else Some (hd as))"
    and "prev = (if ks = [] then None else Some (last ks))"
  shows "\<exists>submenu' h'. remove_rows i prev cur submenu h = Some (submenu', h')
    \<and> dll h' submenu' (ks @ filter (\<lambda>a. it_id (item_at h a) \<noteq> i) as)
    \<and> (\<forall>a. map_option n_item (h' a) = (if a \<in> set as \<and> it_id (item_at h a) = i then None else map_option n_item (h a)))
    \<and> (\<forall>y. y \<notin> set (ks @ as) \<longrightarrow> h' y = h y)"
  using assms
proof (induction as arbitrary: h submenu ks cur prev)
  case Nil
  then show ?case by (subst remove_rows.simps) simp
next
  case (Cons c as)
  obtain n where n: "h c = Some n" using Cons.prems(1) by (auto simp: dll_def path_append)
  have nx: "n_next n = (if as = [] then None else Some (hd as))"
    using Cons.prems(1) n path_head [of h "n_next n" as] by (auto simp: dll_def path_append)
  have d: "c \<notin> set as" using Cons.prems(1) by (simp add: dll_def)
  show ?case
  proof (cases "it_id (n_item n) = i")
    case True
    obtain h1 h2 where u: "(case prev of None \<Rightarrow> Some h | Some b \<Rightarrow> set_next b (n_next n) h) = Some h1"
        "(case n_next n of None \<Rightarrow> Some h1 | Some x \<Rightarrow> set_prev x prev h1) = Some h2"
        "dll (h2(c := None)) (if submenu = Some c then n_next n else submenu) (ks @ as)"
        "same_items (h2(c := None)) (h(c := None))" "\<And>y. y \<notin> set (ks @ c # as) \<Longrightarrow> h2 y = h y"
      using dll_unlink [OF Cons.prems(1) n] unfolding Cons.prems(3) by metis
    define H where "H = h2(c := None)"
    have it: "map_option n_item (H a) = (if a = c then None else map_option n_item (h a))" for a
      using u(4) by (auto simp: same_items_def H_def split: if_splits)
    have item: "it_id (item_at H a) = it_id (item_at h a)" if "a \<in> set as" for a
    proof -
      have "H a \<noteq> None" using u(3) path_dom [of H _ "ks @ as" None a] that by (auto simp: dll_def H_def)
      then show ?thesis using it [of a] by (cases "h a"; cases "H a") (auto simp: item_at_def split: if_splits)
    qed
    have step: "remove_rows i prev cur submenu h = remove_rows i prev (n_next n) (if submenu = Some c then n_next n else submenu) H"
      using Cons.prems(2) n True u(1,2) by (subst remove_rows.simps) (simp add: H_def)
    have f: "filter (\<lambda>a. it_id (item_at H a) \<noteq> i) as = filter (\<lambda>a. it_id (item_at h a) \<noteq> i) (c # as)"
      using item n True by (auto simp: item_at_def [of h c] cong: filter_cong)
    have c: "it_id (item_at h c) = i" using n True by (simp add: item_at_def)
    have out: "H y = h y" if "y \<notin> set (ks @ c # as)" for y using u(5) [OF that] that by (simp add: H_def)
    obtain submenu' h' where r: "remove_rows i prev (n_next n) (if submenu = Some c then n_next n else submenu) H = Some (submenu', h')"
        "dll h' submenu' (ks @ filter (\<lambda>a. it_id (item_at H a) \<noteq> i) as)" "\<forall>y. y \<notin> set (ks @ as) \<longrightarrow> h' y = H y"
        "\<And>a. map_option n_item (h' a) = (if a \<in> set as \<and> it_id (item_at H a) = i then None else map_option n_item (H a))"
      using Cons.IH [OF u(3) [folded H_def] nx Cons.prems(3)] by blast
    have "map_option n_item (h' a) = (if a \<in> set (c # as) \<and> it_id (item_at h a) = i then None else map_option n_item (h a))" for a
      unfolding r(4) using it [of a] item [of a] c d by auto
    then show ?thesis using r(1-3) step f out by (intro exI [of _ submenu'] exI [of _ h']) auto
  next
    case False
    have step: "remove_rows i prev cur submenu h = remove_rows i (Some c) (n_next n) submenu h"
      using Cons.prems(2) n False by (subst remove_rows.simps) simp
    have c: "it_id (item_at h c) \<noteq> i" using n False by (simp add: item_at_def)
    have e: "(a \<in> set (c # as) \<and> it_id (item_at h a) = i) = (a \<in> set as \<and> it_id (item_at h a) = i)" for a using c by auto
    show ?thesis using Cons.IH [of h submenu "ks @ [c]" "n_next n" "Some c"] Cons.prems(1) nx c unfolding step e by simp
  qed
qed

lemma destroy_rows_ok:
  assumes "path h p as None" "distinct as"
  shows "destroy_rows p h = Some (\<lambda>a. if a \<in> set as then None else h a)"
  using assms
proof (induction as arbitrary: p h)
  case Nil
  then show ?case by (subst destroy_rows.simps) simp
next
  case (Cons a as)
  then obtain n where n: "p = Some a" "h a = Some n" "path h (n_next n) as None" by auto
  then have "path (h(a := None)) (n_next n) as None" using Cons.prems(2) path_frame [of "{a}" "h(a := None)" h as] by auto
  then have r: "destroy_rows (n_next n) (h(a := None)) = Some (\<lambda>x. if x \<in> set as then None else (h(a := None)) x)"
    by (rule Cons.IH) (use Cons.prems(2) in simp)
  have "destroy_rows p h = destroy_rows (n_next n) (h(a := None))" using n by (subst destroy_rows.simps) simp
  also note r
  finally show ?case by (simp add: fun_eq_iff)
qed

text \<open>Artwork caches: both arrays or none, of the recorded size.\<close>

definition caches_ok :: "submenu_item \<Rightarrow> bool" where
  "caches_ok r \<longleftrightarrow> (case (cache_id r, cache_uid r) of
      (Some xs, Some ys) \<Rightarrow> length xs = cache_count r \<and> length ys = cache_count r
    | (None, None) \<Rightarrow> cache_count r = 0
    | _ \<Rightarrow> False)"

lemma caches_ok_rebuild: "caches_ok (rebuild_row theme mem r)"
  by (simp add: caches_ok_def rebuild_row_def Let_def)

lemma submenuRebuildCache_ok:
  assumes "path h p as None" "distinct as"
  shows "\<exists>h'. submenuRebuildCache theme mem p h = Some h'
    \<and> (\<forall>a. h' a = (if a \<in> set as then map_option (\<lambda>n. n\<lparr>n_item := rebuild_row theme (mem a) (n_item n)\<rparr>) (h a) else h a))"
  using assms
proof (induction as arbitrary: p h)
  case Nil
  then show ?case by (subst submenuRebuildCache.simps) simp
next
  case (Cons a as)
  then obtain n where n: "p = Some a" "h a = Some n" "path h (n_next n) as None" by auto
  let ?h = "h(a \<mapsto> n\<lparr>n_item := rebuild_row theme (mem a) (n_item n)\<rparr>)"
  have "path ?h (n_next n) as None" using n(3) Cons.prems(2) path_frame [of "{a}" ?h h as] by auto
  then have "\<exists>h'. submenuRebuildCache theme mem (n_next n) ?h = Some h'
      \<and> (\<forall>x. h' x = (if x \<in> set as then map_option (\<lambda>n. n\<lparr>n_item := rebuild_row theme (mem x) (n_item n)\<rparr>) (?h x) else ?h x))"
    by (rule Cons.IH) (use Cons.prems(2) in simp)
  then obtain h' where h': "submenuRebuildCache theme mem (n_next n) ?h = Some h'"
      "\<forall>x. h' x = (if x \<in> set as then map_option (\<lambda>n. n\<lparr>n_item := rebuild_row theme (mem x) (n_item n)\<rparr>) (?h x) else ?h x)" by blast
  then show ?case using n Cons.prems(2) by (subst submenuRebuildCache.simps) auto
qed

text \<open>
  C37: the operations on the rows of a page are those of a list of rows: appending adds the new row at the
  end, finding gives the first row with the identifier and the text, removing frees exactly the rows with
  the identifier and keeps the order of the others, and destroying frees them all. The links stay complete
  in both directions, and nodes outside the list are not touched.
\<close>

theorem submenu_refines_list:
  assumes "dll h submenu as" "a \<notin> set as"
  shows "(\<exists>submenu' h'. submenuAppendItem theme (Some a) mem icon txt i tid (submenu, h) = Some (submenu', h', Some a)
      \<and> dll h' submenu' (as @ [a]) \<and> items h' (as @ [a]) = items h as @ [submenuAllocItem theme mem icon txt i tid]
      \<and> (\<forall>y. y \<notin> set (as @ [a]) \<longrightarrow> h' y = h y))
    \<and> submenuFindItemByIdAndText h submenu i txt
        = Some (find (\<lambda>a. it_id (item_at h a) = i \<and> txt \<noteq> None \<and> it_text (item_at h a) = txt) as)
    \<and> (\<exists>submenu' h'. submenuRemoveItem i (submenu, h) = Some (submenu', h')
        \<and> dll h' submenu' (filter (\<lambda>a. it_id (item_at h a) \<noteq> i) as)
        \<and> (\<forall>a. map_option n_item (h' a) = (if a \<in> set as \<and> it_id (item_at h a) = i then None else map_option n_item (h a)))
        \<and> (\<forall>y. y \<notin> set as \<longrightarrow> h' y = h y))
    \<and> submenuDestroy (submenu, h) = Some (None, \<lambda>a. if a \<in> set as then None else h a)"
proof (intro conjI)
  have p: "path h submenu as None" "distinct as" using assms(1) by (auto simp: dll_def)
  show "submenuFindItemByIdAndText h submenu i txt
      = Some (find (\<lambda>a. it_id (item_at h a) = i \<and> txt \<noteq> None \<and> it_text (item_at h a) = txt) as)" by (rule submenuFind_ok [OF p(1)])
  show "submenuDestroy (submenu, h) = Some (None, \<lambda>a. if a \<in> set as then None else h a)"
    using destroy_rows_ok [OF p] by (simp add: submenuDestroy_def)
  show "\<exists>submenu' h'. submenuRemoveItem i (submenu, h) = Some (submenu', h')
        \<and> dll h' submenu' (filter (\<lambda>a. it_id (item_at h a) \<noteq> i) as)
        \<and> (\<forall>a. map_option n_item (h' a) = (if a \<in> set as \<and> it_id (item_at h a) = i then None else map_option n_item (h a)))
        \<and> (\<forall>y. y \<notin> set as \<longrightarrow> h' y = h y)"
    using remove_rows_ok [of h submenu "[]" as submenu None i] assms(1) path_head [OF p(1)] by (simp add: submenuRemoveItem_def)
qed (rule submenuAppendItem_ok [OF assms])

theorem submenu_refines_list_witness:
  "dll sample_rows (Some 1) [1, 2] \<and> submenuDestroy (Some 1, sample_rows) = Some (None, \<lambda>a. if a \<in> set [1, 2] then None else sample_rows a)"
proof -
  have d: "dll sample_rows (Some 1) [1, 2]" by (simp add: dll_def sample_rows_def)
  moreover have "3 \<notin> set [1, 2::nat]" by simp
  ultimately show ?thesis using submenu_refines_list [OF d] by blast
qed

end
