(* ===== verification/MenuCursor.thy ===== *)
theory MenuCursor
  imports MenuRows Simulation "HOL-Library.Word"
begin

unbundle bit_operations_syntax

text \<open>
  The cursor of a menu page, \<open>src/menusys.c\<close>: the selected row and the first row of the screen are pointers
  into the linked rows, and every key moves them along the links. The specification has two positions in
  a list. Sounds and animations are left out.
\<close>

record menu_view =
  mv_rows :: "submenu_item heap"
  mv_displayed :: int
  mv_submenu :: "nat option"
  mv_current :: "nat option"
  mv_pagestart :: "nat option"
  mv_seed :: "32 word"

section \<open>Walking\<close>

text \<open>\<open>while (--itms && cur->prev) cur = cur->prev;\<close> and the same forwards.\<close>

partial_function (option) back_while :: "submenu_item heap \<Rightarrow> int \<Rightarrow> nat \<Rightarrow> nat option" where
  "back_while h itms cur =
     (if itms - 1 = 0 then Some cur
      else do { n \<leftarrow> h cur; case n_prev n of None \<Rightarrow> Some cur | Some b \<Rightarrow> back_while h (itms - 1) b })"

partial_function (option) fwd_while :: "submenu_item heap \<Rightarrow> int \<Rightarrow> nat \<Rightarrow> nat option" where
  "fwd_while h itms cur =
     (if itms - 1 = 0 then Some cur
      else do { n \<leftarrow> h cur; case n_next n of None \<Rightarrow> Some cur | Some b \<Rightarrow> fwd_while h (itms - 1) b })"

text \<open>Whether the selected row is among the next rows.\<close>

partial_function (option) on_page :: "submenu_item heap \<Rightarrow> int \<Rightarrow> nat option \<Rightarrow> nat option \<Rightarrow> bool option" where
  "on_page h itms cur current =
     (if itms - 1 = 0 then Some False
      else (case cur of
              None \<Rightarrow> Some False
            | Some a \<Rightarrow> if current = cur then Some True else do { n \<leftarrow> h a; on_page h (itms - 1) (n_next n) current }))"

partial_function (option) probe_past :: "submenu_item heap \<Rightarrow> int \<Rightarrow> nat option \<Rightarrow> nat option option" where
  "probe_past h n p =
     (if n = 0 then Some p
      else (case p of None \<Rightarrow> Some None | Some a \<Rightarrow> do { m \<leftarrow> h a; probe_past h (n - 1) (n_next m) }))"

section \<open>Keys\<close>

definition menuFirstPage :: "menu_view \<Rightarrow> menu_view option" where
  "menuFirstPage v =
     (case mv_current v of
        None \<Rightarrow> Some v
      | Some cur \<Rightarrow> do { _ \<leftarrow> mv_rows v cur; Some (v\<lparr>mv_current := mv_submenu v, mv_pagestart := mv_submenu v\<rparr>) })"

definition menuLastPage :: "menu_view \<Rightarrow> menu_view option" where
  "menuLastPage v =
     (case mv_current v of
        None \<Rightarrow> Some v
      | Some cur \<Rightarrow>
          do {
            l \<leftarrow> last_of (mv_rows v) cur;
            s \<leftarrow> back_while (mv_rows v) (mv_displayed v) l;
            Some (v\<lparr>mv_current := Some l, mv_pagestart := Some s\<rparr>)
          })"

definition menuNextV :: "menu_view \<Rightarrow> menu_view option" where
  "menuNextV v =
     (case mv_current v of
        None \<Rightarrow> menuFirstPage v
      | Some cur \<Rightarrow>
          do {
            n \<leftarrow> mv_rows v cur;
            case n_next n of
              None \<Rightarrow> menuFirstPage v
            | Some nx \<Rightarrow>
                do {
                  seen \<leftarrow> on_page (mv_rows v) (mv_displayed v + 1) (mv_pagestart v) (Some nx);
                  Some (if seen then v\<lparr>mv_current := Some nx\<rparr> else v\<lparr>mv_current := Some nx, mv_pagestart := Some nx\<rparr>)
                }
          })"

definition menuPrevV :: "menu_view \<Rightarrow> menu_view option" where
  "menuPrevV v =
     (case mv_current v of
        None \<Rightarrow> menuLastPage v
      | Some cur \<Rightarrow>
          do {
            n \<leftarrow> mv_rows v cur;
            case n_prev n of
              None \<Rightarrow> menuLastPage v
            | Some pv \<Rightarrow>
                if mv_pagestart v = Some cur then
                  do {
                    s \<leftarrow> back_while (mv_rows v) (mv_displayed v + 1) cur;
                    Some (v\<lparr>mv_current := Some pv, mv_pagestart := Some s\<rparr>)
                  }
                else Some (v\<lparr>mv_current := Some pv\<rparr>)
          })"

definition menuNextPage :: "menu_view \<Rightarrow> menu_view option" where
  "menuNextPage v =
     do {
       probe \<leftarrow> probe_past (mv_rows v) (mv_displayed v) (mv_pagestart v);
       case (mv_pagestart v, probe) of
         (Some cur, Some _) \<Rightarrow>
           do {
             s \<leftarrow> fwd_while (mv_rows v) (mv_displayed v + 1) cur;
             Some (v\<lparr>mv_current := Some s, mv_pagestart := Some s\<rparr>)
           }
       | _ \<Rightarrow> menuFirstPage v
     }"

definition menuPrevPage :: "menu_view \<Rightarrow> menu_view option" where
  "menuPrevPage v =
     (case mv_pagestart v of
        None \<Rightarrow> menuLastPage v
      | Some cur \<Rightarrow>
          do {
            n \<leftarrow> mv_rows v cur;
            if n_prev n = None then menuLastPage v
            else do {
              s \<leftarrow> back_while (mv_rows v) (mv_displayed v + 1) cur;
              Some (v\<lparr>mv_current := Some s, mv_pagestart := Some s\<rparr>)
            }
          })"

text \<open>The number of games among the rows, and the game with a number.\<close>

partial_function (option) count_games :: "submenu_item heap \<Rightarrow> nat \<Rightarrow> nat option \<Rightarrow> nat option" where
  "count_games h cnt cur =
     (case cur of
        None \<Rightarrow> Some cnt
      | Some a \<Rightarrow> do { n \<leftarrow> h a; count_games h (if isFolder (n_item n) then cnt else cnt + 1) (n_next n) })"

partial_function (option) pick_game :: "submenu_item heap \<Rightarrow> nat \<Rightarrow> nat option \<Rightarrow> nat option option" where
  "pick_game h pick cur =
     (case cur of
        None \<Rightarrow> Some None
      | Some a \<Rightarrow>
          do {
            n \<leftarrow> h a;
            if isFolder (n_item n) then pick_game h pick (n_next n)
            else if pick = 0 then Some (Some a)
            else pick_game h (pick - 1) (n_next n)
          })"

definition stir :: "32 word \<Rightarrow> 32 word \<Rightarrow> 32 word" where
  "stir clock seed =
     (let s1 = seed XOR (clock * 2654435761 + 1);
          s2 = s1 XOR push_bit 13 s1;
          s3 = s2 XOR drop_bit 17 s2
      in s3 XOR push_bit 5 s3)"

definition menuRandomGame :: "bool \<Rightarrow> 32 word \<Rightarrow> menu_view \<Rightarrow> (menu_view \<times> bool) option" where
  "menuRandomGame visible clock v =
     (if \<not> visible then Some (v, False)
      else do {
        cnt \<leftarrow> count_games (mv_rows v) 0 (mv_submenu v);
        if cnt = 0 then Some (v, False)
        else
          let seed = stir clock (mv_seed v) in
          do {
            cur \<leftarrow> pick_game (mv_rows v) (unat seed mod cnt) (mv_submenu v);
            Some (v\<lparr>mv_current := cur, mv_pagestart := cur, mv_seed := seed\<rparr>, True)
          }
      })"

datatype cursor_op = FirstPage | LastPage | NextV | PrevV | NextPage | PrevPage | RandomGame bool "32 word"

text \<open>The answer of a step: whether it went through.\<close>

definition done_or_fault :: "menu_view \<Rightarrow> menu_view option \<Rightarrow> menu_view \<times> bool" where
  "done_or_fault v r = (case r of Some v' \<Rightarrow> (v', True) | None \<Rightarrow> (v, False))"

primrec cursor_step :: "cursor_op \<Rightarrow> menu_view \<Rightarrow> menu_view \<times> bool" where
  "cursor_step FirstPage v = done_or_fault v (menuFirstPage v)"
| "cursor_step LastPage v = done_or_fault v (menuLastPage v)"
| "cursor_step NextV v = done_or_fault v (menuNextV v)"
| "cursor_step PrevV v = done_or_fault v (menuPrevV v)"
| "cursor_step NextPage v = done_or_fault v (menuNextPage v)"
| "cursor_step PrevPage v = done_or_fault v (menuPrevPage v)"
| "cursor_step (RandomGame visible clock) v = done_or_fault v (map_option fst (menuRandomGame visible clock v))"

section \<open>Positions\<close>

text \<open>The specification: which rows are folders, the rows on a screen, and the two positions.\<close>

record position =
  ps_folders :: "bool list"
  ps_displayed :: nat
  ps_cur :: nat
  ps_start :: nat
  ps_rand :: "32 word"

abbreviation ps_rows :: "position \<Rightarrow> nat" where
  "ps_rows p \<equiv> length (ps_folders p)"

definition jump :: "nat \<Rightarrow> nat \<Rightarrow> position \<Rightarrow> position" where
  "jump c s p = (if ps_rows p = 0 then p else p\<lparr>ps_cur := c, ps_start := s\<rparr>)"

definition games :: "position \<Rightarrow> nat list" where
  "games p = filter (\<lambda>i. \<not> ps_folders p ! i) [0..<ps_rows p]"

primrec position_step :: "cursor_op \<Rightarrow> position \<Rightarrow> position \<times> bool" where
  "position_step FirstPage p = (jump 0 0 p, True)"
| "position_step LastPage p = (jump (ps_rows p - 1) (ps_rows p - ps_displayed p) p, True)"
| "position_step NextV p =
     (if ps_cur p + 1 < ps_rows p
      then jump (ps_cur p + 1) (if ps_cur p + 1 < ps_start p + ps_displayed p then ps_start p else ps_cur p + 1) p
      else jump 0 0 p, True)"
| "position_step PrevV p =
     (if 0 < ps_cur p then jump (ps_cur p - 1) (if ps_start p = ps_cur p then ps_cur p - ps_displayed p else ps_start p) p
      else jump (ps_rows p - 1) (ps_rows p - ps_displayed p) p, True)"
| "position_step NextPage p =
     (if ps_start p + ps_displayed p < ps_rows p then jump (ps_start p + ps_displayed p) (ps_start p + ps_displayed p) p
      else jump 0 0 p, True)"
| "position_step PrevPage p =
     (if 0 < ps_start p then jump (ps_start p - ps_displayed p) (ps_start p - ps_displayed p) p
      else jump (ps_rows p - 1) (ps_rows p - ps_displayed p) p, True)"
| "position_step (RandomGame visible clock) p =
     (if visible \<and> games p \<noteq> [] then
        (let seed = stir clock (ps_rand p); g = games p ! (unat seed mod length (games p)) in (jump g g p)\<lparr>ps_rand := seed\<rparr>)
      else p, True)"

definition at_row :: "nat list \<Rightarrow> nat \<Rightarrow> nat option" where
  "at_row as i = (if i < length as then Some (as ! i) else None)"

text \<open>How a position is shown, given the rows.\<close>

definition shown_at :: "menu_view \<Rightarrow> nat list \<Rightarrow> position \<Rightarrow> bool" where
  "shown_at v as p \<longleftrightarrow> dll (mv_rows v) (mv_submenu v) as \<and> ps_folders p = map (\<lambda>a. isFolder (item_at (mv_rows v) a)) as
     \<and> mv_displayed v = int (ps_displayed p) \<and> 0 < ps_displayed p \<and> mv_seed v = ps_rand p
     \<and> mv_current v = at_row as (ps_cur p) \<and> mv_pagestart v = at_row as (ps_start p)
     \<and> (as \<noteq> [] \<longrightarrow> ps_start p \<le> ps_cur p \<and> ps_cur p < ps_start p + ps_displayed p \<and> ps_cur p < length as)"

definition shows_position :: "menu_view \<Rightarrow> position \<Rightarrow> bool" where
  "shows_position v p \<longleftrightarrow> (\<exists>as. shown_at v as p)"

section \<open>The walks reach the positions\<close>

lemma back_while_nth:
  assumes "dll h p as" "i < length as" "0 < n"
  shows "back_while h (int n) (as ! i) = Some (as ! (i - (n - 1)))"
  using assms(2,3)
proof (induction n arbitrary: i)
  case (Suc n)
  obtain m where m: "h (as ! i) = Some m" "n_prev m = (if i = 0 then None else Some (as ! (i - 1)))"
    using dll_nth [OF assms(1) Suc.prems(1)] by blast
  show ?case
  proof (cases "n = 0 \<or> i = 0")
    case True
    then show ?thesis using m by (subst back_while.simps) auto
  next
    case False
    then show ?thesis using Suc.IH [of "i - 1"] Suc.prems m by (subst back_while.simps) auto
  qed
qed simp

lemma fwd_while_nth:
  assumes "dll h p as" "i < length as" "0 < n"
  shows "fwd_while h (int n) (as ! i) = Some (as ! min (i + (n - 1)) (length as - 1))"
  using assms(2,3)
proof (induction n arbitrary: i)
  case (Suc n)
  obtain m where m: "h (as ! i) = Some m" "n_next m = (if Suc i < length as then Some (as ! Suc i) else None)"
    using dll_nth [OF assms(1) Suc.prems(1)] by blast
  show ?case
  proof (cases "n = 0 \<or> \<not> Suc i < length as")
    case True
    then have "min (i + (Suc n - 1)) (length as - 1) = i" using Suc.prems by auto
    then show ?thesis using True m by (subst fwd_while.simps) auto
  next
    case False
    then have "min (Suc i + (n - 1)) (length as - 1) = min (i + (Suc n - 1)) (length as - 1)" by auto
    then show ?thesis using Suc.IH [of "Suc i"] False m by (subst fwd_while.simps) auto
  qed
qed simp

lemma probe_past_nth:
  assumes "dll h p as"
  shows "probe_past h (int n) (at_row as i) = Some (at_row as (i + n))"
proof (induction n arbitrary: i)
  case 0
  then show ?case by (subst probe_past.simps) simp
next
  case (Suc n)
  show ?case
  proof (cases "i < length as")
    case True
    obtain m where m: "h (as ! i) = Some m" "n_next m = (if Suc i < length as then Some (as ! Suc i) else None)"
      using dll_nth [OF assms True] by blast
    then have "n_next m = at_row as (Suc i)" by (simp add: at_row_def)
    then show ?thesis using Suc [of "Suc i"] True m(1) by (subst probe_past.simps) (simp add: at_row_def)
  qed (subst probe_past.simps, simp add: at_row_def)
qed

lemma on_page_nth:
  assumes "dll h p as" "c < length as" "s \<le> c"
  shows "on_page h (int n + 1) (at_row as s) (Some (as ! c)) = Some (c < s + n)"
  using assms(2,3)
proof (induction n arbitrary: s)
  case 0
  then show ?case by (subst on_page.simps) simp
next
  case (Suc n)
  then have s: "s < length as" by simp
  obtain m where m: "h (as ! s) = Some m" "n_next m = (if Suc s < length as then Some (as ! Suc s) else None)"
    using dll_nth [OF assms(1) s] by blast
  then have nx: "n_next m = at_row as (Suc s)" by (simp add: at_row_def)
  have "as ! c = as ! s \<longleftrightarrow> c = s" using assms(1,2) s by (simp add: dll_def nth_eq_iff_index_eq)
  then show ?case using Suc.IH [of "Suc s"] Suc.prems s m(1) nx by (subst on_page.simps) (auto simp: at_row_def add.commute)
qed

lemma last_of_nth: "dll h p as \<Longrightarrow> i < length as \<Longrightarrow> last_of h (as ! i) = Some (last as)"
proof (induction "length as - i" arbitrary: i)
  case (Suc k)
  obtain m where m: "h (as ! i) = Some m" "n_next m = (if Suc i < length as then Some (as ! Suc i) else None)"
    using dll_nth [OF Suc.prems] by blast
  show ?case
  proof (cases "Suc i < length as")
    case True
    then show ?thesis using Suc m by (subst last_of.simps) simp
  next
    case False
    then have "i = length as - 1" "as \<noteq> []" using Suc.prems(2) by auto
    then show ?thesis using m False by (subst last_of.simps) (simp add: last_conv_nth)
  qed
qed simp

abbreviation game_rows :: "submenu_item heap \<Rightarrow> nat list \<Rightarrow> nat list" where
  "game_rows h as \<equiv> filter (\<lambda>a. \<not> isFolder (item_at h a)) as"

lemma count_games_path: "path h p as None \<Longrightarrow> count_games h k p = Some (k + length (game_rows h as))"
proof (induction as arbitrary: p k)
  case Nil
  then show ?case by (subst count_games.simps) simp
next
  case (Cons a as)
  then obtain n where "p = Some a" "h a = Some n" "path h (n_next n) as None" by auto
  then show ?case using Cons.IH by (subst count_games.simps) (simp add: item_at_def)
qed

lemma pick_game_path: "path h p as None \<Longrightarrow> k < length (game_rows h as) \<Longrightarrow> pick_game h k p = Some (Some (game_rows h as ! k))"
proof (induction as arbitrary: p k)
  case (Cons a as)
  then obtain n where n: "p = Some a" "h a = Some n" "path h (n_next n) as None" by auto
  then show ?case using Cons.IH [OF n(3)] Cons.prems(2) by (subst pick_game.simps) (auto simp: item_at_def nth_Cons' split: if_splits)
qed simp

text \<open>The games among the rows are the rows at the game positions.\<close>

lemma game_rows_nth:
  assumes "ps_folders p = map (\<lambda>a. isFolder (item_at h a)) as"
  shows "game_rows h as = map ((!) as) (games p)"
proof -
  have "game_rows h as = filter (\<lambda>a. \<not> isFolder (item_at h a)) (map ((!) as) [0..<length as])" by (simp add: map_nth)
  also have "\<dots> = map ((!) as) (filter (\<lambda>i. \<not> isFolder (item_at h (as ! i))) [0..<length as])" by (simp add: filter_map comp_def)
  also have "filter (\<lambda>i. \<not> isFolder (item_at h (as ! i))) [0..<length as] = games p"
    using assms by (auto simp: games_def intro!: filter_cong)
  finally show ?thesis .
qed

lemma games_less: "i < length (games p) \<Longrightarrow> games p ! i < ps_rows p"
  using nth_mem [of i "games p"] by (auto simp: games_def)

section \<open>Every key\<close>

lemma shown_at_jump:
  assumes "shown_at v as p" "as \<noteq> []" "s \<le> c" "c < s + ps_displayed p" "c < length as"
  shows "shown_at (v\<lparr>mv_current := Some (as ! c), mv_pagestart := Some (as ! s)\<rparr>) as (jump c s p)"
proof -
  have "ps_rows p = length as" using assms(1) by (simp add: shown_at_def)
  then show ?thesis using assms by (auto simp: shown_at_def jump_def at_row_def)
qed

lemma shown_at_keep:
  assumes "shown_at v as p" "as \<noteq> []" "ps_start p \<le> c" "c < ps_start p + ps_displayed p" "c < length as"
  shows "shown_at (v\<lparr>mv_current := Some (as ! c)\<rparr>) as (jump c (ps_start p) p)"
proof -
  have "ps_rows p = length as" using assms(1) by (simp add: shown_at_def)
  then show ?thesis using assms by (auto simp: shown_at_def jump_def at_row_def)
qed

lemma shown_at_seed: "shown_at v as p \<Longrightarrow> shown_at (v\<lparr>mv_seed := x\<rparr>) as (p\<lparr>ps_rand := x\<rparr>)"
  by (simp add: shown_at_def)

lemma menuFirstPage_at: "shown_at v as p \<Longrightarrow> \<exists>v'. menuFirstPage v = Some v' \<and> shown_at v' as (jump 0 0 p)"
proof (cases "as = []")
  case True
  moreover assume "shown_at v as p"
  ultimately show ?thesis by (auto simp: menuFirstPage_def shown_at_def at_row_def jump_def)
next
  case False
  assume s: "shown_at v as p"
  then obtain n where n: "mv_rows v (as ! ps_cur p) = Some n" using dll_nth [of "mv_rows v" "mv_submenu v" as "ps_cur p"] False by (auto simp: shown_at_def)
  have "mv_submenu v = Some (as ! 0)" using s False path_head [of "mv_rows v" "mv_submenu v" as] by (auto simp: shown_at_def dll_def hd_conv_nth)
  then show ?thesis using shown_at_jump [OF s False, of 0 0] s n False by (auto simp: menuFirstPage_def shown_at_def at_row_def)
qed

lemma menuLastPage_at:
  assumes s: "shown_at v as p"
  shows "\<exists>v'. menuLastPage v = Some v' \<and> shown_at v' as (jump (ps_rows p - 1) (ps_rows p - ps_displayed p) p)"
proof (cases "as = []")
  case True
  then show ?thesis using s by (auto simp: menuLastPage_def shown_at_def at_row_def jump_def)
next
  case False
  let ?n = "length as" and ?d = "ps_displayed p"
  have d: "dll (mv_rows v) (mv_submenu v) as" "0 < ?d" "mv_current v = Some (as ! ps_cur p)" "ps_cur p < ?n" "ps_rows p = ?n" "mv_displayed v = int ?d"
    using s False by (auto simp: shown_at_def at_row_def)
  have "back_while (mv_rows v) (int ?d) (as ! (?n - 1)) = Some (as ! (?n - 1 - (?d - 1)))"
    using back_while_nth [OF d(1) _ d(2)] False by simp
  moreover have "?n - 1 - (?d - 1) = ?n - ?d" using d(2) by simp
  moreover have "last_of (mv_rows v) (as ! ps_cur p) = Some (as ! (?n - 1))" using last_of_nth [OF d(1,4)] False by (simp add: last_conv_nth)
  ultimately show ?thesis using shown_at_jump [OF s False, of "?n - ?d" "?n - 1"] d False by (auto simp: menuLastPage_def)
qed

text \<open>The links at the two positions.\<close>

lemma shown_at_links:
  assumes s: "shown_at v as p" and ne: "as \<noteq> []"
  shows "mv_current v = Some (as ! ps_cur p)" "mv_pagestart v = Some (as ! ps_start p)" "ps_rows p = length as"
    "dll (mv_rows v) (mv_submenu v) as" "mv_displayed v = int (ps_displayed p)" "0 < ps_displayed p"
    "ps_start p \<le> ps_cur p" "ps_cur p < ps_start p + ps_displayed p" "ps_cur p < length as" "ps_start p < length as"
  using assms by (auto simp: shown_at_def at_row_def)

lemma menuNextV_at:
  assumes s: "shown_at v as p"
  shows "\<exists>v'. menuNextV v = Some v' \<and> shown_at v' as (fst (position_step NextV p))"
proof (cases "as = []")
  case True
  then show ?thesis using s menuFirstPage_at [OF s] by (auto simp: menuNextV_def shown_at_def at_row_def)
next
  case False
  note l = shown_at_links [OF s False]
  obtain n where n: "mv_rows v (as ! ps_cur p) = Some n" "n_next n = (if Suc (ps_cur p) < length as then Some (as ! Suc (ps_cur p)) else None)"
    using dll_nth [OF l(4,9)] by blast
  show ?thesis
  proof (cases "Suc (ps_cur p) < length as")
    case True
    let ?c = "Suc (ps_cur p)"
    have "on_page (mv_rows v) (mv_displayed v + 1) (mv_pagestart v) (Some (as ! ?c)) = Some (?c < ps_start p + ps_displayed p)"
      using on_page_nth [OF l(4) True, of "ps_start p" "ps_displayed p"] l by (simp add: at_row_def)
    then show ?thesis using shown_at_keep [OF s False, of ?c] shown_at_jump [OF s False, of ?c ?c] n l True
      by (auto simp: menuNextV_def)
  next
    case F: False
    then show ?thesis using menuFirstPage_at [OF s] n l by (auto simp: menuNextV_def)
  qed
qed

lemma menuPrevV_at:
  assumes s: "shown_at v as p"
  shows "\<exists>v'. menuPrevV v = Some v' \<and> shown_at v' as (fst (position_step PrevV p))"
proof (cases "as = []")
  case True
  then have "mv_current v = None" "ps_rows p = 0" using s by (auto simp: shown_at_def at_row_def)
  then show ?thesis using menuLastPage_at [OF s] by (auto simp: menuPrevV_def jump_def)
next
  case False
  note l = shown_at_links [OF s False]
  obtain n where n: "mv_rows v (as ! ps_cur p) = Some n" "n_prev n = (if ps_cur p = 0 then None else Some (as ! (ps_cur p - 1)))"
    using dll_nth [OF l(4,9)] by blast
  show ?thesis
  proof (cases "ps_cur p = 0")
    case True
    then show ?thesis using menuLastPage_at [OF s] n l by (auto simp: menuPrevV_def)
  next
    case F: False
    have e: "as ! ps_start p = as ! ps_cur p \<longleftrightarrow> ps_start p = ps_cur p" using l by (simp add: nth_eq_iff_index_eq dll_path)
    have b: "back_while (mv_rows v) (mv_displayed v + 1) (as ! ps_cur p) = Some (as ! (ps_cur p - ps_displayed p))"
      using back_while_nth [OF l(4,9), of "Suc (ps_displayed p)"] l(5) by (simp add: add.commute)
    show ?thesis
    proof (cases "ps_start p = ps_cur p")
      case True
      then show ?thesis using F n l b shown_at_jump [OF s False, of "ps_cur p - ps_displayed p" "ps_cur p - 1"] by (auto simp: menuPrevV_def)
    next
      case False
      then show ?thesis using F n l e shown_at_keep [OF s \<open>as \<noteq> []\<close>, of "ps_cur p - 1"] by (auto simp: menuPrevV_def)
    qed
  qed
qed

lemma menuNextPage_at:
  assumes s: "shown_at v as p"
  shows "\<exists>v'. menuNextPage v = Some v' \<and> shown_at v' as (fst (position_step NextPage p))"
proof -
  have d: "dll (mv_rows v) (mv_submenu v) as" "mv_pagestart v = at_row as (ps_start p)" "mv_displayed v = int (ps_displayed p)" "ps_rows p = length as"
      "0 < ps_displayed p"
    using s by (auto simp: shown_at_def)
  have pr: "probe_past (mv_rows v) (mv_displayed v) (mv_pagestart v) = Some (at_row as (ps_start p + ps_displayed p))"
    using probe_past_nth [OF d(1)] d(2,3) by simp
  show ?thesis
  proof (cases "ps_start p + ps_displayed p < length as")
    case True
    have ne: "as \<noteq> []" using True by auto
    have "min (ps_start p + ps_displayed p) (length as - 1) = ps_start p + ps_displayed p" using True by simp
    then have "fwd_while (mv_rows v) (mv_displayed v + 1) (as ! ps_start p) = Some (as ! (ps_start p + ps_displayed p))"
      using fwd_while_nth [OF d(1), of "ps_start p" "Suc (ps_displayed p)"] True d(3) by (simp add: add.commute [of 1])
    then show ?thesis using True pr d shown_at_jump [OF s ne, of "ps_start p + ps_displayed p" "ps_start p + ps_displayed p"]
      by (auto simp: menuNextPage_def at_row_def)
  next
    case False
    then show ?thesis using menuFirstPage_at [OF s] pr d by (auto simp: menuNextPage_def at_row_def)
  qed
qed

lemma menuPrevPage_at:
  assumes s: "shown_at v as p"
  shows "\<exists>v'. menuPrevPage v = Some v' \<and> shown_at v' as (fst (position_step PrevPage p))"
proof (cases "as = []")
  case True
  then have "mv_pagestart v = None" "ps_rows p = 0" using s by (auto simp: shown_at_def at_row_def)
  then show ?thesis using menuLastPage_at [OF s] by (auto simp: menuPrevPage_def jump_def)
next
  case False
  note l = shown_at_links [OF s False]
  obtain n where n: "mv_rows v (as ! ps_start p) = Some n" "n_prev n = (if ps_start p = 0 then None else Some (as ! (ps_start p - 1)))"
    using dll_nth [OF l(4,10)] by blast
  have "back_while (mv_rows v) (mv_displayed v + 1) (as ! ps_start p) = Some (as ! (ps_start p - ps_displayed p))"
    using back_while_nth [OF l(4,10), of "Suc (ps_displayed p)"] l(5) by (simp add: add.commute)
  then show ?thesis using n l menuLastPage_at [OF s] shown_at_jump [OF s False, of "ps_start p - ps_displayed p" "ps_start p - ps_displayed p"]
    by (auto simp: menuPrevPage_def)
qed

lemma menuRandomGame_at:
  assumes s: "shown_at v as p"
  shows "\<exists>v' b. menuRandomGame visible clock v = Some (v', b) \<and> shown_at v' as (fst (position_step (RandomGame visible clock) p))"
proof -
  have d: "path (mv_rows v) (mv_submenu v) as None" "mv_seed v = ps_rand p" "ps_rows p = length as" using s by (auto simp: shown_at_def dll_def)
  have g: "game_rows (mv_rows v) as = map ((!) as) (games p)" using s by (intro game_rows_nth) (simp add: shown_at_def)
  let ?seed = "stir clock (ps_rand p)"
  let ?k = "unat ?seed mod length (games p)"
  show ?thesis
  proof (cases "visible \<and> games p \<noteq> []")
    case True
    then have k: "?k < length (games p)" by simp
    have r: "games p ! ?k < length as" using games_less [OF k] d(3) by simp
    then have ne: "as \<noteq> []" by auto
    have "pick_game (mv_rows v) ?k (mv_submenu v) = Some (Some (as ! (games p ! ?k)))"
      using pick_game_path [OF d(1), of ?k] g k by simp
    then have "menuRandomGame visible clock v
        = Some (v\<lparr>mv_current := Some (as ! (games p ! ?k)), mv_pagestart := Some (as ! (games p ! ?k)), mv_seed := ?seed\<rparr>, True)"
      using True count_games_path [OF d(1), of 0] g d(2) by (simp add: menuRandomGame_def Let_def)
    moreover have "shown_at (v\<lparr>mv_current := Some (as ! (games p ! ?k)), mv_pagestart := Some (as ! (games p ! ?k)), mv_seed := ?seed\<rparr>) as
        ((jump (games p ! ?k) (games p ! ?k) p)\<lparr>ps_rand := ?seed\<rparr>)"
      using shown_at_seed [OF shown_at_jump [OF s ne order_refl _ r], of ?seed] shown_at_links(6) [OF s ne] by simp
    ultimately show ?thesis using True by (auto simp: Let_def)
  next
    case False
    then show ?thesis using s count_games_path [OF d(1), of 0] g by (auto simp: menuRandomGame_def)
  qed
qed

lemma position_step_answer [simp]: "snd (position_step op p) = True"
  by (cases op) simp_all

lemma cursor_step_at:
  assumes s: "shown_at v as p"
  shows "shown_at (fst (cursor_step op v)) as (fst (position_step op p)) \<and> snd (cursor_step op v) = snd (position_step op p)"
proof -
  have r: "shown_at (fst (done_or_fault v r)) as q \<and> snd (done_or_fault v r)" if "\<exists>v'. r = Some v' \<and> shown_at v' as q" for r q
    using that by (auto simp: done_or_fault_def)
  show ?thesis
  proof (cases op)
    case (RandomGame visible clock)
    then show ?thesis using menuRandomGame_at [OF s, of visible clock] r [of "map_option fst (menuRandomGame visible clock v)"]
      by (auto simp del: position_step.simps)
  qed (use r [OF menuFirstPage_at [OF s]] r [OF menuLastPage_at [OF s]] r [OF menuNextV_at [OF s]] r [OF menuPrevV_at [OF s]]
      r [OF menuNextPage_at [OF s]] r [OF menuPrevPage_at [OF s]] in simp_all)
qed

interpretation cursor: simulation cursor_step position_step shows_position "\<lambda>_. True"
  by unfold_locales (use cursor_step_at in \<open>unfold shows_position_def, blast+\<close>)

text \<open>A page as it is first shown: the cursor on the first row.\<close>

definition opened :: "menu_view \<Rightarrow> nat list \<Rightarrow> bool" where
  "opened v as \<longleftrightarrow> dll (mv_rows v) (mv_submenu v) as \<and> 0 < mv_displayed v \<and> mv_current v = mv_submenu v \<and> mv_pagestart v = mv_submenu v"

definition first_position :: "menu_view \<Rightarrow> nat list \<Rightarrow> position" where
  "first_position v as = \<lparr>ps_folders = map (\<lambda>a. isFolder (item_at (mv_rows v) a)) as, ps_displayed = nat (mv_displayed v),
     ps_cur = 0, ps_start = 0, ps_rand = mv_seed v\<rparr>"

lemma opened_shown: "opened v as \<Longrightarrow> shown_at v as (first_position v as)"
  using path_head [of "mv_rows v" "mv_submenu v" as] by (auto simp: opened_def shown_at_def first_position_def at_row_def dll_def hd_conv_nth)

lemma shown_at_run: "shown_at v as p \<Longrightarrow> shown_at (fst (run cursor_step ops v)) as (fst (run position_step ops p))"
  by (induction ops arbitrary: v p) (auto simp: case_prod_beta cursor_step_at)

lemma position_answers: "snd (run position_step ops p) = map (\<lambda>_. True) ops"
proof (induction ops arbitrary: p)
  case (Cons op ops)
  then show ?case by (simp add: case_prod_beta)
qed simp

text \<open>
  C38: whatever keys are pressed on a page, no key follows a bad link, the selected row is a row of the page
  and it is on the screen: at or after the first row shown, and within the number of rows shown.
\<close>

theorem menu_cursor_on_screen:
  assumes "opened v as" and "run cursor_step ops v = (v', rs)"
  shows "False \<notin> set rs \<and> (as \<noteq> [] \<longrightarrow> (\<exists>c s. c < length as \<and> mv_current v' = Some (as ! c) \<and> mv_pagestart v' = Some (as ! s)
    \<and> s \<le> c \<and> c < s + nat (mv_displayed v')))"
proof -
  note o = opened_shown [OF assms(1)]
  have "rs = map (\<lambda>_. True) ops"
    using cursor.same_answers [of v "first_position v as" ops] o assms(2) position_answers [of ops]
    by (auto simp: shows_position_def list_all_iff)
  moreover have "shown_at v' as (fst (run position_step ops (first_position v as)))" using shown_at_run [OF o, of ops] assms(2) by simp
  ultimately show ?thesis using shown_at_links [of v' as] by fastforce
qed

definition sample_view :: menu_view where
  "sample_view = \<lparr>mv_rows = sample_rows, mv_displayed = 1, mv_submenu = Some 1, mv_current = Some 1, mv_pagestart = Some 1, mv_seed = 0\<rparr>"

lemma sample_view_opened: "opened sample_view [1, 2]"
  by (simp add: opened_def sample_view_def dll_def sample_rows_def)

theorem menu_cursor_on_screen_witness:
  "opened sample_view [1, 2] \<and> (\<exists>c s. c < length [1, 2::nat] \<and> mv_current (fst (run cursor_step [NextV, PrevPage] sample_view)) = Some ([1, 2] ! c)
     \<and> mv_pagestart (fst (run cursor_step [NextV, PrevPage] sample_view)) = Some ([1, 2] ! s) \<and> s \<le> c)"
  using menu_cursor_on_screen [OF sample_view_opened, of "[NextV, PrevPage]" "fst (run cursor_step [NextV, PrevPage] sample_view)"
      "snd (run cursor_step [NextV, PrevPage] sample_view)"] sample_view_opened by auto

lemma next_positions:
  assumes "ps_cur p < ps_rows p"
  shows "ps_cur (fst (run position_step (replicate k NextV) p)) = (ps_cur p + k) mod ps_rows p"
  using assms
proof (induction k arbitrary: p)
  case (Suc k)
  define q where "q = fst (position_step NextV p)"
  have q: "ps_rows q = ps_rows p" "ps_cur q = (ps_cur p + 1) mod ps_rows p"
    using Suc.prems by (auto simp: q_def jump_def mod_if)
  then have "ps_cur (fst (run position_step (replicate k NextV) q)) = (ps_cur q + k) mod ps_rows p"
    using Suc.IH [of q] mod_less_divisor [of "ps_rows p"] Suc.prems by fastforce
  also have "(ps_cur q + k) mod ps_rows p = (ps_cur p + Suc k) mod ps_rows p" unfolding q by (simp add: mod_add_left_eq)
  finally show ?case by (simp add: case_prod_beta q_def del: position_step.simps)
qed simp

text \<open>
  Pressing down reaches every row: from the first row, \<open>k\<close> presses select row \<open>k\<close>, and after as many presses
  as there are rows the cursor is back on the first row.
\<close>

theorem menu_down_reaches_all:
  assumes "opened v as" "as \<noteq> []"
  shows "mv_current (fst (run cursor_step (replicate k NextV) v)) = Some (as ! (k mod length as))"
proof -
  let ?q = "fst (run position_step (replicate k NextV) (first_position v as))"
  have "ps_cur ?q = k mod length as"
    using next_positions [of "first_position v as" k] assms(2) by (simp add: first_position_def)
  moreover have "mv_current (fst (run cursor_step (replicate k NextV) v)) = Some (as ! ps_cur ?q)"
    using shown_at_links(1) [OF shown_at_run [OF opened_shown [OF assms(1)]] assms(2)] .
  ultimately show ?thesis by simp
qed

theorem menu_down_reaches_all_witness:
  "opened sample_view [1, 2] \<and> mv_current (fst (run cursor_step (replicate 3 NextV) sample_view)) = Some 2"
proof -
  have e: "[1, 2::nat] ! (3 mod length [1, 2::nat]) = 2" by code_simp
  have "mv_current (fst (run cursor_step (replicate 3 NextV) sample_view)) = Some ([1, 2] ! (3 mod length [1, 2::nat]))"
    by (rule menu_down_reaches_all [OF sample_view_opened]) simp
  then show ?thesis unfolding e using sample_view_opened by blast
qed

end
