(* ===== verification/MenuPages.thy ===== *)
theory MenuPages
  imports MenuRows FolderNav
begin

text \<open>
  The pages of the menu, \<open>src/menusys.c\<close>: a doubly linked ring of device pages kept in one order, and the
  selected page. Leaving a page takes its folder browsing back to the root (\<open>FolderNav\<close>) and posts a
  rebuild. Of a page the model has its identity, its list support (mode and whether it is started) and
  its title.
\<close>

record menu_page =
  mp_item :: nat
  mp_mode :: "int option"
  mp_enabled :: bool
  mp_visible :: bool
  mp_text :: "cstring option"
  mp_text_id :: int

record menu_settings =
  gAllGames_on :: bool
  gPCShareName :: cstring
  gDefaultDevice :: int
  gEnableFolderNav :: bool
  itemTextId :: "int \<Rightarrow> int"

record menu_state =
  ms_pages :: "menu_page heap"
  ms_menu :: "nat option"
  ms_selected :: "nat option"
  ms_itemConfigId :: int
  ms_itemConfigGeneration :: "32 word"
  ms_folders :: folder_state
  ms_posted :: "int list"

section \<open>Registration\<close>

definition menuDevicePageRank :: "menu_page \<Rightarrow> nat" where
  "menuDevicePageRank item =
     (case mp_mode item of
        None \<Rightarrow> 6
      | Some mode \<Rightarrow>
          if BDM_MODE \<le> mode \<and> mode \<le> BDM_MODE_LAST then 0
          else if mode = MMCE_MODE then 1
          else if mode = HDD_MODE then 2
          else if mode = ETH_MODE \<or> mode = UDPFS_MODE \<or> mode = HTTP_MODE then 3
          else if mode = APP_MODE then 4
          else if mode = FAV_MODE then 5
          else 6)"

text \<open>The last page that stays before a new one of this rank.\<close>

partial_function (option) insert_after :: "menu_page heap \<Rightarrow> nat \<Rightarrow> nat \<Rightarrow> nat option" where
  "insert_after h rank cur =
     do {
       n \<leftarrow> h cur;
       case n_next n of
         None \<Rightarrow> Some cur
       | Some b \<Rightarrow> do { m \<leftarrow> h b; if menuDevicePageRank (n_item m) \<le> rank then insert_after h rank b else Some cur }
     }"

definition menuAppendItem :: "nat option \<Rightarrow> menu_page \<Rightarrow> menu_state \<Rightarrow> menu_state option" where
  "menuAppendItem newitem item s =
     (case newitem of
        None \<Rightarrow> Some s
      | Some a \<Rightarrow>
          let h = ms_pages s; rank = menuDevicePageRank item in
          (case ms_menu s of
             None \<Rightarrow>
               Some (s\<lparr>ms_pages := h(a \<mapsto> \<lparr>n_item = item, n_prev = None, n_next = None\<rparr>), ms_menu := Some a, ms_selected := Some a\<rparr>)
           | Some m \<Rightarrow>
               do {
                 n \<leftarrow> h m;
                 if rank < menuDevicePageRank (n_item n) then
                   do {
                     h' \<leftarrow> set_prev m (Some a) (h(a \<mapsto> \<lparr>n_item = item, n_prev = None, n_next = Some m\<rparr>));
                     Some (s\<lparr>ms_pages := h', ms_menu := Some a\<rparr>)
                   }
                 else do {
                   cur \<leftarrow> insert_after h rank m;
                   c \<leftarrow> h cur;
                   let h1 = h(a \<mapsto> \<lparr>n_item = item, n_prev = Some cur, n_next = n_next c\<rparr>);
                   h2 \<leftarrow> (case n_next c of None \<Rightarrow> Some h1 | Some b \<Rightarrow> set_prev b (Some a) h1);
                   h3 \<leftarrow> set_next cur (Some a) h2;
                   Some (s\<lparr>ms_pages := h3\<rparr>)
                 }
               }))"

definition menuHasRegisteredItems :: "menu_state \<Rightarrow> bool" where
  "menuHasRegisteredItems s \<longleftrightarrow> ms_menu s \<noteq> None"

section \<open>Which pages are shown\<close>

definition menuItemShown :: "menu_settings \<Rightarrow> menu_page \<Rightarrow> bool" where
  "menuItemShown g item \<longleftrightarrow>
     (if \<not> mp_visible item then False
      else if \<not> gAllGames_on g then True
      else (case mp_mode item of
              None \<Rightarrow> True
            | Some mode \<Rightarrow>
                if \<not> mp_enabled item then True
                else if BDM_MODE \<le> mode \<and> mode \<le> BDM_MODE_LAST then False
                else if mode \<in> {HDD_MODE, MMCE_MODE, UDPFS_MODE, HTTP_MODE, APP_MODE} then False
                else if mode = ETH_MODE then gPCShareName g = []
                else True))"

definition menuIsFavPage :: "menu_page heap \<Rightarrow> nat option \<Rightarrow> bool" where
  "menuIsFavPage h page = (case page of None \<Rightarrow> False | Some a \<Rightarrow> (case h a of None \<Rightarrow> False | Some n \<Rightarrow> mp_mode (n_item n) = Some FAV_MODE))"

text \<open>The first page from here on for which the test holds.\<close>

partial_function (option) first_page :: "menu_page heap \<Rightarrow> (nat \<Rightarrow> menu_page \<Rightarrow> bool) \<Rightarrow> nat option \<Rightarrow> nat option option" where
  "first_page h P cur =
     (case cur of
        None \<Rightarrow> Some None
      | Some a \<Rightarrow> do { n \<leftarrow> h a; if P a (n_item n) then Some (Some a) else first_page h P (n_next n) })"

partial_function (option) last_page :: "menu_page heap \<Rightarrow> (nat \<Rightarrow> menu_page \<Rightarrow> bool) \<Rightarrow> nat option \<Rightarrow> nat option option" where
  "last_page h P cur =
     (case cur of
        None \<Rightarrow> Some None
      | Some a \<Rightarrow> do { n \<leftarrow> h a; if P a (n_item n) then Some (Some a) else last_page h P (n_prev n) })"

definition refreshMenuPosition :: "menu_settings \<Rightarrow> menu_state \<Rightarrow> menu_state option" where
  "refreshMenuPosition g s =
     (let h = ms_pages s; target = (if gAllGames_on g then FAV_MODE else if menuIsFavPage h (ms_selected s) then gDefaultDevice g else -1) in
      if ms_menu s = None then Some s
      else do {
        kept \<leftarrow> first_page h (\<lambda>a p. Some a = ms_selected s \<and> menuItemShown g p) (ms_menu s);
        if kept \<noteq> None then Some s
        else do {
          wanted \<leftarrow> first_page h (\<lambda>a p. mp_mode p = Some target \<and> menuItemShown g p) (ms_menu s);
          if wanted \<noteq> None then Some (s\<lparr>ms_selected := wanted\<rparr>)
          else do {
            cur \<leftarrow> first_page h (\<lambda>a p. menuItemShown g p) (ms_menu s);
            Some (s\<lparr>ms_selected := (if cur = None then ms_menu s else cur)\<rparr>)
          }
        }
      })"

definition menuSetSelectedItem :: "nat \<Rightarrow> menu_state \<Rightarrow> menu_state option" where
  "menuSetSelectedItem item s =
     do {
       itm \<leftarrow> first_page (ms_pages s) (\<lambda>a p. mp_item p = item) (ms_menu s);
       Some (if itm = None then s else s\<lparr>ms_selected := itm\<rparr>)
     }"

section \<open>Moving between pages\<close>

definition menuFolderResetLeaving :: "menu_settings \<Rightarrow> nat option \<Rightarrow> menu_state \<Rightarrow> menu_state option" where
  "menuFolderResetLeaving g leaving s =
     (case leaving of
        None \<Rightarrow> Some s
      | Some a \<Rightarrow>
          do {
            n \<leftarrow> ms_pages s a;
            Some (case mp_mode (n_item n) of
                    None \<Rightarrow> s
                  | Some mode \<Rightarrow>
                      if \<not> folderModeSupported mode \<or> folderDepth (gEnableFolderNav g) mode (ms_folders s) = 0 then s
                      else s\<lparr>ms_folders := folderReset mode (ms_folders s),
                             ms_pages := (ms_pages s)(a \<mapsto> n\<lparr>n_item := (n_item n)\<lparr>mp_text := None, mp_text_id := itemTextId g mode\<rparr>\<rparr>),
                             ms_posted := ms_posted s @ [mode]\<rparr>)
          })"

definition go_to_page :: "menu_settings \<Rightarrow> nat option \<Rightarrow> menu_state \<Rightarrow> menu_state option" where
  "go_to_page g target s =
     (if target = None then Some s
      else do {
        s' \<leftarrow> menuFolderResetLeaving g (ms_selected s) s;
        Some (s'\<lparr>ms_selected := target, ms_itemConfigId := -1, ms_itemConfigGeneration := ms_itemConfigGeneration s' + 1\<rparr>)
      })"

definition menuNextH :: "menu_settings \<Rightarrow> menu_state \<Rightarrow> menu_state option" where
  "menuNextH g s =
     (case ms_selected s of
        None \<Rightarrow> Some s
      | Some a \<Rightarrow>
          do {
            n \<leftarrow> ms_pages s a;
            next \<leftarrow> first_page (ms_pages s) (\<lambda>_ p. menuItemShown g p) (n_next n);
            go_to_page g next s
          })"

definition menuPrevH :: "menu_settings \<Rightarrow> menu_state \<Rightarrow> menu_state option" where
  "menuPrevH g s =
     (case ms_selected s of
        None \<Rightarrow> Some s
      | Some a \<Rightarrow>
          do {
            n \<leftarrow> ms_pages s a;
            prev \<leftarrow> last_page (ms_pages s) (\<lambda>_ p. menuItemShown g p) (n_prev n);
            go_to_page g prev s
          })"

section \<open>The order of the pages\<close>

lemma sorted_between:
  assumes "sorted (map f (ts @ ds))" "\<And>y. y \<in> set ts \<Longrightarrow> f y \<le> f x" "\<And>y. y \<in> set ds \<Longrightarrow> f x < f y"
  shows "sorted (map f (ts @ x # ds))"
  using assms by (auto simp: sorted_append less_imp_le)

lemma sort_key_snoc:
  "sort_key f (xs @ [x]) = takeWhile (\<lambda>y. f y \<le> f x) (sort_key f xs) @ x # dropWhile (\<lambda>y. f y \<le> f x) (sort_key f xs)"
proof (rule properties_for_sort_key)
  let ?S = "sort_key f xs" and ?Q = "\<lambda>y. f y \<le> f x"
  let ?T = "takeWhile ?Q ?S" and ?D = "dropWhile ?Q ?S"
  have S: "?S = ?T @ ?D" by simp
  have sd: "sorted (map f (?T @ ?D))" unfolding S [symmetric] by simp
  have D: "f x < f y" if "y \<in> set ?D" for y
  proof -
    have "?D \<noteq> []" using that by (metis empty_iff empty_set)
    then obtain d ds where d: "?D = d # ds" by (meson neq_Nil_conv)
    then have "\<not> ?Q d" using hd_dropWhile [of ?Q ?S] by simp
    moreover have "f d \<le> f y" using sd that unfolding d by (auto simp: sorted_append)
    ultimately show ?thesis by simp
  qed
  have "mset ?T + mset ?D = mset xs" by (metis S mset_append mset_sort)
  then show "mset (?T @ x # ?D) = mset (xs @ [x])" by simp
  have T: "f y \<le> f x" if "y \<in> set ?T" for y using set_takeWhileD [OF that] by simp
  show "sorted (map f (?T @ x # ?D))" by (rule sorted_between [OF sd T D])
  fix k
  have e: "filter (\<lambda>y. f k = f y) ?S = filter (\<lambda>y. f k = f y) xs" using sort_key_stable [of f "f k" xs] by (simp add: eq_commute)
  have "filter (\<lambda>y. f k = f y) ?D = []" if "f k = f x" using D that by (fastforce simp: filter_empty_conv)
  moreover have "filter (\<lambda>y. f k = f y) xs = filter (\<lambda>y. f k = f y) ?T @ filter (\<lambda>y. f k = f y) ?D" by (metis S e filter_append)
  ultimately show "filter (\<lambda>y. f k = f y) (?T @ x # ?D) = filter (\<lambda>y. f k = f y) (xs @ [x])" by auto
qed

lemma insert_after_path:
  assumes "path h (Some m) (m # as) None"
  shows "insert_after h r m = Some (last (m # takeWhile (\<lambda>a. menuDevicePageRank (item_at h a) \<le> r) as))"
  using assms
proof (induction as arbitrary: m)
  case Nil
  then show ?case by (subst insert_after.simps) auto
next
  case (Cons b as)
  then obtain n k where "h m = Some n" "n_next n = Some b" "h b = Some k" by auto
  then show ?case using Cons by (subst insert_after.simps) (auto simp: item_at_def)
qed

text \<open>A node linked in before the head, and one linked in behind \<open>ks\<close>.\<close>

lemma dll_cons:
  assumes "dll h p (m # as)" "a \<notin> set (m # as)"
  obtains h' where "set_prev m (Some a) (h(a \<mapsto> \<lparr>n_item = x, n_prev = None, n_next = Some m\<rparr>)) = Some h'"
    "dll h' (Some a) (a # m # as)" "same_items h' (h(a \<mapsto> \<lparr>n_item = x, n_prev = None, n_next = Some m\<rparr>))"
proof -
  let ?h = "h(a \<mapsto> \<lparr>n_item = x, n_prev = None, n_next = Some m\<rparr>)"
  obtain n where n: "h m = Some n" using assms(1) by (auto simp: dll_def)
  let ?h2 = "?h(m \<mapsto> n\<lparr>n_prev := Some a\<rparr>)"
  have "path ?h2 (Some m) (m # as) None"
    by (rule path_cong [THEN iffD2, of _ _ h]) (use assms n in \<open>auto simp: dll_def\<close>)
  moreover have "backs ?h2 (Some m) as" using assms backs_frame [of "{a, m}" ?h2 h as] by (auto simp: dll_def)
  ultimately have "dll ?h2 (Some a) (a # m # as)" using assms by (auto simp: dll_def)
  moreover have "set_prev m (Some a) ?h = Some ?h2" using n assms(2) by (auto simp: set_prev_def)
  moreover have "same_items ?h2 ?h" using n assms(2) by (auto simp: same_items_def)
  ultimately show ?thesis using that by blast
qed

lemma dll_linked_in:
  assumes "dll h p (bs @ d # as)" "a \<notin> set (bs @ d # as)"
    and nx: "\<And>y. y \<in> set (bs @ as) \<Longrightarrow> map_option n_next (h' y) = map_option n_next (h y)"
    and pv: "\<And>y. y \<in> set (bs @ [d]) \<Longrightarrow> map_option n_prev (h' y) = map_option n_prev (h y)"
    and d: "h d = Some c" "map_option n_next (h' d) = Some (Some a)"
    and a: "map_option n_next (h' a) = Some (n_next c)" "map_option n_prev (h' a) = Some (Some d)"
    and as: "backs h' (Some a) as"
  shows "dll h' p (bs @ d # a # as)"
proof -
  have D: "path h p bs (Some d)" "path h (n_next c) as None" "backs h None (bs @ [d])" "distinct (bs @ d # as)"
    using assms(1) d(1) by (auto simp: dll_def path_append backs_append)
  have "path h' p bs (Some d)" "path h' (n_next c) as None" using D(1,2) nx path_cong [of bs h' h] path_cong [of as h' h] by auto
  moreover have "backs h' None (bs @ [d])" using D(3) pv backs_cong [of "bs @ [d]" h' h] by blast
  ultimately show ?thesis using D(4) assms(2) d a as by (auto simp: dll_def path_append backs_append)
qed

lemma dll_insert:
  assumes "dll h p (ks @ as)" "ks \<noteq> []" "a \<notin> set (ks @ as)" "h (last ks) = Some c"
    and h1: "h1 = h(a \<mapsto> \<lparr>n_item = x, n_prev = Some (last ks), n_next = n_next c\<rparr>)"
  obtains h2 h3 where "(case n_next c of None \<Rightarrow> Some h1 | Some b \<Rightarrow> set_prev b (Some a) h1) = Some h2"
    "set_next (last ks) (Some a) h2 = Some h3" "dll h3 p (ks @ a # as)" "same_items h3 h1"
proof -
  obtain bs d where ks: "ks = bs @ [d]" using assms(2) by (cases ks rule: rev_cases) auto
  have D: "distinct (bs @ d # as)" "backs h (Some d) as" "path h (n_next c) as None" "h d = Some c" "dll h p (bs @ d # as)"
    using assms(1,4) ks by (auto simp: dll_def path_append backs_append)
  have ad: "a \<noteq> d" "a \<notin> set as" "a \<notin> set bs" using assms(3) ks by auto
  show ?thesis
  proof (cases as)
    case Nil
    let ?h3 = "h1(d \<mapsto> c\<lparr>n_next := Some a\<rparr>)"
    have "dll ?h3 p (bs @ d # a # as)"
      by (rule dll_linked_in [OF D(5) _ _ _ D(4)]) (use D ad Nil h1 ks in auto)
    moreover have "set_next d (Some a) h1 = Some ?h3" "same_items ?h3 h1" using h1 D(4) ad by (auto simp: set_next_def same_items_def)
    moreover have "n_next c = None" using D(3) Nil by simp
    ultimately show ?thesis using that [of h1 ?h3] ks by simp
  next
    case (Cons b cs)
    obtain m where m: "h b = Some m" "n_next c = Some b" using D(3) Cons by auto
    let ?h2 = "h1(b \<mapsto> m\<lparr>n_prev := Some a\<rparr>)"
    let ?h3 = "?h2(d \<mapsto> c\<lparr>n_next := Some a\<rparr>)"
    have "backs ?h3 (Some b) cs" using D(1,2) ad Cons h1 backs_frame [of "{a, b, d}" ?h3 h cs] by auto
    then have "dll ?h3 p (bs @ d # a # as)"
      by (intro dll_linked_in [OF D(5) _ _ _ D(4)]) (use D ad Cons h1 ks m in auto)
    moreover have "set_prev b (Some a) h1 = Some ?h2" "set_next d (Some a) ?h2 = Some ?h3" "same_items ?h3 h1"
      using h1 D(1,4) ad m Cons by (auto simp: set_next_def set_prev_def same_items_def)
    ultimately show ?thesis using that [of ?h2 ?h3] ks m(2) by simp
  qed
qed

text \<open>A registered page has a node and its data.\<close>

definition has_pages :: "menu_state \<Rightarrow> (nat \<times> menu_page) list \<Rightarrow> bool" where
  "has_pages s ys \<longleftrightarrow> dll (ms_pages s) (ms_menu s) (map fst ys) \<and> items (ms_pages s) (map fst ys) = map snd ys"

abbreviation page_rank :: "nat \<times> menu_page \<Rightarrow> nat" where
  "page_rank y \<equiv> menuDevicePageRank (snd y)"

lemma has_pages_item: "has_pages s ys \<Longrightarrow> y \<in> set ys \<Longrightarrow> item_at (ms_pages s) (fst y) = snd y"
  by (auto simp: has_pages_def)

lemma items_same: "same_items h' h \<Longrightarrow> (\<And>a. a \<in> set as \<Longrightarrow> h a \<noteq> None) \<Longrightarrow> items h' as = items h as"
  using same_items_at by (fastforce intro: map_cong)

lemma takeWhile_fst:
  assumes "has_pages s ys"
  shows "takeWhile (\<lambda>a. menuDevicePageRank (item_at (ms_pages s) a) \<le> r) (map fst ys) = map fst (takeWhile (\<lambda>y. page_rank y \<le> r) ys)"
proof -
  have "takeWhile (\<lambda>y. menuDevicePageRank (item_at (ms_pages s) (fst y)) \<le> r) ys = takeWhile (\<lambda>y. page_rank y \<le> r) ys"
    using has_pages_item [OF assms] by (auto cong: takeWhile_cong)
  then show ?thesis by (simp add: takeWhile_map comp_def)
qed

lemma old_items:
  assumes "has_pages s ys" "a \<notin> set (map fst ys)" "set us \<subseteq> set ys"
  shows "items ((ms_pages s)(a \<mapsto> k)) (map fst us) = map snd us" "b \<in> set (map fst us) \<Longrightarrow> (ms_pages s) b \<noteq> None"
proof -
  show "items ((ms_pages s)(a \<mapsto> k)) (map fst us) = map snd us"
    using assms has_pages_item [OF assms(1)] by (force simp: item_at_def)
  assume "b \<in> set (map fst us)"
  then have "b \<in> set (map fst ys)" using assms(3) by auto
  then show "(ms_pages s) b \<noteq> None" using assms(1) path_dom [of "ms_pages s" "ms_menu s" "map fst ys" None b] by (auto simp: has_pages_def dll_def)
qed

lemma append_before:
  assumes "has_pages s (y # zs)" "a \<notin> set (map fst (y # zs))" "menuDevicePageRank it < page_rank y"
  shows "\<exists>s'. menuAppendItem (Some a) it s = Some s' \<and> has_pages s' ((a, it) # y # zs) \<and> ms_selected s' = ms_selected s"
proof -
  let ?h = "ms_pages s" and ?k = "\<lparr>n_item = it, n_prev = None, n_next = Some (fst y)\<rparr>" and ?as = "map fst (y # zs)"
  have d: "dll ?h (ms_menu s) ?as" using assms(1) by (simp add: has_pages_def)
  obtain n where n: "?h (fst y) = Some n" "n_item n = snd y" "ms_menu s = Some (fst y)"
    using d has_pages_item [OF assms(1), of y] by (auto simp: item_at_def dll_def)
  obtain h' where h': "set_prev (fst y) (Some a) (?h(a \<mapsto> ?k)) = Some h'" "dll h' (Some a) (a # ?as)" "same_items h' (?h(a \<mapsto> ?k))"
    using dll_cons [of ?h "ms_menu s" "fst y" "map fst zs" a it] d assms(2) by auto
  have "items h' (a # ?as) = items (?h(a \<mapsto> ?k)) (a # ?as)"
    using old_items(2) [OF assms(1,2) subset_refl] by (intro items_same [OF h'(3)]) auto
  then have "items h' (a # ?as) = map snd ((a, it) # y # zs)" using old_items(1) [OF assms(1,2) subset_refl, of ?k] by (simp add: item_at_def)
  then have "has_pages (s\<lparr>ms_pages := h', ms_menu := Some a\<rparr>) ((a, it) # y # zs)" using h'(2) by (simp add: has_pages_def)
  then show ?thesis using n h'(1) assms(3) by (simp add: menuAppendItem_def Let_def)
qed

lemma append_behind:
  assumes "has_pages s ys" "a \<notin> set (map fst ys)" "ys = y # zs" "page_rank y \<le> menuDevicePageRank it"
    and Q: "Q = (\<lambda>y. page_rank y \<le> menuDevicePageRank it)"
  shows "\<exists>s'. menuAppendItem (Some a) it s = Some s' \<and> has_pages s' (takeWhile Q ys @ (a, it) # dropWhile Q ys) \<and> ms_selected s' = ms_selected s"
proof -
  let ?h = "ms_pages s" and ?t = "takeWhile Q ys" and ?d = "dropWhile Q ys"
  let ?as = "map fst ?t @ a # map fst ?d"
  have ks: "?t \<noteq> []" "map fst ys = map fst ?t @ map fst ?d" using assms(3,4) Q by (simp_all flip: map_append)
  have sub: "set ?t \<subseteq> set ys" "set ?d \<subseteq> set ys" using set_takeWhileD [of _ Q ys] set_dropWhileD [of _ Q ys] by auto
  have d: "dll ?h (ms_menu s) (map fst ?t @ map fst ?d)" using assms(1) ks(2) by (simp add: has_pages_def)
  have m: "ms_menu s = Some (fst y)" "path ?h (Some (fst y)) (fst y # map fst zs) None" using assms(1,3) by (auto simp: has_pages_def dll_def)
  have n: "?h (fst y) \<noteq> None" "item_at ?h (fst y) = snd y" using m(2) has_pages_item [OF assms(1), of y] assms(3) by auto
  have ia: "insert_after ?h (menuDevicePageRank it) (fst y) = Some (last (map fst ?t))"
    using insert_after_path [OF m(2), of "menuDevicePageRank it"] takeWhile_fst [OF assms(1), of "menuDevicePageRank it"] assms(3,4) n(2)
    by (simp add: Q)
  obtain c where c: "?h (last (map fst ?t)) = Some c"
    using old_items(2) [OF assms(1,2) sub(1), of "last (map fst ?t)"] ks(1) last_in_set [of "map fst ?t"] by auto
  let ?h1 = "?h(a \<mapsto> \<lparr>n_item = it, n_prev = Some (last (map fst ?t)), n_next = n_next c\<rparr>)"
  obtain h2 h3 where h: "(case n_next c of None \<Rightarrow> Some ?h1 | Some b \<Rightarrow> set_prev b (Some a) ?h1) = Some h2"
      "set_next (last (map fst ?t)) (Some a) h2 = Some h3" "dll h3 (ms_menu s) ?as" "same_items h3 ?h1"
    using dll_insert [OF d _ _ c refl, of a it] ks assms(2) by auto
  have "items h3 ?as = items ?h1 ?as"
    using old_items(2) [OF assms(1,2) sub(1)] old_items(2) [OF assms(1,2) sub(2)] by (intro items_same [OF h(4)]) force
  also have "\<dots> = map snd (?t @ (a, it) # ?d)"
    unfolding map_append list.map old_items(1) [OF assms(1,2) sub(1)] old_items(1) [OF assms(1,2) sub(2)] by (simp add: item_at_def)
  finally have "has_pages (s\<lparr>ms_pages := h3\<rparr>) (?t @ (a, it) # ?d)" using h(3) by (simp add: has_pages_def)
  then show ?thesis using m(1) n ia c h(1,2) assms(4) by (auto simp: menuAppendItem_def Let_def item_at_def)
qed

lemma menuAppendItem_ok:
  assumes "has_pages s ys" "a \<notin> set (map fst ys)" "Q = (\<lambda>y. page_rank y \<le> menuDevicePageRank it)"
  shows "\<exists>s'. menuAppendItem (Some a) it s = Some s' \<and> has_pages s' (takeWhile Q ys @ (a, it) # dropWhile Q ys)
    \<and> ms_selected s' = (if ys = [] then Some a else ms_selected s)"
proof (cases ys)
  case Nil
  then show ?thesis using assms(1) by (auto simp: has_pages_def menuAppendItem_def dll_def item_at_def)
next
  case (Cons y zs)
  then show ?thesis using append_before [of s y zs a it] append_behind [of s ys a y zs it Q] assms by (cases "Q y") auto
qed

primrec register_all :: "(nat \<times> menu_page) list \<Rightarrow> menu_state \<Rightarrow> menu_state option" where
  "register_all [] s = Some s"
| "register_all (x # xs) s = do { s' \<leftarrow> menuAppendItem (Some (fst x)) (snd x) s; register_all xs s' }"

lemma register_all_snoc: "register_all (xs @ [x]) s = do { s' \<leftarrow> register_all xs s; menuAppendItem (Some (fst x)) (snd x) s' }"
  by (induction xs arbitrary: s) (simp_all split: bind_splits)

text \<open>
  In whatever order the devices register their pages, the pages stand in the order of the device kinds,
  pages of one kind in the order of their registration, linked in both directions, each with its own
  data; the first page registered is the selected one.
\<close>

theorem menu_pages_in_order:
  assumes "ms_menu s0 = None" "distinct (map fst xs)" "xs \<noteq> []"
  shows "\<exists>s. register_all xs s0 = Some s \<and> has_pages s (sort_key page_rank xs) \<and> ms_selected s = Some (fst (hd xs))"
  using assms(2,3)
proof (induction xs rule: rev_induct)
  case (snoc x xs)
  let ?Q = "\<lambda>y. page_rank y \<le> menuDevicePageRank (snd x)"
  have "has_pages s0 []" using assms(1) by (simp add: has_pages_def)
  then obtain s where s: "register_all xs s0 = Some s" "has_pages s (sort_key page_rank xs)" "xs \<noteq> [] \<longrightarrow> ms_selected s = Some (fst (hd xs))"
    using snoc by (cases "xs = []") auto
  have "fst x \<notin> set (map fst (sort_key page_rank xs))" using snoc.prems(1) by auto
  from menuAppendItem_ok [OF s(2) this refl, of "snd x"] obtain s' where
    "menuAppendItem (Some (fst x)) (snd x) s = Some s'" "has_pages s' (takeWhile ?Q (sort_key page_rank xs) @ x # dropWhile ?Q (sort_key page_rank xs))"
    "ms_selected s' = (if xs = [] then Some (fst x) else ms_selected s)"
    using length_sort [of page_rank xs] by (metis length_0_conv prod.collapse)
  then show ?case using s(1,3) unfolding register_all_snoc sort_key_snoc by (cases "xs = []") auto
qed simp

definition sample_page :: "int \<Rightarrow> menu_page" where
  "sample_page mode = \<lparr>mp_item = nat mode, mp_mode = Some mode, mp_enabled = True, mp_visible = True, mp_text = None, mp_text_id = 0\<rparr>"

definition no_pages :: menu_state where
  "no_pages = \<lparr>ms_pages = Map.empty, ms_menu = None, ms_selected = None, ms_itemConfigId = -1, ms_itemConfigGeneration = 0,
     ms_folders = folder_init, ms_posted = []\<rparr>"

theorem menu_pages_in_order_witness:
  "\<exists>s. register_all [(1, sample_page FAV_MODE), (2, sample_page BDM_MODE), (3, sample_page ETH_MODE)] no_pages = Some s
     \<and> has_pages s [(2, sample_page BDM_MODE), (3, sample_page ETH_MODE), (1, sample_page FAV_MODE)] \<and> ms_selected s = Some 1"
proof -
  let ?xs = "[(1, sample_page FAV_MODE), (2, sample_page BDM_MODE), (3::nat, sample_page ETH_MODE)]"
  have "sort_key page_rank ?xs = [(2, sample_page BDM_MODE), (3, sample_page ETH_MODE), (1, sample_page FAV_MODE)]"
    by (simp add: sample_page_def menuDevicePageRank_def)
  then show ?thesis using menu_pages_in_order [of no_pages ?xs] by (simp add: no_pages_def)
qed

section \<open>Moving and settling\<close>

lemma first_page_path: "path h p as None \<Longrightarrow> first_page h P p = Some (find (\<lambda>a. P a (item_at h a)) as)"
proof (induction as arbitrary: p)
  case Nil
  then show ?case by (subst first_page.simps) simp
next
  case (Cons a as)
  then obtain n where "p = Some a" "h a = Some n" "path h (n_next n) as None" by auto
  then show ?case using Cons.IH by (subst first_page.simps) (simp add: item_at_def)
qed

lemma last_page_back:
  assumes "dll h p as" "i \<le> length as"
  shows "last_page h P (if i = 0 then None else Some (as ! (i - 1))) = Some (find (\<lambda>a. P a (item_at h a)) (rev (take i as)))"
  using assms(2)
proof (induction i)
  case 0
  then show ?case by (subst last_page.simps) simp
next
  case (Suc i)
  obtain n where n: "h (as ! i) = Some n" "n_prev n = (if i = 0 then None else Some (as ! (i - 1)))"
    using dll_nth [OF assms(1), of i] Suc.prems by auto
  then show ?case using Suc by (subst last_page.simps) (simp add: item_at_def take_Suc_conv_app_nth)
qed

text \<open>Leaving a page keeps every link and every page's standing.\<close>

lemma leaving_ok:
  assumes "ms_pages s a = Some n"
  shows "\<exists>s' n'. menuFolderResetLeaving g (Some a) s = Some s' \<and> ms_pages s' = (ms_pages s)(a \<mapsto> n') \<and> n_next n' = n_next n \<and> n_prev n' = n_prev n
    \<and> menuItemShown g (n_item n') = menuItemShown g (n_item n) \<and> mp_mode (n_item n') = mp_mode (n_item n) \<and> ms_menu s' = ms_menu s
    \<and> (\<forall>mode. mp_mode (n_item n) = Some mode \<longrightarrow> folderDepth (gEnableFolderNav g) mode (ms_folders s') = 0)"
proof (cases "\<exists>mode. mp_mode (n_item n) = Some mode \<and> folderModeSupported mode \<and> folderDepth (gEnableFolderNav g) mode (ms_folders s) \<noteq> 0")
  case True
  then obtain mode where m: "mp_mode (n_item n) = Some mode" "folderModeSupported mode" "folderDepth (gEnableFolderNav g) mode (ms_folders s) \<noteq> 0" by blast
  let ?n = "n\<lparr>n_item := (n_item n)\<lparr>mp_text := None, mp_text_id := itemTextId g mode\<rparr>\<rparr>"
  have "menuItemShown g (n_item ?n) = menuItemShown g (n_item n)"
    by (cases n, cases "n_item n") (simp only: menuItemShown_def menu_page.simps node.simps)
  moreover have "folderDepth (gEnableFolderNav g) mode (folderReset mode (ms_folders s)) = 0"
    by (simp add: folderDepth_def folderReset_def folder_on_def)
  ultimately show ?thesis using assms m
    by (intro exI [of _ ?n] exI [of _ "s\<lparr>ms_folders := folderReset mode (ms_folders s), ms_pages := (ms_pages s)(a \<mapsto> ?n), ms_posted := ms_posted s @ [mode]\<rparr>"])
      (simp add: menuFolderResetLeaving_def)
next
  case False
  then have "menuFolderResetLeaving g (Some a) s = Some s" using assms by (auto simp: menuFolderResetLeaving_def split: option.split)
  moreover have "folderDepth (gEnableFolderNav g) mode (ms_folders s) = 0" if "mp_mode (n_item n) = Some mode" for mode
    using False that by (auto simp: folderDepth_def folder_on_def)
  moreover have "ms_pages s = (ms_pages s)(a \<mapsto> n)" using assms by (simp add: fun_upd_idem)
  ultimately show ?thesis by blast
qed

text \<open>The pages right and left of a place, nearest first.\<close>

definition right_of :: "nat list \<Rightarrow> nat \<Rightarrow> nat list" where
  "right_of as i = drop (Suc i) as"

definition left_of :: "nat list \<Rightarrow> nat \<Rightarrow> nat list" where
  "left_of as i = rev (take i as)"

abbreviation shown_page :: "menu_settings \<Rightarrow> menu_page heap \<Rightarrow> nat \<Rightarrow> bool" where
  "shown_page g h a \<equiv> menuItemShown g (item_at h a)"

text \<open>A move selects the target, leaves the links and the standing of every page alone, and takes the old page to its root.\<close>

definition moved_to :: "menu_settings \<Rightarrow> nat list \<Rightarrow> nat \<Rightarrow> nat \<Rightarrow> menu_state \<Rightarrow> menu_state \<Rightarrow> bool" where
  "moved_to g as a b s s' \<longleftrightarrow> ms_selected s' = Some b \<and> dll (ms_pages s') (ms_menu s') as
     \<and> (\<forall>x \<in> set as. shown_page g (ms_pages s') x = shown_page g (ms_pages s) x \<and> mp_mode (item_at (ms_pages s') x) = mp_mode (item_at (ms_pages s) x))
     \<and> (\<forall>mode. mp_mode (item_at (ms_pages s) a) = Some mode \<longrightarrow> folderDepth (gEnableFolderNav g) mode (ms_folders s') = 0)
     \<and> ms_itemConfigId s' = -1 \<and> ms_itemConfigGeneration s' = ms_itemConfigGeneration s + 1"

lemma go_to_page_ok:
  assumes "dll (ms_pages s) (ms_menu s) as" "i < length as" "ms_selected s = Some (as ! i)"
  shows "\<exists>s'. go_to_page g (Some b) s = Some s' \<and> moved_to g as (as ! i) b s s'"
proof -
  let ?a = "as ! i" and ?h = "ms_pages s"
  obtain n where n: "?h ?a = Some n" using dll_nth [OF assms(1,2)] by blast
  obtain s1 n' where s1: "menuFolderResetLeaving g (Some ?a) s = Some s1" "ms_pages s1 = ?h(?a \<mapsto> n')" "n_next n' = n_next n" "n_prev n' = n_prev n"
      "menuItemShown g (n_item n') = menuItemShown g (n_item n)" "mp_mode (n_item n') = mp_mode (n_item n)" "ms_menu s1 = ms_menu s"
      "\<forall>mode. mp_mode (n_item n) = Some mode \<longrightarrow> folderDepth (gEnableFolderNav g) mode (ms_folders s1) = 0"
    using leaving_ok [OF n, of g] by blast
  have gen: "ms_itemConfigGeneration s1 = ms_itemConfigGeneration s"
    using s1(1) n by (auto simp: menuFolderResetLeaving_def split: option.splits if_splits)
  have "dll (ms_pages s1) (ms_menu s1) as"
    using assms(1) s1(2-4,7) n path_cong [of as "ms_pages s1" ?h] backs_cong [of as "ms_pages s1" ?h] by (auto simp: dll_def)
  moreover have "shown_page g (ms_pages s1) x = shown_page g ?h x \<and> mp_mode (item_at (ms_pages s1) x) = mp_mode (item_at ?h x)" for x
    using s1(2,5,6) n by (cases "x = ?a") (simp_all add: item_at_def)
  ultimately show ?thesis using s1(1,8) n assms(3) gen by (auto simp: go_to_page_def moved_to_def item_at_def)
qed

lemma menuNextH_ok:
  assumes "dll (ms_pages s) (ms_menu s) as" "i < length as" "ms_selected s = Some (as ! i)"
  shows "case find (shown_page g (ms_pages s)) (right_of as i) of
      None \<Rightarrow> menuNextH g s = Some s | Some b \<Rightarrow> \<exists>s'. menuNextH g s = Some s' \<and> moved_to g as (as ! i) b s s'"
proof -
  obtain n where n: "ms_pages s (as ! i) = Some n" using dll_nth [OF assms(1,2)] by blast
  have "path (ms_pages s) (n_next n) (right_of as i) None"
    using assms(1) n id_take_nth_drop [OF assms(2)] path_append [of "ms_pages s" "ms_menu s" "take i as" "as ! i # right_of as i" None]
    by (auto simp: dll_def right_of_def)
  note f = first_page_path [OF this, of "\<lambda>_ p. menuItemShown g p"]
  show ?thesis
  proof (cases "find (shown_page g (ms_pages s)) (right_of as i)")
    case None
    then show ?thesis using f n assms(3) by (simp add: menuNextH_def go_to_page_def)
  next
    case (Some b)
    then show ?thesis using f n assms(3) go_to_page_ok [OF assms, of g b] by (simp add: menuNextH_def)
  qed
qed

lemma menuPrevH_ok:
  assumes "dll (ms_pages s) (ms_menu s) as" "i < length as" "ms_selected s = Some (as ! i)"
  shows "case find (shown_page g (ms_pages s)) (left_of as i) of
      None \<Rightarrow> menuPrevH g s = Some s | Some b \<Rightarrow> \<exists>s'. menuPrevH g s = Some s' \<and> moved_to g as (as ! i) b s s'"
proof -
  obtain n where n: "ms_pages s (as ! i) = Some n" "n_prev n = (if i = 0 then None else Some (as ! (i - 1)))" using dll_nth [OF assms(1,2)] by blast
  have f: "last_page (ms_pages s) (\<lambda>_ p. menuItemShown g p) (n_prev n) = Some (find (shown_page g (ms_pages s)) (left_of as i))"
    using last_page_back [OF assms(1), of i "\<lambda>_ p. menuItemShown g p"] assms(2) n(2) by (simp add: left_of_def)
  show ?thesis
  proof (cases "find (shown_page g (ms_pages s)) (left_of as i)")
    case None
    then show ?thesis using f n assms(3) by (simp add: menuPrevH_def go_to_page_def)
  next
    case (Some b)
    then show ?thesis using f n assms(3) go_to_page_ok [OF assms, of g b] by (simp add: menuPrevH_def)
  qed
qed

lemma find_SomeD: "find P xs = Some x \<Longrightarrow> x \<in> set xs \<and> P x"
  by (auto simp: find_Some_iff)

lemma find_back:
  assumes "i < length as" "P (as ! i)" "find P (right_of as i) = Some b"
  obtains j where "i < j" "j < length as" "b = as ! j" "P b" "find P (left_of as j) = Some (as ! i)"
proof -
  obtain k where k: "k < length as - Suc i" "P b" "b = as ! (Suc i + k)" "\<forall>l < k. \<not> P (as ! (Suc i + l))"
    using assms(3) by (auto simp: right_of_def find_Some_iff)
  let ?j = "Suc i + k"
  have e: "left_of as ?j ! l = as ! (i + k - l)" if "l \<le> i + k" for l
    using that k(1) by (simp add: left_of_def rev_nth)
  have "\<not> P (left_of as ?j ! l)" if "l < k" for l
  proof -
    have "Suc i + (k - 1 - l) = i + k - l" using that by simp
    then show ?thesis using k(4) [rule_format, of "k - 1 - l"] e [of l] that by simp
  qed
  then have "find P (left_of as ?j) = Some (as ! i)"
    unfolding find_Some_iff using e [of k] assms(1,2) k(1) by (intro exI [of _ k]) (auto simp: left_of_def)
  then show ?thesis using that [of ?j] k by simp
qed

text \<open>
  The right key selects the nearest shown page to the right and nothing changes when there is none; the
  page left behind is back at its folder root, no page changes its place or whether it is shown, and the
  left key then returns to it.
\<close>

theorem menu_right_left:
  assumes "dll (ms_pages s) (ms_menu s) as" "i < length as" "ms_selected s = Some (as ! i)" "shown_page g (ms_pages s) (as ! i)"
  shows "case find (shown_page g (ms_pages s)) (right_of as i) of
      None \<Rightarrow> menuNextH g s = Some s
    | Some b \<Rightarrow> \<exists>s1 s2. menuNextH g s = Some s1 \<and> moved_to g as (as ! i) b s s1 \<and> menuPrevH g s1 = Some s2 \<and> ms_selected s2 = ms_selected s"
proof (cases "find (shown_page g (ms_pages s)) (right_of as i)")
  case None
  then show ?thesis using menuNextH_ok [OF assms(1-3), of g] by simp
next
  case (Some b)
  then obtain j where j: "i < j" "j < length as" "b = as ! j" "find (shown_page g (ms_pages s)) (left_of as j) = Some (as ! i)"
    using find_back [OF assms(2), of "shown_page g (ms_pages s)", OF assms(4)] by metis
  obtain s1 where s1: "menuNextH g s = Some s1" "moved_to g as (as ! i) b s s1" using menuNextH_ok [OF assms(1-3), of g] Some by auto
  have "find (shown_page g (ms_pages s1)) (left_of as j) = find (shown_page g (ms_pages s)) (left_of as j)"
    using s1(2) set_take_subset [of j as] by (intro find_cong) (auto simp: left_of_def moved_to_def)
  then have "\<exists>s2. menuPrevH g s1 = Some s2 \<and> moved_to g as b (as ! i) s1 s2"
    using menuPrevH_ok [of s1 as j g] s1(2) j by (auto simp: moved_to_def)
  then show ?thesis using Some s1 assms(3) by (auto simp: moved_to_def)
qed

text \<open>
  Settling on a page keeps the selected page if it is registered and shown, and otherwise ends on a shown
  page whenever one is registered; no link is followed badly.
\<close>

theorem refreshMenuPosition_settles:
  assumes "dll (ms_pages s) (ms_menu s) as"
  shows "\<exists>s'. refreshMenuPosition g s = Some s'
    \<and> ((\<exists>a \<in> set as. ms_selected s = Some a \<and> shown_page g (ms_pages s) a) \<longrightarrow> s' = s)
    \<and> ((\<exists>a \<in> set as. shown_page g (ms_pages s) a) \<longrightarrow> (\<exists>a \<in> set as. ms_selected s' = Some a \<and> shown_page g (ms_pages s') a))"
proof (cases "as = []")
  case True
  then show ?thesis using assms by (simp add: refreshMenuPosition_def)
next
  case False
  let ?h = "ms_pages s"
  have p: "path ?h (ms_menu s) as None" "ms_menu s \<noteq> None" using assms False path_head [of ?h "ms_menu s" as] by (auto simp: dll_def)
  note f = first_page_path [OF p(1)]
  let ?kept = "find (\<lambda>a. Some a = ms_selected s \<and> shown_page g ?h a) as"
  define target where "target = (if gAllGames_on g then FAV_MODE else if menuIsFavPage ?h (ms_selected s) then gDefaultDevice g else -1)"
  let ?wanted = "find (\<lambda>a. mp_mode (item_at ?h a) = Some target \<and> shown_page g ?h a) as"
  let ?any = "find (shown_page g ?h) as"
  have r: "refreshMenuPosition g s = Some (if ?kept \<noteq> None then s else if ?wanted \<noteq> None then s\<lparr>ms_selected := ?wanted\<rparr>
      else s\<lparr>ms_selected := (if ?any = None then ms_menu s else ?any)\<rparr>)"
    unfolding refreshMenuPosition_def Let_def f target_def [symmetric] by (simp add: p(2))
  show ?thesis
  proof (cases ?kept)
    case (Some a)
    from find_SomeD [OF Some] show ?thesis unfolding r using Some by auto
  next
    case kept: None
    then have none: "\<not> (\<exists>a \<in> set as. ms_selected s = Some a \<and> shown_page g ?h a)" by (auto simp: find_None_iff)
    define x where "x = (if ?wanted \<noteq> None then ?wanted else if ?any = None then ms_menu s else ?any)"
    have x: "refreshMenuPosition g s = Some (s\<lparr>ms_selected := x\<rparr>)" unfolding r x_def using kept by auto
    have "\<exists>b \<in> set as. x = Some b \<and> shown_page g ?h b" if "\<exists>a \<in> set as. shown_page g ?h a"
    proof (cases ?wanted)
      case None
      from that have "?any \<noteq> None" by (auto simp: find_None_iff)
      then show ?thesis using None find_SomeD [of "shown_page g ?h" as] by (auto simp: x_def)
    next
      case (Some b)
      from find_SomeD [OF Some] show ?thesis using Some by (auto simp: x_def)
    qed
    then show ?thesis unfolding x using none by auto
  qed
qed

definition two_pages :: menu_state where
  "two_pages = no_pages\<lparr>ms_pages := [1 \<mapsto> \<lparr>n_item = sample_page BDM_MODE, n_prev = None, n_next = Some 2\<rparr>,
     2 \<mapsto> \<lparr>n_item = sample_page FAV_MODE, n_prev = Some 1, n_next = None\<rparr>], ms_menu := Some 1, ms_selected := Some 1\<rparr>"

definition sample_settings :: menu_settings where
  "sample_settings = \<lparr>gAllGames_on = False, gPCShareName = [], gDefaultDevice = 0, gEnableFolderNav = True, itemTextId = (\<lambda>_. 7)\<rparr>"

lemma two_pages_dll: "dll (ms_pages two_pages) (ms_menu two_pages) [1, 2]"
  by (simp add: dll_def two_pages_def)

theorem menu_right_left_witness:
  "shown_page sample_settings (ms_pages two_pages) ([1, 2] ! 0)
   \<and> (\<exists>s1 s2. menuNextH sample_settings two_pages = Some s1 \<and> moved_to sample_settings [1, 2] 1 2 two_pages s1
        \<and> menuPrevH sample_settings s1 = Some s2 \<and> ms_selected s2 = Some 1)"
proof -
  have sh: "shown_page sample_settings (ms_pages two_pages) ([1, 2] ! 0)" "find (shown_page sample_settings (ms_pages two_pages)) (right_of [1, 2] 0) = Some 2"
    by (simp_all add: menuItemShown_def sample_settings_def two_pages_def item_at_def sample_page_def right_of_def)
  moreover have "ms_selected two_pages = Some ([1, 2] ! 0)" by (simp add: two_pages_def)
  ultimately show ?thesis using menu_right_left [OF two_pages_dll, of 0 sample_settings] by simp
qed

theorem refreshMenuPosition_settles_witness:
  "\<exists>s'. refreshMenuPosition sample_settings two_pages = Some s' \<and> s' = two_pages"
proof -
  have "\<exists>a \<in> set [1, 2]. ms_selected two_pages = Some a \<and> shown_page sample_settings (ms_pages two_pages) a"
    by (simp add: menuItemShown_def sample_settings_def two_pages_def item_at_def sample_page_def)
  then show ?thesis using refreshMenuPosition_settles [OF two_pages_dll, of sample_settings] by blast
qed

end
