(* ===== verification/HiddenGames.thy ===== *)
theory HiddenGames
  imports LibView FolderNav FileBuffer
begin

text \<open>
  Hidden games, \<open>src/gamemanage.c\<close>: each device keeps the games hidden from the lists in a file of its own,
  one line a game, and the loader keeps the lists it read. The files are a partial map from paths to
  texts; the answers of the allocator and of the writes are arguments.
\<close>

abbreviation "HIDDEN_MAX \<equiv> (512::nat)"
abbreviation "HIDDEN_NAME_MAX \<equiv> (256::nat)"
abbreviation "TAB \<equiv> CHR 0x09"

definition HIDDEN_FILE :: cstring where
  "HIDDEN_FILE = ''hidden.txt''"

text \<open>A hidden game: whether it is one of the first console, and its name.\<close>

type_synonym hidden_game = "bool \<times> cstring"

record hidden_list =
  hl_prefix :: cstring
  hl_loaded :: bool
  hl_games :: "hidden_game list"

section \<open>Reading\<close>

text \<open>\<open>prefixes\<close> is what the list support of a mode answers for its prefix, if it is loaded and answers.\<close>

definition hiddenPrefix :: "(int \<Rightarrow> cstring option) \<Rightarrow> int \<Rightarrow> cstring option" where
  "hiddenPrefix prefixes mode =
     (if \<not> mode_valid mode \<or> mode = HTTP_MODE \<or> mode = APP_MODE \<or> mode = FAV_MODE then None
      else (case prefixes mode of
              None \<Rightarrow> None
            | Some prefix \<Rightarrow> if prefix = [] \<or> length prefix \<ge> 160 then None else Some prefix))"

definition hiddenAppend :: "(cstring \<Rightarrow> bool) \<Rightarrow> hidden_game list \<Rightarrow> bool \<Rightarrow> cstring \<Rightarrow> hidden_game list \<times> bool" where
  "hiddenAppend mem games ps1 name =
     (if length games \<ge> HIDDEN_MAX \<or> name = [] \<or> \<not> mem name then (games, False) else (games @ [(ps1, name)], True))"

text \<open>The C library's reader of lines, with a buffer of \<open>n\<close> bytes.\<close>

definition upto_lf :: "cstring \<Rightarrow> cstring" where
  "upto_lf t = takeWhile (\<lambda>c. c \<noteq> LF) t @ (if LF \<in> set t then [LF] else [])"

function fgets_lines :: "nat \<Rightarrow> cstring \<Rightarrow> cstring list" where
  "fgets_lines n t =
     (if t = [] \<or> n < 2 then []
      else let l = take (n - 1) (upto_lf t) in l # fgets_lines n (drop (length l) t))"
  by pat_completeness auto
termination
  by (relation "measure (\<lambda>(_, t). length t)") (auto simp: upto_lf_def neq_Nil_conv)

declare fgets_lines.simps [simp del]

definition hidden_line :: "cstring \<Rightarrow> hidden_game option" where
  "hidden_line line =
     (let l = rstrip (\<lambda>c. c = LF \<or> c = CR) (takeWhile (\<lambda>c. c \<noteq> NUL) line) in
      if l = [] \<or> hd l = CHR ''#'' then None
      else if (hd l = CHR ''0'' \<or> hd l = CHR ''1'') \<and> length l > 1 \<and> l ! 1 = TAB then Some (hd l = CHR ''1'', drop 2 l)
      else Some (False, l))"

primrec append_lines :: "(cstring \<Rightarrow> bool) \<Rightarrow> cstring list \<Rightarrow> hidden_game list \<Rightarrow> hidden_game list" where
  "append_lines mem [] games = games"
| "append_lines mem (l # ls) games =
     append_lines mem ls (case hidden_line l of None \<Rightarrow> games | Some (ps1, name) \<Rightarrow> fst (hiddenAppend mem games ps1 name))"

definition hidden_path :: "cstring \<Rightarrow> cstring" where
  "hidden_path prefix = bounded 200 (prefix @ HIDDEN_FILE)"

definition hiddenLoad ::
  "(cstring \<Rightarrow> bool) \<Rightarrow> (int \<Rightarrow> cstring option) \<Rightarrow> (cstring \<rightharpoonup> cstring) \<Rightarrow> int \<Rightarrow> bool \<Rightarrow> hidden_list \<Rightarrow> hidden_list \<times> bool" where
  "hiddenLoad mem prefixes files mode force l =
     (case hiddenPrefix prefixes mode of
        None \<Rightarrow> (l\<lparr>hl_games := [], hl_loaded := False\<rparr>, False)
      | Some prefix \<Rightarrow>
          if hl_loaded l \<and> \<not> force \<and> hl_prefix l = prefix then (l, True)
          else
            (\<lparr>hl_prefix = prefix, hl_loaded = True,
              hl_games = (case files (hidden_path prefix) of
                            None \<Rightarrow> []
                          | Some t \<Rightarrow> append_lines mem (fgets_lines (HIDDEN_NAME_MAX + 8) t) [])\<rparr>, True))"

definition hiddenFind :: "hidden_game list \<Rightarrow> bool \<Rightarrow> cstring \<Rightarrow> nat option" where
  "hiddenFind games ps1 name = find (\<lambda>i. games ! i = (ps1, name)) [0..<length games]"

type_synonym hidden_lists = "int \<Rightarrow> hidden_list"


definition hiddenHas ::
  "(cstring \<Rightarrow> bool) \<Rightarrow> (int \<Rightarrow> cstring option) \<Rightarrow> (cstring \<rightharpoonup> cstring) \<Rightarrow> int \<Rightarrow> bool \<Rightarrow> cstring option \<Rightarrow> hidden_lists \<Rightarrow> hidden_lists \<times> bool" where
  "hiddenHas mem prefixes files mode ps1 name ls =
     (case name of
        None \<Rightarrow> (ls, False)
      | Some n \<Rightarrow>
          if \<not> mode_valid mode \<or> n = [] then (ls, False)
          else
            (case hiddenLoad mem prefixes files mode False (ls mode) of
               (l, found) \<Rightarrow> (ls(mode := l), found \<and> hiddenFind (hl_games l) ps1 n \<noteq> None)))"

section \<open>Saving\<close>

text \<open>What the device answers: the open and the removal of the old file, the writes and what a failed save leaves.\<close>

record save_env =
  sv_open :: bool
  sv_unlink :: bool
  sv_fopen :: bool
  sv_print :: "nat \<Rightarrow> bool"
  sv_close :: bool
  sv_left :: "cstring option"

definition print_game :: "hidden_game \<Rightarrow> cstring" where
  "print_game g = (if fst g then CHR ''1'' else CHR ''0'') # TAB # snd g @ [LF]"

definition hiddenSave :: "save_env \<Rightarrow> hidden_list \<Rightarrow> (cstring \<rightharpoonup> cstring) \<Rightarrow> (cstring \<rightharpoonup> cstring) \<times> bool" where
  "hiddenSave env l files =
     (let path = hidden_path (hl_prefix l) in
      if hl_games l = [] then
        if \<not> sv_open env then (files, True)
        else if sv_unlink env then (files(path := None), True)
        else (files, False)
      else if \<not> sv_fopen env then (files, False)
      else if list_all (sv_print env) [0..<length (hl_games l)] \<and> sv_close env
      then (files(path \<mapsto> concat (map print_game (hl_games l))), True)
      else (files(path := sv_left env), False))"

definition hiddenSet ::
  "(cstring \<Rightarrow> bool) \<Rightarrow> save_env \<Rightarrow> (int \<Rightarrow> cstring option) \<Rightarrow> int \<Rightarrow> bool \<Rightarrow> cstring option \<Rightarrow> bool
    \<Rightarrow> hidden_lists \<times> (cstring \<rightharpoonup> cstring) \<Rightarrow> (hidden_lists \<times> (cstring \<rightharpoonup> cstring)) \<times> int" where
  "hiddenSet mem env prefixes mode ps1 name hide s =
     (let (ls, files) = s in
      case name of
        None \<Rightarrow> (s, -1)
      | Some n \<Rightarrow>
          if \<not> mode_valid mode \<or> n = [] then (s, -1)
          else
            let copy = bounded HIDDEN_NAME_MAX n in
            (case hiddenLoad mem prefixes files mode True (ls mode) of
               (l, False) \<Rightarrow> ((ls(mode := l), files), -1)
             | (l, True) \<Rightarrow>
                 (case hiddenFind (hl_games l) ps1 copy of
                    Some i \<Rightarrow>
                      if hide then ((ls(mode := l), files), 1)
                      else
                        (let l' = l\<lparr>hl_games := take i (hl_games l) @ drop (i + 1) (hl_games l)\<rparr> in
                         case hiddenSave env l' files of
                           (files', True) \<Rightarrow> ((ls(mode := l'), files'), 1)
                         | (files', False) \<Rightarrow> ((ls(mode := l), files'), 0))
                  | None \<Rightarrow>
                      if \<not> hide then ((ls(mode := l), files), 1)
                      else
                        (case hiddenAppend mem (hl_games l) ps1 copy of
                           (games, False) \<Rightarrow> ((ls(mode := l), files), 0)
                         | (games, True) \<Rightarrow>
                             (case hiddenSave env (l\<lparr>hl_games := games\<rparr>) files of
                                (files', True) \<Rightarrow> ((ls(mode := l\<lparr>hl_games := games\<rparr>), files'), 1)
                              | (files', False) \<Rightarrow> ((ls(mode := l), files'), 0))))))"

text \<open>
  What a successful change sets off: the page of the mode is marked and its rebuild posted when its
  support is started, and the favourites are loaded again when they are in use.
\<close>

definition hiddenRefresh :: "(int \<Rightarrow> bool) \<Rightarrow> bool \<Rightarrow> int \<Rightarrow> view_state \<Rightarrow> view_state \<times> int list \<times> bool" where
  "hiddenRefresh enabled favs mode v = (if enabled mode then (libViewMarkDirty mode v, [mode], favs) else (v, [], favs))"

section \<open>Rows\<close>

abbreviation "FAV_KIND_VCD \<equiv> (1::int)"
abbreviation "FAV_KIND_CUE \<equiv> (2::int)"
abbreviation "FAV_KIND_ELF \<equiv> (3::int)"

definition favKindView :: "int \<Rightarrow> int" where
  "favKindView kind = (if kind = FAV_KIND_VCD \<or> kind = FAV_KIND_CUE then LIB_VIEW_PS1 else if kind = FAV_KIND_ELF then LIB_VIEW_ELF else LIB_VIEW_ISO)"

text \<open>A list as a row is looked up in it: its callbacks, and what the favourites and the view of its mode answer.\<close>

record row_list =
  rl_mode :: int
  rl_itemGetName :: "(int \<Rightarrow> cstring option) option"
  rl_itemGet :: "(int \<Rightarrow> bool option) option"
  rl_itemGetView :: "(int \<Rightarrow> int) option"

definition source_ok :: "int \<Rightarrow> bool" where
  "source_ok m \<longleftrightarrow> mode_valid m \<and> m \<noteq> HTTP_MODE \<and> m \<noteq> APP_MODE \<and> m \<noteq> FAV_MODE"

definition hiddenRowSource ::
  "(int \<Rightarrow> int) \<Rightarrow> (int \<Rightarrow> int) \<Rightarrow> (int \<Rightarrow> int) \<Rightarrow> row_list option \<Rightarrow> int \<Rightarrow> (int \<times> bool \<times> cstring) option" where
  "hiddenRowSource fav_kind fav_mode active support row =
     (case support of
        None \<Rightarrow> None
      | Some l \<Rightarrow>
          (case rl_itemGetName l of
             None \<Rightarrow> None
           | Some get_name \<Rightarrow>
               if row < 0 then None
               else
                 (case (if rl_mode l = FAV_MODE then
                          if fav_kind row < 0 \<or> fav_kind row = FAV_KIND_ELF then None
                          else Some (fav_mode row, favKindView (fav_kind row) = LIB_VIEW_PS1)
                        else if rl_mode l = APP_MODE \<or> rl_mode l = HTTP_MODE then None
                        else if folderModeSupported (rl_mode l)
                              \<and> (case rl_itemGet l of None \<Rightarrow> False | Some get \<Rightarrow> get row = None \<or> get row = Some True) then None
                        else
                          let view = (case rl_itemGetView l of Some f \<Rightarrow> f row | None \<Rightarrow> active (rl_mode l)) in
                          if view = LIB_VIEW_ELF then None else Some (rl_mode l, view = LIB_VIEW_PS1)) of
                    None \<Rightarrow> None
                  | Some (m, p1) \<Rightarrow>
                      if \<not> source_ok m then None
                      else (case get_name row of
                              None \<Rightarrow> None
                            | Some n \<Rightarrow> if n = [] then None else Some (m, p1, n)))))"

definition hiddenRow ::
  "(cstring \<Rightarrow> bool) \<Rightarrow> (int \<Rightarrow> cstring option) \<Rightarrow> (cstring \<rightharpoonup> cstring) \<Rightarrow> (int \<Rightarrow> int) \<Rightarrow> (int \<Rightarrow> int) \<Rightarrow> (int \<Rightarrow> int)
    \<Rightarrow> row_list option \<Rightarrow> int \<Rightarrow> hidden_lists \<Rightarrow> hidden_lists \<times> bool" where
  "hiddenRow mem prefixes files fav_kind fav_mode active support row ls =
     (case hiddenRowSource fav_kind fav_mode active support row of
        None \<Rightarrow> (ls, False)
      | Some (mode, ps1, name) \<Rightarrow> hiddenHas mem prefixes files mode ps1 (Some name) ls)"

section \<open>The file and the list\<close>


lemma fgets_lines_Nil [simp]: "fgets_lines n [] = []"
  by (subst fgets_lines.simps) simp

















text \<open>A change that could not be saved leaves the list as it was read.\<close>

lemma hiddenSet_not_saved:
  assumes "hiddenSet mem env prefixes mode ps1 (Some n) hide (ls, files) = ((ls', files'), 0)"
  shows "ls' mode = fst (hiddenLoad mem prefixes files mode True (ls mode))"
  using assms unfolding hiddenSet_def by (auto simp: Let_def split: if_splits option.splits bool.splits prod.splits)

end
