(* ===== verification/GameDelete.thy ===== *)
theory GameDelete
  imports Modes Prelude
begin

text \<open>
  The plan for deleting a game and what belongs to it, \<open>src/gamemanage.c\<close>: settings, artwork and cheats on
  the device, unless another row is a copy of the game. What a folder lists, and whether a file can be
  opened, are arguments.
\<close>

abbreviation "GM_MAX_FILES \<equiv> (64::nat)"

datatype gm_what = GM_FILE_CFG | GM_FILE_ART | GM_FILE_CHT

record gm_delete_plan =
  gm_parts :: int
  gm_cfg :: nat
  gm_art :: nat
  gm_cht :: nat
  gm_shared :: bool
  gm_files :: "(cstring \<times> gm_what) list"



definition same_nocase :: "cstring \<Rightarrow> cstring \<Rightarrow> bool" where
  "same_nocase a b \<longleftrightarrow> map tolower a = map tolower b"













definition gmDeleteExtras :: "(cstring \<Rightarrow> bool) \<Rightarrow> gm_delete_plan \<Rightarrow> nat" where
  "gmDeleteExtras unlink plan = length (filter (\<lambda>f. \<not> unlink (fst f)) (gm_files plan))"

section \<open>What a plan holds\<close>



lemma same_nocase_refl [simp]: "same_nocase a a"
  by (simp add: same_nocase_def)













end
