(* ===== verification/WordFacts.thy ===== *)
theory WordFacts
  imports Prelude
begin

text \<open>Machine integers that stay in range: the facts about words that the disc components share.\<close>

lemma unat_add16:
  fixes a b c :: "16 word"
  assumes "unat a + unat b \<le> unat c"
  shows "unat (a + b) = unat a + unat b"
proof -
  have "unat c < 2 ^ 16" using unsigned_less [of c] by simp
  with assms show ?thesis by (simp add: unat_word_ariths)
qed

lemma unat_sub_le: "unat b \<le> unat a \<Longrightarrow> unat (a - b) = unat a - unat b"
  by (simp add: unat_sub word_le_nat_alt)

lemma unat_of_nat32: "n < 2 ^ 32 \<Longrightarrow> unat (of_nat n :: 32 word) = n"
  by (simp only: unsigned_of_nat) (simp add: take_bit_nat_eq_self)

lemma sint_of_nat32: "n < 2 ^ 31 \<Longrightarrow> sint (of_nat n :: 32 word) = int n"
  by (simp add: signed_of_nat take_bit_nat_eq_self signed_take_bit_int_eq_self)

lemma sint_unat32: "unat w < 2 ^ 31 \<Longrightarrow> sint (w :: 32 word) = int (unat w)"
  using sint_of_nat32 [of "unat w"] by simp

end
