(* ===== verification/DiscStream.thy ===== *)
theory DiscStream
  imports WordFacts
begin

text \<open>
  Streaming from the disc image while a game runs (\<open>modules/iopcore/cdvdman/streaming.c\<close>), with the
  drive it shares with the reads of the game (\<open>cdvdman.c\<close>: one read at a time, done by a thread of the
  module). The buffer is a ring of banks that the reading thread fills and the game empties.

  A step of the model is a section of the code during which interrupts are off, or a part of a thread
  that touches nothing another thread uses; an attempt to start a fill is one step, because
  \<open>StIsReading\<close> keeps every other attempt out from its first section to its last, and so is the
  beginning of a stop or pause, which cancels the alarm and then clears the callback. The contents
  of a sector are of any type; \<open>reads l d\<close> says that the device may deliver \<open>d\<close> for sector \<open>l\<close>.
\<close>

section \<open>State\<close>

record streaming =
  StBufmax :: "16 word"
  StBankmax :: "16 word"
  StBanksize :: "16 word"
  StWritePtr :: "16 word"
  StReadPtr :: "16 word"
  StStreamed :: "16 word"
  StStat :: bool
  StIsReading :: bool
  Stlsn :: "32 word"

text \<open>A read the reading thread is working on: a fill of the stream, or one of the game.\<close>

datatype read_request = StreamFill "32 word" "16 word" nat | GameRead

text \<open>
  Where the game's thread is: between calls, in \<open>sceCdStRead\<close> before the event flag or before the copy
  (sectors wanted, sectors read, the mode, whether the destination is on the main processor), before
  the end of a transfer to the main processor, or waiting in \<open>sceCdSync\<close> to stop or pause (and then
  perhaps to start at a sector).
\<close>

datatype game_pc =
    G_IDLE
  | G_WAIT nat nat bool bool
  | G_COPY nat nat bool bool
  | G_DMA nat nat bool "(16 word \<times> 16 word) list" "16 word"
  | G_SYNC "32 word option"

record 'd disc_sys =
  ds_st :: streaming
  ds_mem :: "nat \<Rightarrow> 'd"
  sync_flag :: bool
  ds_queued :: "read_request option"
  ds_ended :: bool
  Stm0Callback :: bool
  ds_alarm :: bool
  user_cb :: bool
  cb_alarm :: bool
  ds_flag8 :: bool
  ds_pc :: game_pc
  ds_from :: "32 word"
  ds_out :: "'d list"

text \<open>
  \<open>ds_mem\<close> is the buffer at \<open>StIOP_bufaddr\<close> by sector; \<open>ds_queued\<close> the read handed to the thread;
  \<open>ds_ended\<close> that the thread has released the drive after a fill and not yet called back; \<open>ds_alarm\<close> the
  retry alarm; \<open>cb_alarm\<close> the alarm that runs the game's read callback; \<open>ds_flag8\<close> bit 8 of the
  event flag. \<open>ds_from\<close> and \<open>ds_out\<close> are for the statements only: where the stream was last started
  and what the game has got since.
\<close>

section \<open>The drive\<close>

definition cdvdman_QueueRead :: "read_request \<Rightarrow> 'd disc_sys \<Rightarrow> 'd disc_sys \<times> bool" where
  "cdvdman_QueueRead r s = (if sync_flag s then (s, False) else (s\<lparr>sync_flag := True, ds_queued := Some r\<rparr>, True))"

definition cdvdman_AsyncRead :: "'d disc_sys \<Rightarrow> 'd disc_sys \<times> bool" where
  "cdvdman_AsyncRead = cdvdman_QueueRead GameRead"

definition cdvdman_StreamRead :: "32 word \<Rightarrow> 16 word \<Rightarrow> nat \<Rightarrow> 'd disc_sys \<Rightarrow> 'd disc_sys \<times> bool" where
  "cdvdman_StreamRead lsn sectors at = cdvdman_QueueRead (StreamFill lsn sectors at)"

definition cdvdman_signal_read_end :: "'d disc_sys \<Rightarrow> 'd disc_sys" where
  "cdvdman_signal_read_end s = s\<lparr>sync_flag := False, ds_flag8 := True\<rparr>"

definition cdvdman_cb_event :: "'d disc_sys \<Rightarrow> 'd disc_sys" where
  "cdvdman_cb_event s = (if user_cb s then s\<lparr>cb_alarm := True\<rparr> else cdvdman_signal_read_end s)"

definition event_alarm_cb :: "'d disc_sys \<Rightarrow> 'd disc_sys" where
  "event_alarm_cb s = cdvdman_signal_read_end (s\<lparr>cb_alarm := False\<rparr>)"

definition sceCdSync_ready :: "'d disc_sys \<Rightarrow> bool" where
  "sceCdSync_ready s \<longleftrightarrow> \<not> sync_flag s"

section \<open>Filling the buffer\<close>

definition StReset :: "streaming \<Rightarrow> streaming" where
  "StReset st = st\<lparr>StWritePtr := 0, StReadPtr := 0, StStreamed := 0, StIsReading := False\<rparr>"

definition AllocBank :: "streaming \<Rightarrow> nat option" where
  "AllocBank st =
     (if uint (StBufmax st) - uint (StStreamed st) \<ge> uint (StBanksize st) then Some (unat (StWritePtr st)) else None)"

definition StFillStreamBuffer :: "'d disc_sys \<Rightarrow> 'd disc_sys \<times> int" where
  "StFillStreamBuffer s =
     (let st = ds_st s in
      if StIsReading st then (s, 0)
      else
        let s1 = s\<lparr>ds_alarm := False\<rparr> in
        case AllocBank st of
          Some at \<Rightarrow>
            (case cdvdman_StreamRead (Stlsn st) (StBanksize st) at (s1\<lparr>ds_st := st\<lparr>StIsReading := True\<rparr>\<rparr>) of
               (s2, ok) \<Rightarrow> if ok then (s2, 0) else (s2\<lparr>ds_st := st\<lparr>StIsReading := False\<rparr>\<rparr>, - 1))
        | None \<Rightarrow> (s1\<lparr>ds_st := st\<lparr>StIsReading := False\<rparr>\<rparr>, 1))"

definition StStartFillStreamBuffer :: "'d disc_sys \<Rightarrow> 'd disc_sys" where
  "StStartFillStreamBuffer s = (case StFillStreamBuffer s of (s', r) \<Rightarrow> if r < 0 then s'\<lparr>ds_alarm := True\<rparr> else s')"

text \<open>The alarm handler answers the time to the next alarm, or 0 for none.\<close>

definition StmScheduleCb :: "'d disc_sys \<Rightarrow> 'd disc_sys" where
  "StmScheduleCb s = (case StFillStreamBuffer (s\<lparr>ds_alarm := False\<rparr>) of (s', r) \<Rightarrow> s'\<lparr>ds_alarm := (r < 0)\<rparr>)"

definition StmCallback :: "'d disc_sys \<Rightarrow> 'd disc_sys" where
  "StmCallback s =
     (let st = ds_st s;
          w = StWritePtr st + StBanksize st;
          st' = (if StIsReading st
                 then st\<lparr>Stlsn := Stlsn st + ucast (StBanksize st), StStreamed := StStreamed st + StBanksize st,
                        StWritePtr := (if w \<ge> StBufmax st then 0 else w), StIsReading := False\<rparr>
                 else st)
      in StStartFillStreamBuffer (s\<lparr>ds_st := st'\<rparr>))"

definition cdvdman_StreamRefill :: "'d disc_sys \<Rightarrow> 'd disc_sys" where
  "cdvdman_StreamRefill = StStartFillStreamBuffer"

section \<open>The reading thread\<close>

definition store_sectors :: "nat \<Rightarrow> 'd list \<Rightarrow> (nat \<Rightarrow> 'd) \<Rightarrow> nat \<Rightarrow> 'd" where
  "store_sectors at ds mem = (\<lambda>i. if at \<le> i \<and> i < at + length ds then ds ! (i - at) else mem i)"

text \<open>The end of a read: a fill puts its sectors into the buffer.\<close>

definition read_done :: "'d list \<Rightarrow> 'd disc_sys \<Rightarrow> 'd disc_sys" where
  "read_done ds s =
     (let s1 = s\<lparr>ds_queued := None\<rparr> in
      case ds_queued s of
        Some (StreamFill _ _ at) \<Rightarrow>
          (let s2 = s1\<lparr>ds_mem := store_sectors at ds (ds_mem s)\<rparr> in
           if Stm0Callback s then cdvdman_signal_read_end s2\<lparr>ds_ended := True\<rparr> else cdvdman_cb_event s2)
      | Some GameRead \<Rightarrow> (let s2 = cdvdman_cb_event s1 in if Stm0Callback s then cdvdman_StreamRefill s2 else s2)
      | None \<Rightarrow> s)"

definition call_back :: "'d disc_sys \<Rightarrow> 'd disc_sys" where
  "call_back s = (let s1 = s\<lparr>ds_ended := False\<rparr> in if Stm0Callback s then StmCallback s1 else s1)"

section \<open>Emptying the buffer\<close>

text \<open>How much of what is there is copied, and where the read pointer goes.\<close>

definition clip :: "16 word \<Rightarrow> int \<Rightarrow> 16 word" where
  "clip avail room = (if uint avail > room then word_of_int room else avail)"

definition upper_part :: "streaming \<Rightarrow> int \<Rightarrow> 16 word" where
  "upper_part st maxcount =
     (if StWritePtr st \<le> StReadPtr st \<and> StStreamed st > 0 then clip (StBufmax st - StReadPtr st) maxcount else 0)"

definition lower_part :: "streaming \<Rightarrow> 16 word \<Rightarrow> int \<Rightarrow> 16 word" where
  "lower_part st rdptr left = (if 0 < left \<and> rdptr < StWritePtr st then clip (StWritePtr st - rdptr) left else 0)"

definition move_on :: "streaming \<Rightarrow> 16 word \<Rightarrow> 16 word \<Rightarrow> 16 word" where
  "move_on st rdptr n = (if n = 0 then rdptr else if rdptr + n \<ge> StBufmax st then 0 else rdptr + n)"

definition sectors_at :: "(nat \<Rightarrow> 'd) \<Rightarrow> 16 word \<Rightarrow> 16 word \<Rightarrow> 'd list" where
  "sectors_at mem from n = map (\<lambda>i. mem (unat from + i)) [0..<unat n]"

definition ReadSectors :: "int \<Rightarrow> 'd disc_sys \<Rightarrow> 'd disc_sys \<times> 'd list" where
  "ReadSectors maxcount s =
     (let st = ds_st s;
          n1 = upper_part st maxcount;
          ds1 = sectors_at (ds_mem s) (StReadPtr st) n1;
          st1 = st\<lparr>StReadPtr := move_on st (StReadPtr st) n1, StStreamed := StStreamed st - n1\<rparr>;
          n2 = lower_part st1 (StReadPtr st1) (maxcount - uint n1);
          ds2 = sectors_at (ds_mem s) (StReadPtr st1) n2;
          st2 = st1\<lparr>StReadPtr := move_on st1 (StReadPtr st1) n2, StStreamed := StStreamed st1 - n2\<rparr>
      in (s\<lparr>ds_st := st2\<rparr>, ds1 @ ds2))"

text \<open>
  To the main processor: the first section plans the transfers (start and length of each) and the new
  read pointer, the last one updates the counters once they are done.
\<close>

definition ReadSectorsEE_plan :: "int \<Rightarrow> streaming \<Rightarrow> (16 word \<times> 16 word) list \<times> 16 word" where
  "ReadSectorsEE_plan maxcount st =
     (let rdptr = StReadPtr st;
          n1 = upper_part st maxcount;
          rd1 = move_on st rdptr n1;
          n2 = lower_part st rd1 (maxcount - uint n1)
      in ((if n1 > 0 then [(rdptr, n1)] else []) @ (if n2 > 0 then [(rd1, n2)] else []), move_on st rd1 n2))"

definition transfer :: "(nat \<Rightarrow> 'd) \<Rightarrow> (16 word \<times> 16 word) list \<Rightarrow> 'd list" where
  "transfer mem dmat = concat (map (\<lambda>(from, n). sectors_at mem from n) dmat)"

definition ReadSectorsEE_done :: "(16 word \<times> 16 word) list \<Rightarrow> 16 word \<Rightarrow> streaming \<Rightarrow> streaming" where
  "ReadSectorsEE_done dmat rdptr st =
     st\<lparr>StReadPtr := rdptr, StStreamed := StStreamed st - word_of_int (\<Sum>(_, n)\<leftarrow>dmat. uint n)\<rparr>"

section \<open>The calls of the game\<close>

definition sceCdStInit :: "32 word \<Rightarrow> 32 word \<Rightarrow> 'd disc_sys \<Rightarrow> 'd disc_sys option" where
  "sceCdStInit bufmax bankmax s =
     (if bankmax = 0 then None
      else
        let banksize = ucast (bufmax div bankmax) :: 16 word; bm = ucast bankmax :: 16 word in
        Some (s\<lparr>ds_alarm := False,
                ds_st := StReset ((ds_st s)\<lparr>StBankmax := bm, StBanksize := banksize,
                                           StBufmax := word_of_int (uint banksize * uint bm)\<rparr>)\<rparr>))"

definition start_now :: "32 word \<Rightarrow> 'd disc_sys \<Rightarrow> 'd disc_sys" where
  "start_now lsn s =
     StStartFillStreamBuffer
       (s\<lparr>ds_st := StReset ((ds_st s)\<lparr>Stlsn := lsn, StStat := True\<rparr>), Stm0Callback := True,
          ds_pc := G_IDLE, ds_from := lsn, ds_out := []\<rparr>)"

text \<open>Both calls go on in \<open>sceCdSync\<close>, where a start waits as well.\<close>

definition sceCdStStop :: "32 word option \<Rightarrow> 'd disc_sys \<Rightarrow> 'd disc_sys" where
  "sceCdStStop next s =
     (if StStat (ds_st s) then
        s\<lparr>ds_alarm := False, Stm0Callback := False, ds_st := StReset ((ds_st s)\<lparr>StStreamed := 0, StStat := False\<rparr>),
          ds_pc := G_SYNC next\<rparr>
      else (case next of None \<Rightarrow> s | Some lsn \<Rightarrow> start_now lsn s))"

definition sceCdStStart :: "32 word \<Rightarrow> 'd disc_sys \<Rightarrow> 'd disc_sys" where
  "sceCdStStart lsn = sceCdStStop (Some lsn)"

definition sceCdStSeek :: "32 word \<Rightarrow> 'd disc_sys \<Rightarrow> 'd disc_sys" where
  "sceCdStSeek lsn s = (if StStat (ds_st s) then sceCdStStart lsn s else s)"

definition sceCdStPause :: "'d disc_sys \<Rightarrow> 'd disc_sys" where
  "sceCdStPause s =
     (if StStat (ds_st s) then
        s\<lparr>ds_alarm := False, Stm0Callback := False, ds_st := (ds_st s)\<lparr>StIsReading := False\<rparr>, ds_pc := G_SYNC None\<rparr>
      else s)"

definition sceCdStResume :: "'d disc_sys \<Rightarrow> 'd disc_sys" where
  "sceCdStResume s = (if StStat (ds_st s) then StStartFillStreamBuffer (s\<lparr>Stm0Callback := True\<rparr>) else s)"

definition sceCdStStat :: "'d disc_sys \<Rightarrow> int" where
  "sceCdStStat s = uint (StStreamed (ds_st s))"

definition sync_done :: "32 word option \<Rightarrow> 'd disc_sys \<Rightarrow> 'd disc_sys" where
  "sync_done next s = (case next of None \<Rightarrow> s\<lparr>ds_pc := G_IDLE\<rparr> | Some lsn \<Rightarrow> start_now lsn s)"

text \<open>The loop of \<open>sceCdStRead\<close>: what follows a copy of \<open>ds\<close>.\<close>

definition read_call :: "nat \<Rightarrow> bool \<Rightarrow> bool \<Rightarrow> 'd disc_sys \<Rightarrow> 'd disc_sys" where
  "read_call sectors blocking ee s =
     (if StStat (ds_st s) then
        (let s1 = s\<lparr>ds_flag8 := True\<rparr> in
         if 0 < sectors then s1\<lparr>ds_pc := G_WAIT sectors 0 blocking ee\<rparr> else StStartFillStreamBuffer s1)
      else s)"

definition copied :: "nat \<Rightarrow> nat \<Rightarrow> bool \<Rightarrow> bool \<Rightarrow> 'd list \<Rightarrow> 'd disc_sys \<Rightarrow> 'd disc_sys" where
  "copied sectors done blocking ee ds s =
     (let got = done + length ds; s1 = s\<lparr>ds_out := ds_out s @ ds\<rparr> in
      if blocking \<and> got < sectors then StStartFillStreamBuffer (s1\<lparr>ds_pc := G_WAIT sectors got blocking ee\<rparr>)
      else StStartFillStreamBuffer (s1\<lparr>ds_pc := G_IDLE\<rparr>))"

definition maxcount :: "nat \<Rightarrow> nat \<Rightarrow> int" where
  "maxcount sectors done = sint (of_nat sectors - of_nat done :: 32 word)"

definition copy_step :: "nat \<Rightarrow> nat \<Rightarrow> bool \<Rightarrow> bool \<Rightarrow> 'd disc_sys \<Rightarrow> 'd disc_sys" where
  "copy_step sectors done blocking ee s =
     (if ee then
        (case ReadSectorsEE_plan (maxcount sectors done) (ds_st s) of
           (dmat, rdptr) \<Rightarrow>
             if dmat = [] then copied sectors done blocking ee [] s
             else s\<lparr>ds_pc := G_DMA sectors done blocking dmat rdptr\<rparr>)
      else (case ReadSectors (maxcount sectors done) s of (s', ds) \<Rightarrow> copied sectors done blocking ee ds s'))"

definition dma_step :: "nat \<Rightarrow> nat \<Rightarrow> bool \<Rightarrow> (16 word \<times> 16 word) list \<Rightarrow> 16 word \<Rightarrow> 'd disc_sys \<Rightarrow> 'd disc_sys" where
  "dma_step sectors done blocking dmat rdptr s =
     copied sectors done blocking True (transfer (ds_mem s) dmat)
       (s\<lparr>ds_st := ReadSectorsEE_done dmat rdptr (ds_st s)\<rparr>)"

section \<open>The whole\<close>

text \<open>
  \<open>preempt\<close>: the game's thread may run while the reading thread is between releasing the drive and its
  callback (a thread with a higher priority than the reading thread's). \<open>paused\<close>: the game may call
  \<open>sceCdStRead\<close> while the stream is paused.
\<close>

inductive stream_step :: "(32 word \<Rightarrow> 'd \<Rightarrow> bool) \<Rightarrow> bool \<Rightarrow> bool \<Rightarrow> 'd disc_sys \<Rightarrow> 'd disc_sys \<Rightarrow> bool"
  for reads preempt paused where
  fill_end: "ds_queued s = Some (StreamFill lsn n at) \<Longrightarrow> length ds = unat n
     \<Longrightarrow> \<forall>i < unat n. reads (lsn + of_nat i) (ds ! i) \<Longrightarrow> \<not> ds_ended s \<Longrightarrow> stream_step reads preempt paused s (read_done ds s)"
| game_end: "ds_queued s = Some GameRead \<Longrightarrow> \<not> ds_ended s \<Longrightarrow> stream_step reads preempt paused s (read_done [] s)"
| callback: "ds_ended s \<Longrightarrow> stream_step reads preempt paused s (call_back s)"
| retry: "ds_alarm s \<Longrightarrow> stream_step reads preempt paused s (StmScheduleCb s)"
| game_callback: "cb_alarm s \<Longrightarrow> stream_step reads preempt paused s (event_alarm_cb s)"
| game_read: "stream_step reads preempt paused s (fst (cdvdman_AsyncRead s))"
| start: "ds_pc s = G_IDLE \<Longrightarrow> preempt \<or> \<not> ds_ended s \<Longrightarrow> stream_step reads preempt paused s (sceCdStStart lsn s)"
| stop: "ds_pc s = G_IDLE \<Longrightarrow> preempt \<or> \<not> ds_ended s \<Longrightarrow> stream_step reads preempt paused s (sceCdStStop None s)"
| seek: "ds_pc s = G_IDLE \<Longrightarrow> preempt \<or> \<not> ds_ended s \<Longrightarrow> stream_step reads preempt paused s (sceCdStSeek lsn s)"
| pause: "ds_pc s = G_IDLE \<Longrightarrow> preempt \<or> \<not> ds_ended s \<Longrightarrow> stream_step reads preempt paused s (sceCdStPause s)"
| resume: "ds_pc s = G_IDLE \<Longrightarrow> preempt \<or> \<not> ds_ended s \<Longrightarrow> stream_step reads preempt paused s (sceCdStResume s)"
| sync: "ds_pc s = G_SYNC nxt \<Longrightarrow> preempt \<or> \<not> ds_ended s \<Longrightarrow> sceCdSync_ready s
     \<Longrightarrow> stream_step reads preempt paused s (sync_done nxt s)"
| read: "ds_pc s = G_IDLE \<Longrightarrow> preempt \<or> \<not> ds_ended s \<Longrightarrow> StStat (ds_st s) \<longrightarrow> paused \<or> Stm0Callback s
     \<Longrightarrow> n < 2 ^ 31 \<Longrightarrow> stream_step reads preempt paused s (read_call n blocking ee s)"
| wake: "ds_pc s = G_WAIT n k b ee \<Longrightarrow> preempt \<or> \<not> ds_ended s \<Longrightarrow> ds_flag8 s
     \<Longrightarrow> stream_step reads preempt paused s (s\<lparr>ds_flag8 := False, ds_pc := G_COPY n k b ee\<rparr>)"
| copy: "ds_pc s = G_COPY n k b ee \<Longrightarrow> preempt \<or> \<not> ds_ended s \<Longrightarrow> stream_step reads preempt paused s (copy_step n k b ee s)"
| dma: "ds_pc s = G_DMA n k b dmat rd \<Longrightarrow> preempt \<or> \<not> ds_ended s \<Longrightarrow> stream_step reads preempt paused s (dma_step n k b dmat rd s)"

definition boot_drive :: "bool \<Rightarrow> (nat \<Rightarrow> 'd) \<Rightarrow> 'd disc_sys" where
  "boot_drive cb mem =
     \<lparr>ds_st = \<lparr>StBufmax = 0, StBankmax = 0, StBanksize = 0, StWritePtr = 0, StReadPtr = 0, StStreamed = 0,
               StStat = False, StIsReading = False, Stlsn = 0\<rparr>,
      ds_mem = mem, sync_flag = False, ds_queued = None, ds_ended = False, Stm0Callback = False, ds_alarm = False,
      user_cb = cb, cb_alarm = False, ds_flag8 = False, ds_pc = G_IDLE, ds_from = 0, ds_out = []\<rparr>"


section \<open>The ring\<close>

abbreviation cells :: "streaming \<Rightarrow> nat" where "cells st \<equiv> unat (StBufmax st)"
abbreviation bank :: "streaming \<Rightarrow> nat" where "bank st \<equiv> unat (StBanksize st)"
abbreviation wr :: "streaming \<Rightarrow> nat" where "wr st \<equiv> unat (StWritePtr st)"
abbreviation rd :: "streaming \<Rightarrow> nat" where "rd st \<equiv> unat (StReadPtr st)"
abbreviation filled :: "streaming \<Rightarrow> nat" where "filled st \<equiv> unat (StStreamed st)"

definition ring_ok :: "streaming \<Rightarrow> bool" where
  "ring_ok st \<longleftrightarrow> 0 < bank st \<and> bank st dvd cells st \<and> bank st dvd wr st \<and> wr st < cells st \<and> rd st < cells st
     \<and> filled st \<le> cells st \<and> (rd st + filled st) mod cells st = wr st"

text \<open>The cells with sectors that were not read yet, in order.\<close>

definition unread :: "streaming \<Rightarrow> nat \<Rightarrow> nat list" where
  "unread st m = map (\<lambda>k. (rd st + k) mod cells st) [0..<m]"

lemma unat_clip:
  assumes "0 \<le> room"
  shows "unat (clip avail room) = min (unat avail) (nat room)"
proof (cases "uint avail > room")
  case True
  then have "room < 2 ^ 16" using uint_lt2p [of avail] by simp
  with assms have "uint (word_of_int room :: 16 word) = room" by (simp add: uint_word_of_int)
  then have n: "unat (word_of_int room :: 16 word) = nat room" by (simp only: unat_eq_nat_uint)
  have "nat room \<le> unat avail" using True uint_nat [of avail] by linarith
  then show ?thesis using True by (simp only: clip_def if_True n min_absorb2)
next
  case False
  then have "unat avail \<le> nat room" using uint_nat [of avail] by linarith
  then show ?thesis using False by (simp only: clip_def if_False min_absorb1)
qed

lemma unat_move_on:
  assumes "unat r < cells st" "unat r + unat n \<le> cells st"
  shows "unat (move_on st r n) = (unat r + unat n) mod cells st"
  using assms unat_add16 [OF assms(2)] by (auto simp: move_on_def word_le_nat_alt unat_eq_zero)

text \<open>Where the unread sectors lie.\<close>

lemma mod_once: "x < 2 * (n::nat) \<Longrightarrow> x mod n = (if x < n then x else x - n)"
  by (simp add: le_mod_geq)

lemma ring_wr: "ring_ok st \<Longrightarrow> wr st = (if rd st + filled st < cells st then rd st + filled st else rd st + filled st - cells st)"
  using mod_once [of "rd st + filled st" "cells st"] unfolding ring_ok_def by linarith

lemma ring_cases:
  fixes w r n c :: nat
  assumes "w = (if r + n < c then r + n else r + n - c)" "r < c" "n \<le> c"
  shows "w \<le> r \<and> 0 < n \<longrightarrow> r + n = c + w" "r < w \<longrightarrow> r + n = w" "n = 0 \<longrightarrow> r = w"
  using assms by (auto split: if_split_asm)

lemma ring_bounds: "ring_ok st \<Longrightarrow> rd st < cells st" "ring_ok st \<Longrightarrow> filled st \<le> cells st" "ring_ok st \<Longrightarrow> wr st < cells st"
    "ring_ok st \<Longrightarrow> 0 < bank st"
  by (simp_all add: ring_ok_def)

lemmas ring_at = ring_cases [OF ring_wr ring_bounds(1,2)]

lemma dvd_room: "b dvd w \<Longrightarrow> b dvd c \<Longrightarrow> w < c \<Longrightarrow> w + b \<le> (c::nat)"
  by (metis add.commute dvd_add_right_iff dvd_imp_le le_add_diff_inverse less_imp_le_nat nat_add_left_cancel_le zero_less_diff)

lemma ring_room: "ring_ok st \<Longrightarrow> wr st + bank st \<le> cells st"
  by (simp add: ring_ok_def dvd_room)

text \<open>The two parts of a read are the first unread sectors.\<close>

lemma two_parts:
  assumes "ring_ok st" "0 \<le> mc"
    and "n1 = upper_part st mc" "rd1 = move_on st (StReadPtr st) n1" "n2 = lower_part st rd1 (mc - uint n1)"
    and "m = min (nat mc) (filled st)"
  shows "unat n1 + unat n2 = m"
    and "map ((+) (rd st)) [0..<unat n1] @ map ((+) (unat rd1)) [0..<unat n2] = unread st m"
    and "unat rd1 < cells st" "unat (move_on st rd1 n2) = (rd st + m) mod cells st"
proof -
  note r = assms(1) [unfolded ring_ok_def]
  note r = ring_bounds [OF assms(1)]
  have shift: "map ((+) a) [0..<x] @ map ((+) 0) [0..<y] = unread st (x + y)"
    if "a = rd st" "y = 0 \<or> a + x = cells st" "a + x \<le> cells st" "y < cells st" for a x y
  proof (rule nth_equalityI)
    show "(map ((+) a) [0..<x] @ map ((+) 0) [0..<y]) ! i = unread st (x + y) ! i"
      if i: "i < length (map ((+) a) [0..<x] @ map ((+) 0) [0..<y])" for i
      using i that \<open>a = rd st\<close> \<open>y = 0 \<or> a + x = cells st\<close> \<open>a + x \<le> cells st\<close> \<open>y < cells st\<close>
      by (auto simp: unread_def nth_append mod_if)
  qed (simp add: unread_def)
  have up: "unat n1 = (if wr st \<le> rd st \<and> 0 < filled st then min (cells st - rd st) (nat mc) else 0)"
    using r(1) assms(2) by (simp add: assms(3) upper_part_def word_le_nat_alt word_less_nat_alt unat_clip unat_sub_le)
  then have "rd st + unat n1 \<le> cells st" using r(1) by (auto split: if_splits)
  then have r1: "unat rd1 = (rd st + unat n1) mod cells st" unfolding assms(4) by (rule unat_move_on [OF r(1)])
  have "int (unat n1) \<le> mc" using up assms(2) by (auto split: if_splits)
  then have l: "0 \<le> mc - uint n1" "nat (mc - uint n1) = nat mc - unat n1" using uint_nat [of n1] by linarith+
  have lo: "unat n2 = (if unat rd1 < wr st then min (wr st - unat rd1) (nat mc - unat n1) else 0)"
    using l by (auto simp: assms(5) lower_part_def word_less_nat_alt unat_clip unat_sub_le)
  have goal: "unat n1 + unat n2 = m \<and> map ((+) (rd st)) [0..<unat n1] @ map ((+) (unat rd1)) [0..<unat n2] = unread st m
      \<and> unat rd1 < cells st \<and> unat (move_on st rd1 n2) = (rd st + m) mod cells st"
    if n: "unat n1 = k1" "unat rd1 = q" "unat n2 = k2" "k1 + k2 = m" "q < cells st" "q + k2 \<le> cells st"
      "k1 = 0 \<and> q = rd st \<or> k2 = 0 \<and> rd st + k1 < cells st \<or> q = 0 \<and> rd st + k1 = cells st \<and> k2 < cells st" for k1 k2 q
  proof -
    have "unat (move_on st rd1 n2) = (q + k2) mod cells st" using unat_move_on [of rd1 st n2] n by simp
    moreover have "(q + k2) mod cells st = (rd st + m) mod cells st"
      using n(4,7) r1 n(1-3) by (auto simp: mod_simps simp flip: add.assoc)
    moreover have "map ((+) (rd st)) [0..<k1] @ map ((+) q) [0..<k2] = unread st m"
      using n(4-7) shift [where a = "rd st" and x = k1 and y = k2] shift [where a = "rd st" and x = k2 and y = 0]
        shift [where a = "rd st" and x = k1 and y = 0] r by auto
    ultimately show ?thesis using n by simp
  qed
  have "unat n1 + unat n2 = m \<and> map ((+) (rd st)) [0..<unat n1] @ map ((+) (unat rd1)) [0..<unat n2] = unread st m
      \<and> unat rd1 < cells st \<and> unat (move_on st rd1 n2) = (rd st + m) mod cells st"
  proof (cases "filled st = 0")
    case True
    then have "rd st = wr st" using ring_at(3) [OF assms(1) assms(1) assms(1)] by simp
    then show ?thesis using True up r1 lo r by (intro goal [of 0 "rd st" 0]) (auto simp: assms(6))
  next
    case False
    show ?thesis
    proof (cases "wr st \<le> rd st")
      case True
      then have f: "rd st + filled st = cells st + wr st" using False ring_at(1) [OF assms(1) assms(1) assms(1)] by simp
      show ?thesis
      proof (cases "cells st - rd st \<le> nat mc")
        case True
        then have "unat n1 = cells st - rd st" "unat rd1 = 0" using up r1 r False \<open>wr st \<le> rd st\<close> by (auto simp: min_def)
        then show ?thesis using lo f r True by (intro goal [of "cells st - rd st" 0 "unat n2"]) (auto simp: assms(6) min_def)
      next
        case short: False
        then have "unat n1 = nat mc" "unat rd1 = rd st + nat mc" using up r1 r False \<open>wr st \<le> rd st\<close> by (auto simp: min_def)
        then show ?thesis using lo f r short by (intro goal [of "nat mc" "rd st + nat mc" 0]) (auto simp: assms(6) min_def)
      qed
    next
      case below: False
      then have f: "rd st + filled st = wr st" using ring_at(2) [OF assms(1) assms(1) assms(1)] by simp
      then have "unat n1 = 0" "unat rd1 = rd st" using up r1 r below by auto
      then show ?thesis using lo f r below by (intro goal [of 0 "rd st" "unat n2"]) (auto simp: assms(6) min_def)
    qed
  qed
  then show "unat n1 + unat n2 = m"
    and "map ((+) (rd st)) [0..<unat n1] @ map ((+) (unat rd1)) [0..<unat n2] = unread st m"
    and "unat rd1 < cells st" "unat (move_on st rd1 n2) = (rd st + m) mod cells st" by blast+
qed

section \<open>What the ring holds\<close>

lemma ReadSectors_ring:
  assumes "ring_ok (ds_st s)" "0 \<le> mc" "m = min (nat mc) (filled (ds_st s))" "ReadSectors mc s = (s', ds)"
  shows "ds = map (ds_mem s) (unread (ds_st s) m)"
    and "\<exists>st. s' = s\<lparr>ds_st := st\<rparr> \<and> rd st = (rd (ds_st s) + m) mod cells (ds_st s) \<and> filled st = filled (ds_st s) - m
      \<and> st = (ds_st s)\<lparr>StReadPtr := StReadPtr st, StStreamed := StStreamed st\<rparr>"
proof -
  let ?st = "ds_st s"
  define n1 where "n1 = upper_part ?st mc"
  define rd1 where "rd1 = move_on ?st (StReadPtr ?st) n1"
  define n2 where "n2 = lower_part ?st rd1 (mc - uint n1)"
  note p = two_parts [OF assms(1,2) n1_def rd1_def n2_def assms(3)]
  have lp: "lower_part (?st\<lparr>StReadPtr := x, StStreamed := y\<rparr>) = lower_part ?st"
    and mo: "move_on (?st\<lparr>StReadPtr := x, StStreamed := y\<rparr>) = move_on ?st" for x y
    by (simp_all add: lower_part_def move_on_def fun_eq_iff)
  have r: "ReadSectors mc s = (s\<lparr>ds_st := ?st\<lparr>StReadPtr := move_on ?st rd1 n2, StStreamed := StStreamed ?st - n1 - n2\<rparr>\<rparr>,
      sectors_at (ds_mem s) (StReadPtr ?st) n1 @ sectors_at (ds_mem s) rd1 n2)"
    by (simp add: ReadSectors_def Let_def lp mo flip: n1_def rd1_def n2_def)
  have e: "ds = sectors_at (ds_mem s) (StReadPtr ?st) n1 @ sectors_at (ds_mem s) rd1 n2" using r assms(4) by simp
  show "ds = map (ds_mem s) (unread ?st m)"
    unfolding e p(2) [symmetric] by (simp add: sectors_at_def comp_def)
  have c: "unat n1 \<le> filled ?st" "unat n2 \<le> filled ?st - unat n1" using p(1) assms(3) by simp_all
  have "unat (StStreamed ?st - n1 - n2) = filled ?st - m"
    using c p(1) by (simp add: unat_sub_le)
  then show "\<exists>st. s' = s\<lparr>ds_st := st\<rparr> \<and> rd st = (rd ?st + m) mod cells ?st \<and> filled st = filled ?st - m
      \<and> st = ?st\<lparr>StReadPtr := StReadPtr st, StStreamed := StStreamed st\<rparr>"
    using r assms(4) p(4)
    by (intro exI [of _ "?st\<lparr>StReadPtr := move_on ?st rd1 n2, StStreamed := StStreamed ?st - n1 - n2\<rparr>"]) auto
qed

text \<open>A plan for the main processor: which cells, where the read pointer goes.\<close>

definition cells_of :: "(16 word \<times> 16 word) list \<Rightarrow> nat list" where
  "cells_of dmat = concat (map (\<lambda>(from, n). map ((+) (unat from)) [0..<unat n]) dmat)"

definition planned :: "(16 word \<times> 16 word) list \<Rightarrow> 16 word \<Rightarrow> streaming \<Rightarrow> bool" where
  "planned dmat rdptr st \<longleftrightarrow>
     (let m = length (cells_of dmat) in
      m \<le> filled st \<and> cells_of dmat = unread st m \<and> unat rdptr = (rd st + m) mod cells st)"

lemma transfer_cells: "transfer mem dmat = map mem (cells_of dmat)"
  by (induction dmat) (auto simp: transfer_def cells_of_def sectors_at_def)

lemma cells_of_sum: "int (length (cells_of dmat)) = (\<Sum>(_, n)\<leftarrow>dmat. uint n)"
  by (induction dmat) (auto simp: cells_of_def)

lemma ReadSectorsEE_plan_ring:
  assumes "ring_ok st" "0 \<le> mc" "ReadSectorsEE_plan mc st = (dmat, rdptr)"
  shows "planned dmat rdptr st" "length (cells_of dmat) = min (nat mc) (filled st)"
proof -
  define n1 where "n1 = upper_part st mc"
  define rd1 where "rd1 = move_on st (StReadPtr st) n1"
  define n2 where "n2 = lower_part st rd1 (mc - uint n1)"
  note p = two_parts [OF assms(1,2) n1_def rd1_def n2_def refl]
  have r: "ReadSectorsEE_plan mc st = ((if n1 > 0 then [(StReadPtr st, n1)] else []) @ (if n2 > 0 then [(rd1, n2)] else []), move_on st rd1 n2)"
    by (simp add: ReadSectorsEE_plan_def Let_def flip: n1_def rd1_def n2_def)
  have z: "\<not> 0 < (x :: 16 word) \<longleftrightarrow> x = 0" for x by (metis word_neq_0_conv)
  have c: "cells_of dmat = map ((+) (rd st)) [0..<unat n1] @ map ((+) (unat rd1)) [0..<unat n2]"
    using r assms(3) by (auto simp: cells_of_def z split: if_splits)
  then show l: "length (cells_of dmat) = min (nat mc) (filled st)" using p(1) by simp
  then show "planned dmat rdptr st" using c p(2,4) r assms(3) by (simp add: planned_def Let_def)
qed

lemma ReadSectorsEE_done_ring:
  assumes "planned dmat rdptr st"
  shows "ReadSectorsEE_done dmat rdptr st = st\<lparr>StReadPtr := rdptr, StStreamed := StStreamed st - of_nat (length (cells_of dmat))\<rparr>"
    "unat (StStreamed st - of_nat (length (cells_of dmat))) = filled st - length (cells_of dmat)"
proof -
  let ?m = "length (cells_of dmat)"
  show "ReadSectorsEE_done dmat rdptr st = st\<lparr>StReadPtr := rdptr, StStreamed := StStreamed st - of_nat ?m\<rparr>"
    by (simp add: ReadSectorsEE_done_def flip: cells_of_sum)
  have "?m \<le> filled st" using assms by (simp add: planned_def Let_def)
  moreover have "filled st < 2 ^ 16" using unsigned_less [of "StStreamed st"] by simp
  ultimately have "unat (of_nat ?m :: 16 word) = ?m" by (simp add: unat_of_nat)
  with \<open>?m \<le> filled st\<close> show "unat (StStreamed st - of_nat ?m) = filled st - ?m" by (simp add: unat_sub_le)
qed

end
