(* ===== verification/StreamRuns.thy ===== *)
theory StreamRuns
  imports DiscStream
begin

text \<open>
  What holds in every run of \<open>DiscStream\<close>: the sectors reach the game in order, and a read that waits is
  woken. The invariant is kept by every step; two runs at the end show that its conditions are needed.
\<close>

section \<open>The invariant\<close>


text \<open>Room for a bank.\<close>

definition has_room :: "streaming \<Rightarrow> bool" where
  "has_room st \<longleftrightarrow> filled st + bank st \<le> cells st"


text \<open>
  The game's thread: it waits for a stop or pause with the callback cleared, it reads from a running
  stream, and a blocking read does not wait unless a fill is on its way or will be tried again.
\<close>

definition pc_ok :: "'d disc_sys \<Rightarrow> bool" where
  "pc_ok s \<longleftrightarrow> (ds_ended s \<longrightarrow> ds_flag8 s) \<and>
     (case ds_pc s of
        G_IDLE \<Rightarrow> True
      | G_WAIT n k b ee \<Rightarrow> k < n \<and> n < 2 ^ 31 \<and> Stm0Callback s
          \<and> (ds_flag8 s \<or> has_room (ds_st s) \<and> (StIsReading (ds_st s) \<or> ds_alarm s))
      | G_COPY n k b ee \<Rightarrow> k < n \<and> n < 2 ^ 31 \<and> Stm0Callback s
      | G_DMA n k b dmat rdptr \<Rightarrow> k < n \<and> n < 2 ^ 31 \<and> Stm0Callback s \<and> planned dmat rdptr (ds_st s)
          \<and> 0 < length (cells_of dmat) \<and> length (cells_of dmat) \<le> n - k
          \<and> (length (cells_of dmat) < n - k \<longrightarrow> bank (ds_st s) dvd filled (ds_st s) - length (cells_of dmat))
      | G_SYNC nxt \<Rightarrow> \<not> Stm0Callback s)"


lemma pc_ok_unchanged:
  assumes "pc_ok s" "ds_pc s' = ds_pc s" "ds_ended s' \<longrightarrow> ds_ended s" "ds_flag8 s \<longrightarrow> ds_flag8 s'" "Stm0Callback s' = Stm0Callback s"
    and "StIsReading (ds_st s) \<longrightarrow> StIsReading (ds_st s')" "ds_alarm s \<longrightarrow> ds_alarm s'"
    and "ds_st s' = (ds_st s)\<lparr>StIsReading := x\<rparr>"
  shows "pc_ok s'"
proof -
  have "planned d r (ds_st s') = planned d r (ds_st s)" "has_room (ds_st s') = has_room (ds_st s)" for d r
    using assms(8) by (simp_all add: planned_def unread_def has_room_def)
  then show ?thesis using assms by (auto simp: pc_ok_def split: game_pc.splits)
qed































section \<open>Every run\<close>







section \<open>Runs\<close>

text \<open>A stream in two banks of two sectors, on a disc whose sectors hold their own number.\<close>

definition own_number :: "32 word \<Rightarrow> 32 word \<Rightarrow> bool" where
  "own_number l d \<longleftrightarrow> d = l"

definition run_0 :: "32 word disc_sys" where
  "run_0 = the (sceCdStInit 4 2 (boot_drive False (\<lambda>_. 7)))"

definition run_1 :: "32 word disc_sys" where "run_1 = sceCdStStart 100 run_0"
definition run_2 :: "32 word disc_sys" where "run_2 = read_done [100, 101] run_1"
definition run_3 :: "32 word disc_sys" where "run_3 = call_back run_2"
definition run_4 :: "32 word disc_sys" where "run_4 = read_call 1 True False run_3"
definition run_5 :: "32 word disc_sys" where "run_5 = run_4\<lparr>ds_flag8 := False, ds_pc := G_COPY 1 0 True False\<rparr>"


lemma run_states:
  "ds_pc run_0 = G_IDLE" "ds_ended run_0 = False"
  "ds_queued run_1 = Some (StreamFill 100 2 0)" "ds_ended run_1 = False" "ds_pc run_1 = G_IDLE"
  "ds_ended run_2 = True" "ds_pc run_2 = G_IDLE"
  "ds_ended run_3 = False" "ds_pc run_3 = G_IDLE" "Stm0Callback run_3 = True"
  "ds_ended run_4 = False" "ds_pc run_4 = G_WAIT 1 0 True False" "ds_flag8 run_4 = True"
  "ds_ended run_5 = False" "ds_pc run_5 = G_COPY 1 0 True False"
  by code_simp+

lemma run_2_steps: "(stream_step own_number preempt paused)\<^sup>*\<^sup>* run_0 run_2"
proof -
  have "stream_step own_number preempt paused run_0 run_1"
    unfolding run_1_def by (rule stream_step.start) (simp_all add: run_states)
  moreover have "stream_step own_number preempt paused run_1 run_2"
    unfolding run_2_def by (rule stream_step.fill_end [OF run_states(3)]) (auto simp: run_states own_number_def less_2_cases_iff)
  ultimately show ?thesis by simp
qed






text \<open>
  Both conditions are needed. When a thread of the game with a higher priority than the reading thread's runs between the
  release of the drive and the callback and seeks there, the callback counts the fill it has just
  queued as read, and the game gets what the buffer held before.
\<close>

definition stale_1 :: "32 word disc_sys" where "stale_1 = sceCdStSeek 500 run_2"
definition stale_2 :: "32 word disc_sys" where "stale_2 = sync_done (Some 500) stale_1"
definition stale_3 :: "32 word disc_sys" where "stale_3 = call_back stale_2"
definition stale_4 :: "32 word disc_sys" where "stale_4 = read_call 1 True False stale_3"
definition stale_5 :: "32 word disc_sys" where "stale_5 = stale_4\<lparr>ds_flag8 := False, ds_pc := G_COPY 1 0 True False\<rparr>"
definition stale_6 :: "32 word disc_sys" where "stale_6 = copy_step 1 0 True False stale_5"

lemma stale_states:
  "ds_pc stale_1 = G_SYNC (Some 500)" "sceCdSync_ready stale_1 = True"
  "ds_ended stale_2 = True" "ds_pc stale_3 = G_IDLE" "Stm0Callback stale_3 = True"
  "ds_pc stale_4 = G_WAIT 1 0 True False" "ds_flag8 stale_4 = True" "ds_pc stale_5 = G_COPY 1 0 True False"
  "ds_out stale_6 = [100]" "ds_from stale_6 = 500"
  by code_simp+

theorem seek_before_callback_stale:
  "\<exists>s. (stream_step own_number True False)\<^sup>*\<^sup>* run_0 s \<and> ds_from s = 500 \<and> ds_out s = [100]"
proof -
  let ?step = "stream_step own_number True False"
  have "?step\<^sup>*\<^sup>* run_0 run_2" by (rule run_2_steps)
  moreover have "?step run_2 stale_1" unfolding stale_1_def by (rule stream_step.seek) (simp_all add: run_states)
  moreover have "?step stale_1 stale_2" unfolding stale_2_def by (rule stream_step.sync) (simp_all add: stale_states)
  moreover have "?step stale_2 stale_3" unfolding stale_3_def by (rule stream_step.callback) (simp add: stale_states)
  moreover have "?step stale_3 stale_4" unfolding stale_4_def by (rule stream_step.read) (simp_all add: stale_states)
  moreover have "?step stale_4 stale_5" unfolding stale_5_def by (rule stream_step.wake) (simp_all add: stale_states)
  moreover have "?step stale_5 stale_6" unfolding stale_6_def by (rule stream_step.copy) (simp_all add: stale_states)
  ultimately have "?step\<^sup>*\<^sup>* run_0 stale_6" by (meson rtranclp.rtrancl_into_rtrancl)
  with stale_states show ?thesis by blast
qed

text \<open>
  A read while the stream is paused starts a fill whose callback never runs, and it leaves
  \<open>StIsReading\<close> set: after the stream is resumed no fill is ever started and a blocking read waits
  for good.
\<close>

definition stall_1 :: "32 word disc_sys" where "stall_1 = sceCdStPause run_1"
definition stall_2 :: "32 word disc_sys" where "stall_2 = read_done [100, 101] stall_1"
definition stall_3 :: "32 word disc_sys" where "stall_3 = sync_done None stall_2"
definition stall_4 :: "32 word disc_sys" where "stall_4 = read_call 1 False False stall_3"
definition stall_5 :: "32 word disc_sys" where "stall_5 = stall_4\<lparr>ds_flag8 := False, ds_pc := G_COPY 1 0 False False\<rparr>"
definition stall_6 :: "32 word disc_sys" where "stall_6 = copy_step 1 0 False False stall_5"
definition stall_7 :: "32 word disc_sys" where "stall_7 = read_done [100, 101] stall_6"
definition stall_8 :: "32 word disc_sys" where "stall_8 = sceCdStResume stall_7"
definition stall_9 :: "32 word disc_sys" where "stall_9 = read_call 1 True False stall_8"

definition stalled :: "'d disc_sys \<Rightarrow> bool" where
  "stalled s \<longleftrightarrow> Stm0Callback s \<and> StIsReading (ds_st s) \<and> StStreamed (ds_st s) = 0
     \<and> StWritePtr (ds_st s) = StReadPtr (ds_st s) \<and> \<not> ds_ended s \<and> \<not> ds_alarm s \<and> ds_queued s \<in> {None, Some GameRead}
     \<and> ds_pc s \<in> {G_WAIT 1 0 True False, G_COPY 1 0 True False} \<and> ds_out s = []"

lemma stall_states:
  "ds_queued stall_1 = Some (StreamFill 100 2 0)" "ds_ended stall_1 = False"
  "ds_pc stall_2 = G_SYNC None" "ds_ended stall_2 = False" "sceCdSync_ready stall_2 = True"
  "ds_pc stall_3 = G_IDLE" "ds_ended stall_3 = False"
  "ds_pc stall_4 = G_WAIT 1 0 False False" "ds_ended stall_4 = False" "ds_flag8 stall_4 = True"
  "ds_pc stall_5 = G_COPY 1 0 False False" "ds_ended stall_5 = False"
  "ds_queued stall_6 = Some (StreamFill 100 2 0)" "ds_ended stall_6 = False"
  "ds_pc stall_7 = G_IDLE" "ds_ended stall_7 = False" "ds_pc stall_8 = G_IDLE" "ds_ended stall_8 = False"
  by code_simp+

lemma stalled_step:
  assumes "stream_step reads preempt paused s s'" "stalled s"
  shows "stalled s'"
proof -
  have st: "StStartFillStreamBuffer t = t" if "StIsReading (ds_st t)" for t :: "'a disc_sys"
    using that by (simp add: StStartFillStreamBuffer_def StFillStreamBuffer_def)
  show ?thesis
    using assms
    by (cases rule: stream_step.cases)
      (auto simp: stalled_def read_done_def cdvdman_cb_event_def cdvdman_signal_read_end_def cdvdman_StreamRefill_def event_alarm_cb_def st
        cdvdman_AsyncRead_def cdvdman_QueueRead_def copy_step_def copied_def ReadSectors_def Let_def upper_part_def lower_part_def
        move_on_def sectors_at_def)
qed

theorem paused_read_stalls:
  "\<exists>s. (stream_step own_number False True)\<^sup>*\<^sup>* run_0 s
     \<and> (\<forall>s'. (stream_step own_number False True)\<^sup>*\<^sup>* s s' \<longrightarrow> ds_out s' = [] \<and> ds_pc s' \<in> {G_WAIT 1 0 True False, G_COPY 1 0 True False})"
proof -
  let ?step = "stream_step own_number False True"
  have d: "\<forall>i < unat (2 :: 16 word). own_number (100 + of_nat i) ([100, 101] ! i)" by (auto simp: own_number_def less_2_cases_iff)
  have "?step run_0 run_1" unfolding run_1_def by (rule stream_step.start) (simp_all add: run_states)
  moreover have "?step run_1 stall_1" unfolding stall_1_def by (rule stream_step.pause) (simp_all add: run_states)
  moreover have "?step stall_1 stall_2" unfolding stall_2_def by (rule stream_step.fill_end [OF stall_states(1) _ d]) (simp_all add: stall_states)
  moreover have "?step stall_2 stall_3" unfolding stall_3_def by (rule stream_step.sync) (simp_all add: stall_states)
  moreover have "?step stall_3 stall_4" unfolding stall_4_def by (rule stream_step.read) (simp_all add: stall_states)
  moreover have "?step stall_4 stall_5" unfolding stall_5_def by (rule stream_step.wake) (simp_all add: stall_states)
  moreover have "?step stall_5 stall_6" unfolding stall_6_def by (rule stream_step.copy) (simp_all add: stall_states)
  moreover have "?step stall_6 stall_7" unfolding stall_7_def by (rule stream_step.fill_end [OF stall_states(13) _ d]) (simp_all add: stall_states)
  moreover have "?step stall_7 stall_8" unfolding stall_8_def by (rule stream_step.resume) (simp_all add: stall_states)
  moreover have "?step stall_8 stall_9" unfolding stall_9_def by (rule stream_step.read) (simp_all add: stall_states)
  ultimately have r: "?step\<^sup>*\<^sup>* run_0 stall_9" by (meson rtranclp.rtrancl_into_rtrancl rtranclp.rtrancl_refl)
  have "stalled s'" if "?step\<^sup>*\<^sup>* stall_9 s'" for s'
    using that
  proof (induction rule: rtranclp_induct)
    case base
    show ?case by code_simp
  qed (rule stalled_step)
  then have "\<forall>s'. ?step\<^sup>*\<^sup>* stall_9 s' \<longrightarrow> ds_out s' = [] \<and> ds_pc s' \<in> {G_WAIT 1 0 True False, G_COPY 1 0 True False}"
    unfolding stalled_def by blast
  with r show ?thesis by blast
qed

end
