(* ===== verification/ByteData.thy ===== *)
theory ByteData
  imports WordFacts
begin

text \<open>Bytes of a file or a device: little-endian words and the bytes at an offset.\<close>

unbundle bit_operations_syntax

type_synonym bytes = "8 word list"

section \<open>Little-endian words\<close>

definition le32 :: "bytes \<Rightarrow> 32 word" where
  "le32 bs = (\<Sum>i<4. push_bit (8 * i) (ucast (bs ! i)))"

fun le32s :: "bytes \<Rightarrow> 32 word list" where
  "le32s (a # b # c # d # bs) = le32 [a, b, c, d] # le32s bs"
| "le32s _ = []"

lemma le32s_short: "length bs < 4 \<Longrightarrow> le32s bs = []"
  by (cases bs rule: le32s.cases) auto

definition le16 :: "bytes \<Rightarrow> 16 word" where
  "le16 bs = ucast (bs ! 0) OR push_bit 8 (ucast (bs ! 1))"

definition bytes16 :: "16 word \<Rightarrow> bytes" where
  "bytes16 w = [ucast w, ucast (drop_bit 8 w)]"

definition bytes32 :: "32 word \<Rightarrow> bytes" where
  "bytes32 w = [ucast w, ucast (drop_bit 8 w), ucast (drop_bit 16 w), ucast (drop_bit 24 w)]"

lemma length_bytes16 [simp]: "length (bytes16 w) = 2"
  by (simp add: bytes16_def)

lemma length_bytes32 [simp]: "length (bytes32 w) = 4"
  by (simp add: bytes32_def)

lemma le16_bytes16 [simp]: "le16 (bytes16 w) = w"
  by (rule bit_word_eqI) (auto simp: le16_def bytes16_def bit_simps)

lemma bit8_high: "8 \<le> n \<Longrightarrow> \<not> bit (w :: 8 word) n"
  using bit_imp_le_length [of w n] by auto

lemma bytes16_le16:
  assumes "length bs = 2"
  shows "bytes16 (le16 bs) = bs"
proof -
  obtain a b where bs: "bs = [a, b]" using assms by (auto simp: numeral_eq_Suc length_Suc_conv)
  show ?thesis unfolding bs le16_def bytes16_def
    by (auto intro!: bit_word_eqI simp: bit_simps bit8_high)
qed

lemma le32_or: "le32 [a, b, c, d] = ucast a OR push_bit 8 (ucast b) OR push_bit 16 (ucast c) OR push_bit 24 (ucast d)"
proof -
  have e: "le32 [a, b, c, d] = ucast a + (push_bit 8 (ucast b) + (push_bit 16 (ucast c) + push_bit 24 (ucast d)))"
    by (simp add: le32_def numeral_eq_Suc add.assoc)
  have o3: "push_bit 16 (ucast c) + push_bit 24 (ucast d) = (push_bit 16 (ucast c) OR push_bit 24 (ucast d) :: 32 word)"
    by (rule disjunctive_add_eq_or) (auto intro!: bit_word_eqI simp: bit_simps bit8_high)
  have o2: "push_bit 8 (ucast b) + (push_bit 16 (ucast c) OR push_bit 24 (ucast d))
      = (push_bit 8 (ucast b) OR (push_bit 16 (ucast c) OR push_bit 24 (ucast d)) :: 32 word)"
    by (rule disjunctive_add_eq_or) (auto intro!: bit_word_eqI simp: bit_simps bit8_high)
  have o1: "ucast a + (push_bit 8 (ucast b) OR (push_bit 16 (ucast c) OR push_bit 24 (ucast d)))
      = (ucast a OR (push_bit 8 (ucast b) OR (push_bit 16 (ucast c) OR push_bit 24 (ucast d))) :: 32 word)"
    by (rule disjunctive_add_eq_or) (auto intro!: bit_word_eqI simp: bit_simps bit8_high)
  show ?thesis unfolding e o3 o2 o1 by (simp add: or.assoc)
qed

lemma le32_bytes32 [simp]: "le32 (bytes32 w) = w"
proof -
  have "n < 8 \<or> n - 8 < 8 \<and> 8 \<le> n \<or> n - 16 < 8 \<and> 16 \<le> n \<or> n - 24 < 8 \<and> 24 \<le> n" if "n < 32" for n :: nat
    using that by arith
  then show ?thesis unfolding bytes32_def le32_or by (intro bit_word_eqI) (fastforce simp: bit_simps)
qed

lemma bytes32_le32:
  assumes "length bs = 4"
  shows "bytes32 (le32 bs) = bs"
proof -
  obtain a b c d where bs: "bs = [a, b, c, d]" using assms by (auto simp: numeral_eq_Suc length_Suc_conv)
  show ?thesis unfolding bs le32_or bytes32_def
    by (auto intro!: bit_word_eqI simp: bit_simps bit8_high)
qed

lemma le32s_words: "le32s (concat (map bytes32 ws) @ bs) = ws @ le32s bs"
proof (induction ws)
  case (Cons w ws)
  then show ?case using le32_bytes32 [of w] by (simp add: bytes32_def)
qed simp

lemma length_words [simp]: "length (concat (map bytes32 ws)) = 4 * length ws"
  by (induction ws) auto

section \<open>Contents by offset\<close>

text \<open>A field of a block, and a write into the contents.\<close>

definition field :: "bytes \<Rightarrow> nat \<Rightarrow> nat \<Rightarrow> bytes" where
  "field bs at n = take n (drop at bs)"

definition store_at :: "nat \<Rightarrow> bytes \<Rightarrow> (nat \<Rightarrow> 8 word) \<Rightarrow> nat \<Rightarrow> 8 word" where
  "store_at pos bs img = (\<lambda>i. if pos \<le> i \<and> i < pos + length bs then bs ! (i - pos) else img i)"

definition bytes_at :: "(nat \<Rightarrow> 8 word) \<Rightarrow> nat \<Rightarrow> nat \<Rightarrow> bytes" where
  "bytes_at img a n = map (\<lambda>i. img (a + i)) [0..<n]"

lemma length_bytes_at [simp]: "length (bytes_at img a n) = n"
  by (simp add: bytes_at_def)

lemma bytes_at_append: "bytes_at img a (m + n) = bytes_at img a m @ bytes_at img (a + m) n"
  by (rule nth_equalityI) (auto simp: bytes_at_def nth_append)

lemma bytes_at_take: "k \<le> n \<Longrightarrow> take k (bytes_at img a n) = bytes_at img a k"
  by (rule nth_equalityI) (auto simp: bytes_at_def)

lemma bytes_at_drop: "drop k (bytes_at img a n) = bytes_at img (a + k) (n - k)"
  by (rule nth_equalityI) (auto simp: bytes_at_def add.assoc)

lemma bytes_at_field: "at + n \<le> k \<Longrightarrow> field (bytes_at img a k) at n = bytes_at img (a + at) n"
  by (simp add: field_def bytes_at_drop bytes_at_take)

lemma bytes_at_store_same: "bytes_at (store_at a bs img) a (length bs) = bs"
  by (rule nth_equalityI) (simp_all add: bytes_at_def store_at_def)

lemma bytes_at_store_other: "a + n \<le> pos \<or> pos + length bs \<le> a \<Longrightarrow> bytes_at (store_at pos bs img) a n = bytes_at img a n"
  by (auto simp: bytes_at_def store_at_def)

lemma bytes_at_concat: "concat (map (\<lambda>p. bytes_at img (a + p * n) n) [0..<k]) = bytes_at img a (k * n)"
proof (induction k)
  case (Suc k)
  then show ?case using bytes_at_append [of img a "k * n" n] by (simp add: add.commute)
qed (simp add: bytes_at_def)

lemma le32s_bytes_at: "le32s (bytes_at img a n) = map (\<lambda>k. le32 (bytes_at img (a + 4 * k) 4)) [0..<n div 4]"
proof (induction n arbitrary: a rule: less_induct)
  case (less n)
  show ?case
  proof (cases "n < 4")
    case True
    then show ?thesis by (simp add: le32s_short)
  next
    case False
    then obtain m where m: "n = 4 + m" using le_Suc_ex not_less by blast
    have b: "bytes_at img a 4 = [img a, img (a + 1), img (a + 2), img (a + 3)]" by (simp add: bytes_at_def upt_rec numeral_3_eq_3)
    have "le32s (bytes_at img a n) = le32 (bytes_at img a 4) # le32s (bytes_at img (a + 4) m)"
      unfolding m bytes_at_append b by simp
    also have "\<dots> = le32 (bytes_at img a 4) # map (\<lambda>k. le32 (bytes_at img (a + 4 + 4 * k) 4)) [0..<m div 4]"
      using less.IH [of m "a + 4"] m by simp
    also have "\<dots> = map (\<lambda>k. le32 (bytes_at img (a + 4 * k) 4)) [0..<Suc (m div 4)]"
      by (subst (2) upt_conv_Cons) (simp_all add: map_Suc_upt [symmetric] comp_def add.assoc del: map_Suc_upt upt_Suc)
    finally show ?thesis by (simp only: m div_add_self1 Suc_eq_plus1)
  qed
qed

end
