(* ===== verification/Zso.thy ===== *)
theory Zso
  imports ByteData "HOL-Library.Monad_Syntax"
begin

text \<open>
  The reader of compressed disc images (\<open>modules/isofs/zso.c\<close>), which the console side
  (\<open>src/zso.c\<close>) and the game side (\<open>iopcore/cdvdman/cdvdman.c\<close>) share; each provides its own
  \<open>read_raw_data\<close>, an argument here. An image is a header, an index of offsets and the blocks, one for
  each sector of 2048 bytes, stored raw or compressed.

  \<open>LZ4_decompress_fast\<close> is the LZ4 library: an argument that maps the source bytes and the old contents
  of the destination to its new contents. A block is read into the end of the caller's buffer and
  decoded towards its start in place; copies and accesses outside a buffer are the answer \<open>None\<close>. The
  code moves a raw block with \<open>memcpy\<close> although source and destination can overlap; the model copies
  the source as it was, which is what a copy from low to high addresses does here.
\<close>

abbreviation "ZISO_IDX_MAX_ENTRIES \<equiv> (257::nat)"

record ZISO_header =
  zh_total_bytes :: "64 word"
  zh_block_size :: "32 word"
  zh_align :: "8 word"

text \<open>
  The statics of the file. \<open>zs_dev\<close> is what \<open>read_raw_data\<close> keeps; \<open>ziso_idx_cache\<close> and
  \<open>ziso_tmp_buf\<close> are one allocation, absent when it failed.
\<close>

record 's zso_state =
  zs_ready :: bool
  ziso_idx_cache :: "32 word list"
  ziso_idx_start_block :: int
  ziso_idx_entries :: nat
  ziso_align :: nat
  ziso_total_block :: "32 word"
  ziso_tmp_buf :: bytes
  zs_dev :: 's

definition ziso_init :: "(nat \<Rightarrow> (32 word list \<times> bytes) option) \<Rightarrow> ZISO_header \<Rightarrow> 's zso_state \<Rightarrow> 's zso_state \<times> bool" where
  "ziso_init alloc header s =
     (if zh_align header > 11 \<or> zh_block_size header \<noteq> 2048 then (s, False)
      else
        let lo = ucast (zh_total_bytes header) :: 32 word;
            hi = ucast (drop_bit 32 (zh_total_bytes header)) :: 32 word;
            s1 = s\<lparr>ziso_align := unat (zh_align header), ziso_idx_start_block := - 1,
                   ziso_total_block := drop_bit 11 lo OR push_bit 21 (hi AND 0x7FF)\<rparr>
        in if zs_ready s then (s1, True)
           else (case alloc (2048 + 4 * ZISO_IDX_MAX_ENTRIES + 64) of
                   None \<Rightarrow> (s1, True)
                 | Some (cache, tmp) \<Rightarrow> (s1\<lparr>zs_ready := True, ziso_idx_cache := cache, ziso_tmp_buf := tmp\<rparr>, True)))"

section \<open>The index\<close>

definition offset_of :: "32 word \<Rightarrow> 32 word" where
  "offset_of e = e AND 0x7FFFFFFF"

definition is_raw :: "32 word \<Rightarrow> bool" where
  "is_raw e \<longleftrightarrow> e AND 0x80000000 \<noteq> 0"

text \<open>
  \<open>read_raw_data\<close>: whether the bytes go to the index cache, how many, from which offset, with which shift;
  it uses \<open>ziso_tmp_buf\<close> itself. \<open>None\<close> is the answer -1, fewer bytes are a short read.
\<close>

type_synonym 's raw_reader = "bool \<Rightarrow> 32 word \<Rightarrow> 32 word \<Rightarrow> nat \<Rightarrow> 's \<times> bytes \<Rightarrow> ('s \<times> bytes) \<times> bytes option"

definition refresh_index :: "'s raw_reader \<Rightarrow> 32 word \<Rightarrow> 32 word \<Rightarrow> 's zso_state \<Rightarrow> 's zso_state \<times> bool" where
  "refresh_index rd lsn count s =
     (if ziso_idx_start_block s < 0 \<or> uint lsn < ziso_idx_start_block s
        \<or> lsn + count \<ge> word_of_int (ziso_idx_start_block s) + of_nat (ziso_idx_entries s) - 1
      then
        (case rd True (of_nat ZISO_IDX_MAX_ENTRIES * 4) (lsn * 4 + 24) 0 (zs_dev s, ziso_tmp_buf s) of
           ((dev, tmp), r) \<Rightarrow>
             let ws = (case r of None \<Rightarrow> [] | Some bs \<Rightarrow> le32s bs);
                 s1 = s\<lparr>zs_dev := dev, ziso_tmp_buf := tmp, ziso_idx_cache := ws @ drop (length ws) (ziso_idx_cache s),
                        ziso_idx_entries := length ws\<rparr>
             in if of_nat (length ws) < count + 1 then (s1\<lparr>ziso_idx_start_block := - 1\<rparr>, False)
                else (s1\<lparr>ziso_idx_start_block := sint lsn\<rparr>, True))
      else (s, True))"

section \<open>Decoding in place\<close>

definition splice :: "nat \<Rightarrow> bytes \<Rightarrow> bytes \<Rightarrow> bytes option" where
  "splice at bs buf = (if at + length bs \<le> length buf then Some (take at buf @ bs @ drop (at + length bs) buf) else None)"

definition slice :: "nat \<Rightarrow> nat \<Rightarrow> bytes \<Rightarrow> bytes option" where
  "slice at n buf = (if at + n \<le> length buf then Some (take n (drop at buf)) else None)"

text \<open>
  The loop over the sectors. The list is the index from the current block on; \<open>addr\<close> and \<open>c\<close> are
  offsets in the caller's buffer.
\<close>

fun decode_blocks :: "(bytes \<Rightarrow> bytes \<Rightarrow> bytes) \<Rightarrow> nat \<Rightarrow> 32 word list \<Rightarrow> nat \<Rightarrow> nat \<Rightarrow> bytes \<times> bytes \<Rightarrow> (bytes \<times> bytes) option" where
  "decode_blocks lz4 align (e # e' # es) addr c (buf, tmp) =
     (let b_size = push_bit align (offset_of e' - offset_of e);
          r = min (unat b_size) 2048
      in do {
        src \<leftarrow> slice c r buf;
        (buf', tmp') \<leftarrow>
          (if is_raw e then do { b \<leftarrow> splice addr src buf; Some (b, tmp) }
           else do {
             t \<leftarrow> splice 0 src tmp;
             dest \<leftarrow> slice addr 2048 buf;
             b \<leftarrow> splice addr (lz4 t dest) buf;
             Some (b, t)
           });
        decode_blocks lz4 align (e' # es) (addr + 2048) (c + unat b_size) (buf', tmp')
      })"
| "decode_blocks lz4 align es addr c (buf, tmp) = Some (buf, tmp)"

text \<open>Whether the index of a request can be right.\<close>

definition index_ok :: "nat \<Rightarrow> 32 word list \<Rightarrow> bool" where
  "index_ok align es \<longleftrightarrow>
     list_all2 (\<lambda>e e'. \<not> offset_of e' < offset_of e) (butlast es) (tl es)
     \<and> \<not> offset_of (last es) - offset_of (hd es) > drop_bit align (of_nat (length es - 1) * 2048)"

text \<open>The answer of a slice and of a read: -1 for a failed device read, or the sectors decoded, with their bytes.\<close>

definition decode_slice ::
  "'s raw_reader \<Rightarrow> (bytes \<Rightarrow> bytes \<Rightarrow> bytes) \<Rightarrow> 32 word list \<Rightarrow> nat \<Rightarrow> bytes \<Rightarrow> 's zso_state \<Rightarrow> ('s zso_state \<times> bytes \<times> int) option" where
  "decode_slice rd lz4 es n buf s =
     (if \<not> index_ok (ziso_align s) es then Some (s, buf, 0)
      else
        let o_start = offset_of (hd es);
            sz = push_bit (ziso_align s) (offset_of (last es) - o_start)
        in case rd False sz o_start (ziso_align s) (zs_dev s, ziso_tmp_buf s) of
             ((dev, tmp), r) \<Rightarrow>
               (case r of
                  None \<Rightarrow> Some (s\<lparr>zs_dev := dev, ziso_tmp_buf := tmp\<rparr>, buf, - 1)
                | Some bs \<Rightarrow>
                    if unat sz > n * 2048 then None
                    else do {
                      b \<leftarrow> splice (n * 2048 - unat sz) bs buf;
                      if length bs \<noteq> unat sz then Some (s\<lparr>zs_dev := dev, ziso_tmp_buf := tmp\<rparr>, b, - 1)
                      else do {
                        (b', tmp') \<leftarrow> decode_blocks lz4 (ziso_align s) es 0 (n * 2048 - unat sz) (b, tmp);
                        Some (s\<lparr>zs_dev := dev, ziso_tmp_buf := tmp'\<rparr>, b', int n)
                      }
                    }))"

definition ziso_read_slice ::
  "'s raw_reader \<Rightarrow> (bytes \<Rightarrow> bytes \<Rightarrow> bytes) \<Rightarrow> 32 word \<Rightarrow> 32 word \<Rightarrow> bytes \<Rightarrow> 's zso_state \<Rightarrow> ('s zso_state \<times> bytes \<times> int) option" where
  "ziso_read_slice rd lz4 lsn count buf s =
     (case refresh_index rd lsn count s of
        (s1, ok) \<Rightarrow>
          if \<not> ok then Some (s1, buf, - 1)
          else
            let at = unat (lsn - word_of_int (ziso_idx_start_block s1)) in
            if length (ziso_idx_cache s1) < at + unat count + 1 then None
            else decode_slice rd lz4 (take (unat count + 1) (drop at (ziso_idx_cache s1))) (unat count) buf s1)"

text \<open>A read goes in slices that the index cache covers; \<open>buf\<close> is the caller's buffer, of \<open>count\<close> sectors.\<close>

function read_slices ::
  "'s raw_reader \<Rightarrow> (bytes \<Rightarrow> bytes \<Rightarrow> bytes) \<Rightarrow> 32 word \<Rightarrow> nat \<Rightarrow> nat \<Rightarrow> bytes \<Rightarrow> 's zso_state \<Rightarrow> ('s zso_state \<times> bytes \<times> int) option" where
  "read_slices rd lz4 lsn count fin buf s =
     (if fin < count then
        let n = min (count - fin) (ZISO_IDX_MAX_ENTRIES - 1) in
        do {
          part \<leftarrow> slice (fin * 2048) (n * 2048) buf;
          (s', part', r) \<leftarrow> ziso_read_slice rd lz4 (lsn + of_nat fin) (of_nat n) part s;
          buf' \<leftarrow> splice (fin * 2048) part' buf;
          if r < 0 then Some (s', buf', - 1)
          else if nat r \<noteq> n then Some (s', buf', int fin + r)
          else read_slices rd lz4 lsn count (fin + nat r) buf' s'
        }
      else Some (s, buf, int fin))"
  by pat_completeness auto
termination
  by (relation "measure (\<lambda>(_, _, _, count, fin, _, _). count - fin)") (auto simp: min_def)

declare read_slices.simps [simp del]

definition ziso_read_sector ::
  "'s raw_reader \<Rightarrow> (bytes \<Rightarrow> bytes \<Rightarrow> bytes) \<Rightarrow> 32 word \<Rightarrow> 32 word \<Rightarrow> bytes \<Rightarrow> 's zso_state \<Rightarrow> ('s zso_state \<times> bytes \<times> int) option" where
  "ziso_read_sector rd lz4 lsn count buf s =
     (if \<not> zs_ready s then Some (s, buf, 0)
      else if lsn \<ge> ziso_total_block s then Some (s, buf, 0)
      else
        let count' = (if lsn + count > ziso_total_block s then ziso_total_block s - lsn else count) in
        read_slices rd lz4 lsn (unat count') 0 buf s)"

section \<open>Images\<close>

definition index_at :: "(nat \<Rightarrow> 8 word) \<Rightarrow> nat \<Rightarrow> 32 word" where
  "index_at img i = le32 (bytes_at img (24 + 4 * i) 4)"

definition block_start :: "(nat \<Rightarrow> 8 word) \<Rightarrow> nat \<Rightarrow> nat \<Rightarrow> nat" where
  "block_start img align i = unat (offset_of (index_at img i)) * 2 ^ align"

definition block_at :: "(nat \<Rightarrow> 8 word) \<Rightarrow> nat \<Rightarrow> nat \<Rightarrow> bytes" where
  "block_at img align i = bytes_at img (block_start img align i) (block_start img align (Suc i) - block_start img align i)"

text \<open>An image that holds the given sectors: every block is at most a sector long and decodes to it.\<close>

definition good_block :: "(bytes \<Rightarrow> bytes \<Rightarrow> bytes) \<Rightarrow> (nat \<Rightarrow> 8 word) \<Rightarrow> nat \<Rightarrow> (nat \<Rightarrow> bytes) \<Rightarrow> nat \<Rightarrow> bool" where
  "good_block lz4 img align sector i \<longleftrightarrow>
     block_start img align i \<le> block_start img align (Suc i) \<and> length (block_at img align i) \<le> 2048 \<and> length (sector i) = 2048
     \<and> (if is_raw (index_at img i) then block_at img align i = sector i
        else \<forall>junk dest. length dest = 2048 \<longrightarrow> lz4 (block_at img align i @ junk) dest = sector i)"

definition zso_image :: "(bytes \<Rightarrow> bytes \<Rightarrow> bytes) \<Rightarrow> (nat \<Rightarrow> 8 word) \<Rightarrow> nat \<Rightarrow> nat \<Rightarrow> (nat \<Rightarrow> bytes) \<Rightarrow> bool" where
  "zso_image lz4 img align blocks sector \<longleftrightarrow> (\<forall>i < blocks. good_block lz4 img align sector i)"

text \<open>Slices of a buffer.\<close>

lemma splice_append: "length old = length bs \<Longrightarrow> splice (length pre) bs (pre @ old @ post) = Some (pre @ bs @ post)"
  by (simp add: splice_def)

lemma slice_append: "slice (length pre) (length mid) (pre @ mid @ post) = Some mid"
  by (simp add: slice_def)

lemma splice_length: "splice at bs buf = Some buf' \<Longrightarrow> length buf' = length buf"
  by (auto simp: splice_def split: if_splits)

text \<open>Decoding in place never overwrites a block that is still to be decoded.\<close>

lemma block_size_word:
  assumes "block_start img align i \<le> block_start img align (Suc i)" "length (block_at img align i) \<le> 2048" "align \<le> 11"
  shows "unat (push_bit align (offset_of (index_at img (Suc i)) - offset_of (index_at img i))) = length (block_at img align i)"
proof -
  let ?a = "offset_of (index_at img i)" and ?b = "offset_of (index_at img (Suc i))"
  have "unat ?a \<le> unat ?b" using assms(1) by (simp add: block_start_def)
  then have d: "unat (?b - ?a) = unat ?b - unat ?a" by (simp add: unat_sub word_le_nat_alt)
  have l: "length (block_at img align i) = (unat ?b - unat ?a) * 2 ^ align"
    by (simp add: block_at_def block_start_def diff_mult_distrib)
  then have "unat (?b - ?a) * 2 ^ align < 2 ^ 32" using assms(2) d by simp
  then show ?thesis
    using d l by (simp only: unsigned_push_bit_eq) (simp add: push_bit_eq_mult take_bit_nat_eq_self)
qed

lemma concat_bound: "\<forall>x \<in> set xs. length (f x) \<le> n \<Longrightarrow> length (concat (map f xs)) \<le> n * length xs"
  by (induction xs) auto

lemma decode_blocks_image:
  assumes "\<forall>j. i \<le> j \<and> j < i + n \<longrightarrow> good_block lz4 img align sector j" "align \<le> 11"
    and "cmp = concat (map (block_at img align) [i..<i + n])" "length gap + length cmp = 2048 * n" "length tmp = 2048"
  shows "\<exists>tmp'. decode_blocks lz4 align (map (index_at img) [i..<i + n + 1]) (length pre) (length pre + length gap) (pre @ gap @ cmp, tmp)
      = Some (pre @ concat (map sector [i..<i + n]), tmp') \<and> length tmp' = 2048"
  using assms(1,3-5)
proof (induction n arbitrary: i pre gap cmp tmp)
  case 0
  then show ?case by simp
next
  case (Suc n)
  let ?blk = "block_at img align i" and ?rest = "concat (map (block_at img align) [Suc i..<Suc i + n])"
  have g: "block_start img align i \<le> block_start img align (Suc i)" "length ?blk \<le> 2048" "length (sector i) = 2048"
    "if is_raw (index_at img i) then ?blk = sector i else \<forall>junk dest. length dest = 2048 \<longrightarrow> lz4 (?blk @ junk) dest = sector i"
    using Suc.prems(1) unfolding good_block_def by (meson le_refl less_add_same_cancel1 zero_less_Suc)+
  have rest: "length ?rest \<le> 2048 * n"
  proof -
    have "length (block_at img align j) \<le> 2048" if "j \<in> set [Suc i..<Suc i + n]" for j
    proof -
      have "i \<le> j \<and> j < i + Suc n" using that by auto
      then show ?thesis using Suc.prems(1) unfolding good_block_def by blast
    qed
    then show ?thesis using concat_bound [of "[Suc i..<Suc i + n]" "block_at img align" 2048] by (simp del: upt_Suc)
  qed
  have cmp: "cmp = ?blk @ ?rest" using Suc.prems(2) upt_conv_Cons [of i "i + Suc n"] by (simp del: upt_Suc)
  let ?gap = "gap @ ?blk"
  have lg: "length ?gap = 2048 + (2048 * n - length ?rest)" "2048 \<le> length ?gap" using Suc.prems(3) cmp rest by simp_all
  define dest where "dest = take 2048 ?gap"
  define gap' where "gap' = drop 2048 ?gap"
  have gg: "?gap = dest @ gap'" "length dest = 2048"
    using lg(2) by (simp_all only: dest_def gap'_def append_take_drop_id length_take min_absorb2)
  have idx: "map (index_at img) [i..<i + Suc n + 1] = index_at img i # index_at img (Suc i) # map (index_at img) [Suc (Suc i)..<Suc i + n + 1]"
    "map (index_at img) [Suc i..<Suc i + n + 1] = index_at img (Suc i) # map (index_at img) [Suc (Suc i)..<Suc i + n + 1]"
    using upt_conv_Cons [of i "i + Suc n + 1"] upt_conv_Cons [of "Suc i" "Suc i + n + 1"] by (simp_all del: upt_Suc)
  have src: "slice (length pre + length gap) (min (length ?blk) 2048) (pre @ gap @ cmp) = Some ?blk"
    using slice_append [of "pre @ gap" ?blk ?rest] g(2) cmp by simp
  have bs: "unat (push_bit align (offset_of (index_at img (Suc i)) - offset_of (index_at img i))) = length ?blk"
    by (rule block_size_word [OF g(1,2) assms(2)])
  have full: "pre @ gap @ cmp = pre @ dest @ gap' @ ?rest" using gg(1) unfolding cmp by (metis append.assoc)
  have at: "slice (length pre) 2048 (pre @ gap @ cmp) = Some dest"
    unfolding full gg(2) [symmetric] by (rule slice_append)
  have put: "splice (length pre) (sector i) (pre @ gap @ cmp) = Some ((pre @ sector i) @ gap' @ ?rest)"
    using splice_append [of dest "sector i" pre "gap' @ ?rest"] gg(2) g(3) unfolding full by simp
  have tm: "splice 0 ?blk tmp = Some (?blk @ drop (length ?blk) tmp)" using Suc.prems(4) g(2) by (simp add: splice_def)
  have step: "decode_blocks lz4 align (index_at img i # index_at img (Suc i) # es) (length pre) (length pre + length gap) (pre @ gap @ cmp, tmp)
      = decode_blocks lz4 align (index_at img (Suc i) # es) (length pre + 2048) (length pre + length gap + length ?blk) ((pre @ sector i) @ gap' @ ?rest, t)"
    if "t = (if is_raw (index_at img i) then tmp else ?blk @ drop (length ?blk) tmp)" for es t
    using g(4) src at put bs gg(2) tm that by (cases "is_raw (index_at img i)") (simp_all del: upt_Suc)
  define t where "t = (if is_raw (index_at img i) then tmp else ?blk @ drop (length ?blk) tmp)"
  have lt: "length t = 2048" using Suc.prems(4) g(2) by (simp add: t_def)
  have "length gap + length ?blk = 2048 + length gap'" using gg by (metis length_append)
  then have sum: "length pre + length gap + length ?blk = length (pre @ sector i) + length gap'" "length pre + 2048 = length (pre @ sector i)"
    using g(3) by simp_all
  have "length gap' = 2048 * n - length ?rest" using lg(1) unfolding gap'_def length_drop by linarith
  then have "length gap' + length ?rest = 2048 * n" using rest by linarith
  moreover have "\<forall>j. Suc i \<le> j \<and> j < Suc i + n \<longrightarrow> good_block lz4 img align sector j" using Suc.prems(1) by simp
  ultimately obtain tmp' where t': "decode_blocks lz4 align (map (index_at img) [Suc i..<Suc i + n + 1]) (length (pre @ sector i))
      (length (pre @ sector i) + length gap') ((pre @ sector i) @ gap' @ ?rest, t)
      = Some ((pre @ sector i) @ concat (map sector [Suc i..<Suc i + n]), tmp')" "length tmp' = 2048"
    using Suc.IH [OF _ refl _ lt, of "Suc i" gap' "pre @ sector i"] by blast
  have "concat (map sector [i..<i + Suc n]) = sector i @ concat (map sector [Suc i..<Suc i + n])"
    using upt_conv_Cons [of i "i + Suc n"] by (simp del: upt_Suc)
  then show ?case using t' unfolding idx step [OF t_def] sum by (simp del: upt_Suc)
qed

section \<open>Reading from a device that holds the image\<close>

lemma blocks_ascend:
  assumes "\<forall>j. i \<le> j \<and> j < i + n \<longrightarrow> block_start img align j \<le> block_start img align (Suc j)"
  shows "block_start img align i \<le> block_start img align (i + n)"
  using assms
proof (induction n)
  case (Suc n)
  then have "block_start img align i \<le> block_start img align (i + n)" by simp
  also have "\<dots> \<le> block_start img align (Suc (i + n))" using Suc.prems by simp
  finally show ?case by simp
qed simp

lemma blocks_concat:
  assumes "\<forall>j. i \<le> j \<and> j < i + n \<longrightarrow> block_start img align j \<le> block_start img align (Suc j)"
  shows "concat (map (block_at img align) [i..<i + n]) = bytes_at img (block_start img align i) (block_start img align (i + n) - block_start img align i)"
  using assms
proof (induction n)
  case (Suc n)
  let ?s = "block_start img align"
  have le: "?s i \<le> ?s (i + n)" "?s (i + n) \<le> ?s (Suc (i + n))" using Suc.prems by (simp_all add: blocks_ascend)
  have "concat (map (block_at img align) [i..<i + n]) = bytes_at img (?s i) (?s (i + n) - ?s i)" using Suc by simp
  moreover have "block_at img align (i + n) = bytes_at img (?s (i + n)) (?s (Suc (i + n)) - ?s (i + n))" by (simp add: block_at_def)
  ultimately show ?case
    using le bytes_at_append [of img "?s i" "?s (i + n) - ?s i" "?s (Suc (i + n)) - ?s (i + n)"] by simp
qed (simp add: bytes_at_def)

text \<open>The state of a reader: the entries of the index cache are those of the image.\<close>

definition reader_ok :: "('s \<Rightarrow> bool) \<Rightarrow> (nat \<Rightarrow> 8 word) \<Rightarrow> 's zso_state \<Rightarrow> bool" where
  "reader_ok good img s \<longleftrightarrow> good (zs_dev s) \<and> length (ziso_tmp_buf s) = 2048 \<and> length (ziso_idx_cache s) = ZISO_IDX_MAX_ENTRIES \<and> ziso_align s \<le> 11
     \<and> (0 \<le> ziso_idx_start_block s \<longrightarrow> ziso_idx_start_block s < 2 ^ 29 \<and> 0 < ziso_idx_entries s \<and> ziso_idx_entries s \<le> ZISO_IDX_MAX_ENTRIES
          \<and> (\<forall>k < ziso_idx_entries s. ziso_idx_cache s ! k = index_at img (nat (ziso_idx_start_block s) + k)))"

definition same_image :: "('s \<Rightarrow> bool) \<Rightarrow> (nat \<Rightarrow> 8 word) \<Rightarrow> 's zso_state \<Rightarrow> 's zso_state \<Rightarrow> bool" where
  "same_image good img s s' \<longleftrightarrow> reader_ok good img s' \<and> ziso_align s' = ziso_align s \<and> ziso_total_block s' = ziso_total_block s \<and> zs_ready s' = zs_ready s"

text \<open>Some read of the device returns less than it was asked for.\<close>

definition falls_short :: "'s raw_reader \<Rightarrow> ('s \<Rightarrow> bool) \<Rightarrow> bool" where
  "falls_short rd good \<longleftrightarrow> (\<exists>b sz at align dev tmp st' r. good dev \<and> length tmp = 2048 \<and> align \<le> 11 \<and> rd b sz at align (dev, tmp) = (st', r)
     \<and> (case r of None \<Rightarrow> True | Some bs \<Rightarrow> length bs < unat sz))"

text \<open>What both implementations of \<open>read_raw_data\<close> promise: bytes of the image, perhaps too few.\<close>

locale raw_image =
  fixes rd :: "'s raw_reader" and img :: "nat \<Rightarrow> 8 word" and good :: "'s \<Rightarrow> bool"
  assumes raw_inv: "\<lbrakk>good dev; length tmp = 2048; align \<le> 11; rd b sz at align (dev, tmp) = ((dev', tmp'), r)\<rbrakk>
      \<Longrightarrow> good dev' \<and> length tmp' = 2048"
    and raw_bytes: "\<lbrakk>good dev; length tmp = 2048; align \<le> 11; rd b sz at align (dev, tmp) = ((dev', tmp'), Some bs)\<rbrakk>
      \<Longrightarrow> length bs \<le> unat sz \<and> bs = bytes_at img (unat at * 2 ^ align) (length bs)"
begin

lemma refresh_ok:
  assumes "reader_ok good img s" "unat lsn + unat count < 2 ^ 29" "0 < unat count" "unat count \<le> 256" "refresh_index rd lsn count s = (s1, ok)"
  shows "reader_ok good img s1 \<and> ziso_align s1 = ziso_align s \<and> ziso_total_block s1 = ziso_total_block s \<and> zs_ready s1 = zs_ready s
    \<and> (ok \<longrightarrow> 0 \<le> ziso_idx_start_block s1 \<and> nat (ziso_idx_start_block s1) \<le> unat lsn
         \<and> unat lsn + unat count < nat (ziso_idx_start_block s1) + ziso_idx_entries s1)
    \<and> (\<not> ok \<longrightarrow> falls_short rd good)"
proof -
  let ?start = "ziso_idx_start_block s"
  let ?miss = "?start < 0 \<or> uint lsn < ?start \<or> lsn + count \<ge> word_of_int ?start + of_nat (ziso_idx_entries s) - 1"
  have lc: "unat (lsn + count) = unat lsn + unat count" using assms(2) by (simp add: unat_word_ariths)
  show ?thesis
  proof (cases ?miss)
    case False
    then have e: "s1 = s" "ok" using assms(5) by (simp_all add: refresh_index_def)
    have st: "0 \<le> ?start" "?start < 2 ^ 29" "0 < ziso_idx_entries s" "ziso_idx_entries s \<le> 257"
      using False assms(1) by (simp_all add: reader_ok_def)
    obtain a where a: "?start = int a" using st(1) nonneg_int_cases by blast
    then have "(word_of_int ?start + of_nat (ziso_idx_entries s) - 1 :: 32 word) = of_nat (nat ?start + ziso_idx_entries s - 1)"
      using st(3) by (simp add: of_nat_diff)
    moreover have "unat (of_nat (nat ?start + ziso_idx_entries s - 1) :: 32 word) = nat ?start + ziso_idx_entries s - 1"
      using st a by (simp only: unsigned_of_nat) (simp add: take_bit_nat_eq_self)
    ultimately have "unat lsn + unat count < nat ?start + ziso_idx_entries s - 1"
      using False lc by (simp add: word_le_nat_alt not_le)
    moreover have "nat ?start \<le> unat lsn" using False uint_nat [of lsn] by linarith
    ultimately show ?thesis using assms(1) e st(1) by simp
  next
    case True
    have pos: "unat (lsn * 4 + 24) = 24 + 4 * unat lsn" using assms(2) by (simp add: unat_word_ariths)
    have l: "sint lsn = int (unat lsn)" using assms(2) by (intro sint_unat32) simp
    obtain dev tmp r where rd: "rd True (of_nat ZISO_IDX_MAX_ENTRIES * 4) (lsn * 4 + 24) 0 (zs_dev s, ziso_tmp_buf s) = ((dev, tmp), r)"
      by (metis prod.collapse)
    have ok: "good (zs_dev s)" "length (ziso_tmp_buf s) = 2048" "length (ziso_idx_cache s) = 257" "ziso_align s \<le> 11"
      using assms(1) by (simp_all add: reader_ok_def)
    define ws where "ws = (case r of None \<Rightarrow> [] | Some bs \<Rightarrow> le32s bs)"
    have ws: "length ws \<le> 257" "\<forall>k < length ws. ws ! k = index_at img (unat lsn + k)"
    proof -
      have "length ws \<le> 257 \<and> (\<forall>k < length ws. ws ! k = index_at img (unat lsn + k))"
      proof (cases r)
        case (Some bs)
        with raw_bytes [OF ok(1,2) _ rd [unfolded Some]] have "length bs \<le> 1028" "bs = bytes_at img (24 + 4 * unat lsn) (length bs)"
          by (simp_all add: pos)
        then have "ws = map (\<lambda>k. index_at img (unat lsn + k)) [0..<length bs div 4]" "length bs div 4 \<le> 257"
          using Some le32s_bytes_at [of img "24 + 4 * unat lsn" "length bs"] by (simp_all add: ws_def index_at_def algebra_simps)
        then show ?thesis by simp
      qed (simp add: ws_def)
      then show "length ws \<le> 257" "\<forall>k < length ws. ws ! k = index_at img (unat lsn + k)" by blast+
    qed
    let ?s = "s\<lparr>zs_dev := dev, ziso_tmp_buf := tmp, ziso_idx_cache := ws @ drop (length ws) (ziso_idx_cache s), ziso_idx_entries := length ws\<rparr>"
    have e: "(s1, ok) = (if of_nat (length ws) < count + 1 then (?s\<lparr>ziso_idx_start_block := - 1\<rparr>, False) else (?s\<lparr>ziso_idx_start_block := sint lsn\<rparr>, True))"
      using assms(5) unfolding refresh_index_def if_P [OF True] rd prod.case Let_def ws_def [symmetric] by (rule sym)
    have c: "(of_nat (length ws) < count + 1) = (length ws < unat count + 1)"
      using ws(1) assms(4) by (simp add: word_less_nat_alt unat_word_ariths unsigned_of_nat take_bit_nat_eq_self)
    have "unat lsn < 536870912" using assms(2) by simp
    then have u: "uint lsn < 536870912" using uint_nat [of lsn] by linarith
    have i: "good dev" "length tmp = 2048" using raw_inv [OF ok(1,2) _ rd] by simp_all
    have "falls_short rd good" if "length ws < unat count + 1"
    proof -
      have "length bs < 1028" if "r = Some bs" for bs
      proof (rule ccontr)
        assume "\<not> length bs < 1028"
        moreover have rb: "length bs \<le> unat (of_nat ZISO_IDX_MAX_ENTRIES * 4 :: 32 word)" "bs = bytes_at img (unat (lsn * 4 + 24) * 2 ^ 0) (length bs)"
          using raw_bytes [OF ok(1,2) _ rd [unfolded that]] by blast+
        ultimately have "length bs = 1028" by simp
        then have "le32s bs = le32s (bytes_at img (unat (lsn * 4 + 24) * 2 ^ 0) 1028)" using rb(2) by metis
        then have "length (le32s bs) = 257" unfolding le32s_bytes_at by simp
        then show False using \<open>length ws < unat count + 1\<close> that assms(4) by (simp add: ws_def)
      qed
      then show ?thesis
        unfolding falls_short_def using ok(1,2) rd
        by (intro exI [of _ True] exI [of _ "of_nat ZISO_IDX_MAX_ENTRIES * 4"] exI [of _ "lsn * 4 + 24"] exI [of _ 0] exI [of _ "zs_dev s"]
            exI [of _ "ziso_tmp_buf s"] exI [of _ "(dev, tmp)"] exI [of _ r]) (auto split: option.splits)
    qed
    then show ?thesis
      using e i ok ws assms(2,3) l u unfolding c by (auto simp: reader_ok_def nth_append split: if_splits)
  qed
qed

text \<open>The part of the cache a request uses.\<close>

lemma cached_index:
  fixes lsn :: "32 word"
  assumes "reader_ok good img s" "0 \<le> ziso_idx_start_block s" "nat (ziso_idx_start_block s) \<le> unat lsn"
    and "unat lsn + n < nat (ziso_idx_start_block s) + ziso_idx_entries s" "at = unat (lsn - word_of_int (ziso_idx_start_block s))"
  shows "at + n + 1 \<le> length (ziso_idx_cache s)"
    "take (n + 1) (drop at (ziso_idx_cache s)) = map (index_at img) [unat lsn..<unat lsn + n + 1]"
proof -
  let ?st = "nat (ziso_idx_start_block s)"
  have st: "ziso_idx_start_block s < 2 ^ 29" "ziso_idx_entries s \<le> 257" "length (ziso_idx_cache s) = 257"
      "\<forall>k < ziso_idx_entries s. ziso_idx_cache s ! k = index_at img (?st + k)"
    using assms(1,2) by (simp_all add: reader_ok_def)
  obtain a where a: "ziso_idx_start_block s = int a" using assms(2) nonneg_int_cases by blast
  then have "unat (of_nat a :: 32 word) = a" using st(1) by (simp only: unsigned_of_nat) (simp add: take_bit_nat_eq_self)
  moreover have "(word_of_int (ziso_idx_start_block s) :: 32 word) = of_nat a" by (simp add: a)
  ultimately have at: "at = unat lsn - ?st" using assms(3,5) a unat_sub [of "of_nat a :: 32 word" lsn] by (simp add: word_le_nat_alt)
  show le: "at + n + 1 \<le> length (ziso_idx_cache s)" using at assms(3,4) st(2,3) by simp
  show "take (n + 1) (drop at (ziso_idx_cache s)) = map (index_at img) [unat lsn..<unat lsn + n + 1]"
  proof (rule nth_equalityI)
    show "take (n + 1) (drop at (ziso_idx_cache s)) ! k = map (index_at img) [unat lsn..<unat lsn + n + 1] ! k"
      if "k < length (take (n + 1) (drop at (ziso_idx_cache s)))" for k
      using that le at assms(3,4) st(4) by (simp del: upt_Suc)
  qed (use le in simp)
qed

text \<open>The index of a good image passes the checks.\<close>

lemma index_ok_image:
  assumes "\<forall>j. i \<le> j \<and> j < i + n \<longrightarrow> good_block lz4 img align sector j" "align \<le> 11" "n \<le> 256"
  shows "index_ok align (map (index_at img) [i..<i + n + 1])"
    and "unat (push_bit align (offset_of (index_at img (i + n)) - offset_of (index_at img i))) = length (concat (map (block_at img align) [i..<i + n]))"
    and "length (concat (map (block_at img align) [i..<i + n])) \<le> 2048 * n"
proof -
  let ?o = "\<lambda>j. offset_of (index_at img j)"
  have asc: "\<forall>j. i \<le> j \<and> j < i + n \<longrightarrow> block_start img align j \<le> block_start img align (Suc j)"
    using assms(1) by (simp add: good_block_def)
  have le: "unat (?o i) \<le> unat (?o (i + n))" using blocks_ascend [OF asc] by (simp add: block_start_def)
  have len: "length (concat (map (block_at img align) [i..<i + n])) = (unat (?o (i + n)) - unat (?o i)) * 2 ^ align"
    using blocks_concat [OF asc] by (simp add: block_start_def diff_mult_distrib)
  show bound: "length (concat (map (block_at img align) [i..<i + n])) \<le> 2048 * n"
    using concat_bound [of "[i..<i + n]" "block_at img align" 2048] assms(1) by (simp add: good_block_def)
  have d: "unat (?o (i + n) - ?o i) = unat (?o (i + n)) - unat (?o i)" by (rule unat_sub_le [OF le])
  have b: "(unat (?o (i + n)) - unat (?o i)) * 2 ^ align \<le> 2048 * n" using len bound by simp
  show "unat (push_bit align (?o (i + n) - ?o i)) = length (concat (map (block_at img align) [i..<i + n]))"
  proof -
    have "unat (?o (i + n) - ?o i) * 2 ^ align < 2 ^ 32" using b d assms(3) by simp
    then show ?thesis
      unfolding len by (simp only: unsigned_push_bit_eq) (simp add: d push_bit_eq_mult take_bit_nat_eq_self)
  qed
  have mono: "list_all2 (\<lambda>e e'. \<not> offset_of e' < offset_of e) (butlast (map (index_at img) [i..<i + n + 1])) (tl (map (index_at img) [i..<i + n + 1]))"
  proof (rule list_all2_all_nthI)
    show "length (butlast (map (index_at img) [i..<i + n + 1])) = length (tl (map (index_at img) [i..<i + n + 1]))" by simp
    show "\<not> offset_of (tl (map (index_at img) [i..<i + n + 1]) ! k) < offset_of (butlast (map (index_at img) [i..<i + n + 1]) ! k)"
      if "k < length (butlast (map (index_at img) [i..<i + n + 1]))" for k
      using that asc by (simp add: nth_butlast nth_tl block_start_def word_less_nat_alt not_less del: upt_Suc)
  qed
  have "unat (?o (i + n) - ?o i) \<le> (n * 2048) div 2 ^ align"
    using b d by (simp add: less_eq_div_iff_mult_less_eq mult.commute)
  moreover have "unat (drop_bit align (of_nat n * 2048 :: 32 word)) = (n * 2048) div 2 ^ align"
  proof -
    have "unat (of_nat (n * 2048) :: 32 word) = n * 2048" using assms(3) by (intro unat_of_nat32) simp
    then show ?thesis by (simp only: unat_drop_bit_eq) (simp add: drop_bit_eq_div)
  qed
  ultimately show "index_ok align (map (index_at img) [i..<i + n + 1])"
    using mono by (simp add: index_ok_def hd_map last_map word_less_nat_alt not_less del: upt_Suc)
qed

lemma same_image_trans: "same_image good img s s' \<Longrightarrow> same_image good img s' s'' \<Longrightarrow> same_image good img s s''"
  by (simp add: same_image_def)

lemma reader_ok_dev:
  "reader_ok good img s \<Longrightarrow> good dev \<Longrightarrow> length tmp = 2048 \<Longrightarrow> same_image good img s (s\<lparr>zs_dev := dev, ziso_tmp_buf := tmp\<rparr>)"
  by (simp add: same_image_def reader_ok_def)

lemma slice_decodes:
  assumes "reader_ok good img s" "zso_image lz4 img (ziso_align s) blocks sector" "unat lsn + unat count \<le> blocks"
    and "0 < unat count" "unat count \<le> 256" "unat lsn + unat count < 2 ^ 29" "length buf = 2048 * unat count"
  shows "\<exists>s' buf' r. ziso_read_slice rd lz4 lsn count buf s = Some (s', buf', r) \<and> same_image good img s s' \<and> length buf' = length buf
    \<and> (r = - 1 \<and> falls_short rd good \<or> r = int (unat count) \<and> buf' = concat (map sector [unat lsn..<unat lsn + unat count]))"
proof -
  obtain s1 ok where rf: "refresh_index rd lsn count s = (s1, ok)" by (metis prod.collapse)
  note r1 = refresh_ok [OF assms(1,6,4,5) rf]
  then have si: "same_image good img s s1" by (simp add: same_image_def)
  show ?thesis
  proof (cases ok)
    case False
    then show ?thesis using rf si r1 by (simp add: ziso_read_slice_def)
  next
    case True
    let ?n = "unat count" and ?i = "unat lsn" and ?al = "ziso_align s"
    define at where "at = unat (lsn - word_of_int (ziso_idx_start_block s1))"
    have st: "reader_ok good img s1" "ziso_align s1 = ?al" "0 \<le> ziso_idx_start_block s1" "nat (ziso_idx_start_block s1) \<le> ?i"
      "?i + ?n < nat (ziso_idx_start_block s1) + ziso_idx_entries s1" using r1 True by simp_all
    note ci = cached_index [OF st(1,3,4,5) at_def]
    have al: "?al \<le> 11" "good (zs_dev s1)" "length (ziso_tmp_buf s1) = 2048" using st(1,2) by (simp_all add: reader_ok_def)
    have good: "\<forall>j. ?i \<le> j \<and> j < ?i + ?n \<longrightarrow> good_block lz4 img ?al sector j" using assms(2,3) by (simp add: zso_image_def)
    let ?es = "map (index_at img) [?i..<?i + ?n + 1]"
    let ?size = "push_bit ?al (offset_of (index_at img (?i + ?n)) - offset_of (index_at img ?i))"
    let ?blks = "concat (map (block_at img ?al) [?i..<?i + ?n])"
    note ix = index_ok_image [OF good al(1) assms(5)]
    have ends: "hd ?es = index_at img ?i" "last ?es = index_at img (?i + ?n)" by (simp_all add: hd_map last_map del: upt_Suc)
    obtain dev tmp r where rd: "rd False ?size (offset_of (index_at img ?i)) ?al (zs_dev s1, ziso_tmp_buf s1) = ((dev, tmp), r)"
      by (metis prod.collapse)
    have di: "good dev" "length tmp = 2048" using raw_inv [OF al(2,3,1) rd] by simp_all
    have s2: "same_image good img s (s1\<lparr>zs_dev := dev, ziso_tmp_buf := t\<rparr>)" if "length t = 2048" for t
      by (rule same_image_trans [OF si reader_ok_dev [OF st(1) di(1) that]])
    have e: "ziso_read_slice rd lz4 lsn count buf s =
        (case r of
           None \<Rightarrow> Some (s1\<lparr>zs_dev := dev, ziso_tmp_buf := tmp\<rparr>, buf, - 1)
         | Some bs \<Rightarrow>
             if length ?blks > ?n * 2048 then None
             else do {
               b \<leftarrow> splice (?n * 2048 - length ?blks) bs buf;
               if length bs \<noteq> length ?blks then Some (s1\<lparr>zs_dev := dev, ziso_tmp_buf := tmp\<rparr>, b, - 1)
               else do {
                 (b', tmp') \<leftarrow> decode_blocks lz4 ?al ?es 0 (?n * 2048 - length ?blks) (b, tmp);
                 Some (s1\<lparr>zs_dev := dev, ziso_tmp_buf := tmp'\<rparr>, b', int ?n)
               }
             })" (is "_ = ?rhs")
    proof -
      have "ziso_read_slice rd lz4 lsn count buf s = decode_slice rd lz4 ?es ?n buf s1"
        unfolding ziso_read_slice_def rf prod.case Let_def at_def [symmetric] ci(2) using True ci(1) by (simp del: upt_Suc)
      also have "\<dots> = ?rhs"
        using ix(1) by (simp only: decode_slice_def st(2) ends Let_def rd prod.case ix(2) simp_thms if_False)
      finally show ?thesis .
    qed
    have short: "falls_short rd good" if "case r of None \<Rightarrow> True | Some bs \<Rightarrow> length bs < unat ?size"
      unfolding falls_short_def using al rd that by blast
    show ?thesis
    proof (cases r)
      case None
      then show ?thesis using e s2 [OF di(2)] short by simp
    next
      case (Some bs)
      have lb: "length bs \<le> length ?blks" "bs = bytes_at img (block_start img ?al ?i) (length bs)"
        using raw_bytes [OF al(2,3,1) rd [unfolded Some]] ix(2) by (simp_all add: block_start_def)
      have pos: "?n * 2048 - length ?blks + length bs \<le> length buf" "\<not> length ?blks > ?n * 2048"
        using lb(1) ix(3) assms(7) by simp_all
      define b where "b = take (?n * 2048 - length ?blks) buf @ bs @ drop (?n * 2048 - length ?blks + length bs) buf"
      have sp: "splice (?n * 2048 - length ?blks) bs buf = Some b" using pos(1) by (simp add: splice_def b_def)
      have lenb: "length b = length buf" by (rule splice_length [OF sp])
      show ?thesis
      proof (cases "length bs = length ?blks")
        case False
        then have "falls_short rd good" using short Some lb(1) ix(2) by simp
        then show ?thesis using e Some sp pos(2) s2 [OF di(2)] lenb False by simp
      next
        case full: True
        have "?blks = bytes_at img (block_start img ?al ?i) (length ?blks)"
        proof -
          have "\<forall>j. ?i \<le> j \<and> j < ?i + ?n \<longrightarrow> block_start img ?al j \<le> block_start img ?al (Suc j)" using good by (simp add: good_block_def)
          from blocks_concat [OF this] show ?thesis by (metis length_bytes_at)
        qed
        then have "bs = ?blks" using lb(2) full by simp
        then have b: "b = [] @ take (?n * 2048 - length ?blks) buf @ ?blks" using assms(7) pos(2) by (simp add: b_def)
        let ?gap = "take (?n * 2048 - length ?blks) buf"
        have lg: "length ?gap = ?n * 2048 - length ?blks" "length ?gap + length ?blks = 2048 * ?n" using assms(7) pos(2) by simp_all
        obtain tmp' where d: "decode_blocks lz4 ?al ?es 0 (?n * 2048 - length ?blks) (b, tmp)
            = Some (concat (map sector [?i..<?i + ?n]), tmp')" "length tmp' = 2048"
          using decode_blocks_image [OF good al(1) refl lg(2) di(2), of "[]"] unfolding b lg(1) by (auto simp del: upt_Suc)
        have "length (concat (map sector [?i..<?i + ?n])) = length buf"
        proof -
          have "length (concat (map sector xs)) = 2048 * length xs" if "\<forall>j \<in> set xs. length (sector j) = 2048" for xs
            using that by (induction xs) auto
          then show ?thesis using good assms(7) by (simp add: good_block_def)
        qed
        then show ?thesis using e Some sp pos(2) full d s2 [OF d(2)] by (simp del: upt_Suc)
      qed
    qed
  qed
qed

lemma read_slices_decodes:
  assumes "reader_ok good img s" "zso_image lz4 img (ziso_align s) blocks sector" "unat lsn + n \<le> blocks" "unat lsn + n < 2 ^ 29"
    and "length buf = 2048 * n" "fin \<le> n" "take (2048 * fin) buf = concat (map sector [unat lsn..<unat lsn + fin])"
  shows "\<exists>s' buf' r. read_slices rd lz4 lsn n fin buf s = Some (s', buf', r) \<and> same_image good img s s' \<and> length buf' = length buf
    \<and> (r = - 1 \<and> falls_short rd good \<or> r = int n \<and> buf' = concat (map sector [unat lsn..<unat lsn + n]))"
  using assms
proof (induction "n - fin" arbitrary: fin buf s rule: less_induct)
  case less
  show ?case
  proof (cases "fin < n")
    case False
    then show ?thesis using less.prems by (subst read_slices.simps) (simp add: same_image_def)
  next
    case True
    let ?m = "min (n - fin) (ZISO_IDX_MAX_ENTRIES - 1)" and ?lsn = "lsn + of_nat fin"
    define part where "part = take (?m * 2048) (drop (fin * 2048) buf)"
    have m: "0 < ?m" "?m \<le> 256" "fin + ?m \<le> n" using True by simp_all
    have w: "unat ?lsn = unat lsn + fin" "unat (of_nat ?m :: 32 word) = ?m"
      using less.prems(4,6) unat_of_nat32 [of fin] unat_of_nat32 [of ?m] m by (simp_all add: unat_word_ariths)
    have sl: "slice (fin * 2048) (?m * 2048) buf = Some part" "length part = 2048 * ?m"
      using less.prems(5) m(3) by (simp_all add: slice_def part_def)
    obtain s' part' r where rs: "ziso_read_slice rd lz4 ?lsn (of_nat ?m) part s = Some (s', part', r)" "same_image good img s s'"
        "length part' = 2048 * ?m" "r = - 1 \<and> falls_short rd good \<or> r = int ?m \<and> part' = concat (map sector [unat lsn + fin..<unat lsn + fin + ?m])"
      using slice_decodes [OF less.prems(1,2), of ?lsn "of_nat ?m" part] w m less.prems(3,4) sl(2) by auto
    define buf1 where "buf1 = take (fin * 2048) buf @ part' @ drop (fin * 2048 + ?m * 2048) buf"
    have sp: "splice (fin * 2048) part' buf = Some buf1" "length buf1 = length buf"
      using rs(3) less.prems(5) m(3) by (simp_all add: splice_def buf1_def mult.commute)
    have rec: "read_slices rd lz4 lsn n fin buf s =
        (if r < 0 then Some (s', buf1, - 1) else if nat r \<noteq> ?m then Some (s', buf1, int fin + r)
         else read_slices rd lz4 lsn n (fin + nat r) buf1 s')"
      using True sl(1) rs(1) sp(1) by (subst read_slices.simps) (simp add: Let_def)
    show ?thesis
    proof (cases "r = - 1")
      case True
      then show ?thesis using rec rs(2,4) sp(2) by simp
    next
      case False
      then have r: "r = int ?m" "part' = concat (map sector [unat lsn + fin..<unat lsn + fin + ?m])" using rs(4) by simp_all
      have s': "reader_ok good img s'" "ziso_align s' = ziso_align s" using rs(2) by (simp_all add: same_image_def)
      have "take (2048 * (fin + ?m)) buf1 = take (fin * 2048) buf @ part'"
        using rs(3) less.prems(5) m(3) by (simp add: buf1_def)
      also have "\<dots> = concat (map sector [unat lsn..<unat lsn + (fin + ?m)])"
      proof -
        have "[unat lsn..<unat lsn + (fin + ?m)] = [unat lsn..<unat lsn + fin] @ [unat lsn + fin..<unat lsn + fin + ?m]"
          using upt_add_eq_append [of "unat lsn" "unat lsn + fin" ?m] by (simp add: add.assoc)
        then show ?thesis using less.prems(7) r(2) by (simp add: mult.commute)
      qed
      finally have tk: "take (2048 * (fin + ?m)) buf1 = concat (map sector [unat lsn..<unat lsn + (fin + ?m)])" .
      have hyp: "n - (fin + ?m) < n - fin" "length buf1 = 2048 * n" using m(1,3) sp(2) less.prems(5) by linarith+
      obtain s'' buf'' r' where r': "read_slices rd lz4 lsn n (fin + ?m) buf1 s' = Some (s'', buf'', r')" "same_image good img s' s''"
          "length buf'' = length buf1" "r' = - 1 \<and> falls_short rd good \<or> r' = int n \<and> buf'' = concat (map sector [unat lsn..<unat lsn + n])"
        using less.hyps [OF hyp(1) s'(1) less.prems(2) [folded s'(2)] less.prems(3,4) hyp(2) m(3) tk] by blast
      have "read_slices rd lz4 lsn n fin buf s = Some (s'', buf'', r')" using rec r(1) r'(1) m(1) by simp
      then show ?thesis using r'(2-4) same_image_trans [OF rs(2) r'(2)] sp(2) by simp
    qed
  qed
qed

text \<open>A read of the image gives the sectors, or reports that a device read failed.\<close>

lemma read_sector_decodes:
  assumes "reader_ok good img s" "zso_image lz4 img (ziso_align s) (unat (ziso_total_block s)) sector" "unat (ziso_total_block s) < 2 ^ 29"
    and "unat count < 2 ^ 31" "length buf = 2048 * n" "zs_ready s" "lsn < ziso_total_block s"
    and "n = min (unat count) (unat (ziso_total_block s) - unat lsn)"
  shows "\<exists>s' buf' r. ziso_read_sector rd lz4 lsn count buf s = Some (s', buf', r) \<and> same_image good img s s'
    \<and> (r = - 1 \<and> falls_short rd good \<or> r = int n \<and> buf' = concat (map sector [unat lsn..<unat lsn + n]))"
proof -
  let ?tot = "ziso_total_block s"
  have l: "unat lsn < unat ?tot" using assms(7) by (simp add: word_less_nat_alt)
  have "unat (lsn + count) = unat lsn + unat count" using l assms(3,4) by (simp add: unat_word_ariths)
  then have c: "unat (if lsn + count > ?tot then ?tot - lsn else count) = n"
    using l assms(8) unat_sub_le [of lsn ?tot] by (auto simp: word_less_nat_alt)
  have "unat lsn + n \<le> unat ?tot" "unat lsn + n < 2 ^ 29"
    using assms(3,5,8) l by auto
  then show ?thesis
    using read_slices_decodes [OF assms(1,2), of lsn n buf 0] assms(5-7) c
    by (auto simp: ziso_read_sector_def Let_def)
qed

end

lemma ziso_init_reader:
  assumes "ziso_init alloc h s = (s', True)" "zs_ready s \<longrightarrow> reader_ok good img s"
    and "\<And>n cache tmp. alloc n = Some (cache, tmp) \<Longrightarrow> length cache = ZISO_IDX_MAX_ENTRIES \<and> length tmp = 2048" "good (zs_dev s)"
  shows "zs_ready s' \<longrightarrow> reader_ok good img s'" "ziso_align s' \<le> 11"
proof -
  have "unat (zh_align h) \<le> 11" using assms(1) by (auto simp: ziso_init_def word_less_nat_alt split: if_splits)
  then show "zs_ready s' \<longrightarrow> reader_ok good img s'" "ziso_align s' \<le> 11"
    using assms by (auto simp: ziso_init_def Let_def reader_ok_def split: if_splits option.splits)
qed

text \<open>The number of blocks is the size in sectors, without a 64-bit division.\<close>

lemma ziso_init_blocks:
  assumes "ziso_init alloc h s = (s', True)" "zh_total_bytes h < 2 ^ 43"
  shows "unat (ziso_total_block s') = unat (zh_total_bytes h) div 2048"
proof -
  let ?t = "zh_total_bytes h"
  let ?lo = "ucast ?t :: 32 word" and ?hi = "ucast (drop_bit 32 ?t) :: 32 word"
  have m: "(0x7FF :: 32 word) = mask 11" by (simp add: mask_eq_exp_minus_1)
  have "drop_bit 11 ?lo OR push_bit 21 (?hi AND 0x7FF) = ucast (drop_bit 11 ?t)"
    unfolding m by (rule bit_word_eqI) (auto simp: bit_simps)
  then have b: "ziso_total_block s' = ucast (drop_bit 11 ?t)"
    using assms(1) by (auto simp: ziso_init_def Let_def split: if_splits option.splits)
  have "unat ?t div 2048 < 2 ^ 32" using assms(2) by (simp add: word_less_nat_alt)
  then show ?thesis
    unfolding b by (simp add: unsigned_ucast_eq unsigned_take_bit_eq drop_bit_eq_div unat_div take_bit_nat_eq_self)
qed

end
