(* ===== verification/RawData.thy ===== *)
theory RawData
  imports Zso
begin

text \<open>
  The two implementations of \<open>read_raw_data\<close>: bytes at any offset of an image from a device that reads
  whole sectors, through the sector cache of the game side (\<open>iopcore/cdvdman/cdvdman.c\<close>) or from a hard
  disk or a file of the console side (\<open>src/zso.c\<close>). Both promise \<open>raw_image\<close> of \<open>Zso\<close>.

  A device is a function from a position and a count to the data, or \<open>None\<close> for an error; what a
  failed read leaves in a buffer is not modelled, as no caller uses it.
\<close>

section \<open>Sectors to bytes\<close>

type_synonym 's sector_fun = "nat \<Rightarrow> nat \<Rightarrow> 's \<Rightarrow> 's \<times> bytes option"

text \<open>The first sector through the bounce buffer when not aligned, whole sectors, the rest.\<close>

definition first_part :: "'s sector_fun \<Rightarrow> nat \<Rightarrow> nat \<Rightarrow> nat \<Rightarrow> 's \<times> bytes \<Rightarrow> ('s \<times> bytes) \<times> bytes option" where
  "first_part sec lba pos n st =
     (case st of (s, tmp) \<Rightarrow>
        if pos = 0 then ((s, tmp), Some [])
        else (case sec lba 1 s of
                (s', None) \<Rightarrow> ((s', tmp), None)
              | (s', Some d) \<Rightarrow> ((s', d), Some (take (min n (2048 - pos)) (drop pos d)))))"

definition whole_part :: "'s sector_fun \<Rightarrow> nat \<Rightarrow> nat \<Rightarrow> 's \<times> bytes \<Rightarrow> ('s \<times> bytes) \<times> bytes option" where
  "whole_part sec lba n_blocks st =
     (case st of (s, tmp) \<Rightarrow>
        if n_blocks > 1 then (case sec lba (n_blocks - 1) s of (s', d) \<Rightarrow> ((s', tmp), d)) else ((s, tmp), Some []))"

definition last_part :: "'s sector_fun \<Rightarrow> nat \<Rightarrow> nat \<Rightarrow> 's \<times> bytes \<Rightarrow> ('s \<times> bytes) \<times> bytes option" where
  "last_part sec lba n st =
     (case st of (s, tmp) \<Rightarrow>
        if n = 0 then ((s, tmp), Some [])
        else (case sec lba 1 s of (s', None) \<Rightarrow> ((s', tmp), None) | (s', Some d) \<Rightarrow> ((s', d), Some (take n d))))"

definition raw_sectors :: "'s sector_fun \<Rightarrow> nat \<Rightarrow> nat \<Rightarrow> nat \<Rightarrow> 's \<times> bytes \<Rightarrow> ('s \<times> bytes) \<times> bytes option" where
  "raw_sectors sec lba pos n st =
     (case first_part sec lba pos n st of
        (st1, None) \<Rightarrow> (st1, None)
      | (st1, Some b1) \<Rightarrow>
          (let n1 = n - length b1; lba1 = (if pos = 0 then lba else lba + 1);
               n_blocks = n1 div 2048 + (if n1 mod 2048 = 0 then 0 else 1)
           in case whole_part sec lba1 n_blocks st1 of
                (st2, None) \<Rightarrow> (st2, None)
              | (st2, Some b2) \<Rightarrow>
                  (case last_part sec (lba1 + (n_blocks - 1)) (n1 - length b2) st2 of
                     (st3, None) \<Rightarrow> (st3, None)
                   | (st3, Some b3) \<Rightarrow> (st3, Some (b1 @ b2 @ b3)))))"

text \<open>The sector and the place in it of an offset that counts units of \<open>2 ^ shift\<close> bytes.\<close>

definition raw_lba :: "32 word \<Rightarrow> nat \<Rightarrow> 32 word" where
  "raw_lba at shift = at div drop_bit shift 2048"

definition raw_pos :: "32 word \<Rightarrow> nat \<Rightarrow> 32 word" where
  "raw_pos at shift = push_bit shift at AND 2047"

section \<open>The game side\<close>

text \<open>The sector cache; \<open>cur_sector\<close> is all ones when it holds nothing.\<close>

record cd_cache =
  sector_cache :: bytes
  cur_sector :: "64 word"
  MAX_SECTOR_CACHE :: nat

definition NO_SECTOR :: "64 word" where
  "NO_SECTOR = 0xFFFFFFFFFFFFFFFF"

type_synonym device = "64 word \<Rightarrow> nat \<Rightarrow> bytes option"



section \<open>The console side\<close>

text \<open>
  The hard disk has sectors of 512 bytes. The answer is the data of all, or \<open>None\<close> at the first error.
\<close>

primrec hdd_sectors :: "(32 word \<Rightarrow> bytes option) \<Rightarrow> 32 word \<Rightarrow> nat \<Rightarrow> bytes option" where
  "hdd_sectors hdd lsn 0 = Some []"
| "hdd_sectors hdd lsn (Suc n) =
     (case hdd lsn of None \<Rightarrow> None | Some d \<Rightarrow> (case hdd_sectors hdd (lsn + 1) n of None \<Rightarrow> None | Some ds \<Rightarrow> Some (d @ ds)))"

definition ReadHDDSectors :: "(32 word \<Rightarrow> bytes option) \<Rightarrow> 32 word \<Rightarrow> 32 word \<Rightarrow> nat \<Rightarrow> bytes option" where
  "ReadHDDSectors hdd probed_lba lba n = hdd_sectors hdd (probed_lba + lba * 4) (n * 4)"

text \<open>
  Seeking to a sector beyond two gigabytes: a seek takes an \<open>int\<close>. The state is the position in the
  file; the list is the offsets the seeks were given.
\<close>

abbreviation "SEEK_SECTORS \<equiv> (1048575::nat)"

function seek_on :: "nat \<Rightarrow> nat \<Rightarrow> nat \<times> nat list" where
  "seek_on remaining pos =
     (if remaining > 0 then
        let toSeek = (if remaining > SEEK_SECTORS then SEEK_SECTORS else remaining) in
        (case seek_on (remaining - toSeek) (pos + toSeek * 2048) of (p, os) \<Rightarrow> (p, toSeek * 2048 # os))
      else (pos, []))"
  by pat_completeness auto
termination
  by (relation "measure fst") auto

declare seek_on.simps [simp del]

definition longLseek :: "nat \<Rightarrow> nat \<times> nat list" where
  "longLseek lba =
     (if lba > SEEK_SECTORS then (case seek_on (lba - SEEK_SECTORS) (SEEK_SECTORS * 2048) of (p, os) \<Rightarrow> (p, SEEK_SECTORS * 2048 # os))
      else (lba * 2048, [lba * 2048]))"

text \<open>What was probed: a file, a place on the hard disk, or nothing.\<close>

datatype probed = File "nat \<Rightarrow> nat \<Rightarrow> bytes option" | Disk "32 word" "32 word \<Rightarrow> bytes option" | Nothing

definition ee_read_raw_data :: "probed \<Rightarrow> unit raw_reader" where
  "ee_read_raw_data p to_index sz at shift st =
     (case p of
        File rd \<Rightarrow> (st, rd (fst (longLseek (unat (raw_lba at shift))) + unat (raw_pos at shift)) (unat sz))
      | Disk probed_lba hdd \<Rightarrow>
          raw_sectors (\<lambda>l n s. (s, ReadHDDSectors hdd probed_lba (of_nat l) n)) (unat (raw_lba at shift)) (unat (raw_pos at shift)) (unat sz) st
      | Nothing \<Rightarrow> (st, None))"

section \<open>Every reader of sectors reads bytes\<close>

lemma raw_place:
  assumes "shift \<le> 11"
  shows "2048 * unat (raw_lba at shift) + unat (raw_pos at shift) = unat at * 2 ^ shift" "unat (raw_pos at shift) < 2048"
proof -
  let ?d = "2 ^ (11 - shift) :: nat"
  have p: "(2048::nat) = ?d * 2 ^ shift" using assms by (simp flip: power_add)
  have "unat (drop_bit shift 2048 :: 32 word) = 2048 div 2 ^ shift" by (simp only: unat_drop_bit_eq) (simp add: drop_bit_eq_div)
  also have "\<dots> = ?d" using p by (metis nonzero_mult_div_cancel_right power_not_zero zero_neq_numeral)
  finally have l: "unat (raw_lba at shift) = unat at div ?d" by (simp add: raw_lba_def unat_div)
  have "unat (raw_pos at shift) = unat (push_bit shift at) mod 2048"
  proof -
    have "(2047 :: 32 word) = mask 11" by (simp add: mask_eq_exp_minus_1)
    then have "raw_pos at shift = take_bit 11 (push_bit shift at)" by (simp add: raw_pos_def take_bit_eq_mask)
    then show ?thesis by (simp add: unsigned_take_bit_eq take_bit_eq_mod unat_mod)
  qed
  also have "\<dots> = (unat at * 2 ^ shift) mod 2 ^ 32 mod 2048"
    by (simp only: unsigned_push_bit_eq) (simp add: push_bit_eq_mult take_bit_eq_mod)
  also have "\<dots> = (unat at * 2 ^ shift) mod 2048" by (simp add: mod_mod_cancel)
  also have "\<dots> = (unat at mod ?d) * 2 ^ shift" unfolding p by (simp add: mod_mult_mult2)
  finally have q: "unat (raw_pos at shift) = (unat at mod ?d) * 2 ^ shift" .
  have "?d * (unat at div ?d) + unat at mod ?d = unat at" by simp
  then show "2048 * unat (raw_lba at shift) + unat (raw_pos at shift) = unat at * 2 ^ shift"
  proof -
    have "2048 * (unat at div ?d) = (?d * (unat at div ?d)) * 2 ^ shift" by (subst p) (simp only: mult_ac)
    then have "2048 * (unat at div ?d) + (unat at mod ?d) * 2 ^ shift = (?d * (unat at div ?d) + unat at mod ?d) * 2 ^ shift"
      by (simp only: add_mult_distrib)
    then show ?thesis by (simp only: l q mult_div_mod_eq)
  qed
  show "unat (raw_pos at shift) < 2048" unfolding q by (subst p) simp
qed

locale sector_reader =
  fixes sec :: "'s sector_fun" and img :: "nat \<Rightarrow> 8 word" and good :: "'s \<Rightarrow> bool"
  assumes sec_inv: "good s \<Longrightarrow> l < 2 ^ 34 \<Longrightarrow> n < 2 ^ 32 \<Longrightarrow> sec l n s = (s', r) \<Longrightarrow> good s'"
    and sec_bytes: "good s \<Longrightarrow> l < 2 ^ 34 \<Longrightarrow> n < 2 ^ 32 \<Longrightarrow> sec l n s = (s', Some d) \<Longrightarrow> d = bytes_at img (2048 * l) (2048 * n)"
begin

lemma first_part_bytes:
  assumes "good s" "length tmp = 2048" "pos < 2048" "lba < 2 ^ 34" "first_part sec lba pos n (s, tmp) = ((s', tmp'), r)"
  shows "good s' \<and> length tmp' = 2048 \<and> (\<forall>b. r = Some b \<longrightarrow> b = bytes_at img (2048 * lba + pos) (if pos = 0 then 0 else min n (2048 - pos)))"
proof (cases "pos = 0")
  case False
  obtain s1 d where "sec lba 1 s = (s1, d)" by (metis prod.collapse)
  then show ?thesis
    using assms False sec_inv [OF assms(1,4), of 1] sec_bytes [OF assms(1,4), of 1]
    by (cases d) (auto simp: first_part_def bytes_at_drop bytes_at_take)
qed (use assms in \<open>auto simp: first_part_def bytes_at_def\<close>)

lemma whole_part_bytes:
  assumes "good s" "lba < 2 ^ 34" "k \<le> 2 ^ 32" "whole_part sec lba k (s, tmp) = ((s', tmp'), r)"
  shows "good s' \<and> tmp' = tmp \<and> (\<forall>b. r = Some b \<longrightarrow> b = bytes_at img (2048 * lba) (2048 * (k - 1)))"
proof -
  obtain s1 d where "sec lba (k - 1) s = (s1, d)" by (metis prod.collapse)
  then show ?thesis
    using assms sec_inv [OF assms(1,2), of "k - 1"] sec_bytes [OF assms(1,2), of "k - 1"]
    by (cases "k > 1") (auto simp: whole_part_def bytes_at_def)
qed

lemma last_part_bytes:
  assumes "good s" "length tmp = 2048" "n \<le> 2048" "lba < 2 ^ 34" "last_part sec lba n (s, tmp) = ((s', tmp'), r)"
  shows "good s' \<and> length tmp' = 2048 \<and> (\<forall>b. r = Some b \<longrightarrow> b = bytes_at img (2048 * lba) n)"
proof (cases "n = 0")
  case False
  obtain s1 d where "sec lba 1 s = (s1, d)" by (metis prod.collapse)
  then show ?thesis
    using assms False sec_inv [OF assms(1,4), of 1] sec_bytes [OF assms(1,4), of 1]
    by (cases d) (auto simp: last_part_def bytes_at_take)
qed (use assms in \<open>auto simp: last_part_def bytes_at_def\<close>)

lemma parts_fit:
  fixes n pos lba :: nat
  assumes "pos < 2048" "k1 = (if pos = 0 then 0 else min n (2048 - pos))" "n1 = n - k1" "lba1 = (if pos = 0 then lba else lba + 1)"
    and "blocks = n1 div 2048 + (if n1 mod 2048 = 0 then 0 else 1)" "n2 = n1 - 2048 * (blocks - 1)"
  shows "n = k1 + (2048 * (blocks - 1) + n2)" "n2 \<le> 2048" "n1 = 0 \<or> 2048 * lba1 = 2048 * lba + pos + k1"
    "n1 = 0 \<Longrightarrow> blocks = 0 \<and> n2 = 0"
proof -
  have d: "2048 * (n1 div 2048) + n1 mod 2048 = n1" "n1 mod 2048 < 2048" by simp_all
  have b: "blocks - 1 = n1 div 2048 - 1 \<and> n1 mod 2048 = 0 \<or> blocks - 1 = n1 div 2048" using assms(5) by auto
  have le: "2048 * (blocks - 1) \<le> n1" using b d by auto
  have kn: "k1 \<le> n" using assms(2) by simp
  show "n2 \<le> 2048" using b d assms(5,6) by (auto split: if_splits)
  show "n = k1 + (2048 * (blocks - 1) + n2)" using le assms(3,6) kn by linarith
  show "n1 = 0 \<or> 2048 * lba1 = 2048 * lba + pos + k1" using assms(1-4) by (auto split: if_splits simp: min_def)
  show "n1 = 0 \<Longrightarrow> blocks = 0 \<and> n2 = 0" using assms(5,6) by simp
qed

lemma raw_sectors_bytes:
  assumes "good s" "length tmp = 2048" "pos < 2048" "raw_sectors sec lba pos n (s, tmp) = ((s', tmp'), r)" "lba < 2 ^ 32" "n < 2 ^ 32"
  shows "good s' \<and> length tmp' = 2048 \<and> (\<forall>bs. r = Some bs \<longrightarrow> bs = bytes_at img (2048 * lba + pos) n)"
proof -
  define k1 where "k1 = (if pos = 0 then 0 else min n (2048 - pos))"
  define n1 where "n1 = n - k1"
  define lba1 where "lba1 = (if pos = 0 then lba else lba + 1)"
  define blocks where "blocks = n1 div 2048 + (if n1 mod 2048 = 0 then 0 else 1)"
  define n2 where "n2 = n1 - 2048 * (blocks - 1)"
  note fit = parts_fit [OF assms(3) k1_def n1_def lba1_def blocks_def n2_def]
  obtain s1 t1 r1 where e1: "first_part sec lba pos n (s, tmp) = ((s1, t1), r1)" by (metis prod.collapse)
  have small: "lba < 2 ^ 34" "lba1 < 2 ^ 34" "blocks \<le> 2 ^ 32" "lba1 + (blocks - 1) < 2 ^ 34"
  proof -
    have "n1 div 2048 \<le> n" by (simp add: n1_def div_le_dividend le_trans [OF div_le_dividend])
    moreover have "n1 div 2048 < 2 ^ 32 div 1024" using assms(6) by (simp add: n1_def)
    ultimately show "lba < 2 ^ 34" "lba1 < 2 ^ 34" "blocks \<le> 2 ^ 32" "lba1 + (blocks - 1) < 2 ^ 34"
      using assms(5,6) by (auto simp: lba1_def blocks_def)
  qed
  note f1 = first_part_bytes [OF assms(1-3) small(1) e1, folded k1_def]
  show ?thesis
  proof (cases r1)
    case None
    then show ?thesis using assms(4) f1 e1 by (simp add: raw_sectors_def)
  next
    case (Some b1)
    then have b1: "b1 = bytes_at img (2048 * lba + pos) k1" "length b1 = k1" using f1 by simp_all
    obtain s2 t2 r2 where e2: "whole_part sec lba1 blocks (s1, t1) = ((s2, t2), r2)" by (metis prod.collapse)
    have f2: "good s2 \<and> t2 = t1 \<and> (\<forall>b. r2 = Some b \<longrightarrow> b = bytes_at img (2048 * lba1) (2048 * (blocks - 1)))"
      using whole_part_bytes [OF _ small(2,3) e2] f1 by blast
    have u1: "raw_sectors sec lba pos n (s, tmp) =
        (case r2 of None \<Rightarrow> ((s2, t2), None)
         | Some b2 \<Rightarrow> (case last_part sec (lba1 + (blocks - 1)) (n1 - length b2) (s2, t2) of
             (st3, None) \<Rightarrow> (st3, None) | (st3, Some b3) \<Rightarrow> (st3, Some (b1 @ b2 @ b3))))"
      unfolding raw_sectors_def e1 Some prod.case option.case Let_def b1(2) n1_def [symmetric] lba1_def [symmetric]
        blocks_def [symmetric] e2 by simp
    show ?thesis
    proof (cases r2)
      case None
      then show ?thesis using u1 assms(4) f1 f2 by simp
    next
      case (Some b2)
      then have b2: "b2 = bytes_at img (2048 * lba1) (2048 * (blocks - 1))" "length b2 = 2048 * (blocks - 1)" using f2 by simp_all
      obtain s3 t3 r3 where e3: "last_part sec (lba1 + (blocks - 1)) n2 (s2, t2) = ((s3, t3), r3)" by (metis prod.collapse)
      have f3: "good s3 \<and> length t3 = 2048 \<and> (\<forall>b. r3 = Some b \<longrightarrow> b = bytes_at img (2048 * (lba1 + (blocks - 1))) n2)"
        using last_part_bytes [OF _ _ fit(2) small(4) e3] f1 f2 by blast
      have u2: "((s', tmp'), r) = (case r3 of None \<Rightarrow> ((s3, t3), None) | Some b3 \<Rightarrow> ((s3, t3), Some (b1 @ b2 @ b3)))"
        using u1 assms(4) Some e3 b2(2) n2_def by (cases r3) simp_all
      have "b1 @ b2 @ b3 = bytes_at img (2048 * lba + pos) n" if "r3 = Some b3" for b3
      proof -
        have b3: "b3 = bytes_at img (2048 * (lba1 + (blocks - 1))) n2" using f3 that by blast
        then have r: "b2 @ b3 = bytes_at img (2048 * lba1) (2048 * (blocks - 1) + n2)"
          unfolding b2(1) bytes_at_append by (simp add: distrib_left)
        show ?thesis
        proof (cases "n1 = 0")
          case True
          then have "b2 @ b3 = []" "n = k1" using r fit by (simp_all add: bytes_at_def)
          then show ?thesis using b1(1) by simp
        next
          case False
          then have "2048 * lba1 = 2048 * lba + pos + k1" using fit(3) by simp
          then have "b1 @ b2 @ b3 = bytes_at img (2048 * lba + pos) (k1 + (2048 * (blocks - 1) + n2))"
            unfolding b1(1) r bytes_at_append [of img _ k1] by simp
          then show ?thesis using fit(1) by simp
        qed
      qed
      then show ?thesis using u2 f3 by (cases r3) auto
    qed
  qed
qed

end

section \<open>The devices\<close>

text \<open>A device that holds the image, and a cache that agrees with it.\<close>

definition holds_image :: "device \<Rightarrow> (nat \<Rightarrow> 8 word) \<Rightarrow> bool" where
  "holds_image dev img \<longleftrightarrow> (\<forall>l n d. dev l n = Some d \<longrightarrow> d = bytes_at img (2048 * unat l) (2048 * n))"

definition cache_ok :: "(nat \<Rightarrow> 8 word) \<Rightarrow> cd_cache \<Rightarrow> bool" where
  "cache_ok img c \<longleftrightarrow> MAX_SECTOR_CACHE c < 256 \<and>
     (cur_sector c \<noteq> NO_SECTOR \<longrightarrow> unat (cur_sector c) < 2 ^ 34
        \<and> sector_cache c = bytes_at img (2048 * unat (cur_sector c)) (2048 * MAX_SECTOR_CACHE c))"







lemma unat_less32: "unat (w :: 32 word) < 2 ^ 32"
  using unsigned_less [of w] by simp




text \<open>Long seeks.\<close>

lemma seek_on_pos: "fst (seek_on n pos) = pos + n * 2048 \<and> (\<forall>s \<in> set (snd (seek_on n pos)). s < 2 ^ 31)"
proof (induction n pos rule: seek_on.induct)
  case (1 n pos)
  show ?case
  proof (cases "n = 0")
    case False
    then show ?thesis
      using "1.IH" by (subst (1 2) seek_on.simps) (auto simp: Let_def case_prod_beta algebra_simps)
  qed (simp add: seek_on.simps)
qed

lemma longLseek_pos: "fst (longLseek lba) = lba * 2048"
  using seek_on_pos [of "lba - SEEK_SECTORS" "SEEK_SECTORS * 2048"] by (auto simp: longLseek_def case_prod_beta algebra_simps)

text \<open>
  However far the sector is, the seeks reach its first byte and every one of them is an offset that
  the \<open>int\<close> of \<open>lseek\<close> holds.
\<close>

theorem longLseek_reaches:
  "fst (longLseek lba) = lba * 2048 \<and> (\<forall>s \<in> set (snd (longLseek lba)). s < 2 ^ 31)"
  using seek_on_pos [of "lba - SEEK_SECTORS" "SEEK_SECTORS * 2048"] by (auto simp: longLseek_def case_prod_beta algebra_simps)

text \<open>What was probed holds the image.\<close>

definition probed_holds :: "probed \<Rightarrow> (nat \<Rightarrow> 8 word) \<Rightarrow> bool" where
  "probed_holds p img \<longleftrightarrow>
     (case p of
        File rd \<Rightarrow> (\<forall>pos n bs. rd pos n = Some bs \<longrightarrow> length bs \<le> n \<and> bs = bytes_at img pos (length bs))
      | Disk start hdd \<Rightarrow> (\<forall>l d. hdd (start + of_nat l) = Some d \<longrightarrow> d = bytes_at img (512 * l) 512)
      | Nothing \<Rightarrow> True)"

lemma hdd_sectors_bytes:
  assumes "\<forall>l d. hdd (start + of_nat l) = Some d \<longrightarrow> d = bytes_at img (512 * l) 512" "hdd_sectors hdd (start + of_nat l) n = Some d"
  shows "d = bytes_at img (512 * l) (512 * n)"
  using assms(2)
proof (induction n arbitrary: l d)
  case (Suc n)
  obtain d1 ds where d: "hdd (start + of_nat l) = Some d1" "hdd_sectors hdd (start + of_nat (Suc l)) n = Some ds" "d = d1 @ ds"
    using Suc.prems by (auto simp: add_ac split: option.splits)
  then show ?case using Suc.IH [OF d(2)] assms(1) bytes_at_append [of img "512 * l" 512 "512 * n"] by (simp add: algebra_simps)
qed (simp add: bytes_at_def)

lemma ReadHDDSectors_bytes:
  assumes "probed_holds (Disk start hdd) img" "ReadHDDSectors hdd start (of_nat l) n = Some d"
  shows "d = bytes_at img (2048 * l) (2048 * n)"
proof -
  have "hdd_sectors hdd (start + of_nat (l * 4)) (n * 4) = Some d" using assms(2) by (simp add: ReadHDDSectors_def)
  then have "d = bytes_at img (512 * (l * 4)) (512 * (n * 4))"
    using assms(1) by (intro hdd_sectors_bytes [of hdd start]) (simp_all add: probed_holds_def)
  then show ?thesis by (simp add: mult.assoc [symmetric] mult.commute [of _ 4])
qed

interpretation on_disk: sector_reader "\<lambda>l n (s :: unit). (s, ReadHDDSectors hdd start (of_nat l) n)" img "\<lambda>_. probed_holds (Disk start hdd) img" for hdd start img
  using ReadHDDSectors_bytes by unfold_locales blast+

lemma ee_raw_bytes:
  assumes "probed_holds p img" "length tmp = 2048" "shift \<le> 11" "ee_read_raw_data p b sz at shift (u, tmp) = ((u', tmp'), r)"
  shows "length tmp' = 2048 \<and> (\<forall>bs. r = Some bs \<longrightarrow> length bs \<le> unat sz \<and> bs = bytes_at img (unat at * 2 ^ shift) (length bs))"
proof -
  note pl = raw_place [OF assms(3), of at]
  show ?thesis
  proof (cases p)
    case (File rd)
    have "fst (longLseek (unat (raw_lba at shift))) + unat (raw_pos at shift) = unat at * 2 ^ shift"
      using longLseek_pos [of "unat (raw_lba at shift)"] pl(1) by simp
    then show ?thesis using assms File by (auto simp: ee_read_raw_data_def probed_holds_def)
  next
    case (Disk start hdd)
    have e: "raw_sectors (\<lambda>l n s. (s, ReadHDDSectors hdd start (of_nat l) n)) (unat (raw_lba at shift)) (unat (raw_pos at shift)) (unat sz) (u, tmp)
        = ((u', tmp'), r)" using assms(4) Disk by (simp only: ee_read_raw_data_def probed.case)
    have "length tmp' = 2048 \<and> (\<forall>bs. r = Some bs \<longrightarrow> bs = bytes_at img (2048 * unat (raw_lba at shift) + unat (raw_pos at shift)) (unat sz))"
      using on_disk.raw_sectors_bytes [OF assms(1) [unfolded Disk] assms(2) pl(2) e unat_less32 unat_less32] by blast
    then show ?thesis unfolding pl(1) by (metis length_bytes_at order_refl)
  next
    case Nothing
    then show ?thesis using assms by (auto simp: ee_read_raw_data_def)
  qed
qed

interpretation ee_raw: raw_image "ee_read_raw_data p" img "\<lambda>_. probed_holds p img" for p img
  using ee_raw_bytes by unfold_locales blast+

section \<open>Both readers\<close>

abbreviation "cd_good dev img \<equiv> (\<lambda>c. holds_image dev img \<and> cache_ok img c)"


text \<open>
  The console side, from a file of any size or from a hard disk, reads the same sectors of the
  same image.
\<close>

theorem zso_console_read:
  assumes "reader_ok (\<lambda>_. probed_holds p img) img s" "zso_image lz4 img (ziso_align s) (unat (ziso_total_block s)) sector"
    and "unat (ziso_total_block s) < 2 ^ 29" "unat count < 2 ^ 31" "zs_ready s" "lsn < ziso_total_block s"
    and "n = min (unat count) (unat (ziso_total_block s) - unat lsn)" "length buf = 2048 * n"
  shows "\<exists>s' buf' r. ziso_read_sector (ee_read_raw_data p) lz4 lsn count buf s = Some (s', buf', r)
    \<and> reader_ok (\<lambda>_. probed_holds p img) img s'
    \<and> (r = int n \<and> buf' = concat (map sector [unat lsn..<unat lsn + n]) \<or> r = - 1)"
  using ee_raw.read_sector_decodes [OF assms(1-4,8,5-7)] unfolding same_image_def by blast

section \<open>An image\<close>










end
