(* ===== verification/CardImage.thy ===== *)
theory CardImage
  imports ByteData
begin

text \<open>
  Memory card images edited in place (\<open>src/vmcsaves.c\<close>): the file, the pages and clusters of a card, the
  entries of its folders and its file allocation table.

  A file is its bytes by offset and its size. Whether a page can be read may depend on its place and
  on how much has been written before; whether a write succeeds depends on how many came before it, and
  a write that fails changes nothing. So a cut of the power after \<open>k\<close> writes leaves what the model leaves
  when all writes from the \<open>k\<close>th on fail. \<open>open\<close> answers the file or \<open>None\<close>; \<open>mem n\<close> tells whether the
  allocator has \<open>n\<close> bytes. The scratch cluster of the code is a local value.
\<close>

section \<open>The file\<close>

datatype vs_err =
    VMCSAVES_ERR_OPEN | VMCSAVES_ERR_NOT_CARD | VMCSAVES_ERR_READ_ONLY | VMCSAVES_ERR_READ | VMCSAVES_ERR_WRITE
  | VMCSAVES_ERR_NO_ROOM | VMCSAVES_ERR_NO_SAVE | VMCSAVES_ERR_EXISTS | VMCSAVES_ERR_TOO_BIG | VMCSAVES_ERR_NAME
  | VMCSAVES_ERR_MEMORY | VMCSAVES_ERR_PSU

record card_file =
  cf_at :: "nat \<Rightarrow> 8 word"
  cf_size :: nat
  cf_n :: nat
  cf_rd :: "nat \<Rightarrow> nat \<Rightarrow> bool"
  cf_wr :: "nat \<Rightarrow> bool"

definition page_read :: "nat \<Rightarrow> card_file \<Rightarrow> bytes option" where
  "page_read pos f = (if pos + 512 \<le> cf_size f \<and> cf_rd f (cf_n f) pos then Some (bytes_at (cf_at f) pos 512) else None)"

definition page_write :: "nat \<Rightarrow> bytes \<Rightarrow> card_file \<Rightarrow> card_file \<times> bool" where
  "page_write pos bs f =
     (let f1 = f\<lparr>cf_n := cf_n f + 1\<rparr> in
      if cf_wr f (cf_n f)
      then (f1\<lparr>cf_at := store_at pos bs (cf_at f), cf_size := max (cf_size f) (pos + length bs)\<rparr>, True)
      else (f1, False))"

section \<open>The card\<close>

text \<open>The page length is 512, which \<open>vsOpen\<close> checks; the lengths the code keeps beside it are functions.\<close>

record vs_vmc =
  v_file :: card_file
  v_ecc :: bool
  v_raw :: nat
  v_ppc :: nat
  v_clusters :: "32 word"
  v_alloc :: "32 word"
  v_allocEnd :: "32 word"
  v_root :: "32 word"
  v_fat :: "32 word list"
  v_fatAbs :: "32 word list"
  v_fatDirty :: "bool list"

definition csize :: "vs_vmc \<Rightarrow> nat" where
  "csize v = 512 * v_ppc v"

definition epc :: "vs_vmc \<Rightarrow> nat" where
  "epc v = csize v div 4"

definition vsIo_read :: "vs_vmc \<Rightarrow> 32 word \<Rightarrow> bytes option" where
  "vsIo_read v ca =
     map_option concat (those (map (\<lambda>p. page_read ((unat ca * v_ppc v + p) * v_raw v) (v_file v)) [0..<v_ppc v]))"

fun write_pages :: "nat \<Rightarrow> nat \<Rightarrow> nat \<Rightarrow> bytes \<Rightarrow> card_file \<Rightarrow> card_file \<times> bool" where
  "write_pages raw pos 0 buf f = (f, True)"
| "write_pages raw pos (Suc k) buf f =
     (case page_write pos (take 512 buf) f of
        (f', True) \<Rightarrow> write_pages raw (pos + raw) k (drop 512 buf) f'
      | (f', False) \<Rightarrow> (f', False))"

definition vsIo_write :: "vs_vmc \<Rightarrow> 32 word \<Rightarrow> bytes \<Rightarrow> vs_vmc \<times> bool" where
  "vsIo_write v ca buf =
     (case write_pages (v_raw v) (unat ca * v_ppc v * v_raw v) (v_ppc v) buf (v_file v) of
        (f', ok) \<Rightarrow> (v\<lparr>v_file := f'\<rparr>, ok))"

section \<open>Opening\<close>

definition CARD_MAGIC :: bytes where
  "CARD_MAGIC = map of_char ''Sony PS2 Memory Card Format ''"

definition fat_clusters :: "vs_vmc \<Rightarrow> nat" where
  "fat_clusters v = (unat (v_allocEnd v) + epc v - 1) div epc v"

text \<open>
  The indirect FAT names the clusters of the FAT. The code keeps the last indirect cluster it has
  read; the model reads it each time, which gives the same.
\<close>

definition fat_cluster :: "vs_vmc \<Rightarrow> 32 word list \<Rightarrow> nat \<Rightarrow> (32 word \<times> 32 word list) option" where
  "fat_cluster v ifc k =
     (if k div epc v \<ge> 32 then None
      else (case vsIo_read v (ifc ! (k div epc v)) of
              None \<Rightarrow> None
            | Some ind \<Rightarrow>
                (let ca = le32 (field ind (k mod epc v * 4) 4) in
                 if ca \<ge> v_clusters v then None else map_option (\<lambda>bs. (ca, le32s bs)) (vsIo_read v ca))))"

definition vsOpen :: "(nat \<Rightarrow> bool) \<Rightarrow> card_file option \<Rightarrow> bool \<Rightarrow> vs_err + vs_vmc" where
  "vsOpen mem file forWrite =
     (case file of None \<Rightarrow> Inl VMCSAVES_ERR_OPEN | Some f \<Rightarrow>
      (case page_read 0 f of None \<Rightarrow> Inl VMCSAVES_ERR_NOT_CARD | Some sb \<Rightarrow>
       if take 28 sb \<noteq> CARD_MAGIC then Inl VMCSAVES_ERR_NOT_CARD
       else
         let ppc = unat (le16 (field sb 0x2A 2)); clusters = le32 (field sb 0x30 4);
             allocEnd = le32 (field sb 0x38 4); root = le32 (field sb 0x3C 4);
             ifc = map (\<lambda>k. le32 (field sb (0x50 + k * 4) 4)) [0..<32];
             pages = unat clusters * ppc
         in if le16 (field sb 0x28 2) \<noteq> 512 \<or> ppc < 1 \<or> ppc > 16 \<or> allocEnd = 0 \<or> allocEnd > 0x100000 \<or> root \<ge> allocEnd
            then Inl VMCSAVES_ERR_NOT_CARD
            else if cf_size f < pages * 512 then Inl VMCSAVES_ERR_NOT_CARD
            else
              let ecc = (pages * (512 + 16) \<le> cf_size f);
                  v = \<lparr>v_file = f, v_ecc = ecc, v_raw = (if ecc then 528 else 512), v_ppc = ppc, v_clusters = clusters,
                       v_alloc = le32 (field sb 0x34 4), v_allocEnd = allocEnd, v_root = root,
                       v_fat = [], v_fatAbs = [], v_fatDirty = []\<rparr>
              in if forWrite \<and> ecc then Inl VMCSAVES_ERR_READ_ONLY
                 else if \<not> (mem (fat_clusters v * epc v * 4) \<and> mem (fat_clusters v * 4) \<and> mem (fat_clusters v) \<and> mem (csize v))
                 then Inl VMCSAVES_ERR_MEMORY
                 else (case those (map (fat_cluster v ifc) [0..<fat_clusters v]) of
                         None \<Rightarrow> Inl VMCSAVES_ERR_READ
                       | Some t \<Rightarrow> Inr (v\<lparr>v_fatAbs := map fst t, v_fat := concat (map snd t),
                                        v_fatDirty := replicate (fat_clusters v) False\<rparr>))))"

section \<open>The file allocation table\<close>

abbreviation "FAT_USED \<equiv> (0x80000000 :: 32 word)"
abbreviation "FAT_FREE \<equiv> (0x7FFFFFFF :: 32 word)"
abbreviation "FAT_END \<equiv> (0xFFFFFFFF :: 32 word)"

definition vsNext :: "vs_vmc \<Rightarrow> 32 word \<Rightarrow> 32 word" where
  "vsNext v c =
     (if c \<ge> v_allocEnd v then FAT_END
      else let e = v_fat v ! unat c in if e = FAT_END \<or> e AND FAT_USED = 0 then FAT_END else e AND 0x7FFFFFFF)"

definition vsSetFat :: "vs_vmc \<Rightarrow> 32 word \<Rightarrow> 32 word \<Rightarrow> vs_vmc" where
  "vsSetFat v c val = v\<lparr>v_fat := (v_fat v)[unat c := val], v_fatDirty := (v_fatDirty v)[unat c div epc v := True]\<rparr>"

primrec walk_on :: "vs_vmc \<Rightarrow> 32 word \<Rightarrow> nat \<Rightarrow> 32 word" where
  "walk_on v c 0 = c"
| "walk_on v c (Suc n) = (if c = FAT_END then FAT_END else walk_on v (vsNext v c) n)"

definition vsWalk :: "vs_vmc \<Rightarrow> 32 word \<Rightarrow> nat \<Rightarrow> 32 word" where
  "vsWalk v c n = (if n > unat (v_allocEnd v) then FAT_END else walk_on v c n)"

definition flush_one :: "nat \<Rightarrow> vs_vmc \<times> bool \<Rightarrow> vs_vmc \<times> bool" where
  "flush_one k st =
     (case st of (v, ok) \<Rightarrow>
        if v_fatDirty v ! k then
          (case vsIo_write v (v_fatAbs v ! k) (concat (map bytes32 (take (epc v) (drop (k * epc v) (v_fat v))))) of
             (v', w) \<Rightarrow> (v'\<lparr>v_fatDirty := (v_fatDirty v')[k := False]\<rparr>, ok \<and> w))
        else (v, ok))"

definition vsFlushFat :: "vs_vmc \<Rightarrow> vs_vmc \<times> bool" where
  "vsFlushFat v = fold flush_one [0..<fat_clusters v] (v, True)"

definition vsFreeCount :: "vs_vmc \<Rightarrow> nat" where
  "vsFreeCount v = length (filter (\<lambda>c. v_fat v ! c AND FAT_USED = 0) [0..<unat (v_allocEnd v)])"

text \<open>A chain of new clusters: where the search stopped, how many are missing and the first cluster.\<close>

function alloc_loop :: "vs_vmc \<Rightarrow> nat \<Rightarrow> nat \<Rightarrow> 32 word \<Rightarrow> 32 word \<Rightarrow> vs_vmc \<times> nat \<times> nat \<times> 32 word" where
  "alloc_loop v n c prev first =
     (if c < unat (v_allocEnd v) \<and> 0 < n then
        (if v_fat v ! c AND FAT_USED \<noteq> 0 then alloc_loop v n (c + 1) prev first
         else
           let v1 = vsSetFat v (of_nat c) FAT_END in
           if prev \<noteq> FAT_END
           then alloc_loop (vsSetFat v1 prev (FAT_USED OR of_nat c)) (n - 1) (c + 1) (of_nat c) first
           else alloc_loop v1 (n - 1) (c + 1) (of_nat c) (of_nat c))
      else (v, c, n, first))"
  by pat_completeness auto

termination alloc_loop
  by (relation "measure (\<lambda>(v, n, c, prev, first). unat (v_allocEnd v) - c)") (auto simp: vsSetFat_def)

definition vsAllocChain :: "vs_vmc \<Rightarrow> nat \<Rightarrow> nat \<Rightarrow> vs_vmc \<times> nat \<times> 32 word" where
  "vsAllocChain v n hint =
     (case alloc_loop v n hint FAT_END FAT_END of (v', c, left, first) \<Rightarrow> (v', c, if left = 0 then first else FAT_END))"

primrec free_steps :: "nat \<Rightarrow> vs_vmc \<Rightarrow> 32 word \<Rightarrow> vs_vmc" where
  "free_steps 0 v c = v"
| "free_steps (Suc k) v c =
     (if c = FAT_END \<or> c \<ge> v_allocEnd v then v else free_steps k (vsSetFat v c FAT_FREE) (vsNext v c))"

definition vsFreeChain :: "vs_vmc \<Rightarrow> 32 word \<Rightarrow> vs_vmc" where
  "vsFreeChain v c = free_steps (unat (v_allocEnd v)) v c"

section \<open>Entries\<close>

record vs_ent =
  e_mode :: "16 word"
  e_unused :: "16 word"
  e_length :: "32 word"
  e_created :: bytes
  e_cluster :: "32 word"
  e_dirEntry :: "32 word"
  e_modified :: bytes
  e_attr :: "32 word"
  e_unused2 :: bytes
  e_name :: bytes
  e_unused3 :: bytes

definition ent_of :: "bytes \<Rightarrow> vs_ent" where
  "ent_of bs =
     \<lparr>e_mode = le16 (field bs 0 2), e_unused = le16 (field bs 2 2), e_length = le32 (field bs 4 4), e_created = field bs 8 8,
      e_cluster = le32 (field bs 16 4), e_dirEntry = le32 (field bs 20 4), e_modified = field bs 24 8,
      e_attr = le32 (field bs 32 4), e_unused2 = field bs 36 28, e_name = field bs 64 32, e_unused3 = field bs 96 416\<rparr>"

definition ent_bytes :: "vs_ent \<Rightarrow> bytes" where
  "ent_bytes e =
     bytes16 (e_mode e) @ bytes16 (e_unused e) @ bytes32 (e_length e) @ e_created e @ bytes32 (e_cluster e)
     @ bytes32 (e_dirEntry e) @ e_modified e @ bytes32 (e_attr e) @ e_unused2 e @ e_name e @ e_unused3 e"

abbreviation "MC_FILE \<equiv> (0x0010 :: 16 word)"
abbreviation "MC_DIR \<equiv> (0x0020 :: 16 word)"
abbreviation "MC_EXISTS \<equiv> (0x8000 :: 16 word)"
abbreviation "MODE_DIR \<equiv> (0x8427 :: 16 word)"
abbreviation "MODE_UP \<equiv> (0xA426 :: 16 word)"
abbreviation "MODE_FILE \<equiv> (0x8497 :: 16 word)"

definition has_mode :: "vs_ent \<Rightarrow> 16 word \<Rightarrow> bool" where
  "has_mode e m \<longleftrightarrow> e_mode e AND m \<noteq> 0"

text \<open>A C string in a field of fixed length.\<close>

definition c_str :: "bytes \<Rightarrow> bytes" where
  "c_str bs = takeWhile (\<lambda>b. b \<noteq> 0) bs"

definition vsNameIs :: "vs_ent \<Rightarrow> bytes \<Rightarrow> bool" where
  "vsNameIs e name \<longleftrightarrow> length name \<le> 32 \<and> c_str (e_name e) = name"

text \<open>The cluster of a folder that holds an entry, reading it and putting it back changed.\<close>

definition ent_cluster :: "vs_vmc \<Rightarrow> 32 word \<Rightarrow> nat \<Rightarrow> 32 word option" where
  "ent_cluster v dir index =
     (let c = vsWalk v dir (index div v_ppc v) in if c = FAT_END \<or> c \<ge> v_allocEnd v then None else Some (v_alloc v + c))"

definition vsEnt :: "vs_vmc \<Rightarrow> 32 word \<Rightarrow> nat \<Rightarrow> vs_ent option" where
  "vsEnt v dir index =
     (case ent_cluster v dir index of None \<Rightarrow> None
      | Some ca \<Rightarrow> map_option (\<lambda>cl. ent_of (field cl (index mod v_ppc v * 512) 512)) (vsIo_read v ca))"

definition put_field :: "nat \<Rightarrow> bytes \<Rightarrow> bytes \<Rightarrow> bytes" where
  "put_field at new bs = take at bs @ new @ drop (at + length new) bs"

definition vsEnt_put :: "vs_vmc \<Rightarrow> 32 word \<Rightarrow> nat \<Rightarrow> vs_ent \<Rightarrow> vs_vmc \<times> bool" where
  "vsEnt_put v dir index e =
     (case ent_cluster v dir index of None \<Rightarrow> (v, False)
      | Some ca \<Rightarrow>
          (case vsIo_read v ca of None \<Rightarrow> (v, False)
           | Some cl \<Rightarrow> vsIo_write v ca (put_field (index mod v_ppc v * 512) (ent_bytes e) cl)))"

abbreviation "DIR_MAX \<equiv> (4096 :: nat)"

definition vsDirLen :: "32 word \<Rightarrow> nat" where
  "vsDirLen len = (if unat len > DIR_MAX then DIR_MAX else unat len)"

primrec first_some :: "('a \<Rightarrow> 'b option) \<Rightarrow> 'a list \<Rightarrow> 'b option" where
  "first_some f [] = None"
| "first_some f (x # xs) = (case f x of Some y \<Rightarrow> Some y | None \<Rightarrow> first_some f xs)"

definition save_at :: "vs_vmc \<Rightarrow> bytes \<Rightarrow> nat \<Rightarrow> (nat \<times> vs_ent) option" where
  "save_at v name i =
     (case vsEnt v (v_root v) i of
        Some e \<Rightarrow> if has_mode e MC_EXISTS \<and> has_mode e MC_DIR \<and> vsNameIs e name then Some (i, e) else None
      | None \<Rightarrow> None)"

definition vsFindSave :: "vs_vmc \<Rightarrow> bytes \<Rightarrow> (nat \<times> vs_ent) option" where
  "vsFindSave v name =
     (case vsEnt v (v_root v) 0 of None \<Rightarrow> None
      | Some dot \<Rightarrow> first_some (save_at v name) [2..<vsDirLen (e_length dot)])"

section \<open>Chains of data\<close>

primrec read_clusters :: "vs_vmc \<Rightarrow> nat \<Rightarrow> 32 word \<Rightarrow> bytes option" where
  "read_clusters v 0 c = Some []"
| "read_clusters v (Suc n) c =
     (if c = FAT_END \<or> c \<ge> v_allocEnd v then None
      else (case vsIo_read v (v_alloc v + c) of None \<Rightarrow> None
            | Some cl \<Rightarrow> map_option ((@) cl) (read_clusters v n (vsNext v c))))"

definition clusters_for :: "vs_vmc \<Rightarrow> nat \<Rightarrow> nat" where
  "clusters_for v n = (n + csize v - 1) div csize v"

definition vsReadChain :: "vs_vmc \<Rightarrow> 32 word \<Rightarrow> 32 word \<Rightarrow> bytes option" where
  "vsReadChain v c len =
     (if len > v_allocEnd v * of_nat (csize v) then None
      else map_option (take (unat len)) (read_clusters v (clusters_for v (unat len)) c))"

primrec write_chain :: "vs_vmc \<Rightarrow> 32 word \<Rightarrow> bytes list \<Rightarrow> vs_vmc \<times> bool" where
  "write_chain v c [] = (v, True)"
| "write_chain v c (b # bs) =
     (case vsIo_write v (v_alloc v + c) b of
        (v', True) \<Rightarrow> write_chain v' (vsNext v' c) bs
      | (v', False) \<Rightarrow> (v', False))"

text \<open>The clusters of some data, the last one filled up.\<close>

definition padded :: "nat \<Rightarrow> 8 word \<Rightarrow> bytes \<Rightarrow> bytes" where
  "padded n b bs = bs @ replicate (n - length bs) b"

definition cluster_data :: "vs_vmc \<Rightarrow> 8 word \<Rightarrow> nat \<Rightarrow> bytes \<Rightarrow> bytes list" where
  "cluster_data v b n data = map (\<lambda>k. padded (csize v) b (take (csize v) (drop (k * csize v) data))) [0..<n]"

end
