(* ===== verification/CardSaves.thy ===== *)
theory CardSaves
  imports CardImage
begin

text \<open>
  Saves of a memory card image (\<open>src/vmcsaves.c\<close>): loading one, writing one as a new folder of the root,
  deleting one, listing them. A save is held in memory as its name, its date stamps and its files.
\<close>

section \<open>Saves in memory\<close>

record vs_file =
  f_name :: bytes
  f_created :: bytes
  f_modified :: bytes
  f_data :: bytes

record vs_save =
  s_name :: bytes
  s_created :: bytes
  s_modified :: bytes
  s_files :: "vs_file list"

abbreviation "SAVE_FILES \<equiv> (64 :: nat)"
abbreviation "SAVE_MAX_SIZE \<equiv> (8 * 1024 * 1024 :: 32 word)"

section \<open>Loading\<close>

definition file_data :: "vs_vmc \<Rightarrow> vs_ent \<Rightarrow> bytes option" where
  "file_data v e = (if e_length e = 0 then Some [] else vsReadChain v (e_cluster e) (e_length e))"

definition file_of :: "vs_ent \<Rightarrow> bytes \<Rightarrow> vs_file" where
  "file_of e d = \<lparr>f_name = c_str (e_name e), f_created = e_created e, f_modified = e_modified e, f_data = d\<rparr>"

definition is_file :: "vs_ent \<Rightarrow> bool" where
  "is_file e \<longleftrightarrow> has_mode e MC_EXISTS \<and> has_mode e MC_FILE"

fun load_files :: "(nat \<Rightarrow> bool) \<Rightarrow> vs_vmc \<Rightarrow> 32 word \<Rightarrow> nat list \<Rightarrow> vs_file list \<Rightarrow> 32 word \<Rightarrow> vs_err + vs_file list" where
  "load_files mem v dir [] fs tot = Inr fs"
| "load_files mem v dir (i # ks) fs tot =
     (case vsEnt v dir i of
        None \<Rightarrow> Inl VMCSAVES_ERR_READ
      | Some e \<Rightarrow>
          if \<not> is_file e then load_files mem v dir ks fs tot
          else if length fs \<ge> SAVE_FILES then Inl VMCSAVES_ERR_TOO_BIG
          else if e_length e > SAVE_MAX_SIZE \<or> tot + e_length e > SAVE_MAX_SIZE then Inl VMCSAVES_ERR_TOO_BIG
          else if \<not> mem (max 1 (unat (e_length e))) then Inl VMCSAVES_ERR_MEMORY
          else (case file_data v e of
                  None \<Rightarrow> Inl VMCSAVES_ERR_READ
                | Some d \<Rightarrow> load_files mem v dir ks (fs @ [file_of e d]) (tot + e_length e)))"

definition load_dir :: "(nat \<Rightarrow> bool) \<Rightarrow> vs_vmc \<Rightarrow> vs_ent \<Rightarrow> vs_err + vs_save" where
  "load_dir mem v dir =
     (case load_files mem v (e_cluster dir) [2..<vsDirLen (e_length dir)] [] 0 of
        Inl err \<Rightarrow> Inl err
      | Inr fs \<Rightarrow> Inr \<lparr>s_name = c_str (e_name dir), s_created = e_created dir, s_modified = e_modified dir, s_files = fs\<rparr>)"

definition vsLoadVmc :: "(nat \<Rightarrow> bool) \<Rightarrow> card_file option \<Rightarrow> bytes \<Rightarrow> vs_err + vs_save" where
  "vsLoadVmc mem img name =
     (case vsOpen mem img False of
        Inl err \<Rightarrow> Inl err
      | Inr v \<Rightarrow> (case vsFindSave v name of None \<Rightarrow> Inl VMCSAVES_ERR_NO_SAVE | Some (_, dir) \<Rightarrow> load_dir mem v dir))"

section \<open>Writing\<close>

text \<open>A slot of the root: the first free one, or one more on the end, perhaps in a new cluster.\<close>

definition free_slot :: "vs_vmc \<Rightarrow> nat \<Rightarrow> nat option" where
  "free_slot v i = (case vsEnt v (v_root v) i of Some e \<Rightarrow> if \<not> has_mode e MC_EXISTS then Some i else None | None \<Rightarrow> None)"

definition root_slot :: "vs_vmc \<Rightarrow> vs_ent \<Rightarrow> (nat \<times> bool) option" where
  "root_slot v rootDot =
     (case first_some (free_slot v) [2..<vsDirLen (e_length rootDot)] of
        Some i \<Rightarrow> Some (i, False)
      | None \<Rightarrow>
          if unat (e_length rootDot) \<ge> DIR_MAX then None
          else Some (unat (e_length rootDot), unat (e_length rootDot) mod v_ppc v = 0))"

text \<open>The clusters of the files: the state, where the search goes on and the first cluster of each.\<close>

fun write_files :: "vs_vmc \<Rightarrow> nat \<Rightarrow> vs_file list \<Rightarrow> vs_vmc \<times> nat \<times> (vs_err + 32 word list)" where
  "write_files v hint [] = (v, hint, Inr [])"
| "write_files v hint (f # fs) =
     (let n = clusters_for v (length (f_data f)) in
      if n = 0 then
        (case write_files v hint fs of
           (v', hint', Inl err) \<Rightarrow> (v', hint', Inl err)
         | (v', hint', Inr firsts) \<Rightarrow> (v', hint', Inr (FAT_END # firsts)))
      else
        case vsAllocChain v n hint of (v1, hint1, first) \<Rightarrow>
          if first = FAT_END then (v1, hint1, Inl VMCSAVES_ERR_NO_ROOM)
          else
            case write_chain v1 first (cluster_data v1 0xFF n (f_data f)) of (v2, ok) \<Rightarrow>
              if \<not> ok then (v2, hint1, Inl VMCSAVES_ERR_WRITE)
              else
                case write_files v2 hint1 fs of
                  (v', hint', Inl err) \<Rightarrow> (v', hint', Inl err)
                | (v', hint', Inr firsts) \<Rightarrow> (v', hint', Inr (first # firsts)))"

definition blank_ent :: vs_ent where
  "blank_ent =
     \<lparr>e_mode = 0, e_unused = 0, e_length = 0, e_created = replicate 8 0, e_cluster = 0, e_dirEntry = 0,
      e_modified = replicate 8 0, e_attr = 0, e_unused2 = replicate 28 0, e_name = replicate 32 0, e_unused3 = replicate 416 0\<rparr>"

text \<open>\<open>strncpy\<close> into a name of 32 bytes.\<close>

definition name_field :: "bytes \<Rightarrow> bytes" where
  "name_field name = take 32 (padded 32 0 name)"

definition file_ent :: "vs_file \<Rightarrow> 32 word \<Rightarrow> vs_ent" where
  "file_ent f first =
     blank_ent\<lparr>e_mode := MODE_FILE, e_length := of_nat (length (f_data f)), e_created := f_created f, e_modified := f_modified f,
               e_cluster := (if first = FAT_END then 0 else first), e_name := name_field (f_name f)\<rparr>"

definition dir_ents :: "vs_vmc \<Rightarrow> vs_save \<Rightarrow> nat \<Rightarrow> 32 word list \<Rightarrow> vs_ent list" where
  "dir_ents v s slot firsts =
     [blank_ent\<lparr>e_mode := MODE_DIR, e_created := s_created s, e_modified := s_modified s, e_cluster := v_root v,
                e_dirEntry := of_nat slot, e_name := name_field (map of_char ''.'')\<rparr>,
      blank_ent\<lparr>e_mode := MODE_UP, e_created := s_created s, e_modified := s_modified s, e_name := name_field (map of_char ''..'')\<rparr>]
     @ map2 file_ent (s_files s) firsts"

text \<open>The last cluster of the root, and one more after it.\<close>

primrec last_steps :: "nat \<Rightarrow> vs_vmc \<Rightarrow> 32 word \<Rightarrow> 32 word" where
  "last_steps 0 v c = c"
| "last_steps (Suc k) v c = (if vsNext v c = FAT_END then c else last_steps k v (vsNext v c))"

definition grow_root :: "vs_vmc \<Rightarrow> nat \<Rightarrow> vs_vmc \<times> (vs_err + unit)" where
  "grow_root v hint =
     (let lst = last_steps (unat (v_allocEnd v)) v (v_root v) in
      case vsAllocChain v 1 hint of (v1, _, add) \<Rightarrow>
        if add = FAT_END then (v1, Inl VMCSAVES_ERR_NO_ROOM)
        else
          case vsIo_write v1 (v_alloc v1 + add) (replicate (csize v1) 0) of (v2, ok) \<Rightarrow>
            if ok then (vsSetFat v2 lst (FAT_USED OR add), Inr ()) else (v2, Inl VMCSAVES_ERR_WRITE))"

definition root_ent :: "vs_save \<Rightarrow> 32 word \<Rightarrow> vs_ent" where
  "root_ent s dirFirst =
     blank_ent\<lparr>e_mode := MODE_DIR, e_length := of_nat (2 + length (s_files s)), e_created := s_created s,
               e_modified := s_modified s, e_cluster := dirFirst, e_name := name_field (s_name s)\<rparr>"

text \<open>The save appears: its entry in the root, and the count of the root when it is a new one.\<close>

definition appear :: "vs_vmc \<Rightarrow> vs_save \<Rightarrow> nat \<Rightarrow> vs_ent \<Rightarrow> 32 word \<Rightarrow> vs_vmc \<times> (vs_err + unit)" where
  "appear v s slot rootDot dirFirst =
     (case vsEnt_put v (v_root v) slot (root_ent s dirFirst) of (v1, ok) \<Rightarrow>
        if ok \<and> slot \<ge> unat (e_length rootDot) then
          (case vsEnt_put v1 (v_root v1) 0 (rootDot\<lparr>e_length := of_nat (slot + 1)\<rparr>) of
             (v2, ok2) \<Rightarrow> (v2, if ok2 then Inr () else Inl VMCSAVES_ERR_WRITE))
        else (v1, if ok then Inr () else Inl VMCSAVES_ERR_WRITE))"

definition write_dir :: "(nat \<Rightarrow> bool) \<Rightarrow> vs_vmc \<Rightarrow> nat \<Rightarrow> vs_save \<Rightarrow> nat \<Rightarrow> 32 word list \<Rightarrow> vs_vmc \<times> nat \<times> (vs_err + 32 word)" where
  "write_dir mem v hint s slot firsts =
     (let n = (2 + length (s_files s) + v_ppc v - 1) div v_ppc v in
      case vsAllocChain v n hint of (v1, hint1, first) \<Rightarrow>
        if \<not> mem (n * csize v1) then (v1, hint1, Inl VMCSAVES_ERR_MEMORY)
        else if first = FAT_END then (v1, hint1, Inl VMCSAVES_ERR_NO_ROOM)
        else
          case write_chain v1 first (cluster_data v1 0 n (concat (map ent_bytes (dir_ents v1 s slot firsts)))) of (v2, ok) \<Rightarrow>
            (v2, hint1, if ok then Inr first else Inl VMCSAVES_ERR_WRITE))"

definition write_new :: "(nat \<Rightarrow> bool) \<Rightarrow> vs_vmc \<Rightarrow> vs_save \<Rightarrow> vs_ent \<Rightarrow> nat \<Rightarrow> bool \<Rightarrow> vs_vmc \<times> (vs_err + unit)" where
  "write_new mem v s rootDot slot grow =
     (case write_files v 0 (s_files s) of
        (v1, _, Inl err) \<Rightarrow> (v1, Inl err)
      | (v1, hint1, Inr firsts) \<Rightarrow>
          (case write_dir mem v1 hint1 s slot firsts of
             (v2, _, Inl err) \<Rightarrow> (v2, Inl err)
           | (v2, hint2, Inr dirFirst) \<Rightarrow>
               (case (if grow then grow_root v2 hint2 else (v2, Inr ())) of
                  (v3, Inl err) \<Rightarrow> (v3, Inl err)
                | (v3, Inr _) \<Rightarrow>
                    (case vsFlushFat v3 of (v4, ok) \<Rightarrow>
                       if ok then appear v4 s slot rootDot dirFirst else (v4, Inl VMCSAVES_ERR_WRITE)))))"

definition needed :: "vs_vmc \<Rightarrow> vs_save \<Rightarrow> bool \<Rightarrow> nat" where
  "needed v s grow =
     (2 + length (s_files s) + v_ppc v - 1) div v_ppc v + (if grow then 1 else 0)
     + sum_list (map (\<lambda>f. clusters_for v (length (f_data f))) (s_files s))"

text \<open>The answer -1 of the code is the error \<open>VMCSAVES_ERR_EXISTS\<close>.\<close>

definition write_opened :: "(nat \<Rightarrow> bool) \<Rightarrow> vs_vmc \<Rightarrow> vs_save \<Rightarrow> vs_vmc \<times> (vs_err + unit)" where
  "write_opened mem v s =
     (if vsFindSave v (s_name s) \<noteq> None then (v, Inl VMCSAVES_ERR_EXISTS)
      else
        case vsEnt v (v_root v) 0 of
          None \<Rightarrow> (v, Inl VMCSAVES_ERR_READ)
        | Some rootDot \<Rightarrow>
            (case root_slot v rootDot of
               None \<Rightarrow> (v, Inl VMCSAVES_ERR_NO_ROOM)
             | Some (slot, grow) \<Rightarrow>
                 if needed v s grow > vsFreeCount v then (v, Inl VMCSAVES_ERR_NO_ROOM)
                 else write_new mem v s rootDot slot grow))"

definition vsWriteVmc :: "(nat \<Rightarrow> bool) \<Rightarrow> vs_save \<Rightarrow> card_file option \<Rightarrow> card_file option \<times> (vs_err + unit)" where
  "vsWriteVmc mem s img =
     (case vsOpen mem img True of
        Inl err \<Rightarrow> (img, Inl err)
      | Inr v \<Rightarrow> (case write_opened mem v s of (v', r) \<Rightarrow> (Some (v_file v'), r)))"

section \<open>Deleting\<close>

definition file_chain :: "vs_vmc \<Rightarrow> 32 word \<Rightarrow> nat \<Rightarrow> 32 word option" where
  "file_chain v dir i =
     (case vsEnt v dir i of Some e \<Rightarrow> if is_file e \<and> e_length e > 0 then Some (e_cluster e) else None | None \<Rightarrow> None)"

definition delete_opened :: "vs_vmc \<Rightarrow> bytes \<Rightarrow> vs_vmc \<times> (vs_err + unit)" where
  "delete_opened v name =
     (case vsFindSave v name of
        None \<Rightarrow> (v, Inl VMCSAVES_ERR_NO_SAVE)
      | Some (at, dir) \<Rightarrow>
          (let files = take SAVE_FILES (List.map_filter (file_chain v (e_cluster dir)) [2..<vsDirLen (e_length dir)]) in
           case vsEnt_put v (v_root v) at (dir\<lparr>e_mode := e_mode dir AND NOT MC_EXISTS\<rparr>) of (v1, ok) \<Rightarrow>
             if \<not> ok then (v1, Inl VMCSAVES_ERR_WRITE)
             else
               case vsFlushFat (vsFreeChain (fold (\<lambda>c w. vsFreeChain w c) files v1) (e_cluster dir)) of (v2, ok2) \<Rightarrow>
                 (v2, if ok2 then Inr () else Inl VMCSAVES_ERR_WRITE)))"

definition vmcSavesDelete :: "(nat \<Rightarrow> bool) \<Rightarrow> card_file option \<Rightarrow> bytes \<Rightarrow> card_file option \<times> (vs_err + unit)" where
  "vmcSavesDelete mem img name =
     (case vsOpen mem img True of
        Inl err \<Rightarrow> (img, Inl err)
      | Inr v \<Rightarrow> (case delete_opened v name of (v', r) \<Rightarrow> (Some (v_file v'), r)))"

end
