(* ===== verification/CardFrame.thy ===== *)
theory CardFrame
  imports CardSaves
begin

text \<open>
  What the operations on a card image read and write, page by page: a read gives the pages of its
  cluster or fails, a write changes some of its pages, and what a load finds depends only on the entries
  and clusters it goes through.
\<close>

section \<open>Reading\<close>

abbreviation vimg :: "vs_vmc \<Rightarrow> nat \<Rightarrow> 8 word" where
  "vimg v \<equiv> cf_at (v_file v)"

definition page :: "(nat \<Rightarrow> 8 word) \<Rightarrow> nat \<Rightarrow> bytes" where
  "page m p = bytes_at m (512 * p) 512"

lemma length_page [simp]: "length (page m p) = 512"
  by (simp add: page_def)

text \<open>A card without spare areas whose clusters are in the file; \<open>sure\<close> when no read fails.\<close>

definition firm :: "vs_vmc \<Rightarrow> bool" where
  "firm v \<longleftrightarrow> v_raw v = 512 \<and> 0 < v_ppc v \<and> v_ppc v \<le> 16 \<and> 0 < unat (v_allocEnd v) \<and> unat (v_allocEnd v) \<le> 0x100000
     \<and> v_root v < v_allocEnd v \<and> unat (v_alloc v) + unat (v_allocEnd v) \<le> unat (v_clusters v)
     \<and> unat (v_clusters v) * csize v \<le> cf_size (v_file v)
     \<and> length (v_fat v) = fat_clusters v * epc v \<and> length (v_fatAbs v) = fat_clusters v \<and> length (v_fatDirty v) = fat_clusters v
     \<and> (\<forall>a \<in> set (v_fatAbs v). a < v_clusters v)"

definition sure :: "vs_vmc \<Rightarrow> bool" where
  "sure v \<longleftrightarrow> (\<forall>n p. cf_rd (v_file v) n p)"

definition clu :: "vs_vmc \<Rightarrow> nat \<Rightarrow> bytes" where
  "clu v a = concat (map (\<lambda>j. page (vimg v) (a * v_ppc v + j)) [0..<v_ppc v])"

lemma length_pages: "(\<And>j. length (f j) = 512) \<Longrightarrow> length (concat (map f [0..<n])) = 512 * n"
  by (induction n) auto

lemma length_clu [simp]: "length (clu v a) = csize v"
  by (simp add: clu_def csize_def length_pages)

lemma field_concat_pages:
  assumes "j < n" "\<And>i. length (f i) = 512"
  shows "field (concat (map f [0..<n])) (j * 512) 512 = f j"
proof -
  have "[0..<n] = [0..<j] @ j # [Suc j..<n]"
    using assms(1) upt_add_eq_append [of 0 j "n - j"] upt_conv_Cons [of j n] by simp
  then have "concat (map f [0..<n]) = concat (map f [0..<j]) @ f j @ concat (map f [Suc j..<n])" by simp
  then show ?thesis using length_pages [where f = f and n = j] assms(2) by (simp add: field_def mult.commute)
qed

lemma field_clu: "j < v_ppc v \<Longrightarrow> field (clu v a) (j * 512) 512 = page (vimg v) (a * v_ppc v + j)"
  unfolding clu_def by (rule field_concat_pages) simp_all

lemma those_some: "(\<And>x. x \<in> set xs \<Longrightarrow> f x = Some (g x)) \<Longrightarrow> those (map f xs) = Some (map g xs)"
  by (induction xs) auto

lemma page_pos:
  fixes a :: nat
  assumes "a < c" "p < ppc"
  shows "(a * ppc + p) * 512 + 512 \<le> c * (512 * ppc)"
proof -
  have "a * ppc + p + 1 \<le> (a + 1) * ppc" using assms(2) by simp
  also have "\<dots> \<le> c * ppc" using assms(1) by (intro mult_le_mono1) simp
  finally have "(a * ppc + p + 1) * 512 \<le> c * ppc * 512" by (rule mult_le_mono1)
  then show ?thesis by (simp add: algebra_simps)
qed

definition in_file :: "vs_vmc \<Rightarrow> 32 word \<Rightarrow> bool" where
  "in_file v a \<longleftrightarrow> (unat a + 1) * csize v \<le> cf_size (v_file v)"

lemma page_in_file: "in_file v a \<Longrightarrow> p < v_ppc v \<Longrightarrow> (unat a * v_ppc v + p) * 512 + 512 \<le> cf_size (v_file v)"
  using page_pos [of "unat a" "unat a + 1" p "v_ppc v"] by (simp add: in_file_def csize_def)

lemma read_in_file:
  assumes "v_raw v = 512" "in_file v a" "sure v"
  shows "vsIo_read v a = Some (clu v (unat a))"
proof -
  have "those (map (\<lambda>p. page_read ((unat a * v_ppc v + p) * v_raw v) (v_file v)) [0..<v_ppc v])
      = Some (map (\<lambda>p. page (vimg v) (unat a * v_ppc v + p)) [0..<v_ppc v])"
    by (intro those_some) (use assms page_in_file in \<open>auto simp: page_read_def page_def mult.commute sure_def\<close>)
  then show ?thesis unfolding vsIo_read_def clu_def by simp
qed

lemma those_Some: "those xs = Some ys \<Longrightarrow> xs = map Some ys"
  by (induction xs arbitrary: ys) (auto split: option.splits)

lemma read_some:
  assumes "v_raw v = 512" "0 < v_ppc v" "vsIo_read v a = Some x"
  shows "in_file v a" "x = clu v (unat a)"
proof -
  let ?r = "\<lambda>p. page_read ((unat a * v_ppc v + p) * v_raw v) (v_file v)"
  obtain ys where ys: "those (map ?r [0..<v_ppc v]) = Some ys" "x = concat ys"
    using assms(3) by (auto simp: vsIo_read_def)
  have m: "map ?r [0..<v_ppc v] = map Some ys" by (rule those_Some [OF ys(1)])
  have r: "?r p \<noteq> None" if "p < v_ppc v" for p
  proof -
    have "length ys = v_ppc v" using arg_cong [OF m, of length] by simp
    moreover have "map ?r [0..<v_ppc v] ! p = map Some ys ! p" by (simp only: m)
    ultimately show ?thesis using that by simp
  qed
  then have g: "?r p = Some (page (vimg v) (unat a * v_ppc v + p))" if "p < v_ppc v" for p
    using r [OF that] assms(1) by (simp add: page_read_def page_def mult.commute split: if_splits)
  show "in_file v a"
    using r [of "v_ppc v - 1"] assms(1,2)
    by (cases "v_ppc v") (auto simp: page_read_def in_file_def csize_def algebra_simps split: if_splits)
  have "those (map ?r [0..<v_ppc v]) = Some (map (\<lambda>p. page (vimg v) (unat a * v_ppc v + p)) [0..<v_ppc v])"
    by (rule those_some) (use g in auto)
  then show "x = clu v (unat a)" using ys by (simp add: clu_def)
qed

lemma firm_in_file:
  assumes "firm v" "unat a < unat (v_clusters v)"
  shows "in_file v a"
proof -
  have "(unat a + 1) * csize v \<le> unat (v_clusters v) * csize v" using assms(2) by (intro mult_le_mono1) simp
  also have "\<dots> \<le> cf_size (v_file v)" using assms(1) by (simp add: firm_def)
  finally show ?thesis by (simp add: in_file_def)
qed

lemma read_firm:
  assumes "firm v" "unat a < unat (v_clusters v)"
  shows "vsIo_read v a \<in> {None, Some (clu v (unat a))}"
    and "sure v \<Longrightarrow> vsIo_read v a = Some (clu v (unat a))"
proof -
  show "vsIo_read v a \<in> {None, Some (clu v (unat a))}"
    using read_some(2) [of v a] assms(1) by (cases "vsIo_read v a") (auto simp: firm_def)
  show "sure v \<Longrightarrow> vsIo_read v a = Some (clu v (unat a))"
    using read_in_file [OF _ firm_in_file [OF assms]] assms(1) by (simp add: firm_def)
qed

text \<open>Clusters of the allocatable area.\<close>

lemma alloc_plus:
  assumes "firm v" "c < v_allocEnd v"
  shows "unat (v_alloc v + c) = unat (v_alloc v) + unat c" "unat (v_alloc v + c) < unat (v_clusters v)"
proof -
  have "unat (v_alloc v) + unat c < unat (v_clusters v)" using assms by (simp add: firm_def word_less_nat_alt)
  moreover have "unat (v_clusters v) < 2 ^ 32" using unsigned_less [of "v_clusters v"] by simp
  ultimately show "unat (v_alloc v + c) = unat (v_alloc v) + unat c" "unat (v_alloc v + c) < unat (v_clusters v)"
    by (simp_all add: unat_word_ariths)
qed

lemma end_not_cluster: "firm v \<Longrightarrow> c < v_allocEnd v \<Longrightarrow> c \<noteq> FAT_END"
  by (auto simp: firm_def word_less_nat_alt)

text \<open>Page \<open>j\<close> of cluster \<open>c\<close>.\<close>

definition dpage :: "vs_vmc \<Rightarrow> 32 word \<Rightarrow> nat \<Rightarrow> nat" where
  "dpage v c j = (unat (v_alloc v) + unat c) * v_ppc v + j"

lemma vsEnt_sure:
  assumes "firm v" "sure v"
  shows "vsEnt v dir i =
    (let c = vsWalk v dir (i div v_ppc v) in if c < v_allocEnd v then Some (ent_of (page (vimg v) (dpage v c (i mod v_ppc v)))) else None)"
proof -
  let ?c = "vsWalk v dir (i div v_ppc v)"
  have m: "i mod v_ppc v < v_ppc v" using assms(1) by (simp add: firm_def)
  show ?thesis
  proof (cases "?c < v_allocEnd v")
    case True
    then show ?thesis
      using read_firm(2) [OF assms(1) alloc_plus(2) [OF assms(1) True] assms(2)] alloc_plus(1) [OF assms(1) True]
        end_not_cluster [OF assms(1) True] field_clu [OF m]
      by (simp add: vsEnt_def ent_cluster_def Let_def dpage_def not_le)
  qed (simp add: vsEnt_def ent_cluster_def Let_def not_less)
qed

lemma vsEnt_firm:
  assumes "firm v" "vsEnt v dir i = Some e"
  shows "vsWalk v dir (i div v_ppc v) < v_allocEnd v" "e = ent_of (page (vimg v) (dpage v (vsWalk v dir (i div v_ppc v)) (i mod v_ppc v)))"
proof -
  let ?c = "vsWalk v dir (i div v_ppc v)"
  show c: "?c < v_allocEnd v" using assms by (auto simp: vsEnt_def ent_cluster_def Let_def not_le split: if_splits)
  have "i mod v_ppc v < v_ppc v" using assms(1) by (simp add: firm_def)
  then show "e = ent_of (page (vimg v) (dpage v ?c (i mod v_ppc v)))"
    using assms(2) read_firm(1) [OF assms(1) alloc_plus(2) [OF assms(1) c]] alloc_plus(1) [OF assms(1) c]
    by (auto simp: vsEnt_def ent_cluster_def Let_def field_clu dpage_def split: if_splits)
qed

section \<open>Writing\<close>

text \<open>What a write leaves alone: everything of the card but the file, and of the file all but its bytes.\<close>

definition geo :: "vs_vmc \<Rightarrow> nat \<times> nat \<times> 32 word \<times> 32 word \<times> 32 word \<times> 32 word \<times> 32 word list" where
  "geo v = (v_raw v, v_ppc v, v_clusters v, v_alloc v, v_allocEnd v, v_root v, v_fatAbs v)"

lemma geo_eq:
  "geo w = geo v \<longleftrightarrow> v_raw w = v_raw v \<and> v_ppc w = v_ppc v \<and> v_clusters w = v_clusters v \<and> v_alloc w = v_alloc v
     \<and> v_allocEnd w = v_allocEnd v \<and> v_root w = v_root v \<and> v_fatAbs w = v_fatAbs v"
  by (auto simp: geo_def)

lemma geo_derived:
  assumes "geo w = geo v"
  shows "csize w = csize v" "epc w = epc v" "fat_clusters w = fat_clusters v" "dpage w c j = dpage v c j"
  using assms by (simp_all add: geo_eq csize_def epc_def fat_clusters_def dpage_def)

text \<open>Every page is as it was or as \<open>new\<close> has it.\<close>

definition changed :: "(nat \<Rightarrow> bytes \<Rightarrow> bool) \<Rightarrow> card_file \<Rightarrow> card_file \<Rightarrow> bool" where
  "changed new f f' \<longleftrightarrow> cf_size f' = cf_size f \<and> cf_rd f' = cf_rd f
     \<and> (\<forall>p. page (cf_at f') p = page (cf_at f) p \<or> new p (page (cf_at f') p))"

lemma changed_refl [simp]: "changed new f f"
  by (simp add: changed_def)

lemma changed_trans: "changed new f f' \<Longrightarrow> changed new f' f'' \<Longrightarrow> changed new f f''"
  unfolding changed_def by metis

lemma changed_mono: "changed new f f' \<Longrightarrow> (\<And>p b. new p b \<Longrightarrow> new' p b) \<Longrightarrow> changed new' f f'"
  unfolding changed_def by blast

lemma page_store: "length bs = 512 \<Longrightarrow> page (store_at (512 * q) bs m) p = (if p = q then bs else page m p)"
  unfolding page_def using bytes_at_store_same [of "512 * q" bs m] bytes_at_store_other [of "512 * p" 512 "512 * q" bs m]
  by (cases p q rule: linorder_cases) auto

lemma write_pages_effect:
  assumes "write_pages 512 (512 * q) k buf f = (f', ok)" "length buf = 512 * k" "512 * (q + k) \<le> cf_size f"
  shows "changed (\<lambda>p b. \<exists>j < k. p = q + j \<and> b = field buf (j * 512) 512) f f'
    \<and> (ok \<longrightarrow> (\<forall>j < k. page (cf_at f') (q + j) = field buf (j * 512) 512))
    \<and> (\<forall>p. p < q \<or> q + k \<le> p \<longrightarrow> page (cf_at f') p = page (cf_at f) p)"
  using assms
proof (induction k arbitrary: q buf f)
  case (Suc k)
  let ?b = "take 512 buf" and ?f = "\<lambda>j. field buf (j * 512) 512"
  obtain f1 ok1 where w: "page_write (512 * q) ?b f = (f1, ok1)" by (cases "page_write (512 * q) ?b f")
  show ?case
  proof (cases ok1)
    case False
    then have "f' = f1" "\<not> ok" using Suc.prems(1) w by auto
    moreover have "cf_at f1 = cf_at f" "cf_size f1 = cf_size f" "cf_rd f1 = cf_rd f"
      using w False by (auto simp: page_write_def Let_def split: if_splits)
    ultimately show ?thesis by (simp add: changed_def)
  next
    case True
    have f1: "cf_at f1 = store_at (512 * q) ?b (cf_at f)" "cf_rd f1 = cf_rd f" "cf_size f1 = cf_size f"
      using w True Suc.prems(2,3) by (auto simp: page_write_def Let_def split: if_splits)
    have d: "field (drop 512 buf) (j * 512) 512 = ?f (Suc j)" for j by (simp add: field_def add.commute)
    have z: "?f 0 = ?b" by (simp add: field_def)
    have pg: "page (cf_at f1) p = (if p = q then ?b else page (cf_at f) p)" for p
      unfolding f1(1) by (rule page_store) (simp add: Suc.prems(2))
    have r: "changed (\<lambda>p b. \<exists>j<k. p = q + 1 + j \<and> b = ?f (Suc j)) f1 f'"
      "ok \<longrightarrow> (\<forall>j<k. page (cf_at f') (q + 1 + j) = ?f (Suc j))"
      "\<forall>p. p < q + 1 \<or> q + 1 + k \<le> p \<longrightarrow> page (cf_at f') p = page (cf_at f1) p"
      using Suc.IH [of "q + 1" "drop 512 buf" f1] Suc.prems w True f1(3) unfolding d by (auto simp: algebra_simps)
    have "changed (\<lambda>p b. \<exists>j<Suc k. p = q + j \<and> b = ?f j) f f1"
      using pg f1(2,3) z by (auto simp: changed_def intro!: exI [of _ "0 :: nat"])
    moreover have "changed (\<lambda>p b. \<exists>j<Suc k. p = q + j \<and> b = ?f j) f1 f'"
      using r(1) by (rule changed_mono) (metis Suc_less_eq add.assoc plus_1_eq_Suc)
    ultimately have "changed (\<lambda>p b. \<exists>j<Suc k. p = q + j \<and> b = ?f j) f f'" by (rule changed_trans)
    moreover have "page (cf_at f') (q + j) = ?f j" if "ok" "j < Suc k" for j
    proof (cases j)
      case 0
      have "page (cf_at f') q = page (cf_at f1) q" using r(3) by simp
      then show ?thesis using 0 pg z by simp
    next
      case (Suc i)
      then show ?thesis using r(2) that by (metis Suc_less_eq add.assoc plus_1_eq_Suc)
    qed
    moreover have "\<forall>p. p < q \<or> q + Suc k \<le> p \<longrightarrow> page (cf_at f') p = page (cf_at f) p" using r(3) pg by auto
    ultimately show ?thesis by blast
  qed
qed (auto simp: changed_def)

text \<open>A cluster is written: the state but for its file, the pages outside and inside.\<close>

lemma write_effect:
  assumes "vsIo_write v a b = (w, ok)" "firm v" "unat a < unat (v_clusters v)" "length b = csize v"
  shows "geo w = geo v" "v_fat w = v_fat v" "v_fatDirty w = v_fatDirty v"
    "changed (\<lambda>p x. \<exists>j < v_ppc v. p = unat a * v_ppc v + j \<and> x = field b (j * 512) 512) (v_file v) (v_file w)"
    "ok \<Longrightarrow> j < v_ppc v \<Longrightarrow> page (vimg w) (unat a * v_ppc v + j) = field b (j * 512) 512"
    "p < unat a * v_ppc v \<or> unat a * v_ppc v + v_ppc v \<le> p \<Longrightarrow> page (vimg w) p = page (vimg v) p"
proof -
  obtain f' where f': "write_pages (v_raw v) (unat a * v_ppc v * v_raw v) (v_ppc v) b (v_file v) = (f', ok)" "w = v\<lparr>v_file := f'\<rparr>"
    using assms(1) by (auto simp: vsIo_write_def split: prod.splits)
  have raw: "v_raw v = 512" "0 < v_ppc v" using assms(2) by (simp_all add: firm_def)
  have "(unat a * v_ppc v + (v_ppc v - 1)) * 512 + 512 \<le> unat (v_clusters v) * (512 * v_ppc v)"
    by (rule page_pos [OF assms(3)]) (simp add: raw(2))
  also have "\<dots> \<le> cf_size (v_file v)" using assms(2) by (simp add: firm_def csize_def)
  finally have sz: "512 * (unat a * v_ppc v + v_ppc v) \<le> cf_size (v_file v)" using raw(2) by (cases "v_ppc v") (auto simp: algebra_simps)
  have e: "write_pages 512 (512 * (unat a * v_ppc v)) (v_ppc v) b (v_file v) = (f', ok)"
    using f'(1) raw(1) by (simp add: mult.commute)
  note r = write_pages_effect [OF e _ sz]
  show "geo w = geo v" "v_fat w = v_fat v" "v_fatDirty w = v_fatDirty v"
    by (auto simp: f'(2) geo_def)
  show "changed (\<lambda>p x. \<exists>j < v_ppc v. p = unat a * v_ppc v + j \<and> x = field b (j * 512) 512) (v_file v) (v_file w)"
    "ok \<Longrightarrow> j < v_ppc v \<Longrightarrow> page (vimg w) (unat a * v_ppc v + j) = field b (j * 512) 512"
    "p < unat a * v_ppc v \<or> unat a * v_ppc v + v_ppc v \<le> p \<Longrightarrow> page (vimg w) p = page (vimg v) p"
    using r assms(4) by (auto simp: f'(2) csize_def)
qed

section \<open>Opening again\<close>

lemma field_field: "at + n \<le> k \<Longrightarrow> field (field bs b k) at n = field bs (b + at) n"
  by (simp add: field_def drop_take min_def add.commute)

lemma le32s_fields: "le32s bs = map (\<lambda>q. le32 (field bs (q * 4) 4)) [0..<length bs div 4]"
proof -
  have b: "bs = bytes_at (\<lambda>i. bs ! i) 0 (length bs)" by (rule nth_equalityI) (simp_all add: bytes_at_def)
  have "le32s (bytes_at (\<lambda>i. bs ! i) 0 (length bs)) = map (\<lambda>q. le32 (bytes_at (\<lambda>i. bs ! i) (0 + 4 * q) 4)) [0..<length bs div 4]"
    by (rule le32s_bytes_at)
  moreover have "bytes_at (\<lambda>i. bs ! i) (0 + 4 * q) 4 = field bs (q * 4) 4" if "q < length bs div 4" for q
  proof -
    have "field (bytes_at (\<lambda>i. bs ! i) 0 (length bs)) (q * 4) 4 = bytes_at (\<lambda>i. bs ! i) (0 + q * 4) 4"
      using that by (intro bytes_at_field) simp
    then show ?thesis using b by (simp add: mult.commute)
  qed
  ultimately show ?thesis using b by simp
qed

lemma field_clu_word:
  assumes "q < epc v"
  shows "field (clu v a) (q * 4) 4 = field (page (vimg v) (a * v_ppc v + q div 128)) (q mod 128 * 4) 4"
proof -
  have "q div 128 < v_ppc v" using assms by (simp add: epc_def csize_def)
  then have "field (page (vimg v) (a * v_ppc v + q div 128)) (q mod 128 * 4) 4
      = field (field (clu v a) (q div 128 * 512) 512) (q mod 128 * 4) 4" by (simp add: field_clu)
  also have "\<dots> = field (clu v a) (q div 128 * 512 + q mod 128 * 4) 4" by (rule field_field) simp
  finally have "field (clu v a) (q div 128 * 512 + q mod 128 * 4) 4 = field (page (vimg v) (a * v_ppc v + q div 128)) (q mod 128 * 4) 4" ..
  moreover have "q div 128 * 512 + q mod 128 * 4 = q * 4" using div_mult_mod_eq [of q 128] by linarith
  ultimately show ?thesis by simp
qed

text \<open>The page and the value of an entry of the FAT in the file.\<close>

definition fat_page :: "vs_vmc \<Rightarrow> nat \<Rightarrow> nat" where
  "fat_page v c = unat (v_fatAbs v ! (c div epc v)) * v_ppc v + c mod epc v div 128"

definition disk_fat :: "vs_vmc \<Rightarrow> (nat \<Rightarrow> 8 word) \<Rightarrow> nat \<Rightarrow> 32 word" where
  "disk_fat v m c = le32 (field (page m (fat_page v c)) (c mod 128 * 4) 4)"

text \<open>The pages that tell where the FAT is.\<close>

definition ifc_of :: "(nat \<Rightarrow> 8 word) \<Rightarrow> nat \<Rightarrow> 32 word" where
  "ifc_of m i = le32 (field (page m 0) (0x50 + i * 4) 4)"

definition ind_page :: "vs_vmc \<Rightarrow> (nat \<Rightarrow> 8 word) \<Rightarrow> nat \<Rightarrow> nat" where
  "ind_page v m k = unat (ifc_of m (k div epc v)) * v_ppc v + k mod epc v div 128"

definition same_meta :: "vs_vmc \<Rightarrow> (nat \<Rightarrow> 8 word) \<Rightarrow> (nat \<Rightarrow> 8 word) \<Rightarrow> bool" where
  "same_meta v m m' \<longleftrightarrow> page m' 0 = page m 0 \<and> (\<forall>k < fat_clusters v. page m' (ind_page v m k) = page m (ind_page v m k))"

definition sure_file :: "card_file \<Rightarrow> card_file" where
  "sure_file f = f\<lparr>cf_rd := \<lambda>_ _. True\<rparr>"

definition at_file :: "vs_vmc \<Rightarrow> card_file \<Rightarrow> vs_vmc" where
  "at_file v f = v\<lparr>v_file := sure_file f, v_fat := map (disk_fat v (cf_at f)) [0..<fat_clusters v * epc v],
     v_fatDirty := replicate (fat_clusters v) False\<rparr>"

lemma disk_fat_geo:
  assumes "geo w = geo v"
  shows "disk_fat w = disk_fat v" "fat_page w = fat_page v"
proof -
  show "fat_page w = fat_page v" using assms by (intro ext) (simp add: fat_page_def geo_derived [OF assms] geo_eq)
  then show "disk_fat w = disk_fat v" by (intro ext) (simp add: disk_fat_def)
qed

lemma epc_128: "epc v = 128 * v_ppc v"
  by (simp add: epc_def csize_def)

lemma le32s_clu:
  assumes "v_fatAbs v ! k = a" "0 < v_ppc v"
  shows "le32s (clu v (unat a)) = map (disk_fat v (vimg v)) [k * epc v..<k * epc v + epc v]"
proof -
  have "le32s (clu v (unat a)) = map (\<lambda>q. le32 (field (clu v (unat a)) (q * 4) 4)) [0..<epc v]"
    by (subst le32s_fields) (simp add: epc_def)
  also have "\<dots> = map (\<lambda>q. disk_fat v (vimg v) (k * epc v + q)) [0..<epc v]"
  proof (rule map_cong)
    fix q assume "q \<in> set [0..<epc v]"
    then have q: "q < epc v" by simp
    have d: "(k * epc v + q) div epc v = k" "(k * epc v + q) mod epc v = q" using q by (auto simp: div_add1_eq)
    have "k * epc v + q = q + (k * v_ppc v) * 128" by (simp add: epc_128)
    then have "(k * epc v + q) mod 128 = q mod 128" by (simp only: mod_mult_self1)
    then show "le32 (field (clu v (unat a)) (q * 4) 4) = disk_fat v (vimg v) (k * epc v + q)"
      using assms(1) by (simp add: disk_fat_def fat_page_def d field_clu_word [OF q] q)
  qed simp
  also have "\<dots> = map (disk_fat v (vimg v)) [k * epc v..<k * epc v + epc v]"
    by (rule nth_equalityI) auto
  finally show ?thesis .
qed

lemma concat_upt: "concat (map (\<lambda>k. map g [k * n..<k * n + n]) [0..<m]) = map g [0..<m * n]"
proof (induction m)
  case (Suc m)
  then show ?case using upt_add_eq_append [of 0 "m * n" n] by (simp add: add.commute)
qed simp

lemma disk_fat_cong: "v_ppc w = v_ppc v \<Longrightarrow> v_fatAbs w = v_fatAbs v \<Longrightarrow> disk_fat w = disk_fat v"
  by (intro ext) (simp add: disk_fat_def fat_page_def epc_def csize_def)

text \<open>One cluster of the FAT, read from a file that has the same pages where the FAT is named.\<close>

lemma fat_cluster_again:
  assumes fc: "fat_cluster v ifc k = Some (a, ws)" and raw: "v_raw v = 512" "0 < v_ppc v" and k: "k < fat_clusters v"
    and ifc: "ifc = map (\<lambda>i. ifc_of (vimg v) i) [0..<32]"
    and w: "geo w = geo v" "sure w" "cf_size (v_file w) = cf_size (v_file v)"
    and pg: "page (vimg w) (ind_page v (vimg v) k) = page (vimg v) (ind_page v (vimg v) k)"
  shows "fat_cluster w ifc k = Some (a, le32s (clu w (unat a)))"
proof -
  have k32: "k div epc v < 32" and ind: "vsIo_read v (ifc ! (k div epc v)) \<noteq> None"
    using fc by (auto simp: fat_cluster_def split: if_splits option.splits)
  let ?i = "ifc ! (k div epc v)"
  have i: "?i = ifc_of (vimg v) (k div epc v)" using k32 ifc by simp
  have e: "epc w = epc v" "v_clusters w = v_clusters v" "v_raw w = 512" "v_ppc w = v_ppc v" "csize w = csize v"
    using w(1) raw geo_derived [OF w(1)] by (simp_all add: geo_eq)
  have fi: "vsIo_read v ?i = Some (clu v (unat ?i))" "in_file v ?i"
    using read_some [OF raw, of ?i] ind by auto
  then have ri: "vsIo_read w ?i = Some (clu w (unat ?i))"
    using w(3) e by (intro read_in_file [OF e(3) _ w(2)]) (simp add: in_file_def)
  have q: "k mod epc v < epc v" using raw by (simp add: epc_128)
  have fld: "field (clu w (unat ?i)) (k mod epc v * 4) 4 = field (clu v (unat ?i)) (k mod epc v * 4) 4"
    using pg field_clu_word [OF q, of "unat ?i"] field_clu_word [of "k mod epc v" w "unat ?i"] q e
    by (simp add: ind_page_def i)
  have a: "a = le32 (field (clu v (unat ?i)) (k mod epc v * 4) 4)" "\<not> v_clusters v \<le> a" "vsIo_read v a \<noteq> None"
    using fc fi(1) by (auto simp: fat_cluster_def Let_def split: if_splits)
  have "in_file v a" using read_some(1) [OF raw, of a] a(3) by auto
  then have "vsIo_read w a = Some (clu w (unat a))"
    using w(3) e by (intro read_in_file [OF e(3) _ w(2)]) (simp add: in_file_def)
  then show ?thesis using k32 ri fld a(1,2) e by (simp add: fat_cluster_def Let_def)
qed

lemma page_read_0: "page_read 0 f = Some b \<Longrightarrow> b = page (cf_at f) 0 \<and> 512 \<le> cf_size f"
  by (auto simp: page_read_def page_def split: if_splits)

lemma those_map_upt: "those (map f [0..<n]) = Some t \<Longrightarrow> length t = n \<and> (\<forall>k < n. f k = Some (t ! k))"
proof -
  assume "those (map f [0..<n]) = Some t"
  then have m: "map f [0..<n] = map Some t" by (rule those_Some)
  then have "length t = n" by (metis length_map length_upt minus_nat.diff_0)
  moreover have "f k = Some (t ! k)" if "k < n" for k
  proof -
    have "map f [0..<n] ! k = map Some t ! k" by (simp only: m)
    then show ?thesis using that \<open>length t = n\<close> by simp
  qed
  ultimately show ?thesis by blast
qed

text \<open>The fields of an opened card, and what its FAT holds.\<close>

definition head_of :: "card_file \<Rightarrow> vs_vmc" where
  "head_of f =
     (let sb = page (cf_at f) 0; ppc = unat (le16 (field sb 0x2A 2)); clusters = le32 (field sb 0x30 4);
          ecc = (unat clusters * ppc * (512 + 16) \<le> cf_size f)
      in \<lparr>v_file = f, v_ecc = ecc, v_raw = (if ecc then 528 else 512), v_ppc = ppc, v_clusters = clusters,
          v_alloc = le32 (field sb 0x34 4), v_allocEnd = le32 (field sb 0x38 4), v_root = le32 (field sb 0x3C 4),
          v_fat = [], v_fatAbs = [], v_fatDirty = []\<rparr>)"

definition head_ok :: "card_file \<Rightarrow> bool" where
  "head_ok f \<longleftrightarrow>
     (let sb = page (cf_at f) 0; v = head_of f in
      512 \<le> cf_size f \<and> take 28 sb = CARD_MAGIC \<and> le16 (field sb 0x28 2) = 512 \<and> 1 \<le> v_ppc v \<and> v_ppc v \<le> 16 \<and> v_allocEnd v \<noteq> 0
      \<and> v_allocEnd v \<le> 0x100000 \<and> v_root v < v_allocEnd v \<and> unat (v_clusters v) * v_ppc v * 512 \<le> cf_size f)"

definition ifcs :: "card_file \<Rightarrow> 32 word list" where
  "ifcs f = map (\<lambda>k. ifc_of (cf_at f) k) [0..<32]"

lemma vsOpen_iff:
  "vsOpen mem (Some f) w = Inr v \<longleftrightarrow>
     page_read 0 f \<noteq> None \<and> head_ok f \<and> \<not> (w \<and> v_ecc (head_of f))
     \<and> mem (fat_clusters (head_of f) * epc (head_of f) * 4) \<and> mem (fat_clusters (head_of f) * 4) \<and> mem (fat_clusters (head_of f))
     \<and> mem (csize (head_of f))
     \<and> (\<exists>t. those (map (fat_cluster (head_of f) (ifcs f)) [0..<fat_clusters (head_of f)]) = Some t
          \<and> v = (head_of f)\<lparr>v_fatAbs := map fst t, v_fat := concat (map snd t), v_fatDirty := replicate (fat_clusters (head_of f)) False\<rparr>)"
proof (cases "page_read 0 f")
  case None
  then show ?thesis by (simp add: vsOpen_def)
next
  case (Some b)
  have b: "b = page (cf_at f) 0" "512 \<le> cf_size f" using page_read_0 [OF Some] by auto
  have i: "map (\<lambda>k. le32 (field (page (cf_at f) 0) (0x50 + k * 4) 4)) [0..<32] = ifcs f" by (simp add: ifcs_def ifc_of_def)
  show ?thesis unfolding vsOpen_def option.case Some b(1) Let_def i
    by (auto simp: head_ok_def head_of_def Let_def b(2) not_less not_le split: option.splits if_splits)
qed

lemma ind_page_cong: "v_ppc w = v_ppc v \<Longrightarrow> ind_page w = ind_page v"
  by (intro ext) (simp add: ind_page_def epc_def csize_def)

lemma clu_cong: "v_ppc w = v_ppc v \<Longrightarrow> vimg w = vimg v \<Longrightarrow> clu w = clu v"
  by (intro ext) (simp add: clu_def)

lemma at_file_simps [simp]:
  "geo (at_file v f) = geo v" "vimg (at_file v f) = cf_at f" "cf_size (v_file (at_file v f)) = cf_size f" "sure (at_file v f)"
  "v_allocEnd (at_file v f) = v_allocEnd v" "v_root (at_file v f) = v_root v" "v_ppc (at_file v f) = v_ppc v"
  "v_alloc (at_file v f) = v_alloc v" "csize (at_file v f) = csize v" "epc (at_file v f) = epc v" "v_fatAbs (at_file v f) = v_fatAbs v"
  "fat_clusters (at_file v f) = fat_clusters v" "v_clusters (at_file v f) = v_clusters v"
  by (simp_all add: at_file_def geo_def sure_def sure_file_def csize_def epc_def fat_clusters_def)

lemma reopen:
  assumes o: "vsOpen mem (Some f) w = Inr v" and raw: "v_raw v = 512"
    and sz: "cf_size f' = cf_size f" and meta: "same_meta v (cf_at f) (cf_at f')"
  shows "vsOpen (\<lambda>_. True) (Some (sure_file f')) False = Inr (at_file v f')"
proof -
  let ?h = "head_of f" and ?s = "sure_file f'"
  let ?h' = "head_of ?s"
  obtain t where ok: "head_ok f"
    and t: "those (map (fat_cluster ?h (ifcs f)) [0..<fat_clusters ?h]) = Some t"
    and v: "v = ?h\<lparr>v_fatAbs := map fst t, v_fat := concat (map snd t), v_fatDirty := replicate (fat_clusters ?h) False\<rparr>"
    using o unfolding vsOpen_iff by blast
  have p0: "page (cf_at f') 0 = page (cf_at f) 0" using meta by (simp add: same_meta_def)
  have h': "?h' = ?h\<lparr>v_file := ?s\<rparr>" using sz p0 by (simp add: head_of_def Let_def sure_file_def)
  have ok': "head_ok ?s" using ok unfolding head_ok_def h' using sz p0 by (simp add: Let_def sure_file_def)
  have i': "ifcs ?s = ifcs f" using p0 by (simp add: ifcs_def ifc_of_def sure_file_def)
  have v_eq: "v_ppc v = v_ppc ?h" "fat_clusters v = fat_clusters ?h" "v_raw ?h = 512" "v_file ?h = f" "epc v = epc ?h"
    using raw by (auto simp: v fat_clusters_def epc_def csize_def head_of_def Let_def)
  have ppc: "0 < v_ppc ?h" using ok by (simp add: head_ok_def Let_def)
  have tl: "length t = fat_clusters ?h" and tk: "k < fat_clusters ?h \<Longrightarrow> fat_cluster ?h (ifcs f) k = Some (t ! k)" for k
    using those_map_upt [OF t] by blast+
  have n': "fat_clusters ?h' = fat_clusters ?h" unfolding h' by (simp add: fat_clusters_def epc_def csize_def)
  define t' where "t' = map (\<lambda>k. (fst (t ! k), le32s (clu ?h' (unat (fst (t ! k)))))) [0..<fat_clusters ?h]"
  have "fat_cluster ?h' (ifcs f) k = Some (fst (t ! k), le32s (clu ?h' (unat (fst (t ! k)))))" if k: "k < fat_clusters ?h" for k
  proof (rule fat_cluster_again [where v = ?h and ws = "snd (t ! k)"])
    show "fat_cluster ?h (ifcs f) k = Some (fst (t ! k), snd (t ! k))" using tk [OF k] by simp
    show "ifcs f = map (ifc_of (vimg ?h)) [0..<32]" by (simp add: ifcs_def v_eq)
    show "geo ?h' = geo ?h" "sure ?h'" "cf_size (v_file ?h') = cf_size (v_file ?h)"
      unfolding h' using sz by (simp_all add: geo_def sure_def sure_file_def v_eq)
    show "page (vimg ?h') (ind_page ?h (vimg ?h) k) = page (vimg ?h) (ind_page ?h (vimg ?h) k)"
      unfolding h' using meta k v_eq ind_page_cong [OF v_eq(1)] by (simp add: same_meta_def sure_file_def)
  qed (use v_eq ppc k in auto)
  then have t': "those (map (fat_cluster ?h' (ifcs ?s)) [0..<fat_clusters ?h']) = Some t'"
    unfolding t'_def i' n' by (intro those_some) auto
  have f': "map fst t' = map fst t" unfolding t'_def by (rule nth_equalityI) (simp_all add: tl)
  have "snd (t' ! k) = map (disk_fat v (cf_at f')) [k * epc v..<k * epc v + epc v]" if k: "k < fat_clusters ?h" for k
  proof -
    have "clu ?h' = clu (at_file v f')" unfolding h' by (rule clu_cong) (simp_all add: v_eq sure_file_def)
    moreover have "le32s (clu (at_file v f') (unat (fst (t ! k)))) = map (disk_fat (at_file v f') (cf_at f')) [k * epc v..<k * epc v + epc v]"
      using le32s_clu [of "at_file v f'" k "fst (t ! k)"] ppc k tl v_eq(1) by (simp add: v)
    ultimately show ?thesis using k disk_fat_geo(1) [of "at_file v f'" v] by (simp add: t'_def)
  qed
  then have "map snd t' = map (\<lambda>k. map (disk_fat v (cf_at f')) [k * epc v..<k * epc v + epc v]) [0..<fat_clusters v]"
    by (intro nth_equalityI) (simp_all add: v_eq t'_def)
  then have "concat (map snd t') = map (disk_fat v (cf_at f')) [0..<fat_clusters v * epc v]" by (simp add: concat_upt)
  then have "?h'\<lparr>v_fatAbs := map fst t', v_fat := concat (map snd t'), v_fatDirty := replicate (fat_clusters ?h') False\<rparr> = at_file v f'"
    unfolding at_file_def f' n' h' by (simp add: v) (simp add: fat_clusters_def epc_def csize_def)
  moreover have "page_read 0 ?s \<noteq> None" using ok' by (simp add: page_read_def head_ok_def Let_def sure_file_def)
  ultimately show ?thesis using t' ok' unfolding vsOpen_iff by auto
qed

end
