(* ===== verification/CardChains.thy ===== *)
theory CardChains
  imports CardFrame
begin

text \<open>
  Chains of clusters as lists. What the operations of \<open>CardImage\<close> find along a chain is a function of
  the list and of the pages of its clusters, so two cards that agree on the clusters a save owns load
  the same save.
\<close>

section \<open>Chains\<close>

primrec is_chain :: "vs_vmc \<Rightarrow> 32 word \<Rightarrow> 32 word list \<Rightarrow> bool" where
  "is_chain v c [] \<longleftrightarrow> \<not> c < v_allocEnd v"
| "is_chain v c (x # xs) \<longleftrightarrow> x = c \<and> c < v_allocEnd v \<and> is_chain v (vsNext v c) xs"

primrec chain_steps :: "nat \<Rightarrow> vs_vmc \<Rightarrow> 32 word \<Rightarrow> 32 word list" where
  "chain_steps 0 v c = []"
| "chain_steps (Suc k) v c = (if c < v_allocEnd v then c # chain_steps k v (vsNext v c) else [])"

definition chain_of :: "vs_vmc \<Rightarrow> 32 word \<Rightarrow> 32 word list" where
  "chain_of v c = chain_steps (unat (v_allocEnd v) + 1) v c"

definition used :: "vs_vmc \<Rightarrow> 32 word \<Rightarrow> bool" where
  "used v c \<longleftrightarrow> v_fat v ! unat c AND FAT_USED \<noteq> 0"

lemma is_chain_clusters: "is_chain v c xs \<Longrightarrow> x \<in> set xs \<Longrightarrow> x < v_allocEnd v"
  by (induction xs arbitrary: c) auto

lemma chain_steps_clusters: "x \<in> set (chain_steps k v c) \<Longrightarrow> x < v_allocEnd v"
  by (induction k arbitrary: c) (auto split: if_splits)

lemma chain_steps_chain: "length (chain_steps k v c) < k \<Longrightarrow> is_chain v c (chain_steps k v c)"
  by (induction k arbitrary: c) (auto split: if_splits)

lemma chain_steps_unique: "is_chain v c xs \<Longrightarrow> length xs \<le> k \<Longrightarrow> chain_steps k v c = xs"
proof (induction xs arbitrary: c k)
  case Nil
  then show ?case by (cases k) auto
next
  case (Cons x xs)
  then show ?case by (cases k) auto
qed

lemma distinct_clusters_length:
  assumes "distinct xs" "\<And>x. x \<in> set xs \<Longrightarrow> x < (n :: 32 word)"
  shows "length xs \<le> unat n"
proof -
  have "card (unat ` set xs) = card (set xs)" by (rule card_image) (auto simp: inj_on_def intro: word_unat_eq_iff [THEN iffD2])
  then have "length xs = card (unat ` set xs)" using assms(1) by (simp add: distinct_card)
  also have "\<dots> \<le> card {..<unat n}" using assms(2) by (intro card_mono) (auto simp: word_less_nat_alt)
  finally show ?thesis by simp
qed

lemma chain_of_chain:
  assumes "distinct (chain_of v c)"
  shows "is_chain v c (chain_of v c)"
proof -
  have "length (chain_of v c) \<le> unat (v_allocEnd v)"
    using assms chain_steps_clusters by (intro distinct_clusters_length) (auto simp: chain_of_def)
  then show ?thesis unfolding chain_of_def by (intro chain_steps_chain) simp
qed

lemma chain_of_eq:
  assumes "is_chain v c xs" "distinct xs"
  shows "chain_of v c = xs"
proof -
  have "length xs \<le> unat (v_allocEnd v)"
    using distinct_clusters_length [OF assms(2), of "v_allocEnd v"] is_chain_clusters [OF assms(1)] by blast
  then show ?thesis unfolding chain_of_def by (intro chain_steps_unique [OF assms(1)]) simp
qed

lemma vsNext_cong:
  "v_allocEnd w = v_allocEnd v \<Longrightarrow> v_fat w ! unat c = v_fat v ! unat c \<Longrightarrow> vsNext w c = vsNext v c"
  by (simp add: vsNext_def)

lemma is_chain_cong:
  assumes "is_chain v c xs" "v_allocEnd w = v_allocEnd v" "\<And>x. x \<in> set xs \<Longrightarrow> v_fat w ! unat x = v_fat v ! unat x"
  shows "is_chain w c xs"
  using assms(1,3)
proof (induction xs arbitrary: c)
  case (Cons x xs)
  then have "x = c" "c < v_allocEnd v" "is_chain v (vsNext v c) xs" by simp_all
  moreover have "vsNext w c = vsNext v c" by (rule vsNext_cong [OF assms(2)]) (use Cons.prems \<open>x = c\<close> in simp)
  ultimately show ?case using Cons.IH [of "vsNext v c"] Cons.prems(2) assms(2) by simp
qed (simp add: assms(2))

section \<open>Along a chain\<close>

lemma walk_on_chain:
  assumes "firm v" "is_chain v c xs"
  shows "n < length xs \<Longrightarrow> walk_on v c n = xs ! n" "length xs \<le> n \<Longrightarrow> \<not> walk_on v c n < v_allocEnd v"
proof -
  have e: "\<not> FAT_END < v_allocEnd v" using end_not_cluster [OF assms(1)] by blast
  show "n < length xs \<Longrightarrow> walk_on v c n = xs ! n"
    using assms(2)
  proof (induction xs arbitrary: c n)
    case (Cons x xs)
    then show ?case using end_not_cluster [OF assms(1)] by (cases n) auto
  qed simp
  have stuck: "\<not> walk_on v d k < v_allocEnd v" if "\<not> d < v_allocEnd v" for d k
    using that
  proof (induction k arbitrary: d)
    case (Suc k)
    then show ?case using e by (auto simp: vsNext_def not_less)
  qed simp
  show "length xs \<le> n \<Longrightarrow> \<not> walk_on v c n < v_allocEnd v"
    using assms(2)
  proof (induction xs arbitrary: c n)
    case (Cons x xs)
    then show ?case using e by (cases n) auto
  qed (use stuck in auto)
qed

lemma vsWalk_chain:
  assumes "firm v" "is_chain v c xs" "distinct xs"
  shows "n < length xs \<Longrightarrow> vsWalk v c n = xs ! n" "vsWalk v c n < v_allocEnd v \<longleftrightarrow> n < length xs"
proof -
  have l: "length xs \<le> unat (v_allocEnd v)"
    using distinct_clusters_length [OF assms(3), of "v_allocEnd v"] is_chain_clusters [OF assms(2)] by blast
  show w: "n < length xs \<Longrightarrow> vsWalk v c n = xs ! n" for n
    using l walk_on_chain(1) [OF assms(1,2)] by (simp add: vsWalk_def)
  show "vsWalk v c n < v_allocEnd v \<longleftrightarrow> n < length xs"
  proof (cases "n < length xs")
    case True
    then show ?thesis using w [OF True] is_chain_clusters [OF assms(2), of "xs ! n"] by simp
  next
    case False
    then show ?thesis
      using walk_on_chain(2) [OF assms(1,2)] end_not_cluster [OF assms(1), of FAT_END] by (auto simp: vsWalk_def)
  qed
qed

text \<open>An entry of a folder whose chain is \<open>xs\<close>.\<close>

definition ent_at :: "vs_vmc \<Rightarrow> 32 word list \<Rightarrow> nat \<Rightarrow> vs_ent" where
  "ent_at v xs i = ent_of (page (vimg v) (dpage v (xs ! (i div v_ppc v)) (i mod v_ppc v)))"

lemma vsEnt_chain:
  assumes "firm v" "sure v" "is_chain v dir xs" "distinct xs"
  shows "vsEnt v dir i = (if i < length xs * v_ppc v then Some (ent_at v xs i) else None)"
proof -
  have p: "0 < v_ppc v" using assms(1) by (simp add: firm_def)
  have "i div v_ppc v < length xs \<longleftrightarrow> i < length xs * v_ppc v" using p by (simp add: div_less_iff_less_mult)
  then show ?thesis
    unfolding vsEnt_sure [OF assms(1,2)] Let_def
    using vsWalk_chain [OF assms(1,3,4), of "i div v_ppc v"] by (simp add: ent_at_def)
qed

lemma read_clusters_chain:
  assumes "firm v" "sure v" "is_chain v c xs"
  shows "read_clusters v n c =
    (if n \<le> length xs then Some (concat (map (\<lambda>x. clu v (unat (v_alloc v) + unat x)) (take n xs))) else None)"
  using assms(3)
proof (induction n arbitrary: c xs)
  case (Suc n)
  show ?case
  proof (cases xs)
    case Nil
    then show ?thesis using Suc.prems by (auto simp: not_less)
  next
    case (Cons x ys)
    then have x: "x = c" "c < v_allocEnd v" "is_chain v (vsNext v c) ys" using Suc.prems by auto
    have "\<not> v_allocEnd v \<le> c" using x(2) by simp
    then show ?thesis
      using Suc.IH [OF x(3)] read_firm(2) [OF assms(1) alloc_plus(2) [OF assms(1) x(2)] assms(2)]
        alloc_plus(1) [OF assms(1) x(2)] end_not_cluster [OF assms(1) x(2)] Cons x(1)
      by simp
  qed
qed simp

section \<open>What a save owns\<close>

definition big_file :: "vs_ent \<Rightarrow> bool" where
  "big_file e \<longleftrightarrow> is_file e \<and> e_length e \<noteq> 0"

definition entries_of :: "vs_vmc \<Rightarrow> vs_ent \<Rightarrow> vs_ent list" where
  "entries_of v e = List.map_filter (vsEnt v (e_cluster e)) [2..<vsDirLen (e_length e)]"

definition save_claims :: "vs_vmc \<Rightarrow> vs_ent \<Rightarrow> 32 word list" where
  "save_claims v e = chain_of v (e_cluster e) @ concat (map (\<lambda>f. chain_of v (e_cluster f)) (filter big_file (entries_of v e)))"

definition agree :: "vs_vmc \<Rightarrow> vs_vmc \<Rightarrow> 32 word set \<Rightarrow> bool" where
  "agree v w S \<longleftrightarrow> (\<forall>c \<in> S. v_fat w ! unat c = v_fat v ! unat c \<and> (\<forall>j < v_ppc v. page (vimg w) (dpage v c j) = page (vimg v) (dpage v c j)))"

lemma agree_subset: "agree v w S \<Longrightarrow> T \<subseteq> S \<Longrightarrow> agree v w T"
  by (auto simp: agree_def)

lemma chain_agree:
  assumes "geo w = geo v" "distinct (chain_of v c)" "agree v w (set (chain_of v c))"
  shows "is_chain w c (chain_of v c)" "chain_of w c = chain_of v c"
proof -
  show "is_chain w c (chain_of v c)"
  proof (rule is_chain_cong [OF chain_of_chain [OF assms(2)]])
    show "v_allocEnd w = v_allocEnd v" using assms(1) by (simp add: geo_eq)
  qed (use assms(3) in \<open>unfold agree_def, blast\<close>)
  then show "chain_of w c = chain_of v c" by (rule chain_of_eq [OF _ assms(2)])
qed

lemma clu_agree:
  assumes "geo w = geo v" "agree v w S" "c \<in> S"
  shows "clu w (unat (v_alloc w) + unat c) = clu v (unat (v_alloc v) + unat c)"
proof -
  have "map (\<lambda>j. page (vimg w) ((unat (v_alloc v) + unat c) * v_ppc v + j)) [0..<v_ppc v]
      = map (\<lambda>j. page (vimg v) ((unat (v_alloc v) + unat c) * v_ppc v + j)) [0..<v_ppc v]"
    using assms(2,3) by (intro map_cong) (auto simp: agree_def dpage_def)
  moreover have "v_alloc w = v_alloc v" "v_ppc w = v_ppc v" using assms(1) by (simp_all add: geo_eq)
  ultimately show ?thesis by (simp only: clu_def)
qed

lemma vsEnt_agree:
  assumes "firm v" "sure v" "firm w" "sure w" "geo w = geo v" "distinct (chain_of v c)" "agree v w (set (chain_of v c))"
  shows "vsEnt w c i = vsEnt v c i"
proof -
  have p: "0 < v_ppc v" using assms(1) by (simp add: firm_def)
  have g: "v_ppc w = v_ppc v" using assms(5) by (simp add: geo_eq)
  note v = vsEnt_chain [OF assms(1,2) chain_of_chain [OF assms(6)] assms(6)]
  note w = vsEnt_chain [OF assms(3,4) chain_agree(1) [OF assms(5-7)] assms(6)]
  have "ent_at w (chain_of v c) i = ent_at v (chain_of v c) i" if "i < length (chain_of v c) * v_ppc v"
  proof -
    have "i div v_ppc v < length (chain_of v c)" using that p by (simp add: div_less_iff_less_mult)
    then show ?thesis
      using assms(7) p geo_derived(4) [OF assms(5)] by (simp add: ent_at_def g agree_def)
  qed
  then show ?thesis unfolding v w g by simp
qed

lemma vsReadChain_agree:
  assumes "firm v" "sure v" "firm w" "sure w" "geo w = geo v" "distinct (chain_of v c)" "agree v w (set (chain_of v c))"
  shows "vsReadChain w c len = vsReadChain v c len"
proof -
  have g: "v_allocEnd w = v_allocEnd v" "csize w = csize v" using assms(5) geo_derived [OF assms(5)] by (simp_all add: geo_eq)
  have m: "map (\<lambda>x. clu w (unat (v_alloc w) + unat x)) (take n (chain_of v c)) = map (\<lambda>x. clu v (unat (v_alloc v) + unat x)) (take n (chain_of v c))" for n
    using clu_agree [OF assms(5,7)] by (intro map_cong) (auto dest: in_set_takeD)
  have "read_clusters w n c = read_clusters v n c" for n
    unfolding read_clusters_chain [OF assms(1,2) chain_of_chain [OF assms(6)]]
      read_clusters_chain [OF assms(3,4) chain_agree(1) [OF assms(5-7)]] by (simp only: m)
  then show ?thesis by (simp add: vsReadChain_def g clusters_for_def)
qed

lemma load_files_cong:
  assumes "\<And>i. i \<in> set ks \<Longrightarrow> vsEnt w c i = vsEnt v c i"
    and "\<And>i e. i \<in> set ks \<Longrightarrow> vsEnt v c i = Some e \<Longrightarrow> is_file e \<Longrightarrow> file_data w e = file_data v e"
  shows "load_files mem w c ks fs n = load_files mem v c ks fs n"
  using assms
proof (induction ks arbitrary: fs n)
  case (Cons i ks)
  note IH = Cons.IH [OF Cons.prems(1) Cons.prems(2)]
  have i: "vsEnt w c i = vsEnt v c i" using Cons.prems(1) by simp
  show ?case
  proof (cases "vsEnt v c i")
    case (Some e)
    have "is_file e \<Longrightarrow> file_data w e = file_data v e" using Cons.prems(2) [of i e] Some by simp
    moreover have IH: "load_files mem w c ks fs n = load_files mem v c ks fs n" for fs n by (rule IH) simp_all
    ultimately show ?thesis by (cases "is_file e") (simp_all add: i Some IH cong: if_cong option.case_cong)
  qed (simp add: i)
qed simp

lemma map_filter_mem: "x \<in> set xs \<Longrightarrow> f x = Some y \<Longrightarrow> y \<in> set (List.map_filter f xs)"
  by (force simp: List.map_filter_def)

lemma distinct_claims:
  assumes "distinct (save_claims v e)"
  shows "distinct (chain_of v (e_cluster e))" "f \<in> set (entries_of v e) \<Longrightarrow> big_file f \<Longrightarrow> distinct (chain_of v (e_cluster f))"
  using assms by (auto simp: save_claims_def distinct_concat_iff)

lemma load_dir_agree:
  assumes "firm v" "sure v" "firm w" "sure w" "geo w = geo v" "distinct (save_claims v e)" "agree v w (set (save_claims v e))"
  shows "load_dir mem w e = load_dir mem v e"
proof -
  have d: "agree v w (set (chain_of v (e_cluster e)))" by (rule agree_subset [OF assms(7)]) (auto simp: save_claims_def)
  have en: "vsEnt w (e_cluster e) i = vsEnt v (e_cluster e) i" for i
    by (rule vsEnt_agree [OF assms(1-5) distinct_claims(1) [OF assms(6)] d])
  have "load_files mem w (e_cluster e) [2..<vsDirLen (e_length e)] [] 0 = load_files mem v (e_cluster e) [2..<vsDirLen (e_length e)] [] 0"
  proof (rule load_files_cong [OF en])
    fix i f assume f: "i \<in> set [2..<vsDirLen (e_length e)]" "vsEnt v (e_cluster e) i = Some f" "is_file f"
    show "file_data w f = file_data v f"
    proof (cases "e_length f = 0")
      case False
      have m: "f \<in> set (entries_of v e)" unfolding entries_of_def using f(1,2) by (rule map_filter_mem)
      have b: "big_file f" using f(3) False by (simp add: big_file_def)
      have "agree v w (set (chain_of v (e_cluster f)))"
        by (rule agree_subset [OF assms(7)]) (use m b in \<open>auto simp: save_claims_def\<close>)
      then show ?thesis
        using vsReadChain_agree [OF assms(1-5) distinct_claims(2) [OF assms(6) m b]] by (simp add: file_data_def)
    qed (simp add: file_data_def)
  qed
  then show ?thesis by (simp add: load_dir_def)
qed

end
