(* ===== verification/CardAlloc.thy ===== *)
theory CardAlloc
  imports CardChains
begin

text \<open>
  Taking and giving back clusters in the table in memory. A card is \<open>apart\<close> from an earlier one when
  nothing the earlier table marks as used has changed, in the table or on the card.
\<close>

section \<open>Entries of the table\<close>

lemma fat_length:
  assumes "firm v"
  shows "unat (v_allocEnd v) \<le> length (v_fat v)"
proof -
  let ?n = "unat (v_allocEnd v)" and ?e = "epc v"
  have e: "0 < ?e" using assms by (simp add: firm_def epc_128)
  have "?n + ?e - 1 < (?n + ?e - 1) div ?e * ?e + ?e"
    using e by (metis add.commute div_mult_mod_eq mod_less_divisor nat_add_left_cancel_less)
  then show ?thesis using assms by (simp add: firm_def fat_clusters_def)
qed

lemma set_fat_nth:
  assumes "firm v" "c < v_allocEnd v"
  shows "v_fat (vsSetFat v c val) ! unat d = (if d = c then val else v_fat v ! unat d)"
proof -
  have "unat c < length (v_fat v)" using fat_length [OF assms(1)] assms(2) by (simp add: word_less_nat_alt)
  then show ?thesis by (auto simp: vsSetFat_def nth_list_update word_unat_eq_iff)
qed

lemma dirty_index: "firm v \<Longrightarrow> c < v_allocEnd v \<Longrightarrow> unat c div epc v < fat_clusters v"
proof -
  assume a: "firm v" "c < v_allocEnd v"
  have "unat c < fat_clusters v * epc v" using fat_length [OF a(1)] a by (simp add: firm_def word_less_nat_alt)
  moreover have "0 < epc v" using a(1) by (simp add: firm_def epc_128)
  ultimately show ?thesis by (simp add: div_less_iff_less_mult)
qed

lemma set_fat_simps [simp]:
  "geo (vsSetFat v c val) = geo v" "v_file (vsSetFat v c val) = v_file v" "length (v_fat (vsSetFat v c val)) = length (v_fat v)"
  "length (v_fatDirty (vsSetFat v c val)) = length (v_fatDirty v)" "v_allocEnd (vsSetFat v c val) = v_allocEnd v"
  "epc (vsSetFat v c val) = epc v" "v_ppc (vsSetFat v c val) = v_ppc v"
  by (simp_all add: vsSetFat_def geo_def epc_def csize_def)

lemma set_fat_dirty:
  assumes "firm v" "c < v_allocEnd v"
  shows "v_fatDirty (vsSetFat v c val) ! k \<longleftrightarrow> v_fatDirty v ! k \<or> k = unat c div epc v"
  using dirty_index [OF assms] assms(1) by (auto simp: vsSetFat_def nth_list_update firm_def)

lemma firm_geo:
  assumes "firm v" "geo w = geo v" "cf_size (v_file w) = cf_size (v_file v)"
    and "length (v_fat w) = length (v_fat v)" "length (v_fatDirty w) = length (v_fatDirty v)"
  shows "firm w"
  using assms geo_derived [OF assms(2)] by (simp add: firm_def geo_eq)

lemma firm_set_fat [simp]: "firm v \<Longrightarrow> firm (vsSetFat v c val)"
  by (rule firm_geo) simp_all

section \<open>Apart\<close>

definition apart :: "vs_vmc \<Rightarrow> vs_vmc \<Rightarrow> bool" where
  "apart v w \<longleftrightarrow> geo w = geo v \<and> length (v_fat w) = length (v_fat v) \<and> length (v_fatDirty w) = length (v_fatDirty v)
     \<and> changed (\<lambda>p b. \<exists>c j. c < v_allocEnd v \<and> \<not> used v c \<and> j < v_ppc v \<and> p = dpage v c j) (v_file v) (v_file w)
     \<and> (\<forall>c < v_allocEnd v. used v c \<longrightarrow> v_fat w ! unat c = v_fat v ! unat c)
     \<and> (\<forall>k. v_fatDirty v ! k \<longrightarrow> v_fatDirty w ! k)
     \<and> (\<forall>c < v_allocEnd v. v_fat w ! unat c \<noteq> v_fat v ! unat c \<longrightarrow> v_fatDirty w ! (unat c div epc v))"

lemma apart_refl [simp]: "apart v v"
  by (simp add: apart_def)

lemma apart_used: "apart v w \<Longrightarrow> c < v_allocEnd v \<Longrightarrow> used v c \<Longrightarrow> used w c"
  by (simp add: apart_def used_def)

lemma apart_trans:
  assumes a: "apart v w" and b: "apart w x"
  shows "apart v x"
proof -
  have g: "geo w = geo v" using a by (simp add: apart_def)
  have s: "v_allocEnd w = v_allocEnd v" "v_ppc w = v_ppc v" "epc w = epc v" using g geo_derived [OF g] by (simp_all add: geo_eq)
  have d: "dpage w = dpage v" by (intro ext) (rule geo_derived(4) [OF g])
  have "changed (\<lambda>p b. \<exists>c j. c < v_allocEnd v \<and> \<not> used v c \<and> j < v_ppc v \<and> p = dpage v c j) (v_file w) (v_file x)"
    using b apart_used [OF a] unfolding apart_def s d by (auto elim!: changed_mono)
  then have "changed (\<lambda>p b. \<exists>c j. c < v_allocEnd v \<and> \<not> used v c \<and> j < v_ppc v \<and> p = dpage v c j) (v_file v) (v_file x)"
    using a changed_trans unfolding apart_def by blast
  moreover have "\<forall>c < v_allocEnd v. used v c \<longrightarrow> v_fat x ! unat c = v_fat v ! unat c"
    using a b apart_used [OF a] unfolding apart_def s by metis
  moreover have "\<forall>c < v_allocEnd v. v_fat x ! unat c \<noteq> v_fat v ! unat c \<longrightarrow> v_fatDirty x ! (unat c div epc v)"
    using a b unfolding apart_def s by metis
  moreover have "\<forall>k. v_fatDirty v ! k \<longrightarrow> v_fatDirty x ! k" using a b unfolding apart_def by blast
  moreover have "geo x = geo v" "length (v_fat x) = length (v_fat v)" "length (v_fatDirty x) = length (v_fatDirty v)"
    using a b by (simp_all add: apart_def)
  ultimately show ?thesis unfolding apart_def by (intro conjI)
qed

lemma apart_firm: "apart v w \<Longrightarrow> firm v \<Longrightarrow> firm w"
  by (rule firm_geo) (auto simp: apart_def changed_def)

lemma apart_set_fat:
  assumes "firm v" "c < v_allocEnd v" "\<not> used v c"
  shows "apart v (vsSetFat v c val)"
  using assms(3) set_fat_nth [OF assms(1,2)] set_fat_dirty [OF assms(1,2)] by (auto simp: apart_def)

lemma apart_chain:
  assumes "apart v w" "is_chain v c xs" "\<And>x. x \<in> set xs \<Longrightarrow> used v x"
  shows "is_chain w c xs"
proof (rule is_chain_cong [OF assms(2)])
  show "v_allocEnd w = v_allocEnd v" using assms(1) by (simp add: apart_def geo_eq)
next
  fix x assume "x \<in> set xs"
  then show "v_fat w ! unat x = v_fat v ! unat x"
    using assms(1) assms(3) is_chain_clusters [OF assms(2)] unfolding apart_def by blast
qed

section \<open>Taking clusters\<close>

declare alloc_loop.simps [simp del]

primrec link :: "32 word \<Rightarrow> 32 word list \<Rightarrow> vs_vmc \<Rightarrow> vs_vmc" where
  "link prev [] v = v"
| "link prev (x # xs) v =
     link x xs (if prev \<noteq> FAT_END then vsSetFat (vsSetFat v x FAT_END) prev (FAT_USED OR x) else vsSetFat v x FAT_END)"

lemma alloc_loop_link:
  assumes "firm v" "prev = FAT_END \<or> unat prev < c \<and> prev < v_allocEnd v" "alloc_loop v n c prev first = (v', c', left, first')"
  shows "\<exists>xs. v' = link prev xs v \<and> n = length xs + left \<and> distinct xs
    \<and> (\<forall>x \<in> set xs. c \<le> unat x \<and> x < v_allocEnd v \<and> \<not> used v x)
    \<and> first' = (if prev = FAT_END \<and> xs \<noteq> [] then hd xs else first)"
  using assms
proof (induction v n c prev first rule: alloc_loop.induct)
  case (1 v n c prev first)
  show ?case
  proof (cases "c < unat (v_allocEnd v) \<and> 0 < n")
    case False
    then show ?thesis using "1.prems"(3) by (intro exI [of _ "[]"]) (auto simp: alloc_loop.simps)
  next
    case lt: True
    have "unat (v_allocEnd v) < 2 ^ 32" using unsigned_less [of "v_allocEnd v"] by simp
    then have c32: "unat (of_nat c :: 32 word) = c" using lt by (intro unat_of_nat32) simp
    have ca: "(of_nat c :: 32 word) < v_allocEnd v" using lt c32 by (simp add: word_less_nat_alt)
    show ?thesis
    proof (cases "v_fat v ! c AND FAT_USED \<noteq> 0")
      case True
      have "alloc_loop v n (c + 1) prev first = (v', c', left, first')" using "1.prems"(3) lt True by (simp add: alloc_loop.simps)
      then obtain xs where "v' = link prev xs v" "n = length xs + left" "distinct xs"
        "\<forall>x \<in> set xs. c + 1 \<le> unat x \<and> x < v_allocEnd v \<and> \<not> used v x" "first' = (if prev = FAT_END \<and> xs \<noteq> [] then hd xs else first)"
        using "1.IH"(1) [OF lt True "1.prems"(1)] "1.prems"(2) by auto
      then show ?thesis by (intro exI [of _ xs]) auto
    next
      case False
      let ?c = "of_nat c :: 32 word"
      let ?v1 = "vsSetFat v ?c FAT_END"
      let ?v2 = "if prev \<noteq> FAT_END then vsSetFat ?v1 prev (FAT_USED OR ?c) else ?v1"
      let ?f = "if prev \<noteq> FAT_END then first else ?c"
      have f2: "firm ?v2" using "1.prems"(1) by simp
      have e: "alloc_loop ?v2 (n - 1) (c + 1) ?c ?f = (v', c', left, first')"
        using "1.prems"(3) lt False by (subst (asm) alloc_loop.simps) (simp add: Let_def split: if_splits)
      have "\<exists>xs. v' = link ?c xs ?v2 \<and> n - 1 = length xs + left \<and> distinct xs
        \<and> (\<forall>x \<in> set xs. c + 1 \<le> unat x \<and> x < v_allocEnd ?v2 \<and> \<not> used ?v2 x)
        \<and> first' = (if ?c = FAT_END \<and> xs \<noteq> [] then hd xs else ?f)"
      proof (cases "prev \<noteq> FAT_END")
        case True
        then show ?thesis using "1.IH"(2) [OF lt False refl True] f2 e c32 ca by simp
      next
        case False': False
        then show ?thesis using "1.IH"(3) [OF lt False refl False'] f2 e c32 ca by simp
      qed
      then obtain xs where xs: "v' = link ?c xs ?v2" "n - 1 = length xs + left" "distinct xs"
        "\<forall>x \<in> set xs. c + 1 \<le> unat x \<and> x < v_allocEnd ?v2 \<and> \<not> used ?v2 x" "first' = ?f"
        using end_not_cluster [OF "1.prems"(1) ca] by auto
      have "used ?v2 x = used v x" if "c + 1 \<le> unat x" for x
        using that "1.prems"(1,2) c32 ca by (auto simp: used_def set_fat_nth split: if_splits)
      moreover have "\<not> used v ?c" using False c32 by (simp add: used_def)
      moreover have "v_allocEnd ?v2 = v_allocEnd v" by simp
      ultimately show ?thesis
        using xs lt c32 ca by (intro exI [of _ "?c # xs"]) (auto simp: not_le)
    qed
  qed
qed

lemma link_frame:
  assumes "firm v" "\<forall>x \<in> set xs. x < v_allocEnd v" "prev = FAT_END \<or> prev < v_allocEnd v"
  shows "geo (link prev xs v) = geo v \<and> v_file (link prev xs v) = v_file v \<and> firm (link prev xs v)
    \<and> length (v_fat (link prev xs v)) = length (v_fat v) \<and> length (v_fatDirty (link prev xs v)) = length (v_fatDirty v)
    \<and> (\<forall>y. y \<notin> set xs \<longrightarrow> y \<noteq> prev \<or> prev = FAT_END \<longrightarrow> v_fat (link prev xs v) ! unat y = v_fat v ! unat y)
    \<and> (\<forall>k. v_fatDirty v ! k \<longrightarrow> v_fatDirty (link prev xs v) ! k)
    \<and> (\<forall>y \<in> set xs. v_fatDirty (link prev xs v) ! (unat y div epc v))"
  using assms
proof (induction xs arbitrary: prev v)
  case (Cons x xs)
  let ?v2 = "if prev \<noteq> FAT_END then vsSetFat (vsSetFat v x FAT_END) prev (FAT_USED OR x) else vsSetFat v x FAT_END"
  have x: "x < v_allocEnd v" using Cons.prems(2) by simp
  have "firm ?v2" "x = FAT_END \<or> x < v_allocEnd ?v2" "\<forall>y \<in> set xs. y < v_allocEnd ?v2" using Cons.prems x by auto
  then have IH: "geo (link x xs ?v2) = geo ?v2 \<and> v_file (link x xs ?v2) = v_file ?v2 \<and> firm (link x xs ?v2)
    \<and> length (v_fat (link x xs ?v2)) = length (v_fat ?v2) \<and> length (v_fatDirty (link x xs ?v2)) = length (v_fatDirty ?v2)
    \<and> (\<forall>y. y \<notin> set xs \<longrightarrow> y \<noteq> x \<or> x = FAT_END \<longrightarrow> v_fat (link x xs ?v2) ! unat y = v_fat ?v2 ! unat y)
    \<and> (\<forall>k. v_fatDirty ?v2 ! k \<longrightarrow> v_fatDirty (link x xs ?v2) ! k)
    \<and> (\<forall>y \<in> set xs. v_fatDirty (link x xs ?v2) ! (unat y div epc ?v2))" by (intro Cons.IH) auto
  have g: "geo ?v2 = geo v" "v_file ?v2 = v_file v" "length (v_fat ?v2) = length (v_fat v)"
    "length (v_fatDirty ?v2) = length (v_fatDirty v)" "epc ?v2 = epc v" by simp_all
  have d: "v_fatDirty ?v2 ! k \<longleftrightarrow> v_fatDirty v ! k \<or> k = unat x div epc v \<or> prev \<noteq> FAT_END \<and> k = unat prev div epc v" for k
    using Cons.prems x by (auto simp: set_fat_dirty)
  have n: "v_fat ?v2 ! unat y = (if prev \<noteq> FAT_END \<and> y = prev then FAT_USED OR x else if y = x then FAT_END else v_fat v ! unat y)" for y
    using Cons.prems x by (auto simp: set_fat_nth)
  have e: "link prev (x # xs) v = link x xs ?v2" by simp
  show ?case unfolding e
  proof (intro conjI allI ballI impI)
    fix y assume y: "y \<notin> set (x # xs)" "y \<noteq> prev \<or> prev = FAT_END"
    show "v_fat (link x xs ?v2) ! unat y = v_fat v ! unat y" using IH y n [of y] by (metis list.set_intros(1) list.set_intros(2))
  next
    fix k assume "v_fatDirty v ! k"
    then show "v_fatDirty (link x xs ?v2) ! k" using IH d [of k] by metis
  next
    fix y assume y: "y \<in> set (x # xs)"
    show "v_fatDirty (link x xs ?v2) ! (unat y div epc v)"
    proof (cases "y = x")
      case True
      then show ?thesis using IH d [of "unat x div epc v"] by metis
    next
      case False
      then show ?thesis using IH y g(5) by (metis set_ConsD)
    qed
  qed (use IH g in metis)+
qed simp

lemma used_or: "(FAT_USED OR x) AND FAT_USED = FAT_USED"
  by (rule bit_word_eqI) (auto simp: bit_simps)

lemma used_bits:
  assumes "x < 0x7FFFFFFF"
  shows "(FAT_USED OR x) AND 0x7FFFFFFF = x" "FAT_USED OR x \<noteq> FAT_END"
proof -
  have m: "w AND 0x7FFFFFFF = take_bit 31 w" for w :: "32 word"
    by (simp add: take_bit_eq_mask mask_eq_exp_minus_1)
  have "unat x < 2 ^ 31" using assms by (simp add: word_less_nat_alt)
  then have "take_bit 31 x = x" by (simp add: word_unat_eq_iff unsigned_take_bit_eq take_bit_nat_eq_self)
  moreover have "take_bit 31 (0x80000000 :: 32 word) = 0" by simp
  ultimately show e: "(FAT_USED OR x) AND 0x7FFFFFFF = x" by (simp only: m take_bit_or or.left_neutral)
  show "FAT_USED OR x \<noteq> FAT_END"
  proof
    assume "FAT_USED OR x = FAT_END"
    then have "x = FAT_END AND 0x7FFFFFFF" using e by simp
    then show False using assms by simp
  qed
qed

lemma next_used:
  assumes "firm v" "c < v_allocEnd v" "x < v_allocEnd v" "v_fat v ! unat c = FAT_USED OR x"
  shows "vsNext v c = x"
proof -
  have "x < 0x7FFFFFFF" using assms(1,3) by (simp add: firm_def word_less_nat_alt)
  moreover have "\<not> v_allocEnd v \<le> c" using assms(2) by simp
  ultimately show ?thesis using assms(4) used_bits [of x] used_or [of x] by (simp add: vsNext_def)
qed

lemma next_end: "c < v_allocEnd v \<Longrightarrow> v_fat v ! unat c = FAT_END \<Longrightarrow> vsNext v c = FAT_END"
  by (simp add: vsNext_def)

lemma link_chain:
  assumes "firm v" "distinct (prev # xs)" "\<forall>x \<in> set (prev # xs). x < v_allocEnd v" "v_fat v ! unat prev = FAT_END"
  shows "is_chain (link prev xs v) prev (prev # xs) \<and> (\<forall>y \<in> set (prev # xs). used (link prev xs v) y)"
  using assms
proof (induction xs arbitrary: prev v)
  case Nil
  then have "\<not> FAT_END < v_allocEnd v" using end_not_cluster [of v FAT_END] by blast
  then show ?case using Nil by (simp add: next_end used_def)
next
  case (Cons x xs)
  let ?v2 = "vsSetFat (vsSetFat v x FAT_END) prev (FAT_USED OR x)"
  have p: "prev < v_allocEnd v" "x < v_allocEnd v" "prev \<noteq> x" "prev \<notin> set xs" using Cons.prems by auto
  have ne: "prev \<noteq> FAT_END" by (rule end_not_cluster [OF Cons.prems(1) p(1)])
  have e: "link prev (x # xs) v = link x xs ?v2" using ne by simp
  have f: "firm ?v2" using Cons.prems(1) by simp
  have "v_fat ?v2 ! unat x = FAT_END" using Cons.prems(1) p by (simp add: set_fat_nth)
  then have IH: "is_chain (link x xs ?v2) x (x # xs) \<and> (\<forall>y \<in> set (x # xs). used (link x xs ?v2) y)"
    using Cons.prems by (intro Cons.IH [OF f]) auto
  have fr: "firm (link x xs ?v2)" "geo (link x xs ?v2) = geo ?v2" "v_fat (link x xs ?v2) ! unat prev = v_fat ?v2 ! unat prev"
    using link_frame [OF f, of xs x] Cons.prems p by auto
  have a: "v_allocEnd (link x xs ?v2) = v_allocEnd v" using fr(2) by (simp add: geo_eq)
  have v2: "v_fat (link x xs ?v2) ! unat prev = FAT_USED OR x" using fr(3) Cons.prems(1) p by (simp add: set_fat_nth)
  have "vsNext (link x xs ?v2) prev = x" by (rule next_used [OF fr(1)]) (simp_all add: a p v2)
  then show ?case unfolding e using IH p a used_or [of x] by (simp add: used_def v2)
qed

text \<open>What a call of the allocator does: nothing that was used changes, and a chain of the length asked for.\<close>

lemma alloc_spec:
  assumes "firm v" "vsAllocChain v n hint = (v', hint', first)"
  shows "apart v v'" "v_file v' = v_file v" "first \<noteq> FAT_END \<Longrightarrow> 0 < n \<Longrightarrow>
    \<exists>xs. length xs = n \<and> distinct xs \<and> is_chain v' first xs \<and> (\<forall>x \<in> set xs. \<not> used v x \<and> used v' x)"
proof -
  obtain c' left f where l: "alloc_loop v n hint FAT_END FAT_END = (v', c', left, f)" "first = (if left = 0 then f else FAT_END)"
    using assms(2) by (auto simp: vsAllocChain_def split: prod.splits)
  obtain xs where xs: "v' = link FAT_END xs v" "n = length xs + left" "distinct xs"
    "\<forall>x \<in> set xs. x < v_allocEnd v \<and> \<not> used v x" "f = (if xs \<noteq> [] then hd xs else FAT_END)"
    using alloc_loop_link [OF assms(1) _ l(1)] by auto
  have x: "\<forall>x \<in> set xs. x < v_allocEnd v" using xs(4) by blast
  note fr = link_frame [OF assms(1) x, of FAT_END, folded xs(1), simplified]
  have fat: "v_fat v' ! unat c = v_fat v ! unat c" if "used v c" for c using fr that xs(4) by blast
  have dirty: "v_fatDirty v' ! (unat c div epc v)" if "v_fat v' ! unat c \<noteq> v_fat v ! unat c" for c :: "32 word" using fr that by blast
  show "v_file v' = v_file v" using fr by blast
  then show "apart v v'" unfolding apart_def using fr fat dirty by simp
  assume a: "first \<noteq> FAT_END" "0 < n"
  then have "left = 0" using l(2) by presburger
  moreover from this have "xs \<noteq> []" using xs(2) a(2) by auto
  ultimately have "left = 0" "xs \<noteq> []" by simp_all
  then obtain y ys where ys: "xs = y # ys" by (cases xs) auto
  have e: "v' = link y ys (vsSetFat v y FAT_END)" using xs(1) ys by simp
  have "is_chain v' y (y # ys) \<and> (\<forall>z \<in> set (y # ys). used v' z)"
    unfolding e using assms(1) xs x ys by (intro link_chain) (auto simp: set_fat_nth)
  then show "\<exists>xs. length xs = n \<and> distinct xs \<and> is_chain v' first xs \<and> (\<forall>x \<in> set xs. \<not> used v x \<and> used v' x)"
    using xs ys l(2) \<open>left = 0\<close> by (intro exI [of _ xs]) auto
qed

section \<open>Giving clusters back\<close>

lemma free_steps_frame:
  assumes "firm v" "is_chain v c xs" "distinct xs" "length xs \<le> k"
  shows "geo (free_steps k v c) = geo v \<and> v_file (free_steps k v c) = v_file v \<and> firm (free_steps k v c)
    \<and> length (v_fat (free_steps k v c)) = length (v_fat v) \<and> length (v_fatDirty (free_steps k v c)) = length (v_fatDirty v)
    \<and> (\<forall>y. v_fat (free_steps k v c) ! unat y = (if y \<in> set xs then FAT_FREE else v_fat v ! unat y))
    \<and> (\<forall>j. v_fatDirty v ! j \<longrightarrow> v_fatDirty (free_steps k v c) ! j)
    \<and> (\<forall>y \<in> set xs. v_fatDirty (free_steps k v c) ! (unat y div epc v))"
  using assms
proof (induction xs arbitrary: c k v)
  case Nil
  then show ?case by (cases k) auto
next
  case (Cons x xs)
  obtain k' where k: "k = Suc k'" using Cons.prems(4) by (cases k) auto
  have x: "x = c" "c < v_allocEnd v" "is_chain v (vsNext v c) xs" "c \<notin> set xs" using Cons.prems by auto
  let ?w = "vsSetFat v c FAT_FREE"
  have f: "firm ?w" using Cons.prems(1) by simp
  have "is_chain ?w (vsNext v c) xs"
    by (rule is_chain_cong [OF x(3)]) (use x(4) Cons.prems(1) x(2) in \<open>auto simp: set_fat_nth\<close>)
  note IH = Cons.IH [OF f this]
  have e: "free_steps k v c = free_steps k' ?w (vsNext v c)"
    using x(2) end_not_cluster [OF Cons.prems(1) x(2)] by (simp add: k not_le)
  have "distinct xs" "length xs \<le> k'" using Cons.prems k by auto
  note IH = IH [OF this]
  have n: "v_fat ?w ! unat y = (if y = c then FAT_FREE else v_fat v ! unat y)" for y by (rule set_fat_nth [OF Cons.prems(1) x(2)])
  have d: "v_fatDirty ?w ! j \<longleftrightarrow> v_fatDirty v ! j \<or> j = unat c div epc v" for j by (rule set_fat_dirty [OF Cons.prems(1) x(2)])
  have g: "geo ?w = geo v" "v_file ?w = v_file v" "length (v_fat ?w) = length (v_fat v)"
    "length (v_fatDirty ?w) = length (v_fatDirty v)" "epc ?w = epc v" by simp_all
  show ?case unfolding e
  proof (intro conjI allI ballI impI)
    fix y show "v_fat (free_steps k' ?w (vsNext v c)) ! unat y = (if y \<in> set (x # xs) then FAT_FREE else v_fat v ! unat y)"
      using IH n [of y] x(1) by (metis list.set_intros(1) list.set_intros(2) set_ConsD)
  next
    fix j assume "v_fatDirty v ! j"
    then show "v_fatDirty (free_steps k' ?w (vsNext v c)) ! j" using IH d [of j] by blast
  next
    fix y assume "y \<in> set (x # xs)"
    then show "v_fatDirty (free_steps k' ?w (vsNext v c)) ! (unat y div epc v)"
      using IH d [of "unat c div epc v"] x(1) g(5) by (metis set_ConsD)
  qed (use IH g in metis)+
qed

end
