(* ===== verification/CardEffects.thy ===== *)
theory CardEffects
  imports CardAlloc
begin

text \<open>
  What the writing operations of \<open>CardSaves\<close> do to the pages of a card: the clusters of a chain, an entry
  of a folder, the table. Every statement covers a write that fails part way.
\<close>

section \<open>Pages and clusters\<close>

lemma page_cluster:
  fixes a b :: nat
  assumes "i < n" "j < n"
  shows "a * n + i = b * n + j \<longleftrightarrow> a = b \<and> i = j"
proof
  assume e: "a * n + i = b * n + j"
  have "(a * n + i) div n = a" "(b * n + j) div n = b" using assms by auto
  then have "a = b" using e by simp
  then show "a = b \<and> i = j" using e by simp
qed simp

lemma dpage_inject:
  assumes "i < v_ppc v" "j < v_ppc v"
  shows "dpage v c i = dpage v d j \<longleftrightarrow> c = d \<and> i = j"
  using page_cluster [OF assms, of "unat (v_alloc v) + unat c" "unat (v_alloc v) + unat d"]
  by (auto simp: dpage_def word_unat_eq_iff)

lemma geo_dpage: "geo w = geo v \<Longrightarrow> dpage w = dpage v"
  by (intro ext) (rule geo_derived(4))

lemma changed_size:
  assumes "changed new f f'"
  shows "cf_size f' = cf_size f" "cf_rd f' = cf_rd f"
  using assms by (simp_all add: changed_def)

section \<open>A chain of data\<close>

lemma write_chain_effect:
  assumes "firm v" "is_chain v c xs" "distinct xs" "length bs \<le> length xs" "\<forall>b \<in> set bs. length b = csize v"
    and "write_chain v c bs = (w, ok)"
  shows "geo w = geo v \<and> v_fat w = v_fat v \<and> v_fatDirty w = v_fatDirty v
    \<and> changed (\<lambda>p b. \<exists>x \<in> set xs. \<exists>j < v_ppc v. p = dpage v x j) (v_file v) (v_file w)
    \<and> (ok \<longrightarrow> (\<forall>i < length bs. \<forall>j < v_ppc v. page (vimg w) (dpage v (xs ! i) j) = field (bs ! i) (j * 512) 512))"
  using assms
proof (induction bs arbitrary: v c xs)
  case Nil
  then show ?case by simp
next
  case (Cons b bs)
  then obtain x ys where xs: "xs = x # ys" by (cases xs) auto
  have x: "x = c" "c < v_allocEnd v" "is_chain v (vsNext v c) ys" "c \<notin> set ys" "distinct ys" using Cons.prems xs by auto
  obtain u ok1 where u: "vsIo_write v (v_alloc v + c) b = (u, ok1)" by (cases "vsIo_write v (v_alloc v + c) b")
  note a = alloc_plus [OF Cons.prems(1) x(2)]
  have lb: "length b = csize v" using Cons.prems(5) by simp
  note e = write_effect [OF u Cons.prems(1) a(2) lb, unfolded a(1)]
  have g: "geo u = geo v" by (rule e(1))
  have d: "dpage u = dpage v" by (rule geo_dpage [OF g])
  have p: "v_ppc u = v_ppc v" "csize u = csize v" "v_allocEnd u = v_allocEnd v" using g geo_derived [OF g] by (simp_all add: geo_eq)
  have cu: "changed (\<lambda>p b. \<exists>x \<in> set xs. \<exists>j < v_ppc v. p = dpage v x j) (v_file v) (v_file u)"
    using e(4) by (rule changed_mono) (auto simp: xs x(1) dpage_def)
  show ?case
  proof (cases ok1)
    case False
    then have "w = u" "\<not> ok" using Cons.prems(6) u by auto
    then show ?thesis using e(1-3) cu by simp
  next
    case True
    have f: "firm u" by (rule firm_geo [OF Cons.prems(1) e(1) changed_size(1) [OF e(4)]]) (simp_all only: e(2,3))
    have n: "vsNext u c = vsNext v c" by (rule vsNext_cong) (simp_all add: p e(2))
    have ch: "is_chain u (vsNext v c) ys" by (rule is_chain_cong [OF x(3)]) (simp_all add: p e(2))
    have w: "write_chain u (vsNext v c) bs = (w, ok)" using Cons.prems(6) u True n by simp
    have IH: "geo w = geo u \<and> v_fat w = v_fat u \<and> v_fatDirty w = v_fatDirty u
      \<and> changed (\<lambda>p b. \<exists>x \<in> set ys. \<exists>j < v_ppc v. p = dpage v x j) (v_file u) (v_file w)
      \<and> (ok \<longrightarrow> (\<forall>i < length bs. \<forall>j < v_ppc v. page (vimg w) (dpage v (ys ! i) j) = field (bs ! i) (j * 512) 512))"
      using Cons.IH [OF f ch x(5) _ _ w] Cons.prems(4,5) xs by (simp add: p d)
    then have "changed (\<lambda>p b. \<exists>x \<in> set ys. \<exists>j < v_ppc v. p = dpage v x j) (v_file u) (v_file w)" by blast
    then have cw: "changed (\<lambda>p b. \<exists>x \<in> set xs. \<exists>j < v_ppc v. p = dpage v x j) (v_file u) (v_file w)"
      unfolding xs by (rule changed_mono) (meson list.set_intros(2))
    have "page (vimg w) (dpage v c j) = field b (j * 512) 512" if "j < v_ppc v" for j
    proof -
      have "\<not> (\<exists>x \<in> set ys. \<exists>i < v_ppc v. dpage v c j = dpage v x i)"
        using x(4) dpage_inject [OF that] by metis
      then have "page (vimg w) (dpage v c j) = page (vimg u) (dpage v c j)" using IH unfolding changed_def by blast
      then show ?thesis using e(5) [OF True that] by (simp add: dpage_def)
    qed
    then have "page (vimg w) (dpage v (xs ! i) j) = field ((b # bs) ! i) (j * 512) 512"
      if "ok" "i < length (b # bs)" "j < v_ppc v" for i j
      using that IH xs x(1) by (cases i) auto
    then show ?thesis using IH e(1-3) changed_trans [OF cu cw] by simp
  qed
qed

section \<open>An entry of a folder\<close>

definition ent_ok :: "vs_ent \<Rightarrow> bool" where
  "ent_ok e \<longleftrightarrow> length (e_created e) = 8 \<and> length (e_modified e) = 8 \<and> length (e_unused2 e) = 28 \<and> length (e_name e) = 32
     \<and> length (e_unused3 e) = 416"

lemma length_ent_bytes: "ent_ok e \<Longrightarrow> length (ent_bytes e) = 512"
  by (simp add: ent_ok_def ent_bytes_def)

lemma field_append:
  "field (a @ bs) at n = (if at + n \<le> length a then field a at n else if length a \<le> at then field bs (at - length a) n
     else drop at a @ take (n - (length a - at)) bs)"
  by (auto simp: field_def)

lemma field_all: "length bs = n \<Longrightarrow> field bs 0 n = bs"
  by (simp add: field_def)

lemma ent_of_bytes: "ent_ok e \<Longrightarrow> ent_of (ent_bytes e) = e"
  by (simp add: ent_of_def ent_bytes_def ent_ok_def field_append field_all)

lemma ent_of_ok: "length bs = 512 \<Longrightarrow> ent_ok (ent_of bs)"
  by (simp add: ent_of_def ent_ok_def field_def)

lemma field_put:
  assumes "length new = 512" "i < n" "j < n" "length bs = 512 * n"
  shows "field (put_field (i * 512) new bs) (j * 512) 512 = (if j = i then new else field bs (j * 512) 512)"
proof -
  have l: "length (take (i * 512) bs) = i * 512" using assms(2,4) by simp
  show ?thesis
  proof (cases j i rule: linorder_cases)
    case less
    then have "j * 512 + 512 \<le> i * 512" by simp
    then show ?thesis using less l by (simp add: put_field_def field_append) (simp add: field_def drop_take min_def)
  next
    case equal
    then show ?thesis using assms(1) l by (simp add: put_field_def field_append field_all)
  next
    case greater
    then have "i * 512 + 512 \<le> j * 512" by simp
    then have "\<not> j * 512 + 512 \<le> i * 512" "i * 512 \<le> j * 512" "\<not> (j * 512 - i * 512) + 512 \<le> 512" "512 \<le> j * 512 - i * 512"
      "i * 512 + 512 + (j * 512 - i * 512 - 512) = j * 512" by simp_all
    then show ?thesis using greater unfolding put_field_def field_append l assms(1) by (simp add: field_def)
  qed
qed

lemma length_put: "length new = 512 \<Longrightarrow> i < n \<Longrightarrow> length bs = 512 * n \<Longrightarrow> length (put_field (i * 512) new bs) = 512 * n"
  by (simp add: put_field_def)

text \<open>Only the page of the entry changes, and it does when the write succeeds.\<close>

lemma ent_put_effect:
  assumes "firm v" "ent_ok e" "vsEnt_put v dir i e = (w, ok)"
  defines "c \<equiv> vsWalk v dir (i div v_ppc v)"
  shows "geo w = geo v \<and> v_fat w = v_fat v \<and> v_fatDirty w = v_fatDirty v
    \<and> changed (\<lambda>p b. c < v_allocEnd v \<and> p = dpage v c (i mod v_ppc v) \<and> b = ent_bytes e) (v_file v) (v_file w)
    \<and> (ok \<longrightarrow> c < v_allocEnd v \<and> page (vimg w) (dpage v c (i mod v_ppc v)) = ent_bytes e)"
proof (cases "c < v_allocEnd v \<and> vsIo_read v (v_alloc v + c) \<noteq> None")
  case False
  then have "w = v \<and> \<not> ok" using assms(3) end_not_cluster [OF assms(1), of c]
    by (auto simp: vsEnt_put_def ent_cluster_def Let_def c_def not_less split: if_splits)
  then show ?thesis by simp
next
  case True
  then have c: "c < v_allocEnd v" by simp
  note a = alloc_plus [OF assms(1) c]
  have r: "vsIo_read v (v_alloc v + c) = Some (clu v (unat (v_alloc v) + unat c))"
    using read_firm(1) [OF assms(1) a(2)] True a(1) by auto
  let ?i = "i mod v_ppc v"
  let ?b = "put_field (?i * 512) (ent_bytes e) (clu v (unat (v_alloc v) + unat c))"
  have i: "?i < v_ppc v" using assms(1) by (simp add: firm_def)
  have le: "length (ent_bytes e) = 512" by (rule length_ent_bytes [OF assms(2)])
  have "\<not> v_allocEnd v \<le> c" using c by simp
  then have w: "vsIo_write v (v_alloc v + c) ?b = (w, ok)"
    using assms(3) r end_not_cluster [OF assms(1) c] by (simp add: vsEnt_put_def ent_cluster_def Let_def c_def [symmetric])
  have lb: "length ?b = csize v" using length_put [OF le i] by (simp add: csize_def)
  note ef = write_effect [OF w assms(1) a(2) lb, unfolded a(1)]
  have f: "field ?b (j * 512) 512 = (if j = ?i then ent_bytes e else page (vimg v) (dpage v c j))" if "j < v_ppc v" for j
    using field_put [OF le i that] field_clu [OF that] by (simp add: csize_def dpage_def)
  have "changed (\<lambda>p b. c < v_allocEnd v \<and> p = dpage v c ?i \<and> b = ent_bytes e) (v_file v) (v_file w)"
    unfolding changed_def
  proof (intro conjI allI)
    show "cf_size (v_file w) = cf_size (v_file v)" "cf_rd (v_file w) = cf_rd (v_file v)" using ef(4) by (simp_all add: changed_def)
    fix p
    consider "page (vimg w) p = page (vimg v) p" | j where "j < v_ppc v" "p = dpage v c j" "page (vimg w) p = field ?b (j * 512) 512"
      using ef(4) unfolding changed_def dpage_def by blast
    then show "page (vimg w) p = page (vimg v) p \<or> c < v_allocEnd v \<and> p = dpage v c ?i \<and> page (vimg w) p = ent_bytes e"
      by cases (use f c in auto)
  qed
  moreover have "page (vimg w) (dpage v c ?i) = ent_bytes e" if ok
    using ef(5) [OF that i] f [OF i] by (simp add: dpage_def)
  ultimately show ?thesis using ef(1-3) c by simp
qed

section \<open>The table\<close>

text \<open>The FAT and the pages that name it lie before the allocatable clusters, apart from each other.\<close>

definition meta_safe :: "vs_vmc \<Rightarrow> (nat \<Rightarrow> 8 word) \<Rightarrow> bool" where
  "meta_safe v m \<longleftrightarrow> distinct (v_fatAbs v) \<and> (\<forall>a \<in> set (v_fatAbs v). 0 < unat a \<and> unat a < unat (v_alloc v))
     \<and> 0 < unat (v_alloc v)
     \<and> (\<forall>k < fat_clusters v. unat (ifc_of m (k div epc v)) < unat (v_alloc v) \<and> ifc_of m (k div epc v) \<notin> set (v_fatAbs v))"

definition fat_bytes :: "vs_vmc \<Rightarrow> nat \<Rightarrow> bytes" where
  "fat_bytes v k = concat (map bytes32 (take (epc v) (drop (k * epc v) (v_fat v))))"

lemma length_fat_bytes:
  assumes "firm v" "k < fat_clusters v"
  shows "length (fat_bytes v k) = csize v"
proof -
  have "k * epc v + epc v \<le> fat_clusters v * epc v" using mult_le_mono1 [of "Suc k" "fat_clusters v" "epc v"] assms(2) by simp
  then show ?thesis using assms(1) by (simp add: fat_bytes_def firm_def epc_def csize_def)
qed

lemma field_words: "i < length ws \<Longrightarrow> field (concat (map bytes32 ws)) (i * 4) 4 = bytes32 (ws ! i)"
proof (induction ws arbitrary: i)
  case (Cons w ws)
  then show ?case by (cases i) (simp_all add: field_append field_all)
qed simp

lemma fat_bytes_entry:
  assumes "firm v" "k < fat_clusters v" "q < epc v"
  shows "le32 (field (field (fat_bytes v k) (q div 128 * 512) 512) (q mod 128 * 4) 4) = v_fat v ! (k * epc v + q)"
proof -
  have "k * epc v + epc v \<le> fat_clusters v * epc v" using mult_le_mono1 [of "Suc k" "fat_clusters v" "epc v"] assms(2) by simp
  then have l: "k * epc v + epc v \<le> length (v_fat v)" using assms(1) by (simp add: firm_def)
  have "q div 128 * 512 + q mod 128 * 4 = q * 4" using div_mult_mod_eq [of q 128] by linarith
  then have "field (field (fat_bytes v k) (q div 128 * 512) 512) (q mod 128 * 4) 4 = field (fat_bytes v k) (q * 4) 4"
    by (subst field_field) simp_all
  also have "\<dots> = bytes32 (v_fat v ! (k * epc v + q))"
    unfolding fat_bytes_def using l assms(3) by (subst field_words) simp_all
  finally show ?thesis by simp
qed

definition fat_new :: "vs_vmc \<Rightarrow> nat \<Rightarrow> bytes \<Rightarrow> bool" where
  "fat_new v p b \<longleftrightarrow> (\<exists>k < fat_clusters v. \<exists>j < v_ppc v. p = unat (v_fatAbs v ! k) * v_ppc v + j \<and> b = field (fat_bytes v k) (j * 512) 512)"

text \<open>One cluster of the table: its pages are old or new, and new when it was written whole.\<close>

lemma flush_one_effect:
  assumes "firm v" "k < fat_clusters v" "flush_one k (v, ok0) = (w, ok)"
  shows "geo w = geo v \<and> v_fat w = v_fat v \<and> (\<forall>i. i \<noteq> k \<longrightarrow> v_fatDirty w ! i = v_fatDirty v ! i) \<and> length (v_fatDirty w) = length (v_fatDirty v)
    \<and> changed (\<lambda>p b. \<exists>j < v_ppc v. p = unat (v_fatAbs v ! k) * v_ppc v + j \<and> b = field (fat_bytes v k) (j * 512) 512) (v_file v) (v_file w)
    \<and> (ok \<longrightarrow> ok0 \<and> (v_fatDirty v ! k \<longrightarrow>
         (\<forall>j < v_ppc v. page (vimg w) (unat (v_fatAbs v ! k) * v_ppc v + j) = field (fat_bytes v k) (j * 512) 512)))"
proof (cases "v_fatDirty v ! k")
  case False
  then show ?thesis using assms(3) by (auto simp: flush_one_def)
next
  case True
  obtain u ok1 where u: "vsIo_write v (v_fatAbs v ! k) (fat_bytes v k) = (u, ok1)" by (cases "vsIo_write v (v_fatAbs v ! k) (fat_bytes v k)")
  have w: "w = u\<lparr>v_fatDirty := (v_fatDirty u)[k := False]\<rparr>" "ok = (ok0 \<and> ok1)"
    using assms(3) True u by (auto simp: flush_one_def fat_bytes_def [symmetric])
  have a: "unat (v_fatAbs v ! k) < unat (v_clusters v)"
    using assms(1,2) by (simp add: firm_def word_less_nat_alt)
  note e = write_effect [OF u assms(1) a length_fat_bytes [OF assms(1,2)]]
  have "geo w = geo u" by (simp add: w geo_def)
  then show ?thesis using e(1-4) e(5) by (auto simp: w)
qed

lemma fat_bytes_cong:
  assumes "geo w = geo v" "v_fat w = v_fat v"
  shows "fat_bytes w = fat_bytes v"
  by (intro ext) (simp add: fat_bytes_def geo_derived [OF assms(1)] assms(2))

lemma fat_new_cong: 
  assumes "geo w = geo v" "v_fat w = v_fat v"
  shows "fat_new w = fat_new v"
proof -
  have "v_ppc w = v_ppc v" "v_fatAbs w = v_fatAbs v" "fat_clusters w = fat_clusters v"
    using assms(1) geo_derived [OF assms(1)] by (simp_all add: geo_eq)
  then show ?thesis using fat_bytes_cong [OF assms] by (intro ext) (simp add: fat_new_def)
qed

lemma flush_fold:
  assumes "firm v" "distinct (v_fatAbs v)" "set ks \<subseteq> {..<fat_clusters v}" "distinct ks" "fold flush_one ks (v, ok0) = (w, ok)"
  shows "geo w = geo v \<and> v_fat w = v_fat v \<and> changed (fat_new v) (v_file v) (v_file w)
    \<and> (\<forall>p. (\<forall>k \<in> set ks. \<forall>j < v_ppc v. p \<noteq> unat (v_fatAbs v ! k) * v_ppc v + j) \<longrightarrow> page (vimg w) p = page (vimg v) p)
    \<and> (ok \<longrightarrow> ok0 \<and> (\<forall>k \<in> set ks. v_fatDirty v ! k \<longrightarrow>
         (\<forall>j < v_ppc v. page (vimg w) (unat (v_fatAbs v ! k) * v_ppc v + j) = field (fat_bytes v k) (j * 512) 512)))"
  using assms
proof (induction ks arbitrary: v ok0)
  case (Cons k ks)
  obtain u ok1 where u: "flush_one k (v, ok0) = (u, ok1)" by (cases "flush_one k (v, ok0)")
  have k: "k < fat_clusters v" "k \<notin> set ks" using Cons.prems by auto
  note e = flush_one_effect [OF Cons.prems(1) k(1) u]
  have g: "geo u = geo v" and f: "v_fat u = v_fat v" using e by auto
  have p: "v_ppc u = v_ppc v" "v_fatAbs u = v_fatAbs v" "fat_clusters u = fat_clusters v"
    using g geo_derived [OF g] by (simp_all add: geo_eq)
  have c: "changed (\<lambda>p b. \<exists>j < v_ppc v. p = unat (v_fatAbs v ! k) * v_ppc v + j \<and> b = field (fat_bytes v k) (j * 512) 512) (v_file v) (v_file u)"
    using e by blast
  have fu: "firm u" by (rule firm_geo [OF Cons.prems(1) g changed_size(1) [OF c]]) (use e in auto)
  have fo: "fold flush_one ks (u, ok1) = (w, ok)" using Cons.prems(5) u by simp
  have d: "distinct (v_fatAbs u)" "set ks \<subseteq> {..<fat_clusters u}" "distinct ks" using Cons.prems(2-4) by (auto simp: p)
  note IH = Cons.IH [OF fu d fo, unfolded p fat_new_cong [OF g f] fat_bytes_cong [OF g f]]
  have c': "changed (fat_new v) (v_file v) (v_file u)"
    using c by (rule changed_mono) (use k(1) in \<open>auto simp: fat_new_def\<close>)
  have w: "changed (fat_new v) (v_file v) (v_file w)" using changed_trans [OF c'] IH by blast
  have out: "page (vimg w) p = page (vimg v) p" if "\<forall>k' \<in> set (k # ks). \<forall>j < v_ppc v. p \<noteq> unat (v_fatAbs v ! k') * v_ppc v + j" for p
  proof -
    have "page (vimg w) p = page (vimg u) p" using IH that by simp
    moreover have "page (vimg u) p = page (vimg v) p" using c that unfolding changed_def by auto
    ultimately show ?thesis by simp
  qed
  have all: "page (vimg w) (unat (v_fatAbs v ! i) * v_ppc v + j) = field (fat_bytes v i) (j * 512) 512"
    if "ok" "i \<in> set (k # ks)" "v_fatDirty v ! i" "j < v_ppc v" for i j
  proof (cases "i = k")
    case False
    then have "v_fatDirty u ! i" using e that(3) by auto
    then show ?thesis using IH that False by auto
  next
    case True
    have "unat (v_fatAbs v ! k) \<noteq> unat (v_fatAbs v ! k')" if "k' \<in> set ks" for k'
    proof -
      have "k' < fat_clusters v" "k' \<noteq> k" using that Cons.prems(3) k(2) by auto
      then show ?thesis using Cons.prems(1,2) k(1) by (auto simp: nth_eq_iff_index_eq firm_def word_unat_eq_iff [symmetric])
    qed
    then have "\<forall>k' \<in> set ks. \<forall>i < v_ppc v. unat (v_fatAbs v ! k) * v_ppc v + j \<noteq> unat (v_fatAbs v ! k') * v_ppc v + i"
      using page_cluster [OF that(4)] by metis
    then have "page (vimg w) (unat (v_fatAbs v ! k) * v_ppc v + j) = page (vimg u) (unat (v_fatAbs v ! k) * v_ppc v + j)" using IH by blast
    then show ?thesis using True that e IH by auto
  qed
  show ?case using IH g f w out all e by auto
qed simp

lemma flush_effect:
  assumes "firm v" "distinct (v_fatAbs v)" "vsFlushFat v = (w, ok)"
  shows "geo w = geo v" "v_fat w = v_fat v" "changed (fat_new v) (v_file v) (v_file w)"
    "ok \<Longrightarrow> k < fat_clusters v \<Longrightarrow> v_fatDirty v ! k \<Longrightarrow> j < v_ppc v
      \<Longrightarrow> page (vimg w) (unat (v_fatAbs v ! k) * v_ppc v + j) = field (fat_bytes v k) (j * 512) 512"
proof -
  have "set [0..<fat_clusters v] \<subseteq> {..<fat_clusters v}" by auto
  note e = flush_fold [OF assms(1,2) this distinct_upt assms(3) [unfolded vsFlushFat_def]]
  show "geo w = geo v" "v_fat w = v_fat v" "changed (fat_new v) (v_file v) (v_file w)" using e by blast+
  show "ok \<Longrightarrow> k < fat_clusters v \<Longrightarrow> v_fatDirty v ! k \<Longrightarrow> j < v_ppc v
      \<Longrightarrow> page (vimg w) (unat (v_fatAbs v ! k) * v_ppc v + j) = field (fat_bytes v k) (j * 512) 512" using e by auto
qed

text \<open>An entry in the file is the old one or the one in memory, and the latter after a whole flush.\<close>

lemma new_entry:
  assumes "firm v" "distinct (v_fatAbs v)" "c < fat_clusters v * epc v" "fat_new v (fat_page v c) b"
  shows "le32 (field b (c mod 128 * 4) 4) = v_fat v ! c"
proof -
  have e: "0 < epc v" using assms(1) by (simp add: firm_def epc_128)
  have k: "c div epc v < fat_clusters v" using assms(3) e by (simp add: div_less_iff_less_mult)
  have q: "c mod epc v < epc v" using e by simp
  then have j: "c mod epc v div 128 < v_ppc v" unfolding epc_128 by (simp add: div_less_iff_less_mult mult.commute)
  obtain k' j' where b: "k' < fat_clusters v" "j' < v_ppc v" "fat_page v c = unat (v_fatAbs v ! k') * v_ppc v + j'"
    "b = field (fat_bytes v k') (j' * 512) 512" using assms(4) by (auto simp: fat_new_def)
  then have "unat (v_fatAbs v ! (c div epc v)) = unat (v_fatAbs v ! k') \<and> c mod epc v div 128 = j'"
    using page_cluster [OF j b(2)] by (simp add: fat_page_def)
  then have e: "k' = c div epc v" "j' = c mod epc v div 128"
    using assms(1,2) k b(1) by (auto simp: nth_eq_iff_index_eq firm_def word_unat_eq_iff [symmetric])
  have "c mod epc v mod 128 = c mod 128" by (simp add: epc_128 mod_mod_cancel)
  then show ?thesis using fat_bytes_entry [OF assms(1) k q] by (simp add: b(4) e)
qed

lemma fat_page_new:
  assumes "firm v" "c < fat_clusters v * epc v"
  shows "\<exists>k j. k < fat_clusters v \<and> j < v_ppc v \<and> k = c div epc v \<and> fat_page v c = unat (v_fatAbs v ! k) * v_ppc v + j"
proof -
  have e: "0 < epc v" using assms(1) by (simp add: firm_def epc_128)
  have "c div epc v < fat_clusters v" using assms(2) e by (simp add: div_less_iff_less_mult)
  moreover have "c mod epc v div 128 < v_ppc v"
    using e mod_less_divisor [OF e, of c] unfolding epc_128 by (simp add: div_less_iff_less_mult mult.commute)
  ultimately show ?thesis by (auto simp: fat_page_def)
qed

lemma flush_disk_fat:
  assumes "firm v" "distinct (v_fatAbs v)" "vsFlushFat v = (w, ok)" "c < fat_clusters v * epc v"
  shows "disk_fat v (vimg w) c = disk_fat v (vimg v) c \<or> disk_fat v (vimg w) c = v_fat v ! c"
    "ok \<Longrightarrow> v_fatDirty v ! (c div epc v) \<or> disk_fat v (vimg v) c = v_fat v ! c \<Longrightarrow> disk_fat v (vimg w) c = v_fat v ! c"
proof -
  note e = flush_effect [OF assms(1-3)]
  show a: "disk_fat v (vimg w) c = disk_fat v (vimg v) c \<or> disk_fat v (vimg w) c = v_fat v ! c"
    using e(3) new_entry [OF assms(1,2,4)] unfolding changed_def disk_fat_def by metis
  assume ok: "ok" "v_fatDirty v ! (c div epc v) \<or> disk_fat v (vimg v) c = v_fat v ! c"
  show "disk_fat v (vimg w) c = v_fat v ! c"
  proof (cases "v_fatDirty v ! (c div epc v)")
    case True
    obtain k j where kj: "k < fat_clusters v" "j < v_ppc v" "k = c div epc v" "fat_page v c = unat (v_fatAbs v ! k) * v_ppc v + j"
      using fat_page_new [OF assms(1,4)] by blast
    then have "page (vimg w) (fat_page v c) = field (fat_bytes v k) (j * 512) 512" using e(4) [OF ok(1) kj(1)] True by simp
    then have "fat_new v (fat_page v c) (page (vimg w) (fat_page v c))" using kj unfolding fat_new_def by blast
    then show ?thesis using new_entry [OF assms(1,2,4)] by (simp add: disk_fat_def)
  qed (use a ok in auto)
qed

section \<open>Which pages are which\<close>

lemma dpage_not_fat:
  assumes "meta_safe v m" "firm v" "j < v_ppc v"
  shows "\<not> fat_new v (dpage v c j) b"
proof
  assume "fat_new v (dpage v c j) b"
  then obtain k i where k: "k < fat_clusters v" "i < v_ppc v" "dpage v c j = unat (v_fatAbs v ! k) * v_ppc v + i" by (auto simp: fat_new_def)
  then have "unat (v_alloc v) + unat c = unat (v_fatAbs v ! k)" using page_cluster [OF assms(3) k(2)] by (simp add: dpage_def)
  moreover have "v_fatAbs v ! k \<in> set (v_fatAbs v)" using k(1) assms(2) by (simp add: firm_def)
  ultimately show False using assms(1) by (fastforce simp: meta_safe_def)
qed

lemma dpage_not_fat_page:
  assumes "meta_safe v m" "firm v" "j < v_ppc v" "c < fat_clusters v * epc v"
  shows "dpage v x j \<noteq> fat_page v c"
proof
  assume e: "dpage v x j = fat_page v c"
  obtain k i where "k < fat_clusters v" "i < v_ppc v" "fat_page v c = unat (v_fatAbs v ! k) * v_ppc v + i"
    using fat_page_new [OF assms(2,4)] by blast
  then have "fat_new v (dpage v x j) (field (fat_bytes v k) (i * 512) 512)" using e by (auto simp: fat_new_def)
  then show False using dpage_not_fat [OF assms(1-3)] by blast
qed

text \<open>The pages that name the FAT are neither of the table nor of the allocatable area.\<close>

lemma meta_page:
  assumes "meta_safe v m" "firm v" "p = 0 \<or> (\<exists>k < fat_clusters v. p = ind_page v m k)"
  shows "\<not> fat_new v p b" "j < v_ppc v \<Longrightarrow> p \<noteq> dpage v c j"
proof -
  have p0: "0 < v_ppc v" using assms(2) by (simp add: firm_def)
  have e: "0 < epc v" using p0 by (simp add: epc_128)
  have i: "k mod epc v div 128 < v_ppc v" for k
    using mod_less_divisor [OF e, of k] unfolding epc_128 by (simp add: div_less_iff_less_mult mult.commute)
  obtain a i where a: "p = a * v_ppc v + i" "i < v_ppc v" "a < unat (v_alloc v)" "\<forall>x \<in> set (v_fatAbs v). unat x \<noteq> a"
  proof (cases "p = 0")
    case True
    then show ?thesis using that [of 0 0] p0 assms(1) by (auto simp: meta_safe_def)
  next
    case False
    then obtain k where k: "k < fat_clusters v" "p = ind_page v m k" using assms(3) by blast
    show ?thesis
      using that [of "unat (ifc_of m (k div epc v))" "k mod epc v div 128"] k i assms(1)
      by (auto simp: ind_page_def meta_safe_def word_unat_eq_iff [symmetric])
  qed
  show "\<not> fat_new v p b"
  proof
    assume "fat_new v p b"
    then obtain k j where k: "k < fat_clusters v" "j < v_ppc v" "p = unat (v_fatAbs v ! k) * v_ppc v + j" by (auto simp: fat_new_def)
    then have "a = unat (v_fatAbs v ! k)" using page_cluster [OF a(2) k(2)] a(1) by simp
    moreover have "v_fatAbs v ! k \<in> set (v_fatAbs v)" using k(1) assms(2) by (simp add: firm_def)
    ultimately show False using a(4) by auto
  qed
  assume "j < v_ppc v"
  then show "p \<noteq> dpage v c j" using page_cluster [OF a(2)] a(1,3) by (auto simp: dpage_def)
qed

end
