(* ===== verification/CardStore.thy ===== *)
theory CardStore
  imports CardEffects
begin

text \<open>
  The first part of writing a save: the chains of its files and of its folder. Nothing the card used
  before is touched, and each chain holds its data.
\<close>

definition stored :: "8 word \<Rightarrow> vs_vmc \<Rightarrow> bytes \<Rightarrow> 32 word \<Rightarrow> 32 word list \<Rightarrow> bool" where
  "stored b v data first xs \<longleftrightarrow>
     length xs = clusters_for v (length data) \<and> (if xs = [] then first = FAT_END else is_chain v first xs \<and> distinct xs)
     \<and> (\<forall>i < length xs. \<forall>j < v_ppc v.
          page (vimg v) (dpage v (xs ! i) j) = field (cluster_data v b (length xs) data ! i) (j * 512) 512)"

lemma apart_pages:
  assumes "apart v w" "firm v" "c < v_allocEnd v" "used v c" "j < v_ppc v"
  shows "page (vimg w) (dpage v c j) = page (vimg v) (dpage v c j)"
proof -
  have "\<not> (\<exists>d i. d < v_allocEnd v \<and> \<not> used v d \<and> i < v_ppc v \<and> dpage v c j = dpage v d i)"
    using dpage_inject [OF assms(5)] assms(4) by metis
  then show ?thesis using assms(1) unfolding apart_def changed_def by blast
qed

lemma apart_geo:
  assumes "apart v w"
  shows "geo w = geo v" "v_ppc w = v_ppc v" "csize w = csize v" "v_allocEnd w = v_allocEnd v" "dpage w = dpage v" "v_root w = v_root v"
    "epc w = epc v" "fat_clusters w = fat_clusters v" "v_fatAbs w = v_fatAbs v" "v_alloc w = v_alloc v" "v_clusters w = v_clusters v"
proof -
  show g: "geo w = geo v" using assms by (simp add: apart_def)
  show "v_ppc w = v_ppc v" "csize w = csize v" "v_allocEnd w = v_allocEnd v" "dpage w = dpage v" "v_root w = v_root v"
    "epc w = epc v" "fat_clusters w = fat_clusters v" "v_fatAbs w = v_fatAbs v" "v_alloc w = v_alloc v" "v_clusters w = v_clusters v"
    using g geo_derived [OF g] geo_dpage [OF g] by (simp_all add: geo_eq)
qed

lemma stored_apart:
  assumes "apart v w" "firm v" "stored b v data first xs" "\<forall>x \<in> set xs. used v x"
  shows "stored b w data first xs"
proof -
  note g = apart_geo [OF assms(1)]
  have x: "xs ! i < v_allocEnd v" if "i < length xs" for i
    using that assms(3) is_chain_clusters [of v first xs "xs ! i"] by (auto simp: stored_def split: if_splits)
  have "page (vimg w) (dpage v (xs ! i) j) = page (vimg v) (dpage v (xs ! i) j)" if "i < length xs" "j < v_ppc v" for i j
    by (rule apart_pages [OF assms(1,2) x [OF that(1)] _ that(2)]) (use assms(4) that(1) in auto)
  moreover have "is_chain w first xs" if "is_chain v first xs" by (rule apart_chain [OF assms(1) that]) (use assms(4) in auto)
  ultimately show ?thesis using assms(3) by (simp add: stored_def g clusters_for_def cluster_data_def)
qed

text \<open>Writing the clusters of a chain that was free in \<open>v\<close>.\<close>

lemma length_cluster_data: "b \<in> set (cluster_data v x n data) \<Longrightarrow> length b = csize v"
  by (auto simp: cluster_data_def padded_def)

lemma write_chain_apart:
  assumes "apart v w" "firm v" "is_chain w c xs" "distinct xs" "\<forall>x \<in> set xs. \<not> used v x" "length bs \<le> length xs"
    and "\<forall>b \<in> set bs. length b = csize v" "write_chain w c bs = (u, ok)"
  shows "apart v u" "v_fat u = v_fat w"
    "ok \<Longrightarrow> i < length bs \<Longrightarrow> j < v_ppc v \<Longrightarrow> page (vimg u) (dpage v (xs ! i) j) = field (bs ! i) (j * 512) 512"
proof -
  note g = apart_geo [OF assms(1)]
  have f: "firm w" by (rule apart_firm [OF assms(1,2)])
  have bs: "\<forall>b \<in> set bs. length b = csize w" using assms(7) g(3) by simp
  note e = write_chain_effect [OF f assms(3,4,6) bs assms(8), unfolded g]
  have xs: "\<forall>x \<in> set xs. x < v_allocEnd v" using is_chain_clusters [OF assms(3)] g(4) by simp
  have "changed (\<lambda>p b. \<exists>x \<in> set xs. \<exists>j < v_ppc v. p = dpage v x j) (v_file w) (v_file u)" using e by blast
  then have "changed (\<lambda>p b. \<exists>c j. c < v_allocEnd v \<and> \<not> used v c \<and> j < v_ppc v \<and> p = dpage v c j) (v_file w) (v_file u)"
    by (rule changed_mono) (use xs assms(5) in blast)
  then have "changed (\<lambda>p b. \<exists>c j. c < v_allocEnd v \<and> \<not> used v c \<and> j < v_ppc v \<and> p = dpage v c j) (v_file v) (v_file u)"
    using assms(1) changed_trans unfolding apart_def by blast
  then show "apart v u" using assms(1) e g(1) unfolding apart_def by simp
  show "v_fat u = v_fat w" using e by blast
  show "ok \<Longrightarrow> i < length bs \<Longrightarrow> j < v_ppc v \<Longrightarrow> page (vimg u) (dpage v (xs ! i) j) = field (bs ! i) (j * 512) 512"
    using e by blast
qed

text \<open>A new chain for some data: allocated and written.\<close>

lemma new_chain:
  assumes "firm v" "vsAllocChain v n hint = (w, h, first)" "first \<noteq> FAT_END" "0 < n" "n = clusters_for v (length data)"
    and "write_chain w first (cluster_data w b n data) = (u, ok)"
  shows "apart v u" "ok \<Longrightarrow> \<exists>xs. stored b u data first xs \<and> xs \<noteq> [] \<and> (\<forall>x \<in> set xs. \<not> used v x \<and> used u x)"
proof -
  obtain xs where xs: "length xs = n" "distinct xs" "is_chain w first xs" "\<forall>x \<in> set xs. \<not> used v x \<and> used w x"
    using alloc_spec(3) [OF assms(1,2,3,4)] by blast
  have a: "apart v w" by (rule alloc_spec(1) [OF assms(1,2)])
  note g = apart_geo [OF a]
  have l: "length (cluster_data w b n data) \<le> length xs" by (simp add: cluster_data_def xs(1))
  have bs: "\<forall>x \<in> set (cluster_data w b n data). length x = csize v" using length_cluster_data g(3) by metis
  have nu: "\<forall>x \<in> set xs. \<not> used v x" using xs(4) by blast
  note e = write_chain_apart [OF a assms(1) xs(3,2) nu l bs assms(6)]
  show u: "apart v u" by (rule e(1))
  note gu = apart_geo [OF u]
  have us: "used u x = used w x" for x by (simp add: used_def e(2))
  have ch: "is_chain u first xs" by (rule is_chain_cong [OF xs(3)]) (simp_all add: gu(4) g(4) e(2))
  have cd: "cluster_data u b n data = cluster_data w b n data" by (simp add: cluster_data_def g gu)
  assume ok: ok
  have "stored b u data first xs"
    unfolding stored_def
  proof (intro conjI allI impI)
    show "length xs = clusters_for u (length data)" using xs(1) assms(5) by (simp add: clusters_for_def gu)
    show "if xs = [] then first = FAT_END else is_chain u first xs \<and> distinct xs" using xs ch assms(4) by auto
    fix i j assume "i < length xs" "j < v_ppc u"
    then show "page (vimg u) (dpage u (xs ! i) j) = field (cluster_data u b (length xs) data ! i) (j * 512) 512"
      using e(3) [OF ok, of i j] xs(1) cd by (simp add: gu cluster_data_def g)
  qed
  then show "\<exists>xs. stored b u data first xs \<and> xs \<noteq> [] \<and> (\<forall>x \<in> set xs. \<not> used v x \<and> used u x)"
    using xs us assms(4) by (intro exI [of _ xs]) auto
qed

lemma clusters_for_0: "firm v \<Longrightarrow> clusters_for v n = 0 \<longleftrightarrow> n = 0"
  by (auto simp: clusters_for_def csize_def firm_def div_eq_0_iff)

lemma write_files_spec:
  assumes "firm v" "write_files v hint fs = (w, h, r)"
  shows "apart v w" "r = Inr firsts \<Longrightarrow>
    \<exists>xss. length firsts = length fs \<and> length xss = length fs \<and> distinct (concat xss)
      \<and> (\<forall>x \<in> set (concat xss). \<not> used v x \<and> used w x) \<and> (\<forall>k < length fs. stored 0xFF w (f_data (fs ! k)) (firsts ! k) (xss ! k))"
proof -
  have "apart v w \<and> (\<forall>firsts. r = Inr firsts \<longrightarrow>
    (\<exists>xss. length firsts = length fs \<and> length xss = length fs \<and> distinct (concat xss)
      \<and> (\<forall>x \<in> set (concat xss). \<not> used v x \<and> used w x) \<and> (\<forall>k < length fs. stored 0xFF w (f_data (fs ! k)) (firsts ! k) (xss ! k))))"
    using assms
  proof (induction v hint fs arbitrary: r rule: write_files.induct)
    case (1 v hint)
    then show ?case by auto
  next
    case (2 v hint f fs)
    let ?n = "clusters_for v (length (f_data f))"
    show ?case
    proof (cases "?n = 0")
      case True
      obtain r' where r': "write_files v hint fs = (w, h, r')" and rr: "r = (case r' of Inl err \<Rightarrow> Inl err | Inr firsts \<Rightarrow> Inr (FAT_END # firsts))"
        using 2(4) True by (auto simp: Let_def split: prod.splits sum.splits)
      have IH: "apart v w \<and> (\<forall>firsts. r' = Inr firsts \<longrightarrow>
        (\<exists>xss. length firsts = length fs \<and> length xss = length fs \<and> distinct (concat xss)
          \<and> (\<forall>x \<in> set (concat xss). \<not> used v x \<and> used w x) \<and> (\<forall>k < length fs. stored 0xFF w (f_data (fs ! k)) (firsts ! k) (xss ! k))))"
        by (rule 2(1) [OF refl True 2(3) r'])
      have st: "stored 0xFF w (f_data f) FAT_END []" if "apart v w"
        using True apart_geo [OF that] by (simp add: stored_def clusters_for_def)
      show ?thesis
      proof (intro conjI allI impI)
        show "apart v w" using IH by blast
        fix firsts assume "r = Inr firsts"
        then obtain firsts' where f: "r' = Inr firsts'" "firsts = FAT_END # firsts'" using rr by (auto split: sum.splits)
        then obtain xss where x: "length firsts' = length fs \<and> length xss = length fs \<and> distinct (concat xss)
          \<and> (\<forall>x \<in> set (concat xss). \<not> used v x \<and> used w x) \<and> (\<forall>k < length fs. stored 0xFF w (f_data (fs ! k)) (firsts' ! k) (xss ! k))"
          using IH by blast
        have "stored 0xFF w (f_data ((f # fs) ! k)) (firsts ! k) (([] # xss) ! k)" if "k < length (f # fs)" for k
          using that x st IH f(2) by (cases k) auto
        then show "\<exists>xss. length firsts = length (f # fs) \<and> length xss = length (f # fs) \<and> distinct (concat xss)
          \<and> (\<forall>x \<in> set (concat xss). \<not> used v x \<and> used w x) \<and> (\<forall>k < length (f # fs). stored 0xFF w (f_data ((f # fs) ! k)) (firsts ! k) (xss ! k))"
          using x f(2) by (intro exI [of _ "[] # xss"]) simp
      qed
    next
      case False
      obtain v1 h1 first where al: "vsAllocChain v ?n hint = (v1, h1, first)" by (cases "vsAllocChain v ?n hint") auto
      show ?thesis
      proof (cases "first = FAT_END")
        case True
        then have "w = v1" "\<exists>e. r = Inl e" using 2(4) False al by auto
        then show ?thesis using alloc_spec(1) [OF 2(3) al] by auto
      next
        case nf: False
        obtain v2 ok where wc: "write_chain v1 first (cluster_data v1 0xFF ?n (f_data f)) = (v2, ok)"
          by (cases "write_chain v1 first (cluster_data v1 0xFF ?n (f_data f))")
        have n0: "0 < ?n" using False by simp
        note nc = new_chain [OF 2(3) al nf n0 refl wc]
        show ?thesis
        proof (cases ok)
          case False': False
          then have "w = v2" "\<exists>e. r = Inl e" using 2(4) False al nf wc by auto
          then show ?thesis using nc(1) by auto
        next
          case ok: True
          obtain r' where r': "write_files v2 h1 fs = (w, h, r')" and rr: "r = (case r' of Inl err \<Rightarrow> Inl err | Inr firsts \<Rightarrow> Inr (first # firsts))"
            using 2(4) False al nf wc ok by (auto simp: Let_def split: prod.splits sum.splits)
          have f2: "firm v2" by (rule apart_firm [OF nc(1) 2(3)])
          have IH: "apart v2 w \<and> (\<forall>firsts. r' = Inr firsts \<longrightarrow>
            (\<exists>xss. length firsts = length fs \<and> length xss = length fs \<and> distinct (concat xss)
              \<and> (\<forall>x \<in> set (concat xss). \<not> used v2 x \<and> used w x) \<and> (\<forall>k < length fs. stored 0xFF w (f_data (fs ! k)) (firsts ! k) (xss ! k))))"
            by (rule 2(2) [OF refl False al [symmetric] refl nf wc [symmetric] _ f2 r']) (simp add: ok)
          obtain ys where ys: "stored 0xFF v2 (f_data f) first ys" "ys \<noteq> []" "\<forall>x \<in> set ys. \<not> used v x \<and> used v2 x"
            using nc(2) ok by blast
          have ysa: "\<forall>x \<in> set ys. x < v_allocEnd v2" using ys is_chain_clusters by (auto simp: stored_def)
          have av: "apart v w" using apart_trans [OF nc(1)] IH by blast
          have st: "stored 0xFF w (f_data f) first ys" using stored_apart [OF _ f2 ys(1)] IH ys(3) by blast
          show ?thesis
          proof (intro conjI allI impI)
            show "apart v w" by (rule av)
            fix firsts assume "r = Inr firsts"
            then obtain firsts' where f: "r' = Inr firsts'" "firsts = first # firsts'" using rr by (auto split: sum.splits)
            then obtain xss where x: "length firsts' = length fs \<and> length xss = length fs \<and> distinct (concat xss)
              \<and> (\<forall>x \<in> set (concat xss). \<not> used v2 x \<and> used w x) \<and> (\<forall>k < length fs. stored 0xFF w (f_data (fs ! k)) (firsts' ! k) (xss ! k))"
              using IH by blast
            have "stored 0xFF w (f_data ((f # fs) ! k)) (firsts ! k) ((ys # xss) ! k)" if "k < length (f # fs)" for k
              using that x st f(2) by (cases k) auto
            moreover have "distinct (concat (ys # xss))" using x ys by (auto simp: stored_def)
            moreover have "\<not> used v z \<and> used w z" if z: "z \<in> set (concat (ys # xss))" for z
            proof (cases "z \<in> set ys")
              case True
              then show ?thesis using ys(3) ysa apart_used [of v2 w z] IH by blast
            next
              case zn: False
              then have "\<exists>xs \<in> set xss. z \<in> set xs" using z by auto
              then obtain k where k: "k < length fs" "z \<in> set (xss ! k)" using x by (metis in_set_conv_nth)
              then have "is_chain w (firsts' ! k) (xss ! k)" using x by (auto simp: stored_def split: if_splits)
              then have "z < v_allocEnd w" using k(2) is_chain_clusters by blast
              then have "z < v_allocEnd v" using apart_geo(4) [OF av] by simp
              then show ?thesis using zn z x apart_used [OF nc(1), of z] by auto
            qed
            ultimately show "\<exists>xss. length firsts = length (f # fs) \<and> length xss = length (f # fs) \<and> distinct (concat xss)
              \<and> (\<forall>x \<in> set (concat xss). \<not> used v x \<and> used w x) \<and> (\<forall>k < length (f # fs). stored 0xFF w (f_data ((f # fs) ! k)) (firsts ! k) (xss ! k))"
              using x f(2) by (intro exI [of _ "ys # xss"]) simp
          qed
        qed
      qed
    qed
  qed
  then show "apart v w" "r = Inr firsts \<Longrightarrow>
    \<exists>xss. length firsts = length fs \<and> length xss = length fs \<and> distinct (concat xss)
      \<and> (\<forall>x \<in> set (concat xss). \<not> used v x \<and> used w x) \<and> (\<forall>k < length fs. stored 0xFF w (f_data (fs ! k)) (firsts ! k) (xss ! k))"
    by blast+
qed

end
