(* ===== verification/CardKeep.thy ===== *)
theory CardKeep
  imports CardStore
begin

text \<open>
  Consistent cards, and when a save loads from a changed file as it did before: its own clusters, the
  chain of the root and the entries of the root up to it must be as they were.
\<close>

section \<open>Consistent cards\<close>

definition dirlen :: "vs_vmc \<Rightarrow> nat" where
  "dirlen v = (case vsEnt v (v_root v) 0 of Some dot \<Rightarrow> vsDirLen (e_length dot) | None \<Rightarrow> 0)"

definition shown :: "vs_ent \<Rightarrow> bool" where
  "shown e \<longleftrightarrow> has_mode e MC_EXISTS \<and> has_mode e MC_DIR"

definition saves_of :: "vs_vmc \<Rightarrow> vs_ent list" where
  "saves_of v = filter shown (List.map_filter (vsEnt v (v_root v)) [2..<dirlen v])"

definition claimed :: "vs_vmc \<Rightarrow> 32 word list" where
  "claimed v = chain_of v (v_root v) @ concat (map (save_claims v) (saves_of v))"

text \<open>
  Every cluster has at most one owner and is marked used; the root's chain ends properly and has room for
  the entries it counts; the tables are where they belong.
\<close>

definition card_ok :: "vs_vmc \<Rightarrow> bool" where
  "card_ok v \<longleftrightarrow> firm v \<and> meta_safe v (vimg v) \<and> distinct (claimed v) \<and> (\<forall>c \<in> set (claimed v). used v c)
     \<and> vsNext v (last (chain_of v (v_root v))) = FAT_END \<and> 2 \<le> dirlen v \<and> dirlen v \<le> length (chain_of v (v_root v)) * v_ppc v"

definition consistent :: "card_file \<Rightarrow> bool" where
  "consistent f \<longleftrightarrow> (case vsOpen (\<lambda>_. True) (Some (sure_file f)) False of Inr v \<Rightarrow> card_ok v | Inl _ \<Rightarrow> False)"

text \<open>What a later session finds, when no read fails.\<close>

definition load_later :: "card_file \<Rightarrow> bytes \<Rightarrow> vs_err + vs_save" where
  "load_later f name = vsLoadVmc (\<lambda>_. True) (Some (sure_file f)) name"

section \<open>A card as it was opened\<close>

lemma vsOpen_fat:
  assumes o: "vsOpen mem (Some f) w = Inr v" and raw: "v_raw v = 512"
  shows "v = (at_file v f)\<lparr>v_file := f\<rparr>" "v_file v = f"
proof -
  let ?h = "head_of f"
  obtain t where ok: "head_ok f"
    and t: "those (map (fat_cluster ?h (ifcs f)) [0..<fat_clusters ?h]) = Some t"
    and v: "v = ?h\<lparr>v_fatAbs := map fst t, v_fat := concat (map snd t), v_fatDirty := replicate (fat_clusters ?h) False\<rparr>"
    using o unfolding vsOpen_iff by blast
  have v_eq: "v_ppc v = v_ppc ?h" "fat_clusters v = fat_clusters ?h" "v_raw ?h = 512" "v_file ?h = f" "epc v = epc ?h" "v_file v = f"
    using raw by (auto simp: v fat_clusters_def epc_def csize_def head_of_def Let_def)
  have ppc: "0 < v_ppc ?h" using ok by (simp add: head_ok_def Let_def)
  have tl: "length t = fat_clusters ?h" and tk: "k < fat_clusters ?h \<Longrightarrow> fat_cluster ?h (ifcs f) k = Some (t ! k)" for k
    using those_map_upt [OF t] by blast+
  have "snd (t ! k) = map (disk_fat v (cf_at f)) [k * epc v..<k * epc v + epc v]" if k: "k < fat_clusters ?h" for k
  proof -
    obtain a ws where aw: "t ! k = (a, ws)" by (cases "t ! k")
    have "\<exists>bs. vsIo_read ?h a = Some bs \<and> ws = le32s bs"
      using tk [OF k] unfolding aw by (auto simp: fat_cluster_def Let_def split: if_splits option.splits)
    then have "\<exists>bs. vsIo_read ?h (fst (t ! k)) = Some bs \<and> snd (t ! k) = le32s bs" by (simp add: aw)
    then have "snd (t ! k) = le32s (clu ?h (unat (fst (t ! k))))" using read_some(2) [OF v_eq(3) ppc] by auto
    also have "clu ?h = clu v" by (rule clu_cong) (simp_all add: v_eq)
    also have "le32s (clu v (unat (fst (t ! k)))) = map (disk_fat v (vimg v)) [k * epc v..<k * epc v + epc v]"
      using k tl ppc v_eq by (intro le32s_clu) (simp_all add: v)
    finally show ?thesis by (simp add: v_eq)
  qed
  then have mt: "map snd t = map (\<lambda>k. map (disk_fat v (cf_at f)) [k * epc v..<k * epc v + epc v]) [0..<fat_clusters v]"
    by (intro nth_equalityI) (simp_all add: v_eq tl)
  have "v_fat v = concat (map snd t)" by (simp add: v)
  then have vf: "v_fat v = map (disk_fat v (cf_at f)) [0..<fat_clusters v * epc v]" by (simp only: mt concat_upt)
  have "v_fatDirty v = replicate (fat_clusters ?h) False" by (simp add: v)
  then have vd: "v_fatDirty v = replicate (fat_clusters v) False" using v_eq(2) by simp
  show "v = (at_file v f)\<lparr>v_file := f\<rparr>" unfolding at_file_def by (rule vs_vmc.equality) (simp_all add: v_eq(6) vf [symmetric] vd [symmetric])
  show "v_file v = f" by (rule v_eq(6))
qed

lemma same_meta_refl [simp]: "same_meta v m m"
  by (simp add: same_meta_def)

lemma vsOpen_write:
  assumes "consistent f" "vsOpen mem (Some f) True = Inr v"
  shows "v_file v = f" "v_fat (at_file v f) = v_fat v" "card_ok (at_file v f)" "firm v" "v_raw v = 512" "meta_safe v (cf_at f)"
    "\<forall>k. k < fat_clusters v \<longrightarrow> \<not> v_fatDirty v ! k"
proof -
  obtain t where "\<not> v_ecc (head_of f)" "v_raw v = v_raw (head_of f)"
    using assms(2) unfolding vsOpen_iff by auto
  then show raw: "v_raw v = 512" by (auto simp: head_of_def Let_def)
  note e = vsOpen_fat [OF assms(2) raw]
  show "v_file v = f" by (rule e(2))
  have vf: "v_fat ((at_file v f)\<lparr>v_file := f\<rparr>) = v_fat (at_file v f)"
    "v_fatDirty ((at_file v f)\<lparr>v_file := f\<rparr>) = replicate (fat_clusters v) False" by (simp_all add: at_file_def)
  show fat: "v_fat (at_file v f) = v_fat v" using vf(1) e(1) by simp
  have d: "v_fatDirty v = replicate (fat_clusters v) False" using vf(2) e(1) by simp
  then show "\<forall>k. k < fat_clusters v \<longrightarrow> \<not> v_fatDirty v ! k" by simp
  have "vsOpen (\<lambda>_. True) (Some (sure_file f)) False = Inr (at_file v f)" by (rule reopen [OF assms(2) raw refl]) simp
  then show ok: "card_ok (at_file v f)" using assms(1) by (simp add: consistent_def)
  show "firm v"
    by (rule firm_geo [of "at_file v f"]) (use ok e(2) fat d in \<open>simp_all add: card_ok_def at_file_def geo_def sure_file_def\<close>)
  show "meta_safe v (cf_at f)" using ok by (simp add: card_ok_def meta_safe_def ifc_of_def)
qed

section \<open>Loading from a changed file\<close>

lemma vsFindSave_dirlen: "vsFindSave v name = first_some (save_at v name) [2..<dirlen v]"
  by (simp add: vsFindSave_def dirlen_def split: option.splits)

lemma first_some_in: "first_some f xs = Some y \<Longrightarrow> \<exists>x \<in> set xs. f x = Some y"
  by (induction xs) (auto split: option.splits)

lemma first_some_cong: "(\<And>x. x \<in> set xs \<Longrightarrow> f x = g x) \<Longrightarrow> first_some f xs = first_some g xs"
  by (induction xs) (auto split: option.splits)

lemma first_some_append: "first_some f (xs @ ys) = (case first_some f xs of Some y \<Rightarrow> Some y | None \<Rightarrow> first_some f ys)"
  by (induction xs) (auto split: option.splits)

lemma save_at_Some: "save_at v name i = Some (k, e) \<longleftrightarrow> k = i \<and> vsEnt v (v_root v) i = Some e \<and> shown e \<and> vsNameIs e name"
  by (auto simp: save_at_def shown_def split: option.splits)

lemma found_save:
  assumes "vsFindSave v name = Some (i, e)"
  shows "2 \<le> i" "i < dirlen v" "vsEnt v (v_root v) i = Some e" "shown e" "vsNameIs e name" "e \<in> set (saves_of v)"
proof -
  obtain k where k: "k \<in> set [2..<dirlen v]" "save_at v name k = Some (i, e)"
    using first_some_in [OF assms [unfolded vsFindSave_dirlen]] by blast
  then show "2 \<le> i" "i < dirlen v" "vsEnt v (v_root v) i = Some e" "shown e" "vsNameIs e name" by (auto simp: save_at_Some)
  then show "e \<in> set (saves_of v)" using map_filter_mem [of i "[2..<dirlen v]"] by (auto simp: saves_of_def)
qed

lemma card_ok_root:
  assumes "card_ok v"
  shows "is_chain v (v_root v) (chain_of v (v_root v))" "distinct (chain_of v (v_root v))" "chain_of v (v_root v) \<noteq> []"
    "chain_of v (v_root v) ! 0 = v_root v"
proof -
  show d: "distinct (chain_of v (v_root v))" using assms by (simp add: card_ok_def claimed_def)
  show "is_chain v (v_root v) (chain_of v (v_root v))" by (rule chain_of_chain [OF d])
  have "v_root v < v_allocEnd v" using assms by (simp add: card_ok_def firm_def)
  then show "chain_of v (v_root v) \<noteq> []" "chain_of v (v_root v) ! 0 = v_root v" by (simp_all add: chain_of_def)
qed

text \<open>A walk of the root needs the links but not the end of its chain.\<close>

lemma walk_prefix:
  assumes "is_chain v c xs" "firm v" "v_allocEnd w = v_allocEnd v" "\<forall>x \<in> set (butlast xs). v_fat w ! unat x = v_fat v ! unat x" "n < length xs"
  shows "walk_on w c n = xs ! n"
  using assms(1,4,5)
proof (induction xs arbitrary: c n)
  case (Cons x xs)
  then have x: "x = c" "c < v_allocEnd v" "is_chain v (vsNext v c) xs" by auto
  have ne: "c \<noteq> FAT_END" by (rule end_not_cluster [OF assms(2) x(2)])
  show ?case
  proof (cases n)
    case 0
    then show ?thesis using x by simp
  next
    case (Suc m)
    then have xs: "xs \<noteq> []" using Cons.prems(3) by auto
    then have "vsNext w c = vsNext v c" using Cons.prems(2) x(1) assms(3) by (intro vsNext_cong) simp_all
    moreover have "\<forall>x \<in> set (butlast xs). v_fat w ! unat x = v_fat v ! unat x" using Cons.prems(2) xs by simp
    ultimately show ?thesis using Cons.IH [OF x(3)] Cons.prems(3) Suc ne by simp
  qed
qed simp

lemma root_entry:
  assumes "card_ok v" "firm w" "sure w" "geo w = geo v"
    and "\<forall>x \<in> set (butlast (chain_of v (v_root v))). v_fat w ! unat x = v_fat v ! unat x"
    and "i < length (chain_of v (v_root v)) * v_ppc v"
  shows "vsEnt w (v_root w) i = Some (ent_of (page (vimg w) (dpage v (chain_of v (v_root v) ! (i div v_ppc v)) (i mod v_ppc v))))"
proof -
  let ?rc = "chain_of v (v_root v)"
  note r = card_ok_root [OF assms(1)]
  have f: "firm v" using assms(1) by (simp add: card_ok_def)
  have g: "v_ppc w = v_ppc v" "v_allocEnd w = v_allocEnd v" "v_root w = v_root v" "dpage w = dpage v"
    using assms(4) geo_dpage [OF assms(4)] by (simp_all add: geo_eq)
  have n: "i div v_ppc v < length ?rc" using assms(6) f by (simp add: firm_def div_less_iff_less_mult)
  have w: "walk_on w (v_root v) (i div v_ppc v) = ?rc ! (i div v_ppc v)" by (rule walk_prefix [OF r(1) f g(2) assms(5) n])
  have "length ?rc \<le> unat (v_allocEnd v)"
    using distinct_clusters_length [OF r(2), of "v_allocEnd v"] is_chain_clusters [OF r(1)] by blast
  then have "vsWalk w (v_root w) (i div v_ppc w) = ?rc ! (i div v_ppc v)" using n w by (simp add: vsWalk_def g)
  moreover have "?rc ! (i div v_ppc v) < v_allocEnd v" using is_chain_clusters [OF r(1)] n by simp
  ultimately show ?thesis by (simp add: vsEnt_sure [OF assms(2,3)] g)
qed

lemma root_entry_self:
  assumes "card_ok v" "sure v" "i < length (chain_of v (v_root v)) * v_ppc v"
  shows "vsEnt v (v_root v) i = Some (ent_of (page (vimg v) (dpage v (chain_of v (v_root v) ! (i div v_ppc v)) (i mod v_ppc v))))"
  using root_entry [OF assms(1) _ assms(2) refl _ assms(3)] assms(1) by (simp add: card_ok_def)

definition root_page :: "vs_vmc \<Rightarrow> nat \<Rightarrow> nat" where
  "root_page v i = dpage v (chain_of v (v_root v) ! (i div v_ppc v)) (i mod v_ppc v)"

text \<open>A save is found and loaded as before.\<close>

lemma load_kept:
  assumes ok: "card_ok v" "sure v" and w: "firm w" "sure w" "geo w = geo v"
    and links: "\<forall>x \<in> set (butlast (chain_of v (v_root v))). v_fat w ! unat x = v_fat v ! unat x"
    and claims: "agree v w (set (save_claims v e))"
    and entries: "\<And>k. 2 \<le> k \<Longrightarrow> k < dirlen v \<Longrightarrow> page (vimg w) (root_page v k) = page (vimg v) (root_page v k)
        \<or> save_at v name k = None \<and> (let d = ent_of (page (vimg w) (root_page v k)) in \<not> (shown d \<and> vsNameIs d name))"
    and len: "dirlen v \<le> dirlen w" and found: "vsFindSave v name = Some (i, e)"
  shows "vsFindSave w name = Some (i, e)" "load_dir mem w e = load_dir mem v e"
proof -
  have f: "firm v" using ok by (simp add: card_ok_def)
  have k: "k < length (chain_of v (v_root v)) * v_ppc v" if "k < dirlen v" for k using that ok by (simp add: card_ok_def)
  have "save_at w name k = save_at v name k" if "2 \<le> k" "k < dirlen v" for k
  proof -
    have ev: "vsEnt v (v_root v) k = Some (ent_of (page (vimg v) (root_page v k)))"
      using root_entry_self [OF ok k [OF that(2)]] by (simp add: root_page_def)
    have ew: "vsEnt w (v_root w) k = Some (ent_of (page (vimg w) (root_page v k)))"
      using root_entry [OF ok(1) w links k [OF that(2)]] by (simp add: root_page_def)
    show ?thesis using entries [OF that] ev ew by (auto simp: save_at_def shown_def Let_def)
  qed
  then have "first_some (save_at w name) [2..<dirlen v] = first_some (save_at v name) [2..<dirlen v]" by (intro first_some_cong) simp
  then have a: "first_some (save_at w name) [2..<dirlen v] = Some (i, e)" using found by (simp add: vsFindSave_dirlen)
  have "2 \<le> dirlen v" using found_save(1,2) [OF found] by simp
  then have "[2..<dirlen w] = [2..<dirlen v] @ [dirlen v..<dirlen w]" using len upt_add_eq_append [of 2 "dirlen v" "dirlen w - dirlen v"] by simp
  then show "vsFindSave w name = Some (i, e)" using a by (simp add: vsFindSave_dirlen first_some_append)
  have "distinct (save_claims v e)"
    using ok(1) found_save(6) [OF found] by (auto simp: card_ok_def claimed_def distinct_concat_iff)
  then show "load_dir mem w e = load_dir mem v e" by (rule load_dir_agree [OF f ok(2) w _ claims])
qed

lemma save_claims_used:
  assumes "card_ok v" "e \<in> set (saves_of v)" "c \<in> set (save_claims v e)"
  shows "used v c" "c < v_allocEnd v" "c \<notin> set (chain_of v (v_root v))"
proof -
  show "used v c" using assms by (auto simp: card_ok_def claimed_def)
  show "c < v_allocEnd v" using assms(3) chain_steps_clusters by (auto simp: save_claims_def chain_of_def)
  show "c \<notin> set (chain_of v (v_root v))" using assms by (auto simp: card_ok_def claimed_def)
qed

end
