(* ===== verification/CardSafe.thy ===== *)
theory CardSafe
  imports CardKeep
begin

text \<open>
  What a change of a card may touch so that a save loads as before, and the steps of the code that stay
  within it: taking clusters, writing the table back, changing an entry of the root.
\<close>

section \<open>What is kept\<close>

text \<open>
  The pages of the used clusters are as they were or as \<open>X\<close> allows, and the entries of the table on the card
  for the used clusters outside \<open>L\<close> are as they were.
\<close>

definition keeps :: "vs_vmc \<Rightarrow> 32 word set \<Rightarrow> (nat \<Rightarrow> bytes \<Rightarrow> bool) \<Rightarrow> card_file \<Rightarrow> bool" where
  "keeps v L X g \<longleftrightarrow> cf_size g = cf_size (v_file v) \<and> same_meta v (vimg v) (cf_at g)
     \<and> (\<forall>c. c < v_allocEnd v \<and> used v c \<longrightarrow> (\<forall>j < v_ppc v. page (cf_at g) (dpage v c j) = page (vimg v) (dpage v c j)
            \<or> X (dpage v c j) (page (cf_at g) (dpage v c j))))
     \<and> (\<forall>c. c < v_allocEnd v \<and> used v c \<and> c \<notin> L \<longrightarrow> disk_fat v (cf_at g) (unat c) = disk_fat v (vimg v) (unat c))"

lemma keeps_self [simp]: "keeps v L X (v_file v)"
  by (simp add: keeps_def)

lemma keeps_mono:
  assumes "keeps v L X g" "\<And>p b. X p b \<Longrightarrow> Y p b" "L \<subseteq> M"
  shows "keeps v M Y g"
  using assms unfolding keeps_def by blast

lemma keeps_step:
  assumes k: "keeps v L X g" and ch: "changed new g h"
    and meta: "\<And>p b. new p b \<Longrightarrow> p \<noteq> 0 \<and> (\<forall>k < fat_clusters v. p \<noteq> ind_page v (vimg v) k)"
    and data: "\<And>c j b. c < v_allocEnd v \<Longrightarrow> used v c \<Longrightarrow> j < v_ppc v \<Longrightarrow> new (dpage v c j) b \<Longrightarrow> X (dpage v c j) b"
    and fat: "\<And>c. c < v_allocEnd v \<Longrightarrow> used v c \<Longrightarrow> c \<notin> L \<Longrightarrow>
      disk_fat v (cf_at h) (unat c) = disk_fat v (cf_at g) (unat c) \<or> disk_fat v (cf_at h) (unat c) = disk_fat v (vimg v) (unat c)"
  shows "keeps v L X h"
proof -
  have p: "page (cf_at h) p = page (cf_at g) p \<or> new p (page (cf_at h) p)" for p using ch by (simp add: changed_def)
  have "cf_size h = cf_size (v_file v)" using k ch by (simp add: changed_def keeps_def)
  moreover have "same_meta v (vimg v) (cf_at h)"
    using k p meta unfolding keeps_def same_meta_def by metis
  moreover have "page (cf_at h) (dpage v c j) = page (vimg v) (dpage v c j) \<or> X (dpage v c j) (page (cf_at h) (dpage v c j))"
    if "c < v_allocEnd v" "used v c" "j < v_ppc v" for c j
    using p [of "dpage v c j"] data [OF that] k that unfolding keeps_def by metis
  moreover have "disk_fat v (cf_at h) (unat c) = disk_fat v (vimg v) (unat c)" if "c < v_allocEnd v" "used v c" "c \<notin> L" for c
    using fat [OF that] k that unfolding keeps_def by metis
  ultimately show ?thesis unfolding keeps_def by blast
qed

lemma meta_safe_geo: "geo t = geo v \<Longrightarrow> meta_safe t m = meta_safe v m"
  using geo_derived [of t v] by (simp add: meta_safe_def geo_eq)

lemma cluster_in_table:
  assumes "firm v" "c < v_allocEnd v"
  shows "unat c < fat_clusters v * epc v"
  using fat_length [OF assms(1)] assms by (simp add: firm_def word_less_nat_alt)

text \<open>A change of data pages only.\<close>

lemma keeps_data:
  assumes "keeps v L X g" "changed new g h" "firm v" "meta_safe v (vimg v)"
    and "\<And>p b. new p b \<Longrightarrow> \<exists>c j. j < v_ppc v \<and> p = dpage v c j \<and> (c < v_allocEnd v \<longrightarrow> used v c \<longrightarrow> X p b)"
  shows "keeps v L X h"
proof (rule keeps_step [OF assms(1,2)])
  fix p b assume "new p b"
  then obtain c j where j: "j < v_ppc v" "p = dpage v c j" using assms(5) by blast
  have "\<not> (p = 0 \<or> (\<exists>k < fat_clusters v. p = ind_page v (vimg v) k))"
  proof
    assume "p = 0 \<or> (\<exists>k < fat_clusters v. p = ind_page v (vimg v) k)"
    from meta_page(2) [OF assms(4,3) this j(1)] show False using j(2) by blast
  qed
  then show "p \<noteq> 0 \<and> (\<forall>k < fat_clusters v. p \<noteq> ind_page v (vimg v) k)" by metis
next
  fix c j b assume c: "c < v_allocEnd v" "used v c" "j < v_ppc v" "new (dpage v c j) b"
  then obtain d i where d: "i < v_ppc v" "dpage v c j = dpage v d i" "d < v_allocEnd v \<longrightarrow> used v d \<longrightarrow> X (dpage v c j) b"
    using assms(5) by blast
  then have "c = d" using dpage_inject [OF c(3) d(1)] by metis
  then show "X (dpage v c j) b" using c d by blast
next
  fix c assume c: "c < v_allocEnd v"
  have "page (cf_at h) (fat_page v (unat c)) = page (cf_at g) (fat_page v (unat c))"
    using assms(2,5) dpage_not_fat_page [OF assms(4,3) _ cluster_in_table [OF assms(3) c]] unfolding changed_def by metis
  then show "disk_fat v (cf_at h) (unat c) = disk_fat v (cf_at g) (unat c) \<or> disk_fat v (cf_at h) (unat c) = disk_fat v (vimg v) (unat c)"
    by (simp add: disk_fat_def)
qed

lemma apart_keeps:
  assumes "apart v w" "firm v" "meta_safe v (vimg v)"
  shows "keeps v L X (v_file w)"
proof (rule keeps_data [OF keeps_self _ assms(2,3)])
  show "changed (\<lambda>p b. \<exists>c j. c < v_allocEnd v \<and> \<not> used v c \<and> j < v_ppc v \<and> p = dpage v c j) (v_file v) (v_file w)"
    using assms(1) by (simp add: apart_def)
qed blast

text \<open>The table is written back.\<close>

lemma keeps_flush:
  assumes k: "keeps v L X (v_file t)" and t: "firm t" "geo t = geo v" and v: "firm v" "meta_safe v (vimg v)"
    and fat: "\<And>c. c < v_allocEnd v \<Longrightarrow> used v c \<Longrightarrow> c \<notin> L \<Longrightarrow> v_fat t ! unat c = disk_fat v (vimg v) (unat c)"
    and f: "vsFlushFat t = (w, ok)"
  shows "keeps v L X (v_file w)"
proof (rule keeps_step [OF k])
  have m: "meta_safe t (vimg v)" using v(2) meta_safe_geo [OF t(2)] by simp
  then have d: "distinct (v_fatAbs t)" by (simp add: meta_safe_def)
  note g = geo_derived [OF t(2)] geo_dpage [OF t(2)] t(2) [unfolded geo_eq] disk_fat_geo [OF t(2)]
  show "changed (fat_new t) (v_file t) (v_file w)" by (rule flush_effect(3) [OF t(1) d f])
  fix p b assume n: "fat_new t p b"
  have "ind_page t = ind_page v" by (rule ind_page_cong) (simp add: g)
  then show "p \<noteq> 0 \<and> (\<forall>k < fat_clusters v. p \<noteq> ind_page v (vimg v) k)"
    using meta_page(1) [OF m t(1), of p b] n g(3) by metis
next
  have m: "meta_safe t (vimg v)" using v(2) meta_safe_geo [OF t(2)] by simp
  then have d: "distinct (v_fatAbs t)" by (simp add: meta_safe_def)
  note g = geo_derived [OF t(2)] geo_dpage [OF t(2)] t(2) [unfolded geo_eq] disk_fat_geo [OF t(2)]
  {
    fix c j b assume "j < v_ppc v" "fat_new t (dpage v c j) b"
    then show "X (dpage v c j) b" using dpage_not_fat [OF m t(1), of j c b] g by simp
  next
    fix c assume c: "c < v_allocEnd v" "used v c" "c \<notin> L"
    have "unat c < fat_clusters t * epc t" using cluster_in_table [OF v(1) c(1)] by (simp add: g)
    then show "disk_fat v (vimg w) (unat c) = disk_fat v (vimg t) (unat c) \<or> disk_fat v (vimg w) (unat c) = disk_fat v (vimg v) (unat c)"
      using flush_disk_fat(1) [OF t(1) d f] fat [OF c] g by metis
  }
qed

text \<open>An entry is written.\<close>

lemma keeps_entry:
  assumes k: "keeps v L X (v_file t)" and t: "firm t" "geo t = geo v" and v: "firm v" "meta_safe v (vimg v)"
    and e: "ent_ok e" "vsEnt_put t dir i e = (w, ok)"
    and X: "\<And>c. c = vsWalk t dir (i div v_ppc v) \<Longrightarrow> c < v_allocEnd v \<Longrightarrow> used v c \<Longrightarrow> X (dpage v c (i mod v_ppc v)) (ent_bytes e)"
  shows "keeps v L X (v_file w)"
proof (rule keeps_data [OF k _ v])
  note g = geo_derived [OF t(2)] geo_dpage [OF t(2)] t(2) [unfolded geo_eq]
  note f = ent_put_effect [OF t(1) e, unfolded g]
  show "changed (\<lambda>p b. vsWalk t dir (i div v_ppc v) < v_allocEnd v
      \<and> p = dpage v (vsWalk t dir (i div v_ppc v)) (i mod v_ppc v) \<and> b = ent_bytes e) (v_file t) (v_file w)"
    using f g by simp
  have "i mod v_ppc v < v_ppc v" using v(1) by (simp add: firm_def)
  then show "\<exists>c j. j < v_ppc v \<and> p = dpage v c j \<and> (c < v_allocEnd v \<longrightarrow> used v c \<longrightarrow> X p b)"
    if "vsWalk t dir (i div v_ppc v) < v_allocEnd v \<and> p = dpage v (vsWalk t dir (i div v_ppc v)) (i mod v_ppc v) \<and> b = ent_bytes e" for p b
    using that X by blast
qed

section \<open>Loading what was kept\<close>

lemma same_table:
  assumes "v_allocEnd w = v_allocEnd v" "v_fat w = v_fat v"
  shows "vsNext w = vsNext v" "chain_of w = chain_of v" "used w = used v" "walk_on w = walk_on v" "vsWalk w = vsWalk v"
    "is_chain w = is_chain v"
proof -
  show n: "vsNext w = vsNext v" by (intro ext) (simp add: vsNext_def assms)
  have "chain_steps k w c = chain_steps k v c" for k c by (induction k arbitrary: c) (simp_all add: n assms)
  then show "chain_of w = chain_of v" by (intro ext) (simp add: chain_of_def assms)
  show "used w = used v" by (intro ext) (simp add: used_def assms)
  have "walk_on w c k = walk_on v c k" for c k by (induction k arbitrary: c) (simp_all add: n)
  then show "walk_on w = walk_on v" by (intro ext)
  then show "vsWalk w = vsWalk v" by (intro ext) (simp add: vsWalk_def assms)
  have "is_chain w c xs = is_chain v c xs" for c xs by (induction xs arbitrary: c) (simp_all add: n assms)
  then show "is_chain w = is_chain v" by (intro ext)
qed

text \<open>An entry read while the card was open is the entry a later session reads.\<close>

lemma opened_entry:
  assumes "consistent f" "vsOpen mem (Some f) True = Inr v" "vsEnt v dir i = Some e"
  shows "vsEnt (at_file v f) dir i = Some e"
proof -
  note o = vsOpen_write [OF assms(1,2)]
  let ?u = "at_file v f"
  have u: "firm ?u" using o(3) by (simp add: card_ok_def)
  have g: "geo ?u = geo v" by simp
  have w: "vsWalk ?u = vsWalk v" by (rule same_table(5)) (use o(2) in simp_all)
  show ?thesis
    using vsEnt_firm [OF o(4) assms(3)] geo_dpage [OF g] by (simp add: vsEnt_sure [OF u] w o(1))
qed

lemma keeps_load:
  assumes f: "consistent f" "vsOpen mem (Some f) True = Inr v" and k: "keeps v L X g" and l: "load_later f name = Inr x"
  defines "u \<equiv> at_file v f"
  assumes L: "L \<inter> set (butlast (chain_of u (v_root u))) = {}"
    and claims: "\<And>i e c. vsFindSave u name = Some (i, e) \<Longrightarrow> c \<in> set (save_claims u e)
        \<Longrightarrow> c \<notin> L \<and> (\<forall>j b. j < v_ppc v \<longrightarrow> \<not> X (dpage v c j) b)"
    and entries: "\<And>j b. 2 \<le> j \<Longrightarrow> j < dirlen u \<Longrightarrow> X (root_page u j) b \<Longrightarrow>
        save_at u name j = None \<and> \<not> (shown (ent_of b) \<and> vsNameIs (ent_of b) name)"
    and dot: "\<And>b. X (root_page u 0) b \<Longrightarrow> dirlen u \<le> vsDirLen (e_length (ent_of b))"
  shows "load_later g name = Inr x"
proof -
  note o = vsOpen_write [OF f, folded u_def]
  let ?w = "at_file v g" and ?rc = "chain_of u (v_root u)"
  have fu: "firm u" and su: "sure u" using o(3) by (simp_all add: card_ok_def u_def)
  have wu: "geo ?w = geo u" "sure ?w" by (simp_all add: u_def)
  have uv: "geo u = geo v" "v_ppc u = v_ppc v" "dpage u = dpage v" "used u = used v" "v_allocEnd u = v_allocEnd v" "vimg u = vimg v"
    using same_table(3) [of u v] o(1,2) geo_dpage [of u v] by (simp_all add: u_def)
  have sz: "cf_size g = cf_size f" and meta: "same_meta v (cf_at f) (cf_at g)" using k o(1) by (simp_all add: keeps_def)
  have "firm ?w" by (rule firm_geo [OF fu]) (simp_all add: u_def at_file_def geo_def sure_file_def sz)
  note w = this wu(2,1)
  have open_u: "vsOpen (\<lambda>_. True) (Some (sure_file f)) False = Inr u" unfolding u_def by (rule reopen [OF f(2) o(5) refl]) simp
  have open_w: "vsOpen (\<lambda>_. True) (Some (sure_file g)) False = Inr ?w" by (rule reopen [OF f(2) o(5) sz meta])
  obtain i e where e: "vsFindSave u name = Some (i, e)" "load_dir (\<lambda>_. True) u e = Inr x"
    using l open_u by (auto simp: load_later_def vsLoadVmc_def split: option.splits)
  have fat: "v_fat (at_file v h) ! unat c = disk_fat v (cf_at h) (unat c)" if "c < v_allocEnd v" for c h
    using cluster_in_table [OF o(4) that] by (simp add: at_file_def)
  have keptf: "v_fat ?w ! unat c = v_fat u ! unat c" if "c < v_allocEnd v" "used v c" "c \<notin> L" for c
    using k that fat [OF that(1)] o(1) by (simp add: keeps_def u_def)
  have keptp: "page (vimg ?w) (dpage v c j) = page (vimg u) (dpage v c j) \<or> X (dpage v c j) (page (vimg ?w) (dpage v c j))"
    if "c < v_allocEnd v" "used v c" "j < v_ppc v" for c j using k that uv by (simp add: keeps_def)
  note r = card_ok_root [OF o(3)]
  have rcu: "c < v_allocEnd v" "used v c" if "c \<in> set ?rc" for c
    using that is_chain_clusters [OF r(1)] o(3) uv by (auto simp: card_ok_def claimed_def)
  have links: "\<forall>c \<in> set (butlast ?rc). v_fat ?w ! unat c = v_fat u ! unat c"
    using keptf rcu L in_set_butlastD by fast
  have cl: "c < v_allocEnd v" "used v c" if "c \<in> set (save_claims u e)" for c
    using save_claims_used [OF o(3) found_save(6) [OF e(1)] that] uv by simp_all
  have agree: "agree u ?w (set (save_claims u e))"
    unfolding agree_def using keptf keptp cl claims [OF e(1)] uv by metis
  have rp: "page (vimg ?w) (root_page u j) = page (vimg u) (root_page u j) \<or> X (root_page u j) (page (vimg ?w) (root_page u j))"
    if "j < length ?rc * v_ppc v" for j
  proof -
    have "j div v_ppc v < length ?rc" "j mod v_ppc v < v_ppc v" using that o(4) by (simp_all add: firm_def div_less_iff_less_mult)
    then show ?thesis using keptp [of "?rc ! (j div v_ppc v)" "j mod v_ppc v"] rcu uv by (simp add: root_page_def)
  qed
  have lt: "j < length ?rc * v_ppc v" if "j < dirlen u" for j using that o(3) uv(2) by (simp add: card_ok_def)
  have r0: "0 < length ?rc * v_ppc v" using r(3) o(4) by (simp add: firm_def)
  have "vsEnt ?w (v_root ?w) 0 = Some (ent_of (page (vimg ?w) (root_page u 0)))"
    "vsEnt u (v_root u) 0 = Some (ent_of (page (vimg u) (root_page u 0)))"
    using root_entry [OF o(3) w links, of 0] root_entry_self [OF o(3) su, of 0] r0 uv by (simp_all add: root_page_def)
  then have "dirlen ?w = vsDirLen (e_length (ent_of (page (vimg ?w) (root_page u 0))))"
    "dirlen u = vsDirLen (e_length (ent_of (page (vimg u) (root_page u 0))))" by (simp_all add: dirlen_def)
  then have len: "dirlen u \<le> dirlen ?w" using rp [OF r0] dot by (elim disjE) simp_all
  have en: "page (vimg ?w) (root_page u j) = page (vimg u) (root_page u j)
        \<or> save_at u name j = None \<and> (let d = ent_of (page (vimg ?w) (root_page u j)) in \<not> (shown d \<and> vsNameIs d name))"
    if "2 \<le> j" "j < dirlen u" for j using rp [OF lt [OF that(2)]] entries [OF that] by (simp only: Let_def) blast
  note lk = load_kept [OF o(3) su w links agree en len e(1)]
  show ?thesis using open_w lk e(2) by (simp add: load_later_def vsLoadVmc_def)
qed

end
