(* ===== verification/CardImport.thy ===== *)
theory CardImport
  imports CardSafe
begin

text \<open>
  Writing a save into a card: until its entry appears nothing of the card changes but free clusters
  and the end of the root, so a cut of the power at any write leaves the other saves as they were.
\<close>

section \<open>The save to be written\<close>

definition name_ok :: "bytes \<Rightarrow> bool" where
  "name_ok n \<longleftrightarrow> length n \<le> 32 \<and> 0 \<notin> set n"

definition file_ok :: "vs_file \<Rightarrow> bool" where
  "file_ok g \<longleftrightarrow> name_ok (f_name g) \<and> length (f_created g) = 8 \<and> length (f_modified g) = 8"

definition save_ok :: "vs_save \<Rightarrow> bool" where
  "save_ok s \<longleftrightarrow> name_ok (s_name s) \<and> length (s_created s) = 8 \<and> length (s_modified s) = 8 \<and> length (s_files s) \<le> SAVE_FILES
     \<and> (\<forall>g \<in> set (s_files s). file_ok g) \<and> sum_list (map (\<lambda>g. length (f_data g)) (s_files s)) \<le> unat SAVE_MAX_SIZE"

lemma c_str_name: "name_ok n \<Longrightarrow> c_str (name_field n) = n"
proof -
  assume n: "name_ok n"
  have z: "takeWhile (\<lambda>b. b \<noteq> 0) (replicate k 0) = ([] :: bytes)" for k by (cases k) simp_all
  have "\<forall>b \<in> set n. b \<noteq> 0" using n by (auto simp: name_ok_def)
  then have "takeWhile (\<lambda>b. b \<noteq> 0) (n @ replicate (32 - length n) 0) = n" by (subst takeWhile_append2) (simp_all add: z)
  then show ?thesis using n by (simp add: name_ok_def c_str_def name_field_def padded_def)
qed

lemma length_name_field [simp]: "length (name_field n) = 32"
  by (simp add: name_field_def padded_def)

lemma ent_ok_new:
  assumes "save_ok s"
  shows "ent_ok (root_ent s d)" "e \<in> set (dir_ents v s slot firsts) \<Longrightarrow> ent_ok e"
proof -
  show "ent_ok (root_ent s d)" using assms by (simp add: ent_ok_def root_ent_def blank_ent_def save_ok_def)
  have "ent_ok (file_ent g c)" if "g \<in> set (s_files s)" for g c
    using assms that by (simp add: ent_ok_def file_ent_def blank_ent_def save_ok_def file_ok_def)
  then have m: "\<forall>e \<in> set (map2 file_ent (s_files s) firsts). ent_ok e" using set_zip_leftD by fastforce
  have "ent_ok (blank_ent\<lparr>e_mode := MODE_DIR, e_created := s_created s, e_modified := s_modified s, e_cluster := v_root v,
      e_dirEntry := of_nat slot, e_name := name_field (map of_char ''.'')\<rparr>)"
    "ent_ok (blank_ent\<lparr>e_mode := MODE_UP, e_created := s_created s, e_modified := s_modified s, e_name := name_field (map of_char ''..'')\<rparr>)"
    using assms by (simp_all add: ent_ok_def blank_ent_def save_ok_def)
  then show "e \<in> set (dir_ents v s slot firsts) \<Longrightarrow> ent_ok e"
    unfolding dir_ents_def set_append list.set using m by blast
qed

lemma length_ents: "(\<And>e. e \<in> set es \<Longrightarrow> ent_ok e) \<Longrightarrow> length (concat (map ent_bytes es)) = 512 * length es"
  by (induction es) (simp_all add: length_ent_bytes)

lemma clusters_for_pages:
  assumes "firm v"
  shows "clusters_for v (512 * m) = (m + v_ppc v - 1) div v_ppc v"
proof -
  have p: "0 < v_ppc v" using assms by (simp add: firm_def)
  then have "512 * m + csize v - 1 = (m + v_ppc v - 1) * 512 + 511" by (cases "v_ppc v") (simp_all add: csize_def)
  then have "clusters_for v (512 * m) = ((m + v_ppc v - 1) * 512 + 511) div 512 div v_ppc v"
    by (simp add: clusters_for_def csize_def div_mult2_eq)
  also have "((m + v_ppc v - 1) * 512 + 511) div 512 = m + v_ppc v - 1" by (simp add: div_mult_self3)
  finally show ?thesis .
qed

section \<open>The folder\<close>

lemma write_dir_spec:
  assumes "firm v" "save_ok s" "length firsts = length (s_files s)" "write_dir mem v hint s slot firsts = (w, h, r)"
  shows "apart v w" "r = Inr first \<Longrightarrow>
    \<exists>xs. stored 0 w (concat (map ent_bytes (dir_ents v s slot firsts))) first xs \<and> xs \<noteq> [] \<and> (\<forall>x \<in> set xs. \<not> used v x \<and> used w x)"
proof -
  let ?n = "(2 + length (s_files s) + v_ppc v - 1) div v_ppc v"
  let ?d = "concat (map ent_bytes (dir_ents v s slot firsts))"
  have len: "length ?d = 512 * (2 + length (s_files s))"
    using length_ents [of "dir_ents v s slot firsts"] ent_ok_new(2) [OF assms(2)] assms(3) by (simp add: dir_ents_def)
  have n: "?n = clusters_for v (length ?d)" unfolding len clusters_for_pages [OF assms(1)] ..
  have "clusters_for v (length ?d) \<noteq> 0" unfolding clusters_for_0 [OF assms(1)] len by simp
  then have n0: "0 < ?n" unfolding n by simp
  obtain v1 h1 c where a: "vsAllocChain v ?n hint = (v1, h1, c)" by (cases "vsAllocChain v ?n hint") auto
  note wd = assms(4) [unfolded write_dir_def Let_def a prod.case]
  have a1: "apart v v1" by (rule alloc_spec(1) [OF assms(1) a])
  have root: "v_root v1 = v_root v" by (rule apart_geo(6) [OF a1])
  then have d1: "dir_ents v1 s slot firsts = dir_ents v s slot firsts" by (simp add: dir_ents_def)
  have "apart v w \<and> (r = Inr first \<longrightarrow>
    (\<exists>xs. stored 0 w ?d first xs \<and> xs \<noteq> [] \<and> (\<forall>x \<in> set xs. \<not> used v x \<and> used w x)))"
  proof (cases "mem (?n * csize v1) \<and> c \<noteq> FAT_END")
    case False
    then have "w = v1" "\<exists>e. r = Inl e" using wd by (auto split: if_splits)
    then show ?thesis using a1 by auto
  next
    case True
    obtain v2 ok where w: "write_chain v1 c (cluster_data v1 0 ?n ?d) = (v2, ok)" by (cases "write_chain v1 c (cluster_data v1 0 ?n ?d)")
    have e: "w = v2" "r = (if ok then Inr c else Inl VMCSAVES_ERR_WRITE)"
      using wd [unfolded d1 w prod.case] True by auto
    have ne: "c \<noteq> FAT_END" using True by blast
    note nc = new_chain [OF assms(1) a ne n0 n w]
    show ?thesis using nc e by (cases ok) auto
  qed
  then show "apart v w" "r = Inr first \<Longrightarrow>
    \<exists>xs. stored 0 w ?d first xs \<and> xs \<noteq> [] \<and> (\<forall>x \<in> set xs. \<not> used v x \<and> used w x)" by blast+
qed

section \<open>The end of the root\<close>

lemma last_steps_chain:
  assumes "firm v" "is_chain v c xs" "xs \<noteq> []" "vsNext v (last xs) = FAT_END" "length xs \<le> k"
  shows "last_steps k v c = last xs"
  using assms(2-5)
proof (induction xs arbitrary: c k)
  case (Cons x xs)
  then obtain k' where k: "k = Suc k'" by (cases k) auto
  have x: "x = c" "is_chain v (vsNext v c) xs" using Cons.prems by auto
  show ?case
  proof (cases xs)
    case Nil
    then show ?thesis using Cons.prems x k by simp
  next
    case ys: (Cons y ys)
    then have "vsNext v c < v_allocEnd v" using x(2) by simp
    then have n: "vsNext v c \<noteq> FAT_END" by (rule end_not_cluster [OF assms(1)])
    have "xs \<noteq> []" "last (x # xs) = last xs" using ys by simp_all
    then have "last_steps k' v (vsNext v c) = last xs" using Cons.prems k by (intro Cons.IH [OF x(2)]) simp_all
    then show ?thesis using n k \<open>last (x # xs) = last xs\<close> by simp
  qed
qed simp

lemma write_chain_one: "write_chain v c [b] = vsIo_write v (v_alloc v + c) b"
  by (simp split: prod.splits bool.splits)

lemma grow_root_spec:
  assumes "firm v" "is_chain v (v_root v) xs" "distinct xs" "xs \<noteq> []" "vsNext v (last xs) = FAT_END" "grow_root v hint = (w, r)"
  shows "\<exists>t. apart v t \<and> (w = t \<and> (\<exists>e. r = Inl e) \<or> (\<exists>add. add < v_allocEnd v \<and> \<not> used v add
    \<and> is_chain t add [add] \<and> used t add \<and> w = vsSetFat t (last xs) (FAT_USED OR add) \<and> r = Inr ()))"
proof -
  have "length xs \<le> unat (v_allocEnd v)"
    using distinct_clusters_length [OF assms(3), of "v_allocEnd v"] is_chain_clusters [OF assms(2)] by blast
  then have lst: "last_steps (unat (v_allocEnd v)) v (v_root v) = last xs" by (rule last_steps_chain [OF assms(1,2,4,5)])
  obtain v1 h add where a: "vsAllocChain v 1 hint = (v1, h, add)" by (cases "vsAllocChain v 1 hint") auto
  have a1: "apart v v1" by (rule alloc_spec(1) [OF assms(1) a])
  show ?thesis
  proof (cases "add = FAT_END")
    case True
    then show ?thesis using assms(6) a a1 by (auto simp: grow_root_def Let_def)
  next
    case False
    obtain ys where ys: "length ys = 1" "distinct ys" "is_chain v1 add ys" "\<forall>y \<in> set ys. \<not> used v y \<and> used v1 y"
      using alloc_spec(3) [OF assms(1) a False] by auto
    then have y: "ys = [add]" "add < v_allocEnd v1" "\<not> used v add" "used v1 add" by (cases ys; auto)+
    obtain v2 ok where w: "vsIo_write v1 (v_alloc v1 + add) (replicate (csize v1) 0) = (v2, ok)"
      by (cases "vsIo_write v1 (v_alloc v1 + add) (replicate (csize v1) 0)")
    note g = apart_geo [OF a1]
    have nu: "\<forall>x \<in> set ys. \<not> used v x" using ys(4) by blast
    have wa: "apart v v2" "v_fat v2 = v_fat v1"
      using write_chain_apart(1,2) [OF a1 assms(1) ys(3,2) nu, of "[replicate (csize v1) 0]" v2 ok] w y(1) g(3)
      unfolding write_chain_one by auto
    have "w = (if ok then vsSetFat v2 (last xs) (FAT_USED OR add) else v2)" "r = (if ok then Inr () else Inl VMCSAVES_ERR_WRITE)"
      using assms(6) a False w lst by (auto simp: grow_root_def Let_def)
    moreover have "is_chain v2 add [add]" "used v2 add" "add < v_allocEnd v"
      using same_table(3,6) [of v2 v1] wa(2) ys(3) y apart_geo(4) [OF wa(1)] g(4) by simp_all
    ultimately show ?thesis using wa(1) y(3) by (intro exI [of _ v2]) auto
  qed
qed

section \<open>Up to the flush\<close>

text \<open>The chains of the save: nothing used before, each with its data.\<close>

definition built :: "vs_vmc \<Rightarrow> vs_vmc \<Rightarrow> vs_save \<Rightarrow> nat \<Rightarrow> 32 word list \<Rightarrow> 32 word \<Rightarrow> 32 word list list \<Rightarrow> 32 word list \<Rightarrow> bool" where
  "built v t s slot firsts dirFirst xss ys \<longleftrightarrow>
     length firsts = length (s_files s) \<and> length xss = length (s_files s) \<and> distinct (concat xss @ ys)
     \<and> (\<forall>x \<in> set (concat xss @ ys). \<not> used v x \<and> used t x)
     \<and> (\<forall>k < length (s_files s). stored 0xFF t (f_data (s_files s ! k)) (firsts ! k) (xss ! k))
     \<and> ys \<noteq> [] \<and> stored 0 t (concat (map ent_bytes (dir_ents v s slot firsts))) dirFirst ys"

lemma stored_clusters: "stored b v d first xs \<Longrightarrow> x \<in> set xs \<Longrightarrow> x < v_allocEnd v"
  using is_chain_clusters by (auto simp: stored_def split: if_splits)

lemma built_clusters:
  assumes "built v t s slot firsts d xss ys" "x \<in> set (concat xss @ ys)"
  shows "x < v_allocEnd t"
proof (cases "x \<in> set ys")
  case True
  then show ?thesis using assms(1) stored_clusters unfolding built_def by blast
next
  case False
  then obtain xs where "xs \<in> set xss" "x \<in> set xs" using assms(2) by auto
  then obtain k where "k < length (s_files s)" "x \<in> set (xss ! k)" using assms(1) by (metis built_def in_set_conv_nth)
  then show ?thesis using assms(1) stored_clusters unfolding built_def by blast
qed

lemma built_apart:
  assumes b: "built v t s slot firsts d xss ys" and a: "apart t u" "firm t"
  shows "built v u s slot firsts d xss ys"
proof -
  have u: "used u x" if "x \<in> set (concat xss @ ys)" for x
    using apart_used [OF a(1) built_clusters [OF b that]] b that unfolding built_def by blast
  have us: "\<forall>x \<in> set (xss ! k). used t x" if "k < length (s_files s)" for k
  proof -
    have "xss ! k \<in> set xss" using b that by (simp add: built_def)
    then have "x \<in> set (concat xss @ ys)" if "x \<in> set (xss ! k)" for x using that by auto
    then show ?thesis using b unfolding built_def by blast
  qed
  have "stored 0xFF u (f_data (s_files s ! k)) (firsts ! k) (xss ! k)" if "k < length (s_files s)" for k
    using stored_apart [OF a _ us [OF that]] b that unfolding built_def by blast
  moreover have "stored 0 u (concat (map ent_bytes (dir_ents v s slot firsts))) d ys"
    using stored_apart [OF a] b unfolding built_def by (metis Un_iff set_append)
  ultimately show ?thesis using b u unfolding built_def by blast
qed

lemma build:
  assumes v: "firm v" "save_ok s" and wf: "write_files v 0 (s_files s) = (v1, h1, Inr firsts)"
    and wd: "write_dir mem v1 h1 s slot firsts = (v2, h2, Inr dirFirst)"
  shows "apart v v2" "\<exists>xss ys. built v v2 s slot firsts dirFirst xss ys"
proof -
  note w = write_files_spec [OF v(1) wf]
  have f1: "firm v1" by (rule apart_firm [OF w(1) v(1)])
  obtain xss where x: "length firsts = length (s_files s)" "length xss = length (s_files s)" "distinct (concat xss)"
    "\<forall>x \<in> set (concat xss). \<not> used v x \<and> used v1 x"
    "\<forall>k < length (s_files s). stored 0xFF v1 (f_data (s_files s ! k)) (firsts ! k) (xss ! k)"
    using w(2) [OF refl] by blast
  note d = write_dir_spec [OF f1 v(2) x(1) wd]
  show a: "apart v v2" by (rule apart_trans [OF w(1) d(1)])
  have de: "dir_ents v1 s slot firsts = dir_ents v s slot firsts" using apart_geo(6) [OF w(1)] by (simp add: dir_ents_def)
  obtain ys where y: "stored 0 v2 (concat (map ent_bytes (dir_ents v s slot firsts))) dirFirst ys" "ys \<noteq> []"
    "\<forall>x \<in> set ys. \<not> used v1 x \<and> used v2 x" using d(2) [OF refl] unfolding de by blast
  have dy: "distinct ys" using y(1,2) by (simp add: stored_def)
  have nu: "\<not> used v x" if "x \<in> set ys" for x
    using apart_used [OF w(1), of x] y(3) that stored_clusters [OF y(1) that] apart_geo(4) [OF a] by metis
  have lt: "x < v_allocEnd v1" if xc: "x \<in> set (concat xss)" for x
  proof -
    obtain xs where "xs \<in> set xss" "x \<in> set xs" using xc by auto
    then obtain k where "k < length (s_files s)" "x \<in> set (xss ! k)" using x(2) by (metis in_set_conv_nth)
    then show ?thesis using stored_clusters x(5) by blast
  qed
  have us: "\<forall>x \<in> set (xss ! k). used v1 x" if "k < length (s_files s)" for k
    using x(2,4) that nth_mem [of k xss] by auto
  have "stored 0xFF v2 (f_data (s_files s ! k)) (firsts ! k) (xss ! k)" if "k < length (s_files s)" for k
    using stored_apart [OF d(1) f1 _ us [OF that]] x(5) that by blast
  moreover have "distinct (concat xss @ ys)" using x(3,4) dy y(3) by auto
  moreover have "\<forall>x \<in> set (concat xss @ ys). \<not> used v x \<and> used v2 x"
    using x(4) y(3) nu apart_used [OF d(1) lt] unfolding set_append by blast
  ultimately have "built v v2 s slot firsts dirFirst xss ys" using x(1,2) y(1,2) unfolding built_def by blast
  then show "\<exists>xss ys. built v v2 s slot firsts dirFirst xss ys" by blast
qed

text \<open>The table is ready to be written: \<open>t\<close> is apart from the card, and the root may have grown.\<close>

definition grown :: "vs_vmc \<Rightarrow> vs_vmc \<Rightarrow> 32 word \<Rightarrow> bool \<Rightarrow> vs_vmc \<Rightarrow> bool" where
  "grown v t lst grow w \<longleftrightarrow>
     (if grow then \<exists>add. add < v_allocEnd v \<and> \<not> used v add \<and> used t add \<and> is_chain t add [add] \<and> w = vsSetFat t lst (FAT_USED OR add)
      else w = t)"

lemma root_chain_opened:
  assumes "consistent f" "vsOpen mem (Some f) True = Inr v"
  defines "rc \<equiv> chain_of v (v_root v)"
  shows "chain_of (at_file v f) (v_root v) = rc" "is_chain v (v_root v) rc" "distinct rc" "rc \<noteq> []" "rc ! 0 = v_root v"
    "vsNext v (last rc) = FAT_END" "c \<in> set rc \<Longrightarrow> used v c" "c \<in> set rc \<Longrightarrow> c < v_allocEnd v"
    "dirlen (at_file v f) \<le> length rc * v_ppc v" "length rc \<le> unat (v_allocEnd v)"
proof -
  note o = vsOpen_write [OF assms(1,2)]
  note s = same_table [of "at_file v f" v, OF _ o(2)]
  note r = card_ok_root [OF o(3)]
  show e: "chain_of (at_file v f) (v_root v) = rc" unfolding rc_def using s(2) by simp
  show c: "is_chain v (v_root v) rc" "distinct rc" "rc \<noteq> []" "rc ! 0 = v_root v" using r s(6) e by simp_all
  have ok: "card_ok (at_file v f)" by (rule o(3))
  show "vsNext v (last rc) = FAT_END" "dirlen (at_file v f) \<le> length rc * v_ppc v" "c \<in> set rc \<Longrightarrow> used v c"
    using ok s(1,3) e by (auto simp: card_ok_def claimed_def)
  show "c \<in> set rc \<Longrightarrow> c < v_allocEnd v" for c using is_chain_clusters [OF c(1)] by blast
  then show "length rc \<le> unat (v_allocEnd v)" by (rule distinct_clusters_length [OF c(2)])
qed

lemma walk_on_Suc: "walk_on v c (Suc n) = (if walk_on v c n = FAT_END then FAT_END else vsNext v (walk_on v c n))"
proof (induction n arbitrary: c)
  case (Suc n)
  show ?case
  proof (cases "c = FAT_END")
    case False
    then show ?thesis using Suc [of "vsNext v c"] by simp
  qed simp
qed simp

text \<open>Where the entries of the root are once it has grown.\<close>

lemma grown_after:
  assumes o: "consistent f" "vsOpen mem (Some f) True = Inr v" and t2: "apart v v2" "apart v2 t"
  defines "rc \<equiv> chain_of v (v_root v)"
  assumes g: "grown v2 t (last rc) grow w"
  shows "firm w" "geo w = geo v" "v_file w = v_file t" "c < v_allocEnd v \<Longrightarrow> c \<noteq> last rc \<Longrightarrow> v_fat w ! unat c = v_fat t ! unat c"
    "n < length rc \<Longrightarrow> vsWalk w (v_root v) n = rc ! n"
    "grow \<Longrightarrow> vsWalk w (v_root v) (length rc) < v_allocEnd v \<and> \<not> used v2 (vsWalk w (v_root v) (length rc))"
    "v_fat w ! unat c \<noteq> v_fat v ! unat c \<Longrightarrow> c < v_allocEnd v \<Longrightarrow> v_fatDirty w ! (unat c div epc v) \<or> v_fatDirty v ! (unat c div epc v)"
proof -
  note r = root_chain_opened [OF o, folded rc_def]
  have fv: "firm v" by (rule vsOpen_write(4) [OF o])
  have t: "apart v t" by (rule apart_trans [OF t2])
  have ft: "firm t" by (rule apart_firm [OF t fv])
  note gt = apart_geo [OF t]
  have lst: "last rc < v_allocEnd v" "last rc < v_allocEnd t" using r(4,8) gt(4) by simp_all
  obtain add where w: "w = t \<and> \<not> grow \<or> grow \<and> add < v_allocEnd v \<and> \<not> used v2 add \<and> w = vsSetFat t (last rc) (FAT_USED OR add)"
    using g apart_geo(4) [OF t2(1)] by (auto simp: grown_def split: if_splits)
  then show fw: "firm w" and gw: "geo w = geo v" and "v_file w = v_file t" using ft gt(1) by auto
  show fat: "c < v_allocEnd v \<Longrightarrow> c \<noteq> last rc \<Longrightarrow> v_fat w ! unat c = v_fat t ! unat c" for c
    using w set_fat_nth [OF ft lst(2)] by auto
  have ae: "v_allocEnd w = v_allocEnd v" using gw by (simp add: geo_eq)
  have "v_fat w ! unat x = v_fat v ! unat x" if x: "x \<in> set (butlast rc)" for x
  proof -
    have m: "x \<in> set rc" "x \<noteq> last rc"
      using x r(3) by (auto dest: in_set_butlastD) (metis append_butlast_last_id distinct_append disjoint_insert(1) list.simps(15) r(4) Int_commute inf.commute)
    then show ?thesis using fat [of x] r(7,8) t unfolding apart_def by auto
  qed
  then have walk: "walk_on w (v_root v) n = rc ! n" if "n < length rc" for n
    using walk_prefix [OF r(2) fv ae _ that] by blast
  show "vsWalk w (v_root v) n = rc ! n" if "n < length rc" for n
    using walk [OF that] that r(10) by (simp add: vsWalk_def ae)
  show "vsWalk w (v_root v) (length rc) < v_allocEnd v \<and> \<not> used v2 (vsWalk w (v_root v) (length rc))" if g: "grow"
  proof -
    have a: "add < v_allocEnd v" "\<not> used v2 add" "w = vsSetFat t (last rc) (FAT_USED OR add)" using w g by auto
    have "v_fat w ! unat (last rc) = FAT_USED OR add" using set_fat_nth [OF ft lst(2)] a(3) by simp
    then have n: "vsNext w (last rc) = add" by (intro next_used [OF fw]) (use lst a ae in simp_all)
    obtain m where m: "length rc = Suc m" using r(4) by (cases rc) auto
    have "walk_on w (v_root v) m = last rc" using walk [of m] m r(4) by (simp add: last_conv_nth)
    then have "walk_on w (v_root v) (length rc) = add" using end_not_cluster [OF fv lst(1)] n m by (simp add: walk_on_Suc del: walk_on.simps)
    then show ?thesis using a(1,2) r(10) by (simp add: vsWalk_def ae)
  qed
  show "v_fatDirty w ! (unat c div epc v) \<or> v_fatDirty v ! (unat c div epc v)" if "v_fat w ! unat c \<noteq> v_fat v ! unat c" "c < v_allocEnd v" for c
  proof (cases "c = last rc \<and> grow")
    case True
    then show ?thesis using w set_fat_dirty [OF ft lst(2)] gt(7) by auto
  next
    case False
    then have e: "v_fat t ! unat c \<noteq> v_fat v ! unat c" using that fat [of c] w by auto
    then have "v_fatDirty t ! (unat c div epc v)" using t that(2) unfolding apart_def by blast
    then show ?thesis using w set_fat_dirty [OF ft lst(2)] by auto
  qed
qed

lemmas grown_root = grown_after [OF _ _ apart_refl]

lemma grown_mono: "apart v v2 \<Longrightarrow> grown v2 t lst grow w \<Longrightarrow> grown v t lst grow w"
  using apart_used [of v v2] apart_geo(4) [of v v2] unfolding grown_def by metis

section \<open>The entry appears\<close>

definition slot_ok :: "vs_vmc \<Rightarrow> vs_ent \<Rightarrow> nat \<Rightarrow> bool \<Rightarrow> bool" where
  "slot_ok u dot slot grow \<longleftrightarrow> dirlen u = vsDirLen (e_length dot) \<and> ent_ok dot \<and> slot < DIR_MAX
     \<and> (2 \<le> slot \<and> slot < dirlen u \<and> slot < unat (e_length dot) \<and> \<not> grow
          \<and> (\<exists>e. vsEnt u (v_root u) slot = Some e \<and> \<not> has_mode e MC_EXISTS)
        \<or> slot = unat (e_length dot) \<and> slot = dirlen u \<and> grow = (slot mod v_ppc u = 0))"

lemma root_slot_ok:
  assumes o: "consistent f" "vsOpen mem (Some f) True = Inr v"
    and d: "vsEnt v (v_root v) 0 = Some dot" "root_slot v dot = Some (slot, grow)"
  shows "slot_ok (at_file v f) dot slot grow"
proof -
  let ?u = "at_file v f"
  have d0: "vsEnt ?u (v_root ?u) 0 = Some dot" using opened_entry [OF o d(1)] by simp
  then have l: "dirlen ?u = vsDirLen (e_length dot)" by (simp add: dirlen_def)
  have e: "ent_ok dot" using vsEnt_firm(2) [OF vsOpen_write(4) [OF o] d(1)] ent_of_ok by simp
  show ?thesis
  proof (cases "first_some (free_slot v) [2..<vsDirLen (e_length dot)]")
    case None
    then show ?thesis using d(2) l e by (auto simp: root_slot_def slot_ok_def vsDirLen_def split: if_splits)
  next
    case (Some i)
    then have i: "slot = i" "\<not> grow" using d(2) by (simp_all add: root_slot_def)
    obtain k where k: "k \<in> set [2..<vsDirLen (e_length dot)]" "free_slot v k = Some i" using first_some_in [OF Some] by blast
    then obtain g where g: "k = i" "vsEnt v (v_root v) i = Some g" "\<not> has_mode g MC_EXISTS"
      by (auto simp: free_slot_def split: option.splits if_splits)
    then have "vsEnt ?u (v_root ?u) i = Some g" using opened_entry [OF o g(2)] by simp
    then show ?thesis using i g k(1) l e by (auto simp: slot_ok_def vsDirLen_def split: if_splits)
  qed
qed

text \<open>What the pages of the root may become.\<close>

definition new_pages :: "vs_vmc \<Rightarrow> vs_save \<Rightarrow> vs_ent \<Rightarrow> nat \<Rightarrow> nat \<Rightarrow> bytes \<Rightarrow> bool" where
  "new_pages u s dot slot p b \<longleftrightarrow>
     p = root_page u slot \<and> slot < length (chain_of u (v_root u)) * v_ppc u \<and> (\<exists>d. b = ent_bytes (root_ent s d))
     \<or> p = root_page u 0 \<and> slot = dirlen u \<and> b = ent_bytes (dot\<lparr>e_length := of_nat (slot + 1)\<rparr>)"

text \<open>Where the entry goes, in the card as it was or behind its end.\<close>

lemma slot_place:
  assumes o: "consistent f" "vsOpen mem (Some f) True = Inr v" and t: "apart v t"
  defines "u \<equiv> at_file v f" and "rc \<equiv> chain_of v (v_root v)"
  assumes g: "grown v t (last rc) grow w" and s: "slot_ok u dot slot grow"
    and c: "vsWalk w (v_root v) (slot div v_ppc v) = c" "c < v_allocEnd v" "used v c"
  shows "slot < length rc * v_ppc v" "dpage v c (slot mod v_ppc v) = root_page u slot"
proof -
  note r = root_chain_opened [OF o, folded rc_def u_def]
  note gr = grown_root [OF o t, folded rc_def, OF g]
  have p: "0 < v_ppc v" using vsOpen_write(4) [OF o] by (simp add: firm_def)
  show lt: "slot < length rc * v_ppc v"
  proof (rule ccontr)
    assume n: "\<not> slot < length rc * v_ppc v"
    then have e: "slot = length rc * v_ppc v" "slot = dirlen u" using s r(9) by (auto simp: slot_ok_def)
    have "slot div v_ppc v = length rc" using e(1) p by simp
    moreover have "grow" using e s by (auto simp: slot_ok_def u_def)
    ultimately have "grow" "slot div v_ppc v = length rc" by simp_all
    then show False using gr(6) c by simp
  qed
  then have "slot div v_ppc v < length rc" using p by (simp add: div_less_iff_less_mult)
  then have "c = rc ! (slot div v_ppc v)" using gr(5) c(1) by simp
  then show "dpage v c (slot mod v_ppc v) = root_page u slot"
    using geo_dpage [of u v] r(1) by (simp add: root_page_def u_def)
qed

lemma appear_keeps:
  assumes o: "consistent f" "vsOpen mem (Some f) True = Inr v" and t: "apart v t"
  defines "u \<equiv> at_file v f" and "rc \<equiv> chain_of v (v_root v)"
  assumes g: "grown v t (last rc) grow w" and s: "slot_ok u dot slot grow" "save_ok sv"
    and x: "geo x = geo v" "firm x" "v_fat x = v_fat w" "keeps v {last rc} (new_pages u sv dot slot) (v_file x)"
    and a: "appear x sv slot dot d = (y, res)"
  shows "keeps v {last rc} (new_pages u sv dot slot) (v_file y)"
proof -
  note r = root_chain_opened [OF o, folded rc_def u_def]
  note gr = grown_root [OF o t, folded rc_def, OF g]
  have fv: "firm v" by (rule vsOpen_write(4) [OF o])
  have m: "meta_safe v (vimg v)" using vsOpen_write(1,6) [OF o] by simp
  have xw: "vsWalk x = vsWalk w" "v_root x = v_root v" using same_table(5) [of x w] x(1,3) gr(2) by (simp_all add: geo_eq)
  obtain x1 ok where p: "vsEnt_put x (v_root x) slot (root_ent sv d) = (x1, ok)" by (cases "vsEnt_put x (v_root x) slot (root_ent sv d)")
  note e1 = ent_put_effect [OF x(2) ent_ok_new(1) [OF s(2)] p]
  have k1: "keeps v {last rc} (new_pages u sv dot slot) (v_file x1)"
  proof (rule keeps_entry [OF x(4,2,1) fv m ent_ok_new(1) [OF s(2)] p])
    fix c assume c: "c = vsWalk x (v_root x) (slot div v_ppc v)" "c < v_allocEnd v" "used v c"
    have "vsWalk w (v_root v) (slot div v_ppc v) = c" using c(1) xw by simp
    then have "slot < length rc * v_ppc v" "dpage v c (slot mod v_ppc v) = root_page u slot"
      using slot_place [OF o t, folded u_def rc_def, OF g s(1) _ c(2,3)] by blast+
    then show "new_pages u sv dot slot (dpage v c (slot mod v_ppc v)) (ent_bytes (root_ent sv d))"
      unfolding new_pages_def using r(1) by (auto simp: u_def)
  qed
  show ?thesis
  proof (cases "ok \<and> slot \<ge> unat (e_length dot)")
    case False
    then show ?thesis using a p k1 by (auto simp: appear_def)
  next
    case True
    let ?dot = "dot\<lparr>e_length := of_nat (slot + 1)\<rparr>"
    have sl: "slot = dirlen u" using s(1) True by (auto simp: slot_ok_def)
    have y: "v_file y = v_file (fst (vsEnt_put x1 (v_root x1) 0 ?dot))" using a p True by (auto simp: appear_def split: prod.splits)
    obtain x2 ok2 where p2: "vsEnt_put x1 (v_root x1) 0 ?dot = (x2, ok2)" by (cases "vsEnt_put x1 (v_root x1) 0 ?dot")
    have x1: "geo x1 = geo v" "v_fat x1 = v_fat w" using e1 x by simp_all
    have f1: "firm x1" by (rule firm_geo [OF x(2)]) (use e1 changed_size(1) in auto)
    have d: "ent_ok ?dot" using s(1) by (simp add: slot_ok_def ent_ok_def)
    have "keeps v {last rc} (new_pages u sv dot slot) (v_file x2)"
    proof (rule keeps_entry [OF k1 f1 x1(1) fv m d p2])
      fix c assume c: "c = vsWalk x1 (v_root x1) (0 div v_ppc v)" "c < v_allocEnd v" "used v c"
      have w1: "vsWalk x1 = vsWalk w" using same_table(5) [of x1 w] x1 gr(2) by (simp add: geo_eq)
      have "v_root x1 = v_root v" using x1(1) by (simp add: geo_eq)
      then have "c = rc ! 0" using c(1) w1 gr(5) [of 0] r(4) by simp
      then have "dpage v c (0 mod v_ppc v) = root_page u 0" using geo_dpage [of u v] r(1) by (simp add: root_page_def u_def)
      then show "new_pages u sv dot slot (dpage v c (0 mod v_ppc v)) (ent_bytes ?dot)" unfolding new_pages_def using sl by simp
    qed
    then show ?thesis using y p2 by simp
  qed
qed

section \<open>The whole of it\<close>

lemma grown_keeps:
  assumes o: "consistent f" "vsOpen mem (Some f) True = Inr v" and t: "apart v t"
  defines "rc \<equiv> chain_of v (v_root v)"
  assumes g: "grown v t (last rc) grow w" and fl: "vsFlushFat w = (x, ok)"
  shows "keeps v {last rc} X (v_file w)" "keeps v {last rc} X (v_file x)"
proof -
  note gr = grown_root [OF o t, folded rc_def, OF g]
  note op = vsOpen_write [OF o]
  have m: "meta_safe v (vimg v)" using op(1,6) by simp
  show k: "keeps v {last rc} X (v_file w)" unfolding gr(3) by (rule apart_keeps [OF t op(4) m])
  show "keeps v {last rc} X (v_file x)"
  proof (rule keeps_flush [OF k gr(1,2) op(4) m _ fl])
    fix c assume c: "c < v_allocEnd v" "used v c" "c \<notin> {last rc}"
    have "v_fat w ! unat c = v_fat v ! unat c" using gr(4) [OF c(1)] c t unfolding apart_def by simp
    moreover have "v_fat (at_file v f) ! unat c = disk_fat v (cf_at f) (unat c)"
      using cluster_in_table [OF op(4) c(1)] by (simp add: at_file_def)
    ultimately show "v_fat w ! unat c = disk_fat v (vimg v) (unat c)" using op(1,2) by simp
  qed
qed

lemma flush_dirty_length: "length (v_fatDirty (fst (vsFlushFat v))) = length (v_fatDirty v)"
proof -
  have "length (v_fatDirty (fst (flush_one k st))) = length (v_fatDirty (fst st))" for k st
    by (cases st) (auto simp: flush_one_def vsIo_write_def split: prod.splits)
  then have "length (v_fatDirty (fst (fold flush_one ks st))) = length (v_fatDirty (fst st))" for ks st
    by (induction ks arbitrary: st) simp_all
  from this [of "[0..<fat_clusters v]" "(v, True)"] show ?thesis by (simp add: vsFlushFat_def)
qed

lemma grow_step:
  assumes o: "consistent f" "vsOpen mem (Some f) True = Inr v" and t: "apart v t"
  defines "rc \<equiv> chain_of v (v_root v)"
  assumes g: "(if grow then grow_root t h else (t, Inr ())) = (w, r)"
  shows "\<exists>t'. apart t t' \<and> apart v t' \<and> (if r = Inr () then grown t t' (last rc) grow w else w = t')"
proof (cases grow)
  case False
  then show ?thesis using g t by (intro exI [of _ t]) (auto simp: grown_def)
next
  case True
  note r = root_chain_opened [OF o, folded rc_def]
  note gt = apart_geo [OF t]
  have ft: "firm t" by (rule apart_firm [OF t vsOpen_write(4) [OF o]])
  have "is_chain t (v_root t) rc" unfolding gt(6) by (rule apart_chain [OF t r(2)]) (rule r(7))
  moreover have "vsNext t (last rc) = FAT_END"
    using r(4,6) r(7) [of "last rc"] r(8) [of "last rc"] vsNext_cong [OF gt(4), of "last rc"] t unfolding apart_def by simp
  ultimately obtain t' where s: "apart t t'"
    "w = t' \<and> (\<exists>e. r = Inl e) \<or> (\<exists>add. add < v_allocEnd t \<and> \<not> used t add
      \<and> is_chain t' add [add] \<and> used t' add \<and> w = vsSetFat t' (last rc) (FAT_USED OR add) \<and> r = Inr ())"
    using grow_root_spec [OF ft _ r(3,4), of h w r] g True by auto
  show ?thesis using s apart_trans [OF t s(1)] gt(4) True by (intro exI [of _ t']) (auto simp: grown_def)
qed

lemma write_new_keeps:
  assumes o: "consistent f" "vsOpen mem (Some f) True = Inr v"
  defines "u \<equiv> at_file v f" and "rc \<equiv> chain_of v (v_root v)"
  assumes s: "slot_ok u dot slot grow" "save_ok sv" and w: "write_new mem' v sv dot slot grow = (w, r)"
  shows "keeps v {last rc} (new_pages u sv dot slot) (v_file w)"
proof -
  note op = vsOpen_write [OF o]
  have m: "meta_safe v (vimg v)" using op(1,6) by simp
  note ak = apart_keeps [OF _ op(4) m]
  obtain v1 h1 r1 where wf: "write_files v 0 (s_files sv) = (v1, h1, r1)" by (cases "write_files v 0 (s_files sv)") auto
  note a1 = write_files_spec(1) [OF op(4) wf]
  show ?thesis
  proof (cases r1)
    case (Inl e)
    then show ?thesis using w wf ak [OF a1] by (simp add: write_new_def)
  next
    case (Inr firsts)
    note wf = wf [unfolded Inr]
    obtain v2 h2 r2 where wd: "write_dir mem' v1 h1 sv slot firsts = (v2, h2, r2)" by (cases "write_dir mem' v1 h1 sv slot firsts") auto
    have "length firsts = length (s_files sv)" using write_files_spec(2) [OF op(4) wf refl] by blast
    then have a2: "apart v v2"
      using apart_trans [OF a1] write_dir_spec(1) [OF apart_firm [OF a1 op(4)] s(2) _ wd] by blast
    show ?thesis
    proof (cases r2)
      case (Inl e)
      then show ?thesis using w wf wd ak [OF a2] by (simp add: write_new_def)
    next
      case (Inr d)
      obtain v3 r3 where gw: "(if grow then grow_root v2 h2 else (v2, Inr ())) = (v3, r3)"
        by (cases "if grow then grow_root v2 h2 else (v2, Inr ())")
      obtain t where t: "apart v t" "if r3 = Inr () then grown v t (last rc) grow v3 else v3 = t"
        using grow_step [OF o a2 gw] grown_mono [OF a2] unfolding rc_def by metis
      show ?thesis
      proof (cases r3)
        case (Inl e)
        then show ?thesis using w wf wd Inr gw t ak [OF t(1)] by (simp add: write_new_def)
      next
        case r3: (Inr x)
        then have g: "grown v t (last rc) grow v3" using t(2) by simp
        obtain v4 ok where fl: "vsFlushFat v3 = (v4, ok)" by (cases "vsFlushFat v3")
        note gr = grown_root [OF o t(1), folded rc_def, OF g]
        note k4 = grown_keeps(2) [OF o t(1), folded rc_def, OF g fl]
        have d3: "distinct (v_fatAbs v3)" using m gr(2) by (simp add: meta_safe_def geo_eq)
        note fe = flush_effect(1-3) [OF gr(1) d3 fl]
        have len: "length (v_fatDirty v4) = length (v_fatDirty v3)" using flush_dirty_length fl by (metis fst_conv)
        show ?thesis
        proof (cases ok)
          case False
          then show ?thesis using w wf wd Inr gw r3 fl k4 by (simp add: write_new_def)
        next
          case True
          have f4: "firm v4" by (rule firm_geo [OF gr(1)]) (use fe len changed_size(1) in auto)
          have "appear v4 sv slot dot d = (w, r)" using w wf wd Inr gw r3 fl True by (simp add: write_new_def)
          then show ?thesis
            using appear_keeps [OF o t(1), folded rc_def u_def, OF g s _ f4 _ k4] fe gr(2) by simp
        qed
      qed
    qed
  qed
qed

end
