(* ===== verification/CardImported.thy ===== *)
theory CardImported
  imports CardImport
begin

text \<open>
  The other saves after an import, wherever the power was cut.
\<close>

lemma root_page_inject:
  assumes "card_ok u" "i < length (chain_of u (v_root u)) * v_ppc u" "j < length (chain_of u (v_root u)) * v_ppc u"
  shows "root_page u i = root_page u j \<longleftrightarrow> i = j"
proof
  assume e: "root_page u i = root_page u j"
  have p: "0 < v_ppc u" using assms(1) by (simp add: card_ok_def firm_def)
  have m: "i mod v_ppc u < v_ppc u" "j mod v_ppc u < v_ppc u" using p by simp_all
  have "chain_of u (v_root u) ! (i div v_ppc u) = chain_of u (v_root u) ! (j div v_ppc u)" "i mod v_ppc u = j mod v_ppc u"
    using e dpage_inject [OF m] by (simp_all add: root_page_def)
  moreover have "i div v_ppc u < length (chain_of u (v_root u))" "j div v_ppc u < length (chain_of u (v_root u))"
    using assms(2,3) p by (simp_all add: div_less_iff_less_mult)
  ultimately have "i div v_ppc u = j div v_ppc u" using card_ok_root(2) [OF assms(1)] nth_eq_iff_index_eq by blast
  then show "i = j" using \<open>i mod v_ppc u = j mod v_ppc u\<close> by (metis div_mult_mod_eq)
qed simp

lemma root_page_cluster:
  assumes "card_ok u" "i < length (chain_of u (v_root u)) * v_ppc u" "j < v_ppc u" "dpage u c j = root_page u i"
  shows "c \<in> set (chain_of u (v_root u))"
proof -
  have p: "0 < v_ppc u" using assms(1) by (simp add: card_ok_def firm_def)
  then have "i mod v_ppc u < v_ppc u" "i div v_ppc u < length (chain_of u (v_root u))"
    using assms(2) by (simp_all add: div_less_iff_less_mult)
  then show ?thesis using assms(4) dpage_inject [OF assms(3)] by (simp add: root_page_def)
qed

lemma name_of_new: "save_ok s \<Longrightarrow> vsNameIs (root_ent s d) name \<Longrightarrow> name = s_name s"
  by (simp add: vsNameIs_def root_ent_def c_str_name save_ok_def)

lemma last_not_butlast: "distinct xs \<Longrightarrow> last xs \<notin> set (butlast xs)"
  by (induction xs) auto

lemma vsDirLen_small: "n \<le> DIR_MAX \<Longrightarrow> vsDirLen (of_nat n) = n"
  by (simp add: vsDirLen_def unat_of_nat32)

lemma keeps_import_load:
  assumes o: "consistent f" "vsOpen mem (Some f) True = Inr v"
  defines "u \<equiv> at_file v f" and "rc \<equiv> chain_of v (v_root v)"
  assumes k: "keeps v {last rc} (new_pages u s dot slot) g" and s: "slot_ok u dot slot grow" "save_ok s" "name \<noteq> s_name s"
    and l: "load_later f name = Inr x"
  shows "load_later g name = Inr x"
proof -
  note op = vsOpen_write [OF o, folded u_def]
  note r = root_chain_opened [OF o, folded u_def rc_def]
  have uv: "v_root u = v_root v" "v_ppc u = v_ppc v" "dpage u = dpage v" using geo_dpage [of u v] by (simp_all add: u_def)
  have rc: "chain_of u (v_root u) = rc" using r(1) uv by simp
  have "vsOpen (\<lambda>_. True) (Some (sure_file f)) False = Inr u" unfolding u_def by (rule reopen [OF o(2) op(5) refl]) simp
  then obtain i0 e0 where f0: "vsFindSave u name = Some (i0, e0)"
    using l by (auto simp: load_later_def vsLoadVmc_def split: option.splits)
  have len: "3 \<le> dirlen u" using found_save(1,2) [OF f0] by simp
  have lt: "j < length (chain_of u (v_root u)) * v_ppc u" if "j < dirlen u" for j using that r(9) rc uv by simp
  have lt0: "0 < length (chain_of u (v_root u)) * v_ppc u" using lt [of 0] len by simp
  show ?thesis
  proof (rule keeps_load [OF o k l, folded u_def])
    show "{last rc} \<inter> set (butlast (chain_of u (v_root u))) = {}" unfolding rc using last_not_butlast [OF r(3)] by simp
  next
    fix i e c assume e: "vsFindSave u name = Some (i, e)" and c: "c \<in> set (save_claims u e)"
    have n: "c \<notin> set rc" using save_claims_used(3) [OF op(3) found_save(6) [OF e] c] rc by simp
    then have "c \<noteq> last rc" using r(4) by auto
    moreover have "\<not> new_pages u s dot slot (dpage v c j) b" if "j < v_ppc v" for j b
      using root_page_cluster [OF op(3) _ that [folded uv], of _ c] n lt0 rc uv by (metis new_pages_def)
    ultimately show "c \<notin> {last rc} \<and> (\<forall>j b. j < v_ppc v \<longrightarrow> \<not> new_pages u s dot slot (dpage v c j) b)" by simp
  next
    fix j b assume j: "2 \<le> j" "j < dirlen u" and x: "new_pages u s dot slot (root_page u j) b"
    have "root_page u j \<noteq> root_page u 0" using root_page_inject [OF op(3) lt [OF j(2)] lt0] j(1) by simp
    then obtain d where d: "root_page u j = root_page u slot" "slot < length (chain_of u (v_root u)) * v_ppc u" "b = ent_bytes (root_ent s d)"
      using x by (auto simp: new_pages_def)
    then have js: "j = slot" using root_page_inject [OF op(3) lt [OF j(2)] d(2)] by simp
    then obtain e where e: "vsEnt u (v_root u) j = Some e" "\<not> has_mode e MC_EXISTS" using s(1) j by (auto simp: slot_ok_def)
    have "ent_of b = root_ent s d" using d(3) ent_of_bytes [OF ent_ok_new(1) [OF s(2)]] by simp
    then have "\<not> vsNameIs (ent_of b) name" using name_of_new [OF s(2)] s(3) by metis
    then show "save_at u name j = None \<and> \<not> (shown (ent_of b) \<and> vsNameIs (ent_of b) name)"
      using e by (simp add: save_at_def)
  next
    fix b assume x: "new_pages u s dot slot (root_page u 0) b"
    have "2 \<le> slot" using s(1) len by (auto simp: slot_ok_def)
    then have "root_page u 0 \<noteq> root_page u slot \<or> \<not> slot < length (chain_of u (v_root u)) * v_ppc u"
      using root_page_inject [OF op(3) lt0, of slot] by auto
    then have b: "slot = dirlen u" "b = ent_bytes (dot\<lparr>e_length := of_nat (slot + 1)\<rparr>)" using x by (auto simp: new_pages_def)
    have "ent_ok (dot\<lparr>e_length := of_nat (slot + 1)\<rparr>)" using s(1) by (simp add: slot_ok_def ent_ok_def)
    then have "e_length (ent_of b) = of_nat (slot + 1)" unfolding b(2) by (simp add: ent_of_bytes)
    moreover have "slot + 1 \<le> DIR_MAX" using s(1) by (simp add: slot_ok_def)
    ultimately show "dirlen u \<le> vsDirLen (e_length (ent_of b))" using b(1) vsDirLen_small [of "slot + 1"] by simp
  qed
qed

lemma write_opened_cases:
  assumes o: "consistent f" "vsOpen mem (Some f) True = Inr v" and w: "write_opened mem v s = (w, r)" and s: "save_ok s"
  shows "w = v \<and> r \<noteq> Inr () \<or> (\<exists>dot slot grow. vsFindSave v (s_name s) = None \<and> vsEnt v (v_root v) 0 = Some dot
    \<and> slot_ok (at_file v f) dot slot grow \<and> write_new mem v s dot slot grow = (w, r))"
proof (cases "vsFindSave v (s_name s) \<noteq> None \<or> vsEnt v (v_root v) 0 = None")
  case True
  then show ?thesis using w by (auto simp: write_opened_def split: option.splits if_splits)
next
  case False
  then obtain dot where "vsEnt v (v_root v) 0 = Some dot" by blast
  moreover have "vsFindSave v (s_name s) = None" using False by blast
  ultimately have d: "vsEnt v (v_root v) 0 = Some dot" "vsFindSave v (s_name s) = None" by simp_all
  show ?thesis
  proof (cases "root_slot v dot")
    case None
    then show ?thesis using w d by (auto simp: write_opened_def)
  next
    case (Some p)
    then obtain slot grow where p: "root_slot v dot = Some (slot, grow)" by (cases p) auto
    then show ?thesis using w d root_slot_ok [OF o d(1) p]
      by (cases "needed v s grow > vsFreeCount v") (auto simp: write_opened_def)
  qed
qed

end
