(* ===== verification/CardDelete.thy ===== *)
theory CardDelete
  imports CardImported "HOL-Library.Sublist"
begin

text \<open>
  Deleting a save: its entry is hidden first and its clusters are given back after, so a cut of the power
  never leaves a save that names free clusters, and the other saves are as they were.
\<close>

section \<open>Giving back several chains\<close>

lemma chain_of_cong:
  assumes "distinct (chain_of v c)" "v_allocEnd w = v_allocEnd v" "\<And>x. x \<in> set (chain_of v c) \<Longrightarrow> v_fat w ! unat x = v_fat v ! unat x"
  shows "chain_of w c = chain_of v c"
  by (rule chain_of_eq [OF is_chain_cong [OF chain_of_chain [OF assms(1)] assms(2,3)] assms(1)])

lemma chain_of_length:
  assumes "distinct (chain_of v c)"
  shows "length (chain_of v c) \<le> unat (v_allocEnd v)"
  using distinct_clusters_length [OF assms, of "v_allocEnd v"] is_chain_clusters [OF chain_of_chain [OF assms]] by blast

definition freed :: "vs_vmc \<Rightarrow> 32 word set \<Rightarrow> vs_vmc \<Rightarrow> bool" where
  "freed v S w \<longleftrightarrow> geo w = geo v \<and> v_file w = v_file v \<and> firm w \<and> length (v_fatDirty w) = length (v_fatDirty v)
     \<and> (\<forall>y. v_fat w ! unat y = (if y \<in> S then FAT_FREE else v_fat v ! unat y))
     \<and> (\<forall>j. v_fatDirty v ! j \<longrightarrow> v_fatDirty w ! j) \<and> (\<forall>y \<in> S. v_fatDirty w ! (unat y div epc v))"

lemma free_chain:
  assumes "firm v" "distinct (chain_of v c)"
  shows "freed v (set (chain_of v c)) (vsFreeChain v c)"
  using free_steps_frame [OF assms(1) chain_of_chain [OF assms(2)] assms(2) chain_of_length [OF assms(2)]]
  unfolding freed_def vsFreeChain_def by blast

lemma freed_trans:
  assumes "freed v S w" "freed w T x"
  shows "freed v (S \<union> T) x"
proof -
  have "epc w = epc v" using assms(1) geo_derived [of w v] by (simp add: freed_def)
  then show ?thesis using assms unfolding freed_def by (metis Un_iff)
qed

lemma free_chains:
  assumes "firm v" "distinct (concat (map (chain_of v) cs))"
  shows "freed v (set (concat (map (chain_of v) cs))) (fold (\<lambda>c w. vsFreeChain w c) cs v)"
  using assms
proof (induction cs arbitrary: v)
  case Nil
  then show ?case by (simp add: freed_def)
next
  case (Cons c cs)
  let ?w = "vsFreeChain v c"
  have d: "distinct (chain_of v c)" using Cons.prems(2) by simp
  have f: "freed v (set (chain_of v c)) ?w" by (rule free_chain [OF Cons.prems(1) d])
  have ae: "v_allocEnd ?w = v_allocEnd v" using f by (simp add: freed_def geo_eq)
  have "chain_of ?w e = chain_of v e" if "e \<in> set cs" for e
  proof (rule chain_of_cong [OF _ ae])
    have s: "set (chain_of v e) \<subseteq> set (concat (map (chain_of v) cs))" using that by auto
    show "distinct (chain_of v e)" using Cons.prems(2) that by (auto simp: distinct_concat_iff)
    fix x assume "x \<in> set (chain_of v e)"
    then have "x \<notin> set (chain_of v c)" using s Cons.prems(2) by auto
    then show "v_fat ?w ! unat x = v_fat v ! unat x" using f unfolding freed_def by simp
  qed
  then have m: "map (chain_of ?w) cs = map (chain_of v) cs" by simp
  have "freed ?w (set (concat (map (chain_of ?w) cs))) (fold (\<lambda>c w. vsFreeChain w c) cs ?w)"
    using Cons.IH [of ?w] Cons.prems(2) f unfolding m freed_def by simp
  from freed_trans [OF f this] show ?case unfolding m by simp
qed

section \<open>The clusters of the save\<close>

lemma subseq_concat: "subseq xs ys \<Longrightarrow> subseq (concat (map f xs)) (concat (map f ys))"
  by (induction rule: list_emb.induct) (simp_all add: subseq_drop_many subseq_append')

lemma subseq_facts:
  assumes "subseq xs ys"
  shows "set xs \<subseteq> set ys" "distinct ys \<Longrightarrow> distinct xs"
proof -
  obtain N where "xs = nths ys N" using assms by (auto simp: subseq_conv_nths)
  then show "set xs \<subseteq> set ys" "distinct ys \<Longrightarrow> distinct xs" using set_nths_subset [of ys N] distinct_nthsI [of ys N] by simp_all
qed

lemma file_chains_sub:
  assumes "\<And>i e. vsEnt v d i = Some e \<Longrightarrow> vsEnt u d i = Some e"
  shows "subseq (List.map_filter (file_chain v d) ks) (map e_cluster (filter big_file (List.map_filter (vsEnt u d) ks)))"
proof (induction ks)
  case (Cons k ks)
  show ?case
  proof (cases "file_chain v d k")
    case None
    have "\<exists>zs. map e_cluster (filter big_file (List.map_filter (vsEnt u d) (k # ks)))
        = zs @ map e_cluster (filter big_file (List.map_filter (vsEnt u d) ks))"
      by (cases "vsEnt u d k") (simp_all add: map_filter_simps)
    then show ?thesis using subseq_drop_many [OF Cons] None by (auto simp: map_filter_simps)
  next
    case (Some c)
    then obtain e where e: "vsEnt v d k = Some e" "is_file e" "e_length e > 0" "c = e_cluster e"
      by (auto simp: file_chain_def split: option.splits if_splits)
    then have "big_file e" by (simp add: big_file_def word_gt_0)
    then show ?thesis using Cons assms [OF e(1)] e(4) Some by (simp add: map_filter_simps)
  qed
qed simp

lemma victim_chains:
  assumes "\<And>i e. vsEnt v (e_cluster dir) i = Some e \<Longrightarrow> vsEnt u (e_cluster dir) i = Some e" "chain_of v = chain_of u"
    and "distinct (save_claims u dir)"
  defines "files \<equiv> take SAVE_FILES (List.map_filter (file_chain v (e_cluster dir)) [2..<vsDirLen (e_length dir)])"
  shows "distinct (concat (map (chain_of v) (files @ [e_cluster dir])))"
    "set (concat (map (chain_of v) (files @ [e_cluster dir]))) \<subseteq> set (save_claims u dir)"
proof -
  let ?all = "map e_cluster (filter big_file (entries_of u dir))"
  have "subseq files ?all"
    unfolding files_def entries_of_def by (rule subseq_order.trans [OF _ file_chains_sub [OF assms(1)]]) (rule prefix_imp_subseq [OF take_is_prefix])
  then have s: "subseq (concat (map (chain_of u) files)) (concat (map (chain_of u) ?all))" by (rule subseq_concat)
  have c: "save_claims u dir = chain_of u (e_cluster dir) @ concat (map (chain_of u) ?all)" by (simp add: save_claims_def comp_def)
  have d: "distinct (concat (map (chain_of u) files))"
    using subseq_facts(2) [OF s] assms(3) c by simp
  have sub: "set (concat (map (chain_of u) files)) \<subseteq> set (concat (map (chain_of u) ?all))" by (rule subseq_facts(1) [OF s])
  show "distinct (concat (map (chain_of v) (files @ [e_cluster dir])))"
    unfolding assms(2) map_append concat_append using d sub assms(3) c by auto
  show "set (concat (map (chain_of v) (files @ [e_cluster dir]))) \<subseteq> set (save_claims u dir)"
    unfolding assms(2) map_append concat_append using sub c by auto
qed

section \<open>The steps of a deletion\<close>

lemma found_opened:
  assumes o: "consistent f" "vsOpen mem (Some f) True = Inr v" and f: "vsFindSave v name = Some (i, e)"
  defines "u \<equiv> at_file v f"
  shows "2 \<le> i" "i < dirlen u" "vsEnt u (v_root u) i = Some e" "shown e" "vsNameIs e name" "e \<in> set (saves_of u)"
    "vsEnt v (v_root v) i = Some e"
proof -
  note s = found_save [OF f]
  obtain dot where "vsEnt v (v_root v) 0 = Some dot" using s(2) by (auto simp: dirlen_def split: option.splits)
  then have l: "dirlen u = dirlen v" using opened_entry [OF o] by (simp add: dirlen_def u_def)
  show e: "2 \<le> i" "i < dirlen u" "shown e" "vsNameIs e name" "vsEnt v (v_root v) i = Some e" using s l by simp_all
  show u: "vsEnt u (v_root u) i = Some e" using opened_entry [OF o e(5)] by (simp add: u_def)
  show "e \<in> set (saves_of u)" using map_filter_mem [of i "[2..<dirlen u]" "vsEnt u (v_root u)" e] u e l by (simp add: saves_of_def)
qed

lemma disjoint_parts: "distinct (concat (map f xs)) \<Longrightarrow> a \<in> set xs \<Longrightarrow> b \<in> set xs \<Longrightarrow> a \<noteq> b \<Longrightarrow> set (f a) \<inter> set (f b) = {}"
  by (induction xs) auto

definition hidden :: "vs_ent \<Rightarrow> vs_ent" where
  "hidden e = e\<lparr>e_mode := e_mode e AND NOT MC_EXISTS\<rparr>"

lemma not_shown_hidden: "\<not> shown (hidden e)"
  by (simp add: shown_def has_mode_def hidden_def ac_simps)

text \<open>The entry of the save, and nothing else of the root.\<close>

definition hidden_page :: "vs_vmc \<Rightarrow> nat \<Rightarrow> vs_ent \<Rightarrow> nat \<Rightarrow> bytes \<Rightarrow> bool" where
  "hidden_page u i e p b \<longleftrightarrow> p = root_page u i \<and> b = ent_bytes (hidden e)"

lemma put_hidden:
  assumes o: "consistent f" "vsOpen mem (Some f) True = Inr v" and f: "vsFindSave v name = Some (i, e)"
    and p: "vsEnt_put v (v_root v) i (hidden e) = (v1, ok)"
  defines "u \<equiv> at_file v f"
  shows "geo v1 = geo v" "firm v1" "v_fat v1 = v_fat v" "v_fatDirty v1 = v_fatDirty v" "keeps v {} (hidden_page u i e) (v_file v1)"
    "ok \<Longrightarrow> page (vimg v1) (root_page u i) = ent_bytes (hidden e)"
proof -
  note op = vsOpen_write [OF o]
  note fo = found_opened [OF o f, folded u_def]
  note r = root_chain_opened [OF o, folded u_def]
  have m: "meta_safe v (vimg v)" using op(1,6) by simp
  have e: "ent_ok (hidden e)" using vsEnt_firm(2) [OF op(4) fo(7)] ent_of_ok by (simp add: hidden_def ent_ok_def)
  note pe = ent_put_effect [OF op(4) e p]
  show g: "geo v1 = geo v" "v_fat v1 = v_fat v" "v_fatDirty v1 = v_fatDirty v" using pe by simp_all
  show "firm v1" by (rule firm_geo [OF op(4)]) (use pe changed_size(1) in auto)
  have p0: "0 < v_ppc v" using op(4) by (simp add: firm_def)
  have "i div v_ppc v < length (chain_of v (v_root v))" using fo(2) r(9) p0 by (simp add: div_less_iff_less_mult)
  then have w: "vsWalk v (v_root v) (i div v_ppc v) = chain_of v (v_root v) ! (i div v_ppc v)"
    using vsWalk_chain(1) [OF op(4) r(2,3)] by simp
  then have d: "dpage v (vsWalk v (v_root v) (i div v_ppc v)) (i mod v_ppc v) = root_page u i"
    using geo_dpage [of u v] r(1) by (simp add: root_page_def u_def)
  show "keeps v {} (hidden_page u i e) (v_file v1)"
    by (rule keeps_entry [OF _ op(4) refl op(4) m e p]) (use d in \<open>simp_all add: hidden_page_def\<close>)
  show "ok \<Longrightarrow> page (vimg v1) (root_page u i) = ent_bytes (hidden e)" using pe d by simp
qed

definition victim_files :: "vs_vmc \<Rightarrow> vs_ent \<Rightarrow> 32 word list" where
  "victim_files v e = take SAVE_FILES (List.map_filter (file_chain v (e_cluster e)) [2..<vsDirLen (e_length e)]) @ [e_cluster e]"

definition victim_clusters :: "vs_vmc \<Rightarrow> vs_ent \<Rightarrow> 32 word set" where
  "victim_clusters v e = set (concat (map (chain_of v) (victim_files v e)))"

lemma delete_opened_eq:
  assumes "vsFindSave v name = Some (i, e)" "vsEnt_put v (v_root v) i (hidden e) = (v1, ok)"
  shows "delete_opened v name = (if ok then (case vsFlushFat (fold (\<lambda>c w. vsFreeChain w c) (victim_files v e) v1) of
      (v2, ok2) \<Rightarrow> (v2, if ok2 then Inr () else Inl VMCSAVES_ERR_WRITE)) else (v1, Inl VMCSAVES_ERR_WRITE))"
  using assms(2) unfolding hidden_def by (simp add: delete_opened_def assms(1) victim_files_def)

lemma victim_freed:
  assumes o: "consistent f" "vsOpen mem (Some f) True = Inr v" and f: "vsFindSave v name = Some (i, e)"
    and p: "vsEnt_put v (v_root v) i (hidden e) = (v1, ok)"
  defines "u \<equiv> at_file v f"
  shows "freed v1 (victim_clusters v e) (fold (\<lambda>c w. vsFreeChain w c) (victim_files v e) v1)"
    "victim_clusters v e \<subseteq> set (save_claims u e)"
proof -
  note op = vsOpen_write [OF o, folded u_def]
  note fo = found_opened [OF o f, folded u_def]
  note ph = put_hidden [OF o f p]
  have cu: "chain_of v = chain_of u" by (rule same_table(2)) (simp_all add: op(2) [symmetric] u_def)
  have c1: "chain_of v1 = chain_of v" using same_table(2) [of v1 v] ph(1,3) by (simp add: geo_eq)
  have d: "distinct (save_claims u e)" using op(3) fo(6) by (auto simp: card_ok_def claimed_def distinct_concat_iff)
  have en: "vsEnt u d k = Some g" if "vsEnt v d k = Some g" for d k g using opened_entry [OF o that] by (simp add: u_def)
  note vc = victim_chains [of v e u, OF en cu d, folded victim_files_def]
  show "freed v1 (victim_clusters v e) (fold (\<lambda>c w. vsFreeChain w c) (victim_files v e) v1)"
    using free_chains [OF ph(2), of "victim_files v e"] vc(1) unfolding c1 victim_clusters_def by blast
  show "victim_clusters v e \<subseteq> set (save_claims u e)" using vc(2) by (simp add: victim_clusters_def)
qed

lemma delete_flushed:
  assumes o: "consistent f" "vsOpen mem (Some f) True = Inr v" and f: "vsFindSave v name = Some (i, e)"
    and p: "vsEnt_put v (v_root v) i (hidden e) = (v1, ok)"
    and t: "t = fold (\<lambda>c w. vsFreeChain w c) (victim_files v e) v1" "vsFlushFat t = (w, ok2)"
  defines "u \<equiv> at_file v f"
  shows "keeps v (set (save_claims u e)) (hidden_page u i e) (v_file w)"
proof -
  note op = vsOpen_write [OF o, folded u_def]
  note ph = put_hidden [OF o f p, folded u_def]
  note fr = victim_freed [OF o f p, folded u_def t(1)]
  have m: "meta_safe v (vimg v)" using op(1,6) by simp
  have ft: "firm t" "geo t = geo v" "v_file t = v_file v1" using fr(1) ph(1) by (simp_all add: freed_def)
  have "keeps v (set (save_claims u e)) (hidden_page u i e) (v_file t)" unfolding ft(3) by (rule keeps_mono [OF ph(5)]) simp_all
  then show ?thesis
  proof (rule keeps_flush [OF _ ft(1,2) op(4) m _ t(2)])
    fix c assume c: "c < v_allocEnd v" "used v c" "c \<notin> set (save_claims u e)"
    then have "v_fat t ! unat c = v_fat v ! unat c" using fr ph(3) unfolding freed_def by auto
    moreover have "v_fat u ! unat c = disk_fat v (cf_at f) (unat c)"
      using cluster_in_table [OF op(4) c(1)] by (simp add: at_file_def u_def)
    ultimately show "v_fat t ! unat c = disk_fat v (vimg v) (unat c)" using op(1,2) by simp
  qed
qed

lemma keeps_delete_load:
  assumes o: "consistent f" "vsOpen mem (Some f) True = Inr v" and f: "vsFindSave v victim = Some (i, e)"
  defines "u \<equiv> at_file v f"
  assumes k: "keeps v (set (save_claims u e)) (hidden_page u i e) g" and n: "name \<noteq> victim" and l: "load_later f name = Inr x"
  shows "load_later g name = Inr x"
proof -
  note op = vsOpen_write [OF o, folded u_def]
  note r = root_chain_opened [OF o, folded u_def]
  note fo = found_opened [OF o f, folded u_def]
  have uv: "v_root u = v_root v" "v_ppc u = v_ppc v" "dpage u = dpage v" using geo_dpage [of u v] by (simp_all add: u_def)
  have rc: "chain_of u (v_root u) = chain_of v (v_root v)" using r(1) uv by simp
  have lt: "j < length (chain_of u (v_root u)) * v_ppc u" if "j < dirlen u" for j using that r(9) rc uv by simp
  have v: "c_str (e_name e) = victim" using fo(5) by (simp add: vsNameIs_def)
  show ?thesis
  proof (rule keeps_load [OF o k l, folded u_def])
    show "set (save_claims u e) \<inter> set (butlast (chain_of u (v_root u))) = {}"
      using save_claims_used(3) [OF op(3) fo(6)] in_set_butlastD by fast
  next
    fix j d c assume d: "vsFindSave u name = Some (j, d)" and c: "c \<in> set (save_claims u d)"
    have "d \<noteq> e" using found_save(5) [OF d] v n by (auto simp: vsNameIs_def)
    then have "set (save_claims u d) \<inter> set (save_claims u e) = {}"
      using disjoint_parts [of "save_claims u" "saves_of u" d e] op(3) found_save(6) [OF d] fo(6) by (simp add: card_ok_def claimed_def)
    moreover have "\<not> hidden_page u i e (dpage v c q) b" if "q < v_ppc v" for q b
      using root_page_cluster [OF op(3) lt [OF fo(2)] that [folded uv(2)], of c] save_claims_used(3) [OF op(3) found_save(6) [OF d] c] uv
      by (auto simp: hidden_page_def)
    ultimately show "c \<notin> set (save_claims u e) \<and> (\<forall>q b. q < v_ppc v \<longrightarrow> \<not> hidden_page u i e (dpage v c q) b)" using c by blast
  next
    fix j b assume j: "2 \<le> j" "j < dirlen u" and x: "hidden_page u i e (root_page u j) b"
    then have ji: "j = i" using root_page_inject [OF op(3) lt [OF j(2)] lt [OF fo(2)]] by (simp add: hidden_page_def)
    have "ent_ok (hidden e)" using vsEnt_firm(2) [OF op(4) fo(7)] ent_of_ok by (simp add: hidden_def ent_ok_def)
    then have "ent_of b = hidden e" using x by (simp add: hidden_page_def ent_of_bytes)
    moreover have "\<not> vsNameIs e name" using v n by (auto simp: vsNameIs_def)
    ultimately show "save_at u name j = None \<and> \<not> (shown (ent_of b) \<and> vsNameIs (ent_of b) name)"
      using not_shown_hidden fo(3) ji by (simp add: save_at_def)
  next
    fix b assume "hidden_page u i e (root_page u 0) b"
    then have "0 = i" using root_page_inject [OF op(3) lt [of 0] lt [OF fo(2)]] fo(1,2) by (simp add: hidden_page_def)
    then show "dirlen u \<le> vsDirLen (e_length (ent_of b))" using fo(1) by simp
  qed
qed

end
