(* ===== verification/CardDone.thy ===== *)
theory CardDone
  imports CardDelete
begin

text \<open>
  A file that can be read and written, enough memory and room on the card: then the steps of an import
  and of a deletion succeed.
\<close>

section \<open>Reads and writes\<close>

definition reliable :: "card_file \<Rightarrow> bool" where
  "reliable f \<longleftrightarrow> (\<forall>n p. cf_rd f n p) \<and> (\<forall>n. cf_wr f n)"

lemma reliable_sure: "reliable (v_file v) \<Longrightarrow> sure v"
  by (simp add: reliable_def sure_def)

lemma write_pages_ok: "reliable f \<Longrightarrow> \<exists>g. write_pages raw pos k buf f = (g, True) \<and> reliable g"
proof (induction k arbitrary: pos buf f)
  case (Suc k)
  then have "\<exists>g. page_write pos (take 512 buf) f = (g, True) \<and> reliable g"
    by (auto simp: page_write_def Let_def reliable_def)
  then obtain g where g: "page_write pos (take 512 buf) f = (g, True)" "reliable g" by blast
  show ?case using Suc.IH [OF g(2), of "pos + raw" "drop 512 buf"] by (simp add: g(1))
qed simp

lemma write_ok:
  assumes "reliable (v_file v)"
  obtains w where "vsIo_write v a b = (w, True)" "reliable (v_file w)"
proof -
  obtain g where "write_pages (v_raw v) (unat a * v_ppc v * v_raw v) (v_ppc v) b (v_file v) = (g, True)" "reliable g"
    using write_pages_ok [OF assms] by blast
  then show ?thesis using that [of "v\<lparr>v_file := g\<rparr>"] by (simp add: vsIo_write_def)
qed

lemma write_chain_ok: "reliable (v_file v) \<Longrightarrow> \<exists>w. write_chain v c bs = (w, True) \<and> reliable (v_file w)"
proof (induction bs arbitrary: v c)
  case (Cons b bs)
  obtain w where w: "vsIo_write v (v_alloc v + c) b = (w, True)" "reliable (v_file w)" by (rule write_ok [OF Cons.prems])
  show ?case using Cons.IH [OF w(2), of "vsNext w c"] by (simp add: w(1))
qed simp

lemma flush_ok:
  assumes "reliable (v_file v)"
  shows "\<exists>w. vsFlushFat v = (w, True) \<and> reliable (v_file w)"
proof -
  have one: "\<exists>w. flush_one k (v, True) = (w, True) \<and> reliable (v_file w)" if r: "reliable (v_file v)" for k v
  proof (cases "v_fatDirty v ! k")
    case True
    obtain w where "vsIo_write v (v_fatAbs v ! k) (concat (map bytes32 (take (epc v) (drop (k * epc v) (v_fat v))))) = (w, True)"
      "reliable (v_file w)" by (rule write_ok [OF r])
    then show ?thesis using True by (simp add: flush_one_def)
  qed (use r in \<open>simp add: flush_one_def\<close>)
  have "\<exists>w. fold flush_one ks (v, True) = (w, True) \<and> reliable (v_file w)" if "reliable (v_file v)" for ks v
    using that
  proof (induction ks arbitrary: v)
    case (Cons k ks)
    obtain w where w: "flush_one k (v, True) = (w, True)" "reliable (v_file w)" using one [OF Cons.prems] by blast
    show ?case using Cons.IH [OF w(2)] by (simp add: w(1))
  qed simp
  then show ?thesis unfolding vsFlushFat_def using assms by blast
qed

lemma ent_put_ok:
  assumes "firm v" "reliable (v_file v)" "vsWalk v dir (i div v_ppc v) < v_allocEnd v"
  shows "\<exists>w. vsEnt_put v dir i e = (w, True) \<and> reliable (v_file w)"
proof -
  let ?c = "vsWalk v dir (i div v_ppc v)"
  have "vsIo_read v (v_alloc v + ?c) = Some (clu v (unat (v_alloc v + ?c)))"
    by (rule read_firm(2) [OF assms(1) alloc_plus(2) [OF assms(1,3)] reliable_sure [OF assms(2)]])
  moreover have "\<not> v_allocEnd v \<le> ?c" using assms(3) by simp
  moreover obtain w where "vsIo_write v (v_alloc v + ?c) (put_field (i mod v_ppc v * 512) (ent_bytes e) (clu v (unat (v_alloc v + ?c)))) = (w, True)"
    "reliable (v_file w)" by (rule write_ok [OF assms(2)])
  ultimately show ?thesis using end_not_cluster [OF assms(1,3)] by (simp add: vsEnt_put_def ent_cluster_def)
qed

section \<open>Room\<close>

definition free_from :: "vs_vmc \<Rightarrow> nat \<Rightarrow> nat" where
  "free_from v c = length (filter (\<lambda>k. v_fat v ! k AND FAT_USED = 0) [c..<unat (v_allocEnd v)])"

lemma free_count: "vsFreeCount v = free_from v 0"
  by (simp add: vsFreeCount_def free_from_def)

lemma free_from_step:
  assumes "c < unat (v_allocEnd v)"
  shows "free_from v c = (if v_fat v ! c AND FAT_USED = 0 then 1 else 0) + free_from v (Suc c)"
  using assms by (simp add: free_from_def upt_conv_Cons)

lemma free_from_cong:
  assumes "v_allocEnd w = v_allocEnd v" "\<And>k. c \<le> k \<Longrightarrow> k < unat (v_allocEnd v) \<Longrightarrow> v_fat w ! k = v_fat v ! k"
  shows "free_from w c = free_from v c"
proof -
  have "filter (\<lambda>k. v_fat w ! k AND FAT_USED = 0) [c..<unat (v_allocEnd v)] = filter (\<lambda>k. v_fat v ! k AND FAT_USED = 0) [c..<unat (v_allocEnd v)]"
    by (rule filter_cong) (use assms(2) in auto)
  then show ?thesis by (simp add: free_from_def assms(1))
qed

lemma alloc_loop_room:
  assumes "firm v" "prev = FAT_END \<or> unat prev < c \<and> prev < v_allocEnd v" "alloc_loop v n c prev first = (w, c', left, f')" "n \<le> free_from v c"
  shows "left = 0 \<and> free_from w c' + n = free_from v c"
  using assms
proof (induction v n c prev first rule: alloc_loop.induct)
  case (1 v n c prev first)
  show ?case
  proof (cases "c < unat (v_allocEnd v) \<and> 0 < n")
    case False
    then have "w = v" "c' = c" "left = n" using "1.prems"(3) by (auto simp: alloc_loop.simps)
    moreover have "n = 0" using False "1.prems"(4) by (auto simp: free_from_def)
    ultimately show ?thesis by simp
  next
    case lt: True
    have "unat (v_allocEnd v) < 2 ^ 32" using unsigned_less [of "v_allocEnd v"] by simp
    then have c32: "unat (of_nat c :: 32 word) = c" using lt by (intro unat_of_nat32) simp
    have ca: "(of_nat c :: 32 word) < v_allocEnd v" using lt c32 by (simp add: word_less_nat_alt)
    show ?thesis
    proof (cases "v_fat v ! c AND FAT_USED \<noteq> 0")
      case True
      have "alloc_loop v n (c + 1) prev first = (w, c', left, f')" using "1.prems"(3) lt True by (simp add: alloc_loop.simps)
      moreover have "free_from v c = free_from v (c + 1)" using free_from_step [of c v] lt True by simp
      ultimately show ?thesis using "1.IH"(1) [OF lt True "1.prems"(1)] "1.prems"(2,4) by auto
    next
      case False
      let ?c = "of_nat c :: 32 word"
      let ?v1 = "vsSetFat v ?c FAT_END"
      let ?v2 = "if prev \<noteq> FAT_END then vsSetFat ?v1 prev (FAT_USED OR ?c) else ?v1"
      let ?f = "if prev \<noteq> FAT_END then first else ?c"
      have f2: "firm ?v2" using "1.prems"(1) by simp
      have e: "alloc_loop ?v2 (n - 1) (c + 1) ?c ?f = (w, c', left, f')"
        using "1.prems"(3) lt False by (subst (asm) alloc_loop.simps) (simp add: Let_def split: if_splits)
      have later: "v_fat ?v2 ! k = v_fat v ! k" if "c + 1 \<le> k" for k
        using that "1.prems"(2) c32 by (auto simp: vsSetFat_def)
      have fr: "free_from ?v2 (c + 1) = free_from v (c + 1)" by (rule free_from_cong) (simp_all add: later)
      have st: "free_from v c = 1 + free_from v (c + 1)" using free_from_step [of c v] lt False by simp
      then have n: "n - 1 \<le> free_from ?v2 (c + 1)" using "1.prems"(4) fr by simp
      have "left = 0 \<and> free_from w c' + (n - 1) = free_from ?v2 (c + 1)"
      proof (cases "prev \<noteq> FAT_END")
        case True
        then show ?thesis using "1.IH"(2) [OF lt False refl True] f2 e n c32 ca by simp
      next
        case False': False
        then show ?thesis using "1.IH"(3) [OF lt False refl False'] f2 e n c32 ca by simp
      qed
      then have "left = 0" "free_from w c' + (n - 1) + 1 = free_from v c" using fr st by simp_all
      moreover have "n - 1 + 1 = n" using lt by simp
      ultimately show ?thesis by simp
    qed
  qed
qed

lemma alloc_room:
  assumes "firm v" "n \<le> free_from v hint" "vsAllocChain v n hint = (w, h, first)"
  shows "0 < n \<Longrightarrow> first \<noteq> FAT_END" "free_from w h + n = free_from v hint"
proof -
  obtain c left f where l: "alloc_loop v n hint FAT_END FAT_END = (w, c, left, f)" "h = c" "first = (if left = 0 then f else FAT_END)"
    using assms(3) by (auto simp: vsAllocChain_def split: prod.splits)
  have r: "left = 0 \<and> free_from w c + n = free_from v hint" using alloc_loop_room [OF assms(1) _ l(1) assms(2)] by simp
  then show "free_from w h + n = free_from v hint" using l(2) by simp
  assume n: "0 < n"
  obtain xs where xs: "n = length xs + left" "\<forall>x \<in> set xs. hint \<le> unat x \<and> x < v_allocEnd v \<and> \<not> used v x" "f = (if xs \<noteq> [] then hd xs else FAT_END)"
    using alloc_loop_link [OF assms(1) _ l(1)] by auto
  then have "xs \<noteq> []" using n r by auto
  then have "f \<in> set xs" using xs(3) by simp
  then show "first \<noteq> FAT_END" using l(3) r xs(2) end_not_cluster [OF assms(1)] by auto
qed

lemma write_chain_frame: "write_chain v c bs = (w, ok) \<Longrightarrow> v_fat w = v_fat v \<and> geo w = geo v"
proof (induction bs arbitrary: v c)
  case (Cons b bs)
  obtain x k where x: "vsIo_write v (v_alloc v + c) b = (x, k)" by (cases "vsIo_write v (v_alloc v + c) b")
  have "v_fat x = v_fat v \<and> geo x = geo v" using x by (auto simp: vsIo_write_def geo_def split: prod.splits)
  then show ?case using Cons.IH [of x] Cons.prems x by (cases k) auto
qed simp

lemma free_from_write:
  assumes "write_chain v c bs = (w, ok)"
  shows "free_from w k = free_from v k"
  using write_chain_frame [OF assms] by (intro free_from_cong) (simp_all add: geo_eq)

section \<open>The steps of an import\<close>

lemma write_files_room:
  assumes "firm v" "reliable (v_file v)" "sum_list (map (\<lambda>g. clusters_for v (length (f_data g))) fs) + m \<le> free_from v hint"
  shows "\<exists>w h firsts. write_files v hint fs = (w, h, Inr firsts) \<and> reliable (v_file w) \<and> m \<le> free_from w h"
  using assms
proof (induction v hint fs rule: write_files.induct)
  case (1 v hint)
  then show ?case by simp
next
  case (2 v hint f fs)
  let ?n = "clusters_for v (length (f_data f))"
  show ?case
  proof (cases "?n = 0")
    case True
    have "sum_list (map (\<lambda>g. clusters_for v (length (f_data g))) fs) + m \<le> free_from v hint" using "2.prems"(3) by simp
    then obtain w h firsts where "write_files v hint fs = (w, h, Inr firsts)" "reliable (v_file w)" "m \<le> free_from w h"
      using "2.IH"(1) [OF refl True "2.prems"(1,2)] by blast
    then show ?thesis using True by simp
  next
    case False
    obtain v1 h1 first where al: "vsAllocChain v ?n hint = (v1, h1, first)" by (cases "vsAllocChain v ?n hint") auto
    have n: "?n \<le> free_from v hint" "0 < ?n" using "2.prems"(3) False by simp_all
    note r = alloc_room [OF "2.prems"(1) n(1) al]
    have nf: "first \<noteq> FAT_END" by (rule r(1) [OF n(2)])
    have f1: "reliable (v_file v1)" using alloc_spec(2) [OF "2.prems"(1) al] "2.prems"(2) by simp
    obtain v2 where wc: "write_chain v1 first (cluster_data v1 0xFF ?n (f_data f)) = (v2, True)" "reliable (v_file v2)"
      using write_chain_ok [OF f1] by blast
    have a: "apart v v2" by (rule new_chain(1) [OF "2.prems"(1) al nf n(2) refl wc(1)])
    have c: "clusters_for v2 = clusters_for v" using apart_geo(3) [OF a] by (intro ext) (simp add: clusters_for_def)
    have "sum_list (map (\<lambda>g. clusters_for v2 (length (f_data g))) fs) + m \<le> free_from v2 h1"
      unfolding c free_from_write [OF wc(1)] using r(2) "2.prems"(3) by simp
    then obtain w h firsts where "write_files v2 h1 fs = (w, h, Inr firsts)" "reliable (v_file w)" "m \<le> free_from w h"
      using "2.IH"(2) [OF refl False al [symmetric] refl nf wc(1) [symmetric] _ apart_firm [OF a "2.prems"(1)] wc(2)] by blast
    then show ?thesis using False al nf wc(1) by simp
  qed
qed

abbreviation "all_mem \<equiv> (\<lambda>_. True) :: nat \<Rightarrow> bool"

lemma write_dir_room:
  assumes "firm v" "reliable (v_file v)" "(2 + length (s_files s) + v_ppc v - 1) div v_ppc v + m \<le> free_from v hint"
  shows "\<exists>w h d. write_dir all_mem v hint s slot firsts = (w, h, Inr d) \<and> reliable (v_file w) \<and> m \<le> free_from w h"
proof -
  let ?n = "(2 + length (s_files s) + v_ppc v - 1) div v_ppc v"
  obtain v1 h1 first where al: "vsAllocChain v ?n hint = (v1, h1, first)" by (cases "vsAllocChain v ?n hint") auto
  have "v_ppc v \<le> 2 + length (s_files s) + v_ppc v - 1" "0 < v_ppc v" using assms(1) by (simp_all add: firm_def)
  then have n: "?n \<le> free_from v hint" "0 < ?n" using assms(3) by (simp_all add: div_greater_zero_iff)
  note r = alloc_room [OF assms(1) n(1) al]
  have nf: "first \<noteq> FAT_END" by (rule r(1) [OF n(2)])
  have f1: "reliable (v_file v1)" using alloc_spec(2) [OF assms(1) al] assms(2) by simp
  obtain w where wc: "write_chain v1 first (cluster_data v1 0 ?n (concat (map ent_bytes (dir_ents v1 s slot firsts)))) = (w, True)"
    "reliable (v_file w)" using write_chain_ok [OF f1] by blast
  have "m \<le> free_from w h1" unfolding free_from_write [OF wc(1)] using r(2) assms(3) by simp
  moreover have "write_dir all_mem v hint s slot firsts = (w, h1, Inr first)"
    unfolding write_dir_def Let_def al prod.case wc(1) using nf by simp
  ultimately show ?thesis using wc(2) by blast
qed

lemma grow_root_room:
  assumes "firm v" "reliable (v_file v)" "1 \<le> free_from v hint"
  shows "\<exists>w. grow_root v hint = (w, Inr ()) \<and> reliable (v_file w)"
proof -
  obtain v1 h1 add where al: "vsAllocChain v 1 hint = (v1, h1, add)" by (cases "vsAllocChain v 1 hint") auto
  have nf: "add \<noteq> FAT_END" by (rule alloc_room(1) [OF assms(1,3) al]) simp
  have f1: "reliable (v_file v1)" using alloc_spec(2) [OF assms(1) al] assms(2) by simp
  obtain w where "vsIo_write v1 (v_alloc v1 + add) (replicate (csize v1) 0) = (w, True)" "reliable (v_file w)" by (rule write_ok [OF f1])
  then show ?thesis using al nf by (simp add: grow_root_def Let_def)
qed

lemma slot_walk:
  assumes o: "consistent f" "vsOpen mem (Some f) True = Inr v" and t: "apart v v2" "apart v2 t"
  defines "u \<equiv> at_file v f" and "rc \<equiv> chain_of v (v_root v)"
  assumes g: "grown v2 t (last rc) grow w" and s: "slot_ok u dot slot grow"
  shows "vsWalk w (v_root v) (slot div v_ppc v) < v_allocEnd v"
    "slot div v_ppc v < length rc \<and> vsWalk w (v_root v) (slot div v_ppc v) = rc ! (slot div v_ppc v)
      \<or> \<not> used v2 (vsWalk w (v_root v) (slot div v_ppc v))"
proof -
  note r = root_chain_opened [OF o, folded rc_def u_def]
  note gr = grown_after [OF o t, folded rc_def, OF g]
  have p: "0 < v_ppc v" using vsOpen_write(4) [OF o] by (simp add: firm_def)
  have "slot div v_ppc v < length rc \<or> grow \<and> slot div v_ppc v = length rc"
  proof (cases "slot < length rc * v_ppc v")
    case True
    then show ?thesis using p by (simp add: div_less_iff_less_mult)
  next
    case False
    then have e: "slot = length rc * v_ppc v" "slot = dirlen u" using s r(9) by (auto simp: slot_ok_def)
    then have "grow" using s by (auto simp: slot_ok_def u_def)
    then show ?thesis using e(1) p by simp
  qed
  then show "vsWalk w (v_root v) (slot div v_ppc v) < v_allocEnd v"
    "slot div v_ppc v < length rc \<and> vsWalk w (v_root v) (slot div v_ppc v) = rc ! (slot div v_ppc v)
      \<or> \<not> used v2 (vsWalk w (v_root v) (slot div v_ppc v))"
    using gr(5,6) r(8) by auto
qed

text \<open>All the states of a successful import.\<close>

lemma write_new_steps:
  assumes o: "consistent f" "vsOpen mem (Some f) True = Inr v" and rel: "reliable f"
  defines "u \<equiv> at_file v f" and "rc \<equiv> chain_of v (v_root v)"
  assumes s: "slot_ok u dot slot grow" "save_ok sv" and room: "needed v sv grow \<le> vsFreeCount v"
  shows "\<exists>v2 t w x firsts d xss ys y. built v v2 sv slot firsts d xss ys \<and> apart v v2 \<and> apart v2 t
    \<and> grown v2 t (last rc) grow w \<and> vsFlushFat w = (x, True) \<and> reliable (v_file x)
    \<and> appear x sv slot dot d = (y, Inr ()) \<and> write_new all_mem v sv dot slot grow = (y, Inr ())"
proof -
  note op = vsOpen_write [OF o]
  note r = root_chain_opened [OF o, folded rc_def u_def]
  let ?n = "(2 + length (s_files sv) + v_ppc v - 1) div v_ppc v" and ?g = "if grow then 1 else 0"
  have "sum_list (map (\<lambda>g. clusters_for v (length (f_data g))) (s_files sv)) + (?n + ?g) \<le> free_from v 0"
    using room by (simp add: needed_def free_count)
  then obtain v1 h1 firsts where wf: "write_files v 0 (s_files sv) = (v1, h1, Inr firsts)" "reliable (v_file v1)" "?n + ?g \<le> free_from v1 h1"
    using write_files_room [OF op(4)] rel op(1) by blast
  note a1 = write_files_spec(1) [OF op(4) wf(1)]
  note f1 = apart_firm [OF a1 op(4)]
  have p1: "v_ppc v1 = v_ppc v" by (rule apart_geo(2) [OF a1])
  obtain v2 h2 d where wd: "write_dir all_mem v1 h1 sv slot firsts = (v2, h2, Inr d)" "reliable (v_file v2)" "?g \<le> free_from v2 h2"
    using write_dir_room [OF f1 wf(2), of sv ?g h1 slot firsts] wf(3) p1 by auto
  note bu = build [OF op(4) s(2) wf(1) wd(1)]
  note f2 = apart_firm [OF bu(1) op(4)]
  have "\<exists>w. (if grow then grow_root v2 h2 else (v2, Inr ())) = (w, Inr ()) \<and> reliable (v_file w)"
    using grow_root_room [OF f2 wd(2), of h2] wd(2,3) by (cases grow) auto
  then obtain w where gw: "(if grow then grow_root v2 h2 else (v2, Inr ())) = (w, Inr ())" "reliable (v_file w)" by blast
  obtain t where t: "apart v2 t" "grown v2 t (last rc) grow w" using grow_step [OF o bu(1) gw(1)] unfolding rc_def by auto
  note gr = grown_after [OF o bu(1) t(1), folded rc_def, OF t(2)]
  obtain x where x: "vsFlushFat w = (x, True)" "reliable (v_file x)" using flush_ok [OF gw(2)] by blast
  have m: "meta_safe v (vimg v)" using op(1,6) by simp
  have dw: "distinct (v_fatAbs w)" using m gr(2) by (simp add: meta_safe_def geo_eq)
  note fe = flush_effect(1-3) [OF gr(1) dw x(1)]
  have fx: "firm x" by (rule firm_geo [OF gr(1)]) (use fe flush_dirty_length [of w] x changed_size(1) in auto)
  have gx: "geo x = geo v" "v_root x = v_root v" "v_ppc x = v_ppc v" "v_allocEnd x = v_allocEnd v" using fe(1) gr(2) by (simp_all add: geo_eq)
  have wx: "vsWalk x = vsWalk w" using same_table(5) [of x w] fe(1,2) by (simp add: geo_eq)
  note sw = slot_walk [OF o bu(1) t(1), folded u_def rc_def, OF t(2) s(1)]
  obtain x1 where x1: "vsEnt_put x (v_root x) slot (root_ent sv d) = (x1, True)" "reliable (v_file x1)"
    using ent_put_ok [OF fx x(2), of "v_root x" slot] sw(1) wx gx by auto
  note e1 = ent_put_effect [OF fx ent_ok_new(1) [OF s(2)] x1(1)]
  have f3: "firm x1" by (rule firm_geo [OF fx]) (use e1 changed_size(1) in auto)
  have g3: "v_root x1 = v_root v" "v_ppc x1 = v_ppc v" "v_allocEnd x1 = v_allocEnd v" using e1 gx by (simp_all add: geo_eq)
  have "vsWalk x1 = vsWalk w" using same_table(5) [of x1 w] e1 fe(1,2) by (simp add: geo_eq)
  then have "vsWalk x1 (v_root x1) (0 div v_ppc x1) < v_allocEnd x1" using gr(5) [of 0] r(4,8) g3 by simp
  then obtain x2 where x2: "vsEnt_put x1 (v_root x1) 0 (dot\<lparr>e_length := of_nat (slot + 1)\<rparr>) = (x2, True)"
    using ent_put_ok [OF f3 x1(2)] by blast
  define y where "y = (if slot \<ge> unat (e_length dot) then x2 else x1)"
  have ap: "appear x sv slot dot d = (y, Inr ())" unfolding appear_def x1(1) prod.case x2 y_def by simp
  then have "write_new all_mem v sv dot slot grow = (y, Inr ())" unfolding write_new_def wf(1) prod.case sum.case wd(1) gw(1) x(1) by simp
  then show ?thesis using bu t x ap by blast
qed

end
