(* ===== verification/CardRound.thy ===== *)
theory CardRound
  imports CardDone
begin

text \<open>
  What was written is what a later session loads: chains of data, the entries of the folder, the save.
\<close>

section \<open>Reading a chain back\<close>

lemma concat_fields: "length bs = 512 * n \<Longrightarrow> concat (map (\<lambda>j. field bs (j * 512) 512) [0..<n]) = bs"
proof (induction n arbitrary: bs)
  case (Suc n)
  have "concat (map (\<lambda>j. field (drop 512 bs) (j * 512) 512) [0..<n]) = drop 512 bs" using Suc.prems by (intro Suc.IH) simp
  moreover have "field (drop 512 bs) (j * 512) 512 = field bs (Suc j * 512) 512" for j by (simp add: field_def add.commute)
  moreover have "[0..<Suc n] = 0 # map Suc [0..<n]" by (simp add: map_Suc_upt upt_conv_Cons del: upt_Suc)
  ultimately show ?case by (simp add: field_def comp_def del: upt_Suc)
qed simp

lemma chunks_take:
  assumes "length data \<le> n * cs" "0 < cs"
  shows "take (length data) (concat (map (\<lambda>k. padded cs b (take cs (drop (k * cs) data))) [0..<n])) = data"
  using assms(1)
proof (induction n arbitrary: data)
  case (Suc n)
  let ?g = "\<lambda>data k. padded cs b (take cs (drop (k * cs) data))"
  have e: "concat (map (?g data) [0..<Suc n]) = ?g data 0 @ concat (map (?g (drop cs data)) [0..<n])"
  proof -
    have "[0..<Suc n] = 0 # map Suc [0..<n]" by (simp add: map_Suc_upt upt_conv_Cons del: upt_Suc)
    then show ?thesis by (simp add: comp_def add.commute del: upt_Suc)
  qed
  show ?case
  proof (cases "length data \<le> cs")
    case True
    then have "?g data 0 = data @ replicate (cs - length data) b" by (simp add: padded_def)
    then show ?thesis unfolding e by simp
  next
    case False
    have "take (length (drop cs data)) (concat (map (?g (drop cs data)) [0..<n])) = drop cs data"
      using Suc.prems by (intro Suc.IH) simp
    moreover have "?g data 0 = take cs data" using False by (simp add: padded_def)
    ultimately show ?thesis unfolding e using False by simp
  qed
qed simp

lemma clusters_for_enough:
  assumes "firm v"
  shows "n \<le> clusters_for v n * csize v"
proof -
  have c: "0 < csize v" using assms by (simp add: csize_def firm_def)
  have "n + csize v - 1 < (n + csize v - 1) div csize v * csize v + csize v"
    using c by (metis add.commute div_mult_mod_eq mod_less_divisor nat_add_left_cancel_less)
  then show ?thesis using c by (simp add: clusters_for_def)
qed

lemma stored_clu:
  assumes "firm v" "stored b v data first xs" "i < length xs"
  shows "clu v (unat (v_alloc v) + unat (xs ! i)) = cluster_data v b (length xs) data ! i"
proof -
  let ?cd = "cluster_data v b (length xs) data ! i"
  have "?cd \<in> set (cluster_data v b (length xs) data)" using assms(3) by (intro nth_mem) (simp add: cluster_data_def)
  then have l: "length ?cd = 512 * v_ppc v" using length_cluster_data by (metis csize_def)
  have m: "map (\<lambda>j. page (vimg v) ((unat (v_alloc v) + unat (xs ! i)) * v_ppc v + j)) [0..<v_ppc v] = map (\<lambda>j. field ?cd (j * 512) 512) [0..<v_ppc v]"
    by (rule map_cong) (use assms(2,3) in \<open>auto simp: stored_def dpage_def\<close>)
  show ?thesis unfolding clu_def m by (rule concat_fields [OF l])
qed

lemma stored_read:
  assumes v: "firm v" "sure v" "unat (v_allocEnd v) * csize v < 2 ^ 32" and s: "stored b v data first xs" "xs \<noteq> []"
  shows "vsReadChain v first (of_nat (length data)) = Some data"
proof -
  have c: "is_chain v first xs" "distinct xs" "length xs = clusters_for v (length data)" using s by (simp_all add: stored_def)
  have "length xs \<le> unat (v_allocEnd v)"
    using distinct_clusters_length [OF c(2), of "v_allocEnd v"] is_chain_clusters [OF c(1)] by blast
  then have le: "length xs * csize v \<le> unat (v_allocEnd v) * csize v" by (rule mult_le_mono1)
  have en: "length data \<le> length xs * csize v" using clusters_for_enough [OF v(1)] c(3) by simp
  have "length data < 2 ^ 32" using en le v(3) by linarith
  then have u: "unat (of_nat (length data) :: 32 word) = length data" by (rule unat_of_nat32)
  have cs: "unat (of_nat (csize v) :: 32 word) = csize v" using v(1) by (intro unat_of_nat32) (simp add: csize_def firm_def)
  have "unat (v_allocEnd v * of_nat (csize v)) = unat (v_allocEnd v) * csize v" using v(3) by (simp add: unat_word_ariths cs)
  moreover have "length data \<le> unat (v_allocEnd v) * csize v" using en le by linarith
  ultimately have n: "\<not> of_nat (length data) > v_allocEnd v * of_nat (csize v)" using u by (simp add: word_less_nat_alt)
  have "map (\<lambda>x. clu v (unat (v_alloc v) + unat x)) xs = cluster_data v b (length xs) data"
    by (rule nth_equalityI) (simp_all add: stored_clu [OF v(1) s(1)] cluster_data_def)
  then have "read_clusters v (clusters_for v (length data)) first = Some (concat (cluster_data v b (length xs) data))"
    using read_clusters_chain [OF v(1,2) c(1), of "length xs"] c(3) by simp
  moreover have "take (length data) (concat (cluster_data v b (length xs) data)) = data"
    unfolding cluster_data_def using en v(1) by (intro chunks_take) (simp_all add: csize_def firm_def)
  ultimately show ?thesis using n by (simp add: vsReadChain_def u)
qed

section \<open>The folder\<close>

lemma field_ents: "i < length es \<Longrightarrow> \<forall>e \<in> set es. ent_ok e \<Longrightarrow> field (concat (map ent_bytes es)) (i * 512) 512 = ent_bytes (es ! i)"
proof (induction es arbitrary: i)
  case (Cons e es)
  then show ?case by (cases i) (simp_all add: field_append field_all length_ent_bytes)
qed simp

lemma field_cluster_data:
  assumes "k < n" "j < v_ppc v" "(k * v_ppc v + j) * 512 + 512 \<le> length data"
  shows "field (cluster_data v b n data ! k) (j * 512) 512 = field data ((k * v_ppc v + j) * 512) 512"
proof -
  let ?c = "take (csize v) (drop (k * csize v) data)"
  have "j * 512 + 512 \<le> csize v" using assms(2) by (simp add: csize_def)
  moreover have "k * csize v + (j * 512 + 512) \<le> length data" using assms(3) by (simp add: csize_def algebra_simps)
  ultimately have l: "j * 512 + 512 \<le> length ?c" "j * 512 + 512 \<le> csize v" by simp_all
  have "field (padded (csize v) b ?c) (j * 512) 512 = field ?c (j * 512) 512" using l(1) by (simp add: padded_def field_append)
  also have "\<dots> = field (field data (k * csize v) (csize v)) (j * 512) 512" by (simp add: field_def)
  also have "\<dots> = field data (k * csize v + j * 512) 512" by (rule field_field [OF l(2)])
  also have "k * csize v + j * 512 = (k * v_ppc v + j) * 512" by (simp add: csize_def algebra_simps)
  finally show ?thesis using assms(1) by (simp add: cluster_data_def)
qed

lemma stored_entry:
  assumes v: "firm v" "sure v" and s: "stored b v (concat (map ent_bytes es)) first ys" "ys \<noteq> []"
    and e: "\<forall>e \<in> set es. ent_ok e" "i < length es"
  shows "vsEnt v first i = Some (es ! i)"
proof -
  let ?d = "concat (map ent_bytes es)"
  have c: "is_chain v first ys" "distinct ys" "length ys = clusters_for v (length ?d)" using s by (simp_all add: stored_def)
  have p: "0 < v_ppc v" using v(1) by (simp add: firm_def)
  have l: "length ?d = 512 * length es" using e(1) by (intro length_ents) simp
  have "512 * length es \<le> length ys * (512 * v_ppc v)" using clusters_for_enough [OF v(1), of "length ?d"] c(3) l by (simp add: csize_def)
  then have lt: "i < length ys * v_ppc v" using e(2) by simp
  have k: "i div v_ppc v < length ys" "i mod v_ppc v < v_ppc v" using lt p by (simp_all add: div_less_iff_less_mult)
  have "page (vimg v) (dpage v (ys ! (i div v_ppc v)) (i mod v_ppc v))
      = field (cluster_data v b (length ys) ?d ! (i div v_ppc v)) (i mod v_ppc v * 512) 512" using s(1) k by (simp add: stored_def)
  also have "\<dots> = field ?d ((i div v_ppc v * v_ppc v + i mod v_ppc v) * 512) 512"
    using e(2) l by (intro field_cluster_data [OF k]) simp
  also have "\<dots> = ent_bytes (es ! i)" using field_ents [OF e(2,1)] by simp
  finally have "ent_at v ys i = es ! i" using e by (simp add: ent_at_def ent_of_bytes)
  then show ?thesis using vsEnt_chain [OF v c(1,2)] lt by simp
qed

section \<open>Its files\<close>

lemma is_file_ent: "is_file (file_ent g c)"
  by (simp add: is_file_def has_mode_def file_ent_def blank_ent_def)

lemma file_ent_data:
  assumes v: "firm v" "sure v" "unat (v_allocEnd v) * csize v < 2 ^ 32" and s: "stored b v (f_data g) c xs"
    and g: "file_ok g" "length (f_data g) \<le> unat SAVE_MAX_SIZE"
  shows "file_data v (file_ent g c) = Some (f_data g)" "file_of (file_ent g c) (f_data g) = g"
proof -
  have u: "unat (of_nat (length (f_data g)) :: 32 word) = length (f_data g)" using g(2) by (intro unat_of_nat32) simp
  show "file_data v (file_ent g c) = Some (f_data g)"
  proof (cases "f_data g = []")
    case True
    then show ?thesis by (simp add: file_data_def file_ent_def)
  next
    case False
    then have "clusters_for v (length (f_data g)) \<noteq> 0" using clusters_for_0 [OF v(1)] by simp
    then have xs: "xs \<noteq> []" using s by (auto simp: stored_def)
    then have "is_chain v c xs" using s by (simp add: stored_def)
    then have "c < v_allocEnd v" using xs by (cases xs) auto
    then have "c \<noteq> FAT_END" by (rule end_not_cluster [OF v(1)])
    moreover have "(of_nat (length (f_data g)) :: 32 word) \<noteq> 0" using u False by (metis length_0_conv unsigned_0)
    ultimately show ?thesis using stored_read [OF v s xs] by (simp add: file_data_def file_ent_def)
  qed
  show "file_of (file_ent g c) (f_data g) = g"
    using g(1) by (simp add: file_of_def file_ent_def blank_ent_def file_ok_def c_str_name)
qed

lemma load_files_stored:
  assumes v: "firm v" "sure v" "unat (v_allocEnd v) * csize v < 2 ^ 32" and s: "save_ok s" "length firsts = length (s_files s)"
    and st: "\<And>k. k < length (s_files s) \<Longrightarrow> \<exists>xs. stored b v (f_data (s_files s ! k)) (firsts ! k) xs"
    and en: "\<And>k. k < length (s_files s) \<Longrightarrow> vsEnt v d (2 + k) = Some (file_ent (s_files s ! k) (firsts ! k))"
    and k: "k \<le> length (s_files s)"
  shows "load_files all_mem v d [2 + k..<2 + length (s_files s)] (take k (s_files s))
    (of_nat (sum_list (map (\<lambda>g. length (f_data g)) (take k (s_files s))))) = Inr (s_files s)"
  using k
proof (induction "length (s_files s) - k" arbitrary: k)
  case 0
  then show ?case by simp
next
  case (Suc m)
  let ?fs = "s_files s" and ?sum = "\<lambda>k. sum_list (map (\<lambda>g. length (f_data g)) (take k (s_files s)))"
  have k: "k < length ?fs" using Suc.hyps(2) by simp
  let ?g = "?fs ! k"
  have "?g \<in> set ?fs" using k by simp
  then have g: "file_ok ?g" using s(1) by (simp add: save_ok_def)
  have sm: "?sum (Suc k) = ?sum k + length (f_data ?g)" by (simp add: take_Suc_conv_app_nth [OF k])
  have "sum_list (map (\<lambda>g. length (f_data g)) ?fs) = ?sum (Suc k) + sum_list (map (\<lambda>g. length (f_data g)) (drop (Suc k) ?fs))"
    by (metis append_take_drop_id map_append sum_list_append)
  then have mx: "?sum (Suc k) \<le> unat SAVE_MAX_SIZE" using s(1) by (simp add: save_ok_def)
  have len: "length (f_data ?g) \<le> unat SAVE_MAX_SIZE" using mx sm by simp
  obtain xs where "stored b v (f_data ?g) (firsts ! k) xs" using st [OF k] by blast
  note fd = file_ent_data [OF v this g len]
  have el: "e_length (file_ent ?g (firsts ! k)) = of_nat (length (f_data ?g))" by (simp add: file_ent_def)
  have w: "\<not> (of_nat n :: 32 word) > SAVE_MAX_SIZE" if "n \<le> unat SAVE_MAX_SIZE" for n
    using that unat_of_nat32 [of n] by (simp add: word_less_nat_alt)
  have big: "\<not> (e_length (file_ent ?g (firsts ! k)) > SAVE_MAX_SIZE \<or> of_nat (?sum k) + e_length (file_ent ?g (firsts ! k)) > SAVE_MAX_SIZE)"
    using w [OF len] w [OF mx] unfolding el by (simp add: sm)
  have "[2 + k..<2 + length ?fs] = (2 + k) # [2 + Suc k..<2 + length ?fs]" using k by (simp add: upt_conv_Cons)
  moreover have "load_files all_mem v d [2 + Suc k..<2 + length ?fs] (take (Suc k) ?fs) (of_nat (?sum (Suc k))) = Inr ?fs"
    using Suc.hyps(1) [of "Suc k"] Suc.hyps(2) k by simp
  moreover have "take (Suc k) ?fs = take k ?fs @ [?g]" by (rule take_Suc_conv_app_nth [OF k])
  moreover have "\<not> length (take k ?fs) \<ge> SAVE_FILES" using k s(1) by (simp add: save_ok_def)
  ultimately show ?case using en [OF k] is_file_ent big fd
    by (simp add: el sm)
qed

lemma load_dir_stored:
  assumes v: "firm v" "sure v" "unat (v_allocEnd v) * csize v < 2 ^ 32" and s: "save_ok s" "length firsts = length (s_files s)"
    and st: "\<And>k. k < length (s_files s) \<Longrightarrow> \<exists>xs. stored b v (f_data (s_files s ! k)) (firsts ! k) xs"
    and d: "stored z v (concat (map ent_bytes (dir_ents u s slot firsts))) dirFirst ys" "ys \<noteq> []"
  shows "load_dir all_mem v (root_ent s dirFirst) = Inr s"
proof -
  have e: "\<forall>e \<in> set (dir_ents u s slot firsts). ent_ok e" using ent_ok_new(2) [OF s(1)] by blast
  have "vsEnt v dirFirst (2 + k) = Some (file_ent (s_files s ! k) (firsts ! k))" if "k < length (s_files s)" for k
    using stored_entry [OF v(1,2) d e, of "2 + k"] that s(2) by (simp add: dir_ents_def)
  note l = load_files_stored [OF v s st this, of 0]
  have "2 + length (s_files s) \<le> DIR_MAX" using s(1) by (simp add: save_ok_def)
  then have "vsDirLen (e_length (root_ent s dirFirst)) = 2 + length (s_files s)" unfolding root_ent_def
    using vsDirLen_small [of "2 + length (s_files s)"] by simp
  moreover have "e_cluster (root_ent s dirFirst) = dirFirst" "e_created (root_ent s dirFirst) = s_created s"
    "e_modified (root_ent s dirFirst) = s_modified s" "c_str (e_name (root_ent s dirFirst)) = s_name s"
    using s(1) by (simp_all add: root_ent_def blank_ent_def c_str_name save_ok_def)
  ultimately show ?thesis using l by (simp add: load_dir_def)
qed

end
