(* ===== verification/CardResult.thy ===== *)
theory CardResult
  imports CardRound
begin

text \<open>
  A successful import: a later session finds the save and loads it as it was given.
\<close>

section \<open>The card after an import\<close>

lemma same_links:
  assumes "v_allocEnd w = v_allocEnd v" "\<And>c. c < v_allocEnd v \<Longrightarrow> v_fat w ! unat c = v_fat v ! unat c"
  shows "vsNext w = vsNext v" "vsWalk w = vsWalk v" "is_chain w = is_chain v" "chain_of w = chain_of v"
proof -
  have "vsNext w c = vsNext v c" for c
  proof (cases "c < v_allocEnd v")
    case False
    then show ?thesis by (simp add: vsNext_def assms(1) not_less)
  qed (rule vsNext_cong [OF assms])
  then show n: "vsNext w = vsNext v" by (intro ext)
  have "walk_on w c k = walk_on v c k" for c k by (induction k arbitrary: c) (simp_all add: n)
  then show "vsWalk w = vsWalk v" by (intro ext) (simp add: vsWalk_def assms)
  have "is_chain w c xs = is_chain v c xs" for c xs by (induction xs arbitrary: c) (simp_all add: n assms)
  then show "is_chain w = is_chain v" by (intro ext)
  have "chain_steps k w c = chain_steps k v c" for k c by (induction k arbitrary: c) (simp_all add: n assms)
  then show "chain_of w = chain_of v" by (intro ext) (simp add: chain_of_def assms)
qed

text \<open>The two pages an appearing entry changes.\<close>

definition slot_page :: "vs_vmc \<Rightarrow> nat \<Rightarrow> nat" where
  "slot_page x i = dpage x (vsWalk x (v_root x) (i div v_ppc x)) (i mod v_ppc x)"

lemma appear_effect:
  assumes x: "firm x" "ent_ok dot" "save_ok s" and a: "appear x s slot dot d = (y, r)" and ne: "slot_page x slot \<noteq> slot_page x 0"
  shows "geo y = geo x" "v_fat y = v_fat x"
    "changed (\<lambda>p b. p = slot_page x slot \<and> b = ent_bytes (root_ent s d)
       \<or> p = slot_page x 0 \<and> slot \<ge> unat (e_length dot) \<and> b = ent_bytes (dot\<lparr>e_length := of_nat (slot + 1)\<rparr>)) (v_file x) (v_file y)"
    "r = Inr () \<Longrightarrow> page (vimg y) (slot_page x slot) = ent_bytes (root_ent s d)"
    "r = Inr () \<Longrightarrow> slot \<ge> unat (e_length dot) \<Longrightarrow> page (vimg y) (slot_page x 0) = ent_bytes (dot\<lparr>e_length := of_nat (slot + 1)\<rparr>)"
proof -
  let ?dot = "dot\<lparr>e_length := of_nat (slot + 1)\<rparr>"
  let ?new = "\<lambda>p b. p = slot_page x slot \<and> b = ent_bytes (root_ent s d) \<or> p = slot_page x 0 \<and> slot \<ge> unat (e_length dot) \<and> b = ent_bytes ?dot"
  obtain x1 ok where p: "vsEnt_put x (v_root x) slot (root_ent s d) = (x1, ok)" by (cases "vsEnt_put x (v_root x) slot (root_ent s d)")
  note e1 = ent_put_effect [OF x(1) ent_ok_new(1) [OF x(3)] p, folded slot_page_def]
  have c1: "changed ?new (v_file x) (v_file x1)" by (rule changed_mono [of "\<lambda>p b. vsWalk x (v_root x) (slot div v_ppc x) < v_allocEnd x \<and> p = slot_page x slot \<and> b = ent_bytes (root_ent s d)"]) (use e1 in blast)+
  have f1: "firm x1" by (rule firm_geo [OF x(1)]) (use e1 changed_size(1) in auto)
  have g1: "v_root x1 = v_root x" "v_ppc x1 = v_ppc x" "dpage x1 = dpage x" "v_allocEnd x1 = v_allocEnd x" using e1 geo_dpage [of x1 x] by (simp_all add: geo_eq)
  have "vsWalk x1 = vsWalk x" using same_table(5) [of x1 x] e1 g1 by simp
  then have sp: "dpage x1 (vsWalk x1 (v_root x1) (0 div v_ppc x1)) (0 mod v_ppc x1) = slot_page x 0" by (simp add: slot_page_def g1)
  have "geo y = geo x \<and> v_fat y = v_fat x \<and> changed ?new (v_file x) (v_file y)
    \<and> (r = Inr () \<longrightarrow> page (vimg y) (slot_page x slot) = ent_bytes (root_ent s d)
      \<and> (slot \<ge> unat (e_length dot) \<longrightarrow> page (vimg y) (slot_page x 0) = ent_bytes ?dot))"
  proof (cases "ok \<and> slot \<ge> unat (e_length dot)")
    case False
    then have "y = x1" "r = Inr () \<longrightarrow> ok" using a p by (auto simp: appear_def split: if_splits)
    then show ?thesis using e1 c1 False by auto
  next
    case True
    have d: "ent_ok ?dot" using x(2) by (simp add: ent_ok_def)
    obtain x2 ok2 where p2: "vsEnt_put x1 (v_root x1) 0 ?dot = (x2, ok2)" by (cases "vsEnt_put x1 (v_root x1) 0 ?dot")
    have y: "y = x2" "r = (if ok2 then Inr () else Inl VMCSAVES_ERR_WRITE)" using a True unfolding appear_def p prod.case p2 by auto
    note e2 = ent_put_effect [OF f1 d p2, unfolded sp]
    have "changed ?new (v_file x1) (v_file x2)" by (rule changed_mono [of "\<lambda>p b. vsWalk x1 (v_root x1) (0 div v_ppc x1) < v_allocEnd x1 \<and> p = slot_page x 0 \<and> b = ent_bytes ?dot"]) (use e2 True in blast)+
    then have c2: "changed ?new (v_file x) (v_file x2)" by (rule changed_trans [OF c1])
    have "page (vimg x2) (slot_page x slot) = page (vimg x1) (slot_page x slot)" using e2 ne unfolding changed_def by metis
    then show ?thesis using e1 e2 c2 y True by (cases ok2) auto
  qed
  then show "geo y = geo x" "v_fat y = v_fat x" "changed ?new (v_file x) (v_file y)"
    "r = Inr () \<Longrightarrow> page (vimg y) (slot_page x slot) = ent_bytes (root_ent s d)"
    "r = Inr () \<Longrightarrow> slot \<ge> unat (e_length dot) \<Longrightarrow> page (vimg y) (slot_page x 0) = ent_bytes ?dot" by blast+
qed

text \<open>The states a successful import goes through.\<close>

definition import_run ::
  "card_file \<Rightarrow> vs_vmc \<Rightarrow> vs_save \<Rightarrow> vs_ent \<Rightarrow> nat \<Rightarrow> bool \<Rightarrow> vs_vmc \<Rightarrow> vs_vmc \<Rightarrow> vs_vmc \<Rightarrow> vs_vmc \<Rightarrow> 32 word \<Rightarrow> vs_vmc \<Rightarrow> bool" where
  "import_run f v s dot slot grow v2 t w x d y \<longleftrightarrow>
     consistent f \<and> vsOpen all_mem (Some f) True = Inr v \<and> slot_ok (at_file v f) dot slot grow \<and> save_ok s
     \<and> apart v v2 \<and> apart v2 t \<and> grown v2 t (last (chain_of v (v_root v))) grow w \<and> vsFlushFat w = (x, True)
     \<and> appear x s slot dot d = (y, Inr ())"

lemma card_run_states:
  assumes "import_run f v s dot slot grow v2 t w x d y"
  shows "firm w" "geo w = geo v" "firm x" "geo x = geo v" "v_fat x = v_fat w" "vsWalk x = vsWalk w" "apart v t" "v_file w = v_file t"
    "firm v" "meta_safe v (vimg v)" "slot_page x 0 = root_page (at_file v f) 0" "slot_page x slot \<noteq> slot_page x 0"
    "\<exists>c. slot_page x slot = dpage v c (slot mod v_ppc v) \<and> c < v_allocEnd v \<and> vsWalk w (v_root v) (slot div v_ppc v) = c
       \<and> (c \<in> set (chain_of v (v_root v)) \<or> \<not> used v2 c)"
    "slot div v_ppc v < length (chain_of v (v_root v)) \<Longrightarrow> slot_page x slot = root_page (at_file v f) slot"
proof -
  let ?rc = "chain_of v (v_root v)"
  have o: "consistent f" "vsOpen all_mem (Some f) True = Inr v" and s: "slot_ok (at_file v f) dot slot grow" "save_ok s"
    and t2: "apart v v2" "apart v2 t" and g: "grown v2 t (last ?rc) grow w" and fl: "vsFlushFat w = (x, True)"
    using assms by (simp_all add: import_run_def)
  note op = vsOpen_write [OF o]
  note r = root_chain_opened [OF o]
  note gr = grown_after [OF o t2 g]
  show "firm w" "geo w = geo v" "v_file w = v_file t" "firm v" by (fact gr(1-3) op(4))+
  show m: "meta_safe v (vimg v)" using op(1,6) by simp
  show t: "apart v t" by (rule apart_trans [OF t2])
  have dw: "distinct (v_fatAbs w)" using m gr(2) by (simp add: meta_safe_def geo_eq)
  note fe = flush_effect(1-3) [OF gr(1) dw fl]
  show fx: "firm x" by (rule firm_geo [OF gr(1)]) (use fe flush_dirty_length [of w] fl changed_size(1) in auto)
  show gx: "geo x = geo v" "v_fat x = v_fat w" using fe gr(2) by simp_all
  show wx: "vsWalk x = vsWalk w" using same_table(5) [of x w] fe(1,2) by (simp add: geo_eq)
  have g3: "v_root x = v_root v" "v_ppc x = v_ppc v" "dpage x = dpage v" using gx geo_dpage [OF gx(1)] by (simp_all add: geo_eq)
  have uv: "v_root (at_file v f) = v_root v" "v_ppc (at_file v f) = v_ppc v" "dpage (at_file v f) = dpage v" using geo_dpage [of "at_file v f" v] by simp_all
  have p0: "0 < v_ppc v" using op(4) by (simp add: firm_def)
  have z: "vsWalk w (v_root v) 0 = ?rc ! 0" using gr(5) [of 0] r(4) by simp
  show sp0: "slot_page x 0 = root_page (at_file v f) 0" by (simp add: slot_page_def root_page_def wx g3 uv r(1) z)
  note sw = slot_walk [OF o t2 g s(1)]
  let ?c = "vsWalk w (v_root v) (slot div v_ppc v)"
  have sp: "slot_page x slot = dpage v ?c (slot mod v_ppc v)" by (simp add: slot_page_def wx g3)
  have c: "?c \<in> set ?rc \<or> \<not> used v2 ?c" using sw(2) nth_mem by metis
  then show "\<exists>c. slot_page x slot = dpage v c (slot mod v_ppc v) \<and> c < v_allocEnd v \<and> vsWalk w (v_root v) (slot div v_ppc v) = c
       \<and> (c \<in> set ?rc \<or> \<not> used v2 c)" using sp sw(1) by blast
  show rp: "slot div v_ppc v < length ?rc \<Longrightarrow> slot_page x slot = root_page (at_file v f) slot"
    unfolding sp root_page_def uv r(1) by (simp add: gr(5))
  have s2: "2 \<le> slot" using s(1) op(3) by (auto simp: slot_ok_def card_ok_def)
  show "slot_page x slot \<noteq> slot_page x 0"
  proof
    assume e: "slot_page x slot = slot_page x 0"
    then have e2: "dpage v ?c (slot mod v_ppc v) = dpage v (?rc ! 0) 0" unfolding sp sp0 root_page_def uv r(1) by simp
    have "slot mod v_ppc v < v_ppc v" using p0 by simp
    then have "?c = ?rc ! 0" "slot mod v_ppc v = 0" using dpage_inject [OF _ p0] e2 by metis+
    then have u: "used v2 ?c" using r(4) apart_used [OF t2(1)] r(7,8) by simp
    then have k: "slot div v_ppc v < length ?rc" "?rc ! (slot div v_ppc v) = ?rc ! 0" using sw(2) \<open>?c = ?rc ! 0\<close> by auto
    then have "slot div v_ppc v = 0" using r(3,4) nth_eq_iff_index_eq by fastforce
    then show False using \<open>slot mod v_ppc v = 0\<close> s2 by (metis div_mult_mod_eq add_0 mult_0 not_numeral_le_zero)
  qed
qed

lemma run_appear:
  assumes "import_run f v s dot slot grow v2 t w x d y"
  shows "geo y = geo v" "v_fat y = v_fat w" "page (vimg y) (slot_page x slot) = ent_bytes (root_ent s d)"
    "slot \<ge> unat (e_length dot) \<Longrightarrow> page (vimg y) (slot_page x 0) = ent_bytes (dot\<lparr>e_length := of_nat (slot + 1)\<rparr>)"
    "p \<noteq> slot_page x slot \<Longrightarrow> p \<noteq> slot_page x 0 \<or> slot < unat (e_length dot) \<Longrightarrow> page (vimg y) p = page (vimg x) p"
    "cf_size (v_file y) = cf_size (v_file x)"
proof -
  note st = card_run_states [OF assms]
  have d: "ent_ok dot" "save_ok s" and a: "appear x s slot dot d = (y, Inr ())" using assms by (simp_all add: import_run_def slot_ok_def)
  note e = appear_effect [OF st(3) d a st(12)]
  show "geo y = geo v" "v_fat y = v_fat w" "page (vimg y) (slot_page x slot) = ent_bytes (root_ent s d)"
    "slot \<ge> unat (e_length dot) \<Longrightarrow> page (vimg y) (slot_page x 0) = ent_bytes (dot\<lparr>e_length := of_nat (slot + 1)\<rparr>)"
    using e st(4,5) by simp_all
  show "p \<noteq> slot_page x slot \<Longrightarrow> p \<noteq> slot_page x 0 \<or> slot < unat (e_length dot) \<Longrightarrow> page (vimg y) p = page (vimg x) p"
    using e(3) unfolding changed_def by (metis not_le)
  show "cf_size (v_file y) = cf_size (v_file x)" by (rule changed_size(1) [OF e(3)])
qed

text \<open>The table on the card is the one in memory.\<close>

lemma run_table:
  assumes run: "import_run f v s dot slot grow v2 t w x d y" and c: "c < v_allocEnd v"
  shows "disk_fat v (vimg y) (unat c) = v_fat w ! unat c"
proof -
  note st = card_run_states [OF run]
  have o: "consistent f" "vsOpen all_mem (Some f) True = Inr v" and t2: "apart v v2" "apart v2 t"
    and g: "grown v2 t (last (chain_of v (v_root v))) grow w" and fl: "vsFlushFat w = (x, True)"
    using run by (simp_all add: import_run_def)
  note op = vsOpen_write [OF o]
  note gr = grown_after [OF o t2 g]
  note dg = disk_fat_geo [OF st(2)]
  have lt: "unat c < fat_clusters v * epc v" by (rule cluster_in_table [OF st(9) c])
  have ltw: "unat c < fat_clusters w * epc w" using lt geo_derived [OF st(2)] by simp
  have p0: "0 < v_ppc v" using st(9) by (simp add: firm_def)
  have nf: "dpage v b j \<noteq> fat_page v (unat c)" if "j < v_ppc v" for b j by (rule dpage_not_fat_page [OF st(10,9) that lt])
  have dw: "distinct (v_fatAbs w)" using st(2,10) by (simp add: meta_safe_def geo_eq)
  have "v_fatDirty w ! (unat c div epc v) \<or> disk_fat v (vimg w) (unat c) = v_fat w ! unat c"
  proof (cases "v_fat w ! unat c = v_fat v ! unat c")
    case True
    have "page (vimg w) (fat_page v (unat c)) = page (vimg v) (fat_page v (unat c))"
      unfolding st(8) using st(7) nf unfolding apart_def changed_def by metis
    then have "disk_fat v (vimg w) (unat c) = disk_fat v (cf_at f) (unat c)" using op(1) by (simp add: disk_fat_def)
    also have "\<dots> = v_fat (at_file v f) ! unat c" using lt by (simp add: at_file_def)
    finally show ?thesis using True op(2) by simp
  next
    case False
    have "unat c div epc v < fat_clusters v" by (rule dirty_index [OF st(9) c])
    then show ?thesis using gr(7) [OF False c] op(7) by blast
  qed
  then have "disk_fat w (vimg x) (unat c) = v_fat w ! unat c"
    using flush_disk_fat(2) [OF st(1) dw fl ltw] geo_derived [OF st(2)] dg by simp
  moreover have "page (vimg y) (fat_page v (unat c)) = page (vimg x) (fat_page v (unat c))"
  proof (rule run_appear(5) [OF run])
    obtain b where "slot_page x slot = dpage v b (slot mod v_ppc v)" using st(13) by blast
    then show "fat_page v (unat c) \<noteq> slot_page x slot" using nf [of "slot mod v_ppc v" b] p0 by simp
    have "slot_page x 0 = dpage v (chain_of v (v_root v) ! 0) 0"
      unfolding st(11) root_page_def using root_chain_opened(1) [OF o] geo_dpage [of "at_file v f" v] by simp
    then show "fat_page v (unat c) \<noteq> slot_page x 0 \<or> slot < unat (e_length dot)" using nf [OF p0, of "chain_of v (v_root v) ! 0"] by simp
  qed
  ultimately show ?thesis by (simp add: disk_fat_def dg)
qed

lemma run_keeps:
  assumes run: "import_run f v s dot slot grow v2 t w x d y"
  shows "keeps v {last (chain_of v (v_root v))} (new_pages (at_file v f) s dot slot) (v_file y)"
proof -
  note st = card_run_states [OF run]
  have o: "consistent f" "vsOpen all_mem (Some f) True = Inr v" and s: "slot_ok (at_file v f) dot slot grow" "save_ok s"
    and t2: "apart v v2" and g: "grown v2 t (last (chain_of v (v_root v))) grow w" and fl: "vsFlushFat w = (x, True)"
    and a: "appear x s slot dot d = (y, Inr ())" using run by (simp_all add: import_run_def)
  note g' = grown_mono [OF t2 g]
  show ?thesis by (rule appear_keeps [OF o st(7) g' s st(4,3,5) grown_keeps(2) [OF o st(7) g' fl] a])
qed

lemma run_open:
  assumes run: "import_run f v s dot slot grow v2 t w x d y"
  defines "W \<equiv> at_file v (v_file y)"
  shows "vsOpen (\<lambda>_. True) (Some (sure_file (v_file y))) False = Inr W" "firm W" "sure W" "cf_size (v_file y) = cf_size f"
    "vsNext W = vsNext w" "vsWalk W = vsWalk w" "is_chain W = is_chain w" "chain_of W = chain_of w"
    "c < v_allocEnd v \<Longrightarrow> v_fat W ! unat c = v_fat w ! unat c"
proof -
  have o: "consistent f" "vsOpen all_mem (Some f) True = Inr v" using run by (simp_all add: import_run_def)
  note op = vsOpen_write [OF o]
  note k = run_keeps [OF run]
  have sz: "cf_size (v_file y) = cf_size f" "same_meta v (cf_at f) (cf_at (v_file y))" using k op(1) by (simp_all add: keeps_def)
  show "vsOpen (\<lambda>_. True) (Some (sure_file (v_file y))) False = Inr W" unfolding W_def by (rule reopen [OF o(2) op(5) sz])
  show "cf_size (v_file y) = cf_size f" by (rule sz(1))
  have "firm (at_file v f)" using op(3) by (simp add: card_ok_def)
  then show "firm W" by (rule firm_geo) (simp_all add: W_def at_file_def geo_def sure_file_def sz)
  show "sure W" by (simp add: W_def)
  show fat: "v_fat W ! unat c = v_fat w ! unat c" if "c < v_allocEnd v" for c
    using run_table [OF run that] cluster_in_table [OF op(4) that] by (simp add: W_def at_file_def)
  have ae: "v_allocEnd W = v_allocEnd w" "v_allocEnd w = v_allocEnd v" using card_run_states(2) [OF run] by (simp_all add: W_def geo_eq)
  have "v_fat W ! unat c = v_fat w ! unat c" if "c < v_allocEnd w" for c using fat that ae(2) by simp
  from same_links [OF ae(1) this]
  show "vsNext W = vsNext w" "vsWalk W = vsWalk w" "is_chain W = is_chain w" "chain_of W = chain_of w" by simp_all
qed

text \<open>The new clusters hold what was written to them.\<close>

lemma run_stored:
  assumes run: "import_run f v s dot slot grow v2 t w x d y"
    and st: "stored b v2 data first xs" "\<forall>c \<in> set xs. \<not> used v c \<and> used v2 c"
  shows "stored b (at_file v (v_file y)) data first xs"
proof -
  let ?W = "at_file v (v_file y)"
  note rs = card_run_states [OF run]
  note ro = run_open [OF run]
  have o: "consistent f" "vsOpen all_mem (Some f) True = Inr v" and t2: "apart v v2" "apart v2 t"
    and g: "grown v2 t (last (chain_of v (v_root v))) grow w" and fl: "vsFlushFat w = (x, True)" using run by (simp_all add: import_run_def)
  note gr = grown_after [OF o t2 g]
  note r = root_chain_opened [OF o]
  note g2 = apart_geo [OF t2(1)]
  have f2: "firm v2" by (rule apart_firm [OF t2(1) rs(9)])
  have lt: "c < v_allocEnd v" if "c \<in> set xs" for c using stored_clusters [OF st(1) that] g2(4) by simp
  have nr: "c \<notin> set (chain_of v (v_root v))" if "c \<in> set xs" for c using r(7) st(2) that by blast
  then have nl: "c \<noteq> last (chain_of v (v_root v))" if "c \<in> set xs" for c using that nr last_in_set [OF r(4)] by metis
  have stt: "stored b t data first xs" using stored_apart [OF t2(2) f2 st(1)] st(2) by blast
  have Wg: "v_ppc ?W = v_ppc v" "dpage ?W = dpage v" "csize ?W = csize v" using geo_dpage [of ?W v] by simp_all
  have tg: "v_ppc t = v_ppc v" "dpage t = dpage v" "csize t = csize v" "v_allocEnd t = v_allocEnd v" using apart_geo [OF rs(7)] by simp_all
  have dw: "distinct (v_fatAbs w)" using rs(2,10) by (simp add: meta_safe_def geo_eq)
  have mw: "meta_safe w (vimg v)" using rs(10) meta_safe_geo [OF rs(2)] by simp
  have wg: "v_ppc w = v_ppc v" "dpage w = dpage v" using rs(2) geo_dpage [OF rs(2)] by (simp_all add: geo_eq)
  have pg: "page (vimg y) (dpage v c j) = page (vimg t) (dpage v c j)" if c: "c \<in> set xs" "j < v_ppc v" for c j
  proof -
    obtain e where e: "slot_page x slot = dpage v e (slot mod v_ppc v)" "e \<in> set (chain_of v (v_root v)) \<or> \<not> used v2 e" using rs(13) by blast
    have ce: "c \<noteq> e" using e(2) nr [OF c(1)] st(2) c(1) by auto
    have "slot_page x 0 = dpage v (chain_of v (v_root v) ! 0) 0"
      unfolding rs(11) root_page_def using r(1) geo_dpage [of "at_file v f" v] by simp
    moreover have "c \<noteq> chain_of v (v_root v) ! 0" using nr [OF c(1)] r(4) by auto
    moreover have "0 < v_ppc v" "slot mod v_ppc v < v_ppc v" using rs(9) by (simp_all add: firm_def)
    ultimately have "dpage v c j \<noteq> slot_page x 0" "dpage v c j \<noteq> slot_page x slot" using dpage_inject [OF c(2)] e(1) ce by metis+
    then have "page (vimg y) (dpage v c j) = page (vimg x) (dpage v c j)" by (intro run_appear(5) [OF run]) simp_all
    also have "\<dots> = page (vimg w) (dpage v c j)"
      using flush_effect(3) [OF rs(1) dw fl] dpage_not_fat [OF mw rs(1), of j c] c(2) wg unfolding changed_def by metis
    finally show ?thesis by (simp add: rs(8))
  qed
  have "is_chain ?W first xs" if "is_chain t first xs"
    unfolding ro(7)
  proof (rule is_chain_cong [OF that])
    show "v_allocEnd w = v_allocEnd t" using rs(2) tg(4) by (simp add: geo_eq)
    fix c assume "c \<in> set xs"
    then show "v_fat w ! unat c = v_fat t ! unat c" using gr(4) [OF lt nl] by blast
  qed
  then show ?thesis using stt pg unfolding stored_def by (simp add: Wg tg clusters_for_def cluster_data_def)
qed

section \<open>The save is there\<close>

lemma first_some_skip: "(\<And>k. k \<in> set ks \<Longrightarrow> f k = None) \<Longrightarrow> first_some f (ks @ js) = first_some f js"
  by (induction ks) auto

lemma first_some_None: "first_some f xs = None \<longleftrightarrow> (\<forall>x \<in> set xs. f x = None)"
  by (induction xs) (auto split: option.splits)

lemma shown_root_ent: "shown (root_ent s d)"
  by (simp add: shown_def has_mode_def root_ent_def blank_ent_def)

lemma run_find:
  assumes run: "import_run f v s dot slot grow v2 t w x d y" and none: "vsFindSave (at_file v f) (s_name s) = None"
  shows "vsFindSave (at_file v (v_file y)) (s_name s) = Some (slot, root_ent s d)"
proof -
  let ?W = "at_file v (v_file y)" and ?u = "at_file v f" and ?rc = "chain_of v (v_root v)"
  note rs = card_run_states [OF run]
  note ro = run_open [OF run]
  note ra = run_appear [OF run]
  have o: "consistent f" "vsOpen all_mem (Some f) True = Inr v" and s: "slot_ok ?u dot slot grow" "save_ok s"
    and t2: "apart v v2" "apart v2 t" and g: "grown v2 t (last ?rc) grow w" using run by (simp_all add: import_run_def)
  note op = vsOpen_write [OF o]
  note r = root_chain_opened [OF o]
  note gr = grown_after [OF o t2 g]
  have Wg: "v_ppc ?W = v_ppc v" "dpage ?W = dpage v" "v_root ?W = v_root v" "v_allocEnd ?W = v_allocEnd v"
    "v_ppc ?u = v_ppc v" "dpage ?u = dpage v" "v_root ?u = v_root v" using geo_dpage [of ?W v] geo_dpage [of ?u v] by simp_all
  have p0: "0 < v_ppc v" using rs(9) by (simp add: firm_def)
  have s2: "2 \<le> slot" "slot \<le> dirlen ?u" "slot < DIR_MAX" using s(1) op(3) by (auto simp: slot_ok_def card_ok_def)
  have eW: "vsEnt ?W (v_root v) k = Some (ent_of (page (vimg y) (dpage v (vsWalk w (v_root v) (k div v_ppc v)) (k mod v_ppc v))))"
    if "vsWalk w (v_root v) (k div v_ppc v) < v_allocEnd v" for k using that by (simp add: vsEnt_sure [OF ro(2,3)] Wg ro(6))
  have rp: "dpage v (vsWalk w (v_root v) (k div v_ppc v)) (k mod v_ppc v) = root_page ?u k"
    "vsWalk w (v_root v) (k div v_ppc v) < v_allocEnd v" if "k < dirlen ?u" for k
  proof -
    have "k div v_ppc v < length ?rc" using that r(9) p0 by (simp add: div_less_iff_less_mult)
    then show "dpage v (vsWalk w (v_root v) (k div v_ppc v)) (k mod v_ppc v) = root_page ?u k"
      "vsWalk w (v_root v) (k div v_ppc v) < v_allocEnd v" using gr(5) r(1,8) by (simp_all add: root_page_def Wg)
  qed
  obtain c where c: "slot_page x slot = dpage v c (slot mod v_ppc v)" "c < v_allocEnd v" "vsWalk w (v_root v) (slot div v_ppc v) = c" using rs(13) by blast
  have "ent_of (page (vimg y) (slot_page x slot)) = root_ent s d" using ra(3) ent_of_bytes [OF ent_ok_new(1) [OF s(2)]] by simp
  then have "vsEnt ?W (v_root v) slot = Some (root_ent s d)" using eW [of slot] c by simp
  moreover have "vsNameIs (root_ent s d) (s_name s)" using s(2) by (simp add: vsNameIs_def root_ent_def blank_ent_def c_str_name save_ok_def name_ok_def)
  ultimately have at: "save_at ?W (s_name s) slot = Some (slot, root_ent s d)" using shown_root_ent Wg(3) by (simp add: save_at_Some)
  have lt: "k < length (chain_of ?u (v_root ?u)) * v_ppc ?u" if "k < dirlen ?u" for k using that r(1,9) Wg by simp
  have sd: "k \<noteq> slot \<Longrightarrow> root_page ?u k \<noteq> slot_page x slot" "2 \<le> k \<Longrightarrow> root_page ?u k \<noteq> slot_page x 0" if k: "k < dirlen ?u" for k
  proof -
    show "2 \<le> k \<Longrightarrow> root_page ?u k \<noteq> slot_page x 0"
      unfolding rs(11) using root_page_inject [OF op(3) lt [OF k] lt [of 0]] op(3) by (simp add: card_ok_def)
    assume ks: "k \<noteq> slot"
    show "root_page ?u k \<noteq> slot_page x slot"
    proof (cases "slot div v_ppc v < length ?rc")
      case True
      then have "slot < length (chain_of ?u (v_root ?u)) * v_ppc ?u" using r(1) Wg p0 by (simp add: div_less_iff_less_mult)
      then show ?thesis using root_page_inject [OF op(3) lt [OF k]] rs(14) [OF True] ks by simp
    next
      case False
      then have "slot \<ge> length ?rc * v_ppc v" using p0 by (simp add: div_less_iff_less_mult not_less)
      then have "slot = length ?rc * v_ppc v" "slot = dirlen ?u" using s2(2) r(9) by simp_all
      then have "slot div v_ppc v = length ?rc" "slot mod v_ppc v = 0" "\<not> slot < dirlen ?u" using p0 by simp_all
      then have gw: "grow" "slot div v_ppc v = length ?rc" using s(1) Wg(5) unfolding slot_ok_def by auto
      have m: "slot mod v_ppc v < v_ppc v" "k div v_ppc v < length ?rc" using p0 k r(9) by (simp_all add: div_less_iff_less_mult)
      have "\<not> used v2 c" using gr(6) [OF gw(1)] c(3) gw(2) by simp
      then have "c \<notin> set ?rc" using r(7,8) apart_used [OF t2(1)] by blast
      then have "c \<noteq> ?rc ! (k div v_ppc v)" using m(2) by auto
      then show ?thesis using c(1) dpage_inject [OF m(1)] r(1) Wg p0 by (metis root_page_def mod_less_divisor)
    qed
  qed
  have old: "save_at ?W (s_name s) k = None" if k: "2 \<le> k" "k < dirlen ?u" "k \<noteq> slot" for k
  proof -
    have pg: "page (vimg y) (root_page ?u k) = page (vimg v) (root_page ?u k)"
    proof -
      have kd: "k div v_ppc v < length ?rc" "k mod v_ppc v < v_ppc v" using k(2) r(9) p0 by (simp_all add: div_less_iff_less_mult)
      have e: "root_page ?u k = dpage v (?rc ! (k div v_ppc v)) (k mod v_ppc v)" using r(1) Wg by (simp add: root_page_def)
      have "\<not> new_pages ?u s dot slot (root_page ?u k) b" for b
        using root_page_inject [OF op(3) lt [OF k(2)]] k lt [of 0] s2 by (auto simp: new_pages_def)
      then show ?thesis using run_keeps [OF run] kd r(7,8) unfolding keeps_def e by (metis nth_mem)
    qed
    have "vsEnt ?u (v_root v) k = Some (ent_of (page (cf_at f) (root_page ?u k)))"
      using root_entry_self [OF op(3) _ lt [OF k(2)]] Wg by (simp add: root_page_def)
    then have "vsEnt ?W (v_root v) k = vsEnt ?u (v_root v) k" using eW [OF rp(2) [OF k(2)]] rp(1) [OF k(2)] pg op(1) by simp
    then have "save_at ?W (s_name s) k = save_at ?u (s_name s) k" using Wg by (simp add: save_at_def)
    moreover have "save_at ?u (s_name s) k = None"
      using none k(1,2) unfolding vsFindSave_dirlen first_some_None by simp
    ultimately show ?thesis by simp
  qed
  have d0: "0 < dirlen ?u" using s2 by simp
  have e0: "vsEnt ?W (v_root v) 0 = Some (ent_of (page (vimg y) (slot_page x 0)))"
    using eW [of 0] rp [OF d0] rs(11) by simp
  have len: "slot < dirlen ?W"
  proof (cases "slot \<ge> unat (e_length dot)")
    case True
    have "ent_ok (dot\<lparr>e_length := of_nat (slot + 1)\<rparr>)" using s(1) by (simp add: slot_ok_def ent_ok_def)
    then have "e_length (ent_of (page (vimg y) (slot_page x 0))) = of_nat (slot + 1)" using ra(4) [OF True] by (simp add: ent_of_bytes)
    then have "dirlen ?W = slot + 1" using e0 Wg(3) vsDirLen_small [of "slot + 1"] s2(3) by (simp add: dirlen_def)
    then show ?thesis by simp
  next
    case False
    then have sl: "slot < dirlen ?u" using s(1) by (auto simp: slot_ok_def)
    have "page (vimg y) (slot_page x 0) = page (vimg v) (slot_page x 0)"
    proof -
      have e: "root_page ?u 0 = dpage v (?rc ! 0) 0" using r(1) Wg by (simp add: root_page_def)
      have "\<not> new_pages ?u s dot slot (root_page ?u 0) b" for b
        using root_page_inject [OF op(3) lt [OF d0] lt [OF sl]] sl s2(1) by (auto simp: new_pages_def)
      then show ?thesis using run_keeps [OF run] p0 r(4,7,8) unfolding keeps_def rs(11) e by (metis length_greater_0_conv nth_mem)
    qed
    moreover have "vsEnt ?u (v_root v) 0 = Some (ent_of (page (cf_at f) (slot_page x 0)))"
      using root_entry_self [OF op(3) _ lt [OF d0]] Wg unfolding rs(11) by (simp add: root_page_def)
    ultimately have "dirlen ?W = dirlen ?u" using e0 op(1) Wg by (simp add: dirlen_def)
    then show ?thesis using sl by simp
  qed
  have "[2..<dirlen ?W] = [2..<slot] @ slot # [Suc slot..<dirlen ?W]"
    using len s2(1) upt_add_eq_append [of 2 slot "dirlen ?W - slot"] upt_conv_Cons [of slot "dirlen ?W"] by simp
  moreover have "first_some (save_at ?W (s_name s)) ([2..<slot] @ slot # [Suc slot..<dirlen ?W]) = Some (slot, root_ent s d)"
    using old s2(2) at by (subst first_some_skip) auto
  ultimately show ?thesis by (simp add: vsFindSave_dirlen)
qed

end
