(* ===== verification/CardStored.thy ===== *)
theory CardStored
  imports CardResult
begin

text \<open>
  The result of a session with a card: a save that was loaded is well formed, an import ends with the
  save on the card, a deletion with the save gone and its clusters free.
\<close>

section \<open>A reliable card\<close>

lemma open_reliable:
  assumes "consistent f" "reliable f"
  obtains v where "vsOpen all_mem (Some f) True = Inr v" "vsOpen all_mem (Some f) False = Inr v" "at_file v f = v" "v_file v = f"
    "sure_file f = f" "card_ok v" "firm v" "sure v"
proof -
  have "cf_rd f = (\<lambda>_ _. True)" using assms(2) by (intro ext) (simp add: reliable_def)
  then have sf: "sure_file f = f" unfolding sure_file_def by (intro card_file.equality) simp_all
  obtain v where v: "vsOpen all_mem (Some f) False = Inr v" "card_ok v"
    using assms(1) sf by (auto simp: consistent_def split: sum.splits)
  have fv: "firm v" using v(2) by (simp add: card_ok_def)
  then have raw: "v_raw v = 512" by (simp add: firm_def)
  have "v_raw v = v_raw (head_of f)" using v(1) unfolding vsOpen_iff by auto
  then have "\<not> v_ecc (head_of f)" using raw by (auto simp: head_of_def Let_def)
  then have w: "vsOpen all_mem (Some f) True = Inr v" using v(1) unfolding vsOpen_iff by auto
  note e = vsOpen_fat [OF v(1) raw]
  have "v_file (at_file v f) = f" by (simp add: at_file_def sf)
  then have "(at_file v f)\<lparr>v_file := f\<rparr> = at_file v f" by (intro vs_vmc.equality) simp_all
  then have "at_file v f = v" using e(1) by simp
  moreover have "sure v" using assms(2) e(2) by (simp add: sure_def reliable_def)
  ultimately show ?thesis using that w v e(2) sf fv by blast
qed

section \<open>Importing\<close>

definition has_room :: "card_file \<Rightarrow> vs_save \<Rightarrow> bool" where
  "has_room f s \<longleftrightarrow>
     (case vsOpen all_mem (Some f) False of
        Inl _ \<Rightarrow> False
      | Inr v \<Rightarrow>
          (case vsEnt v (v_root v) 0 of
             None \<Rightarrow> False
           | Some dot \<Rightarrow> (case root_slot v dot of None \<Rightarrow> False | Some (slot, grow) \<Rightarrow> needed v s grow \<le> vsFreeCount v)))"

lemma load_files_error: "load_files mem v d ks fs n \<noteq> Inl VMCSAVES_ERR_NO_SAVE"
  by (induction ks arbitrary: fs n) (auto split: option.splits)

lemma no_save_iff:
  assumes "vsOpen all_mem (Some f) False = Inr v"
  shows "vsLoadVmc all_mem (Some f) name = Inl VMCSAVES_ERR_NO_SAVE \<longleftrightarrow> vsFindSave v name = None"
  using load_files_error by (auto simp: vsLoadVmc_def assms load_dir_def split: option.splits sum.splits)

text \<open>The save a successful import leaves.\<close>

lemma run_load:
  assumes run: "import_run f v s dot slot grow v2 t w x df y" and b: "built v v2 s slot firsts df xss ys"
    and sz: "cf_size f < 2 ^ 32" and none: "vsFindSave (at_file v f) (s_name s) = None"
  shows "load_later (v_file y) (s_name s) = Inr s"
proof -
  let ?W = "at_file v (v_file y)"
  have o: "consistent f" "vsOpen all_mem (Some f) True = Inr v" and s: "save_ok s" using run by (simp_all add: import_run_def)
  note op = vsOpen_write [OF o]
  note ro = run_open [OF run]
  have find: "vsFindSave ?W (s_name s) = Some (slot, root_ent s df)" by (rule run_find [OF run none])
  have "unat (v_allocEnd v) \<le> unat (v_clusters v)" "unat (v_clusters v) * csize v \<le> cf_size f" using op(1,4) by (simp_all add: firm_def)
  then have "unat (v_allocEnd v) * csize v < 2 ^ 32" using sz by (meson le_less_trans le_trans mult_le_mono1)
  then have sw: "unat (v_allocEnd ?W) * csize ?W < 2 ^ 32" by simp
  have new: "\<forall>c \<in> set zs. \<not> used v c \<and> used v2 c" if "set zs \<subseteq> set (concat xss @ ys)" for zs
    using b that unfolding built_def by blast
  have bl: "length firsts = length (s_files s)" "length xss = length (s_files s)" "ys \<noteq> []" using b by (simp_all add: built_def)
  have dir: "stored 0 ?W (concat (map ent_bytes (dir_ents v s slot firsts))) df ys"
    using run_stored [OF run _ new [of ys]] b unfolding built_def by auto
  have "load_dir all_mem ?W (root_ent s df) = Inr s"
  proof (rule load_dir_stored [OF ro(2,3) sw s bl(1) _ dir bl(3)])
    fix k assume k: "k < length (s_files s)"
    then have "set (xss ! k) \<subseteq> set (concat xss @ ys)" using nth_mem [of k xss] bl(2) by fastforce
    then have "stored 0xFF ?W (f_data (s_files s ! k)) (firsts ! k) (xss ! k)"
      using run_stored [OF run _ new] b k unfolding built_def by blast
    then show "\<exists>xs. stored 0xFF ?W (f_data (s_files s ! k)) (firsts ! k) xs" by blast
  qed
  then show ?thesis using ro(1) find by (simp add: load_later_def vsLoadVmc_def)
qed

section \<open>What a load gives\<close>

lemma c_str_props: "length (c_str bs) \<le> length bs" "0 \<notin> set (c_str bs)"
  unfolding c_str_def using length_takeWhile_le set_takeWhileD by fastforce+

lemma page_read_length: "page_read p f = Some b \<Longrightarrow> length b = 512"
  by (auto simp: page_read_def split: if_splits)

lemma vsIo_read_length:
  assumes "vsIo_read v a = Some b"
  shows "length b = csize v"
proof -
  let ?r = "\<lambda>p. page_read ((unat a * v_ppc v + p) * v_raw v) (v_file v)"
  obtain ys where ys: "those (map ?r [0..<v_ppc v]) = Some ys" "b = concat ys" using assms by (auto simp: vsIo_read_def)
  have m: "map ?r [0..<v_ppc v] = map Some ys" by (rule those_Some [OF ys(1)])
  then have l: "length ys = v_ppc v" by (metis length_map length_upt minus_nat.diff_0)
  have "length y = 512" if "y \<in> set ys" for y
  proof -
    have "Some y \<in> set (map Some ys)" using that by simp
    then have "Some y \<in> set (map ?r [0..<v_ppc v])" unfolding m .
    then show ?thesis using page_read_length by auto
  qed
  then have "map length ys = replicate (v_ppc v) 512" using l by (metis map_replicate_const map_cong)
  then show ?thesis by (simp add: ys(2) length_concat csize_def sum_list_replicate)
qed

lemma vsEnt_lengths:
  assumes "vsEnt v d i = Some e" "0 < v_ppc v"
  shows "length (e_name e) = 32" "length (e_created e) = 8" "length (e_modified e) = 8"
proof -
  obtain cl a where cl: "vsIo_read v a = Some cl" "e = ent_of (field cl (i mod v_ppc v * 512) 512)"
    using assms(1) by (auto simp: vsEnt_def split: option.splits)
  have "i mod v_ppc v + 1 \<le> v_ppc v" using assms(2) by (simp add: Suc_leI)
  then have "(i mod v_ppc v + 1) * 512 \<le> v_ppc v * 512" by (rule mult_le_mono1)
  then have "i mod v_ppc v * 512 + 512 \<le> length cl" using vsIo_read_length [OF cl(1)] by (simp add: csize_def)
  then have "length (field cl (i mod v_ppc v * 512) 512) = 512" by (simp add: field_def)
  from ent_of_ok [OF this] show "length (e_name e) = 32" "length (e_created e) = 8" "length (e_modified e) = 8"
    unfolding cl(2) ent_ok_def by blast+
qed

lemma read_clusters_length: "read_clusters v n c = Some b \<Longrightarrow> length b = n * csize v"
  by (induction n arbitrary: c b) (auto simp: vsIo_read_length split: if_splits option.splits)

lemma file_data_length:
  assumes "file_data v e = Some b" "0 < v_ppc v"
  shows "length b = unat (e_length e)"
proof (cases "e_length e = 0")
  case False
  then obtain r where r: "read_clusters v (clusters_for v (unat (e_length e))) (e_cluster e) = Some r" "b = take (unat (e_length e)) r"
    using assms(1) by (auto simp: file_data_def vsReadChain_def split: if_splits)
  have c: "0 < csize v" using assms(2) by (simp add: csize_def)
  let ?n = "unat (e_length e)"
  have "?n + csize v - 1 < (?n + csize v - 1) div csize v * csize v + csize v"
    using c by (metis add.commute div_mult_mod_eq mod_less_divisor nat_add_left_cancel_less)
  then have "?n \<le> clusters_for v ?n * csize v" using c by (simp add: clusters_for_def)
  then show ?thesis using read_clusters_length [OF r(1)] r(2) by simp
qed (use assms in \<open>simp add: file_data_def\<close>)

lemma load_files_ok:
  assumes "load_files mem v d ks fs tot = Inr gs" "0 < v_ppc v" "\<forall>g \<in> set fs. file_ok g" "length fs \<le> SAVE_FILES"
    and "sum_list (map (\<lambda>g. length (f_data g)) fs) = unat tot" "tot \<le> SAVE_MAX_SIZE"
  shows "(\<forall>g \<in> set gs. file_ok g) \<and> length gs \<le> SAVE_FILES \<and> sum_list (map (\<lambda>g. length (f_data g)) gs) \<le> unat SAVE_MAX_SIZE"
  using assms
proof (induction ks arbitrary: fs tot)
  case Nil
  then show ?case by (simp add: word_le_nat_alt)
next
  case (Cons k ks)
  obtain e where e: "vsEnt v d k = Some e" using Cons.prems(1) by (auto split: option.splits)
  show ?case
  proof (cases "is_file e")
    case False
    then show ?thesis using Cons.IH [of fs tot] Cons.prems e by simp
  next
    case True
    then have c: "length fs < SAVE_FILES" "\<not> e_length e > SAVE_MAX_SIZE" "\<not> tot + e_length e > SAVE_MAX_SIZE"
      using Cons.prems(1) e by (auto split: if_splits)
    obtain b where b: "file_data v e = Some b" "load_files mem v d ks (fs @ [file_of e b]) (tot + e_length e) = Inr gs"
      using Cons.prems(1) e True by (auto split: if_splits option.splits)
    note l = vsEnt_lengths [OF e Cons.prems(2)]
    have "file_ok (file_of e b)" using c_str_props [of "e_name e"] l by (simp add: file_ok_def name_ok_def file_of_def)
    moreover have "unat (tot + e_length e) = unat tot + unat (e_length e)"
      using c(2) Cons.prems(6) by (simp add: unat_word_ariths word_le_nat_alt not_less)
    moreover have "f_data (file_of e b) = b" by (simp add: file_of_def)
    ultimately show ?thesis
      using c Cons.prems(3,5) file_data_length [OF b(1) Cons.prems(2)] Cons.prems(2) by (intro Cons.IH [OF b(2)]) auto
  qed
qed

section \<open>Deleting\<close>

lemma load_files_count:
  assumes "load_files mem v d ks fs tot = Inr gs" "length fs \<le> SAVE_FILES"
  shows "length fs + length (filter is_file (List.map_filter (vsEnt v d) ks)) \<le> SAVE_FILES"
  using assms
proof (induction ks arbitrary: fs tot)
  case (Cons k ks)
  obtain e where e: "vsEnt v d k = Some e" using Cons.prems(1) by (auto split: option.splits)
  show ?case
  proof (cases "is_file e")
    case False
    then show ?thesis using Cons.IH [of fs tot] Cons.prems e by simp
  next
    case True
    then have "length fs < SAVE_FILES" using Cons.prems(1) e by (auto split: if_splits)
    moreover obtain g n where "load_files mem v d ks (fs @ [g]) n = Inr gs"
      using Cons.prems(1) e True by (auto split: if_splits option.splits)
    ultimately show ?thesis using Cons.IH [of "fs @ [g]" n] e True by simp
  qed
qed simp

text \<open>Every cluster of a save that loads is given back.\<close>

lemma victim_all:
  assumes "load_dir mem v e = Inr s"
  shows "victim_clusters v e = set (save_claims v e)"
proof -
  let ?ks = "[2..<vsDirLen (e_length e)]"
  obtain gs where "load_files mem v (e_cluster e) ?ks [] 0 = Inr gs" using assms by (auto simp: load_dir_def split: sum.splits)
  then have n: "length (filter is_file (entries_of v e)) \<le> SAVE_FILES" using load_files_count [of mem v "e_cluster e" ?ks "[]" 0 gs] by (simp add: entries_of_def)
  have eq: "List.map_filter (file_chain v (e_cluster e)) ks = map e_cluster (filter big_file (List.map_filter (vsEnt v (e_cluster e)) ks))" for ks
  proof (induction ks)
    case (Cons k ks)
    then show ?case by (cases "vsEnt v (e_cluster e) k") (simp_all add: file_chain_def big_file_def word_gt_0)
  qed simp
  have "filter big_file (entries_of v e) = filter big_file (filter is_file (entries_of v e))"
    unfolding filter_filter by (rule filter_cong) (auto simp: big_file_def)
  then have "length (filter big_file (entries_of v e)) \<le> SAVE_FILES"
    using n by (metis le_trans length_filter_le)
  then have "take SAVE_FILES (List.map_filter (file_chain v (e_cluster e)) ?ks) = map e_cluster (filter big_file (entries_of v e))"
    unfolding eq by (simp add: entries_of_def)
  then show ?thesis by (simp add: victim_clusters_def victim_files_def save_claims_def comp_def Un_commute)
qed

text \<open>The names of the saves, the clusters of one, and whether a later session takes a cluster as free.\<close>

definition save_names :: "card_file \<Rightarrow> bytes list" where
  "save_names f = (case vsOpen all_mem (Some (sure_file f)) False of Inl _ \<Rightarrow> [] | Inr v \<Rightarrow> map (\<lambda>e. c_str (e_name e)) (saves_of v))"

definition clusters_of :: "card_file \<Rightarrow> bytes \<Rightarrow> 32 word list" where
  "clusters_of f name =
     (case vsOpen all_mem (Some (sure_file f)) False of
        Inl _ \<Rightarrow> []
      | Inr v \<Rightarrow> (case vsFindSave v name of None \<Rightarrow> [] | Some (_, e) \<Rightarrow> save_claims v e))"

definition free_later :: "card_file \<Rightarrow> 32 word \<Rightarrow> bool" where
  "free_later f c \<longleftrightarrow> (case vsOpen all_mem (Some (sure_file f)) False of Inl _ \<Rightarrow> False | Inr v \<Rightarrow> \<not> used v c)"

lemma distinct_names:
  assumes "distinct (map g (filter P (List.map_filter E ks)))" "distinct ks" "i \<in> set ks" "j \<in> set ks" "i \<noteq> j"
    and "E i = Some a" "E j = Some b" "P a" "P b"
  shows "g a \<noteq> g b"
  using assms(1-5)
proof (induction ks)
  case (Cons k ks)
  have tail: "g c \<in> set (map g (filter P (List.map_filter E ks)))" if "l \<in> set ks" "E l = Some c" "P c" for l c
    using map_filter_mem [of l ks E c] that by auto
  show ?case
  proof (cases "i = k \<or> j = k")
    case True
    then show ?thesis
      using Cons.prems tail [of i a] tail [of j b] assms(6-9) by (auto simp del: set_map)
  next
    case False
    have "distinct (map g (filter P (List.map_filter E ks)))" using Cons.prems(1) by (auto split: option.splits if_splits)
    then show ?thesis using Cons.IH Cons.prems False by simp
  qed
qed simp

text \<open>The root of a card whose changes spared its chain.\<close>

lemma kept_root:
  assumes o: "consistent f" "vsOpen mem (Some f) True = Inr v" and k: "keeps v L X g"
  defines "u \<equiv> at_file v f" and "W \<equiv> at_file v g"
  assumes L: "L \<inter> set (chain_of v (v_root v)) = {}"
  shows "vsOpen (\<lambda>_. True) (Some (sure_file g)) False = Inr W" "firm W"
    "j < dirlen u \<Longrightarrow> vsEnt W (v_root v) j = Some (ent_of (page (cf_at g) (root_page u j)))"
    "j < dirlen u \<Longrightarrow> vsEnt u (v_root v) j = Some (ent_of (page (vimg v) (root_page u j)))"
    "j < dirlen u \<Longrightarrow> page (cf_at g) (root_page u j) = page (vimg v) (root_page u j) \<or> X (root_page u j) (page (cf_at g) (root_page u j))"
    "c < v_allocEnd v \<Longrightarrow> v_fat W ! unat c = disk_fat v (cf_at g) (unat c)"
proof -
  note op = vsOpen_write [OF o]
  note r = root_chain_opened [OF o]
  have uv: "v_root u = v_root v" "v_ppc u = v_ppc v" "dpage u = dpage v" "chain_of u (v_root u) = chain_of v (v_root v)" "vimg u = vimg v" "sure u"
    using geo_dpage [of u v] r(1) op(1) by (simp_all add: u_def)
  have sz: "cf_size g = cf_size f" "same_meta v (cf_at f) (cf_at g)" using k op(1) by (simp_all add: keeps_def)
  show "vsOpen (\<lambda>_. True) (Some (sure_file g)) False = Inr W" unfolding W_def by (rule reopen [OF o(2) op(5) sz])
  have fu: "firm u" using op(3) by (simp add: card_ok_def u_def)
  show fW: "firm W" by (rule firm_geo [OF fu]) (simp_all add: W_def u_def at_file_def geo_def sure_file_def sz)
  show fat: "v_fat W ! unat c = disk_fat v (cf_at g) (unat c)" if "c < v_allocEnd v" for c
    using cluster_in_table [OF op(4) that] by (simp add: at_file_def W_def)
  have "v_fat W ! unat c = v_fat u ! unat c" if "c \<in> set (chain_of v (v_root v))" for c
  proof -
    have "v_fat W ! unat c = disk_fat v (vimg v) (unat c)" using k r(7,8) [OF that] fat L that unfolding keeps_def by auto
    then show ?thesis using cluster_in_table [OF op(4) r(8) [OF that]] op(1) by (simp add: u_def at_file_def)
  qed
  then have links: "\<forall>c \<in> set (butlast (chain_of u (v_root u))). v_fat W ! unat c = v_fat u ! unat c"
    unfolding uv(4) using in_set_butlastD by fast
  have lt: "j < length (chain_of u (v_root u)) * v_ppc u" if "j < dirlen u" for j using that r(9) uv by (simp add: u_def)
  have W: "geo W = geo u" "sure W" "vimg W = cf_at g" "v_root W = v_root v" by (simp_all add: W_def u_def)
  have ok: "card_ok u" using op(3) by (simp add: u_def)
  show "vsEnt W (v_root v) j = Some (ent_of (page (cf_at g) (root_page u j)))" if "j < dirlen u"
    using root_entry [OF ok fW W(2,1) links lt [OF that]] W by (simp add: root_page_def)
  show "vsEnt u (v_root v) j = Some (ent_of (page (vimg v) (root_page u j)))" if "j < dirlen u"
    using root_entry_self [OF ok uv(6) lt [OF that]] uv by (simp add: root_page_def)
  show "page (cf_at g) (root_page u j) = page (vimg v) (root_page u j) \<or> X (root_page u j) (page (cf_at g) (root_page u j))" if "j < dirlen u"
  proof -
    have "j div v_ppc v < length (chain_of v (v_root v))" "j mod v_ppc v < v_ppc v"
      using lt [OF that] uv op(4) by (simp_all add: firm_def div_less_iff_less_mult)
    then have c: "chain_of v (v_root v) ! (j div v_ppc v) \<in> set (chain_of v (v_root v))" "j mod v_ppc v < v_ppc v" by simp_all
    have "chain_of u (v_root v) = chain_of v (v_root v)" using uv(1,4) by simp
    then show ?thesis using k r(7,8) [OF c(1)] c(2) unfolding keeps_def root_page_def uv(1-3) by simp
  qed
qed

text \<open>The states of a deletion that nothing disturbs.\<close>

lemma delete_steps:
  assumes o: "consistent f" "vsOpen all_mem (Some f) True = Inr v" "reliable f" "at_file v f = v" and f: "vsFindSave v name = Some (i, e)"
  obtains v1 t w where "vsEnt_put v (v_root v) i (hidden e) = (v1, True)" "t = fold (\<lambda>c w. vsFreeChain w c) (victim_files v e) v1"
    "vsFlushFat t = (w, True)" "delete_opened v name = (w, Inr ())" "freed v1 (victim_clusters v e) t"
    "firm t" "geo t = geo v" "v_file t = v_file v1"
proof -
  note op = vsOpen_write [OF o(1,2)]
  note r = root_chain_opened [OF o(1,2), unfolded o(4)]
  note fo = found_opened [OF o(1,2) f, unfolded o(4)]
  have cl: "i div v_ppc v < length (chain_of v (v_root v))" using fo(2) r(9) op(4) by (simp add: firm_def div_less_iff_less_mult)
  have "vsWalk v (v_root v) (i div v_ppc v) < v_allocEnd v" using vsWalk_chain(1) [OF op(4) r(2,3) cl] cl r(8) by simp
  then obtain v1 where p: "vsEnt_put v (v_root v) i (hidden e) = (v1, True)" "reliable (v_file v1)"
    using ent_put_ok [OF op(4), of "v_root v" i "hidden e"] o(3) op(1) by auto
  define t where "t = fold (\<lambda>c w. vsFreeChain w c) (victim_files v e) v1"
  have fr: "freed v1 (victim_clusters v e) t" unfolding t_def by (rule victim_freed(1) [OF o(1,2) f p(1)])
  have ft: "firm t" "geo t = geo v" "v_file t = v_file v1" using fr put_hidden(1) [OF o(1,2) f p(1)] by (simp_all add: freed_def)
  obtain w where w: "vsFlushFat t = (w, True)" using flush_ok [of t] p(2) ft(3) by auto
  have "delete_opened v name = (w, Inr ())" using delete_opened_eq [OF f p(1)] w by (simp add: t_def)
  then show ?thesis by (rule that [OF p(1) t_def w _ fr ft])
qed

lemma deleted_free:
  assumes o: "consistent f" "vsOpen all_mem (Some f) True = Inr v" and c: "c < v_allocEnd v" "c \<in> S"
    and t: "freed v1 S t" "firm t" "geo t = geo v" "vsFlushFat t = (w, True)"
  shows "disk_fat v (vimg w) (unat c) = FAT_FREE"
proof -
  note op = vsOpen_write [OF o]
  have "meta_safe t (vimg v)" using op(1,6) meta_safe_geo [OF t(3)] by simp
  then have dt: "distinct (v_fatAbs t)" by (simp add: meta_safe_def)
  have lt: "unat c < fat_clusters t * epc t" using cluster_in_table [OF op(4) c(1)] geo_derived [OF t(3)] by simp
  have "epc v1 = epc t" using t(1) geo_derived [of t v1] by (simp add: freed_def)
  then have "v_fatDirty t ! (unat c div epc t)" using t(1) c(2) unfolding freed_def by simp
  then show ?thesis using flush_disk_fat(2) [OF t(2) dt t(4) lt] disk_fat_geo [OF t(3)] t(1) c(2) by (simp add: freed_def)
qed

lemma flush_data_page:
  assumes "meta_safe v m" "firm t" "geo t = geo v" "vsFlushFat t = (w, ok)" "j < v_ppc v"
  shows "page (vimg w) (dpage v c j) = page (vimg t) (dpage v c j)"
proof -
  have m: "meta_safe t m" using assms(1) meta_safe_geo [OF assms(3)] by simp
  then have "distinct (v_fatAbs t)" by (simp add: meta_safe_def)
  moreover have "v_ppc t = v_ppc v" "dpage t = dpage v" using assms(3) geo_dpage [OF assms(3)] by (simp_all add: geo_eq)
  ultimately show ?thesis
    using flush_effect(3) [OF assms(2) _ assms(4)] dpage_not_fat [OF m assms(2)] assms(5) unfolding changed_def by metis
qed

text \<open>After it the save is not found and its clusters are free.\<close>

lemma deleted_later:
  assumes o: "consistent f" "vsOpen all_mem (Some f) True = Inr v" "at_file v f = v"
    and f: "vsFindSave v name = Some (i, e)" "load_dir all_mem v e = Inr x" "distinct (map (\<lambda>e. c_str (e_name e)) (saves_of v))"
    and s: "vsEnt_put v (v_root v) i (hidden e) = (v1, True)" "t = fold (\<lambda>c w. vsFreeChain w c) (victim_files v e) v1"
      "vsFlushFat t = (w, True)" "freed v1 (victim_clusters v e) t" "firm t" "geo t = geo v" "v_file t = v_file v1"
  shows "vsOpen (\<lambda>_. True) (Some (sure_file (v_file w))) False = Inr (at_file v (v_file w))"
    "vsFindSave (at_file v (v_file w)) name = None" "c \<in> set (save_claims v e) \<Longrightarrow> \<not> used (at_file v (v_file w)) c"
proof -
  note op = vsOpen_write [OF o(1,2), unfolded o(3)]
  note fo = found_opened [OF o(1,2) f(1), unfolded o(3)]
  note ph = put_hidden [OF o(1,2) f(1) s(1), unfolded o(3)]
  have k: "keeps v (set (save_claims v e)) (hidden_page v i e) (v_file w)" using delete_flushed [OF o(1,2) f(1) s(1-3)] unfolding o(3) .
  have L: "set (save_claims v e) \<inter> set (chain_of v (v_root v)) = {}" using save_claims_used(3) [OF op(3) fo(6)] by blast
  note kr = kept_root [OF o(1,2) k L, unfolded o(3)]
  let ?W = "at_file v (v_file w)"
  show "vsOpen (\<lambda>_. True) (Some (sure_file (v_file w))) False = Inr ?W" by (rule kr(1))
  show "\<not> used ?W c" if c: "c \<in> set (save_claims v e)"
  proof -
    have ca: "c < v_allocEnd v" by (rule save_claims_used(2) [OF op(3) fo(6) c])
    show ?thesis using deleted_free [OF o(1,2) ca _ s(4-6,3)] victim_all [OF f(2)] c kr(6) [OF ca] by (simp add: used_def)
  qed
  have lt: "j < length (chain_of v (v_root v)) * v_ppc v" if "j < dirlen v" for j using that op(3) by (simp add: card_ok_def)
  have same: "vsEnt ?W (v_root v) j = vsEnt v (v_root v) j" if j: "j < dirlen v" "j \<noteq> i" for j
    using kr(3-5) [OF j(1)] root_page_inject [OF op(3) lt [OF j(1)] lt [OF fo(2)]] j(2) by (auto simp: hidden_page_def)
  have eh: "ent_ok (hidden e)" using vsEnt_firm(2) [OF op(4) fo(7)] ent_of_ok by (simp add: hidden_def ent_ok_def)
  have m: "meta_safe v (vimg v)" using op(3) by (simp add: card_ok_def)
  have "i mod v_ppc v < v_ppc v" using op(4) by (simp add: firm_def)
  then have "page (vimg w) (root_page v i) = ent_bytes (hidden e)"
    using flush_data_page [OF m s(5,6,3)] ph(6) s(7) by (simp add: root_page_def)
  then have gone: "vsEnt ?W (v_root v) i = Some (hidden e)" using kr(3) [OF fo(2)] ent_of_bytes [OF eh] by simp
  have dl: "dirlen ?W = dirlen v" using same [of 0] fo(1,2) by (simp add: dirlen_def)
  have none: "save_at ?W name j = None" if j: "2 \<le> j" "j < dirlen v" for j
  proof (rule ccontr)
    assume "save_at ?W name j \<noteq> None"
    then obtain d where d: "vsEnt ?W (v_root v) j = Some d" "shown d" "vsNameIs d name" using save_at_Some by force
    then have ne: "j \<noteq> i" using gone not_shown_hidden by auto
    have e: "vsEnt v (v_root v) j = Some d" using d(1) same [OF j(2) ne] by simp
    have "c_str (e_name d) \<noteq> c_str (e_name e)"
      by (rule distinct_names [OF f(3) [unfolded saves_of_def] _ _ _ ne e fo(3) d(2) fo(4)]) (use j fo in auto)
    then show False using d(3) fo(5) by (simp add: vsNameIs_def)
  qed
  show "vsFindSave ?W name = None" unfolding vsFindSave_dirlen first_some_None dl using none by simp
qed

end
