(* ===== verification/CardExample.thy ===== *)
theory CardExample
  imports CardStored
begin

text \<open>
  A small card, page by page: two pages to a cluster, a root of two clusters and one save with one file.
  The statements about cards are applied to it.
\<close>

section \<open>The image\<close>

definition ex_super :: bytes where
  "ex_super = CARD_MAGIC @ replicate 12 0 @ bytes16 512 @ bytes16 2 @ replicate 4 0 @ bytes32 19 @ bytes32 3 @ bytes32 16
     @ bytes32 0 @ replicate 16 0 @ bytes32 1 @ replicate 428 0"

definition ex_fat :: "32 word list" where
  "ex_fat = [0x80000001, FAT_END, 0x80000003, FAT_END, FAT_END, FAT_FREE, FAT_FREE, FAT_FREE, FAT_FREE, FAT_FREE, FAT_FREE,
     FAT_FREE, FAT_FREE, FAT_FREE, FAT_FREE, FAT_FREE]"

definition ex_file :: vs_file where
  "ex_file = \<lparr>f_name = [0x66], f_created = replicate 8 1, f_modified = replicate 8 2, f_data = [1, 2, 3]\<rparr>"

definition ex_save :: vs_save where
  "ex_save = \<lparr>s_name = [0x41], s_created = replicate 8 3, s_modified = replicate 8 4, s_files = [ex_file]\<rparr>"

definition ex_new :: vs_save where
  "ex_new = \<lparr>s_name = [0x42], s_created = replicate 8 5, s_modified = replicate 8 6, s_files = [ex_file]\<rparr>"

definition zero_page :: bytes where
  "zero_page = replicate 512 0"

definition ex_pages :: "bytes list" where
  "ex_pages = [ex_super, zero_page, bytes32 2 @ replicate 508 0, zero_page,
     concat (map bytes32 ex_fat) @ replicate 448 0, zero_page,
     ent_bytes (blank_ent\<lparr>e_mode := MODE_DIR, e_length := 3\<rparr>), ent_bytes (blank_ent\<lparr>e_mode := MODE_UP\<rparr>),
     ent_bytes (root_ent ex_save 2), zero_page, zero_page, zero_page,
     ent_bytes (file_ent ex_file 4), zero_page, [1, 2, 3] @ replicate 509 0xFF, zero_page]"

definition ex_card :: card_file where
  "ex_card = \<lparr>cf_at = \<lambda>i. ex_pages ! (i div 512) ! (i mod 512), cf_size = 19456, cf_n = 0, cf_rd = \<lambda>_ _. True, cf_wr = \<lambda>_. True\<rparr>"

lemma ex_ents [simp]:
  "ent_ok (blank_ent\<lparr>e_mode := MODE_DIR, e_length := 3\<rparr>)" "ent_ok (blank_ent\<lparr>e_mode := MODE_UP\<rparr>)"
  "ent_ok (root_ent ex_save 2)" "ent_ok (file_ent ex_file 4)"
  by (simp_all add: ent_ok_def blank_ent_def root_ent_def file_ent_def ex_save_def ex_file_def)

lemma length_magic [simp]: "length CARD_MAGIC = 28"
  by (simp add: CARD_MAGIC_def)

lemma ex_page_lengths: "\<forall>b \<in> set ex_pages. length b = 512"
  by (simp add: ex_pages_def ex_super_def zero_page_def length_ent_bytes ex_fat_def)

lemma page_nth:
  assumes "p < length pgs" "length (pgs ! p) = 512"
  shows "page (\<lambda>i. pgs ! (i div 512) ! (i mod 512)) p = pgs ! p"
  by (rule nth_equalityI) (use assms in \<open>simp_all add: page_def bytes_at_def\<close>)

lemma ex_page:
  assumes "p < 16"
  shows "page (cf_at ex_card) p = ex_pages ! p"
proof -
  have l: "length ex_pages = 16" by (simp add: ex_pages_def)
  then have "length (ex_pages ! p) = 512" using assms ex_page_lengths nth_mem [of p ex_pages] by simp
  then show ?thesis unfolding ex_card_def card_file.simps using l assms by (intro page_nth) simp_all
qed

lemma ex_page_at:
  "page (cf_at ex_card) 0 = ex_super" "page (cf_at ex_card) 2 = bytes32 2 @ replicate 508 0"
  "page (cf_at ex_card) 4 = concat (map bytes32 ex_fat) @ replicate 448 0"
  "page (cf_at ex_card) 6 = ent_bytes (blank_ent\<lparr>e_mode := MODE_DIR, e_length := 3\<rparr>)"
  "page (cf_at ex_card) 8 = ent_bytes (root_ent ex_save 2)" "page (cf_at ex_card) 12 = ent_bytes (file_ent ex_file 4)"
  "page (cf_at ex_card) 14 = [1, 2, 3] @ replicate 509 0xFF"
  by (simp_all add: ex_page ex_pages_def)

section \<open>It opens\<close>

definition ex_vmc :: vs_vmc where
  "ex_vmc =
     (let v = \<lparr>v_file = ex_card, v_ecc = False, v_raw = 512, v_ppc = 2, v_clusters = 19, v_alloc = 3, v_allocEnd = 16, v_root = 0,
               v_fat = [], v_fatAbs = [2], v_fatDirty = [False]\<rparr>
      in v\<lparr>v_fat := map (disk_fat v (cf_at ex_card)) [0..<256]\<rparr>)"

lemma ex_simps [simp]:
  "v_file ex_vmc = ex_card" "v_raw ex_vmc = 512" "v_ppc ex_vmc = 2" "v_clusters ex_vmc = 19" "v_alloc ex_vmc = 3" "v_allocEnd ex_vmc = 16"
  "v_root ex_vmc = 0" "v_fatAbs ex_vmc = [2]" "v_fatDirty ex_vmc = [False]" "csize ex_vmc = 1024" "epc ex_vmc = 256" "fat_clusters ex_vmc = 1"
  "length (v_fat ex_vmc) = 256" "cf_size ex_card = 19456" "cf_rd ex_card n p" "cf_wr ex_card n" "sure_file ex_card = ex_card"
  by (simp_all add: ex_vmc_def Let_def csize_def epc_def fat_clusters_def ex_card_def sure_file_def)

lemma ex_super_fields:
  "take 28 ex_super = CARD_MAGIC" "field ex_super 0x28 2 = bytes16 512" "field ex_super 0x2A 2 = bytes16 2" "field ex_super 0x30 4 = bytes32 19"
  "field ex_super 0x34 4 = bytes32 3" "field ex_super 0x38 4 = bytes32 16" "field ex_super 0x3C 4 = bytes32 0" "field ex_super 0x50 4 = bytes32 1"
  by (simp_all add: ex_super_def field_append field_all)

lemma ex_head: "head_of ex_card = ex_vmc\<lparr>v_fat := [], v_fatAbs := [], v_fatDirty := []\<rparr>"
  by (simp add: head_of_def ex_page_at ex_super_fields ex_vmc_def Let_def)

lemma ex_ifcs: "ifcs ex_card ! 0 = 1"
  by (simp add: ifcs_def ifc_of_def ex_page_at ex_super_fields)

lemma ex_fat_cluster: "fat_cluster (head_of ex_card) (ifcs ex_card) 0 = Some (2, v_fat ex_vmc)"
proof -
  let ?h = "head_of ex_card"
  have h: "v_ppc ?h = 2" "v_raw ?h = 512" "v_clusters ?h = 19" "v_file ?h = ex_card" "epc ?h = 256" "csize ?h = 1024" "sure ?h"
    by (simp_all add: ex_head epc_def csize_def sure_def)
  have r1: "vsIo_read ?h 1 = Some (clu ?h 1)" using read_in_file [of ?h 1] h by (simp add: in_file_def)
  have r2: "vsIo_read ?h 2 = Some (clu ?h 2)" using read_in_file [of ?h 2] h by (simp add: in_file_def)
  have "field (clu ?h 1) 0 4 = bytes32 2"
    using field_clu_word [of 0 ?h 1] h by (simp add: ex_page_at field_append field_all)
  moreover have "le32s (clu ex_vmc (unat (2 :: 32 word))) = v_fat ex_vmc"
    using le32s_clu [of ex_vmc 0 2] disk_fat_cong [of ex_vmc] by (simp add: ex_vmc_def Let_def disk_fat_def fat_page_def epc_def csize_def)
  moreover have "clu ex_vmc = clu ?h" by (rule clu_cong) (simp_all add: h)
  ultimately show ?thesis using r1 r2 h by (simp add: fat_cluster_def ex_ifcs)
qed

lemma ex_opens: "vsOpen (\<lambda>_. True) (Some ex_card) False = Inr ex_vmc"
proof -
  have n: "fat_clusters (head_of ex_card) = 1" by (simp add: ex_head fat_clusters_def epc_def csize_def)
  have "head_ok ex_card" by (simp add: head_ok_def ex_head ex_page_at ex_super_fields)
  moreover have "page_read 0 ex_card \<noteq> None" by (simp add: page_read_def)
  moreover have "those (map (fat_cluster (head_of ex_card) (ifcs ex_card)) [0..<fat_clusters (head_of ex_card)]) = Some [(2, v_fat ex_vmc)]"
    unfolding n by (simp add: ex_fat_cluster)
  moreover have "ex_vmc = (head_of ex_card)\<lparr>v_fatAbs := map fst [(2, v_fat ex_vmc)], v_fat := concat (map snd [(2, v_fat ex_vmc)]),
      v_fatDirty := replicate (fat_clusters (head_of ex_card)) False\<rparr>"
    unfolding n by (simp add: ex_head)
  ultimately show ?thesis unfolding vsOpen_iff by blast
qed

section \<open>It is consistent\<close>

lemma ex_firm: "firm ex_vmc"
  by (simp add: firm_def)

lemma ex_sure: "sure ex_vmc"
  by (simp add: sure_def)

lemma ex_fat_nth: "i < 16 \<Longrightarrow> v_fat ex_vmc ! i = ex_fat ! i"
proof -
  assume i: "i < 16"
  have "v_fat ex_vmc ! i = disk_fat ex_vmc (cf_at ex_card) i"
    using i disk_fat_cong [of ex_vmc] by (simp add: ex_vmc_def Let_def disk_fat_def fat_page_def epc_def csize_def)
  moreover have "fat_page ex_vmc i = 4" using i by (simp add: fat_page_def)
  moreover have "length ex_fat = 16" by (simp add: ex_fat_def)
  then have "field (concat (map bytes32 ex_fat) @ replicate 448 0) (i * 4) 4 = bytes32 (ex_fat ! i)"
    using i field_words [of i ex_fat] by (simp add: field_append)
  ultimately show ?thesis using i by (simp add: disk_fat_def ex_page_at)
qed

lemma ex_next [simp]:
  "vsNext ex_vmc 0 = 1" "vsNext ex_vmc 1 = FAT_END" "vsNext ex_vmc 2 = 3" "vsNext ex_vmc 3 = FAT_END" "vsNext ex_vmc 4 = FAT_END"
  by (simp_all add: vsNext_def ex_fat_nth ex_fat_def)

lemma ex_chains [simp]: "chain_of ex_vmc 0 = [0, 1]" "chain_of ex_vmc 2 = [2, 3]" "chain_of ex_vmc 4 = [4]"
  by (rule chain_of_eq; simp)+

lemma ex_ent:
  assumes "is_chain ex_vmc d xs" "distinct xs" "i < length xs * 2"
  shows "vsEnt ex_vmc d i = Some (ent_of (page (cf_at ex_card) ((3 + unat (xs ! (i div 2))) * 2 + i mod 2)))"
  using vsEnt_chain [OF ex_firm ex_sure assms(1,2)] assms(3) by (simp add: ent_at_def dpage_def)

lemma ex_entries:
  "vsEnt ex_vmc 0 0 = Some (blank_ent\<lparr>e_mode := MODE_DIR, e_length := 3\<rparr>)" "vsEnt ex_vmc 0 2 = Some (root_ent ex_save 2)"
  "vsEnt ex_vmc 2 2 = Some (file_ent ex_file 4)"
  using ex_ent [of 0 "[0, 1]" 0] ex_ent [of 0 "[0, 1]" 2] ex_ent [of 2 "[2, 3]" 2] by (simp_all add: ex_page_at ent_of_bytes)

lemma ex_dirlen: "dirlen ex_vmc = 3"
  by (simp add: dirlen_def ex_entries vsDirLen_def)

lemma upt_2_3: "[2..<3] = [2 :: nat]"
  by (simp add: upt_conv_Cons)

lemma ex_saves: "saves_of ex_vmc = [root_ent ex_save 2]"
  by (simp add: saves_of_def ex_dirlen upt_2_3 ex_entries shown_root_ent)

lemma ex_dir_fields: "vsDirLen (e_length (root_ent ex_save 2)) = 3" "e_cluster (root_ent ex_save 2) = 2"
  by (simp_all add: root_ent_def ex_save_def vsDirLen_def)

lemma ex_claims: "save_claims ex_vmc (root_ent ex_save 2) = [2, 3, 4]"
proof -
  have "e_length (file_ent ex_file 4) = 3" by (simp add: file_ent_def ex_file_def)
  then have "big_file (file_ent ex_file 4)" by (simp add: big_file_def is_file_ent)
  moreover have "e_cluster (file_ent ex_file 4) = 4" by (simp add: file_ent_def)
  ultimately show ?thesis by (simp add: save_claims_def entries_of_def ex_dir_fields upt_2_3 ex_entries)
qed

lemma ex_card_ok: "card_ok ex_vmc"
proof -
  have "meta_safe ex_vmc (cf_at ex_card)" by (simp add: meta_safe_def ifc_of_def ex_page_at ex_super_fields)
  moreover have "claimed ex_vmc = [0, 1, 2, 3, 4]" by (simp add: claimed_def ex_saves ex_claims)
  ultimately show ?thesis by (simp add: card_ok_def ex_firm used_def ex_fat_nth ex_fat_def ex_dirlen)
qed

lemma ex_consistent: "consistent ex_card"
  by (simp add: consistent_def ex_opens ex_card_ok)

lemma ex_reliable: "reliable ex_card"
  by (simp add: reliable_def)

section \<open>Its saves\<close>

lemma ex_saves_ok: "save_ok ex_save" "save_ok ex_new"
  by (simp_all add: save_ok_def ex_save_def ex_new_def ex_file_def file_ok_def name_ok_def)

lemma ex_find: "vsFindSave ex_vmc name = (if name = [0x41] then Some (2, root_ent ex_save 2) else None)"
proof -
  have "vsNameIs (root_ent ex_save 2) name \<longleftrightarrow> name = [0x41]"
    using name_of_new [OF ex_saves_ok(1)] c_str_name [of "[0x41]"]
    by (auto simp: ex_save_def vsNameIs_def root_ent_def name_ok_def)
  then show ?thesis using shown_root_ent [of ex_save 2] by (simp add: vsFindSave_dirlen ex_dirlen upt_2_3 save_at_def ex_entries shown_def)
qed

lemma ex_data: "vsReadChain ex_vmc 4 3 = Some [1, 2, 3]"
proof -
  have "is_chain ex_vmc 4 [4]" by simp
  note r = read_clusters_chain [OF ex_firm ex_sure this, of 1]
  have "[0..<2] = [0, 1 :: nat]" by (simp add: upt_conv_Cons)
  then have "clu ex_vmc 7 = [1, 2, 3] @ replicate 509 0xFF @ page (cf_at ex_card) 15" by (simp add: clu_def ex_page_at)
  then show ?thesis using r by (simp add: vsReadChain_def clusters_for_def)
qed

lemma ex_load: "load_later ex_card [0x41] = Inr ex_save"
proof -
  have "file_data ex_vmc (file_ent ex_file 4) = Some [1, 2, 3]" using ex_data by (simp add: file_data_def file_ent_def ex_file_def)
  moreover have "file_of (file_ent ex_file 4) [1, 2, 3] = ex_file"
    by (simp add: file_of_def file_ent_def blank_ent_def ex_file_def c_str_name name_ok_def)
  moreover have "e_length (file_ent ex_file 4) = 3" by (simp add: file_ent_def ex_file_def)
  ultimately have "load_files all_mem ex_vmc 2 [2..<3] [] 0 = Inr [ex_file]"
    by (simp add: upt_2_3 ex_entries is_file_ent)
  moreover have "c_str (e_name (root_ent ex_save 2)) = [0x41]" "e_created (root_ent ex_save 2) = replicate 8 3" "e_modified (root_ent ex_save 2) = replicate 8 4"
    by (simp_all add: root_ent_def ex_save_def c_str_name name_ok_def)
  moreover have "ex_save = \<lparr>s_name = [0x41], s_created = replicate 8 3, s_modified = replicate 8 4, s_files = [ex_file]\<rparr>"
    by (simp add: ex_save_def)
  ultimately have "load_dir all_mem ex_vmc (root_ent ex_save 2) = Inr ex_save" unfolding load_dir_def by (simp only: ex_dir_fields sum.case)
  then show ?thesis by (simp add: load_later_def vsLoadVmc_def ex_opens ex_find)
qed

lemma ex_room: "has_room ex_card ex_new"
proof -
  have "\<not> has_mode (root_ent ex_save 2) MC_EXISTS \<Longrightarrow> False" using shown_root_ent [of ex_save 2] by (simp add: shown_def)
  then have "root_slot ex_vmc (blank_ent\<lparr>e_mode := MODE_DIR, e_length := 3\<rparr>) = Some (3, False)"
    by (auto simp: root_slot_def vsDirLen_def upt_2_3 free_slot_def ex_entries)
  moreover have "[0..<16] = [0, 1, 2, 3, 4, 5, 6, 7, 8, 9, 10, 11, 12, 13, 14, 15 :: nat]" by (simp add: upt_conv_Cons)
  then have "vsFreeCount ex_vmc = 11" by (simp add: vsFreeCount_def ex_fat_nth ex_fat_def)
  moreover have "needed ex_vmc ex_new False = 3" by (simp add: needed_def ex_new_def ex_file_def clusters_for_def)
  ultimately show ?thesis by (simp add: has_room_def ex_opens ex_entries)
qed

lemma ex_names: "save_names ex_card = [[0x41]]"
  by (simp add: save_names_def ex_opens ex_saves root_ent_def ex_save_def c_str_name name_ok_def)

lemma ex_clusters: "clusters_of ex_card [0x41] = [2, 3, 4]"
  by (simp add: clusters_of_def ex_opens ex_find ex_claims)

lemma ex_absent: "load_later ex_card [0x42] = Inl VMCSAVES_ERR_NO_SAVE"
  by (simp add: load_later_def vsLoadVmc_def ex_opens ex_find)

end
