(* ===== verification/CardClaims.thy ===== *)
theory CardClaims
  imports CardExample
begin

text \<open>
  What the save manager promises of a memory card image: loading, importing and deleting saves,
  with failing reads and with a cut of the power at any write.
\<close>

text \<open>
  C11: Writing a save into a consistent card never loses another one: whatever the failing reads,
  wherever the writes stop for good (a cut of the power) and whatever the outcome, a save of another name that
  a later session would have loaded is loaded with the same contents, and the file keeps its size.
\<close>

theorem import_keeps_saves:
  assumes "consistent f" "save_ok s" "name \<noteq> s_name s" "load_later f name = Inr x"
  shows "\<exists>g. fst (vsWriteVmc mem s (Some f)) = Some g \<and> cf_size g = cf_size f \<and> load_later g name = Inr x"
proof (cases "vsOpen mem (Some f) True")
  case (Inl e)
  then show ?thesis using assms(4) by (simp add: vsWriteVmc_def)
next
  case (Inr v)
  note o = assms(1) Inr
  obtain w r where w: "write_opened mem v s = (w, r)" by (cases "write_opened mem v s")
  then have g: "fst (vsWriteVmc mem s (Some f)) = Some (v_file w)" using Inr by (simp add: vsWriteVmc_def)
  consider "w = v" | dot slot grow where "slot_ok (at_file v f) dot slot grow" "write_new mem v s dot slot grow = (w, r)"
    using write_opened_cases [OF o w assms(2)] by blast
  then show ?thesis
  proof cases
    case 1
    then show ?thesis using g assms(4) vsOpen_write(1) [OF o] by simp
  next
    case 2
    note k = write_new_keeps [OF o 2(1) assms(2) 2(2)]
    have "cf_size (v_file w) = cf_size f" using k vsOpen_write(1) [OF o] by (simp add: keeps_def)
    then show ?thesis using g keeps_import_load [OF o k 2(1) assms(2-4)] by blast
  qed
qed

theorem import_keeps_saves_witness:
  "\<exists>g. fst (vsWriteVmc all_mem ex_new (Some ex_card)) = Some g \<and> cf_size g = cf_size ex_card \<and> load_later g [0x41] = Inr ex_save"
  using import_keeps_saves [OF ex_consistent ex_saves_ok(2) _ ex_load] by (simp add: ex_new_def)

text \<open>
  C12: On a consistent card that can be read and written and has room, an import of a save the card does not
  have succeeds, and a later session loads exactly that save: its name, its dates, its files in order and their bytes.
\<close>

theorem import_load:
  assumes "consistent f" "reliable f" "cf_size f < 2 ^ 32" "save_ok s" "load_later f (s_name s) = Inl VMCSAVES_ERR_NO_SAVE" "has_room f s"
  shows "\<exists>g. vsWriteVmc all_mem s (Some f) = (Some g, Inr ()) \<and> load_later g (s_name s) = Inr s"
proof -
  obtain v where v: "vsOpen all_mem (Some f) True = Inr v" "vsOpen all_mem (Some f) False = Inr v" "at_file v f = v" "v_file v = f"
    "sure_file f = f" "card_ok v" "firm v" "sure v" by (rule open_reliable [OF assms(1,2)])
  note o = assms(1) v(1)
  have none: "vsFindSave v (s_name s) = None" using assms(5) no_save_iff [OF v(2)] by (simp add: load_later_def v(5))
  obtain dot slot grow where d: "vsEnt v (v_root v) 0 = Some dot" "root_slot v dot = Some (slot, grow)" "needed v s grow \<le> vsFreeCount v"
    using assms(6) by (auto simp: has_room_def v(2) split: option.splits)
  have s: "slot_ok (at_file v f) dot slot grow" by (rule root_slot_ok [OF o d(1,2)])
  obtain v2 t w x firsts df xss ys y where st: "built v v2 s slot firsts df xss ys" "apart v v2" "apart v2 t"
    "grown v2 t (last (chain_of v (v_root v))) grow w" "vsFlushFat w = (x, True)" "appear x s slot dot df = (y, Inr ())"
    "write_new all_mem v s dot slot grow = (y, Inr ())"
    using write_new_steps [OF o assms(2) s assms(4) d(3)] by blast
  have "write_opened all_mem v s = (y, Inr ())" using none d st(7) by (simp add: write_opened_def)
  then have g: "vsWriteVmc all_mem s (Some f) = (Some (v_file y), Inr ())" by (simp add: vsWriteVmc_def v(1))
  have run: "import_run f v s dot slot grow v2 t w x df y" using o s assms(4) st by (simp add: import_run_def)
  have "load_later (v_file y) (s_name s) = Inr s" by (rule run_load [OF run st(1) assms(3)]) (simp add: v(3) none)
  then show ?thesis using g by blast
qed

theorem import_load_witness:
  "\<exists>g. vsWriteVmc all_mem ex_new (Some ex_card) = (Some g, Inr ()) \<and> load_later g [0x42] = Inr ex_new"
  using import_load [OF ex_consistent ex_reliable _ ex_saves_ok(2) _ ex_room] ex_absent by (simp add: ex_new_def)

text \<open>
  C13: Deleting a save of a consistent card never loses another one: wherever the writes stop, a save of another
  name is loaded as before, and the file keeps its size.
\<close>

theorem delete_keeps_saves:
  assumes "consistent f" "name \<noteq> victim" "load_later f name = Inr x"
  shows "\<exists>g. fst (vmcSavesDelete mem (Some f) victim) = Some g \<and> cf_size g = cf_size f \<and> load_later g name = Inr x"
proof (cases "vsOpen mem (Some f) True")
  case (Inl e)
  then show ?thesis using assms(3) by (simp add: vmcSavesDelete_def)
next
  case (Inr v)
  note o = assms(1) Inr
  note op = vsOpen_write [OF o]
  obtain w r where w: "delete_opened v victim = (w, r)" by (cases "delete_opened v victim")
  then have g: "fst (vmcSavesDelete mem (Some f) victim) = Some (v_file w)" using Inr by (simp add: vmcSavesDelete_def)
  show ?thesis
  proof (cases "vsFindSave v victim")
    case None
    then show ?thesis using g w assms(3) op(1) by (simp add: delete_opened_def)
  next
    case (Some p)
    then obtain i e where f: "vsFindSave v victim = Some (i, e)" by (cases p) auto
    obtain v1 ok where p: "vsEnt_put v (v_root v) i (hidden e) = (v1, ok)" by (cases "vsEnt_put v (v_root v) i (hidden e)")
    have "keeps v (set (save_claims (at_file v f) e)) (hidden_page (at_file v f) i e) (v_file w)"
    proof (cases ok)
      case False
      then have "w = v1" using w delete_opened_eq [OF f p] by simp
      then show ?thesis using keeps_mono [OF put_hidden(5) [OF o f p]] by blast
    next
      case True
      then obtain ok2 where "vsFlushFat (fold (\<lambda>c w. vsFreeChain w c) (victim_files v e) v1) = (w, ok2)"
        using w delete_opened_eq [OF f p] by (auto split: prod.splits)
      then show ?thesis by (rule delete_flushed [OF o f p refl])
    qed
    note k = this
    have "cf_size (v_file w) = cf_size f" using k op(1) by (simp add: keeps_def)
    then show ?thesis using g keeps_delete_load [OF o f k assms(2,3)] by blast
  qed
qed

theorem delete_keeps_saves_witness:
  "\<exists>g. fst (vmcSavesDelete all_mem (Some ex_card) [0x42]) = Some g \<and> cf_size g = cf_size ex_card \<and> load_later g [0x41] = Inr ex_save"
  by (rule delete_keeps_saves [OF ex_consistent _ ex_load]) simp

text \<open>
  C14: A deletion on a consistent card that can be read and written, whose saves have different names,
  succeeds: a later session does not find the save and every cluster it had is free.
\<close>

theorem delete_done:
  assumes "consistent f" "reliable f" "distinct (save_names f)" "load_later f name = Inr x"
  shows "\<exists>g. vmcSavesDelete all_mem (Some f) name = (Some g, Inr ()) \<and> load_later g name = Inl VMCSAVES_ERR_NO_SAVE
    \<and> (\<forall>c \<in> set (clusters_of f name). free_later g c)"
proof -
  obtain v where v: "vsOpen all_mem (Some f) True = Inr v" "vsOpen all_mem (Some f) False = Inr v" "at_file v f = v" "v_file v = f"
    "sure_file f = f" "card_ok v" "firm v" "sure v" by (rule open_reliable [OF assms(1,2)])
  note o = assms(1) v(1)
  obtain i e where f: "vsFindSave v name = Some (i, e)" "load_dir all_mem v e = Inr x"
    using assms(4) v(2,5) by (auto simp: load_later_def vsLoadVmc_def split: option.splits)
  obtain v1 t w where s: "vsEnt_put v (v_root v) i (hidden e) = (v1, True)" "t = fold (\<lambda>c w. vsFreeChain w c) (victim_files v e) v1"
    "vsFlushFat t = (w, True)" "delete_opened v name = (w, Inr ())" "freed v1 (victim_clusters v e) t"
    "firm t" "geo t = geo v" "v_file t = v_file v1" by (rule delete_steps [OF o assms(2) v(3) f(1)])
  have names: "distinct (map (\<lambda>e. c_str (e_name e)) (saves_of v))" using assms(3) v(2,5) by (simp add: save_names_def)
  note dl = deleted_later [OF o v(3) f names s(1-3,5-8)]
  have "load_later (v_file w) name = Inl VMCSAVES_ERR_NO_SAVE" using dl(1,2) by (simp add: load_later_def vsLoadVmc_def)
  moreover have "\<forall>c \<in> set (clusters_of f name). free_later (v_file w) c"
    using dl(1,3) v(2,5) f(1) by (simp add: clusters_of_def free_later_def)
  moreover have "vmcSavesDelete all_mem (Some f) name = (Some (v_file w), Inr ())" using s(4) by (simp add: vmcSavesDelete_def v(1))
  ultimately show ?thesis by blast
qed

theorem delete_done_witness:
  "\<exists>g. vmcSavesDelete all_mem (Some ex_card) [0x41] = (Some g, Inr ()) \<and> load_later g [0x41] = Inl VMCSAVES_ERR_NO_SAVE
    \<and> (\<forall>c \<in> set (clusters_of ex_card [0x41]). free_later g c)"
  by (rule delete_done [OF ex_consistent ex_reliable _ ex_load]) (simp add: ex_names)

text \<open>
  C27: What a load gives, from any file and with any failing reads, is a well-formed save of the name asked
  for: names and dates of their lengths, at most 64 files, at most 8 MB in all. This is what an import asks for.
\<close>

theorem load_save_ok:
  assumes "vsLoadVmc mem img name = Inr s"
  shows "save_ok s \<and> s_name s = name"
proof -
  obtain v where v: "vsOpen mem img False = Inr v" using assms by (auto simp: vsLoadVmc_def split: sum.splits)
  then obtain f where "img = Some f" by (cases img) (auto simp: vsOpen_def)
  then have v: "vsOpen mem (Some f) False = Inr v" using v by simp
  have "v_ppc v = v_ppc (head_of f) \<and> 1 \<le> v_ppc (head_of f)" using v unfolding vsOpen_iff by (auto simp: head_ok_def Let_def)
  then have p: "0 < v_ppc v" by simp
  obtain i e where e: "vsFindSave v name = Some (i, e)" "load_dir mem v e = Inr s"
    using assms \<open>img = Some f\<close> v by (auto simp: vsLoadVmc_def split: option.splits)
  note l = vsEnt_lengths [OF found_save(3) [OF e(1)] p]
  obtain fs where fs: "load_files mem v (e_cluster e) [2..<vsDirLen (e_length e)] [] 0 = Inr fs"
    "s = \<lparr>s_name = c_str (e_name e), s_created = e_created e, s_modified = e_modified e, s_files = fs\<rparr>"
    using e(2) by (auto simp: load_dir_def split: sum.splits)
  have "(\<forall>g \<in> set fs. file_ok g) \<and> length fs \<le> SAVE_FILES \<and> sum_list (map (\<lambda>g. length (f_data g)) fs) \<le> unat SAVE_MAX_SIZE"
    by (rule load_files_ok [OF fs(1) p]) simp_all
  moreover have "s_name s = name" using found_save(5) [OF e(1)] fs(2) by (simp add: vsNameIs_def)
  ultimately show ?thesis using fs(2) l c_str_props [of "e_name e"] by (simp add: save_ok_def name_ok_def)
qed

theorem load_save_ok_witness: "save_ok ex_save \<and> s_name ex_save = [0x41]"
  by (rule load_save_ok [OF ex_load [unfolded load_later_def]])

end
