(* ===== verification/CardPsu.thy ===== *)
theory CardPsu
  imports CardStored
begin

text \<open>
  Packed saves (\<open>src/vmcsaves.c\<close>): one file holding the entry of the save's folder, the entries \<open>.\<close> and
  \<open>..\<close>, and for each file its entry and its bytes, filled up to a whole kilobyte. Reading is a function of
  the bytes that can be read, so a failing read is a file that is cut short; writing goes to a temporary
  file that is renamed once it is whole.
\<close>

section \<open>Reading\<close>

abbreviation "PSU_ALIGN \<equiv> (1024 :: nat)"

definition dot1 :: bytes where
  "dot1 = map of_char ''.''"

definition dot2 :: bytes where
  "dot2 = map of_char ''..''"

text \<open>A name a card folder or file may take.\<close>

definition vsNameOk :: "bytes \<Rightarrow> bool" where
  "vsNameOk n \<longleftrightarrow> n \<noteq> [] \<and> length n \<le> 32 \<and> 0x2F \<notin> set n \<and> n \<noteq> dot1 \<and> n \<noteq> dot2"

definition read_ent :: "bytes \<Rightarrow> (vs_ent \<times> bytes) option" where
  "read_ent bs = (if length bs < 512 then None else Some (ent_of (take 512 bs), drop 512 bs))"

definition vsPsuHead :: "bytes \<Rightarrow> (vs_ent \<times> bytes) option" where
  "vsPsuHead bs =
     (case read_ent bs of
        None \<Rightarrow> None
      | Some (e, r) \<Rightarrow>
          if has_mode e MC_DIR \<and> e_length e \<ge> 2 \<and> unat (e_length e) \<le> DIR_MAX \<and> e_name e ! 0 \<noteq> 0 then Some (e, r) else None)"

definition vsPsuDot :: "bytes \<Rightarrow> bytes \<Rightarrow> bytes option" where
  "vsPsuDot name bs =
     (case read_ent bs of None \<Rightarrow> None | Some (e, r) \<Rightarrow> if has_mode e MC_DIR \<and> c_str (e_name e) = name then Some r else None)"

definition psu_fill :: "nat \<Rightarrow> nat" where
  "psu_fill n = (if n mod PSU_ALIGN = 0 then 0 else PSU_ALIGN - n mod PSU_ALIGN)"

text \<open>\<open>skip i\<close> tells whether the padding after the \<open>i\<close>th file can be skipped.\<close>

fun psu_files :: "(nat \<Rightarrow> bool) \<Rightarrow> (nat \<Rightarrow> bool) \<Rightarrow> nat \<Rightarrow> bytes \<Rightarrow> vs_file list \<Rightarrow> 32 word \<Rightarrow> vs_err + vs_file list" where
  "psu_files mem skip 0 bs fs tot = Inr fs"
| "psu_files mem skip (Suc n) bs fs tot =
     (case read_ent bs of
        None \<Rightarrow> Inl VMCSAVES_ERR_PSU
      | Some (e, r) \<Rightarrow>
          if \<not> has_mode e MC_FILE then psu_files mem skip n r fs tot
          else if length fs \<ge> SAVE_FILES \<or> e_length e > SAVE_MAX_SIZE \<or> tot + e_length e > SAVE_MAX_SIZE then Inl VMCSAVES_ERR_TOO_BIG
          else
            let name = c_str (e_name e); size = unat (e_length e) in
            if \<not> vsNameOk name \<or> name \<in> set (map f_name fs) then Inl VMCSAVES_ERR_NAME
            else if \<not> mem (max 1 size) then Inl VMCSAVES_ERR_MEMORY
            else if length r < size \<or> (psu_fill size \<noteq> 0 \<and> \<not> skip (length fs)) then Inl VMCSAVES_ERR_PSU
            else psu_files mem skip n (drop (size + psu_fill size) r) (fs @ [file_of e (take size r)]) (tot + e_length e))"

definition vsLoadPsu :: "(nat \<Rightarrow> bool) \<Rightarrow> (nat \<Rightarrow> bool) \<Rightarrow> bytes option \<Rightarrow> vs_err + vs_save" where
  "vsLoadPsu mem skip psu =
     (case psu of None \<Rightarrow> Inl VMCSAVES_ERR_NO_SAVE | Some bs \<Rightarrow>
      (case vsPsuHead bs of None \<Rightarrow> Inl VMCSAVES_ERR_PSU | Some (e, r) \<Rightarrow>
       if \<not> vsNameOk (c_str (e_name e)) then Inl VMCSAVES_ERR_NAME
       else
         (case Option.bind (vsPsuDot dot1 r) (vsPsuDot dot2) of
            None \<Rightarrow> Inl VMCSAVES_ERR_PSU
          | Some r2 \<Rightarrow>
              (case psu_files mem skip (unat (e_length e) - 2) r2 [] 0 of
                 Inl err \<Rightarrow> Inl err
               | Inr [] \<Rightarrow> Inl VMCSAVES_ERR_NO_SAVE
               | Inr fs \<Rightarrow> Inr \<lparr>s_name = c_str (e_name e), s_created = e_created e, s_modified = e_modified e, s_files = fs\<rparr>))))"

section \<open>Writing\<close>

definition vsWritePsuEnt :: "16 word \<Rightarrow> nat \<Rightarrow> bytes \<Rightarrow> bytes \<Rightarrow> bytes \<Rightarrow> bytes" where
  "vsWritePsuEnt mode n created modified name =
     ent_bytes (blank_ent\<lparr>e_mode := mode, e_length := of_nat n, e_created := created, e_modified := modified, e_name := name_field name\<rparr>)"

definition psu_item :: "vs_file \<Rightarrow> bytes" where
  "psu_item g =
     vsWritePsuEnt MODE_FILE (length (f_data g)) (f_created g) (f_modified g) (f_name g) @ f_data g
     @ replicate (psu_fill (length (f_data g))) 0xFF"

definition psu_text :: "vs_save \<Rightarrow> bytes" where
  "psu_text s =
     vsWritePsuEnt MODE_DIR (length (s_files s) + 2) (s_created s) (s_modified s) (s_name s)
     @ vsWritePsuEnt MODE_DIR 0 (s_created s) (s_modified s) dot1 @ vsWritePsuEnt MODE_UP 0 (s_created s) (s_modified s) dot2
     @ concat (map psu_item (s_files s))"

text \<open>
  The packed file and the temporary file beside it. The device takes \<open>pe_room\<close> bytes; what the calls answer
  is \<open>pe_create\<close>, \<open>pe_close\<close> and \<open>pe_rename\<close>; \<open>pe_other\<close> is a packed file of that name which something else
  puts there while this one is written. \<open>rename\<close> refuses a name that is taken.
\<close>

record psu_dir =
  pd_psu :: "bytes option"
  pd_tmp :: "bytes option"

record psu_env =
  pe_create :: bool
  pe_room :: nat
  pe_close :: bool
  pe_rename :: bool
  pe_other :: "bytes option"

definition psu_path_ok :: "bytes \<Rightarrow> bytes \<Rightarrow> bool" where
  "psu_path_ok parent name \<longleftrightarrow> length parent + length name + 4 < 384"

definition appeared :: "psu_env \<Rightarrow> psu_dir \<Rightarrow> psu_dir" where
  "appeared env d = (case pd_psu d of None \<Rightarrow> d\<lparr>pd_psu := pe_other env\<rparr> | Some _ \<Rightarrow> d)"

text \<open>The states the directory goes through, in order, and the answer.\<close>

definition vsWritePsu :: "psu_env \<Rightarrow> bytes \<Rightarrow> vs_save \<Rightarrow> psu_dir \<Rightarrow> psu_dir list \<times> (vs_err + unit)" where
  "vsWritePsu env parent s d =
     (if \<not> vsNameOk (s_name s) \<or> \<not> psu_path_ok parent (s_name s) then ([d], Inl VMCSAVES_ERR_NAME)
      else if pd_psu d \<noteq> None then ([d], Inl VMCSAVES_ERR_EXISTS)
      else
        let d0 = d\<lparr>pd_tmp := None\<rparr> in
        if \<not> pe_create env then ([d, d0], Inl VMCSAVES_ERR_WRITE)
        else
          let text = psu_text s; n = min (pe_room env) (length text);
              written = map (\<lambda>k. d0\<lparr>pd_tmp := Some (take k text)\<rparr>) [0..<Suc n];
              ok = (n = length text \<and> pe_close env);
              d1 = appeared env (d0\<lparr>pd_tmp := Some (take n text)\<rparr>)
          in if ok \<and> pe_rename env \<and> pd_psu d1 = None
             then (d # d0 # written @ [d1, \<lparr>pd_psu = pd_tmp d1, pd_tmp = None\<rparr>], Inr ())
             else (d # d0 # written @ [d1, d1\<lparr>pd_tmp := None\<rparr>],
                   Inl (if ok \<and> pd_psu d1 \<noteq> None then VMCSAVES_ERR_EXISTS else VMCSAVES_ERR_WRITE)))"

section \<open>Cut short\<close>

text \<open>At every moment the packed file is what it was, what something else put there, or whole.\<close>

lemma psu_never_cut:
  assumes "vsWritePsu env parent s d = (h, r)" "d' \<in> set h"
  shows "pd_psu d' = pd_psu d \<or> pd_psu d' = pe_other env \<or> pd_psu d' = Some (psu_text s)"
  using assms by (auto simp: vsWritePsu_def Let_def appeared_def split: if_splits option.splits)

lemma psu_written:
  assumes "vsWritePsu env parent s d = (h, r)"
  shows "r = Inr () \<Longrightarrow> pd_psu (last h) = Some (psu_text s) \<and> pd_psu d = None \<and> pd_tmp (last h) = None"
    "r \<noteq> Inr () \<Longrightarrow> pd_psu (last h) = pd_psu d \<or> pd_psu d = None \<and> pd_psu (last h) = pe_other env"
  using assms by (auto simp: vsWritePsu_def Let_def appeared_def split: if_splits option.splits)

section \<open>What was packed is unpacked\<close>

definition psu_ok :: "vs_save \<Rightarrow> bool" where
  "psu_ok s \<longleftrightarrow> save_ok s \<and> vsNameOk (s_name s) \<and> s_files s \<noteq> [] \<and> (\<forall>g \<in> set (s_files s). vsNameOk (f_name g))
     \<and> distinct (map f_name (s_files s))"

lemma read_ent_bytes: "ent_ok e \<Longrightarrow> read_ent (ent_bytes e @ r) = Some (e, r)"
  by (simp add: read_ent_def length_ent_bytes ent_of_bytes)

definition psu_ent :: "16 word \<Rightarrow> nat \<Rightarrow> bytes \<Rightarrow> bytes \<Rightarrow> bytes \<Rightarrow> vs_ent" where
  "psu_ent mode n created modified name =
     blank_ent\<lparr>e_mode := mode, e_length := of_nat n, e_created := created, e_modified := modified, e_name := name_field name\<rparr>"

lemma psu_ent_props:
  assumes "length c = 8" "length m = 8" "name_ok name"
  shows "read_ent (vsWritePsuEnt mode n c m name @ r) = Some (psu_ent mode n c m name, r)"
    "c_str (e_name (psu_ent mode n c m name)) = name" "has_mode (psu_ent mode n c m name) b = (mode AND b \<noteq> 0)"
    "e_length (psu_ent mode n c m name) = of_nat n" "e_created (psu_ent mode n c m name) = c" "e_modified (psu_ent mode n c m name) = m"
proof -
  have "ent_ok (psu_ent mode n c m name)" using assms by (simp add: psu_ent_def ent_ok_def blank_ent_def)
  then show "read_ent (vsWritePsuEnt mode n c m name @ r) = Some (psu_ent mode n c m name, r)"
    by (simp add: vsWritePsuEnt_def read_ent_bytes psu_ent_def)
qed (use assms in \<open>simp_all add: psu_ent_def c_str_name has_mode_def\<close>)

lemma dots_ok: "name_ok dot1" "name_ok dot2"
  by (simp_all add: name_ok_def dot1_def dot2_def)

lemma small_size: "n \<le> unat SAVE_MAX_SIZE \<Longrightarrow> unat (of_nat n :: 32 word) = n \<and> \<not> (of_nat n :: 32 word) > SAVE_MAX_SIZE"
  using unat_of_nat32 [of n] by (simp add: word_less_nat_alt)

lemma psu_files_items:
  assumes "\<forall>g \<in> set fs. file_ok g \<and> vsNameOk (f_name g)" "distinct (map f_name (acc @ fs))" "length (acc @ fs) \<le> SAVE_FILES"
    and "tot = of_nat (sum_list (map (\<lambda>g. length (f_data g)) acc))"
    and "sum_list (map (\<lambda>g. length (f_data g)) (acc @ fs)) \<le> unat SAVE_MAX_SIZE"
  shows "psu_files all_mem all_mem (length fs) (concat (map psu_item fs)) acc tot = Inr (acc @ fs)"
  using assms
proof (induction fs arbitrary: acc tot)
  case (Cons g fs)
  let ?n = "length (f_data g)" and ?sum = "sum_list (map (\<lambda>g. length (f_data g)) acc)"
  let ?e = "psu_ent MODE_FILE ?n (f_created g) (f_modified g) (f_name g)"
  have g: "length (f_created g) = 8" "length (f_modified g) = 8" "name_ok (f_name g)" "vsNameOk (f_name g)"
    using Cons.prems(1) by (simp_all add: file_ok_def)
  note pe = psu_ent_props [OF g(1-3)]
  have n: "unat (of_nat ?n :: 32 word) = ?n" "\<not> (of_nat ?n :: 32 word) > SAVE_MAX_SIZE" using small_size [of ?n] Cons.prems(5) by simp_all
  have t: "tot + of_nat ?n = of_nat (?sum + ?n)" using Cons.prems(4) by simp
  have tn: "\<not> tot + of_nat ?n > SAVE_MAX_SIZE" unfolding t using small_size [of "?sum + ?n"] Cons.prems(5) by simp
  have m: "has_mode ?e MC_FILE" by (simp add: pe(3))
  have f: "file_of ?e (f_data g) = g" using pe(2,5,6) by (simp add: file_of_def)
  have nm: "f_name g \<notin> set (map f_name acc)" using Cons.prems(2) by auto
  have l: "length acc < SAVE_FILES" using Cons.prems(3) by simp
  have IH: "psu_files all_mem all_mem (length fs) (concat (map psu_item fs)) (acc @ [g]) (tot + of_nat ?n) = Inr ((acc @ [g]) @ fs)"
    using Cons.prems t by (intro Cons.IH) auto
  have r: "read_ent (concat (map psu_item (g # fs)))
      = Some (?e, f_data g @ replicate (psu_fill ?n) 0xFF @ concat (map psu_item fs))"
    using pe(1) by (simp add: psu_item_def)
  have "\<not> (length acc \<ge> SAVE_FILES \<or> e_length ?e > SAVE_MAX_SIZE \<or> tot + e_length ?e > SAVE_MAX_SIZE)" using l n(2) tn by (simp add: pe(4))
  then show ?case using r m nm g(4) IH f n(1) by (simp add: Let_def pe(2,4))
qed simp

theorem psu_roundtrip:
  assumes "psu_ok s"
  shows "vsLoadPsu all_mem all_mem (Some (psu_text s)) = Inr s"
proof -
  have s: "save_ok s" "vsNameOk (s_name s)" "s_files s \<noteq> []" "\<forall>g \<in> set (s_files s). vsNameOk (f_name g)" "distinct (map f_name (s_files s))"
    using assms by (simp_all add: psu_ok_def)
  have so: "length (s_created s) = 8" "length (s_modified s) = 8" "name_ok (s_name s)" "length (s_files s) \<le> SAVE_FILES"
    using s(1) by (simp_all add: save_ok_def)
  note h = psu_ent_props [OF so(1-3)] and d1 = psu_ent_props [OF so(1,2) dots_ok(1)] and d2 = psu_ent_props [OF so(1,2) dots_ok(2)]
  let ?e = "psu_ent MODE_DIR (length (s_files s) + 2) (s_created s) (s_modified s) (s_name s)"
  have n: "unat (of_nat (length (s_files s) + 2) :: 32 word) = length (s_files s) + 2" using so(4) by (intro unat_of_nat32) simp
  have "e_name ?e ! 0 \<noteq> 0"
  proof -
    have "s_name s \<noteq> []" "0 \<notin> set (s_name s)" using s(2) so(3) by (simp_all add: vsNameOk_def name_ok_def)
    then have "s_name s ! 0 \<noteq> 0" by (cases "s_name s") auto
    then show ?thesis using \<open>s_name s \<noteq> []\<close> by (simp add: psu_ent_def name_field_def padded_def nth_append)
  qed
  moreover have "(2 :: 32 word) \<le> of_nat (length (s_files s) + 2)" using n by (simp add: word_le_nat_alt)
  ultimately have hd: "vsPsuHead (psu_text s) = Some (?e, vsWritePsuEnt MODE_DIR 0 (s_created s) (s_modified s) dot1
      @ vsWritePsuEnt MODE_UP 0 (s_created s) (s_modified s) dot2 @ concat (map psu_item (s_files s)))"
    using so(4) n unfolding vsPsuHead_def psu_text_def h(1) by (simp add: h(3,4))
  have dots: "Option.bind (vsPsuDot dot1 (vsWritePsuEnt MODE_DIR 0 (s_created s) (s_modified s) dot1
      @ vsWritePsuEnt MODE_UP 0 (s_created s) (s_modified s) dot2 @ concat (map psu_item (s_files s)))) (vsPsuDot dot2)
      = Some (concat (map psu_item (s_files s)))"
    by (simp add: vsPsuDot_def d1(1-3) d2(1-3))
  have fs: "psu_files all_mem all_mem (length (s_files s)) (concat (map psu_item (s_files s))) [] 0 = Inr (s_files s)"
    using psu_files_items [of "s_files s" "[]" 0] s so(4) by (simp add: save_ok_def)
  have "unat (e_length ?e) - 2 = length (s_files s)" using n by (simp add: h(4))
  then show ?thesis unfolding vsLoadPsu_def option.case hd prod.case dots h(2,5,6) using fs s(2,3) by (cases "s_files s") simp_all
qed

text \<open>What is unpacked from any file is well formed, and could be packed again.\<close>

lemma read_ent_lengths:
  assumes "read_ent bs = Some (e, r)"
  shows "length (e_name e) = 32" "length (e_created e) = 8" "length (e_modified e) = 8"
proof -
  have "ent_ok e" using assms ent_of_ok [of "take 512 bs"] by (auto simp: read_ent_def split: if_splits)
  then show "length (e_name e) = 32" "length (e_created e) = 8" "length (e_modified e) = 8" by (simp_all add: ent_ok_def)
qed

lemma psu_files_ok:
  assumes "psu_files mem skip n bs fs tot = Inr gs" "\<forall>g \<in> set fs. file_ok g \<and> vsNameOk (f_name g)" "distinct (map f_name fs)"
    and "length fs \<le> SAVE_FILES" "sum_list (map (\<lambda>g. length (f_data g)) fs) = unat tot" "tot \<le> SAVE_MAX_SIZE"
  shows "(\<forall>g \<in> set gs. file_ok g \<and> vsNameOk (f_name g)) \<and> distinct (map f_name gs) \<and> length gs \<le> SAVE_FILES
    \<and> sum_list (map (\<lambda>g. length (f_data g)) gs) \<le> unat SAVE_MAX_SIZE"
  using assms
proof (induction mem skip n bs fs tot rule: psu_files.induct)
  case (1 mem skip bs fs tot)
  then show ?case by (auto simp: word_le_nat_alt)
next
  case (2 mem skip n bs fs tot)
  obtain e r where e: "read_ent bs = Some (e, r)" using "2.prems"(1) by (auto split: option.splits)
  show ?case
  proof (cases "has_mode e MC_FILE")
    case False
    then show ?thesis using "2.IH"(1) [OF e refl False] "2.prems" e by simp
  next
    case True
    let ?size = "unat (e_length e)"
    have c: "\<not> (length fs \<ge> SAVE_FILES \<or> e_length e > SAVE_MAX_SIZE \<or> tot + e_length e > SAVE_MAX_SIZE)"
      "vsNameOk (c_str (e_name e))" "c_str (e_name e) \<notin> set (map f_name fs)" "\<not> length r < ?size"
      "psu_files mem skip n (drop (?size + psu_fill ?size) r) (fs @ [file_of e (take ?size r)]) (tot + e_length e) = Inr gs"
      using "2.prems"(1) e True by (auto simp: Let_def split: if_splits)
    note l = read_ent_lengths [OF e]
    have f: "file_ok (file_of e (take ?size r))" "f_name (file_of e (take ?size r)) = c_str (e_name e)"
      "length (f_data (file_of e (take ?size r))) = ?size"
      using c_str_props [of "e_name e"] l c(4) by (simp_all add: file_ok_def name_ok_def file_of_def)
    have u: "unat (tot + e_length e) = unat tot + ?size"
      using c(1) "2.prems"(6) by (simp add: unat_word_ariths word_le_nat_alt not_less)
    have nx: "\<not> (\<not> vsNameOk (c_str (e_name e)) \<or> c_str (e_name e) \<in> set (map f_name fs))"
      "\<not> \<not> mem (max 1 ?size)" "\<not> (length r < ?size \<or> (psu_fill ?size \<noteq> 0 \<and> \<not> skip (length fs)))"
      using "2.prems"(1) e True by (auto simp: Let_def split: if_splits)
    have "\<not> \<not> has_mode e MC_FILE" using True by simp
    from "2.IH"(2) [OF e refl this c(1) refl refl nx c(5)] show ?thesis
      using "2.prems"(2-5) c f u by auto
  qed
qed

theorem psu_load_ok:
  assumes "vsLoadPsu mem skip psu = Inr s"
  shows "psu_ok s"
proof -
  obtain bs e r r2 where b: "psu = Some bs" "vsPsuHead bs = Some (e, r)" "vsNameOk (c_str (e_name e))"
    "s_name s = c_str (e_name e)" "s_created s = e_created e" "s_modified s = e_modified e"
    "psu_files mem skip (unat (e_length e) - 2) r2 [] 0 = Inr (s_files s)" "s_files s \<noteq> []"
    using assms by (auto simp: vsLoadPsu_def split: option.splits if_splits sum.splits list.splits)
  have "read_ent bs = Some (e, r)" using b(2) by (auto simp: vsPsuHead_def split: option.splits if_splits)
  note l = read_ent_lengths [OF this]
  note f = psu_files_ok [OF b(7)]
  show ?thesis using f b(3-6,8) l c_str_props [of "e_name e"] by (simp add: psu_ok_def save_ok_def name_ok_def)
qed

end
