(* ===== verification/CardLists.thy ===== *)
theory CardLists
  imports CardPsu
begin

text \<open>
  The lists of saves shown to the user (\<open>src/vmcsaves.c\<close>): the title of a save from its \<open>icon.sys\<close>, the saves of
  a card with its free space, the save folders and packed files of a folder.
\<close>

section \<open>Titles\<close>

abbreviation "ICON_SYS_HEAD \<equiv> (0xC0 + 68 :: nat)"

text \<open>The punctuation of Shift-JIS that has an ASCII form.\<close>

definition sjis_punctuation :: "(nat \<times> nat) list" where
  "sjis_punctuation =
     [(0x8140, 0x20), (0x8143, 0x2C), (0x8144, 0x2E), (0x8146, 0x3A), (0x8147, 0x3B), (0x8148, 0x3F), (0x8149, 0x21), (0x8151, 0x5F),
      (0x815B, 0x2D), (0x815C, 0x2D), (0x817C, 0x2D), (0x815E, 0x2F), (0x8160, 0x7E), (0x8166, 0x27), (0x8168, 0x22), (0x8169, 0x28),
      (0x816A, 0x29), (0x817B, 0x2B), (0x8181, 0x3D), (0x8190, 0x24), (0x8193, 0x25), (0x8194, 0x23), (0x8195, 0x26)]"

definition sjis_char :: "nat \<Rightarrow> nat option" where
  "sjis_char w =
     (if 0x824F \<le> w \<and> w \<le> 0x8258 then Some (0x30 + (w - 0x824F))
      else if 0x8260 \<le> w \<and> w \<le> 0x8279 then Some (0x41 + (w - 0x8260))
      else if 0x8281 \<le> w \<and> w \<le> 0x829A then Some (0x61 + (w - 0x8281))
      else map_of sjis_punctuation w)"

text \<open>The position \<open>i\<close>, whether the second line has begun, and the text so far.\<close>

definition line_starts :: "nat \<Rightarrow> nat \<Rightarrow> bool \<Rightarrow> bool" where
  "line_starts lineBreak i broke \<longleftrightarrow> \<not> broke \<and> i \<ge> lineBreak \<and> lineBreak > 0"

definition with_space :: "bool \<Rightarrow> nat list \<Rightarrow> nat list" where
  "with_space starts out = (if starts \<and> out \<noteq> [] \<and> last out \<noteq> 0x20 then out @ [0x20] else out)"

function sjis_loop :: "nat list \<Rightarrow> nat \<Rightarrow> nat \<Rightarrow> nat \<Rightarrow> bool \<Rightarrow> nat list \<Rightarrow> nat list" where
  "sjis_loop s lineBreak sz i broke out =
     (if i < length s \<and> s ! i \<noteq> 0 \<and> length out < sz - 1 then
        (let starts = line_starts lineBreak i broke; out1 = with_space starts out in
         if starts \<and> length out1 \<ge> sz - 1 then out1
         else if s ! i < 0x80 then sjis_loop s lineBreak sz (i + 1) (broke \<or> starts) (out1 @ [s ! i])
         else if 0xA1 \<le> s ! i \<and> s ! i \<le> 0xDF then sjis_loop s lineBreak sz (i + 1) (broke \<or> starts) out1
         else if i + 1 \<ge> length s then out1
         else
           (case sjis_char (s ! i * 256 + s ! (i + 1)) of
              Some a \<Rightarrow> sjis_loop s lineBreak sz (i + 2) (broke \<or> starts) (out1 @ [a])
            | None \<Rightarrow> sjis_loop s lineBreak sz (i + 2) (broke \<or> starts) out1))
      else out)"
  by pat_completeness auto

termination sjis_loop
  by (relation "measure (\<lambda>(s, lineBreak, sz, i, broke, out). length s - i)") (auto simp: Let_def)

declare sjis_loop.simps [simp del]

definition vsSjisToAscii :: "nat list \<Rightarrow> nat \<Rightarrow> nat \<Rightarrow> nat list" where
  "vsSjisToAscii s lineBreak sz = rev (dropWhile (\<lambda>c. c = 0x20) (rev (sjis_loop s lineBreak sz 0 False [])))"

definition vmcSavesTitle :: "bytes option \<Rightarrow> nat \<Rightarrow> nat list" where
  "vmcSavesTitle iconSys sz =
     (case iconSys of
        Some b \<Rightarrow>
          if length b \<ge> ICON_SYS_HEAD \<and> take 4 b = map of_char ''PS2D''
          then vsSjisToAscii (map unat (field b 0xC0 68)) (unat (le16 (field b 6 2))) sz
          else []
      | None \<Rightarrow> [])"

text \<open>Every title fits its buffer and is plain ASCII without a terminator in it.\<close>

lemma sjis_char_ascii: "sjis_char w = Some a \<Longrightarrow> 0 < a \<and> a < 0x80"
  by (auto simp: sjis_char_def sjis_punctuation_def split: if_splits)

lemma sjis_loop_bounds:
  assumes "length out \<le> sz - 1" "\<forall>c \<in> set out. 0 < c \<and> c < 0x80"
  shows "length (sjis_loop s lb sz i broke out) \<le> sz - 1 \<and> (\<forall>c \<in> set (sjis_loop s lb sz i broke out). 0 < c \<and> c < 0x80)"
  using assms
proof (induction s lb sz i broke out rule: sjis_loop.induct)
  case (1 s lb sz i broke out)
  let ?starts = "line_starts lb i broke"
  let ?out1 = "with_space ?starts out"
  let ?good = "\<lambda>r. length r \<le> sz - 1 \<and> (\<forall>c \<in> set r. 0 < c \<and> c < 0x80)"
  show ?case
  proof (cases "i < length s \<and> s ! i \<noteq> 0 \<and> length out < sz - 1")
    case False
    show ?thesis unfolding sjis_loop.simps [of s lb sz i broke out] if_not_P [OF False] using "1.prems" by simp
  next
    case True
    have o1: "?good ?out1" using "1.prems" True by (auto simp: with_space_def)
    note st = sjis_loop.simps [of s lb sz i broke out, unfolded Let_def if_P [OF True]]
    show ?thesis
    proof (cases "?starts \<and> length ?out1 \<ge> sz - 1")
      case b: True
      show ?thesis unfolding st if_P [OF b] by (rule o1)
    next
      case b: False
      have room: "length ?out1 < sz - 1" using True b by (auto simp: with_space_def)
      note IH = "1.IH" [OF True refl refl b]
      show ?thesis
      proof (cases "s ! i < 0x80")
        case c: True
        have "?good (sjis_loop s lb sz (i + 1) (broke \<or> ?starts) (?out1 @ [s ! i]))" by (rule IH(1) [OF c]) (use room o1 True c in auto)
        then show ?thesis unfolding st if_not_P [OF b] if_P [OF c] .
      next
        case c: False
        show ?thesis
        proof (cases "0xA1 \<le> s ! i \<and> s ! i \<le> 0xDF")
          case k: True
          show ?thesis unfolding st if_not_P [OF b] if_not_P [OF c] if_P [OF k] by (rule IH(2) [OF c k]) (use o1 in simp_all)
        next
          case k: False
          show ?thesis
          proof (cases "i + 1 \<ge> length s")
            case e: True
            show ?thesis unfolding st if_not_P [OF b] if_not_P [OF c] if_not_P [OF k] if_P [OF e] by (rule o1)
          next
            case e: False
            show ?thesis
            proof (cases "sjis_char (s ! i * 256 + s ! (i + 1))")
              case None
              show ?thesis unfolding st if_not_P [OF b] if_not_P [OF c] if_not_P [OF k] if_not_P [OF e] None option.case
                by (rule IH(3) [OF c k e None]) (use o1 in simp_all)
            next
              case (Some a)
              have "?good (sjis_loop s lb sz (i + 2) (broke \<or> ?starts) (?out1 @ [a]))"
                by (rule IH(4) [OF c k e Some]) (use room o1 sjis_char_ascii [OF Some] in auto)
              then show ?thesis unfolding st if_not_P [OF b] if_not_P [OF c] if_not_P [OF k] if_not_P [OF e] Some option.case .
            qed
          qed
        qed
      qed
    qed
  qed
qed

lemma title_bounds:
  assumes "0 < sz"
  shows "length (vmcSavesTitle iconSys sz) < sz \<and> (\<forall>c \<in> set (vmcSavesTitle iconSys sz). 0 < c \<and> c < 0x80)"
proof -
  have "length (vsSjisToAscii s lb sz) < sz \<and> (\<forall>c \<in> set (vsSjisToAscii s lb sz). 0 < c \<and> c < 0x80)" for s lb
  proof -
    let ?o = "sjis_loop s lb sz 0 False []"
    have o: "length ?o \<le> sz - 1 \<and> (\<forall>c \<in> set ?o. 0 < c \<and> c < 0x80)" by (rule sjis_loop_bounds) simp_all
    have "length (dropWhile (\<lambda>c. c = 0x20) (rev ?o)) \<le> length ?o" using length_dropWhile_le [of _ "rev ?o"] by simp
    moreover have "set (dropWhile (\<lambda>c. c = 0x20) (rev ?o)) \<subseteq> set ?o" using set_dropWhileD by fastforce
    ultimately show ?thesis using o assms unfolding vsSjisToAscii_def by (auto simp: less_le_trans)
  qed
  then show ?thesis using assms by (auto simp: vmcSavesTitle_def split: option.splits)
qed

section \<open>The saves of a card\<close>

record vmc_save =
  vm_name :: bytes
  vm_title :: "nat list"
  vm_file :: bytes

abbreviation "TITLE_SIZE \<equiv> (69 :: nat)"

definition icon_sys :: bytes where
  "icon_sys = map of_char ''icon.sys''"

definition file_at :: "vs_vmc \<Rightarrow> vs_ent \<Rightarrow> bytes \<Rightarrow> nat \<Rightarrow> vs_ent option" where
  "file_at v dir name i =
     (case vsEnt v (e_cluster dir) i of Some e \<Rightarrow> if is_file e \<and> vsNameIs e name then Some e else None | None \<Rightarrow> None)"

definition vsReadIn :: "vs_vmc \<Rightarrow> vs_ent \<Rightarrow> bytes \<Rightarrow> nat \<Rightarrow> bytes option" where
  "vsReadIn v dir name sz =
     (case first_some (file_at v dir name) [2..<vsDirLen (e_length dir)] of
        None \<Rightarrow> None
      | Some e \<Rightarrow>
          (let n = min (unat (e_length e)) sz in map_option (take n) (read_clusters v (clusters_for v n) (e_cluster e))))"

definition list_row :: "vs_vmc \<Rightarrow> vs_ent \<Rightarrow> vmc_save" where
  "list_row v e =
     \<lparr>vm_name = c_str (e_name e),
      vm_title = (case vsReadIn v e icon_sys ICON_SYS_HEAD of
                    Some b \<Rightarrow> if length b = ICON_SYS_HEAD then vmcSavesTitle (Some b) TITLE_SIZE else []
                  | None \<Rightarrow> []),
      vm_file = []\<rparr>"

fun list_saves :: "vs_vmc \<Rightarrow> nat \<Rightarrow> nat list \<Rightarrow> vmc_save list \<Rightarrow> vmc_save list" where
  "list_saves v mx [] out = out"
| "list_saves v mx (i # ks) out =
     (if length out \<ge> mx then out
      else
        case vsEnt v (v_root v) i of
          None \<Rightarrow> out
        | Some e \<Rightarrow> if has_mode e MC_EXISTS \<and> has_mode e MC_DIR then list_saves v mx ks (out @ [list_row v e]) else list_saves v mx ks out)"

text \<open>The free space in kilobytes is told even when the root cannot be read.\<close>

definition vmcSavesList :: "(nat \<Rightarrow> bool) \<Rightarrow> card_file option \<Rightarrow> nat \<Rightarrow> vs_err + nat \<times> vmc_save list option" where
  "vmcSavesList mem img mx =
     (case vsOpen mem img False of
        Inl err \<Rightarrow> Inl err
      | Inr v \<Rightarrow>
          (let kb = vsFreeCount v * (csize v div 1024) in
           case vsEnt v (v_root v) 0 of
             None \<Rightarrow> Inr (kb, None)
           | Some dot \<Rightarrow> Inr (kb, Some (list_saves v mx [2..<vsDirLen (e_length dot)] []))))"

definition vmcSavesProbe :: "(nat \<Rightarrow> bool) \<Rightarrow> card_file option \<Rightarrow> nat" where
  "vmcSavesProbe mem img = (case vsOpen mem img False of Inl _ \<Rightarrow> 0 | Inr v \<Rightarrow> if v_ecc v then 2 else 1)"

section \<open>Save folders and packed files\<close>

text \<open>An entry of the folder: what \<open>stat\<close> says and the bytes of its file, for a folder those of its \<open>icon.sys\<close>.\<close>

record dirent =
  de_name :: bytes
  de_stat :: "bool option"
  de_bytes :: "bytes option"

definition zero_head :: bytes where
  "zero_head = replicate ICON_SYS_HEAD 0"

text \<open>\<open>skip n\<close> tells whether the seek that leaves \<open>n\<close> entries to come succeeds.\<close>

fun peek_files :: "(nat \<Rightarrow> bool) \<Rightarrow> nat \<Rightarrow> bytes \<Rightarrow> bytes" where
  "peek_files skip 0 bs = zero_head"
| "peek_files skip (Suc n) bs =
     (case read_ent bs of
        None \<Rightarrow> zero_head
      | Some (e, r) \<Rightarrow>
          if \<not> has_mode e MC_FILE then peek_files skip n r
          else if c_str (e_name e) = icon_sys
          then (if unat (e_length e) \<ge> ICON_SYS_HEAD \<and> length r \<ge> ICON_SYS_HEAD then take ICON_SYS_HEAD r else zero_head)
          else if e_length e > SAVE_MAX_SIZE \<or> \<not> skip n then zero_head
          else peek_files skip n (drop (unat (e_length e) + psu_fill (unat (e_length e))) r))"

definition vsPsuPeek :: "(nat \<Rightarrow> bool) \<Rightarrow> bytes \<Rightarrow> (bytes \<times> bytes) option" where
  "vsPsuPeek skip bs =
     (case vsPsuHead bs of
        None \<Rightarrow> None
      | Some (e, r) \<Rightarrow>
          (let n = unat (e_length e) - 2 in Some (c_str (e_name e), peek_files skip (if skip n then n else 0) (drop 1024 r))))"

definition lower_byte :: "8 word \<Rightarrow> 8 word" where
  "lower_byte b = (if 0x41 \<le> b \<and> b \<le> 0x5A then b + 0x20 else b)"

definition vsIsPsuName :: "bytes \<Rightarrow> bool" where
  "vsIsPsuName n \<longleftrightarrow> length n > 4 \<and> map lower_byte (drop (length n - 4) n) = map of_char ''.psu''"

definition folder_row :: "(nat \<Rightarrow> bool) \<Rightarrow> bytes \<Rightarrow> dirent \<Rightarrow> vmc_save option" where
  "folder_row skip parent d =
     (if take 1 (de_name d) = [0x2E] \<or> length (de_name d) \<ge> 64 \<or> length parent + length (de_name d) \<ge> 384 then None
      else
        case de_stat d of
          None \<Rightarrow> None
        | Some False \<Rightarrow>
            (if \<not> vsIsPsuName (de_name d) then None
             else case Option.bind (de_bytes d) (vsPsuPeek skip) of
                    None \<Rightarrow> None
                  | Some (name, sys) \<Rightarrow> Some \<lparr>vm_name = name, vm_title = vmcSavesTitle (Some sys) TITLE_SIZE, vm_file = de_name d\<rparr>)
        | Some True \<Rightarrow>
            (if length (de_name d) > 32 then None
             else
               Some \<lparr>vm_name = de_name d,
                     vm_title = (case de_bytes d of
                                   Some b \<Rightarrow> if length b \<ge> ICON_SYS_HEAD then vmcSavesTitle (Some (take ICON_SYS_HEAD b)) TITLE_SIZE else []
                                 | None \<Rightarrow> []),
                     vm_file = []\<rparr>))"

definition vmcSavesListFolder :: "(nat \<Rightarrow> bool) \<Rightarrow> bytes \<Rightarrow> dirent list option \<Rightarrow> nat \<Rightarrow> vmc_save list" where
  "vmcSavesListFolder skip parent dir mx = (case dir of None \<Rightarrow> [] | Some ds \<Rightarrow> take mx (List.map_filter (folder_row skip parent) ds))"

section \<open>What the lists show\<close>

definition row_fits :: "vmc_save \<Rightarrow> bool" where
  "row_fits r \<longleftrightarrow> length (vm_name r) < 33 \<and> length (vm_title r) < TITLE_SIZE \<and> length (vm_file r) < 64"

lemma title_length: "length (vmcSavesTitle b TITLE_SIZE) < TITLE_SIZE"
  using title_bounds by simp

lemma list_saves_names:
  assumes "\<And>i. i \<in> set ks \<Longrightarrow> vsEnt v (v_root v) i \<noteq> None" "length out + length ks \<le> mx"
  shows "map vm_name (list_saves v mx ks out) = map vm_name out @ map (\<lambda>e. c_str (e_name e)) (filter shown (List.map_filter (vsEnt v (v_root v)) ks))"
  using assms
proof (induction ks arbitrary: out)
  case (Cons i ks)
  obtain e where e: "vsEnt v (v_root v) i = Some e" using Cons.prems(1) [of i] by auto
  then show ?case using Cons.IH [of out] Cons.IH [of "out @ [list_row v e]"] Cons.prems by (simp add: shown_def list_row_def)
qed simp

lemma list_saves_fit:
  assumes "\<forall>r \<in> set out. row_fits r" "length out \<le> mx" "0 < v_ppc v"
  shows "(\<forall>r \<in> set (list_saves v mx ks out). row_fits r) \<and> length (list_saves v mx ks out) \<le> mx"
  using assms
proof (induction ks arbitrary: out)
  case (Cons i ks)
  have row: "row_fits (list_row v e)" if e: "vsEnt v (v_root v) i = Some e" for e
    using c_str_props(1) [of "e_name e"] vsEnt_lengths(1) [OF e Cons.prems(3)] title_length
    by (simp add: row_fits_def list_row_def split: option.split)
  show ?case
  proof (cases "length out < mx \<and> (\<exists>e. vsEnt v (v_root v) i = Some e \<and> has_mode e MC_EXISTS \<and> has_mode e MC_DIR)")
    case True
    then obtain e where e: "vsEnt v (v_root v) i = Some e" "has_mode e MC_EXISTS" "has_mode e MC_DIR" by blast
    have "(\<forall>r \<in> set (list_saves v mx ks (out @ [list_row v e])). row_fits r) \<and> length (list_saves v mx ks (out @ [list_row v e])) \<le> mx"
      using Cons.prems True row [OF e(1)] by (intro Cons.IH) auto
    then show ?thesis using True e by simp
  next
    case False
    then show ?thesis using Cons.IH [OF Cons.prems] Cons.prems by (auto split: option.split)
  qed
qed simp

lemma folder_row_fits:
  assumes "folder_row skip parent d = Some r"
  shows "row_fits r"
proof -
  have "length name < 33" if pk: "vsPsuPeek skip bs = Some (name, sys)" for bs name sys
  proof -
    obtain e r where "read_ent bs = Some (e, r)" "name = c_str (e_name e)"
      using pk by (auto simp: vsPsuPeek_def vsPsuHead_def Let_def split: option.splits if_splits)
    then show ?thesis using read_ent_lengths(1) c_str_props(1) [of "e_name e"] by fastforce
  qed
  then show ?thesis using assms title_length
    by (auto simp: folder_row_def row_fits_def bind_eq_Some_conv split: if_splits option.splits bool.splits)
qed

lemma lists_fit:
  shows "vmcSavesList mem img mx = Inr (kb, Some rows) \<Longrightarrow> length rows \<le> mx \<and> list_all row_fits rows"
    and "length (vmcSavesListFolder skip parent dir mx) \<le> mx \<and> list_all row_fits (vmcSavesListFolder skip parent dir mx)"
proof -
  assume l: "vmcSavesList mem img mx = Inr (kb, Some rows)"
  then obtain v where v: "vsOpen mem img False = Inr v" by (auto simp: vmcSavesList_def split: sum.splits)
  then obtain f where "img = Some f" by (cases img) (auto simp: vsOpen_def)
  then have "v_ppc v = v_ppc (head_of f) \<and> 1 \<le> v_ppc (head_of f)" using v vsOpen_iff [of mem f False v] by (auto simp: head_ok_def Let_def)
  then have p: "0 < v_ppc v" by simp
  obtain ks where "rows = list_saves v mx ks []" using l v by (auto simp: vmcSavesList_def Let_def split: option.splits)
  then show "length rows \<le> mx \<and> list_all row_fits rows" using list_saves_fit [of "[]" mx v ks] p by (simp add: list_all_iff)
next
  show "length (vmcSavesListFolder skip parent dir mx) \<le> mx \<and> list_all row_fits (vmcSavesListFolder skip parent dir mx)"
  proof (cases dir)
    case (Some ds)
    have "row_fits r" if "r \<in> set (List.map_filter (folder_row skip parent) ds)" for r
      using that folder_row_fits by (auto simp: List.map_filter_def)
    then show ?thesis using Some in_set_takeD by (fastforce simp: vmcSavesListFolder_def list_all_iff)
  qed (simp add: vmcSavesListFolder_def)
qed

text \<open>The list of a card that can be read shows its saves, and all of them.\<close>

lemma saves_listed:
  assumes "consistent f"
  shows "\<exists>kb rows. vmcSavesList (\<lambda>_. True) (Some (sure_file f)) DIR_MAX = Inr (kb, Some rows) \<and> map vm_name rows = save_names f"
proof -
  obtain v where v: "vsOpen (\<lambda>_. True) (Some (sure_file f)) False = Inr v" "card_ok v"
    using assms by (auto simp: consistent_def split: sum.splits)
  then obtain t where "v_file v = sure_file f" unfolding vsOpen_iff by (auto simp: head_of_def Let_def)
  then have s: "sure v" by (simp add: sure_def sure_file_def)
  have d: "dirlen v \<le> length (chain_of v (v_root v)) * v_ppc v" "2 \<le> dirlen v" using v(2) by (simp_all add: card_ok_def)
  have e: "vsEnt v (v_root v) i \<noteq> None" if "i < dirlen v" for i
    using root_entry_self [OF v(2) s, of i] that d(1) by simp
  then obtain dot where dot: "vsEnt v (v_root v) 0 = Some dot" using d(2) by fastforce
  then have l: "vsDirLen (e_length dot) = dirlen v" by (simp add: dirlen_def)
  have "dirlen v \<le> DIR_MAX" unfolding l [symmetric] vsDirLen_def by simp
  then have "map vm_name (list_saves v DIR_MAX [2..<dirlen v] []) = map (\<lambda>e. c_str (e_name e)) (saves_of v)"
    using list_saves_names [of "[2..<dirlen v]" v "[]" DIR_MAX] e by (simp add: saves_of_def)
  then show ?thesis using v(1) dot l by (simp add: vmcSavesList_def save_names_def)
qed

lemma found_listed:
  assumes "0 < v_ppc v"
  shows "vsFindSave v name = None \<longleftrightarrow> name \<notin> set (map (\<lambda>e. c_str (e_name e)) (saves_of v))"
proof -
  have "vsNameIs e name \<longleftrightarrow> c_str (e_name e) = name" if "vsEnt v (v_root v) i = Some e" for i e
    using vsEnt_lengths(1) [OF that assms] c_str_props(1) [of "e_name e"] by (auto simp: vsNameIs_def)
  then have at: "save_at v name i = None \<longleftrightarrow> (\<forall>e. vsEnt v (v_root v) i = Some e \<longrightarrow> shown e \<longrightarrow> c_str (e_name e) \<noteq> name)" for i
    by (auto simp: save_at_def shown_def split: option.split)
  have names: "set (map (\<lambda>e. c_str (e_name e)) (saves_of v))
      = {c_str (e_name e) |e. shown e \<and> (\<exists>i \<in> set [2..<dirlen v]. vsEnt v (v_root v) i = Some e)}"
    by (force simp: saves_of_def List.map_filter_def)
  show ?thesis unfolding vsFindSave_dirlen first_some_None names at by blast
qed

end
