(* ===== verification/CardCopy.thy ===== *)
theory CardCopy
  imports CardLists "HOL-Library.Multiset"
begin

text \<open>
  Copies of saves between a card, a folder on the drive and a packed file (\<open>src/vmcsaves.c\<close>). A folder keeps
  the files and their bytes but not the dates of the card, which are taken from the clock and the drive.
\<close>

section \<open>Dates\<close>

text \<open>The part of \<open>gmtime\<close> the code uses: days since 1970 as year, month and day.\<close>

definition leap :: "nat \<Rightarrow> bool" where
  "leap y \<longleftrightarrow> y mod 4 = 0 \<and> (y mod 100 \<noteq> 0 \<or> y mod 400 = 0)"

definition year_len :: "nat \<Rightarrow> nat" where
  "year_len y = (if leap y then 366 else 365)"

function year_and_day :: "nat \<Rightarrow> nat \<Rightarrow> nat \<times> nat" where
  "year_and_day y d = (if d < year_len y then (y, d) else year_and_day (y + 1) (d - year_len y))"
  by pat_completeness auto

termination year_and_day
  by (relation "measure (\<lambda>(y, d). d)") (auto simp: year_len_def)

declare year_and_day.simps [simp del]

definition month_lens :: "nat \<Rightarrow> nat list" where
  "month_lens y = [31, if leap y then 29 else 28, 31, 30, 31, 30, 31, 31, 30, 31, 30, 31]"

fun month_and_day :: "nat list \<Rightarrow> nat \<Rightarrow> nat \<times> nat" where
  "month_and_day [] d = (0, d)"
| "month_and_day (n # ns) d = (if d < n then (0, d) else (case month_and_day ns (d - n) of (m, e) \<Rightarrow> (m + 1, e)))"

text \<open>A date stamp of a card, in the time of Japan: seconds, minutes, hours, day, month and year.\<close>

definition vsStamp :: "nat \<Rightarrow> bytes" where
  "vsStamp t =
     (let jst = t + 9 * 60 * 60; s = jst mod 86400;
          (y, yd) = year_and_day 1970 (jst div 86400); (m, d) = month_and_day (month_lens y) yd
      in [0, of_nat (s mod 60), of_nat (s div 60 mod 60), of_nat (s div 3600), of_nat (d + 1), of_nat (m + 1),
          of_nat (y mod 256), of_nat (y div 256)])"

section \<open>A folder on the drive\<close>

text \<open>What the drive answers for a path: the names of a folder, whether it is one and its date, the size and bytes of a file.\<close>

record drive =
  dr_names :: "bytes \<Rightarrow> bytes list option"
  dr_stat :: "bytes \<Rightarrow> (bool \<times> nat) option"
  dr_open :: "bytes \<Rightarrow> (int \<times> bytes) option"
  dr_now :: nat

definition slash :: bytes where
  "slash = map of_char ''/''"

fun folder_names :: "drive \<Rightarrow> bytes \<Rightarrow> bytes list \<Rightarrow> bytes list \<Rightarrow> vs_err + bytes list" where
  "folder_names dr dir [] acc = Inr acc"
| "folder_names dr dir (n # ns) acc =
     (if n = dot1 \<or> n = dot2 then folder_names dr dir ns acc
      else if length dir + length n \<ge> 384 then folder_names dr dir ns acc
      else if (\<exists>t. dr_stat dr (dir @ n) = Some (True, t)) then folder_names dr dir ns acc
      else if length acc \<ge> SAVE_FILES then Inl VMCSAVES_ERR_TOO_BIG
      else if length n > 32 then Inl VMCSAVES_ERR_NAME
      else folder_names dr dir ns (acc @ [n]))"

definition file_stamp :: "drive \<Rightarrow> bytes \<Rightarrow> bytes \<Rightarrow> bytes" where
  "file_stamp dr path created = (case dr_stat dr path of Some (_, t) \<Rightarrow> vsStamp t | None \<Rightarrow> created)"

fun folder_files :: "(nat \<Rightarrow> bool) \<Rightarrow> drive \<Rightarrow> bytes \<Rightarrow> bytes \<Rightarrow> bytes list \<Rightarrow> vs_file list \<Rightarrow> nat \<Rightarrow> vs_err + vs_file list" where
  "folder_files mem dr dir created [] fs tot = Inr fs"
| "folder_files mem dr dir created (n # ns) fs tot =
     (case dr_open dr (dir @ n) of
        None \<Rightarrow> Inl VMCSAVES_ERR_READ
      | Some (len, bs) \<Rightarrow>
          if len < 0 then Inl VMCSAVES_ERR_READ
          else if nat len > unat SAVE_MAX_SIZE \<or> tot + nat len > unat SAVE_MAX_SIZE then Inl VMCSAVES_ERR_TOO_BIG
          else if \<not> mem (max 1 (nat len)) then Inl VMCSAVES_ERR_MEMORY
          else if length bs < nat len then Inl VMCSAVES_ERR_READ
          else
            let st = file_stamp dr (dir @ n) created in
            folder_files mem dr dir created ns
              (fs @ [\<lparr>f_name = n, f_created = st, f_modified = st, f_data = take (nat len) bs\<rparr>]) (tot + nat len))"

definition vsLoadFolder :: "(nat \<Rightarrow> bool) \<Rightarrow> drive \<Rightarrow> bytes \<Rightarrow> bytes \<Rightarrow> vs_err + vs_save" where
  "vsLoadFolder mem dr parent name =
     (if length name > 32 \<or> name = [] \<or> 0x2F \<in> set name then Inl VMCSAVES_ERR_NAME
      else if \<not> mem (SAVE_FILES * 33) then Inl VMCSAVES_ERR_MEMORY
      else
        let dir = take 319 (parent @ name @ slash) in
        case dr_names dr dir of
          None \<Rightarrow> Inl VMCSAVES_ERR_NO_SAVE
        | Some ns \<Rightarrow>
            (case folder_names dr dir ns [] of
               Inl err \<Rightarrow> Inl err
             | Inr [] \<Rightarrow> Inl VMCSAVES_ERR_NO_SAVE
             | Inr list \<Rightarrow>
                 (let created = vsStamp (dr_now dr) in
                  case folder_files mem dr dir created list [] 0 of
                    Inl err \<Rightarrow> Inl err
                  | Inr fs \<Rightarrow> Inr \<lparr>s_name = name, s_created = created, s_modified = created, s_files = fs\<rparr>)))"

text \<open>
  Writing one: the folder is there already, can be made, and which of its files can be opened and written
  whole. The files of the new folder are a map from names to bytes; a file that fails is removed.
\<close>

record folder_env =
  fo_exists :: bool
  fo_mkdir :: bool
  fo_open :: "nat \<Rightarrow> bool"
  fo_write :: "nat \<Rightarrow> bool"

fun write_folder_files :: "folder_env \<Rightarrow> nat \<Rightarrow> vs_file list \<Rightarrow> (bytes \<rightharpoonup> bytes) \<Rightarrow> (bytes \<rightharpoonup> bytes) \<times> (vs_err + unit)" where
  "write_folder_files env k [] m = (m, Inr ())"
| "write_folder_files env k (g # gs) m =
     (if \<not> fo_open env k then (m, Inl VMCSAVES_ERR_WRITE)
      else if \<not> fo_write env k then (m(f_name g := None), Inl VMCSAVES_ERR_WRITE)
      else write_folder_files env (Suc k) gs (m(f_name g \<mapsto> f_data g)))"

definition vsWriteFolder :: "folder_env \<Rightarrow> vs_save \<Rightarrow> (bytes \<rightharpoonup> bytes) option \<times> (vs_err + unit)" where
  "vsWriteFolder env s =
     (if fo_exists env then (None, Inl VMCSAVES_ERR_EXISTS)
      else if \<not> fo_mkdir env then (None, Inl VMCSAVES_ERR_WRITE)
      else case write_folder_files env 0 (s_files s) Map.empty of (m, r) \<Rightarrow> (Some m, r))"

section \<open>Copies\<close>

definition vmcSavesExport :: "(nat \<Rightarrow> bool) \<Rightarrow> card_file option \<Rightarrow> bytes \<Rightarrow> folder_env \<Rightarrow> (bytes \<rightharpoonup> bytes) option \<times> (vs_err + unit)" where
  "vmcSavesExport mem img name env =
     (case vsLoadVmc mem img name of Inl err \<Rightarrow> (None, Inl err) | Inr s \<Rightarrow> vsWriteFolder env s)"

definition vmcSavesImport :: "(nat \<Rightarrow> bool) \<Rightarrow> drive \<Rightarrow> bytes \<Rightarrow> bytes \<Rightarrow> card_file option \<Rightarrow> card_file option \<times> (vs_err + unit)" where
  "vmcSavesImport mem dr parent name img =
     (case vsLoadFolder mem dr parent name of Inl err \<Rightarrow> (img, Inl err) | Inr s \<Rightarrow> vsWriteVmc mem s img)"

definition vmcSavesExportPsu :: "(nat \<Rightarrow> bool) \<Rightarrow> card_file option \<Rightarrow> bytes \<Rightarrow> psu_env \<Rightarrow> bytes \<Rightarrow> psu_dir \<Rightarrow> psu_dir list \<times> (vs_err + unit)" where
  "vmcSavesExportPsu mem img name env parent d =
     (case vsLoadVmc mem img name of Inl err \<Rightarrow> ([d], Inl err) | Inr s \<Rightarrow> vsWritePsu env parent s d)"

definition vmcSavesImportPsu :: "(nat \<Rightarrow> bool) \<Rightarrow> (nat \<Rightarrow> bool) \<Rightarrow> bytes option \<Rightarrow> card_file option \<Rightarrow> card_file option \<times> (vs_err + unit)" where
  "vmcSavesImportPsu mem skip psu img =
     (case vsLoadPsu mem skip psu of Inl err \<Rightarrow> (img, Inl err) | Inr s \<Rightarrow> vsWriteVmc mem s img)"

definition vmcSavesFolderToPsu :: "(nat \<Rightarrow> bool) \<Rightarrow> drive \<Rightarrow> bytes \<Rightarrow> bytes \<Rightarrow> psu_env \<Rightarrow> bytes \<Rightarrow> psu_dir \<Rightarrow> psu_dir list \<times> (vs_err + unit)" where
  "vmcSavesFolderToPsu mem dr parent name env outParent d =
     (case vsLoadFolder mem dr parent name of Inl err \<Rightarrow> ([d], Inl err) | Inr s \<Rightarrow> vsWritePsu env outParent s d)"

definition vmcSavesPsuToFolder :: "(nat \<Rightarrow> bool) \<Rightarrow> (nat \<Rightarrow> bool) \<Rightarrow> bytes option \<Rightarrow> folder_env \<Rightarrow> (bytes \<rightharpoonup> bytes) option \<times> (vs_err + unit)" where
  "vmcSavesPsuToFolder mem skip psu env =
     (case vsLoadPsu mem skip psu of Inl err \<Rightarrow> (None, Inl err) | Inr s \<Rightarrow> vsWriteFolder env s)"

section \<open>The dates are dates\<close>

lemma year_and_day_bound: "year_and_day y d = (z, e) \<Longrightarrow> y \<le> z \<and> e < year_len z"
proof (induction y d arbitrary: z e rule: year_and_day.induct)
  case (1 y d)
  show ?case
  proof (cases "d < year_len y")
    case True
    then show ?thesis using "1.prems" by (auto simp: year_and_day.simps [of y d])
  next
    case False
    then have "year_and_day (y + 1) (d - year_len y) = (z, e)" using "1.prems" by (simp add: year_and_day.simps [of y d])
    then show ?thesis using "1.IH" [OF False] by fastforce
  qed
qed

lemma month_and_day_bound: "d < sum_list ns \<Longrightarrow> month_and_day ns d = (m, e) \<Longrightarrow> m < length ns \<and> e < ns ! m"
proof (induction ns arbitrary: d m)
  case (Cons n ns)
  show ?case
  proof (cases "d < n")
    case False
    obtain k where "month_and_day ns (d - n) = (k, e)" "m = k + 1" using Cons.prems(2) False by (auto split: prod.splits)
    moreover have "d - n < sum_list ns" using Cons.prems(1) False by simp
    ultimately show ?thesis using Cons.IH by fastforce
  qed (use Cons.prems in auto)
qed simp

lemma year_len_months: "sum_list (month_lens y) = year_len y"
  by (simp add: month_lens_def year_len_def)

lemma length_vsStamp [simp]: "length (vsStamp t) = 8"
  by (simp add: vsStamp_def Let_def split: prod.splits)

section \<open>What is copied\<close>

lemma folder_names_ok:
  assumes "folder_names dr dir ns acc = Inr list" "length acc \<le> SAVE_FILES" "\<forall>n \<in> set acc. length n \<le> 32"
  shows "length list \<le> SAVE_FILES \<and> (\<forall>n \<in> set list. length n \<le> 32)"
  using assms by (induction dr dir ns acc rule: folder_names.induct) (auto split: if_splits)

lemma skip_or_keep:
  assumes "(if a then x else if b then x else if c then x else if u then Inl v else if w then Inl z else y) = Inr l"
  shows "x = Inr l \<or> y = Inr l"
  using assms by (simp split: if_splits)

lemma folder_names_sub: "folder_names dr dir ns acc = Inr list \<Longrightarrow> set list \<subseteq> set acc \<union> set ns"
proof (induction ns arbitrary: acc)
  case (Cons n ns)
  from skip_or_keep [OF Cons.prems [unfolded folder_names.simps]]
  show ?case
  proof
    assume "folder_names dr dir ns acc = Inr list"
    then show ?thesis using Cons.IH by fastforce
  next
    assume "folder_names dr dir ns (acc @ [n]) = Inr list"
    from Cons.IH [OF this] show ?thesis by simp
  qed
qed simp

lemma folder_files_ok:
  assumes "folder_files mem dr dir created ns fs tot = Inr gs" "length created = 8" "\<forall>n \<in> set ns. name_ok n" "\<forall>g \<in> set fs. file_ok g"
    and "sum_list (map (\<lambda>g. length (f_data g)) fs) = tot" "tot \<le> unat SAVE_MAX_SIZE"
  shows "(\<forall>g \<in> set gs. file_ok g) \<and> length gs = length fs + length ns \<and> sum_list (map (\<lambda>g. length (f_data g)) gs) \<le> unat SAVE_MAX_SIZE"
  using assms
proof (induction mem dr dir created ns fs tot rule: folder_files.induct)
  case (2 mem dr dir created n ns fs tot)
  obtain len bs where o: "dr_open dr (dir @ n) = Some (len, bs)" using "2.prems"(1) by (auto split: option.splits)
  let ?st = "file_stamp dr (dir @ n) created"
  let ?g = "\<lparr>f_name = n, f_created = ?st, f_modified = ?st, f_data = take (nat len) bs\<rparr>"
  have c: "\<not> len < 0" "\<not> (nat len > unat SAVE_MAX_SIZE \<or> tot + nat len > unat SAVE_MAX_SIZE)" "\<not> \<not> mem (max 1 (nat len))" "\<not> length bs < nat len"
    "folder_files mem dr dir created ns (fs @ [\<lparr>f_name = n, f_created = ?st, f_modified = ?st, f_data = take (nat len) bs\<rparr>]) (tot + nat len) = Inr gs"
    using "2.prems"(1) o by (auto simp: Let_def split: if_splits)
  have "length ?st = 8" using "2.prems"(2) by (simp add: file_stamp_def split: option.split)
  moreover have "length (take (nat len) bs) = nat len" using c(4) by simp
  moreover have "nat len \<le> unat SAVE_MAX_SIZE" "tot + nat len \<le> unat SAVE_MAX_SIZE" using c(2) by linarith+
  ultimately have new: "\<forall>g \<in> set (fs @ [?g]). file_ok g" "sum_list (map (\<lambda>g. length (f_data g)) (fs @ [?g])) = tot + nat len"
    "tot + nat len \<le> unat SAVE_MAX_SIZE"
    using "2.prems"(3-5) by (simp_all add: file_ok_def)
  have "\<forall>n \<in> set ns. name_ok n" using "2.prems"(3) by simp
  from "2.IH" [OF o refl c(1-4) refl c(5) "2.prems"(2) this new] show ?case by simp
qed simp

lemma folder_load_ok:
  assumes "vsLoadFolder mem dr parent name = Inr s" "0 \<notin> set name" "\<And>ns n. dr_names dr (take 319 (parent @ name @ slash)) = Some ns \<Longrightarrow> n \<in> set ns \<Longrightarrow> 0 \<notin> set n"
  shows "save_ok s \<and> s_name s = name \<and> s_files s \<noteq> []"
proof -
  let ?dir = "take 319 (parent @ name @ slash)"
  obtain ns list fs where n: "dr_names dr ?dir = Some ns" "folder_names dr ?dir ns [] = Inr list" "list \<noteq> []" "length name \<le> 32"
    "folder_files mem dr ?dir (vsStamp (dr_now dr)) list [] 0 = Inr fs"
    "s = \<lparr>s_name = name, s_created = vsStamp (dr_now dr), s_modified = vsStamp (dr_now dr), s_files = fs\<rparr>"
    using assms(1) by (auto simp: vsLoadFolder_def Let_def not_less split: if_splits option.splits sum.splits list.splits)
  have l: "length list \<le> SAVE_FILES \<and> (\<forall>n \<in> set list. length n \<le> 32)" using folder_names_ok [OF n(2)] by simp
  have "\<forall>m \<in> set list. name_ok m" using l folder_names_sub [OF n(2)] assms(3) [OF n(1)] by (auto simp: name_ok_def)
  then have f: "(\<forall>g \<in> set fs. file_ok g) \<and> length fs = length list \<and> sum_list (map (\<lambda>g. length (f_data g)) fs) \<le> unat SAVE_MAX_SIZE"
    using folder_files_ok [OF n(5)] by simp
  then have "fs \<noteq> []" using n(3) by auto
  then show ?thesis using f l n(4,6) assms(2) by (simp add: save_ok_def name_ok_def)
qed

lemma write_folder_done:
  assumes "write_folder_files env k gs m = (m', r)" "distinct (map f_name gs)"
  shows "r = Inr () \<Longrightarrow> m' = m ++ map_of (map (\<lambda>g. (f_name g, f_data g)) gs)"
    "m' n = Some d \<Longrightarrow> m n = Some d \<or> (\<exists>g \<in> set gs. f_name g = n \<and> f_data g = d)"
proof -
  show "r = Inr () \<Longrightarrow> m' = m ++ map_of (map (\<lambda>g. (f_name g, f_data g)) gs)"
    using assms
  proof (induction env k gs m rule: write_folder_files.induct)
    case (2 env k g gs m)
    have o: "fo_open env k" "\<not> \<not> fo_write env k" and w: "write_folder_files env (Suc k) gs (m(f_name g \<mapsto> f_data g)) = (m', r)"
      using "2.prems"(1,2) by (simp_all split: if_splits)
    have "m' = m(f_name g \<mapsto> f_data g) ++ map_of (map (\<lambda>g. (f_name g, f_data g)) gs)"
      using "2.IH" [OF _ o(2) "2.prems"(1) w] o(1) "2.prems"(3) by (simp del: fun_upd_apply add: fun_upd_def [symmetric])
    moreover have "map_of (map (\<lambda>g. (f_name g, f_data g)) gs) (f_name g) = None" using "2.prems"(3) by (auto simp: map_of_eq_None_iff)
    ultimately show ?case by (intro ext) (auto simp: map_add_def split: option.split)
  qed simp
  show "m' n = Some d \<Longrightarrow> m n = Some d \<or> (\<exists>g \<in> set gs. f_name g = n \<and> f_data g = d)"
    using assms(1)
  proof (induction env k gs m rule: write_folder_files.induct)
    case (2 env k g gs m)
    show ?case
    proof (cases "fo_open env k \<and> fo_write env k")
      case True
      then have w: "write_folder_files env (Suc k) gs (m(f_name g \<mapsto> f_data g)) = (m', r)" using "2.prems"(2) by simp
      have "(m(f_name g \<mapsto> f_data g)) n = Some d \<or> (\<exists>g \<in> set gs. f_name g = n \<and> f_data g = d)"
        using "2.IH" [OF _ _ "2.prems"(1) w] True by blast
      then show ?thesis by (cases "n = f_name g") auto
    qed (use "2.prems" in \<open>auto split: if_splits\<close>)
  qed simp
qed

section \<open>A folder read back\<close>

text \<open>A drive that shows a folder with given contents.\<close>

definition contents :: "vs_file list \<Rightarrow> (bytes \<rightharpoonup> bytes)" where
  "contents gs = map_of (map (\<lambda>g. (f_name g, f_data g)) gs)"

definition shows_folder :: "drive \<Rightarrow> bytes \<Rightarrow> (bytes \<rightharpoonup> bytes) \<Rightarrow> bool" where
  "shows_folder dr dir m \<longleftrightarrow>
     (\<exists>ns. dr_names dr dir = Some ns \<and> distinct ns \<and> set ns - {dot1, dot2} = dom m
        \<and> (\<forall>n d. m n = Some d \<longrightarrow> (\<forall>t. dr_stat dr (dir @ n) \<noteq> Some (True, t)) \<and> dr_open dr (dir @ n) = Some (int (length d), d)))"

lemma folder_names_all:
  assumes "\<forall>n \<in> set ns - {dot1, dot2}. length dir + length n < 384 \<and> (\<forall>t. dr_stat dr (dir @ n) \<noteq> Some (True, t)) \<and> length n \<le> 32"
    and "length acc + length (filter (\<lambda>n. n \<noteq> dot1 \<and> n \<noteq> dot2) ns) \<le> SAVE_FILES"
  shows "folder_names dr dir ns acc = Inr (acc @ filter (\<lambda>n. n \<noteq> dot1 \<and> n \<noteq> dot2) ns)"
  using assms
proof (induction ns arbitrary: acc)
  case (Cons n ns)
  show ?case
  proof (cases "n = dot1 \<or> n = dot2")
    case True
    then show ?thesis using Cons by auto
  next
    case False
    then have "length dir + length n < 384" "\<forall>t. dr_stat dr (dir @ n) \<noteq> Some (True, t)" "length n \<le> 32" "length acc < SAVE_FILES"
      using Cons.prems by auto
    moreover have "folder_names dr dir ns (acc @ [n]) = Inr ((acc @ [n]) @ filter (\<lambda>n. n \<noteq> dot1 \<and> n \<noteq> dot2) ns)"
      using Cons.prems False by (intro Cons.IH) auto
    ultimately show ?thesis using False by simp
  qed
qed simp

lemma folder_files_all:
  assumes "\<forall>n \<in> set ns. \<exists>d. m n = Some d \<and> dr_open dr (dir @ n) = Some (int (length d), d)"
    and "tot + sum_list (map (\<lambda>n. length (the (m n))) ns) \<le> unat SAVE_MAX_SIZE"
  shows "\<exists>gs. folder_files all_mem dr dir created ns fs tot = Inr (fs @ gs) \<and> map (\<lambda>g. (f_name g, f_data g)) gs = map (\<lambda>n. (n, the (m n))) ns"
  using assms
proof (induction ns arbitrary: fs tot)
  case (Cons n ns)
  obtain d where d: "m n = Some d" "dr_open dr (dir @ n) = Some (int (length d), d)" using Cons.prems(1) by auto
  let ?st = "file_stamp dr (dir @ n) created"
  let ?g = "\<lparr>f_name = n, f_created = ?st, f_modified = ?st, f_data = d\<rparr>"
  have t: "tot + length d + sum_list (map (\<lambda>n. length (the (m n))) ns) \<le> unat SAVE_MAX_SIZE" using Cons.prems(2) d(1) by simp
  then obtain gs where "folder_files all_mem dr dir created ns (fs @ [?g]) (tot + length d) = Inr ((fs @ [?g]) @ gs)"
    "map (\<lambda>g. (f_name g, f_data g)) gs = map (\<lambda>n. (n, the (m n))) ns"
    using Cons.IH [of "tot + length d" "fs @ [?g]"] Cons.prems(1) by auto
  moreover have "\<not> (nat (int (length d)) > unat SAVE_MAX_SIZE \<or> tot + nat (int (length d)) > unat SAVE_MAX_SIZE)" using t by linarith
  ultimately show ?case using d by (intro exI [of _ "?g # gs"]) (simp add: Let_def)
qed simp

lemma contents_at: "distinct (map f_name gs) \<Longrightarrow> g \<in> set gs \<Longrightarrow> contents gs (f_name g) = Some (f_data g)"
  unfolding contents_def by (rule map_of_is_SomeI) (auto simp: comp_def)

lemma contents_sizes:
  assumes "distinct (map f_name gs)" "mset ns = mset (map f_name gs)"
  shows "sum_list (map (\<lambda>n. length (the (contents gs n))) ns) = sum_list (map (\<lambda>g. length (f_data g)) gs)"
proof -
  have "sum_list (map (\<lambda>n. length (the (contents gs n))) ns) = sum_list (map (\<lambda>n. length (the (contents gs n))) (map f_name gs))"
    using arg_cong [OF assms(2), of "\<lambda>M. sum_mset (image_mset (\<lambda>n. length (the (contents gs n))) M)"]
    by (simp only: mset_map [symmetric] sum_mset_sum_list)
  also have "map (\<lambda>n. length (the (contents gs n))) (map f_name gs) = map (\<lambda>g. length (f_data g)) gs"
    using contents_at [OF assms(1)] by simp
  finally show ?thesis .
qed

lemma contents_listed:
  assumes "map (\<lambda>g. (f_name g, f_data g)) gs = map (\<lambda>n. (n, the (m n))) ns" "set ns = dom m"
  shows "contents gs = m"
proof (rule ext)
  fix k
  show "contents gs k = m k"
    unfolding contents_def assms(1) using assms(2) by (auto simp: map_of_map_restrict restrict_map_def)
qed

lemma shown_folder_loaded:
  assumes "psu_ok s" "shows_folder dr (parent @ s_name s @ slash) (contents (s_files s))" "length parent \<le> 286"
  shows "\<exists>s'. vsLoadFolder all_mem dr parent (s_name s) = Inr s' \<and> s_name s' = s_name s \<and> length (s_files s') = length (s_files s)
    \<and> contents (s_files s') = contents (s_files s)"
proof -
  let ?dir = "parent @ s_name s @ slash" and ?m = "contents (s_files s)" and ?l = "filter (\<lambda>n. n \<noteq> dot1 \<and> n \<noteq> dot2)"
  have s: "save_ok s" "vsNameOk (s_name s)" "s_files s \<noteq> []" "distinct (map f_name (s_files s))" using assms(1) by (simp_all add: psu_ok_def)
  have names: "length (s_name s) \<le> 32" "s_name s \<noteq> []" "0x2F \<notin> set (s_name s)" using s(2) by (simp_all add: vsNameOk_def)
  have ld: "length ?dir \<le> 319" "take 319 ?dir = ?dir" using names(1) assms(3) by (simp_all add: slash_def)
  obtain ns where n: "dr_names dr ?dir = Some ns" "distinct ns" "set ns - {dot1, dot2} = dom ?m"
    "\<And>n d. ?m n = Some d \<Longrightarrow> (\<forall>t. dr_stat dr (?dir @ n) \<noteq> Some (True, t)) \<and> dr_open dr (?dir @ n) = Some (int (length d), d)"
    using assms(2) unfolding shows_folder_def by blast
  have dom: "dom ?m = set (map f_name (s_files s))" unfolding contents_def dom_map_of_conv_image_fst by force
  have short: "\<forall>n \<in> dom ?m. length n \<le> 32" using s(1) unfolding dom by (auto simp: save_ok_def file_ok_def name_ok_def)
  have perm: "mset (?l ns) = mset (map f_name (s_files s))"
    using n(2,3) s(4) dom by (subst set_eq_iff_mset_eq_distinct [symmetric]) auto
  have len: "length (?l ns) = length (s_files s)" using mset_eq_length [OF perm] by simp
  have "folder_names dr ?dir ns [] = Inr ([] @ ?l ns)"
  proof (rule folder_names_all)
    show "\<forall>n \<in> set ns - {dot1, dot2}. length ?dir + length n < 384 \<and> (\<forall>t. dr_stat dr (?dir @ n) \<noteq> Some (True, t)) \<and> length n \<le> 32"
    proof
      fix k
      assume "k \<in> set ns - {dot1, dot2}"
      then have k: "k \<in> dom ?m" by (simp only: n(3))
      then have "length k \<le> 32" "\<forall>t. dr_stat dr (?dir @ k) \<noteq> Some (True, t)" using short n(4) by auto
      moreover from this(1) ld(1) have "length ?dir + length k < 384" by linarith
      ultimately show "length ?dir + length k < 384 \<and> (\<forall>t. dr_stat dr (?dir @ k) \<noteq> Some (True, t)) \<and> length k \<le> 32" by blast
    qed
    show "length [] + length (?l ns) \<le> SAVE_FILES" using len s(1) by (simp add: save_ok_def)
  qed
  then have fn: "folder_names dr ?dir ns [] = Inr (?l ns)" by simp
  have tot: "0 + sum_list (map (\<lambda>n. length (the (?m n))) (?l ns)) \<le> unat SAVE_MAX_SIZE"
    using s(1) contents_sizes [OF s(4) perm] by (simp add: save_ok_def)
  have "\<forall>n \<in> set (?l ns). \<exists>d. ?m n = Some d \<and> dr_open dr (?dir @ n) = Some (int (length d), d)" using n(3,4) by (auto simp: dom_def set_eq_iff)
  from folder_files_all [OF this tot, of "vsStamp (dr_now dr)" "[]"] obtain gs
    where g: "folder_files all_mem dr ?dir (vsStamp (dr_now dr)) (?l ns) [] 0 = Inr gs" "map (\<lambda>g. (f_name g, f_data g)) gs = map (\<lambda>n. (n, the (?m n))) (?l ns)"
    by auto
  have lg: "length gs = length (s_files s)" using arg_cong [OF g(2), of length] len by simp
  have c: "contents gs = ?m" using contents_listed [OF g(2)] n(3) by auto
  have "?l ns \<noteq> []" using len s(3) by auto
  then have "vsLoadFolder all_mem dr parent (s_name s) = Inr \<lparr>s_name = s_name s, s_created = vsStamp (dr_now dr), s_modified = vsStamp (dr_now dr), s_files = gs\<rparr>"
    using names n(1) fn g(1) unfolding vsLoadFolder_def Let_def ld(2) by (cases "?l ns") simp_all
  then show ?thesis using lg c by simp
qed

end
