(* ===== verification/CardMoves.thy ===== *)
theory CardMoves
  imports CardCopy CardExample
begin

text \<open>
  What the save manager promises of the copies it makes beside the card: packed files, folders on the drive,
  and the list of a card.
\<close>

section \<open>Examples\<close>










section \<open>The statements\<close>







text \<open>
  C18: The list of a consistent card that can be read shows all its saves, in the order of the root: the names
  in it are exactly those a load finds, and every row fits the fields of the list.
\<close>

theorem card_list:
  assumes "consistent f" "reliable f"
  shows "\<exists>kb rows. vmcSavesList all_mem (Some f) DIR_MAX = Inr (kb, Some rows) \<and> list_all row_fits rows \<and> map vm_name rows = save_names f
    \<and> (\<forall>n. n \<in> vm_name ` set rows \<longleftrightarrow> load_later f n \<noteq> Inl VMCSAVES_ERR_NO_SAVE)"
proof -
  obtain v where v: "vsOpen all_mem (Some f) False = Inr v" "sure_file f = f" "firm v" using open_reliable [OF assms] by metis
  have p: "0 < v_ppc v" using v(3) by (simp add: firm_def)
  obtain kb rows where l: "vmcSavesList all_mem (Some f) DIR_MAX = Inr (kb, Some rows)" "map vm_name rows = save_names f"
    using saves_listed [OF assms(1)] v(2) by auto
  have "n \<in> set (save_names f) \<longleftrightarrow> load_later f n \<noteq> Inl VMCSAVES_ERR_NO_SAVE" for n
    using found_listed [OF p, of n] no_save_iff [OF v(1), of n] v(1,2) by (simp add: save_names_def load_later_def)
  then show ?thesis using l lists_fit(1) [OF l(1)] by (metis list.set_map)
qed

theorem card_list_witness:
  "\<exists>kb rows. vmcSavesList all_mem (Some ex_card) DIR_MAX = Inr (kb, Some rows) \<and> map vm_name rows = [[0x41]]"
  using card_list [OF ex_consistent ex_reliable] ex_names by auto

end
